(* ===== verification/Prelude.thy ===== *)
theory Prelude
  imports Main "HOL-Library.Word" "HOL-Library.List_Lexorder"
begin

text \<open>
  What the components share: the machine integers and byte strings of the code, results with an
  error on the left, byte slices, the little-endian codecs behind Rust's \<open>to_le_bytes\<close> and
  \<open>from_le_bytes\<close>, and \<open>BTreeMap\<close> as a strictly sorted association list, with the interface
  \<open>ordered_map\<close> the table engines rely on.
\<close>

named_theorems codec_simps "equations that push encoders and decoders through byte strings"

section \<open>Types\<close>

type_synonym u8 = "8 word"
type_synonym u16 = "16 word"
type_synonym u32 = "32 word"
type_synonym u64 = "64 word"
type_synonym bytes = "u8 list"

section \<open>Results\<close>

text \<open>A Rust \<open>Result<T, E>\<close> is the sum \<open>'e + 'a\<close>; the \<open>?\<close> operator is \<open>rbind\<close>.\<close>

definition rbind :: "'e + 'a \<Rightarrow> ('a \<Rightarrow> 'e + 'b) \<Rightarrow> 'e + 'b" where
  "rbind m f = (case m of Inl e \<Rightarrow> Inl e | Inr a \<Rightarrow> f a)"

lemma rbind_simps [simp]: "rbind (Inl e) f = Inl e" "rbind (Inr a) f = f a"
  by (simp_all add: rbind_def)

lemma rbind_eq_Inr_iff: "rbind m f = Inr b \<longleftrightarrow> (\<exists>a. m = Inr a \<and> f a = Inr b)"
  by (cases m) auto

lemma rbind_eq_Inl_iff: "rbind m f = Inl e \<longleftrightarrow> m = Inl e \<or> (\<exists>a. m = Inr a \<and> f a = Inl e)"
  by (cases m) auto

fun fold_result :: "('a \<Rightarrow> 'r \<Rightarrow> 'e + 'a) \<Rightarrow> 'r list \<Rightarrow> 'a \<Rightarrow> 'e + 'a" where
  "fold_result f [] a = Inr a"
| "fold_result f (r # rs) a = rbind (f a r) (fold_result f rs)"

lemma fold_result_append: "fold_result f (rs @ rs') a = rbind (fold_result f rs a) (fold_result f rs')"
  by (induction rs arbitrary: a) (auto simp: rbind_def split: sum.splits)

definition ok_or :: "'a option \<Rightarrow> 'e \<Rightarrow> 'e + 'a" where
  "ok_or x e = (case x of None \<Rightarrow> Inl e | Some a \<Rightarrow> Inr a)"

lemma ok_or_simps [simp]: "ok_or None e = Inl e" "ok_or (Some a) e = Inr a"
  by (simp_all add: ok_or_def)

section \<open>Actions\<close>

text \<open>
  Code that changes shared state and may fail: a function from the state to a result and the state it
  leaves, also when it fails, so that an error part way keeps what was already done.
\<close>

type_synonym ('s, 'e, 'a) st_action = "'s \<Rightarrow> ('e + 'a) \<times> 's"

definition pret :: "'a \<Rightarrow> ('s, 'e, 'a) st_action" where
  "pret a s = (Inr a, s)"

definition perr :: "'e \<Rightarrow> ('s, 'e, 'a) st_action" where
  "perr e s = (Inl e, s)"

definition pbind :: "('s, 'e, 'a) st_action \<Rightarrow> ('a \<Rightarrow> ('s, 'e, 'b) st_action) \<Rightarrow> ('s, 'e, 'b) st_action" where
  "pbind m f s = (case m s of (Inl e, t) \<Rightarrow> (Inl e, t) | (Inr a, t) \<Rightarrow> f a t)"

definition plift :: "'e + 'a \<Rightarrow> ('s, 'e, 'a) st_action" where
  "plift r s = (r, s)"

fun pmapM :: "('a \<Rightarrow> ('s, 'e, unit) st_action) \<Rightarrow> 'a list \<Rightarrow> ('s, 'e, unit) st_action" where
  "pmapM f [] = pret ()"
| "pmapM f (x # xs) = pbind (f x) (\<lambda>_. pmapM f xs)"

lemma pbind_Inr: "m s = (Inr a, t) \<Longrightarrow> pbind m f s = f a t"
  by (simp add: pbind_def)

lemma pbind_Inl: "m s = (Inl e, t) \<Longrightarrow> pbind m f s = (Inl e, t)"
  by (simp add: pbind_def)

lemma pbind_pret [simp]: "pbind (pret a) f s = f a s"
  by (simp add: pbind_def pret_def)

lemma plift_simps [simp]: "pbind (plift (Inr a)) f s = f a s" "pbind (plift (Inl e)) f s = (Inl e, s)"
  by (simp_all add: pbind_def plift_def)

text \<open>
  Loops that follow links of stored data have no bound of their own: their actions carry fuel and
  answer \<open>None\<close> when it runs out.
\<close>

type_synonym ('s, 'e, 'a) fuel_action = "'s \<Rightarrow> (('e + 'a) \<times> 's) option"

definition flift :: "('s, 'e, 'a) st_action \<Rightarrow> ('s, 'e, 'a) fuel_action" where
  "flift m s = Some (m s)"

definition fbind :: "('s, 'e, 'a) fuel_action \<Rightarrow> ('a \<Rightarrow> ('s, 'e, 'b) fuel_action) \<Rightarrow> ('s, 'e, 'b) fuel_action" where
  "fbind m f s = (case m s of None \<Rightarrow> None | Some (Inl e, t) \<Rightarrow> Some (Inl e, t) | Some (Inr a, t) \<Rightarrow> f a t)"

lemma fbind_Inr: "m s = Some (Inr a, t) \<Longrightarrow> fbind m f s = f a t"
  by (simp add: fbind_def)

lemma fbind_flift: "m s = (Inr a, t) \<Longrightarrow> fbind (flift m) f s = f a t"
  by (simp add: fbind_def flift_def)

text \<open>
  \<open>runs m s Q\<close>: the action succeeds from \<open>s\<close>, and \<open>Q\<close> holds of its answer and the state it leaves;
  \<open>fruns\<close> also says that the fuel is enough.
\<close>

definition runs :: "('s, 'e, 'a) st_action \<Rightarrow> 's \<Rightarrow> ('a \<Rightarrow> 's \<Rightarrow> bool) \<Rightarrow> bool" where
  "runs m s Q \<longleftrightarrow> (\<exists>a t. m s = (Inr a, t) \<and> Q a t)"

definition fruns :: "('s, 'e, 'a) fuel_action \<Rightarrow> 's \<Rightarrow> ('a \<Rightarrow> 's \<Rightarrow> bool) \<Rightarrow> bool" where
  "fruns m s Q \<longleftrightarrow> (\<exists>a t. m s = Some (Inr a, t) \<and> Q a t)"

lemma runs_pret [simp]: "runs (pret a) s Q = Q a s"
  by (simp add: runs_def pret_def)

lemma runs_plift [simp]: "runs (plift (Inr a)) s Q = Q a s"
  by (simp add: runs_def plift_def)

lemma runs_pbind [simp]: "runs (pbind m f) s Q = runs m s (\<lambda>a t. runs (f a) t Q)"
  by (auto simp: runs_def pbind_def split: sum.splits prod.splits)

lemma fruns_flift [simp]: "fruns (flift m) s Q = runs m s Q"
  by (simp add: runs_def fruns_def flift_def)

lemma fruns_fbind [simp]: "fruns (fbind m f) s Q = fruns m s (\<lambda>a t. fruns (f a) t Q)"
  by (auto simp: fruns_def fbind_def split: sum.splits prod.splits option.splits)

lemma runs_mono: "runs m s P \<Longrightarrow> (\<And>a t. P a t \<Longrightarrow> Q a t) \<Longrightarrow> runs m s Q"
  by (auto simp: runs_def)

lemma fruns_mono: "fruns m s P \<Longrightarrow> (\<And>a t. P a t \<Longrightarrow> Q a t) \<Longrightarrow> fruns m s Q"
  by (auto simp: fruns_def)

section \<open>Slices\<close>

text \<open>\<open>bslice a b xs\<close> is \<open>xs[a..b]\<close>; the code calls it only where \<open>a \<le> b \<le> len\<close>.\<close>

definition bslice :: "nat \<Rightarrow> nat \<Rightarrow> 'a list \<Rightarrow> 'a list" where
  "bslice a b xs = take (b - a) (drop a xs)"

lemma bslice_skip [codec_simps]:
  "length xs \<le> a \<Longrightarrow> bslice a b (xs @ ys) = bslice (a - length xs) (b - length xs) ys"
  by (simp add: bslice_def)

lemma bslice_Cons [codec_simps]: "0 < a \<Longrightarrow> bslice a b (x # xs) = bslice (a - 1) (b - 1) xs"
  by (cases a) (auto simp: bslice_def)

lemma bslice_front [codec_simps]: "length xs = b \<Longrightarrow> bslice 0 b (xs @ ys) = xs"
  by (simp add: bslice_def)

lemma bslice_all [codec_simps]: "length xs = b \<Longrightarrow> bslice 0 b xs = xs"
  by (simp add: bslice_def)

lemma bslice_prefix: "b \<le> length xs \<Longrightarrow> bslice a b (xs @ ys) = bslice a b xs"
  by (cases "a \<le> b") (simp_all add: bslice_def)

lemma length_bslice [simp]: "length (bslice a b xs) = min (b - a) (length xs - a)"
  by (simp add: bslice_def min.commute)

lemma bslice_append_bslice: "a \<le> b \<Longrightarrow> b \<le> c \<Longrightarrow> bslice a b xs @ bslice b c xs = bslice a c xs"
proof -
  assume le: "a \<le> b" "b \<le> c"
  have "bslice b c xs = take (c - b) (drop (b - a) (drop a xs))"
    using le by (simp add: bslice_def)
  moreover have "c - a = (b - a) + (c - b)"
    using le by simp
  ultimately show ?thesis
    by (simp add: bslice_def take_add)
qed

text \<open>\<open>buf[off..off + src.len()].copy_from_slice(src)\<close>, for a range inside the buffer.\<close>

definition put_slice :: "nat \<Rightarrow> 'a list \<Rightarrow> 'a list \<Rightarrow> 'a list" where
  "put_slice off src buf = take off buf @ src @ drop (off + length src) buf"

lemma length_put_slice [simp]:
  "off + length src \<le> length buf \<Longrightarrow> length (put_slice off src buf) = length buf"
  by (simp add: put_slice_def)

text \<open>\<open>Vec::resize(n, x)\<close>.\<close>

definition resize :: "nat \<Rightarrow> 'a \<Rightarrow> 'a list \<Rightarrow> 'a list" where
  "resize n x xs = take n xs @ replicate (n - length xs) x"

lemma length_resize [simp]: "length (resize n x xs) = n"
  by (simp add: resize_def min_def)

section \<open>Little-endian integers\<close>

fun nat_le :: "nat \<Rightarrow> nat \<Rightarrow> bytes" where
  "nat_le 0 x = []"
| "nat_le (Suc n) x = of_nat (x mod 256) # nat_le n (x div 256)"

fun le_nat :: "bytes \<Rightarrow> nat" where
  "le_nat [] = 0"
| "le_nat (b # bs) = unat b + 256 * le_nat bs"

lemma length_nat_le [simp]: "length (nat_le n x) = n"
  by (induction n arbitrary: x) auto

lemma unat_bounds:
  "unat (a :: u8) < 256" "unat (b :: u16) < 65536" "unat (c :: u32) < 4294967296"
  "unat (d :: u64) < 18446744073709551616"
  using unsigned_less [of a, where ?'a = nat] unsigned_less [of b, where ?'a = nat]
    unsigned_less [of c, where ?'a = nat] unsigned_less [of d, where ?'a = nat] by simp_all

lemma unat_byte [simp]: "unat (of_nat (x mod 256) :: u8) = x mod 256"
  by (simp add: unat_of_nat)

lemma le_nat_nat_le: "le_nat (nat_le n x) = x mod 256 ^ n"
proof (induction n arbitrary: x)
  case 0
  then show ?case by simp
next
  case (Suc n)
  have "x mod (256 * 256 ^ n) = 256 * (x div 256 mod 256 ^ n) + x mod 256"
    by (rule mod_mult2_eq)
  then show ?case
    using Suc.IH [of "x div 256"] by simp
qed

lemma le_nat_bound: "le_nat bs < 256 ^ length bs"
proof (induction bs)
  case Nil
  then show ?case by simp
next
  case (Cons b bs)
  have "unat b < 256"
    by (rule unat_bounds)
  with Cons show ?case by simp
qed

lemma nat_le_le_nat: "nat_le (length bs) (le_nat bs) = bs"
proof (induction bs)
  case Nil
  then show ?case by simp
next
  case (Cons b bs)
  have b: "unat b < 256"
    by (rule unat_bounds)
  then have "(unat b + 256 * le_nat bs) div 256 = le_nat bs"
    and "(unat b + 256 * le_nat bs) mod 256 = unat b"
    by simp_all
  then show ?case
    using Cons by simp
qed

definition u16_le :: "u16 \<Rightarrow> bytes" where "u16_le w = nat_le 2 (unat w)"
definition u32_le :: "u32 \<Rightarrow> bytes" where "u32_le w = nat_le 4 (unat w)"
definition u64_le :: "u64 \<Rightarrow> bytes" where "u64_le w = nat_le 8 (unat w)"
definition u16_of_le :: "bytes \<Rightarrow> u16" where "u16_of_le bs = of_nat (le_nat bs)"
definition u32_of_le :: "bytes \<Rightarrow> u32" where "u32_of_le bs = of_nat (le_nat bs)"
definition u64_of_le :: "bytes \<Rightarrow> u64" where "u64_of_le bs = of_nat (le_nat bs)"

lemma length_u_le [simp]:
  "length (u16_le a) = 2" "length (u32_le b) = 4" "length (u64_le c) = 8"
  by (simp_all add: u16_le_def u32_le_def u64_le_def)

lemma u_of_le_le [simp]:
  "u16_of_le (u16_le a) = a" "u32_of_le (u32_le b) = b" "u64_of_le (u64_le c) = c"
proof -
  have "unat a < 65536" "unat b < 4294967296" "unat c < 18446744073709551616"
    by (rule unat_bounds)+
  then show "u16_of_le (u16_le a) = a" "u32_of_le (u32_le b) = b" "u64_of_le (u64_le c) = c"
    by (simp_all add: u16_of_le_def u16_le_def u32_of_le_def u32_le_def u64_of_le_def u64_le_def
        le_nat_nat_le)
qed

lemma u_le_of_le:
  "length bs = 2 \<Longrightarrow> u16_le (u16_of_le bs) = bs"
  "length bs = 4 \<Longrightarrow> u32_le (u32_of_le bs) = bs"
  "length bs = 8 \<Longrightarrow> u64_le (u64_of_le bs) = bs"
proof -
  show "length bs = 2 \<Longrightarrow> u16_le (u16_of_le bs) = bs"
    using le_nat_bound [of bs] nat_le_le_nat [of bs]
    by (simp add: u16_le_def u16_of_le_def unat_of_nat)
  show "length bs = 4 \<Longrightarrow> u32_le (u32_of_le bs) = bs"
    using le_nat_bound [of bs] nat_le_le_nat [of bs]
    by (simp add: u32_le_def u32_of_le_def unat_of_nat)
  show "length bs = 8 \<Longrightarrow> u64_le (u64_of_le bs) = bs"
    using le_nat_bound [of bs] nat_le_le_nat [of bs]
    by (simp add: u64_le_def u64_of_le_def unat_of_nat)
qed

text \<open>The cast \<open>len as u32\<close> wraps; it keeps a length below \<open>2 ^ 32\<close>.\<close>

lemma unat_u32_len [simp]: "n < 4294967296 \<Longrightarrow> unat (of_nat n :: u32) = n"
  by (simp add: unat_of_nat)

lemma unat_u64_len [simp]: "n < 18446744073709551616 \<Longrightarrow> unat (of_nat n :: u64) = n"
  by (simp add: unat_of_nat)

lemma u64_less_succ:
  assumes "(b :: u64) \<noteq> 2 ^ 64 - 1"
  shows "b < b + 1"
proof -
  have "unat b \<noteq> unat (2 ^ 64 - 1 :: u64)"
    using assms by (simp only: word_unat_eq_iff not_False_eq_True)
  then have "unat b + 1 < 18446744073709551616"
    using unat_bounds(4) [of b] by simp
  then show ?thesis
    by (simp add: word_less_nat_alt unat_word_ariths)
qed

section \<open>Counted runs of 64-bit integers\<close>

text \<open>The loops that read \<open>count\<close> consecutive \<open>u64\<close> values from a buffer.\<close>

lemma length_concat_u64 [simp]: "length (concat (map u64_le ws)) = 8 * length ws"
  by (induction ws) auto

lemma u64_le_slice:
  assumes "i < length ws" and "n = 8 * i" and "m = 8 * i + 8"
  shows "u64_of_le (bslice n m (concat (map u64_le ws) @ rest)) = ws ! i"
  using assms
proof (induction ws arbitrary: i n m)
  case Nil
  then show ?case by simp
next
  case (Cons w ws)
  show ?case
  proof (cases i)
    case 0
    with Cons.prems show ?thesis by (simp add: bslice_def)
  next
    case (Suc j)
    with Cons.prems show ?thesis
      using Cons.IH [of j "8 * j" "8 + 8 * j"] by (simp add: bslice_skip)
  qed
qed

section \<open>Byte strings behind their length\<close>

definition len_prefixed :: "bytes \<Rightarrow> bytes" where
  "len_prefixed bs = u32_le (of_nat (length bs)) @ bs"

text \<open>
  A length and that many bytes from an offset, with the offset behind them; \<open>e1\<close> when the length is cut
  off, \<open>e2\<close> when the bytes are.
\<close>

definition read_prefixed_or :: "'e \<Rightarrow> 'e \<Rightarrow> bytes \<Rightarrow> nat \<Rightarrow> 'e + (bytes \<times> nat)" where
  "read_prefixed_or e1 e2 d offset =
     (if length d < offset + 4 then Inl e1
      else let n = unat (u32_of_le (bslice offset (offset + 4) d)); offset = offset + 4 in
      if length d < offset + n then Inl e2
      else Inr (bslice offset (offset + n) d, offset + n))"

lemma length_len_prefixed: "length (len_prefixed bs) = 4 + length bs"
  by (simp add: len_prefixed_def)

lemma read_prefixed_or_at:
  assumes "length bs < 2 ^ 32" and "offset = length pre"
  shows "read_prefixed_or e1 e2 (pre @ len_prefixed bs @ rest) offset = Inr (bs, offset + 4 + length bs)"
proof -
  have "bslice (length pre) (length pre + 4) (pre @ len_prefixed bs @ rest) = u32_le (of_nat (length bs))"
    by (simp add: bslice_def len_prefixed_def)
  moreover have "bslice (length pre + 4) (length pre + 4 + length bs) (pre @ len_prefixed bs @ rest) = bs"
    by (simp add: bslice_def len_prefixed_def)
  ultimately show ?thesis
    using assms by (simp add: read_prefixed_or_def length_len_prefixed)
qed

section \<open>Ordered maps\<close>

text \<open>
  \<open>BTreeMap<K, V>\<close>: the entries in key order. \<open>bt_insert\<close> replaces the value of a present key,
  as \<open>insert\<close> does; \<open>bt_range\<close> is \<open>range\<close> over the keys a predicate (an interval) accepts.
\<close>

type_synonym ('k, 'v) btmap = "('k \<times> 'v) list"

definition bt_wf :: "('k::linorder, 'v) btmap \<Rightarrow> bool" where
  "bt_wf m \<longleftrightarrow> sorted_wrt (<) (map fst m)"

fun bt_insert :: "'k::linorder \<Rightarrow> 'v \<Rightarrow> ('k, 'v) btmap \<Rightarrow> ('k, 'v) btmap" where
  "bt_insert k v [] = [(k, v)]"
| "bt_insert k v ((a, b) # m) =
     (if k < a then (k, v) # (a, b) # m
      else if k = a then (k, v) # m
      else (a, b) # bt_insert k v m)"

definition bt_remove :: "'k::linorder \<Rightarrow> ('k, 'v) btmap \<Rightarrow> ('k, 'v) btmap" where
  "bt_remove k m = filter (\<lambda>(a, b). a \<noteq> k) m"

definition bt_get :: "('k::linorder, 'v) btmap \<Rightarrow> 'k \<Rightarrow> 'v option" where
  "bt_get m k = map_of m k"

definition bt_range :: "('k::linorder \<Rightarrow> bool) \<Rightarrow> ('k, 'v) btmap \<Rightarrow> ('k, 'v) btmap" where
  "bt_range P m = filter (\<lambda>(a, b). P a) m"

lemma bt_wf_simps [simp]:
  "bt_wf []"
  "bt_wf ((a, b) # m) \<longleftrightarrow> (\<forall>x\<in>fst ` set m. a < x) \<and> bt_wf m"
  by (auto simp: bt_wf_def)

lemma bt_wf_distinct: "bt_wf m \<Longrightarrow> distinct (map fst m)"
  by (induction m) force+

lemma fst_set_bt_insert [simp]: "fst ` set (bt_insert k v m) = insert k (fst ` set m)"
  by (induction k v m rule: bt_insert.induct) auto

lemma bt_wf_insert [simp]: "bt_wf m \<Longrightarrow> bt_wf (bt_insert k v m)"
  by (induction k v m rule: bt_insert.induct) auto

lemma bt_get_insert [simp]: "bt_get (bt_insert k v m) = (bt_get m)(k \<mapsto> v)"
  by (induction k v m rule: bt_insert.induct) (auto simp: bt_get_def fun_eq_iff)

lemma bt_wf_filter: "bt_wf m \<Longrightarrow> bt_wf (filter P m)"
  by (induction m) auto

lemma bt_wf_remove [simp]: "bt_wf m \<Longrightarrow> bt_wf (bt_remove k m)"
  by (simp add: bt_remove_def bt_wf_filter)

lemma bt_wf_range [simp]: "bt_wf m \<Longrightarrow> bt_wf (bt_range P m)"
  by (simp add: bt_range_def bt_wf_filter)

lemma bt_get_remove [simp]: "bt_get (bt_remove k m) = (bt_get m)(k := None)"
  by (induction m) (auto simp: bt_get_def bt_remove_def fun_eq_iff)

lemma bt_get_range [simp]: "bt_get (bt_range P m) k = (if P k then bt_get m k else None)"
  by (induction m) (auto simp: bt_get_def bt_range_def)

lemma bt_get_Nil [simp]: "bt_get [] k = None"
  by (simp add: bt_get_def)

lemma bt_get_Cons [simp]: "bt_get ((a, b) # m) k = (if k = a then Some b else bt_get m k)"
  by (simp add: bt_get_def)

lemma bt_get_None_iff: "bt_get m k = None \<longleftrightarrow> k \<notin> fst ` set m"
  by (auto simp: bt_get_def map_of_eq_None_iff)

lemma bt_get_Some_iff: "bt_wf m \<Longrightarrow> bt_get m k = Some v \<longleftrightarrow> (k, v) \<in> set m"
  by (simp add: bt_get_def bt_wf_distinct map_of_eq_Some_iff)

text \<open>\<open>values_mut\<close>: every value mapped in place.\<close>

definition bt_map :: "('k \<Rightarrow> 'v \<Rightarrow> 'w) \<Rightarrow> ('k, 'v) btmap \<Rightarrow> ('k, 'w) btmap" where
  "bt_map f m = map (\<lambda>(k, v). (k, f k v)) m"

lemma map_fst_bt_map [simp]: "map fst (bt_map f m) = map fst m"
  by (induction m) (auto simp: bt_map_def)

lemma bt_wf_map [simp]: "bt_wf (bt_map f m) = bt_wf m"
  by (simp add: bt_wf_def)

lemma bt_get_map [simp]: "bt_get (bt_map f m) k = map_option (f k) (bt_get m k)"
  by (induction m) (auto simp: bt_map_def)

lemma length_bt_map [simp]: "length (bt_map f m) = length m"
  by (simp add: bt_map_def)

lemma map_fst_eq_set_eq:
  assumes "map fst xs = map fst ys" and "set xs = set ys" and "distinct (map fst xs)"
  shows "xs = ys"
  using assms
proof (induction xs ys rule: list_induct2')
  case (4 x xs y ys)
  have mem: "y \<in> set (x # xs)" and notin: "fst x \<notin> fst ` set xs" "fst y \<notin> fst ` set ys"
    using "4.prems" by (auto simp flip: set_map)
  then have xy: "x = y"
    using "4.prems"(1) by auto
  have "set xs = set ys"
    using "4.prems"(2) xy notin by (metis imageI insert_ident list.simps(15))
  with "4.prems" "4.IH" xy show ?case by simp
qed auto

text \<open>What the table engines rely on of an ordered map.\<close>

locale ordered_map =
  fixes empty :: "'m"
    and ins :: "'k::linorder \<Rightarrow> 'v \<Rightarrow> 'm \<Rightarrow> 'm"
    and del :: "'k \<Rightarrow> 'm \<Rightarrow> 'm"
    and get :: "'m \<Rightarrow> 'k \<Rightarrow> 'v option"
    and entries :: "'m \<Rightarrow> ('k \<times> 'v) list"
    and wf :: "'m \<Rightarrow> bool"
  assumes wf_empty: "wf empty"
    and wf_ins: "wf m \<Longrightarrow> wf (ins k v m)"
    and wf_del: "wf m \<Longrightarrow> wf (del k m)"
    and get_empty: "get empty k = None"
    and get_ins: "wf m \<Longrightarrow> get (ins k v m) = (get m)(k \<mapsto> v)"
    and get_del: "wf m \<Longrightarrow> get (del k m) = (get m)(k := None)"
    and entries_sorted: "wf m \<Longrightarrow> sorted_wrt (<) (map fst (entries m))"
    and entries_get: "wf m \<Longrightarrow> (k, v) \<in> set (entries m) \<longleftrightarrow> get m k = Some v"
begin

text \<open>Two maps with the same contents list the same entries, whatever led to them.\<close>

lemma entries_unique:
  assumes "wf m" and "wf m'" and "get m = get m'"
  shows "entries m = entries m'"
proof -
  have set_eq: "set (entries m) = set (entries m')"
    using entries_get [OF assms(1)] entries_get [OF assms(2)] assms(3) by auto
  have "map fst (entries m) = map fst (entries m')"
    using strict_sorted_equal [OF entries_sorted [OF assms(1)] entries_sorted [OF assms(2)]] set_eq
    by simp
  moreover have "distinct (map fst (entries m))"
    using entries_sorted [OF assms(1)] by (simp add: strict_sorted_iff)
  ultimately show ?thesis
    using set_eq by (intro map_fst_eq_set_eq)
qed

lemma del_ins: "wf m \<Longrightarrow> get m k = None \<Longrightarrow> entries (del k (ins k v m)) = entries m"
  by (rule entries_unique) (auto simp: wf_ins wf_del get_ins get_del fun_eq_iff)

lemma ins_commute:
  "wf m \<Longrightarrow> k \<noteq> k' \<Longrightarrow> entries (ins k v (ins k' v' m)) = entries (ins k' v' (ins k v m))"
  by (rule entries_unique) (auto simp: wf_ins get_ins fun_eq_iff)

end

interpretation bt: ordered_map "[]" bt_insert bt_remove bt_get "\<lambda>m. m" bt_wf
  by unfold_locales (simp_all add: bt_get_Some_iff, simp add: bt_wf_def)

end
