(* ===== verification/VfsMemory.thy ===== *)
theory VfsMemory
  imports Prelude
begin

text \<open>
  The in-memory virtual file system (\<open>src/src/vfs/memory.rs\<close>, \<open>filesystem.rs\<close>). A
  \<open>MemoryFileSystem\<close> maps paths to entries; a file entry is an \<open>Arc\<close> to the file's data, so
  handles keep working on a file whose entry was removed. The \<open>Arc\<close>s are addresses into the
  component \<open>files\<close>. The interface \<open>random_access_file\<close> is the part of the \<open>File\<close> trait the
  log and the pager rely on.
\<close>

section \<open>Data\<close>

datatype file_lock_mode = Unlocked | Shared | Exclusive

datatype fs_error =
    InvalidPath string string
  | PathExists string
  | PathMissing string
  | ParentMissing string
  | FileAlreadyLocked string
  | PermissionDenied string string
  | AlreadyLocked string
  | InvalidOperation string string
  | UnsupportedOperation string
  | InternalError string
  | IOError
  | WrappedError
  | FsPanic

record memory_file_data =
  buffer :: bytes
  lock :: file_lock_mode

datatype memory_entry =
    MemDirectory "(string \<times> string) list"
  | MemFile nat

record memory_fs =
  tree :: "string \<rightharpoonup> memory_entry"
  files :: "nat \<Rightarrow> memory_file_data"
  next_file :: nat

record memory_file_handle =
  cursor :: nat
  name :: string
  data :: nat

datatype seek_from = SeekStart nat | SeekEnd int | SeekCurrent int

section \<open>File system operations\<close>

definition new_file_data :: memory_file_data where
  "new_file_data = \<lparr>buffer = [], lock = Unlocked\<rparr>"

definition memory_fs_new :: memory_fs where
  "memory_fs_new = \<lparr>tree = Map.empty, files = (\<lambda>_. new_file_data), next_file = 0\<rparr>"

definition exists_path :: "memory_fs \<Rightarrow> string \<Rightarrow> bool" where
  "exists_path fs path = (tree fs path \<noteq> None)"

definition is_file :: "memory_fs \<Rightarrow> string \<Rightarrow> bool" where
  "is_file fs path =
     (case tree fs path of Some entry \<Rightarrow> (case entry of MemFile _ \<Rightarrow> True | _ \<Rightarrow> False) | None \<Rightarrow> False)"

definition is_directory :: "memory_fs \<Rightarrow> string \<Rightarrow> bool" where
  "is_directory fs path =
     (case tree fs path of Some entry \<Rightarrow> (case entry of MemDirectory _ \<Rightarrow> True | _ \<Rightarrow> False)
      | None \<Rightarrow> False)"

definition filesize :: "memory_fs \<Rightarrow> string \<Rightarrow> fs_error + u64" where
  "filesize fs path =
     (case tree fs path of
        Some entry \<Rightarrow>
          (case entry of
             MemFile a \<Rightarrow> Inr (of_nat (length (buffer (files fs a))))
           | _ \<Rightarrow> Inl (InvalidOperation path ''filesize on non-file''))
      | None \<Rightarrow> Inl (PathMissing path))"

definition create_directory :: "memory_fs \<Rightarrow> string \<Rightarrow> fs_error + memory_fs" where
  "create_directory fs path =
     (if tree fs path \<noteq> None then Inl (PathExists path)
      else Inr (fs\<lparr>tree := (tree fs)(path \<mapsto> MemDirectory [])\<rparr>))"

fun split_on :: "'a \<Rightarrow> 'a list \<Rightarrow> 'a list list" where
  "split_on c [] = [[]]"
| "split_on c (x # xs) =
     (if x = c then [] # split_on c xs
      else (case split_on c xs of p # ps \<Rightarrow> (x # p) # ps | [] \<Rightarrow> [[x]]))"

fun join_with :: "'a \<Rightarrow> 'a list list \<Rightarrow> 'a list" where
  "join_with c [] = []"
| "join_with c [p] = p"
| "join_with c (p # q # ps) = p @ c # join_with c (q # ps)"

fun or_insert_dirs :: "string list \<Rightarrow> (string \<rightharpoonup> memory_entry) \<Rightarrow> (string \<rightharpoonup> memory_entry)" where
  "or_insert_dirs [] t = t"
| "or_insert_dirs (p # ps) t =
     or_insert_dirs ps (case t p of None \<Rightarrow> t(p \<mapsto> MemDirectory []) | Some _ \<Rightarrow> t)"

definition create_directory_all :: "memory_fs \<Rightarrow> string \<Rightarrow> fs_error + memory_fs" where
  "create_directory_all fs path =
     (if tree fs path \<noteq> None then Inl (PathExists path)
      else
        let parts = split_on (CHR ''/'') (dropWhile (\<lambda>c. c = CHR ''/'') path);
            parents = map (\<lambda>i. CHR ''/'' # join_with (CHR ''/'') (take (Suc i) parts))
                        [0..<length parts]
        in Inr (fs\<lparr>tree := or_insert_dirs parents (tree fs)\<rparr>))"

definition list_directory :: "memory_fs \<Rightarrow> string \<Rightarrow> fs_error + string list" where
  "list_directory fs path =
     (case tree fs path of
        Some entry \<Rightarrow>
          (case entry of
             MemDirectory d \<Rightarrow> Inr (map fst d)
           | _ \<Rightarrow> Inl (InvalidOperation path ''list_directory on non-directory''))
      | None \<Rightarrow> Inl (PathMissing path))"

definition remove_directory_all :: "memory_fs \<Rightarrow> string \<Rightarrow> fs_error + memory_fs" where
  "remove_directory_all fs path =
     (case tree fs path of
        Some _ \<Rightarrow> Inr (fs\<lparr>tree := (tree fs)(path := None)\<rparr>)
      | None \<Rightarrow> Inl (PathMissing path))"

definition remove_directory :: "memory_fs \<Rightarrow> string \<Rightarrow> fs_error + memory_fs" where
  "remove_directory fs path = remove_directory_all fs path"

definition create_file :: "memory_fs \<Rightarrow> string \<Rightarrow> fs_error + (memory_fs \<times> memory_file_handle)" where
  "create_file fs path =
     (if tree fs path \<noteq> None then Inl (PathExists path)
      else
        let a = next_file fs in
        Inr (fs\<lparr>tree := (tree fs)(path \<mapsto> MemFile a),
                files := (files fs)(a := new_file_data), next_file := Suc a\<rparr>,
             \<lparr>cursor = 0, name = path, data = a\<rparr>))"

definition open_file :: "memory_fs \<Rightarrow> string \<Rightarrow> fs_error + memory_file_handle" where
  "open_file fs path =
     (case tree fs path of
        Some entry \<Rightarrow>
          (case entry of
             MemFile a \<Rightarrow> Inr \<lparr>cursor = 0, name = path, data = a\<rparr>
           | _ \<Rightarrow> Inl (InvalidOperation path ''open_file on non-file''))
      | None \<Rightarrow> Inl (PathMissing path))"

definition remove_file :: "memory_fs \<Rightarrow> string \<Rightarrow> fs_error + memory_fs" where
  "remove_file fs path =
     (if tree fs path \<noteq> None then Inr (fs\<lparr>tree := (tree fs)(path := None)\<rparr>)
      else Inl (PathMissing path))"

section \<open>Handle operations\<close>

type_synonym open_file_state = "memory_fs \<times> memory_file_handle"

definition file_data :: "open_file_state \<Rightarrow> memory_file_data" where
  "file_data f = files (fst f) (data (snd f))"

definition set_file_data :: "memory_file_data \<Rightarrow> open_file_state \<Rightarrow> open_file_state" where
  "set_file_data d f = ((fst f)\<lparr>files := (files (fst f))(data (snd f) := d)\<rparr>, snd f)"

definition set_cursor :: "nat \<Rightarrow> open_file_state \<Rightarrow> open_file_state" where
  "set_cursor c f = (fst f, (snd f)\<lparr>cursor := c\<rparr>)"

text \<open>
  \<open>overwrite off bs buf\<close> grows the buffer with zeros to hold the range and copies \<open>bs\<close> into it.
\<close>

definition overwrite :: "nat \<Rightarrow> bytes \<Rightarrow> bytes \<Rightarrow> bytes" where
  "overwrite off bs buf =
     (let buf' = (if off + length bs > length buf then resize (off + length bs) 0 buf else buf)
      in put_slice off bs buf')"

definition file_read :: "open_file_state \<Rightarrow> nat \<Rightarrow> bytes \<times> open_file_state" where
  "file_read f n =
     (let buf = buffer (file_data f); c = cursor (snd f) in
      if c \<ge> length buf then ([], f)
      else let len = min n (length buf - c) in (bslice c (c + len) buf, set_cursor (c + len) f))"

definition file_write :: "open_file_state \<Rightarrow> bytes \<Rightarrow> fs_error + open_file_state" where
  "file_write f bs =
     (let buf = buffer (file_data f); c = cursor (snd f) in
      if c + length bs \<ge> 2 ^ 64 then Inl FsPanic
      else Inr (set_cursor (c + length bs)
                 (set_file_data ((file_data f)\<lparr>buffer := overwrite c bs buf\<rparr>) f)))"

definition file_seek :: "open_file_state \<Rightarrow> seek_from \<Rightarrow> open_file_state" where
  "file_seek f pos =
     (case pos of
        SeekStart offset \<Rightarrow> set_cursor offset f
      | SeekEnd offset \<Rightarrow> set_cursor (nat ((int (length (buffer (file_data f))) + offset) mod 2 ^ 64)) f
      | SeekCurrent offset \<Rightarrow> set_cursor (nat ((int (cursor (snd f)) + offset) mod 2 ^ 64)) f)"

definition get_size :: "open_file_state \<Rightarrow> nat" where
  "get_size f = length (buffer (file_data f))"

definition set_size :: "nat \<Rightarrow> open_file_state \<Rightarrow> open_file_state" where
  "set_size n f = set_file_data ((file_data f)\<lparr>buffer := resize n 0 (buffer (file_data f))\<rparr>) f"

definition file_truncate :: "open_file_state \<Rightarrow> open_file_state" where
  "file_truncate f = set_size 0 f"

definition get_lock_status :: "open_file_state \<Rightarrow> file_lock_mode" where
  "get_lock_status f = lock (file_data f)"

definition set_lock_status :: "file_lock_mode \<Rightarrow> open_file_state \<Rightarrow> open_file_state" where
  "set_lock_status mode f = set_file_data ((file_data f)\<lparr>lock := mode\<rparr>) f"

definition read_at_offset :: "open_file_state \<Rightarrow> nat \<Rightarrow> nat \<Rightarrow> bytes" where
  "read_at_offset f off n =
     (let buf = buffer (file_data f) in
      if off \<ge> length buf then []
      else let e = min (min (off + n) (2 ^ 64 - 1)) (length buf) in bslice off e buf)"

definition write_to_offset :: "open_file_state \<Rightarrow> nat \<Rightarrow> bytes \<Rightarrow> fs_error + open_file_state" where
  "write_to_offset f off bs =
     (if off + length bs \<ge> 2 ^ 64
      then Inl (InternalError ''Write operation would overflow address space'')
      else Inr (set_file_data
                  ((file_data f)\<lparr>buffer := overwrite off bs (buffer (file_data f))\<rparr>) f))"

section \<open>Basic facts\<close>

lemma file_data_simps [simp]:
  "file_data (set_file_data d f) = d"
  "file_data (set_cursor c f) = file_data f"
  "snd (set_file_data d f) = snd f"
  "cursor (snd (set_cursor c f)) = c"
  by (simp_all add: file_data_def set_file_data_def set_cursor_def)

lemma length_overwrite [simp]: "length (overwrite off bs buf) = max (off + length bs) (length buf)"
  by (simp add: overwrite_def Let_def)

lemma overwrite_nth:
  assumes "i < max (off + length bs) (length buf)"
  shows "overwrite off bs buf ! i =
    (if off \<le> i \<and> i < off + length bs then bs ! (i - off)
     else if i < length buf then buf ! i else 0)"
  using assms
  by (auto simp: overwrite_def put_slice_def resize_def Let_def nth_append min_def
      split: if_splits)

lemma overwrite_append: "overwrite (length buf) bs buf = buf @ bs"
proof (rule nth_equalityI)
  show "length (overwrite (length buf) bs buf) = length (buf @ bs)"
    by simp
  fix i
  assume "i < length (overwrite (length buf) bs buf)"
  then show "overwrite (length buf) bs buf ! i = (buf @ bs) ! i"
    by (simp add: overwrite_nth nth_append)
qed

lemma bslice_overwrite: "bslice off (off + length bs) (overwrite off bs buf) = bs"
proof (rule nth_equalityI)
  show "length (bslice off (off + length bs) (overwrite off bs buf)) = length bs"
    by simp
  fix i
  assume "i < length (bslice off (off + length bs) (overwrite off bs buf))"
  then show "bslice off (off + length bs) (overwrite off bs buf) ! i = bs ! i"
    by (simp add: bslice_def overwrite_nth)
qed

lemma bslice_overwrite_disjoint:
  assumes "b \<le> off \<or> off + length bs \<le> a" and "b \<le> length buf"
  shows "bslice a b (overwrite off bs buf) = bslice a b buf"
proof (rule nth_equalityI)
  show "length (bslice a b (overwrite off bs buf)) = length (bslice a b buf)"
    using assms by (auto simp: min_def max_def)
  fix i
  assume "i < length (bslice a b (overwrite off bs buf))"
  then show "bslice a b (overwrite off bs buf) ! i = bslice a b buf ! i"
    using assms by (auto simp: bslice_def overwrite_nth)
qed

section \<open>The interface of a file\<close>

text \<open>
  What positioned reads and writes promise, over the file's contents. A write past the end
  leaves a hole of zeros; a read is cut at the end of the file.
\<close>

locale random_access_file =
  fixes contents :: "'f \<Rightarrow> bytes"
    and read_at :: "'f \<Rightarrow> nat \<Rightarrow> nat \<Rightarrow> bytes"
    and write_at :: "'f \<Rightarrow> nat \<Rightarrow> bytes \<Rightarrow> 'e + 'f"
  assumes read_at: "length (contents f) < 2 ^ 64 \<Longrightarrow>
      read_at f off n = take n (drop off (contents f))"
    and write_at: "off + length bs < 2 ^ 64 \<Longrightarrow>
      \<exists>f'. write_at f off bs = Inr f' \<and> contents f' = overwrite off bs (contents f)"
begin

lemma write_at_contents:
  "write_at f off bs = Inr f' \<Longrightarrow> off + length bs < 2 ^ 64 \<Longrightarrow>
   contents f' = overwrite off bs (contents f)"
  using write_at [of off bs f] by auto

lemma read_after_write:
  assumes "write_at f off bs = Inr f'" and "off + length bs < 2 ^ 64"
    and "length (contents f) < 2 ^ 64"
  shows "read_at f' off (length bs) = bs"
  using bslice_overwrite [of off bs "contents f"] assms
  by (simp add: read_at write_at_contents bslice_def)

lemma read_disjoint:
  assumes "write_at f off bs = Inr f'" and "off + length bs < 2 ^ 64"
    and "length (contents f) < 2 ^ 64"
    and "a + n \<le> off \<or> off + length bs \<le> a" and "a + n \<le> length (contents f)"
  shows "read_at f' a n = read_at f a n"
  using bslice_overwrite_disjoint [of "a + n" off bs a "contents f"] assms
  by (simp add: read_at write_at_contents bslice_def)

lemma write_at_end:
  assumes "write_at f (length (contents f)) bs = Inr f'"
    and "length (contents f) + length bs < 2 ^ 64"
  shows "contents f' = contents f @ bs"
  using assms by (simp add: write_at_contents overwrite_append)

end

interpretation mem_file: random_access_file "\<lambda>f. buffer (file_data f)" read_at_offset write_to_offset
proof unfold_locales
  fix f :: open_file_state and off n :: nat
  assume "length (buffer (file_data f)) < 2 ^ 64"
  then show "read_at_offset f off n = take n (drop off (buffer (file_data f)))"
    by (auto simp: read_at_offset_def Let_def bslice_def min_def)
next
  fix off :: nat and bs :: bytes and f :: open_file_state
  assume "off + length bs < 2 ^ 64"
  then show "\<exists>f'. write_to_offset f off bs = Inr f' \<and>
      buffer (file_data f') = overwrite off bs (buffer (file_data f))"
    by (simp add: write_to_offset_def)
qed

section \<open>Directories\<close>

text \<open>No operation records a file in its directory: every directory stays empty.\<close>

definition dirs_empty :: "memory_fs \<Rightarrow> bool" where
  "dirs_empty fs \<longleftrightarrow> (\<forall>p d. tree fs p = Some (MemDirectory d) \<longrightarrow> d = [])"

lemma or_insert_dirs_empty:
  "(\<forall>p d. t p = Some (MemDirectory d) \<longrightarrow> d = []) \<Longrightarrow>
   or_insert_dirs ps t p = Some (MemDirectory d) \<Longrightarrow> d = []"
proof (induction ps arbitrary: t)
  case Nil
  then show ?case by auto
next
  case (Cons a ps)
  let ?t = "case t a of None \<Rightarrow> t(a \<mapsto> MemDirectory []) | Some _ \<Rightarrow> t"
  have "\<forall>p d. ?t p = Some (MemDirectory d) \<longrightarrow> d = []"
    using Cons.prems(1) by (auto split: option.splits)
  then show ?case
    using Cons.prems(2) by (intro Cons.IH [of ?t]) auto
qed

lemma dirs_empty_ops:
  "dirs_empty memory_fs_new"
  "dirs_empty fs \<Longrightarrow> create_directory fs p = Inr fs' \<Longrightarrow> dirs_empty fs'"
  "dirs_empty fs \<Longrightarrow> create_directory_all fs p = Inr fs' \<Longrightarrow> dirs_empty fs'"
  "dirs_empty fs \<Longrightarrow> remove_directory fs p = Inr fs' \<Longrightarrow> dirs_empty fs'"
  "dirs_empty fs \<Longrightarrow> create_file fs p = Inr (fs', h) \<Longrightarrow> dirs_empty fs'"
  "dirs_empty fs \<Longrightarrow> remove_file fs p = Inr fs' \<Longrightarrow> dirs_empty fs'"
  by (auto simp: dirs_empty_def memory_fs_new_def create_directory_def create_directory_all_def
      remove_directory_def remove_directory_all_def create_file_def remove_file_def Let_def
      split: if_splits option.splits dest: or_insert_dirs_empty)

section \<open>Properties\<close>

text \<open>
  A positioned write to a memory file stores the bytes, grows the file with zeros where needed,
  and leaves every other range as it was: what is read at the written range is what was written,
  and a read that does not meet it returns what it returned before.
\<close>

lemma memory_file_read_write:
  assumes "length (buffer (file_data f)) < 2 ^ 64" and "off + length bs < 2 ^ 64"
  shows "\<exists>f'. write_to_offset f off bs = Inr f' \<and> read_at_offset f' off (length bs) = bs \<and>
    get_size f' = max (off + length bs) (get_size f) \<and>
    (\<forall>a n. (a + n \<le> off \<or> off + length bs \<le> a) \<and> a + n \<le> get_size f \<longrightarrow>
       read_at_offset f' a n = read_at_offset f a n)"
proof -
  obtain f' where f': "write_to_offset f off bs = Inr f'"
    "buffer (file_data f') = overwrite off bs (buffer (file_data f))"
    using mem_file.write_at [OF assms(2)] by blast
  then show ?thesis
    using mem_file.read_after_write [OF f'(1) assms(2,1)] mem_file.read_disjoint [OF f'(1) assms(2,1)]
    by (auto simp: get_size_def)
qed

lemma memory_file_read_write_witness:
  "\<exists>f :: open_file_state. \<exists>f'. write_to_offset f 3 [1, 2] = Inr f' \<and> read_at_offset f' 3 2 = [1, 2] \<and>
    get_size f' = 5"
proof -
  let ?f = "(memory_fs_new, \<lparr>cursor = 0, name = [], data = 0\<rparr>) :: open_file_state"
  have "buffer (file_data ?f) = []"
    by (simp add: file_data_def memory_fs_new_def new_file_data_def)
  then obtain f' where "write_to_offset ?f 3 [1, 2] = Inr f'"
    "read_at_offset f' 3 (length [1 :: u8, 2]) = [1, 2]" "get_size f' = max (3 + length [1 :: u8, 2]) (get_size ?f)"
    using memory_file_read_write [of ?f 3 "[1, 2]"] by auto
  moreover have "get_size ?f = 0"
    by (simp add: get_size_def file_data_def memory_fs_new_def new_file_data_def)
  ultimately show ?thesis
    by (intro exI [of _ ?f] exI [of _ f']) (simp add: numeral_2_eq_2)
qed

end
