(* ===== verification/PagerConfig.thy ===== *)
theory PagerConfig
  imports VfsMemory
begin

text \<open>
  The pager's configuration types and errors (\<open>src/src/pager/config.rs\<close>, \<open>error.rs\<close>), and the
  third-party codecs that pages and log records pass through (\<open>lz4_flex\<close>, \<open>zstd\<close>, \<open>aes_gcm\<close>,
  \<open>sha2\<close>): a record of functions every user takes as an argument. \<open>libs_ok\<close> states the documented
  behaviour the code relies on. Error values keep the typed fields of the source; the formatted
  message texts are left out.
\<close>

section \<open>Third-party codecs\<close>

record libs =
  lz4_compress :: "bytes \<Rightarrow> bytes"
  lz4_decompress :: "bytes \<Rightarrow> bytes option"
  zstd_encode :: "bytes \<Rightarrow> bytes option"
  zstd_decode :: "bytes \<Rightarrow> bytes option"
  aes_encrypt :: "bytes \<Rightarrow> bytes \<Rightarrow> bytes \<Rightarrow> bytes option"
  aes_decrypt :: "bytes \<Rightarrow> bytes \<Rightarrow> bytes \<Rightarrow> bytes option"
  sha256 :: "bytes \<Rightarrow> bytes"

text \<open>
  Decompression inverts compression, decryption with the same key and nonce inverts encryption,
  a SHA-256 digest has 32 bytes, an LZ4 block starts with its 4-byte size and a Zstd frame with a
  4-byte magic number.
\<close>

definition libs_ok :: "libs \<Rightarrow> bool" where
  "libs_ok L \<longleftrightarrow>
     (\<forall>x. lz4_decompress L (lz4_compress L x) = Some x \<and> 4 \<le> length (lz4_compress L x)) \<and>
     (\<forall>x y. zstd_encode L x = Some y \<longrightarrow> zstd_decode L y = Some x \<and> 4 \<le> length y) \<and>
     (\<forall>k n x y. aes_encrypt L k n x = Some y \<longrightarrow> aes_decrypt L k n y = Some x) \<and>
     (\<forall>x. length (sha256 L x) = 32)"

lemma libs_okD:
  assumes "libs_ok L"
  shows "lz4_decompress L (lz4_compress L x) = Some x" "4 \<le> length (lz4_compress L x)"
    "zstd_encode L x = Some y \<Longrightarrow> zstd_decode L y = Some x"
    "zstd_encode L x = Some y \<Longrightarrow> 4 \<le> length y"
    "aes_encrypt L k n x = Some y \<Longrightarrow> aes_decrypt L k n y = Some x"
    "length (sha256 L x) = 32"
  using assms by (auto simp: libs_ok_def)

text \<open>A concrete instance: stored blocks behind a 4-byte tag, a reversing cipher, a length digest.\<close>

definition plain_libs :: libs where
  "plain_libs =
     \<lparr>lz4_compress = (\<lambda>x. [1, 2, 3, 4] @ x), lz4_decompress = (\<lambda>x. Some (drop 4 x)),
      zstd_encode = (\<lambda>x. Some ([40, 181, 47, 253] @ x)), zstd_decode = (\<lambda>x. Some (drop 4 x)),
      aes_encrypt = (\<lambda>k n x. Some (rev x)), aes_decrypt = (\<lambda>k n x. Some (rev x)),
      sha256 = (\<lambda>x. replicate 32 (of_nat (length x)))\<rparr>"

lemma plain_libs_ok: "libs_ok plain_libs"
  by (auto simp: libs_ok_def plain_libs_def)

section \<open>Configuration\<close>

datatype compression_type = Comp_None | Lz4 | Zstd

definition compression_from_u8 :: "u8 \<Rightarrow> compression_type option" where
  "compression_from_u8 v =
     (if v = 0 then Some Comp_None else if v = 1 then Some Lz4 else if v = 2 then Some Zstd
      else None)"

fun compression_to_u8 :: "compression_type \<Rightarrow> u8" where
  "compression_to_u8 Comp_None = 0"
| "compression_to_u8 Lz4 = 1"
| "compression_to_u8 Zstd = 2"

datatype encryption_type = Enc_None | Aes256Gcm

definition encryption_from_u8 :: "u8 \<Rightarrow> encryption_type option" where
  "encryption_from_u8 v = (if v = 0 then Some Enc_None else if v = 1 then Some Aes256Gcm else None)"

fun encryption_to_u8 :: "encryption_type \<Rightarrow> u8" where
  "encryption_to_u8 Enc_None = 0"
| "encryption_to_u8 Aes256Gcm = 1"

datatype page_size = Size4KB | Size8KB | Size16KB | Size32KB | Size64KB

definition page_size_from_u32 :: "u32 \<Rightarrow> page_size option" where
  "page_size_from_u32 v =
     (if v = 4096 then Some Size4KB else if v = 8192 then Some Size8KB
      else if v = 16384 then Some Size16KB else if v = 32768 then Some Size32KB
      else if v = 65536 then Some Size64KB else None)"

fun page_size_to_u32 :: "page_size \<Rightarrow> u32" where
  "page_size_to_u32 Size4KB = 4096"
| "page_size_to_u32 Size8KB = 8192"
| "page_size_to_u32 Size16KB = 16384"
| "page_size_to_u32 Size32KB = 32768"
| "page_size_to_u32 Size64KB = 65536"

definition page_header_size :: nat where "page_header_size = 32"

definition page_checksum_size :: nat where "page_checksum_size = 32"

definition page_data_size :: "page_size \<Rightarrow> nat" where
  "page_data_size s = unat (page_size_to_u32 s) - page_header_size - page_checksum_size"

record pager_config =
  pc_page_size :: page_size
  pc_compression :: compression_type
  pc_encryption :: encryption_type
  pc_encryption_key :: "bytes option"
  pc_enable_checksums :: bool
  pc_cache_capacity :: nat
  pc_cache_write_back :: bool

definition pager_config_default :: pager_config where
  "pager_config_default =
     \<lparr>pc_page_size = Size4KB, pc_compression = Comp_None, pc_encryption = Enc_None,
      pc_encryption_key = None, pc_enable_checksums = True, pc_cache_capacity = 10000,
      pc_cache_write_back = True\<rparr>"

definition with_page_size :: "page_size \<Rightarrow> pager_config \<Rightarrow> pager_config" where
  "with_page_size s c = c\<lparr>pc_page_size := s\<rparr>"

definition with_compression :: "compression_type \<Rightarrow> pager_config \<Rightarrow> pager_config" where
  "with_compression t c = c\<lparr>pc_compression := t\<rparr>"

definition with_checksums :: "bool \<Rightarrow> pager_config \<Rightarrow> pager_config" where
  "with_checksums enable c = c\<lparr>pc_enable_checksums := enable\<rparr>"

definition with_cache_capacity :: "nat \<Rightarrow> pager_config \<Rightarrow> pager_config" where
  "with_cache_capacity n c = c\<lparr>pc_cache_capacity := n\<rparr>"

definition with_cache_write_back :: "bool \<Rightarrow> pager_config \<Rightarrow> pager_config" where
  "with_cache_write_back wb c = c\<lparr>pc_cache_write_back := wb\<rparr>"

definition with_encryption :: "encryption_type \<Rightarrow> bytes \<Rightarrow> pager_config \<Rightarrow> pager_config" where
  "with_encryption e key c = c\<lparr>pc_encryption := e, pc_encryption_key := Some key\<rparr>"

definition pager_config_validate :: "pager_config \<Rightarrow> string + unit" where
  "pager_config_validate c =
     (if pc_encryption c \<noteq> Enc_None \<and> pc_encryption_key c = None
      then Inl ''Encryption key required when encryption is enabled'' else Inr ())"

lemma config_codecs [simp, codec_simps]:
  "compression_from_u8 (compression_to_u8 c) = Some c"
  "encryption_from_u8 (encryption_to_u8 e) = Some e"
  "page_size_from_u32 (page_size_to_u32 s) = Some s"
proof -
  show "compression_from_u8 (compression_to_u8 c) = Some c"
    by (cases c) (simp_all add: compression_from_u8_def)
  show "encryption_from_u8 (encryption_to_u8 e) = Some e"
    by (cases e) (simp_all add: encryption_from_u8_def)
  show "page_size_from_u32 (page_size_to_u32 s) = Some s"
    by (cases s) (simp_all add: page_size_from_u32_def)
qed

lemma page_data_size_add: "page_data_size s + 64 = unat (page_size_to_u32 s)"
  by (cases s) (simp_all add: page_data_size_def page_header_size_def page_checksum_size_def)

section \<open>Errors\<close>

datatype pager_error =
    VfsError fs_error
  | InvalidPageId u64
  | PageNotFound u64
  | PageChecksumMismatch u64
  | InvalidPageSize u32
  | InvalidFileHeader u32 u32
  | InvalidSuperblock string
  | CompressionError u64 compression_type
  | DecompressionError u64 compression_type
  | PageEncryptionError u64 encryption_type
  | PageDecryptionError u64 encryption_type
  | PageMissingEncryptionKey
  | ConfigError
  | StorageFull
  | PageAlreadyAllocated u64
  | PageAlreadyFree u64
  | PagePinned u64
  | InvalidPageType u8
  | InvalidCompressionType u8
  | InvalidEncryptionType u8
  | InsufficientBuffer string nat nat
  | InvalidDataLength u64
  | InvalidMagic string u32 u32
  | FreeListFull
  | PagerIoError
  | PagerInternalError
  | PagerPanic

end
