(* ===== verification/WalRecord.thy ===== *)
theory WalRecord
  imports PagerConfig
begin

text \<open>
  Log records and their byte format (\<open>src/src/wal/record.rs\<close>, errors of \<open>src/src/wal/error.rs\<close>).
  The compression, encryption and hash functions are the argument \<open>L :: libs\<close>; the nonce drawn by
  \<open>to_bytes\<close> and the clock read by \<open>new\<close> are arguments too.
\<close>

type_synonym lsn = u64
type_synonym txn_id = u64
type_synonym table_id = u64

section \<open>Data\<close>

datatype wal_error =
    WalVfsError fs_error
  | InvalidRecord lsn
  | ChecksumMismatch lsn nat u32 u32
  | CorruptedWal nat string
  | TransactionNotFound txn_id
  | TransactionAlreadyExists txn_id
  | InvalidTransactionState txn_id string string
  | WalFull nat nat
  | RecoveryError lsn string
  | CheckpointError lsn
  | WalIoError
  | SerializationError lsn
  | DeserializationError nat
  | EncryptionError lsn
  | DecryptionError nat
  | MissingEncryptionKey
  | CommitNotificationError txn_id lsn
  | WalInternalError string
  | WalPanic

datatype record_type = RT_Begin | RT_Write | RT_Commit | RT_Rollback | RT_Checkpoint | RT_Prepare

definition record_type_from_u8 :: "u8 \<Rightarrow> wal_error + record_type" where
  "record_type_from_u8 v =
     (if v = 1 then Inr RT_Begin else if v = 2 then Inr RT_Write else if v = 3 then Inr RT_Commit
      else if v = 4 then Inr RT_Rollback else if v = 5 then Inr RT_Checkpoint
      else if v = 6 then Inr RT_Prepare else Inl (InvalidRecord 0))"

fun record_type_to_u8 :: "record_type \<Rightarrow> u8" where
  "record_type_to_u8 RT_Begin = 1"
| "record_type_to_u8 RT_Write = 2"
| "record_type_to_u8 RT_Commit = 3"
| "record_type_to_u8 RT_Rollback = 4"
| "record_type_to_u8 RT_Checkpoint = 5"
| "record_type_to_u8 RT_Prepare = 6"

datatype write_op_type =
    Op_Put | Op_Delete | BloomInsert | GraphAddEdge | GraphRemoveEdge | TimeSeriesInsert
  | TimeSeriesDelete | VectorInsert | VectorDelete | GeoInsert | GeoDelete | FullTextIndex
  | FullTextUpdate | FullTextDelete

definition write_op_from_u8 :: "u8 \<Rightarrow> wal_error + write_op_type" where
  "write_op_from_u8 v =
     (if v = 1 then Inr Op_Put else if v = 2 then Inr Op_Delete else if v = 3 then Inr BloomInsert
      else if v = 4 then Inr GraphAddEdge else if v = 5 then Inr GraphRemoveEdge
      else if v = 6 then Inr TimeSeriesInsert else if v = 7 then Inr TimeSeriesDelete
      else if v = 8 then Inr VectorInsert else if v = 9 then Inr VectorDelete
      else if v = 10 then Inr GeoInsert else if v = 11 then Inr GeoDelete
      else if v = 12 then Inr FullTextIndex else if v = 13 then Inr FullTextUpdate
      else if v = 14 then Inr FullTextDelete else Inl (InvalidRecord 0))"

fun write_op_to_u8 :: "write_op_type \<Rightarrow> u8" where
  "write_op_to_u8 Op_Put = 1"
| "write_op_to_u8 Op_Delete = 2"
| "write_op_to_u8 BloomInsert = 3"
| "write_op_to_u8 GraphAddEdge = 4"
| "write_op_to_u8 GraphRemoveEdge = 5"
| "write_op_to_u8 TimeSeriesInsert = 6"
| "write_op_to_u8 TimeSeriesDelete = 7"
| "write_op_to_u8 VectorInsert = 8"
| "write_op_to_u8 VectorDelete = 9"
| "write_op_to_u8 GeoInsert = 10"
| "write_op_to_u8 GeoDelete = 11"
| "write_op_to_u8 FullTextIndex = 12"
| "write_op_to_u8 FullTextUpdate = 13"
| "write_op_to_u8 FullTextDelete = 14"

datatype record_data =
    Begin txn_id
  | Write txn_id table_id write_op_type bytes bytes
  | Commit txn_id
  | Rollback txn_id
  | Checkpoint lsn "txn_id list"
  | Prepare txn_id

fun data_record_type :: "record_data \<Rightarrow> record_type" where
  "data_record_type (Begin _) = RT_Begin"
| "data_record_type (Write _ _ _ _ _) = RT_Write"
| "data_record_type (Commit _) = RT_Commit"
| "data_record_type (Rollback _) = RT_Rollback"
| "data_record_type (Checkpoint _ _) = RT_Checkpoint"
| "data_record_type (Prepare _) = RT_Prepare"

fun record_txn_id :: "record_data \<Rightarrow> txn_id option" where
  "record_txn_id (Begin t) = Some t"
| "record_txn_id (Write t _ _ _ _) = Some t"
| "record_txn_id (Commit t) = Some t"
| "record_txn_id (Rollback t) = Some t"
| "record_txn_id (Checkpoint _ _) = None"
| "record_txn_id (Prepare t) = Some t"

record wal_record =
  rec_lsn :: lsn
  rec_timestamp :: u64
  rec_data :: record_data
  rec_compression :: compression_type
  rec_encryption :: encryption_type

definition wal_record_new ::
    "u64 \<Rightarrow> lsn \<Rightarrow> record_data \<Rightarrow> compression_type \<Rightarrow> encryption_type \<Rightarrow> wal_record" where
  "wal_record_new now l d c e =
     \<lparr>rec_lsn = l, rec_timestamp = now, rec_data = d, rec_compression = c, rec_encryption = e\<rparr>"

section \<open>Serialization\<close>

fun serialize_data :: "record_data \<Rightarrow> bytes" where
  "serialize_data (Begin t) = u64_le t"
| "serialize_data (Write t tb op key value) =
     u64_le t @ u64_le tb @ [write_op_to_u8 op] @
     u32_le (of_nat (length key)) @ key @ u32_le (of_nat (length value)) @ value"
| "serialize_data (Commit t) = u64_le t"
| "serialize_data (Rollback t) = u64_le t"
| "serialize_data (Checkpoint l active) =
     u64_le l @ u32_le (of_nat (length active)) @ concat (map u64_le active)"
| "serialize_data (Prepare t) = u64_le t"

definition magic_walr :: bytes where
  "magic_walr = [0x57, 0x41, 0x4C, 0x52]"

lemma length_magic_walr [simp]: "length magic_walr = 4"
  by (simp add: magic_walr_def)

definition compress_record :: "libs \<Rightarrow> wal_record \<Rightarrow> bytes \<Rightarrow> wal_error + bytes" where
  "compress_record L r d =
     (case rec_compression r of
        Comp_None \<Rightarrow> Inr d
      | Lz4 \<Rightarrow> Inr (lz4_compress L d)
      | Zstd \<Rightarrow> ok_or (zstd_encode L d) (SerializationError (rec_lsn r)))"

definition encrypt_record ::
    "libs \<Rightarrow> bytes \<Rightarrow> bytes option \<Rightarrow> wal_record \<Rightarrow> bytes \<Rightarrow> wal_error + bytes" where
  "encrypt_record L nonce key r d =
     (case rec_encryption r of
        Enc_None \<Rightarrow> Inr d
      | Aes256Gcm \<Rightarrow>
          rbind (ok_or key MissingEncryptionKey) (\<lambda>k.
          rbind (ok_or (aes_encrypt L k nonce d) (EncryptionError (rec_lsn r))) (\<lambda>enc.
          Inr (nonce @ enc))))"

definition to_bytes :: "libs \<Rightarrow> bytes \<Rightarrow> wal_record \<Rightarrow> bytes option \<Rightarrow> wal_error + bytes" where
  "to_bytes L nonce r key =
     (let hdr = magic_walr @ u64_le (rec_lsn r) @ u64_le (rec_timestamp r) @
                [record_type_to_u8 (data_record_type (rec_data r))] @
                [compression_to_u8 (rec_compression r)] @ [encryption_to_u8 (rec_encryption r)];
          data_bytes = serialize_data (rec_data r)
      in rbind (compress_record L r data_bytes) (\<lambda>compressed.
         rbind (encrypt_record L nonce key r compressed) (\<lambda>final.
         let buf = hdr @ u32_le (of_nat (length data_bytes)) @ u32_le (of_nat (length final)) @ final
         in Inr (buf @ sha256 L buf))))"

section \<open>Deserialization\<close>

fun read_txn_ids :: "nat \<Rightarrow> nat \<Rightarrow> bytes \<Rightarrow> txn_id list \<Rightarrow> wal_error + txn_id list" where
  "read_txn_ids 0 cur bs acc = Inr acc"
| "read_txn_ids (Suc n) cur bs acc =
     (if length bs < cur + 8 then Inl (DeserializationError cur)
      else read_txn_ids n (cur + 8) bs (acc @ [u64_of_le (bslice cur (cur + 8) bs)]))"

definition deserialize_txn :: "(txn_id \<Rightarrow> record_data) \<Rightarrow> bytes \<Rightarrow> wal_error + record_data" where
  "deserialize_txn C bs =
     (if length bs < 8 then Inl (DeserializationError 0) else Inr (C (u64_of_le (bslice 0 8 bs))))"

definition deserialize_write :: "bytes \<Rightarrow> wal_error + record_data" where
  "deserialize_write bs =
     (if length bs < 8 then Inl (DeserializationError 0)
      else let t = u64_of_le (bslice 0 8 bs) in
      if length bs < 16 then Inl (DeserializationError 8)
      else let tb = u64_of_le (bslice 8 16 bs) in
      if length bs < 17 then Inl (DeserializationError 16)
      else rbind (write_op_from_u8 (bs ! 16)) (\<lambda>op.
      if length bs < 21 then Inl (DeserializationError 17)
      else let key_len = unat (u32_of_le (bslice 17 21 bs)) in
      if length bs < 21 + key_len then Inl (DeserializationError 21)
      else let key = bslice 21 (21 + key_len) bs; cur = 21 + key_len in
      if length bs < cur + 4 then Inl (DeserializationError cur)
      else let value_len = unat (u32_of_le (bslice cur (cur + 4) bs)); cur' = cur + 4 in
      if length bs < cur' + value_len then Inl (DeserializationError cur')
      else Inr (Write t tb op key (bslice cur' (cur' + value_len) bs))))"

definition deserialize_checkpoint :: "bytes \<Rightarrow> wal_error + record_data" where
  "deserialize_checkpoint bs =
     (if length bs < 8 then Inl (DeserializationError 0)
      else let l = u64_of_le (bslice 0 8 bs) in
      if length bs < 12 then Inl (DeserializationError 8)
      else rbind (read_txn_ids (unat (u32_of_le (bslice 8 12 bs))) 12 bs []) (\<lambda>active.
      Inr (Checkpoint l active)))"

fun deserialize_data :: "record_type \<Rightarrow> bytes \<Rightarrow> wal_error + record_data" where
  "deserialize_data RT_Begin bs = deserialize_txn Begin bs"
| "deserialize_data RT_Write bs = deserialize_write bs"
| "deserialize_data RT_Commit bs = deserialize_txn Commit bs"
| "deserialize_data RT_Rollback bs = deserialize_txn Rollback bs"
| "deserialize_data RT_Checkpoint bs = deserialize_checkpoint bs"
| "deserialize_data RT_Prepare bs = deserialize_txn Prepare bs"

definition decrypt_stored ::
    "libs \<Rightarrow> encryption_type \<Rightarrow> bytes option \<Rightarrow> bytes \<Rightarrow> wal_error + bytes" where
  "decrypt_stored L e key stored =
     (case e of
        Enc_None \<Rightarrow> Inr stored
      | Aes256Gcm \<Rightarrow>
          rbind (ok_or key MissingEncryptionKey) (\<lambda>k.
          if length stored < 12 then Inl (DecryptionError 31)
          else ok_or (aes_decrypt L k (bslice 0 12 stored) (drop 12 stored)) (DecryptionError 31)))"

definition decompress_stored :: "libs \<Rightarrow> compression_type \<Rightarrow> bytes \<Rightarrow> wal_error + bytes" where
  "decompress_stored L c d =
     (case c of
        Comp_None \<Rightarrow> Inr d
      | Lz4 \<Rightarrow> ok_or (lz4_decompress L d) (DeserializationError 31)
      | Zstd \<Rightarrow> ok_or (zstd_decode L d) (DeserializationError 31))"

definition from_bytes :: "libs \<Rightarrow> bytes \<Rightarrow> bytes option \<Rightarrow> wal_error + wal_record" where
  "from_bytes L bs key =
     (if length bs < 67 then Inl (InvalidRecord 0)
      else if bslice 0 4 bs \<noteq> magic_walr then Inl (InvalidRecord 0)
      else let l = u64_of_le (bslice 4 12 bs); ts = u64_of_le (bslice 12 20 bs) in
      rbind (record_type_from_u8 (bs ! 20)) (\<lambda>rt.
      rbind (ok_or (compression_from_u8 (bs ! 21)) (DeserializationError 21)) (\<lambda>c.
      rbind (ok_or (encryption_from_u8 (bs ! 22)) (DeserializationError 22)) (\<lambda>e.
      let stored_size = unat (u32_of_le (bslice 27 31 bs)) in
      if length bs < 31 + stored_size + 32 then Inl (InvalidRecord l)
      else let data_end = 31 + stored_size;
               expected = bslice data_end (data_end + 32) bs;
               actual = sha256 L (bslice 0 data_end bs) in
      if expected \<noteq> actual
      then Inl (ChecksumMismatch l 0 (u32_of_le (bslice 0 4 expected)) (u32_of_le (bslice 0 4 actual)))
      else rbind (decrypt_stored L e key (bslice 31 data_end bs)) (\<lambda>compressed.
      rbind (decompress_stored L c compressed) (\<lambda>data_bytes.
      rbind (deserialize_data rt data_bytes) (\<lambda>d.
      Inr \<lparr>rec_lsn = l, rec_timestamp = ts, rec_data = d, rec_compression = c,
           rec_encryption = e\<rparr>)))))))"

section \<open>Round trips\<close>

text \<open>The lengths that the \<open>as u32\<close> casts of the format keep.\<close>

fun data_fits :: "record_data \<Rightarrow> bool" where
  "data_fits (Write _ _ _ key value) = (length key < 2 ^ 32 \<and> length value < 2 ^ 32)"
| "data_fits (Checkpoint _ active) = (length active < 2 ^ 32)"
| "data_fits _ = True"

lemma record_enum_codecs [simp]:
  "record_type_from_u8 (record_type_to_u8 rt) = Inr rt"
  "write_op_from_u8 (write_op_to_u8 op) = Inr op"
proof -
  show "record_type_from_u8 (record_type_to_u8 rt) = Inr rt"
    by (cases rt) (simp_all add: record_type_from_u8_def)
  show "write_op_from_u8 (write_op_to_u8 op) = Inr op"
    by (cases op) (simp_all add: write_op_from_u8_def)
qed

lemma read_txn_ids_concat:
  "length pre = cur \<Longrightarrow>
   read_txn_ids (length ts) cur (pre @ concat (map u64_le ts) @ rest) acc = Inr (acc @ ts)"
proof (induction ts arbitrary: pre cur acc)
  case Nil
  then show ?case by simp
next
  case (Cons t ts)
  show ?case
    using Cons.IH [of "pre @ u64_le t" "cur + 8" "acc @ [t]"] Cons.prems
    by (simp add: bslice_skip bslice_front)
qed

lemma length_serialize_data: "8 \<le> length (serialize_data d)"
  by (cases d) simp_all

lemma deserialize_serialize:
  "data_fits d \<Longrightarrow> deserialize_data (data_record_type d) (serialize_data d) = Inr d"
proof (cases d)
  case (Write t tb opr key val)
  moreover assume "data_fits d"
  ultimately show ?thesis
    by (simp add: deserialize_write_def Let_def nth_append codec_simps)
next
  case (Checkpoint l ts)
  moreover assume "data_fits d"
  moreover have "read_txn_ids (length ts) 12
      ((u64_le l @ u32_le (of_nat (length ts))) @ concat (map u64_le ts) @ []) [] = Inr ([] @ ts)"
    by (rule read_txn_ids_concat) simp
  ultimately show ?thesis
    by (simp add: deserialize_checkpoint_def Let_def bslice_skip bslice_front)
qed (simp_all add: deserialize_txn_def bslice_all)

lemma decrypt_encrypt:
  assumes "libs_ok L" and "length nonce = 12" and "encrypt_record L nonce key r d = Inr final"
  shows "decrypt_stored L (rec_encryption r) key final = Inr d"
  using assms libs_okD(5) [OF assms(1)]
  by (auto simp: encrypt_record_def decrypt_stored_def rbind_eq_Inr_iff ok_or_def bslice_front
      split: encryption_type.splits option.splits)

lemma decompress_compress:
  assumes "libs_ok L" and "compress_record L r d = Inr c"
  shows "decompress_stored L (rec_compression r) c = Inr d"
  using assms(2) libs_okD [OF assms(1)]
  by (auto simp: compress_record_def decompress_stored_def ok_or_def
      split: compression_type.splits option.splits)

lemma length_final:
  assumes "libs_ok L" and "length nonce = 12"
    and "compress_record L r (serialize_data d) = Inr c" and "encrypt_record L nonce key r c = Inr f"
  shows "4 \<le> length f"
proof -
  have "4 \<le> length c"
    using assms(3) libs_okD(2,4) [OF assms(1)] length_serialize_data [of d]
    by (auto simp: compress_record_def ok_or_def split: compression_type.splits option.splits)
  then show ?thesis
    using assms(2,4) by (auto simp: encrypt_record_def rbind_eq_Inr_iff split: encryption_type.splits)
qed

text \<open>
  The shape of an encoded record: a 31-byte header, the stored payload, a 32-byte digest.
\<close>

definition record_prefix :: "wal_record \<Rightarrow> u32 \<Rightarrow> bytes \<Rightarrow> bytes" where
  "record_prefix r usize final =
     magic_walr @ u64_le (rec_lsn r) @ u64_le (rec_timestamp r) @
     [record_type_to_u8 (data_record_type (rec_data r)),
      compression_to_u8 (rec_compression r), encryption_to_u8 (rec_encryption r)] @
     u32_le usize @ u32_le (of_nat (length final)) @ final"

definition record_frame :: "libs \<Rightarrow> wal_record \<Rightarrow> u32 \<Rightarrow> bytes \<Rightarrow> bytes" where
  "record_frame L r usize final =
     record_prefix r usize final @ sha256 L (record_prefix r usize final)"

lemma length_record_prefix [simp]: "length (record_prefix r n f) = 31 + length f"
  by (simp add: record_prefix_def)

lemma to_bytes_frame:
  assumes "to_bytes L nonce r key = Inr bs"
  obtains c f where "compress_record L r (serialize_data (rec_data r)) = Inr c"
    and "encrypt_record L nonce key r c = Inr f"
    and "bs = record_frame L r (of_nat (length (serialize_data (rec_data r)))) f"
  using assms by (auto simp: to_bytes_def Let_def rbind_eq_Inr_iff record_frame_def
      record_prefix_def)

lemma length_record_frame:
  "libs_ok L \<Longrightarrow> length (record_frame L r n f) = 31 + length f + 32"
  by (simp add: record_frame_def libs_okD)

lemma record_frame_fields:
  fixes r :: wal_record and n :: u32 and f rest :: bytes
  assumes "libs_ok L"
  defines "bs \<equiv> record_frame L r n f"
  shows "bslice 0 4 (bs @ rest) = magic_walr"
    and "bslice 4 12 (bs @ rest) = u64_le (rec_lsn r)"
    and "bslice 12 20 (bs @ rest) = u64_le (rec_timestamp r)"
    and "(bs @ rest) ! 20 = record_type_to_u8 (data_record_type (rec_data r))"
    and "(bs @ rest) ! 21 = compression_to_u8 (rec_compression r)"
    and "(bs @ rest) ! 22 = encryption_to_u8 (rec_encryption r)"
    and "bslice 27 31 (bs @ rest) = u32_le (of_nat (length f))"
    and "bslice 31 (31 + length f) (bs @ rest) = f"
  using assms(1)
  by (simp_all add: bs_def record_frame_def record_prefix_def nth_append libs_okD codec_simps)

lemma record_frame_digest:
  assumes "libs_ok L"
  shows "bslice (31 + length f) (31 + length f + 32) (record_frame L r n f @ rest) =
    sha256 L (bslice 0 (31 + length f) (record_frame L r n f @ rest))"
  using assms by (simp add: record_frame_def bslice_front bslice_skip libs_okD)

text \<open>Decoding is the left inverse of encoding, whatever follows the record.\<close>

lemma from_bytes_to_bytes:
  assumes L: "libs_ok L" and nonce: "length nonce = 12" and fits: "data_fits (rec_data r)"
    and enc: "to_bytes L nonce r key = Inr bs" and small: "length bs < 2 ^ 32"
  shows "from_bytes L (bs @ rest) key = Inr r"
proof -
  obtain c f where c: "compress_record L r (serialize_data (rec_data r)) = Inr c"
    and f: "encrypt_record L nonce key r c = Inr f"
    and bs: "bs = record_frame L r (of_nat (length (serialize_data (rec_data r)))) f"
    using enc by (rule to_bytes_frame)
  have len: "length bs = 31 + length f + 32"
    using L bs by (simp add: length_record_frame)
  note digest = record_frame_digest [OF L, where f = f and r = r and rest = rest
      and n = "of_nat (length (serialize_data (rec_data r)))", folded bs]
  note fields = record_frame_fields [OF L, where r = r and f = f and rest = rest
      and n = "of_nat (length (serialize_data (rec_data r)))", folded bs]
  have sz: "unat (of_nat (length f) :: u32) = length f"
    using small len by simp
  show ?thesis
    using length_final [OF L nonce c f] len deserialize_serialize [OF fits]
      decompress_compress [OF L c] decrypt_encrypt [OF L nonce f]
    unfolding from_bytes_def fields Let_def
    by (simp only: fields digest record_enum_codecs config_codecs rbind_simps ok_or_simps u_of_le_le sz)
      simp
qed

text \<open>What a decoded record says about the bytes: the magic, and a digest that matches.\<close>

lemma from_bytes_checks:
  assumes "from_bytes L bs key = Inr r"
  shows "67 \<le> length bs" and "bslice 0 4 bs = magic_walr"
    and "31 + unat (u32_of_le (bslice 27 31 bs)) + 32 \<le> length bs"
    and "bslice (31 + unat (u32_of_le (bslice 27 31 bs)))
           (31 + unat (u32_of_le (bslice 27 31 bs)) + 32) bs =
         sha256 L (bslice 0 (31 + unat (u32_of_le (bslice 27 31 bs))) bs)"
  using assms by (auto simp: from_bytes_def Let_def rbind_eq_Inr_iff split: if_splits)

section \<open>Properties\<close>

definition sample_record :: wal_record where
  "sample_record = \<lparr>rec_lsn = 7, rec_timestamp = 1000, rec_data = Write 3 5 Op_Put [1, 2] [9],
     rec_compression = Lz4, rec_encryption = Aes256Gcm\<rparr>"

text \<open>
  C29. The record codec: whatever the compression and encryption of the record, decoding its
  encoding (under a 12-byte nonce, with the same key) gives the record back, also when other bytes
  follow it.
\<close>

theorem wal_record_round_trip:
  assumes "libs_ok L" and "length nonce = 12" and "data_fits (rec_data r)"
    and "to_bytes L nonce r key = Inr bs" and "length bs < 2 ^ 32"
  shows "from_bytes L (bs @ rest) key = Inr r"
  using assms by (rule from_bytes_to_bytes)

theorem wal_record_round_trip_witness:
  "from_bytes plain_libs (projr (to_bytes plain_libs (replicate 12 0) sample_record (Some [1])) @ [0])
    (Some [1]) = Inr sample_record"
proof -
  have "\<exists>bs. to_bytes plain_libs (replicate 12 0) sample_record (Some [1]) = Inr bs \<and> length bs < 2 ^ 32"
    by (simp add: to_bytes_def sample_record_def plain_libs_def compress_record_def encrypt_record_def
        Let_def)
  moreover have "data_fits (rec_data sample_record)"
    by (simp add: sample_record_def)
  ultimately show ?thesis
    using wal_record_round_trip [OF plain_libs_ok length_replicate] by auto
qed

end
