(* ===== verification/WalReader.thy ===== *)
theory WalReader
  imports WalRecord
begin

text \<open>
  The log reader (\<open>src/src/wal/reader.rs\<close>): positioned reads of one record after another.
  \<open>read_all\<close> and \<open>seek_to_lsn\<close> are loops that end because every record read moves the offset
  towards the file size taken at \<open>open\<close>. The interface \<open>record_source\<close> collects what a consumer
  of the log relies on.
\<close>

section \<open>State and operations\<close>

record wal_reader =
  rd_file :: open_file_state
  rd_key :: "bytes option"
  rd_offset :: nat
  rd_file_size :: nat

definition reader_open :: "memory_fs \<Rightarrow> string \<Rightarrow> bytes option \<Rightarrow> wal_error + wal_reader" where
  "reader_open fs path key =
     (case open_file fs path of
        Inl e \<Rightarrow> Inl (WalVfsError e)
      | Inr h \<Rightarrow> Inr \<lparr>rd_file = (fs, h), rd_key = key, rd_offset = 0,
                       rd_file_size = get_size (fs, h)\<rparr>)"

definition read_next :: "libs \<Rightarrow> wal_reader \<Rightarrow> wal_error + (wal_record option \<times> wal_reader)" where
  "read_next L rd =
     (if rd_offset rd \<ge> rd_file_size rd then Inr (None, rd)
      else let header = read_at_offset (rd_file rd) (rd_offset rd) 31 in
      if length header < 31 then Inr (None, rd)
      else if bslice 0 4 header \<noteq> magic_walr then Inl (CorruptedWal (rd_offset rd) ''Invalid magic'')
      else let data_len = unat (u32_of_le (bslice 27 31 header));
               total_size = 31 + data_len + 32;
               record_buf = read_at_offset (rd_file rd) (rd_offset rd) total_size in
      if length record_buf < total_size
      then Inl (CorruptedWal (rd_offset rd) ''Incomplete record'')
      else rbind (from_bytes L record_buf (rd_key rd)) (\<lambda>r.
      Inr (Some r, rd\<lparr>rd_offset := rd_offset rd + total_size\<rparr>)))"

lemma read_next_progress:
  assumes "read_next L rd = Inr (Some r, rd')"
  shows "rd_offset rd < rd_offset rd'" "rd_offset rd < rd_file_size rd"
    "rd' = rd\<lparr>rd_offset := rd_offset rd'\<rparr>"
  using assms by (auto simp: read_next_def Let_def rbind_eq_Inr_iff split: if_splits)

lemma read_next_None: "read_next L rd = Inr (None, rd') \<Longrightarrow> rd' = rd"
  by (auto simp: read_next_def Let_def rbind_eq_Inr_iff split: if_splits)

lemma read_next_decreases:
  assumes "read_next L rd = Inr (Some r, rd')"
  shows "rd_file_size rd' - rd_offset rd' < rd_file_size rd - rd_offset rd"
proof -
  have "rd_file_size rd' = rd_file_size rd"
    by (subst read_next_progress(3) [OF assms]) simp
  then show ?thesis
    using read_next_progress(1,2) [OF assms] by simp
qed

function read_all_loop ::
    "libs \<Rightarrow> wal_reader \<Rightarrow> wal_record list \<Rightarrow> wal_error + (wal_record list \<times> wal_reader)" where
  "read_all_loop L rd acc =
     (case read_next L rd of
        Inl e \<Rightarrow> Inl e
      | Inr (None, rd') \<Rightarrow> Inr (acc, rd')
      | Inr (Some r, rd') \<Rightarrow> read_all_loop L rd' (acc @ [r]))"
  by pat_completeness auto
termination
  by (relation "measure (\<lambda>(L, rd, acc). rd_file_size rd - rd_offset rd)")
    (auto dest: read_next_decreases)

declare read_all_loop.simps [simp del]

definition read_all :: "libs \<Rightarrow> wal_reader \<Rightarrow> wal_error + (wal_record list \<times> wal_reader)" where
  "read_all L rd = read_all_loop L rd []"

function seek_loop :: "libs \<Rightarrow> bytes \<Rightarrow> lsn \<Rightarrow> wal_reader \<Rightarrow> wal_error + wal_reader" where
  "seek_loop L nonce target rd =
     (case read_next L rd of
        Inl e \<Rightarrow> Inl e
      | Inr (None, rd') \<Rightarrow> Inl (InvalidRecord target)
      | Inr (Some r, rd') \<Rightarrow>
          (if rec_lsn r = target
           then rbind (to_bytes L nonce r (rd_key rd')) (\<lambda>bs.
                if rd_offset rd' < length bs then Inl WalPanic
                else Inr (rd'\<lparr>rd_offset := rd_offset rd' - length bs\<rparr>))
           else seek_loop L nonce target rd'))"
  by pat_completeness auto
termination
  by (relation "measure (\<lambda>(L, nonce, target, rd). rd_file_size rd - rd_offset rd)")
    (auto dest: read_next_decreases)

declare seek_loop.simps [simp del]

definition seek_to_lsn :: "libs \<Rightarrow> bytes \<Rightarrow> lsn \<Rightarrow> wal_reader \<Rightarrow> wal_error + wal_reader" where
  "seek_to_lsn L nonce target rd = seek_loop L nonce target (rd\<lparr>rd_offset := 0\<rparr>)"

definition current_offset_of :: "wal_reader \<Rightarrow> nat" where
  "current_offset_of rd = rd_offset rd"

definition is_eof :: "wal_reader \<Rightarrow> bool" where
  "is_eof rd = (rd_offset rd \<ge> rd_file_size rd)"

definition reader_reset :: "wal_reader \<Rightarrow> wal_reader" where
  "reader_reset rd = rd\<lparr>rd_offset := 0\<rparr>"

text \<open>\<open>WalRecordIterator::next\<close>: an error is an item, and the reader stays where it was.\<close>

definition iterator_next :: "libs \<Rightarrow> wal_reader \<Rightarrow> (wal_error + wal_record) option \<times> wal_reader" where
  "iterator_next L rd =
     (case read_next L rd of
        Inr (Some r, rd') \<Rightarrow> (Some (Inr r), rd')
      | Inr (None, rd') \<Rightarrow> (None, rd')
      | Inl e \<Rightarrow> (Some (Inl e), rd))"

section \<open>Encoded logs\<close>

text \<open>
  \<open>encoded L key rs bs\<close>: the byte string \<open>bs\<close> is the concatenation of encodings of \<open>rs\<close>, each under
  some 12-byte nonce, with lengths that fit the format.
\<close>

inductive encoded :: "libs \<Rightarrow> bytes option \<Rightarrow> wal_record list \<Rightarrow> bytes \<Rightarrow> bool"
  for L :: libs and key :: "bytes option" where
  encoded_Nil: "encoded L key [] []"
| encoded_snoc: "encoded L key rs bs \<Longrightarrow> length nonce = 12 \<Longrightarrow> data_fits (rec_data r) \<Longrightarrow>
     to_bytes L nonce r key = Inr b \<Longrightarrow> length b < 2 ^ 32 \<Longrightarrow> encoded L key (rs @ [r]) (bs @ b)"

inductive_cases encoded_NilE: "encoded L key [] bs"

lemma encoded_append: "encoded L key rs' bs' \<Longrightarrow> encoded L key rs bs \<Longrightarrow> encoded L key (rs @ rs') (bs @ bs')"
proof (induction rule: encoded.induct)
  case encoded_Nil
  then show ?case by simp
next
  case (encoded_snoc rs' bs' nonce r b)
  then show ?case
    using encoded.encoded_snoc [of L key "rs @ rs'" "bs @ bs'" nonce r b] by simp
qed

lemma encoded_Cons_cases:
  assumes "encoded L key rs bs" and "rs \<noteq> []"
  obtains r rs' nonce b bs' where "rs = r # rs'" and "bs = b @ bs'" and "encoded L key rs' bs'"
    and "length nonce = 12" and "data_fits (rec_data r)" and "to_bytes L nonce r key = Inr b"
    and "length b < 2 ^ 32"
  using assms
proof (induction arbitrary: thesis rule: encoded.induct)
  case encoded_Nil
  then show ?case by simp
next
  case (encoded_snoc rs bs nonce r b)
  show ?case
  proof (cases "rs = []")
    case True
    with encoded_snoc.hyps(1) have "bs = []"
      by (auto elim: encoded_NilE)
    with True encoded_snoc show ?thesis
      by (intro encoded_snoc.prems(1) [of r "[]" b "[]" nonce]) (auto intro: encoded.encoded_Nil)
  next
    case False
    with encoded_snoc.IH obtain r0 rs' nonce0 b0 bs' where *: "rs = r0 # rs'" "bs = b0 @ bs'"
      "encoded L key rs' bs'" "length nonce0 = 12" "data_fits (rec_data r0)"
      "to_bytes L nonce0 r0 key = Inr b0" "length b0 < 2 ^ 32"
      by metis
    show ?thesis
      using encoded_snoc.hyps * encoded.encoded_snoc [of L key rs' bs' nonce r b]
      by (intro encoded_snoc.prems(1) [of r0 "rs' @ [r]" b0 "bs' @ b" nonce0]) auto
  qed
qed

section \<open>Reading an encoded log\<close>

text \<open>The file of the reader holds \<open>pre @ rest\<close> and the offset stands after \<open>pre\<close>.\<close>

definition reader_at :: "wal_reader \<Rightarrow> bytes \<Rightarrow> bytes \<Rightarrow> bool" where
  "reader_at rd pre rest \<longleftrightarrow>
     buffer (file_data (rd_file rd)) = pre @ rest \<and> rd_offset rd = length pre \<and>
     rd_file_size rd = length (pre @ rest) \<and> length (pre @ rest) < 2 ^ 64"

lemma reader_at_read:
  "reader_at rd pre rest \<Longrightarrow> read_at_offset (rd_file rd) (rd_offset rd) n = take n rest"
  by (simp add: reader_at_def mem_file.read_at)

lemma frame_header:
  assumes L: "libs_ok L" and enc: "to_bytes L nonce r key = Inr b" and small: "length b < 2 ^ 32"
  shows "bslice 0 4 (take 31 (b @ rest)) = magic_walr"
    and "31 + unat (u32_of_le (bslice 27 31 (take 31 (b @ rest)))) + 32 = length b"
    and "63 \<le> length b"
proof -
  obtain c f where b: "b = record_frame L r (of_nat (length (serialize_data (rec_data r)))) f"
    using enc by (rule to_bytes_frame)
  note fields = record_frame_fields [OF L, where r = r and f = f and rest = rest
      and n = "of_nat (length (serialize_data (rec_data r)))", folded b]
  have len: "length b = 31 + length f + 32"
    using L b by (simp add: length_record_frame)
  have take31: "bslice i j (take 31 xs) = bslice i j xs" if "j \<le> 31" for i j and xs :: bytes
    using that by (simp add: bslice_def drop_take min_def)
  show "bslice 0 4 (take 31 (b @ rest)) = magic_walr"
    using fields(1) take31 [of 4 0 "b @ rest"] by (simp del: take_append)
  show "31 + unat (u32_of_le (bslice 27 31 (take 31 (b @ rest)))) + 32 = length b"
    using small fields(7) take31 [of 31 27 "b @ rest"] by (simp add: len del: take_append)
  show "63 \<le> length b"
    by (simp add: len)
qed

lemma read_next_encoded:
  assumes L: "libs_ok L" and nonce: "length nonce = 12" and fits: "data_fits (rec_data r)"
    and enc: "to_bytes L nonce r (rd_key rd) = Inr b" and small: "length b < 2 ^ 32"
    and at: "reader_at rd pre (b @ rest)"
  shows "read_next L rd = Inr (Some r, rd\<lparr>rd_offset := rd_offset rd + length b\<rparr>)"
    and "reader_at (rd\<lparr>rd_offset := rd_offset rd + length b\<rparr>) (pre @ b) rest"
proof -
  note hdr = frame_header [OF L enc small]
  have take: "take 31 (b @ rest) = take 31 b"
    using hdr(3) by simp
  have dec: "from_bytes L b (rd_key rd) = Inr r"
    using from_bytes_to_bytes [OF L nonce fits enc small, of "[]"] by simp
  have "\<not> rd_offset rd \<ge> rd_file_size rd"
    using at hdr(3) by (auto simp: reader_at_def)
  then show "read_next L rd = Inr (Some r, rd\<lparr>rd_offset := rd_offset rd + length b\<rparr>)"
    using hdr(1,2) [of rest] hdr(3) dec
    by (simp add: read_next_def reader_at_read [OF at] Let_def take)
  show "reader_at (rd\<lparr>rd_offset := rd_offset rd + length b\<rparr>) (pre @ b) rest"
    using at by (simp add: reader_at_def)
qed

text \<open>A tail too short for a header ends the scan silently.\<close>

lemma read_next_tail:
  assumes "reader_at rd pre tail" and "length tail < 31"
  shows "read_next L rd = Inr (None, rd)"
  using assms by (simp add: read_next_def reader_at_read)

section \<open>The interface of a record source\<close>

text \<open>
  A source holds a list of records still to come; \<open>next\<close> delivers them one by one and then reports
  the end. Every consumer of the log is a loop over \<open>next\<close>; the loop is the fold of its step over
  the records.
\<close>

locale record_source =
  fixes nxt :: "'s \<Rightarrow> 'e + ('r option \<times> 's)"
    and holds :: "'s \<Rightarrow> 'r list \<Rightarrow> bool"
  assumes nxt_end: "holds s [] \<Longrightarrow> nxt s = Inr (None, s)"
    and nxt_more: "holds s (r # rs) \<Longrightarrow> \<exists>s'. nxt s = Inr (Some r, s') \<and> holds s' rs"
begin

lemma loop_is_fold:
  assumes loop: "\<And>s a. loop s a =
      (case nxt s of
         Inl e \<Rightarrow> Inl e
       | Inr (None, s') \<Rightarrow> Inr (fin a)
       | Inr (Some r, s') \<Rightarrow> (case step a r of Inl e \<Rightarrow> Inl e | Inr a' \<Rightarrow> loop s' a'))"
    and "holds s rs"
  shows "loop s a = rbind (fold_result step rs a) (\<lambda>a. Inr (fin a))"
  using assms(2)
proof (induction rs arbitrary: s a)
  case Nil
  then show ?case by (subst loop) (simp add: nxt_end)
next
  case (Cons r rs)
  then obtain s' where s': "nxt s = Inr (Some r, s')" "holds s' rs"
    using nxt_more by blast
  show ?case
    using Cons.IH [OF s'(2)] s'(1) by (subst loop) (simp add: rbind_def split: sum.split)
qed

end

text \<open>The reader holds \<open>rs\<close>: an encoding of \<open>rs\<close> and a tail shorter than a header remain.\<close>

definition reader_holds :: "libs \<Rightarrow> wal_reader \<Rightarrow> wal_record list \<Rightarrow> bool" where
  "reader_holds L rd rs \<longleftrightarrow> libs_ok L \<and>
     (\<exists>pre bs tail. encoded L (rd_key rd) rs bs \<and> reader_at rd pre (bs @ tail) \<and> length tail < 31)"

interpretation wal_source: record_source "read_next L" "reader_holds L" for L
proof
  fix s
  assume "reader_holds L s []"
  then show "read_next L s = Inr (None, s)"
    by (auto simp: reader_holds_def elim!: encoded_NilE intro!: read_next_tail)
next
  fix s r rs
  assume "reader_holds L s (r # rs)"
  then obtain pre bs tail where L: "libs_ok L" and enc: "encoded L (rd_key s) (r # rs) bs"
    and at: "reader_at s pre (bs @ tail)" and tail: "length tail < 31"
    by (auto simp: reader_holds_def)
  obtain nonce b bs' where bs: "bs = b @ bs'" and rest: "encoded L (rd_key s) rs bs'"
    and n: "length nonce = 12" "data_fits (rec_data r)" "to_bytes L nonce r (rd_key s) = Inr b"
      "length b < 2 ^ 32"
    using enc by (auto elim: encoded_Cons_cases)
  have at': "reader_at s pre (b @ bs' @ tail)"
    using at bs by simp
  note step = read_next_encoded [OF L n at']
  then show "\<exists>s'. read_next L s = Inr (Some r, s') \<and> reader_holds L s' rs"
    using L rest tail by (auto simp: reader_holds_def)
qed

lemma read_all_loop_fold:
  "fold_result (\<lambda>acc r. Inr (acc @ [r]) :: 'e + 'r list) rs acc = Inr (acc @ rs)"
  by (induction rs arbitrary: acc) auto

lemma read_all_holds:
  assumes "reader_holds L rd rs"
  shows "map_sum id fst (read_all L rd) = Inr rs"
proof -
  define loop where "loop rd acc = map_sum id fst (read_all_loop L rd acc)" for rd acc
  have "loop s a =
      (case read_next L s of
         Inl e \<Rightarrow> Inl e
       | Inr (None, s') \<Rightarrow> Inr (id a)
       | Inr (Some r, s') \<Rightarrow> (case Inr (a @ [r]) of Inl e \<Rightarrow> Inl e | Inr a' \<Rightarrow> loop s' a'))" for s a
    unfolding loop_def by (subst read_all_loop.simps) (auto split: sum.split option.split)
  from wal_source.loop_is_fold [OF this assms, of "[]"]
  show ?thesis
    by (simp add: loop_def read_all_def read_all_loop_fold)
qed

text \<open>A torn record whose header survived stops the scan with an error.\<close>

lemma read_next_torn:
  assumes L: "libs_ok L" and enc: "to_bytes L nonce r (rd_key rd) = Inr b" and small: "length b < 2 ^ 32"
    and at: "reader_at rd pre (take k b)" and torn: "31 \<le> k" "k < length b"
  shows "read_next L rd = Inl (CorruptedWal (length pre) ''Incomplete record'')"
proof -
  note hdr = frame_header(1,2) [OF L enc small, where rest = "[]"] frame_header(3) [OF L enc small]
  have t: "take 31 (take k b) = take 31 b" "length (take 31 b) = 31"
    using torn hdr(3) by (simp_all add: min_def)
  have off: "\<not> rd_offset rd \<ge> rd_file_size rd" "rd_offset rd = length pre"
    using at torn hdr(3) by (auto simp: reader_at_def)
  have "read_at_offset (rd_file rd) (length pre) n = take n (take k b)" for n
    using reader_at_read [OF at] off(2) by simp
  then show ?thesis
    using hdr(1,2) t torn off by (simp add: read_next_def Let_def)
qed

text \<open>Seeking finds the first record with the wanted sequence number and stands before it.\<close>

lemma seek_loop_encoded:
  assumes L: "libs_ok L" and enc: "encoded L (rd_key rd) rs bs" and at: "reader_at rd pre (bs @ tail)"
    and plain: "\<forall>r\<in>set rs. rec_encryption r = Enc_None" and tail: "length tail < 31"
    and found: "find (\<lambda>r. rec_lsn r = target) rs = Some r"
  shows "\<exists>rd'. seek_loop L nonce target rd = Inr rd' \<and>
    read_next L rd' = Inr (Some r, rd'\<lparr>rd_offset := rd_offset rd' + length (projr (to_bytes L nonce r (rd_key rd)))\<rparr>)"
  using enc at plain found
proof (induction rs arbitrary: rd pre bs)
  case Nil
  then show ?case by simp
next
  case (Cons r0 rs)
  obtain n0 b bs' where bs: "bs = b @ bs'" and rest: "encoded L (rd_key rd) rs bs'"
    and n: "length n0 = 12" "data_fits (rec_data r0)" "to_bytes L n0 r0 (rd_key rd) = Inr b"
      "length b < 2 ^ 32"
    using Cons.prems(1) by (auto elim: encoded_Cons_cases)
  have at: "reader_at rd pre (b @ bs' @ tail)"
    using Cons.prems(2) bs by simp
  note step = read_next_encoded [OF L n at]
  show ?case
  proof (cases "rec_lsn r0 = target")
    case True
    with Cons.prems(4) have r: "r = r0" by simp
    have "to_bytes L nonce r0 (rd_key rd) = Inr b"
      using n(3) Cons.prems(3) by (simp add: to_bytes_def encrypt_record_def Let_def)
    moreover have "rd\<lparr>rd_offset := rd_offset rd\<rparr> = rd"
      by simp
    ultimately show ?thesis
      using True step(1) r by (subst seek_loop.simps) simp
  next
    case False
    let ?rd = "rd\<lparr>rd_offset := rd_offset rd + length b\<rparr>"
    from Cons.IH [of ?rd bs' "pre @ b"] rest step(2) Cons.prems(3,4) False
    obtain rd' where "seek_loop L nonce target ?rd = Inr rd'"
      "read_next L rd' = Inr (Some r, rd'\<lparr>rd_offset := rd_offset rd' +
         length (projr (to_bytes L nonce r (rd_key rd)))\<rparr>)"
      by auto
    with False step(1) show ?thesis
      by (subst seek_loop.simps) simp
  qed
qed

lemma read_all_torn:
  assumes L: "libs_ok L" and enc: "encoded L (rd_key rd) rs bs"
    and b: "to_bytes L nonce r (rd_key rd) = Inr b" "length b < 2 ^ 32"
    and at: "reader_at rd pre (bs @ take k b)" and torn: "31 \<le> k" "k < length b"
  shows "read_all_loop L rd acc = Inl (CorruptedWal (length pre + length bs) ''Incomplete record'')"
  using enc b(1) at
proof (induction rs arbitrary: rd pre bs acc)
  case Nil
  then have "bs = []"
    by (auto elim: encoded_NilE)
  then show ?case
    using read_next_torn [OF L Nil.prems(2) b(2) _ torn, of pre] Nil.prems(3)
    by (subst read_all_loop.simps) simp
next
  case (Cons r0 rs)
  obtain n0 b0 bs' where bs: "bs = b0 @ bs'" and rest: "encoded L (rd_key rd) rs bs'"
    and n: "length n0 = 12" "data_fits (rec_data r0)" "to_bytes L n0 r0 (rd_key rd) = Inr b0"
      "length b0 < 2 ^ 32"
    using Cons.prems(1) by (auto elim: encoded_Cons_cases)
  have "reader_at rd pre (b0 @ bs' @ take k b)"
    using Cons.prems(3) bs by simp
  note step = read_next_encoded [OF L n this]
  show ?case
    using Cons.IH [of "rd\<lparr>rd_offset := rd_offset rd + length b0\<rparr>" bs' "pre @ b0" "acc @ [r0]"]
      rest Cons.prems(2) step bs by (subst read_all_loop.simps) simp
qed

section \<open>Properties\<close>

text \<open>
  A log whose last record was torn by a crash after its header (at least 31 of its bytes are in
  the file) is not read at all: \<open>read_all\<close> fails at the torn record, although every record before
  it is intact.
\<close>

lemma torn_record_fails:
  assumes "libs_ok L" and "encoded L (rd_key rd) rs bs"
    and "to_bytes L nonce r (rd_key rd) = Inr b" and "length b < 2 ^ 32"
    and "reader_at rd [] (bs @ take k b)" and "31 \<le> k" and "k < length b"
  shows "read_all L rd = Inl (CorruptedWal (length bs) ''Incomplete record'')"
  using read_all_torn [OF assms] by (simp add: read_all_def)

lemma torn_record_fails_witness:
  "\<exists>rd. read_all plain_libs rd = Inl (CorruptedWal 0 ''Incomplete record'')"
proof -
  obtain b where b: "to_bytes plain_libs (replicate 12 0) sample_record (Some [1]) = Inr b"
    "63 \<le> length b" "length b < 2 ^ 32"
    by (simp add: to_bytes_def sample_record_def plain_libs_def compress_record_def encrypt_record_def
        Let_def)
  define f :: open_file_state where
    "f = (memory_fs_new\<lparr>files := \<lambda>_. \<lparr>buffer = take 40 b, lock = Unlocked\<rparr>\<rparr>,
          \<lparr>cursor = 0, name = [], data = 0\<rparr>)"
  let ?rd = "\<lparr>rd_file = f, rd_key = Some [1], rd_offset = 0, rd_file_size = 40\<rparr>"
  have "reader_at ?rd [] ([] @ take 40 b)"
    using b(2) by (simp add: reader_at_def f_def file_data_def)
  moreover have "encoded plain_libs (rd_key ?rd) [] []"
    by (rule encoded_Nil)
  ultimately have "read_all plain_libs ?rd = Inl (CorruptedWal (length ([] :: bytes)) ''Incomplete record'')"
    using b torn_record_fails [OF plain_libs_ok, of ?rd "[]" "[]" "replicate 12 0" sample_record b 40]
    by simp
  then show ?thesis
    by auto
qed

end
