(* ===== verification/WalWriter.thy ===== *)
theory WalWriter
  imports WalReader
begin

text \<open>
  The log writer (\<open>src/src/wal/writer.rs\<close>). The state behind the locks and the file handle form one
  record. \<open>ww_durable\<close> is what the last \<open>sync_data\<close> made durable: the memory file system ignores the
  call, every other file forces its contents to storage there. The group-commit coordinator is seen
  from a single client: submitting a commit runs the flush callback the worker thread runs (the
  queue and its interleavings are in \<open>GroupCommit\<close>). Clock, nonce and the iteration order of the
  active set are arguments. An operation that returns an error leaves the state as it was.
\<close>

section \<open>Data\<close>

record group_commit_config =
  gc_enabled :: bool
  gc_max_batch_size :: nat
  gc_max_wait_micros :: nat
  gc_min_batch_size :: nat

definition group_commit_default :: group_commit_config where
  "group_commit_default =
     \<lparr>gc_enabled = True, gc_max_batch_size = 100, gc_max_wait_micros = 1000, gc_min_batch_size = 10\<rparr>"

definition group_commit_low_latency :: group_commit_config where
  "group_commit_low_latency =
     \<lparr>gc_enabled = False, gc_max_batch_size = 1, gc_max_wait_micros = 0, gc_min_batch_size = 1\<rparr>"

record wal_writer_config =
  wc_buffer_size :: nat
  wc_sync_on_write :: bool
  wc_max_wal_size :: nat
  wc_compression :: compression_type
  wc_encryption :: encryption_type
  wc_encryption_key :: "bytes option"
  wc_group_commit :: group_commit_config

definition wal_writer_config_default :: wal_writer_config where
  "wal_writer_config_default =
     \<lparr>wc_buffer_size = 64 * 1024, wc_sync_on_write = True, wc_max_wal_size = 1024 * 1024 * 1024,
      wc_compression = Comp_None, wc_encryption = Enc_None, wc_encryption_key = None,
      wc_group_commit = group_commit_default\<rparr>"

record wal_writer =
  ww_file :: open_file_state
  ww_durable :: bytes
  ww_config :: wal_writer_config
  ww_current_lsn :: lsn
  ww_current_offset :: nat
  ww_active :: "txn_id set"
  ww_buffer :: bytes
  ww_gc_sync :: bool

abbreviation ww_contents :: "wal_writer \<Rightarrow> bytes" where
  "ww_contents w \<equiv> buffer (file_data (ww_file w))"

definition is_group_commit_enabled :: "wal_writer \<Rightarrow> bool" where
  "is_group_commit_enabled w = gc_enabled (wc_group_commit (ww_config w))"

section \<open>Opening\<close>

definition writer_create ::
    "memory_fs \<Rightarrow> string \<Rightarrow> wal_writer_config \<Rightarrow> wal_error + wal_writer" where
  "writer_create fs path cfg =
     (case create_file fs path of
        Inl e \<Rightarrow> Inl (WalVfsError e)
      | Inr (fs', h) \<Rightarrow>
          Inr \<lparr>ww_file = (fs', h), ww_durable = [], ww_config = cfg, ww_current_lsn = 1,
               ww_current_offset = 0, ww_active = {}, ww_buffer = [], ww_gc_sync = True\<rparr>)"

fun track_active :: "record_data \<Rightarrow> txn_id set \<Rightarrow> txn_id set" where
  "track_active (Begin t) A = insert t A"
| "track_active (Commit t) A = A - {t}"
| "track_active (Rollback t) A = A - {t}"
| "track_active (Checkpoint _ ts) A = set ts"
| "track_active (Write _ _ _ _ _) A = A"
| "track_active (Prepare _) A = A"

function scan_loop ::
    "libs \<Rightarrow> wal_reader \<Rightarrow> lsn \<times> txn_id set \<Rightarrow> wal_error + (lsn \<times> txn_id set)" where
  "scan_loop L rd acc =
     (case read_next L rd of
        Inl e \<Rightarrow> Inl e
      | Inr (None, rd') \<Rightarrow> Inr acc
      | Inr (Some r, rd') \<Rightarrow> scan_loop L rd' (rec_lsn r, track_active (rec_data r) (snd acc)))"
  by pat_completeness auto
termination
  by (relation "measure (\<lambda>(L, rd, acc). rd_file_size rd - rd_offset rd)")
    (auto dest: read_next_decreases)

declare scan_loop.simps [simp del]

definition scan_wal_file ::
    "libs \<Rightarrow> memory_fs \<Rightarrow> string \<Rightarrow> bytes option \<Rightarrow> wal_error + (lsn \<times> txn_id set)" where
  "scan_wal_file L fs path key =
     rbind (reader_open fs path key) (\<lambda>rd. scan_loop L rd (0, {}))"

definition writer_open ::
    "libs \<Rightarrow> memory_fs \<Rightarrow> string \<Rightarrow> wal_writer_config \<Rightarrow> wal_error + wal_writer" where
  "writer_open L fs path cfg =
     (case open_file fs path of
        Inl e \<Rightarrow> Inl (WalVfsError e)
      | Inr h \<Rightarrow>
          rbind (scan_wal_file L fs path (wc_encryption_key cfg)) (\<lambda>(last_lsn, active).
          Inr \<lparr>ww_file = (fs, h), ww_durable = buffer (file_data (fs, h)), ww_config = cfg,
               ww_current_lsn = last_lsn + 1, ww_current_offset = get_size (fs, h),
               ww_active = active, ww_buffer = [], ww_gc_sync = wc_sync_on_write cfg\<rparr>))"

section \<open>Writing\<close>

text \<open>
  \<open>write_out sync w\<close> appends the buffer at the file cursor, syncs if asked to, and clears the buffer:
  the common part of \<open>flush_internal\<close> and of the group-commit callbacks.
\<close>

definition write_out :: "bool \<Rightarrow> wal_writer \<Rightarrow> wal_error + wal_writer" where
  "write_out sync w =
     (if ww_buffer w = [] then Inr w
      else case file_write (ww_file w) (ww_buffer w) of
        Inl e \<Rightarrow> Inl WalPanic
      | Inr f \<Rightarrow> Inr (w\<lparr>ww_file := f,
                         ww_durable := (if sync then buffer (file_data f) else ww_durable w),
                         ww_buffer := []\<rparr>))"

definition flush_internal :: "wal_writer \<Rightarrow> wal_error + wal_writer" where
  "flush_internal w =
     write_out (wc_sync_on_write (ww_config w) \<and> \<not> is_group_commit_enabled w) w"

definition writer_flush :: "wal_writer \<Rightarrow> wal_error + wal_writer" where
  "writer_flush w = flush_internal w"

definition flush_callback :: "wal_writer \<Rightarrow> wal_error + wal_writer" where
  "flush_callback w = write_out (ww_gc_sync w) w"

definition write_record_internal ::
    "libs \<Rightarrow> bytes \<Rightarrow> wal_record \<Rightarrow> wal_writer \<Rightarrow> wal_error + wal_writer" where
  "write_record_internal L nonce r w =
     rbind (to_bytes L nonce r (wc_encryption_key (ww_config w))) (\<lambda>bs.
     if ww_current_offset w + length bs > wc_max_wal_size (ww_config w)
     then Inl (WalFull (ww_current_offset w + length bs) (wc_max_wal_size (ww_config w)))
     else let w1 = w\<lparr>ww_buffer := ww_buffer w @ bs\<rparr>;
              should_flush = (length (ww_buffer w1) \<ge> wc_buffer_size (ww_config w) \<or>
                wc_sync_on_write (ww_config w) \<and> \<not> is_group_commit_enabled w) in
     rbind (if should_flush then flush_internal w1 else Inr w1) (\<lambda>w2.
     Inr (w2\<lparr>ww_current_lsn := ww_current_lsn w2 + 1,
             ww_current_offset := ww_current_offset w2 + length bs\<rparr>)))"

definition new_record :: "u64 \<Rightarrow> record_data \<Rightarrow> wal_writer \<Rightarrow> wal_record" where
  "new_record now d w =
     wal_record_new now (ww_current_lsn w) d (wc_compression (ww_config w)) (wc_encryption (ww_config w))"

definition write_begin ::
    "libs \<Rightarrow> u64 \<Rightarrow> bytes \<Rightarrow> txn_id \<Rightarrow> wal_writer \<Rightarrow> wal_error + (lsn \<times> wal_writer)" where
  "write_begin L now nonce t w =
     (if t \<in> ww_active w then Inl (TransactionAlreadyExists t)
      else let l = ww_current_lsn w in
      rbind (write_record_internal L nonce (new_record now (Begin t) w) w) (\<lambda>w'.
      Inr (l, w'\<lparr>ww_active := insert t (ww_active w')\<rparr>)))"

definition write_operation ::
    "libs \<Rightarrow> u64 \<Rightarrow> bytes \<Rightarrow> txn_id \<Rightarrow> table_id \<Rightarrow> write_op_type \<Rightarrow> bytes \<Rightarrow> bytes \<Rightarrow> wal_writer \<Rightarrow>
     wal_error + (lsn \<times> wal_writer)" where
  "write_operation L now nonce t tb op_type key val w =
     (if t \<notin> ww_active w then Inl (TransactionNotFound t)
      else let l = ww_current_lsn w in
      rbind (write_record_internal L nonce (new_record now (Write t tb op_type key val) w) w) (\<lambda>w'.
      Inr (l, w')))"

text \<open>
  The coordinator and its worker thread (theory \<open>GroupCommit\<close>) are reduced to what a single client
  sees: the callback runs at once. Calls of other threads between writing the record and the callback
  are not part of this model.
\<close>

definition submit_commit :: "txn_id \<Rightarrow> lsn \<Rightarrow> wal_writer \<Rightarrow> wal_error + wal_writer" where
  "submit_commit t l w =
     (case flush_callback w of
        Inl e \<Rightarrow> Inl (CommitNotificationError t l)
      | Inr w' \<Rightarrow> Inr w')"

definition write_commit ::
    "libs \<Rightarrow> u64 \<Rightarrow> bytes \<Rightarrow> txn_id \<Rightarrow> wal_writer \<Rightarrow> wal_error + (lsn \<times> wal_writer)" where
  "write_commit L now nonce t w =
     (if t \<notin> ww_active w then Inl (TransactionNotFound t)
      else let l = ww_current_lsn w in
      rbind (write_record_internal L nonce (new_record now (Commit t) w) w) (\<lambda>w1.
      let w2 = w1\<lparr>ww_active := ww_active w1 - {t}\<rparr> in
      rbind (if is_group_commit_enabled w2 then submit_commit t l w2
             else if wc_sync_on_write (ww_config w2) then writer_flush w2
             else Inr w2) (\<lambda>w3.
      Inr (l, w3))))"

definition write_prepare ::
    "libs \<Rightarrow> u64 \<Rightarrow> bytes \<Rightarrow> txn_id \<Rightarrow> wal_writer \<Rightarrow> wal_error + (lsn \<times> wal_writer)" where
  "write_prepare L now nonce t w =
     (if t \<notin> ww_active w then Inl (TransactionNotFound t)
      else let l = ww_current_lsn w in
      rbind (write_record_internal L nonce (new_record now (Prepare t) w) w) (\<lambda>w'. Inr (l, w')))"

definition write_rollback ::
    "libs \<Rightarrow> u64 \<Rightarrow> bytes \<Rightarrow> txn_id \<Rightarrow> wal_writer \<Rightarrow> wal_error + (lsn \<times> wal_writer)" where
  "write_rollback L now nonce t w =
     (if t \<notin> ww_active w then Inl (TransactionNotFound t)
      else let l = ww_current_lsn w in
      rbind (write_record_internal L nonce (new_record now (Rollback t) w) w) (\<lambda>w'.
      Inr (l, w'\<lparr>ww_active := ww_active w' - {t}\<rparr>)))"

definition write_checkpoint ::
    "libs \<Rightarrow> u64 \<Rightarrow> bytes \<Rightarrow> txn_id list \<Rightarrow> wal_writer \<Rightarrow> wal_error + (lsn \<times> wal_writer)" where
  "write_checkpoint L now nonce active_order w =
     (let l = ww_current_lsn w in
      rbind (write_record_internal L nonce (new_record now (Checkpoint l active_order) w) w) (\<lambda>w'.
      Inr (l, w')))"

definition writer_truncate :: "wal_writer \<Rightarrow> wal_error + wal_writer" where
  "writer_truncate w =
     rbind (write_out False w) (\<lambda>w'.
     Inr (w'\<lparr>ww_file := file_truncate (ww_file w'), ww_current_offset := 0\<rparr>))"

section \<open>The log behind the bytes\<close>

text \<open>
  \<open>writer_log L w rs\<close>: file and buffer together encode \<open>rs\<close>, the file cursor is at the end of the
  file, the offset counts both, the sequence numbers run from 1, and the active set is the one the
  records leave.
\<close>

definition lsns_from_1 :: "wal_record list \<Rightarrow> bool" where
  "lsns_from_1 rs \<longleftrightarrow> map rec_lsn rs = map (\<lambda>i. of_nat (Suc i)) [0..<length rs]"

definition active_after :: "wal_record list \<Rightarrow> txn_id set" where
  "active_after rs = fold (\<lambda>r. track_active (rec_data r)) rs {}"

definition log_bytes :: "libs \<Rightarrow> wal_writer \<Rightarrow> wal_record list \<Rightarrow> bool" where
  "log_bytes L w rs \<longleftrightarrow>
     encoded L (wc_encryption_key (ww_config w)) rs (ww_contents w @ ww_buffer w) \<and>
     cursor (snd (ww_file w)) = length (ww_contents w) \<and>
     ww_current_offset w = length (ww_contents w @ ww_buffer w) \<and>
     lsns_from_1 rs \<and> ww_current_lsn w = of_nat (Suc (length rs)) \<and>
     wc_max_wal_size (ww_config w) < 2 ^ 32 \<and>
     ww_current_offset w \<le> wc_max_wal_size (ww_config w)"

definition writer_log :: "libs \<Rightarrow> wal_writer \<Rightarrow> wal_record list \<Rightarrow> bool" where
  "writer_log L w rs \<longleftrightarrow> log_bytes L w rs \<and> ww_active w = active_after rs"

lemma lsns_snoc: "lsns_from_1 rs \<Longrightarrow> rec_lsn r = of_nat (Suc (length rs)) \<Longrightarrow> lsns_from_1 (rs @ [r])"
  by (simp add: lsns_from_1_def)

lemma active_after_simps [simp]:
  "active_after [] = {}"
  "active_after (rs @ [r]) = track_active (rec_data r) (active_after rs)"
  by (simp_all add: active_after_def)

lemma file_write_end:
  assumes "cursor (snd f) = length (buffer (file_data f))"
    and "length (buffer (file_data f)) + length bs < 2 ^ 64"
  shows "\<exists>f'. file_write f bs = Inr f' \<and> buffer (file_data f') = buffer (file_data f) @ bs \<and>
    cursor (snd f') = length (buffer (file_data f'))"
  using assms by (simp add: file_write_def Let_def overwrite_append)

text \<open>Writing the buffer out moves bytes from the buffer to the file and changes nothing else.\<close>

lemma write_out_log:
  assumes "cursor (snd (ww_file w)) = length (ww_contents w)"
    and "length (ww_contents w @ ww_buffer w) < 2 ^ 64"
  shows "\<exists>w'. write_out sync w = Inr w' \<and> ww_contents w' @ ww_buffer w' = ww_contents w @ ww_buffer w \<and>
    ww_buffer w' = [] \<and> cursor (snd (ww_file w')) = length (ww_contents w') \<and>
    ww_current_offset w' = ww_current_offset w \<and> ww_current_lsn w' = ww_current_lsn w \<and>
    ww_active w' = ww_active w \<and> ww_config w' = ww_config w \<and>
    (sync \<and> ww_buffer w \<noteq> [] \<longrightarrow> ww_durable w' = ww_contents w') \<and>
    (\<not> sync \<or> ww_buffer w = [] \<longrightarrow> ww_durable w' = ww_durable w)"
proof -
  obtain f' where "file_write (ww_file w) (ww_buffer w) = Inr f'"
    "buffer (file_data f') = ww_contents w @ ww_buffer w"
    "cursor (snd f') = length (buffer (file_data f'))"
    using file_write_end [of "ww_file w" "ww_buffer w"] assms by auto
  then show ?thesis
    using assms(1) by (auto simp: write_out_def)
qed

lemma log_bytes_write_out:
  assumes "log_bytes L w rs"
  shows "\<exists>w'. write_out sync w = Inr w' \<and> log_bytes L w' rs \<and> ww_active w' = ww_active w \<and>
    ww_config w' = ww_config w \<and> ww_buffer w' = [] \<and>
    (sync \<and> ww_buffer w \<noteq> [] \<longrightarrow> ww_durable w' = ww_contents w') \<and>
    (\<not> sync \<or> ww_buffer w = [] \<longrightarrow> ww_durable w' = ww_durable w)"
proof -
  have "length (ww_contents w @ ww_buffer w) < 2 ^ 64"
    using assms by (auto simp: log_bytes_def)
  from write_out_log [of w sync, OF _ this] assms show ?thesis
    unfolding log_bytes_def by metis
qed

section \<open>Every operation extends the log\<close>

lemma new_record_simps [simp]:
  "rec_lsn (new_record now d w) = ww_current_lsn w"
  "rec_data (new_record now d w) = d"
  by (simp_all add: new_record_def wal_record_new_def)

lemma log_bytes_extend:
  assumes "log_bytes L w rs" and "length nonce = 12" and "data_fits d"
    and "to_bytes L nonce (new_record now d w) (wc_encryption_key (ww_config w)) = Inr bs"
    and "ww_current_offset w + length bs \<le> wc_max_wal_size (ww_config w)"
  shows "log_bytes L (w\<lparr>ww_buffer := ww_buffer w @ bs, ww_current_lsn := ww_current_lsn w + 1,
    ww_current_offset := ww_current_offset w + length bs\<rparr>) (rs @ [new_record now d w])"
proof -
  have "encoded L (wc_encryption_key (ww_config w)) (rs @ [new_record now d w])
      ((ww_contents w @ ww_buffer w) @ bs)"
    using assms by (intro encoded_snoc [where nonce = nonce]) (auto simp: log_bytes_def)
  then show ?thesis
    using assms by (auto simp: log_bytes_def lsns_snoc)
qed

lemma write_out_commute:
  "write_out sync (w\<lparr>ww_current_lsn := l, ww_current_offset := k\<rparr>) =
   rbind (write_out sync w) (\<lambda>w'. Inr (w'\<lparr>ww_current_lsn := l, ww_current_offset := k\<rparr>))"
  by (auto simp: write_out_def split: sum.split)

lemma write_out_keeps:
  assumes "write_out sync w = Inr w'"
  shows "ww_current_lsn w' = ww_current_lsn w" "ww_current_offset w' = ww_current_offset w"
    "ww_active w' = ww_active w" "ww_config w' = ww_config w" "ww_buffer w' = []"
    "ww_gc_sync w' = ww_gc_sync w"
  using assms by (auto simp: write_out_def split: if_splits sum.splits)

lemma write_out_ok:
  assumes "log_bytes L w rs" and "write_out sync w = Inr w'"
  shows "log_bytes L w' rs" "sync \<and> ww_buffer w \<noteq> [] \<Longrightarrow> ww_durable w' = ww_contents w'"
  using log_bytes_write_out [OF assms(1), of sync] assms(2) by auto

lemma write_record_internal_ok:
  assumes log: "log_bytes L w rs" and "length nonce = 12" and "data_fits d"
    and ok: "write_record_internal L nonce (new_record now d w) w = Inr w'"
  shows "log_bytes L w' (rs @ [new_record now d w])" "ww_active w' = ww_active w"
    "ww_config w' = ww_config w" "ww_gc_sync w' = ww_gc_sync w"
    "wc_sync_on_write (ww_config w) \<and> \<not> is_group_commit_enabled w \<Longrightarrow>
      ww_buffer w' = [] \<and> ww_durable w' = ww_contents w'"
proof -
  obtain bs where bs: "to_bytes L nonce (new_record now d w) (wc_encryption_key (ww_config w)) = Inr bs"
    and fits: "ww_current_offset w + length bs \<le> wc_max_wal_size (ww_config w)"
    using ok by (auto simp: write_record_internal_def rbind_eq_Inr_iff split: if_splits)
  let ?u = "w\<lparr>ww_buffer := ww_buffer w @ bs, ww_current_lsn := ww_current_lsn w + 1,
    ww_current_offset := ww_current_offset w + length bs\<rparr>"
  define flush where "flush \<longleftrightarrow> length (ww_buffer w @ bs) \<ge> wc_buffer_size (ww_config w) \<or>
    wc_sync_on_write (ww_config w) \<and> \<not> is_group_commit_enabled w"
  have u: "log_bytes L ?u (rs @ [new_record now d w])"
    using log assms(2,3) bs fits by (rule log_bytes_extend)
  have w': "(if flush then flush_internal ?u else Inr ?u) = Inr w'"
    using ok bs fits write_out_keeps(1,2)
      write_out_commute [where w = "w\<lparr>ww_buffer := ww_buffer w @ bs\<rparr>"]
    by (auto simp: write_record_internal_def flush_internal_def is_group_commit_enabled_def
        rbind_eq_Inr_iff Let_def flush_def split: if_splits)
  have ne: "ww_buffer ?u \<noteq> []"
    using bs by (auto simp: to_bytes_def Let_def rbind_eq_Inr_iff magic_walr_def)
  show "log_bytes L w' (rs @ [new_record now d w])"
    using w' u write_out_ok(1) [OF u] by (auto simp: flush_internal_def split: if_splits)
  show "ww_active w' = ww_active w" "ww_config w' = ww_config w" "ww_gc_sync w' = ww_gc_sync w"
    using w' by (auto simp: flush_internal_def dest: write_out_keeps split: if_splits)
  show "ww_buffer w' = [] \<and> ww_durable w' = ww_contents w'"
    if "wc_sync_on_write (ww_config w) \<and> \<not> is_group_commit_enabled w"
    using w' that write_out_ok(2) [OF u, of True w'] write_out_keeps(5) [of True ?u w'] ne
    by (simp add: flush_internal_def flush_def is_group_commit_enabled_def)
qed

text \<open>What an acknowledged append of a record gives: the log of one more record.\<close>

definition appended :: "libs \<Rightarrow> wal_record list \<Rightarrow> record_data \<Rightarrow> lsn \<Rightarrow> wal_writer \<Rightarrow> bool" where
  "appended L rs d l w' \<longleftrightarrow>
     (\<exists>r. writer_log L w' (rs @ [r]) \<and> rec_data r = d \<and> rec_lsn r = l \<and> l = of_nat (Suc (length rs)))"

lemma appendedI:
  assumes "log_bytes L w' (rs @ [new_record now d w])" and "log_bytes L w rs"
    and "ww_active w' = track_active d (ww_active w)" and "ww_active w = active_after rs"
  shows "appended L rs d (ww_current_lsn w) w'"
  using assms by (auto simp: appended_def writer_log_def log_bytes_def)

lemma log_bytes_active [simp]: "log_bytes L (w\<lparr>ww_active := A\<rparr>) rs = log_bytes L w rs"
  by (simp add: log_bytes_def)

lemma write_begin_log:
  assumes "writer_log L w rs" and "length nonce = 12" and "write_begin L now nonce t w = Inr (l, w')"
  shows "appended L rs (Begin t) l w'" "t \<notin> ww_active w"
  using assms write_record_internal_ok(1,2) [of L w rs nonce "Begin t" now]
  by (auto simp: write_begin_def writer_log_def rbind_eq_Inr_iff Let_def split: if_splits
      intro!: appendedI)

lemma write_operation_log:
  assumes "writer_log L w rs" and "length nonce = 12" and "length key < 2 ^ 32"
    and "length val < 2 ^ 32" and "write_operation L now nonce t tb op_type key val w = Inr (l, w')"
  shows "appended L rs (Write t tb op_type key val) l w'" "t \<in> ww_active w"
  using assms write_record_internal_ok(1,2) [of L w rs nonce "Write t tb op_type key val" now]
  by (auto simp: write_operation_def writer_log_def rbind_eq_Inr_iff Let_def split: if_splits
      intro!: appendedI)

lemma write_prepare_log:
  assumes "writer_log L w rs" and "length nonce = 12" and "write_prepare L now nonce t w = Inr (l, w')"
  shows "appended L rs (Prepare t) l w'" "t \<in> ww_active w"
  using assms write_record_internal_ok(1,2) [of L w rs nonce "Prepare t" now]
  by (auto simp: write_prepare_def writer_log_def rbind_eq_Inr_iff Let_def split: if_splits
      intro!: appendedI)

lemma write_rollback_log:
  assumes "writer_log L w rs" and "length nonce = 12" and "write_rollback L now nonce t w = Inr (l, w')"
  shows "appended L rs (Rollback t) l w'" "t \<in> ww_active w"
  using assms write_record_internal_ok(1,2) [of L w rs nonce "Rollback t" now]
  by (auto simp: write_rollback_def writer_log_def rbind_eq_Inr_iff Let_def split: if_splits
      intro!: appendedI)

lemma write_checkpoint_log:
  assumes "writer_log L w rs" and "length nonce = 12" and "set ts = ww_active w"
    and "length ts < 2 ^ 32" and "write_checkpoint L now nonce ts w = Inr (l, w')"
  shows "appended L rs (Checkpoint l ts) l w'"
  using assms write_record_internal_ok(1,2) [of L w rs nonce "Checkpoint (ww_current_lsn w) ts" now]
  by (auto simp: write_checkpoint_def writer_log_def rbind_eq_Inr_iff Let_def
      intro!: appendedI)

lemma writer_flush_log:
  assumes "writer_log L w rs"
  shows "\<exists>w'. writer_flush w = Inr w' \<and> writer_log L w' rs \<and> ww_buffer w' = []"
  using log_bytes_write_out [of L w rs "wc_sync_on_write (ww_config w) \<and> \<not> is_group_commit_enabled w"]
    assms
  by (auto simp: writer_log_def writer_flush_def flush_internal_def)

text \<open>A commit: the record reaches the file, and without group commit it is durable.\<close>

lemma write_commit_log:
  assumes log: "writer_log L w rs" and nonce: "length nonce = 12"
    and ok: "write_commit L now nonce t w = Inr (l, w')"
  shows "appended L rs (Commit t) l w'" "t \<in> ww_active w"
    "wc_sync_on_write (ww_config w) \<and> \<not> is_group_commit_enabled w \<Longrightarrow>
      ww_buffer w' = [] \<and> ww_durable w' = ww_contents w'"
    "is_group_commit_enabled w \<Longrightarrow> ww_buffer w' = []"
proof -
  obtain w1 where w1: "write_record_internal L nonce (new_record now (Commit t) w) w = Inr w1"
    and t: "t \<in> ww_active w" and l: "l = ww_current_lsn w"
    and w': "(if is_group_commit_enabled w1 then submit_commit t l (w1\<lparr>ww_active := ww_active w1 - {t}\<rparr>)
      else if wc_sync_on_write (ww_config w1) then writer_flush (w1\<lparr>ww_active := ww_active w1 - {t}\<rparr>)
      else Inr (w1\<lparr>ww_active := ww_active w1 - {t}\<rparr>)) = Inr w'"
    using ok by (auto simp: write_commit_def rbind_eq_Inr_iff Let_def is_group_commit_enabled_def
        split: if_splits)
  let ?w2 = "w1\<lparr>ww_active := ww_active w1 - {t}\<rparr>"
  have lb: "log_bytes L w rs"
    using log by (simp add: writer_log_def)
  note w1_log = write_record_internal_ok [OF lb nonce _ w1]
  have log1: "log_bytes L ?w2 (rs @ [new_record now (Commit t) w])"
    using w1_log(1) by simp
  have same: "ww_active w1 = ww_active w" "ww_config w1 = ww_config w"
    using w1_log(2,3) by simp_all
  have "write_out (ww_gc_sync ?w2) ?w2 = Inr w' \<or> flush_internal ?w2 = Inr w' \<or> w' = ?w2"
    using w' by (auto simp: submit_commit_def flush_callback_def writer_flush_def
        split: if_splits sum.splits)
  then obtain sync where "write_out sync ?w2 = Inr w' \<or> w' = ?w2"
    unfolding flush_internal_def by blast
  then have "log_bytes L w' (rs @ [new_record now (Commit t) w]) \<and> ww_active w' = ww_active ?w2"
    using log1 write_out_ok(1) [OF log1] write_out_keeps(3) by blast
  moreover have "ww_active ?w2 = ww_active w - {t}"
    using same(1) by simp
  ultimately show "appended L rs (Commit t) l w'"
    unfolding l using log
    by (intro appendedI [where now = now and d = "Commit t"]) (simp_all add: writer_log_def)
  show "t \<in> ww_active w"
    by (fact t)
  show "ww_buffer w' = [] \<and> ww_durable w' = ww_contents w'"
    if sync: "wc_sync_on_write (ww_config w) \<and> \<not> is_group_commit_enabled w"
  proof -
    have "ww_buffer w1 = [] \<and> ww_durable w1 = ww_contents w1"
      using w1_log(5) sync by simp
    moreover have "w' = ?w2"
      using w' same sync calculation
      by (simp add: is_group_commit_enabled_def writer_flush_def flush_internal_def write_out_def)
    ultimately show ?thesis by simp
  qed
  show "ww_buffer w' = []" if "is_group_commit_enabled w"
    using w' same that
    by (auto simp: is_group_commit_enabled_def submit_commit_def flush_callback_def
        dest: write_out_keeps(5) split: sum.splits)
qed

end
