(* ===== verification/WalLog.thy ===== *)
theory WalLog
  imports WalWriter
begin

text \<open>
  Runs of the log writer. \<open>writer_step\<close> is one call on the writer, labelled with the payloads of
  the records it appends; \<open>writer_run\<close> are the writers reached from \<open>create\<close>. Every reached writer
  satisfies \<open>writer_log\<close> for a legal log, and what is read back from its file, by the reader or by
  the scan of \<open>open\<close>, is that log.
\<close>

section \<open>Legal logs\<close>

fun permitted :: "record_data \<Rightarrow> txn_id set \<Rightarrow> bool" where
  "permitted (Begin t) A \<longleftrightarrow> t \<notin> A"
| "permitted (Write t _ _ _ _) A \<longleftrightarrow> t \<in> A"
| "permitted (Commit t) A \<longleftrightarrow> t \<in> A"
| "permitted (Rollback t) A \<longleftrightarrow> t \<in> A"
| "permitted (Checkpoint _ ts) A \<longleftrightarrow> set ts = A"
| "permitted (Prepare t) A \<longleftrightarrow> t \<in> A"

inductive legal_log :: "record_data list \<Rightarrow> txn_id set \<Rightarrow> bool" where
  legal_Nil: "legal_log [] {}"
| legal_snoc: "legal_log ds A \<Longrightarrow> permitted d A \<Longrightarrow> legal_log (ds @ [d]) (track_active d A)"

inductive_cases legal_snocE: "legal_log (ds @ [d]) A"

section \<open>Steps\<close>

inductive writer_step :: "libs \<Rightarrow> wal_writer \<Rightarrow> record_data list \<Rightarrow> wal_writer \<Rightarrow> bool"
  for L :: libs where
  step_begin: "length nonce = 12 \<Longrightarrow> write_begin L now nonce t w = Inr (l, w') \<Longrightarrow>
    writer_step L w [Begin t] w'"
| step_write: "length nonce = 12 \<Longrightarrow> length key < 2 ^ 32 \<Longrightarrow> length val < 2 ^ 32 \<Longrightarrow>
    write_operation L now nonce t tb op_type key val w = Inr (l, w') \<Longrightarrow>
    writer_step L w [Write t tb op_type key val] w'"
| step_commit: "length nonce = 12 \<Longrightarrow> write_commit L now nonce t w = Inr (l, w') \<Longrightarrow>
    writer_step L w [Commit t] w'"
| step_prepare: "length nonce = 12 \<Longrightarrow> write_prepare L now nonce t w = Inr (l, w') \<Longrightarrow>
    writer_step L w [Prepare t] w'"
| step_rollback: "length nonce = 12 \<Longrightarrow> write_rollback L now nonce t w = Inr (l, w') \<Longrightarrow>
    writer_step L w [Rollback t] w'"
| step_checkpoint: "length nonce = 12 \<Longrightarrow> set ts = ww_active w \<Longrightarrow> length ts < 2 ^ 32 \<Longrightarrow>
    write_checkpoint L now nonce ts w = Inr (l, w') \<Longrightarrow> writer_step L w [Checkpoint l ts] w'"
| step_flush: "writer_flush w = Inr w' \<Longrightarrow> writer_step L w [] w'"

inductive writer_run ::
    "libs \<Rightarrow> string \<Rightarrow> wal_writer_config \<Rightarrow> record_data list \<Rightarrow> wal_writer \<Rightarrow> bool"
  for L :: libs and path :: string and cfg :: wal_writer_config where
  run_create: "writer_create fs path cfg = Inr w \<Longrightarrow> wc_max_wal_size cfg < 2 ^ 32 \<Longrightarrow>
    writer_run L path cfg [] w"
| run_step: "writer_run L path cfg ds w \<Longrightarrow> writer_step L w d w' \<Longrightarrow> writer_run L path cfg (ds @ d) w'"

text \<open>The path of the log leads to the data of the writer's handle; no call changes that or the
  configuration.\<close>

definition linked :: "string \<Rightarrow> wal_writer \<Rightarrow> bool" where
  "linked path w \<longleftrightarrow> tree (fst (ww_file w)) path = Some (MemFile (data (snd (ww_file w))))"

definition same_home :: "wal_writer \<Rightarrow> wal_writer \<Rightarrow> bool" where
  "same_home w w' \<longleftrightarrow> ww_config w' = ww_config w \<and> tree (fst (ww_file w')) = tree (fst (ww_file w)) \<and>
     data (snd (ww_file w')) = data (snd (ww_file w)) \<and> ww_gc_sync w' = ww_gc_sync w"

lemma same_home_simps [simp]:
  "same_home w w"
  "same_home w (w'\<lparr>ww_active := A\<rparr>) = same_home w w'"
  "same_home w (w'\<lparr>ww_current_lsn := l, ww_current_offset := k\<rparr>) = same_home w w'"
  "same_home (w\<lparr>ww_active := A\<rparr>) w' = same_home w w'"
  "same_home (w\<lparr>ww_buffer := b\<rparr>) w' = same_home w w'"
  "same_home w (w'\<lparr>ww_buffer := b\<rparr>) = same_home w w'"
  by (simp_all add: same_home_def)

lemma same_home_trans: "same_home w w' \<Longrightarrow> same_home w' w'' \<Longrightarrow> same_home w w''"
  by (simp add: same_home_def)

lemma same_home_linked: "same_home w w' \<Longrightarrow> linked path w' = linked path w"
  by (simp add: same_home_def linked_def)

lemma file_write_keeps:
  assumes "file_write f bs = Inr f'"
  shows "tree (fst f') = tree (fst f)" "data (snd f') = data (snd f)"
  using assms
  by (auto simp: file_write_def Let_def set_cursor_def set_file_data_def split: if_splits)

lemma same_home_write_out:
  assumes "write_out sync w = Inr w'"
  shows "same_home w w'"
proof (cases "ww_buffer w = []")
  case False
  then obtain f where "file_write (ww_file w) (ww_buffer w) = Inr f" "ww_file w' = f"
    using assms by (auto simp: write_out_def split: sum.splits)
  then show ?thesis
    using file_write_keeps write_out_keeps(4,6) [OF assms] by (simp add: same_home_def)
qed (use assms in \<open>simp add: write_out_def\<close>)

lemma same_home_record: "write_record_internal L nonce r w = Inr w' \<Longrightarrow> same_home w w'"
  by (auto simp: write_record_internal_def flush_internal_def rbind_eq_Inr_iff Let_def
      dest!: same_home_write_out split: if_splits)

lemma same_home_commit:
  assumes "write_commit L now nonce t w = Inr (l, w')"
  shows "same_home w w'"
proof -
  obtain w1 w2 where w1: "write_record_internal L nonce (new_record now (Commit t) w) w = Inr w1"
    and w2: "w2 = w1\<lparr>ww_active := ww_active w1 - {t}\<rparr>"
    and "write_out (ww_gc_sync w2) w2 = Inr w' \<or> flush_internal w2 = Inr w' \<or> w' = w2"
    using assms by (auto simp: write_commit_def submit_commit_def flush_callback_def writer_flush_def
        rbind_eq_Inr_iff Let_def split: if_splits sum.splits)
  then have "same_home w2 w'"
    using same_home_write_out unfolding flush_internal_def by (metis same_home_simps(1))
  then show ?thesis
    using same_home_trans [OF same_home_record [OF w1]] w2 by simp
qed

lemma same_home_step: "writer_step L w d w' \<Longrightarrow> same_home w w'"
  by (induction rule: writer_step.induct)
    (auto simp: write_begin_def write_operation_def write_prepare_def write_rollback_def
      write_checkpoint_def writer_flush_def flush_internal_def rbind_eq_Inr_iff Let_def
      dest: same_home_record same_home_write_out same_home_commit split: if_splits)

section \<open>Every run writes a legal log\<close>

lemma step_appended:
  assumes "writer_step L w d w'" and log: "writer_log L w rs"
  shows "(\<exists>x l. d = [x] \<and> appended L rs x l w' \<and> permitted x (ww_active w)) \<or>
    d = [] \<and> writer_flush w = Inr w'"
  using assms(1)
proof cases
  case (step_begin nonce now t l)
  with write_begin_log [OF log step_begin(2,3)] show ?thesis by auto
next
  case (step_write nonce key val now t tb op_type l)
  with write_operation_log [OF log step_write(2-5)] show ?thesis by auto
next
  case (step_commit nonce now t l)
  with write_commit_log(1,2) [OF log step_commit(2,3)] show ?thesis by auto
next
  case (step_prepare nonce now t l)
  with write_prepare_log [OF log step_prepare(2,3)] show ?thesis by auto
next
  case (step_rollback nonce now t l)
  with write_rollback_log [OF log step_rollback(2,3)] show ?thesis by auto
next
  case (step_checkpoint nonce ts now l)
  with write_checkpoint_log [OF log step_checkpoint(2-5)] show ?thesis by auto
qed simp

lemma step_log:
  assumes "writer_step L w d w'" and "writer_log L w rs"
  shows "\<exists>rs'. writer_log L w' (rs @ rs') \<and> map rec_data rs' = d \<and>
    (d = [] \<or> (\<exists>x. d = [x] \<and> permitted x (ww_active w)))"
  using step_appended [OF assms]
proof
  assume "\<exists>x l. d = [x] \<and> appended L rs x l w' \<and> permitted x (ww_active w)"
  then obtain x r where "d = [x]" "permitted x (ww_active w)" "writer_log L w' (rs @ [r])" "rec_data r = x"
    unfolding appended_def by blast
  then show ?thesis by (intro exI [of _ "[r]"]) simp
next
  assume "d = [] \<and> writer_flush w = Inr w'"
  with writer_flush_log [OF assms(2)] show ?thesis by auto
qed

lemma legal_log_active: "legal_log ds A \<Longrightarrow> A = fold track_active ds {}"
  by (induction rule: legal_log.induct) auto

lemma create_log:
  assumes "writer_create fs path cfg = Inr w" and "wc_max_wal_size cfg < 2 ^ 32"
  shows "writer_log L w []" "linked path w" "ww_config w = cfg"
  using assms
  by (auto simp: writer_create_def create_file_def writer_log_def log_bytes_def linked_def Let_def
      file_data_def new_file_data_def lsns_from_1_def encoded_Nil split: if_splits)

lemma run_log:
  assumes "writer_run L path cfg ds w"
  shows "\<exists>rs. writer_log L w rs \<and> map rec_data rs = ds \<and> legal_log ds (ww_active w)"
    and "linked path w" and "ww_config w = cfg"
  using assms
proof (induction rule: writer_run.induct)
  case (run_create fs w)
  {
    case 1
    then show ?case
      using create_log [OF run_create] by (auto simp: writer_log_def intro: legal_Nil)
  next
    case 2
    then show ?case
      by (rule create_log(2) [OF run_create])
  next
    case 3
    then show ?case
      by (rule create_log(3) [OF run_create])
  }
next
  case (run_step ds w d w')
  {
    case 1
    obtain rs where rs: "writer_log L w rs" "map rec_data rs = ds" "legal_log ds (ww_active w)"
      using run_step.IH(1) by auto
    obtain rs' where rs': "writer_log L w' (rs @ rs')" "map rec_data rs' = d"
      "d = [] \<or> (\<exists>x. d = [x] \<and> permitted x (ww_active w))"
      using step_log [OF run_step.hyps(2) rs(1)] by metis
    have "legal_log (ds @ d) (ww_active w')"
    proof (cases d)
      case Nil
      with rs rs' show ?thesis by (simp add: writer_log_def)
    next
      case (Cons x xs)
      with rs rs' obtain r where "rs' = [r]" "x = rec_data r" "d = [x]" "permitted x (ww_active w)"
        by auto
      with rs rs' legal_snoc [OF rs(3), of x] show ?thesis by (simp add: writer_log_def)
    qed
    with rs rs' show ?case by (intro exI [of _ "rs @ rs'"]) simp
  next
    case 2
    with run_step.IH(2) same_home_step [OF run_step.hyps(2)] show ?case
      by (simp add: same_home_linked)
  next
    case 3
    with run_step.IH(3) same_home_step [OF run_step.hyps(2)] show ?case
      by (simp add: same_home_def)
  }
qed

section \<open>Reading the log back\<close>

text \<open>A reader opened on the log's path after a flush holds exactly the records written.\<close>

lemma reader_open_linked:
  assumes log: "writer_log L w rs" and link: "linked path w" and empty: "ww_buffer w = []"
    and L: "libs_ok L"
  shows "\<exists>rd. reader_open (fst (ww_file w)) path (wc_encryption_key (ww_config w)) = Inr rd \<and>
    reader_holds L rd rs"
proof -
  let ?h = "\<lparr>cursor = 0, name = path, data = data (snd (ww_file w))\<rparr>"
  let ?rd = "\<lparr>rd_file = (fst (ww_file w), ?h), rd_key = wc_encryption_key (ww_config w),
    rd_offset = 0, rd_file_size = length (ww_contents w)\<rparr>"
  have same: "buffer (file_data (fst (ww_file w), ?h)) = ww_contents w"
    by (simp add: file_data_def)
  have "reader_open (fst (ww_file w)) path (wc_encryption_key (ww_config w)) = Inr ?rd"
    using link same by (simp add: reader_open_def open_file_def linked_def get_size_def)
  moreover have "encoded L (rd_key ?rd) rs (ww_contents w)" "reader_at ?rd [] (ww_contents w @ [])"
    using log same empty by (auto simp: writer_log_def log_bytes_def reader_at_def)
  then have "reader_holds L ?rd rs"
    using L unfolding reader_holds_def by (metis length_greater_0_conv list.size(3) zero_less_numeral)
  ultimately show ?thesis by blast
qed

lemma run_read_back:
  assumes "writer_run L path cfg ds w" and "ww_buffer w = []" and "libs_ok L"
  shows "\<exists>rd rs. reader_open (fst (ww_file w)) path (wc_encryption_key cfg) = Inr rd \<and>
    reader_holds L rd rs \<and> map rec_data rs = ds \<and> lsns_from_1 rs \<and> writer_log L w rs"
proof -
  obtain rs where rs: "writer_log L w rs" "map rec_data rs = ds"
    using run_log(1) [OF assms(1)] by auto
  then show ?thesis
    using reader_open_linked [OF rs(1) run_log(2) [OF assms(1)] assms(2,3)] run_log(3) [OF assms(1)]
    by (auto simp: writer_log_def log_bytes_def)
qed

text \<open>The scan of \<open>open\<close> recomputes the writer's counter and its active set.\<close>

lemma scan_loop_holds:
  assumes "reader_holds L rd rs"
  shows "scan_loop L rd (l, A) =
    Inr (if rs = [] then l else rec_lsn (last rs), fold (\<lambda>r. track_active (rec_data r)) rs A)"
proof -
  have fold: "fold_result (\<lambda>acc r. Inr (rec_lsn r, track_active (rec_data r) (snd acc)) ::
      wal_error + (lsn \<times> txn_id set)) rs (l, A) =
    Inr (if rs = [] then l else rec_lsn (last rs), fold (\<lambda>r. track_active (rec_data r)) rs A)" for l A
    by (induction rs arbitrary: l A) auto
  have "scan_loop L s a =
      (case read_next L s of
         Inl e \<Rightarrow> Inl e
       | Inr (None, s') \<Rightarrow> Inr (id a)
       | Inr (Some r, s') \<Rightarrow>
           (case Inr (rec_lsn r, track_active (rec_data r) (snd a)) of Inl e \<Rightarrow> Inl e
            | Inr a' \<Rightarrow> scan_loop L s' a'))" for s a
    by (subst scan_loop.simps) (auto split: sum.split option.split)
  from wal_source.loop_is_fold [OF this assms, of "(l, A)"] show ?thesis
    by (simp add: fold)
qed

lemma lsns_last: "lsns_from_1 rs \<Longrightarrow> rs \<noteq> [] \<Longrightarrow> rec_lsn (last rs) = of_nat (length rs)"
proof -
  assume rs: "lsns_from_1 rs" "rs \<noteq> []"
  have "rec_lsn (last rs) = last (map rec_lsn rs)"
    using rs(2) by (simp add: last_map)
  also have "\<dots> = of_nat (length rs)"
    using rs by (cases rs rule: rev_cases) (simp_all add: lsns_from_1_def last_map)
  finally show ?thesis .
qed

lemma writer_reopen:
  assumes run: "writer_run L path cfg ds w" and "ww_buffer w = []" and L: "libs_ok L"
  shows "\<exists>w'. writer_open L (fst (ww_file w)) path cfg = Inr w' \<and>
    ww_current_lsn w' = ww_current_lsn w \<and> ww_active w' = ww_active w \<and>
    ww_current_offset w' = ww_current_offset w \<and> ww_contents w' = ww_contents w \<and>
    cursor (snd (ww_file w')) = 0"
proof -
  obtain rd rs where rd: "reader_open (fst (ww_file w)) path (wc_encryption_key cfg) = Inr rd"
    "reader_holds L rd rs" and log: "writer_log L w rs"
    using run_read_back [OF assms] by blast
  have "scan_wal_file L (fst (ww_file w)) path (wc_encryption_key cfg) =
      Inr (ww_current_lsn w - 1, ww_active w)"
    using rd log lsns_last [of rs] scan_loop_holds [OF rd(2), of 0 "{}"]
    by (auto simp: scan_wal_file_def writer_log_def log_bytes_def active_after_def)
  then show ?thesis
    using run_log(2) [OF run] log assms(2)
    by (simp add: writer_open_def open_file_def linked_def get_size_def file_data_def writer_log_def
        log_bytes_def)
qed

section \<open>Every legal log can be written\<close>

definition plain_config :: "wal_writer_config \<Rightarrow> bool" where
  "plain_config cfg \<longleftrightarrow> wc_compression cfg = Comp_None \<and> wc_encryption cfg = Enc_None"

definition record_cost :: "record_data \<Rightarrow> nat" where
  "record_cost d = 63 + length (serialize_data d)"

fun numbered_at :: "nat \<Rightarrow> record_data \<Rightarrow> bool" where
  "numbered_at i (Checkpoint l _) \<longleftrightarrow> l = of_nat (Suc i)"
| "numbered_at i _ \<longleftrightarrow> True"

lemma to_bytes_plain:
  assumes "libs_ok L" and "plain_config (ww_config w)"
  shows "\<exists>bs. to_bytes L nonce (new_record now d w) key = Inr bs \<and> length bs = record_cost d"
  using assms
  by (auto simp: to_bytes_def compress_record_def encrypt_record_def plain_config_def new_record_def
      wal_record_new_def record_cost_def libs_okD Let_def)

lemma record_internal_total:
  assumes L: "libs_ok L" and plain: "plain_config (ww_config w)" and log: "log_bytes L w rs"
    and fits: "ww_current_offset w + record_cost d \<le> wc_max_wal_size (ww_config w)"
  shows "\<exists>w'. write_record_internal L nonce (new_record now d w) w = Inr w' \<and>
    ww_current_offset w' = ww_current_offset w + record_cost d"
proof -
  obtain bs where bs: "to_bytes L nonce (new_record now d w) (wc_encryption_key (ww_config w)) = Inr bs"
    "length bs = record_cost d"
    using to_bytes_plain [OF L plain] by blast
  let ?w1 = "w\<lparr>ww_buffer := ww_buffer w @ bs\<rparr>"
  have "cursor (snd (ww_file ?w1)) = length (ww_contents ?w1)"
    "length (ww_contents ?w1 @ ww_buffer ?w1) < 2 ^ 64"
    using log fits bs(2) by (auto simp: log_bytes_def)
  then have "\<exists>w2. flush_internal ?w1 = Inr w2 \<and> ww_current_offset w2 = ww_current_offset ?w1"
    using write_out_log [of ?w1] unfolding flush_internal_def by blast
  then show ?thesis
    using bs fits by (auto simp: write_record_internal_def Let_def)
qed

lemma commit_total:
  assumes log: "log_bytes L w rs"
  shows "\<exists>w'. (if is_group_commit_enabled w then submit_commit t l w
      else if wc_sync_on_write (ww_config w) then writer_flush w else Inr w) = Inr w' \<and>
    ww_current_offset w' = ww_current_offset w"
proof -
  have "\<exists>w'. write_out sync w = Inr w' \<and> ww_current_offset w' = ww_current_offset w" for sync
    using log_bytes_write_out [OF log, of sync] write_out_keeps(2) by blast
  then have *: "\<exists>w'. flush_callback w = Inr w' \<and> ww_current_offset w' = ww_current_offset w"
    "\<exists>w'. writer_flush w = Inr w' \<and> ww_current_offset w' = ww_current_offset w"
    unfolding flush_callback_def writer_flush_def flush_internal_def by blast+
  then show ?thesis
    by (auto simp: submit_commit_def)
qed

lemma run_extend:
  assumes L: "libs_ok L" and plain: "plain_config cfg" and run: "writer_run L path cfg ds w"
    and perm: "permitted d (ww_active w)" and fits: "data_fits d" "numbered_at (length ds) d"
    and room: "ww_current_offset w + record_cost d \<le> wc_max_wal_size cfg"
  shows "\<exists>w'. writer_run L path cfg (ds @ [d]) w' \<and> ww_current_offset w' = ww_current_offset w + record_cost d"
proof -
  obtain rs where rs: "writer_log L w rs" "map rec_data rs = ds"
    using run_log(1) [OF run] by blast
  note cfg = run_log(3) [OF run]
  have log: "log_bytes L w rs" and l: "ww_current_lsn w = of_nat (Suc (length ds))"
    using rs by (auto simp: writer_log_def log_bytes_def)
  define nonce :: bytes where "nonce = replicate 12 0"
  have nonce: "length nonce = 12"
    by (simp add: nonce_def)
  obtain w1 where w1: "write_record_internal L nonce (new_record 0 d w) w = Inr w1"
    "ww_current_offset w1 = ww_current_offset w + record_cost d"
    using record_internal_total [OF L _ log] plain cfg room by metis
  have log1: "log_bytes L (w1\<lparr>ww_active := A\<rparr>) (rs @ [new_record 0 d w])" for A
    using write_record_internal_ok(1) [OF log nonce fits(1) w1(1)] by simp
  have ?thesis if "writer_step L w [d] w'" "ww_current_offset w' = ww_current_offset w1" for w'
    using run_step [OF run that(1)] that(2) w1(2) by auto
  moreover have "\<exists>w'. writer_step L w [d] w' \<and> ww_current_offset w' = ww_current_offset w1"
  proof (cases d)
    case (Begin t)
    with w1(1) perm show ?thesis
      using step_begin [OF nonce, of L 0 t w] by (auto simp: write_begin_def)
  next
    case (Write t tb op_type key val)
    with w1(1) perm fits show ?thesis
      using step_write [OF nonce, of key val L 0 t tb op_type w] by (auto simp: write_operation_def)
  next
    case (Commit t)
    with w1(1) perm commit_total [OF log1, of "ww_active w1 - {t}" t "ww_current_lsn w"] show ?thesis
      using step_commit [OF nonce, of L 0 t w] by (auto simp: write_commit_def Let_def)
  next
    case (Rollback t)
    with w1(1) perm show ?thesis
      using step_rollback [OF nonce, of L 0 t w] by (auto simp: write_rollback_def Let_def)
  next
    case (Checkpoint l' ts)
    with w1(1) perm fits l show ?thesis
      using step_checkpoint [OF nonce, of ts w L 0] by (auto simp: write_checkpoint_def Let_def)
  next
    case (Prepare t)
    with w1(1) perm show ?thesis
      using step_prepare [OF nonce, of L 0 t w] by (auto simp: write_prepare_def Let_def)
  qed
  ultimately show ?thesis by blast
qed

lemma log_realizable:
  assumes L: "libs_ok L" and cfg: "plain_config cfg" "wc_max_wal_size cfg < 2 ^ 32"
    and "legal_log ds A" and "list_all data_fits ds"
    and "\<forall>i < length ds. numbered_at i (ds ! i)"
    and "sum_list (map record_cost ds) \<le> wc_max_wal_size cfg"
  shows "\<exists>w. writer_run L path cfg ds w \<and> ww_current_offset w = sum_list (map record_cost ds)"
  using assms(4-)
proof (induction rule: legal_log.induct)
  case legal_Nil
  let ?w = "projr (writer_create memory_fs_new path cfg)"
  have "writer_create memory_fs_new path cfg = Inr ?w" "ww_current_offset ?w = 0"
    by (simp_all add: writer_create_def create_file_def memory_fs_new_def)
  then show ?case
    using run_create [of memory_fs_new path cfg ?w L] cfg by (intro exI [of _ ?w]) simp
next
  case (legal_snoc ds A d)
  have "\<forall>i < length ds. numbered_at i (ds ! i)"
  proof (intro allI impI)
    fix i
    assume "i < length ds"
    then show "numbered_at i (ds ! i)"
      using legal_snoc.prems(2) [rule_format, of i] by (simp add: nth_append)
  qed
  then obtain w where w: "writer_run L path cfg ds w" "ww_current_offset w = sum_list (map record_cost ds)"
    using legal_snoc by auto
  have "numbered_at (length ds) d"
    using legal_snoc.prems(2) [rule_format, of "length ds"] by simp
  moreover have "ww_active w = A"
    using legal_log_active [OF legal_snoc.hyps(1)] run_log(1) [OF w(1)] legal_log_active by blast
  ultimately show ?case
    using run_extend [OF L cfg(1) w(1), of d] legal_snoc.hyps(2) legal_snoc.prems w(2)
    by (auto simp: add_ac)
qed

lemma run_flushed:
  assumes "writer_run L path cfg ds w"
  shows "\<exists>w'. writer_run L path cfg ds w' \<and> ww_buffer w' = [] \<and> ww_current_offset w' = ww_current_offset w"
proof -
  obtain rs where "writer_log L w rs"
    using run_log(1) [OF assms] by blast
  then obtain w' where w': "writer_flush w = Inr w'" "ww_buffer w' = []"
    using writer_flush_log by blast
  then have "ww_current_offset w' = ww_current_offset w"
    by (auto simp: writer_flush_def flush_internal_def dest: write_out_keeps(2))
  then show ?thesis
    using run_step [OF assms step_flush [OF w'(1)]] w'(2) by auto
qed

lemma commit_succeeds:
  assumes L: "libs_ok L" and plain: "plain_config cfg" and run: "writer_run L path cfg ds w"
    and t: "t \<in> ww_active w" and nonce: "length nonce = 12"
    and room: "ww_current_offset w + record_cost (Commit t) \<le> wc_max_wal_size cfg"
  shows "\<exists>l w'. write_commit L now nonce t w = Inr (l, w')"
proof -
  obtain rs where log: "log_bytes L w rs"
    using run_log(1) [OF run] by (auto simp: writer_log_def)
  obtain w1 where w1: "write_record_internal L nonce (new_record now (Commit t) w) w = Inr w1"
    using record_internal_total [OF L _ log] plain run_log(3) [OF run] room by metis
  have "log_bytes L (w1\<lparr>ww_active := ww_active w1 - {t}\<rparr>) (rs @ [new_record now (Commit t) w])"
    using write_record_internal_ok(1) [OF log nonce _ w1] by simp
  from commit_total [OF this, of t "ww_current_lsn w"] show ?thesis
    using t w1 by (auto simp: write_commit_def Let_def)
qed

section \<open>Durability of commits\<close>

lemma gc_sync_step: "writer_step L w d w' \<Longrightarrow> ww_gc_sync w' = ww_gc_sync w"
  using same_home_step by (simp add: same_home_def)

lemma gc_sync_run: "writer_run L path cfg ds w \<Longrightarrow> ww_gc_sync w"
  by (induction rule: writer_run.induct)
    (auto simp: writer_create_def gc_sync_step split: sum.splits)

text \<open>
  With group commit, the fate of a commit depends on the buffer: a buffer that reaches its size is
  written without a sync, and the callback of the coordinator then finds it empty.
\<close>

lemma write_commit_group:
  assumes log: "writer_log L w rs" and nonce: "length nonce = 12" and gc: "is_group_commit_enabled w"
    and bs: "to_bytes L nonce (new_record now (Commit t) w) (wc_encryption_key (ww_config w)) = Inr bs"
    and ok: "write_commit L now nonce t w = Inr (l, w')"
  shows "wc_buffer_size (ww_config w) \<le> length (ww_buffer w) + length bs \<Longrightarrow> ww_durable w' = ww_durable w"
    "length (ww_buffer w) + length bs < wc_buffer_size (ww_config w) \<Longrightarrow> ww_gc_sync w \<Longrightarrow>
      ww_durable w' = ww_contents w'"
proof -
  let ?w1 = "w\<lparr>ww_buffer := ww_buffer w @ bs\<rparr>"
  have ne: "bs \<noteq> []"
    using bs by (auto simp: to_bytes_def Let_def rbind_eq_Inr_iff magic_walr_def)
  show "ww_durable w' = ww_durable w" if "wc_buffer_size (ww_config w) \<le> length (ww_buffer w) + length bs"
    using ok gc bs ne that
    by (auto simp: write_commit_def write_record_internal_def flush_internal_def submit_commit_def
        flush_callback_def write_out_def is_group_commit_enabled_def rbind_eq_Inr_iff Let_def
        split: if_splits sum.splits)
  show "ww_durable w' = ww_contents w'"
    if "length (ww_buffer w) + length bs < wc_buffer_size (ww_config w)" "ww_gc_sync w"
    using ok gc bs ne that
    by (auto simp: write_commit_def write_record_internal_def flush_internal_def submit_commit_def
        flush_callback_def write_out_def is_group_commit_enabled_def rbind_eq_Inr_iff Let_def
        split: if_splits sum.splits)
qed

section \<open>Where a writer puts its records\<close>

lemma write_out_contents:
  "write_out sync w = Inr w' \<Longrightarrow> ww_buffer w \<noteq> [] \<Longrightarrow>
   ww_contents w' = overwrite (cursor (snd (ww_file w))) (ww_buffer w) (ww_contents w) \<and> ww_buffer w' = []"
  by (auto simp: write_out_def file_write_def Let_def split: if_splits)

lemma begin_flush_contents:
  assumes empty: "ww_buffer w = []" and b: "write_begin L now nonce t w = Inr (l, w1)"
    and flush: "writer_flush w1 = Inr w2"
    and bs: "to_bytes L nonce (new_record now (Begin t) w) (wc_encryption_key (ww_config w)) = Inr bs"
  shows "ww_contents w2 = overwrite (cursor (snd (ww_file w))) bs (ww_contents w)" "same_home w w2"
proof -
  let ?w = "w\<lparr>ww_buffer := bs\<rparr>"
  have ne: "bs \<noteq> []"
    using bs by (auto simp: to_bytes_def Let_def rbind_eq_Inr_iff magic_walr_def)
  have w1: "ww_file w1 = ww_file w \<and> ww_buffer w1 = bs \<or>
      (\<exists>w0. flush_internal ?w = Inr w0 \<and> ww_file w1 = ww_file w0 \<and> ww_buffer w1 = ww_buffer w0)"
    using b bs empty
    by (auto simp: write_begin_def write_record_internal_def rbind_eq_Inr_iff Let_def split: if_splits)
  have "write_begin L now nonce t w = Inr (l, w1) \<Longrightarrow> same_home w w1"
    by (auto simp: write_begin_def rbind_eq_Inr_iff Let_def dest: same_home_record split: if_splits)
  then show "same_home w w2"
    using b flush same_home_write_out same_home_trans unfolding writer_flush_def flush_internal_def
    by blast
  show "ww_contents w2 = overwrite (cursor (snd (ww_file w))) bs (ww_contents w)"
    using w1
  proof (elim disjE exE conjE)
    assume "ww_file w1 = ww_file w" "ww_buffer w1 = bs"
    then show ?thesis
      using write_out_contents [of _ w1 w2] flush ne by (simp add: writer_flush_def flush_internal_def)
  next
    fix w0
    assume w0: "flush_internal ?w = Inr w0" "ww_file w1 = ww_file w0" "ww_buffer w1 = ww_buffer w0"
    then have "ww_contents w0 = overwrite (cursor (snd (ww_file w))) bs (ww_contents w)" "ww_buffer w0 = []"
      using write_out_contents [of _ ?w w0] ne by (simp_all add: flush_internal_def)
    then show ?thesis
      using flush w0 by (simp add: writer_flush_def flush_internal_def write_out_def)
  qed
qed

lemma write_out_total:
  "cursor (snd (ww_file w)) + length (ww_buffer w) < 2 ^ 64 \<Longrightarrow> \<exists>w'. write_out sync w = Inr w'"
  by (simp add: write_out_def file_write_def Let_def)

lemma begin_flush_total:
  assumes "libs_ok L" and plain: "plain_config (ww_config w)" and empty: "ww_buffer w = []" and t: "t \<notin> ww_active w"
    and room: "ww_current_offset w + record_cost (Begin t) \<le> wc_max_wal_size (ww_config w)"
    and small: "cursor (snd (ww_file w)) + record_cost (Begin t) < 2 ^ 64"
  shows "\<exists>l w1 w2 bs. write_begin L now nonce t w = Inr (l, w1) \<and> writer_flush w1 = Inr w2 \<and>
    to_bytes L nonce (new_record now (Begin t) w) (wc_encryption_key (ww_config w)) = Inr bs"
proof -
  obtain bs where bs: "to_bytes L nonce (new_record now (Begin t) w) (wc_encryption_key (ww_config w)) = Inr bs"
    "length bs = record_cost (Begin t)"
    using to_bytes_plain [OF assms(1,2)] by blast
  let ?w = "w\<lparr>ww_buffer := bs\<rparr>"
  obtain w0 where w0: "flush_internal ?w = Inr w0"
    using write_out_total [of ?w] small bs(2) by (auto simp: flush_internal_def)
  then have "\<exists>l w1. write_begin L now nonce t w = Inr (l, w1)"
    using t empty bs room by (auto simp: write_begin_def write_record_internal_def Let_def)
  then obtain l w1 where w1: "write_begin L now nonce t w = Inr (l, w1)"
    by blast
  then have "ww_file w1 = ww_file w \<and> ww_buffer w1 = bs \<or> ww_buffer w1 = []"
    using bs empty by (auto simp: write_begin_def write_record_internal_def flush_internal_def
        rbind_eq_Inr_iff Let_def dest: write_out_keeps(5) split: if_splits)
  then have "\<exists>w2. writer_flush w1 = Inr w2"
    using write_out_total [of w1] small bs(2)
    by (auto simp: writer_flush_def flush_internal_def write_out_def)
  then show ?thesis
    using w1 bs by blast
qed

lemma encoded_nonempty: "libs_ok L \<Longrightarrow> encoded L key rs bs \<Longrightarrow> rs \<noteq> [] \<Longrightarrow> 63 \<le> length bs"
proof -
  assume L: "libs_ok L" and "encoded L key rs bs" "rs \<noteq> []"
  from this(2,3) obtain r nonce b bs' where "bs = b @ bs'" and b: "to_bytes L nonce r key = Inr b"
    "length b < 2 ^ 32"
    by (rule encoded_Cons_cases) blast
  with frame_header(3) [OF L b] show ?thesis
    by simp
qed

lemma truncate_ok:
  assumes "writer_log L w rs" and "writer_truncate w = Inr w'"
  shows "ww_contents w' = []" "ww_buffer w' = []" "cursor (snd (ww_file w')) = ww_current_offset w"
    "same_home w w'"
proof -
  obtain w0 where w0: "write_out False w = Inr w0"
    and w': "w' = w0\<lparr>ww_file := file_truncate (ww_file w0), ww_current_offset := 0\<rparr>"
    using assms(2) by (auto simp: writer_truncate_def rbind_eq_Inr_iff)
  have "log_bytes L w0 rs" "ww_buffer w0 = []" "ww_current_offset w0 = ww_current_offset w"
    using write_out_ok(1) [OF _ w0] write_out_keeps(2,5) [OF w0] assms(1) by (auto simp: writer_log_def)
  moreover have "same_home w w0"
    using w0 by (rule same_home_write_out)
  ultimately show "ww_contents w' = []" "ww_buffer w' = []"
    "cursor (snd (ww_file w')) = ww_current_offset w" "same_home w w'"
    by (simp_all add: w' file_truncate_def set_size_def resize_def log_bytes_def same_home_def
        set_file_data_def file_data_def)
qed

lemma read_next_hole:
  assumes "buffer (file_data (rd_file rd)) = replicate n 0 @ bs" and "4 \<le> n" and "31 \<le> n + length bs"
    and "rd_offset rd = 0" and "rd_file_size rd = n + length bs" and "n + length bs < 2 ^ 64"
  shows "read_next L rd = Inl (CorruptedWal 0 ''Invalid magic'')"
proof -
  have "read_at_offset (rd_file rd) 0 31 = take 31 (replicate n 0 @ bs)"
    using assms(1,6) by (simp add: mem_file.read_at)
  moreover have "bslice 0 4 (take 31 (replicate n 0 @ bs)) = replicate 4 (0 :: u8)"
    using assms(2) by (simp add: bslice_def min_def)
  moreover have "hd (replicate 4 (0 :: u8)) \<noteq> hd magic_walr"
    by (simp add: magic_walr_def)
  then have "replicate 4 (0 :: u8) \<noteq> magic_walr"
    by metis
  ultimately show ?thesis
    using assms by (auto simp: read_next_def Let_def)
qed

lemma read_all_error: "read_next L rd = Inl e \<Longrightarrow> read_all L rd = Inl e"
  by (simp add: read_all_def read_all_loop.simps)

lemma truncated_hole:
  assumes L: "libs_ok L" and run: "writer_run L path cfg ds w" "ds \<noteq> []"
    and trunc: "writer_truncate w = Inr w0"
    and b: "write_begin L now nonce t w0 = Inr (l, w1)" "writer_flush w1 = Inr w2"
  obtains n bs where "ww_contents w2 = replicate n 0 @ bs" and "63 \<le> n" and "n + length bs < 2 ^ 64"
    and "linked path w2"
proof -
  obtain rs where rs: "writer_log L w rs" "map rec_data rs = ds"
    using run_log(1) [OF run(1)] by blast
  note w0 = truncate_ok [OF rs(1) trunc]
  have n: "63 \<le> ww_current_offset w" "ww_current_offset w < 2 ^ 32" "wc_max_wal_size cfg < 2 ^ 32"
    using rs run(2) encoded_nonempty [OF L] run_log(3) [OF run(1)]
    by (fastforce simp: writer_log_def log_bytes_def)+
  obtain bs where bs: "to_bytes L nonce (new_record now (Begin t) w0) (wc_encryption_key (ww_config w0)) = Inr bs"
    "length bs \<le> wc_max_wal_size (ww_config w0)"
    using b(1) by (auto simp: write_begin_def write_record_internal_def rbind_eq_Inr_iff Let_def
        split: if_splits)
  note w2 = begin_flush_contents [OF w0(2) b bs(1)]
  have "ww_contents w2 = replicate (ww_current_offset w) 0 @ bs"
    using w2(1) w0(1,3) by (auto simp: overwrite_def put_slice_def resize_def Let_def)
  moreover have "linked path w2"
    using run_log(2) [OF run(1)] w0(4) w2(2) same_home_trans same_home_linked by blast
  moreover have "ww_current_offset w + length bs < 2 ^ 64"
    using n bs(2) w0(4) run_log(3) [OF run(1)] by (simp add: same_home_def)
  ultimately show ?thesis
    using that n(1) by blast
qed

section \<open>A sample log\<close>

fun legal_check :: "txn_id set \<Rightarrow> record_data list \<Rightarrow> bool" where
  "legal_check A [] \<longleftrightarrow> True"
| "legal_check A (d # ds) \<longleftrightarrow> permitted d A \<and> legal_check (track_active d A) ds"

lemma legal_check_append:
  "legal_log ds A \<Longrightarrow> legal_check A ds' \<Longrightarrow> legal_log (ds @ ds') (fold track_active ds' A)"
proof (induction ds' arbitrary: ds A)
  case Nil
  then show ?case by simp
next
  case (Cons d ds')
  then show ?case
    using legal_snoc [of ds A d] Cons.IH [of "ds @ [d]" "track_active d A"] by simp
qed

lemma legal_checkI: "legal_check {} ds \<Longrightarrow> legal_log ds (fold track_active ds {})"
  using legal_check_append [OF legal_Nil] by simp

definition sample_log :: "record_data list" where
  "sample_log =
     [Begin 2, Begin 1, Write 1 5 Op_Put [1, 2] [3], Write 2 5 Op_Delete [9] [], Checkpoint 5 [1, 2],
      Commit 2, Rollback 1, Begin 3]"

lemma sample_log_ok:
  "legal_log sample_log {3}" "list_all data_fits sample_log"
  "\<forall>i < length sample_log. numbered_at i (sample_log ! i)"
  "sum_list (map record_cost sample_log) \<le> wc_max_wal_size wal_writer_config_default"
  "plain_config wal_writer_config_default" "wc_max_wal_size wal_writer_config_default < 2 ^ 32"
proof -
  have "legal_check {} sample_log"
    by (auto simp: sample_log_def)
  moreover have "fold track_active sample_log {} = {3}"
    by (auto simp: sample_log_def)
  ultimately show "legal_log sample_log {3}"
    using legal_checkI by metis
  show "list_all data_fits sample_log"
    by (simp add: sample_log_def)
  show "\<forall>i < length sample_log. numbered_at i (sample_log ! i)"
    by (auto simp: sample_log_def less_Suc_eq nth_Cons')
  show "sum_list (map record_cost sample_log) \<le> wc_max_wal_size wal_writer_config_default"
    by (simp add: sample_log_def record_cost_def wal_writer_config_default_def)
  show "plain_config wal_writer_config_default" "wc_max_wal_size wal_writer_config_default < 2 ^ 32"
    by (simp_all add: plain_config_def wal_writer_config_default_def)
qed

lemma default_key: "wc_encryption_key wal_writer_config_default = None"
  by (simp add: wal_writer_config_default_def)

lemma sample_active:
  "writer_run L path cfg sample_log w \<Longrightarrow> ww_active w = {3}"
  using legal_log_active [OF sample_log_ok(1)] run_log(1) legal_log_active by blast

lemma sample_run:
  "\<exists>w. writer_run plain_libs ''wal'' wal_writer_config_default sample_log w \<and> ww_buffer w = [] \<and>
    ww_current_offset w \<le> 1000"
proof -
  have "sum_list (map record_cost sample_log) \<le> 1000"
    by (simp add: sample_log_def record_cost_def)
  then show ?thesis
    using log_realizable [OF plain_libs_ok sample_log_ok(5,6,1-4), of "''wal''"] run_flushed by fastforce
qed

definition sync_config :: wal_writer_config where
  "sync_config = wal_writer_config_default\<lparr>wc_group_commit := group_commit_low_latency\<rparr>"

definition small_config :: wal_writer_config where
  "small_config = wal_writer_config_default\<lparr>wc_buffer_size := 64\<rparr>"

lemmas sample_config_defs =
  sync_config_def small_config_def wal_writer_config_default_def group_commit_default_def
  group_commit_low_latency_def plain_config_def

lemma sample_configs_ok:
  "plain_config sync_config" "wc_max_wal_size sync_config = 1024 * 1024 * 1024"
  "plain_config small_config" "wc_max_wal_size small_config = 1024 * 1024 * 1024"
  "plain_config wal_writer_config_default"
  "wc_max_wal_size wal_writer_config_default = 1024 * 1024 * 1024"
  by (simp_all add: sample_config_defs)

text \<open>A writer with one active transaction, and its commit.\<close>

lemma begun_run:
  assumes "plain_config cfg" and "wc_max_wal_size cfg = 1024 * 1024 * 1024"
  obtains w l w' bs where "writer_run plain_libs ''wal'' cfg [Begin 1] w"
    and "write_commit plain_libs 0 (replicate 12 0) 1 w = Inr (l, w')"
    and "to_bytes plain_libs (replicate 12 0) (new_record 0 (Commit 1) w) (wc_encryption_key cfg) = Inr bs"
    and "length bs = 71" and "length (ww_buffer w) \<le> 71"
proof -
  have "legal_log [Begin 1] {1}"
    using legal_checkI [of "[Begin 1]"] by simp
  then obtain w where w: "writer_run plain_libs ''wal'' cfg [Begin 1] w" "ww_current_offset w = 71"
    using log_realizable [OF plain_libs_ok assms(1), of "[Begin 1]" "{1}" "''wal''"] assms(2)
    by (auto simp: record_cost_def)
  have "ww_active w = {1}"
    using run_log(1) [OF w(1)] legal_log_active by fastforce
  then obtain l w' where "write_commit plain_libs 0 (replicate 12 0) 1 w = Inr (l, w')"
    using w assms commit_succeeds [OF plain_libs_ok assms(1) w(1), of 1 "replicate 12 0" 0]
    by (auto simp: record_cost_def)
  moreover obtain bs where "to_bytes plain_libs (replicate 12 0) (new_record 0 (Commit 1) w)
      (wc_encryption_key cfg) = Inr bs" "length bs = 71"
    using to_bytes_plain [OF plain_libs_ok, of w "replicate 12 0" 0 "Commit 1"] assms(1)
      run_log(3) [OF w(1)] by (auto simp: record_cost_def)
  moreover have "length (ww_buffer w) \<le> 71"
    using run_log(1) [OF w(1)] w(2) by (auto simp: writer_log_def log_bytes_def)
  ultimately show ?thesis
    using that w(1) by blast
qed

end
