(* ===== verification/WalProps.thy ===== *)
theory WalProps
  imports WalLog
begin

text \<open>
  What the log promises, as statements about runs of the writer: legality and completeness of the
  logs, reading back, reopening, durability of commits, and the two calls after which the log is
  damaged.
\<close>

text \<open>
  C24. Every run of the writer produces a legal log: only active transactions write, commit,
  prepare or roll back, no active transaction begins again, a checkpoint lists the active set, and
  the writer's active set is the one the log leaves. File and buffer together are its encoding.
\<close>

theorem writer_run_legal:
  assumes "writer_run L path cfg ds w"
  shows "legal_log ds (ww_active w) \<and>
    (\<exists>rs. map rec_data rs = ds \<and> lsns_from_1 rs \<and>
       encoded L (wc_encryption_key cfg) rs (ww_contents w @ ww_buffer w))"
  using run_log(1,3) [OF assms] by (auto simp: writer_log_def log_bytes_def)

theorem writer_run_legal_witness:
  "\<exists>w. ww_active w = {3} \<and> legal_log sample_log (ww_active w) \<and>
    (\<exists>rs. map rec_data rs = sample_log \<and> lsns_from_1 rs \<and>
       encoded plain_libs None rs (ww_contents w @ ww_buffer w))"
proof -
  obtain w where w: "writer_run plain_libs ''wal'' wal_writer_config_default sample_log w"
    using sample_run by blast
  moreover have "ww_active w = {3}"
    using w by (rule sample_active)
  ultimately show ?thesis
    using writer_run_legal [of plain_libs "''wal''" wal_writer_config_default sample_log w]
    by (auto simp: wal_writer_config_default_def)
qed

text \<open>
  C25. Conversely every legal log can be written, with no call failing, by a writer without
  compression and encryption (\<open>plain_config\<close>), if the configured size of the log is below
  \<open>2 ^ 32\<close> bytes and the records fit it, keys and values fit their length fields, and
  each checkpoint carries the sequence number of its place.
\<close>

theorem writer_complete:
  assumes "libs_ok L" and "plain_config cfg" and "wc_max_wal_size cfg < 2 ^ 32"
    and "legal_log ds A" and "list_all data_fits ds"
    and "\<forall>i < length ds. numbered_at i (ds ! i)"
    and "sum_list (map record_cost ds) \<le> wc_max_wal_size cfg"
  shows "\<exists>w. writer_run L path cfg ds w \<and> ww_buffer w = [] \<and> ww_active w = A"
proof -
  obtain w where w: "writer_run L path cfg ds w" "ww_buffer w = []"
    using log_realizable [OF assms] run_flushed by blast
  moreover have "ww_active w = A"
    using legal_log_active [OF assms(4)] run_log(1) [OF w(1)] legal_log_active by blast
  ultimately show ?thesis by blast
qed

theorem writer_complete_witness:
  "\<exists>w. writer_run plain_libs ''wal'' wal_writer_config_default sample_log w \<and> ww_buffer w = [] \<and>
    ww_active w = {3}"
  using writer_complete [OF plain_libs_ok sample_log_ok(5,6,1-4)] .

text \<open>
  C2. What was written is read back: on the file of any run with an empty buffer, a new reader
  returns exactly the records of the run, in order, numbered from 1.
\<close>

theorem log_round_trip:
  assumes "libs_ok L" and "writer_run L path cfg ds w" and "ww_buffer w = []"
  shows "\<exists>rd rd' rs. reader_open (fst (ww_file w)) path (wc_encryption_key cfg) = Inr rd \<and>
    read_all L rd = Inr (rs, rd') \<and> map rec_data rs = ds \<and> lsns_from_1 rs"
proof -
  obtain rd rs where rd: "reader_open (fst (ww_file w)) path (wc_encryption_key cfg) = Inr rd"
    "reader_holds L rd rs" "map rec_data rs = ds" "lsns_from_1 rs"
    using run_read_back [OF assms(2,3,1)] by blast
  moreover obtain rd' where "read_all L rd = Inr (rs, rd')"
    using read_all_holds [OF rd(2)] by (cases "read_all L rd") auto
  ultimately show ?thesis by blast
qed

theorem log_round_trip_witness:
  "\<exists>(w :: wal_writer) rd rd' rs. reader_open (fst (ww_file w)) ''wal'' None = Inr rd \<and>
    read_all plain_libs rd = Inr (rs, rd') \<and> map rec_data rs = sample_log \<and> lsns_from_1 rs"
proof -
  obtain w where "writer_run plain_libs ''wal'' wal_writer_config_default sample_log w" "ww_buffer w = []"
    using sample_run by blast
  from log_round_trip [OF plain_libs_ok this] show ?thesis
    unfolding default_key by blast
qed

text \<open>
  C28. Opening the log of a writer whose buffer is empty recovers its state: the next sequence number,
  the active transactions and the offset are those of the writer. Records that were still in the
  buffer are not in the file, and the writer has no close that would flush them.
\<close>

theorem writer_open_resumes:
  assumes "libs_ok L" and "writer_run L path cfg ds w" and "ww_buffer w = []"
  shows "\<exists>w'. writer_open L (fst (ww_file w)) path cfg = Inr w' \<and>
    ww_current_lsn w' = ww_current_lsn w \<and> ww_active w' = ww_active w \<and>
    ww_current_offset w' = ww_current_offset w \<and> ww_contents w' = ww_contents w"
  using writer_reopen [OF assms(2,3,1)] by blast

theorem writer_open_resumes_witness:
  "\<exists>(w :: wal_writer) w'. writer_open plain_libs (fst (ww_file w)) ''wal'' wal_writer_config_default = Inr w' \<and>
    ww_current_lsn w' = ww_current_lsn w \<and> ww_active w' = {3}"
proof -
  obtain w where w: "writer_run plain_libs ''wal'' wal_writer_config_default sample_log w" "ww_buffer w = []"
    using sample_run by blast
  moreover have "ww_active w = {3}"
    using w(1) by (rule sample_active)
  ultimately show ?thesis
    using writer_open_resumes [OF plain_libs_ok w] by metis
qed

text \<open>
  C26. Durability. With \<open>sync_on_write\<close> and no group commit, a commit that is acknowledged is
  on storage: the durable bytes are the encoding of the log up to and including the commit record.
\<close>

theorem commit_durable:
  assumes "writer_run L path cfg ds w" and "length nonce = 12"
    and "wc_sync_on_write cfg" and "\<not> gc_enabled (wc_group_commit cfg)"
    and "write_commit L now nonce t w = Inr (l, w')"
  shows "\<exists>rs. map rec_data rs = ds @ [Commit t] \<and> l = rec_lsn (last rs) \<and>
    encoded L (wc_encryption_key cfg) rs (ww_durable w')"
proof -
  obtain rs where rs: "writer_log L w rs" "map rec_data rs = ds"
    using run_log(1) [OF assms(1)] by blast
  note commit = write_commit_log [OF rs(1) assms(2,5)]
  have "ww_buffer w' = []" "ww_durable w' = ww_contents w'"
    using commit(3) assms(3,4) run_log(3) [OF assms(1)] by (simp_all add: is_group_commit_enabled_def)
  moreover have "ww_config w' = cfg"
    using same_home_commit [OF assms(5)] run_log(3) [OF assms(1)] by (simp add: same_home_def)
  moreover obtain r where "writer_log L w' (rs @ [r])" "rec_data r = Commit t" "rec_lsn r = l"
    using commit(1) by (auto simp: appended_def)
  ultimately show ?thesis
    using rs(2) by (intro exI [of _ "rs @ [r]"]) (auto simp: writer_log_def log_bytes_def)
qed

theorem commit_durable_witness:
  "\<exists>w l w' rs. write_commit plain_libs 0 (replicate 12 0) 1 w = Inr (l, w') \<and>
    map rec_data rs = [Begin 1] @ [Commit 1] \<and> encoded plain_libs (wc_encryption_key sync_config) rs (ww_durable w')"
proof -
  obtain w l w' where w: "writer_run plain_libs ''wal'' sync_config [Begin 1] w"
    "write_commit plain_libs 0 (replicate 12 0) 1 w = Inr (l, w')"
    by (rule begun_run [OF sample_configs_ok(1,2)])
  have "wc_sync_on_write sync_config" "\<not> gc_enabled (wc_group_commit sync_config)"
    by (simp_all add: sample_config_defs)
  from commit_durable [OF w(1) length_replicate this w(2)] w(2) show ?thesis
    by blast
qed

text \<open>
  C27. With group commit the same promise holds for a client that has the writer to itself, while the
  commit record leaves the buffer below its configured size: no other thread comes between writing the
  record and the flush of the coordinator. Another thread that fills the buffer in between has it
  written out without a sync, the flush then finds it empty, and the commit is acknowledged before it
  is durable.
\<close>

theorem group_commit_durable:
  assumes "writer_run L path cfg ds w" and "length nonce = 12" and "gc_enabled (wc_group_commit cfg)"
    and "to_bytes L nonce (new_record now (Commit t) w) (wc_encryption_key cfg) = Inr bs"
    and "length (ww_buffer w) + length bs < wc_buffer_size cfg"
    and "write_commit L now nonce t w = Inr (l, w')"
  shows "\<exists>rs. map rec_data rs = ds @ [Commit t] \<and>
    encoded L (wc_encryption_key cfg) rs (ww_durable w')"
proof -
  note cfg = run_log(3) [OF assms(1)]
  obtain rs where rs: "writer_log L w rs" "map rec_data rs = ds"
    using run_log(1) [OF assms(1)] by blast
  have gc: "is_group_commit_enabled w"
    using assms(3) cfg by (simp add: is_group_commit_enabled_def)
  note commit = write_commit_log [OF rs(1) assms(2,6)]
  have "ww_durable w' = ww_contents w'"
    using write_commit_group(2) [OF rs(1) assms(2) gc _ assms(6)] assms(4,5) cfg
      gc_sync_run [OF assms(1)] by simp
  moreover have "ww_config w' = cfg"
    using same_home_commit [OF assms(6)] cfg by (simp add: same_home_def)
  moreover obtain r where "writer_log L w' (rs @ [r])" "rec_data r = Commit t"
    using commit(1) by (auto simp: appended_def)
  ultimately show ?thesis
    using rs(2) commit(4) gc by (intro exI [of _ "rs @ [r]"]) (auto simp: writer_log_def log_bytes_def)
qed

theorem group_commit_durable_witness:
  "\<exists>w l w' rs. write_commit plain_libs 0 (replicate 12 0) 1 w = Inr (l, w') \<and>
    map rec_data rs = [Begin 1] @ [Commit 1] \<and>
    encoded plain_libs (wc_encryption_key wal_writer_config_default) rs (ww_durable w')"
proof -
  obtain w l w' bs where w: "writer_run plain_libs ''wal'' wal_writer_config_default [Begin 1] w"
    "write_commit plain_libs 0 (replicate 12 0) 1 w = Inr (l, w')"
    "to_bytes plain_libs (replicate 12 0) (new_record 0 (Commit 1) w)
       (wc_encryption_key wal_writer_config_default) = Inr bs"
    "length bs = 71" "length (ww_buffer w) \<le> 71"
    by (rule begun_run [OF sample_configs_ok(5,6)])
  have "gc_enabled (wc_group_commit wal_writer_config_default)"
    "length (ww_buffer w) + length bs < wc_buffer_size wal_writer_config_default"
    using w(4,5) by (simp_all add: sample_config_defs)
  from group_commit_durable [OF w(1) length_replicate this(1) w(3) this(2) w(2)] w(2) show ?thesis
    by blast
qed

text \<open>
  At the configured size the promise breaks: the buffer is written without a sync, the flush
  of the coordinator has nothing left to write, and the commit is acknowledged although nothing new
  is durable, the durable bytes being those from before the call.
\<close>

lemma group_commit_unsynced:
  assumes "writer_run L path cfg ds w" and "length nonce = 12" and "gc_enabled (wc_group_commit cfg)"
    and "to_bytes L nonce (new_record now (Commit t) w) (wc_encryption_key cfg) = Inr bs"
    and "wc_buffer_size cfg \<le> length (ww_buffer w) + length bs"
    and "write_commit L now nonce t w = Inr (l, w')"
  shows "ww_durable w' = ww_durable w \<and> ww_buffer w' = []"
proof -
  note cfg = run_log(3) [OF assms(1)]
  obtain rs where rs: "writer_log L w rs"
    using run_log(1) [OF assms(1)] by blast
  have gc: "is_group_commit_enabled w"
    using assms(3) cfg by (simp add: is_group_commit_enabled_def)
  show ?thesis
    using write_commit_group(1) [OF rs assms(2) gc _ assms(6)] assms(4,5) cfg
      write_commit_log(4) [OF rs assms(2,6) gc] by simp
qed

lemma group_commit_unsynced_witness:
  "\<exists>w l w'. write_commit plain_libs 0 (replicate 12 0) 1 w = Inr (l, w') \<and>
    ww_durable w' = ww_durable w \<and> ww_buffer w' = []"
proof -
  obtain w l w' bs where w: "writer_run plain_libs ''wal'' small_config [Begin 1] w"
    "write_commit plain_libs 0 (replicate 12 0) 1 w = Inr (l, w')"
    "to_bytes plain_libs (replicate 12 0) (new_record 0 (Commit 1) w)
       (wc_encryption_key small_config) = Inr bs"
    "length bs = 71" "length (ww_buffer w) \<le> 71"
    by (rule begun_run [OF sample_configs_ok(3,4)])
  have "gc_enabled (wc_group_commit small_config)"
    "wc_buffer_size small_config \<le> length (ww_buffer w) + length bs"
    using w(4,5) by (simp_all add: sample_config_defs)
  from group_commit_unsynced [OF w(1) length_replicate this(1) w(3) this(2) w(2)] w(2) show ?thesis
    by blast
qed

text \<open>
  A reopened log is written from its beginning: the handle of \<open>open\<close> starts at position 0, so
  the first record appended after opening overwrites the head of the existing log.
\<close>

lemma reopened_log_overwritten:
  assumes "libs_ok L" and "writer_run L path cfg ds w" and "ww_buffer w = []"
    and "writer_open L (fst (ww_file w)) path cfg = Inr w'"
    and "write_begin L now nonce t w' = Inr (l, w1)" and "writer_flush w1 = Inr w2"
    and "to_bytes L nonce (new_record now (Begin t) w') (wc_encryption_key cfg) = Inr bs"
  shows "ww_contents w2 = bs @ drop (length bs) (ww_contents w)"
proof -
  have w': "ww_contents w' = ww_contents w" "cursor (snd (ww_file w')) = 0"
    using writer_reopen [OF assms(2,3,1)] assms(4) by auto
  have "ww_buffer w' = []" "ww_config w' = cfg"
    using assms(4) by (auto simp: writer_open_def rbind_eq_Inr_iff split: sum.splits)
  then have "ww_contents w2 = overwrite 0 bs (ww_contents w)"
    using begin_flush_contents(1) [OF _ assms(5,6)] assms(7) w' by simp
  then show ?thesis
    by (auto simp: overwrite_def put_slice_def resize_def Let_def)
qed

lemma reopened_log_overwritten_witness:
  "\<exists>w w' l w1 w2 bs. writer_run plain_libs ''wal'' wal_writer_config_default sample_log w \<and>
    writer_open plain_libs (fst (ww_file w)) ''wal'' wal_writer_config_default = Inr w' \<and>
    write_begin plain_libs 0 (replicate 12 0) 9 w' = Inr (l, w1) \<and> writer_flush w1 = Inr w2 \<and>
    ww_contents w2 = bs @ drop (length bs) (ww_contents w)"
proof -
  let ?cfg = wal_writer_config_default
  obtain w where w: "writer_run plain_libs ''wal'' ?cfg sample_log w" "ww_buffer w = []"
    "ww_current_offset w \<le> 1000"
    using sample_run by blast
  obtain w' where w': "writer_open plain_libs (fst (ww_file w)) ''wal'' ?cfg = Inr w'"
    "cursor (snd (ww_file w')) = 0" "ww_active w' = {3}" "ww_current_offset w' \<le> 1000"
    using writer_reopen [OF w(1,2) plain_libs_ok] sample_active [OF w(1)] w(3) by auto
  have "ww_config w' = ?cfg" "ww_buffer w' = []"
    using w'(1) by (auto simp: writer_open_def rbind_eq_Inr_iff split: sum.splits)
  then obtain l w1 w2 bs where b: "write_begin plain_libs 0 (replicate 12 0) 9 w' = Inr (l, w1)"
    "writer_flush w1 = Inr w2" "to_bytes plain_libs (replicate 12 0) (new_record 0 (Begin 9) w')
      (wc_encryption_key ?cfg) = Inr bs"
    using begin_flush_total [OF plain_libs_ok, of w' 9 0 "replicate 12 0"] w'
    by (auto simp: record_cost_def sample_config_defs)
  show ?thesis
    using reopened_log_overwritten [OF plain_libs_ok w(1,2) w'(1) b] w(1) w'(1) b(1,2) by blast
qed

text \<open>
  Truncation leaves the handle at its old position: the first record appended afterwards lands
  behind a hole of zeros, and reading the log fails on its first record.
\<close>

lemma truncated_log_unreadable:
  assumes "libs_ok L" and "writer_run L path cfg ds w" and "ds \<noteq> []"
    and "writer_truncate w = Inr w0"
    and "write_begin L now nonce t w0 = Inr (l, w1)" and "writer_flush w1 = Inr w2"
  shows "\<exists>rd. reader_open (fst (ww_file w2)) path (wc_encryption_key cfg) = Inr rd \<and>
    read_all L rd = Inl (CorruptedWal 0 ''Invalid magic'')"
proof -
  obtain n bs where hole: "ww_contents w2 = replicate n 0 @ bs" "63 \<le> n" "n + length bs < 2 ^ 64"
    and link: "linked path w2"
    using truncated_hole [OF assms] by blast
  let ?h = "\<lparr>cursor = 0, name = path, data = data (snd (ww_file w2))\<rparr>"
  have same: "buffer (file_data (fst (ww_file w2), ?h)) = replicate n 0 @ bs"
    using hole(1) by (simp add: file_data_def)
  let ?rd = "\<lparr>rd_file = (fst (ww_file w2), ?h), rd_key = wc_encryption_key cfg, rd_offset = 0,
    rd_file_size = n + length bs\<rparr>"
  have "reader_open (fst (ww_file w2)) path (wc_encryption_key cfg) = Inr ?rd"
    using link same by (simp add: reader_open_def open_file_def linked_def get_size_def)
  moreover have "read_next L ?rd = Inl (CorruptedWal 0 ''Invalid magic'')"
    using hole(2,3) same by (intro read_next_hole) auto
  ultimately show ?thesis
    using read_all_error by blast
qed

lemma truncated_log_unreadable_witness:
  "\<exists>(w :: wal_writer) w0 l w1 w2 rd. writer_truncate w = Inr w0 \<and>
    write_begin plain_libs 0 (replicate 12 0) 9 w0 = Inr (l, w1) \<and> writer_flush w1 = Inr w2 \<and>
    reader_open (fst (ww_file w2)) ''wal'' (wc_encryption_key wal_writer_config_default) = Inr rd \<and>
    read_all plain_libs rd = Inl (CorruptedWal 0 ''Invalid magic'')"
proof -
  let ?cfg = wal_writer_config_default
  obtain w where w: "writer_run plain_libs ''wal'' ?cfg sample_log w" "ww_buffer w = []"
    "ww_current_offset w \<le> 1000"
    using sample_run by blast
  obtain rs where rs: "writer_log plain_libs w rs"
    using run_log(1) [OF w(1)] by blast
  obtain w0 where w0: "writer_truncate w = Inr w0"
    using w(2) by (simp add: writer_truncate_def write_out_def)
  note tr = truncate_ok [OF rs w0]
  have "w0 = w\<lparr>ww_file := file_truncate (ww_file w), ww_current_offset := 0\<rparr>"
    using w0 w(2) by (simp add: writer_truncate_def write_out_def)
  then have "ww_active w0 = {3}" "ww_current_offset w0 = 0" "ww_config w0 = ?cfg"
    using sample_active [OF w(1)] run_log(3) [OF w(1)] by simp_all
  then obtain l w1 w2 bs where b: "write_begin plain_libs 0 (replicate 12 0) 9 w0 = Inr (l, w1)"
    "writer_flush w1 = Inr w2"
    using begin_flush_total [OF plain_libs_ok, of w0 9 0 "replicate 12 0"] tr w(3)
    by (auto simp: record_cost_def sample_config_defs)
  have "sample_log \<noteq> []"
    by (simp add: sample_log_def)
  from truncated_log_unreadable [OF plain_libs_ok w(1) this w0 b] w0 b show ?thesis
    by blast
qed

end
