(* ===== verification/GroupCommit.thy ===== *)
theory GroupCommit
  imports WalWriter "HOL-Library.Multiset"
begin

text \<open>
  The group-commit coordinator (\<open>src/src/wal/commit.rs\<close>): clients enqueue requests and wait on a
  channel; a worker thread polls the queue, drains it, runs the flush callback and notifies the
  batch; \<open>shutdown\<close> stops the worker and fails what is left. The threads are a step relation: each
  step is one critical section or one message. Channels are numbered in the order of submission,
  instants are microseconds, and \<open>gc_trace\<close> records what happened, newest event last.
\<close>

section \<open>Configuration and metrics\<close>

definition group_commit_high_throughput :: group_commit_config where
  "group_commit_high_throughput =
     \<lparr>gc_enabled = True, gc_max_batch_size = 100, gc_max_wait_micros = 1000, gc_min_batch_size = 10\<rparr>"

definition group_commit_balanced :: group_commit_config where
  "group_commit_balanced =
     \<lparr>gc_enabled = True, gc_max_batch_size = 50, gc_max_wait_micros = 500, gc_min_batch_size = 5\<rparr>"

record group_commit_metrics =
  total_commits :: u64
  total_fsyncs :: u64
  total_batches :: u64
  max_batch_size :: u64
  total_wait_time_us :: u64

definition metrics_new :: group_commit_metrics where
  "metrics_new = \<lparr>total_commits = 0, total_fsyncs = 0, total_batches = 0, max_batch_size = 0,
     total_wait_time_us = 0\<rparr>"

definition record_batch :: "nat \<Rightarrow> u64 \<Rightarrow> group_commit_metrics \<Rightarrow> group_commit_metrics" where
  "record_batch batch_size wait_time_us m =
     m\<lparr>total_commits := total_commits m + of_nat batch_size,
       total_batches := total_batches m + 1,
       total_fsyncs := total_fsyncs m + 1,
       total_wait_time_us := total_wait_time_us m + wait_time_us * of_nat batch_size,
       max_batch_size := (if of_nat batch_size > max_batch_size m then of_nat batch_size
                          else max_batch_size m)\<rparr>"

section \<open>The queue\<close>

datatype commit_result = Success | CommitError string

record commit_request =
  cr_txn_id :: txn_id
  cr_lsn :: lsn
  cr_queued_at :: nat
  cr_notifier :: nat

record commit_queue =
  cq_pending :: "commit_request list"
  cq_config :: group_commit_config

definition queue_new :: "group_commit_config \<Rightarrow> commit_queue" where
  "queue_new cfg = \<lparr>cq_pending = [], cq_config = cfg\<rparr>"

definition enqueue :: "commit_request \<Rightarrow> commit_queue \<Rightarrow> commit_queue" where
  "enqueue r q = q\<lparr>cq_pending := cq_pending q @ [r]\<rparr>"

definition should_flush :: "nat \<Rightarrow> commit_queue \<Rightarrow> bool" where
  "should_flush elapsed q =
     (if cq_pending q = [] then False
      else if length (cq_pending q) \<ge> gc_max_batch_size (cq_config q) then True
      else if length (cq_pending q) \<ge> gc_min_batch_size (cq_config q) \<and>
              elapsed \<ge> gc_max_wait_micros (cq_config q) then True
      else if elapsed \<ge> gc_max_wait_micros (cq_config q) then True
      else False)"

definition drain :: "commit_queue \<Rightarrow> commit_request list \<times> commit_queue" where
  "drain q = (cq_pending q, q\<lparr>cq_pending := []\<rparr>)"

definition queue_len :: "commit_queue \<Rightarrow> nat" where
  "queue_len q = length (cq_pending q)"

section \<open>The coordinator\<close>

text \<open>Where the worker thread stands in its loop.\<close>

datatype worker =
    NotStarted
  | Polling
  | Draining
  | Flushing "commit_request list"
  | Notifying commit_result "commit_request list"
  | Exited

datatype gc_event = Submitted nat | Flushed bool | Notified nat commit_result

record coordinator =
  gc_queue :: commit_queue
  gc_metrics :: group_commit_metrics
  gc_shutdown :: bool
  gc_worker :: worker
  gc_last_flush :: nat
  gc_now :: nat
  gc_next_channel :: nat
  gc_trace :: "gc_event list"

definition coordinator_new :: "group_commit_config \<Rightarrow> nat \<Rightarrow> coordinator" where
  "coordinator_new cfg now =
     \<lparr>gc_queue = queue_new cfg, gc_metrics = metrics_new, gc_shutdown = False,
      gc_worker = (if gc_enabled cfg then Polling else NotStarted), gc_last_flush = now,
      gc_now = now, gc_next_channel = 0, gc_trace = []\<rparr>"

definition submit :: "txn_id \<Rightarrow> lsn \<Rightarrow> coordinator \<Rightarrow> coordinator" where
  "submit t l s =
     s\<lparr>gc_queue := enqueue \<lparr>cr_txn_id = t, cr_lsn = l, cr_queued_at = gc_now s,
                           cr_notifier = gc_next_channel s\<rparr> (gc_queue s),
       gc_next_channel := Suc (gc_next_channel s),
       gc_trace := gc_trace s @ [Submitted (gc_next_channel s)]\<rparr>"

text \<open>One turn of the worker; \<open>flush_result\<close> is the answer of the flush callback.\<close>

definition worker_turn :: "(string + unit) \<Rightarrow> coordinator \<Rightarrow> coordinator" where
  "worker_turn flush_result s =
     (case gc_worker s of
        Polling \<Rightarrow>
          if gc_shutdown s then s\<lparr>gc_worker := Exited\<rparr>
          else if should_flush (gc_now s - gc_last_flush s) (gc_queue s)
               then s\<lparr>gc_worker := Draining\<rparr> else s
      | Draining \<Rightarrow>
          let (batch, q) = drain (gc_queue s) in
          s\<lparr>gc_queue := q, gc_worker := (if batch = [] then Polling else Flushing batch)\<rparr>
      | Flushing batch \<Rightarrow>
          s\<lparr>gc_metrics := record_batch (length batch) (of_nat (gc_now s - gc_last_flush s)) (gc_metrics s),
            gc_trace := gc_trace s @ [Flushed (\<not> isl flush_result)],
            gc_worker := Notifying (case flush_result of Inr _ \<Rightarrow> Success | Inl m \<Rightarrow> CommitError m) batch\<rparr>
      | Notifying res [] \<Rightarrow> s\<lparr>gc_worker := Polling, gc_last_flush := gc_now s\<rparr>
      | Notifying res (r # rs) \<Rightarrow>
          s\<lparr>gc_worker := Notifying res rs, gc_trace := gc_trace s @ [Notified (cr_notifier r) res]\<rparr>
      | NotStarted \<Rightarrow> s
      | Exited \<Rightarrow> s)"

definition set_shutdown :: "coordinator \<Rightarrow> coordinator" where
  "set_shutdown s = s\<lparr>gc_shutdown := True\<rparr>"

text \<open>The rest of \<open>shutdown\<close>, once the worker was joined.\<close>

definition finish_shutdown :: "coordinator \<Rightarrow> coordinator" where
  "finish_shutdown s =
     (let (remaining, q) = drain (gc_queue s) in
      s\<lparr>gc_queue := q,
        gc_trace := gc_trace s @
          map (\<lambda>r. Notified (cr_notifier r) (CommitError ''Coordinator shutdown'')) remaining\<rparr>)"

inductive gc_step :: "coordinator \<Rightarrow> coordinator \<Rightarrow> bool" where
  gc_tick: "gc_step s (s\<lparr>gc_now := gc_now s + d\<rparr>)"
| gc_submit: "gc_step s (submit t l s)"
| gc_turn: "gc_step s (worker_turn flush_result s)"
| gc_shutdown: "gc_step s (set_shutdown s)"
| gc_finish: "gc_shutdown s \<Longrightarrow> gc_worker s = Exited \<or> gc_worker s = NotStarted \<Longrightarrow>
    gc_step s (finish_shutdown s)"

inductive gc_reachable :: "group_commit_config \<Rightarrow> coordinator \<Rightarrow> bool" for cfg where
  gc_start: "gc_reachable cfg (coordinator_new cfg now)"
| gc_next: "gc_reachable cfg s \<Longrightarrow> gc_step s s' \<Longrightarrow> gc_reachable cfg s'"

section \<open>Every request is somewhere, once\<close>

fun in_flight :: "worker \<Rightarrow> commit_request list" where
  "in_flight (Flushing batch) = batch"
| "in_flight (Notifying _ batch) = batch"
| "in_flight _ = []"

fun answered :: "gc_event list \<Rightarrow> nat list" where
  "answered [] = []"
| "answered (Notified c _ # es) = c # answered es"
| "answered (_ # es) = answered es"

lemma answered_append [simp]: "answered (es @ es') = answered es @ answered es'"
  by (induction es rule: answered.induct) auto

lemma answered_map [simp]: "answered (map (\<lambda>r. Notified (f r) x) rs) = map f rs"
  by (induction rs) auto

definition channels :: "coordinator \<Rightarrow> nat list" where
  "channels s = answered (gc_trace s) @ map cr_notifier (in_flight (gc_worker s)) @
     map cr_notifier (cq_pending (gc_queue s))"

text \<open>
  \<open>settled s c\<close>: a successful flush lies between the submission of \<open>c\<close> and the end of the trace.
\<close>

definition flushed_after_submit :: "gc_event list \<Rightarrow> nat \<Rightarrow> bool" where
  "flushed_after_submit es c \<longleftrightarrow> (\<exists>a b. es = a @ Flushed True # b \<and> Submitted c \<in> set a)"

lemma flushed_after_submit_append [intro]:
  "flushed_after_submit es c \<Longrightarrow> flushed_after_submit (es @ es') c"
proof -
  assume "flushed_after_submit es c"
  then obtain a b where "es = a @ Flushed True # b" "Submitted c \<in> set a"
    by (auto simp: flushed_after_submit_def)
  then have "es @ es' = a @ Flushed True # (b @ es') \<and> Submitted c \<in> set a"
    by simp
  then show ?thesis
    unfolding flushed_after_submit_def by blast
qed

lemma flushed_after_submit_now:
  "Submitted c \<in> set es \<Longrightarrow> flushed_after_submit (es @ [Flushed True]) c"
  unfolding flushed_after_submit_def by auto

text \<open>A trace is honest when every success follows a successful flush made after the submission.\<close>

definition honest :: "gc_event list \<Rightarrow> bool" where
  "honest es \<longleftrightarrow> (\<forall>a c b. es = a @ Notified c Success # b \<longrightarrow> flushed_after_submit a c)"

definition gc_inv :: "coordinator \<Rightarrow> bool" where
  "gc_inv s \<longleftrightarrow>
     mset (channels s) = mset [0..<gc_next_channel s] \<and>
     (\<forall>c < gc_next_channel s. Submitted c \<in> set (gc_trace s)) \<and>
     (\<forall>r rs. gc_worker s = Notifying Success rs \<and> r \<in> set rs \<longrightarrow>
        flushed_after_submit (gc_trace s) (cr_notifier r)) \<and>
     honest (gc_trace s)"

lemma honest_append:
  assumes "honest es" and "\<forall>c. Notified c Success \<in> set es' \<longrightarrow> flushed_after_submit es c"
  shows "honest (es @ es')"
  unfolding honest_def
proof (intro allI impI)
  fix a c b
  assume "es @ es' = a @ Notified c Success # b"
  then consider us where "es @ us = a" "es' = us @ Notified c Success # b"
    | us where "es = a @ us" "us @ es' = Notified c Success # b"
    by (auto simp: append_eq_append_conv2)
  then show "flushed_after_submit a c"
  proof cases
    case 1
    then show ?thesis
      using assms(2) by (metis flushed_after_submit_append in_set_conv_decomp)
  next
    case 2
    then show ?thesis
      using assms by (cases us) (auto simp: honest_def)
  qed
qed

lemma gc_inv_new: "gc_inv (coordinator_new cfg now)"
  by (simp add: gc_inv_def coordinator_new_def channels_def queue_new_def honest_def)

lemma gc_inv_submit: "gc_inv s \<Longrightarrow> gc_inv (submit t l s)"
  by (auto simp: gc_inv_def submit_def channels_def enqueue_def less_Suc_eq intro!: honest_append)

lemma gc_inv_finish: "gc_inv s \<Longrightarrow> gc_worker s = Exited \<or> gc_worker s = NotStarted \<Longrightarrow> gc_inv (finish_shutdown s)"
  by (auto simp: gc_inv_def finish_shutdown_def channels_def drain_def intro!: honest_append)

lemma gc_inv_turn:
  assumes inv: "gc_inv s"
  shows "gc_inv (worker_turn flush_result s)"
proof (cases "gc_worker s")
  case (Flushing batch)
  have "Submitted (cr_notifier r) \<in> set (gc_trace s)" if "r \<in> set batch" for r
  proof -
    have "cr_notifier r \<in> set (channels s)"
      using that Flushing by (simp add: channels_def)
    also have "set (channels s) = {..<gc_next_channel s}"
      using inv by (metis gc_inv_def set_mset_mset set_upt atLeast0LessThan)
    finally show ?thesis
      using inv by (simp add: gc_inv_def)
  qed
  then show ?thesis
    using inv Flushing
    by (cases flush_result)
      (auto simp: gc_inv_def worker_turn_def channels_def intro: flushed_after_submit_now honest_append)
next
  case (Notifying res rs)
  then show ?thesis
  proof (cases rs)
    case (Cons r rs')
    then show ?thesis
      using inv Notifying
      by (auto simp: gc_inv_def worker_turn_def channels_def intro: honest_append)
  qed (use inv in \<open>auto simp: gc_inv_def worker_turn_def channels_def\<close>)
qed (use inv in \<open>auto simp: gc_inv_def worker_turn_def channels_def drain_def\<close>)

lemma gc_inv_step: "gc_step s s' \<Longrightarrow> gc_inv s \<Longrightarrow> gc_inv s'"
proof (induction rule: gc_step.induct)
  case (gc_tick s d)
  then show ?case by (simp add: gc_inv_def channels_def)
next
  case (gc_shutdown s)
  then show ?case by (simp add: gc_inv_def channels_def set_shutdown_def)
qed (auto intro: gc_inv_submit gc_inv_turn gc_inv_finish)

lemma gc_inv_reachable: "gc_reachable cfg s \<Longrightarrow> gc_inv s"
  by (induction rule: gc_reachable.induct) (auto intro: gc_inv_new gc_inv_step)

section \<open>Progress\<close>

text \<open>A worker that notifies a batch ends with every member answered.\<close>

lemma notify_all:
  assumes "gc_worker s = Notifying res rs"
  shows "\<exists>s'. gc_step\<^sup>*\<^sup>* s s' \<and> gc_worker s' = Polling \<and>
    gc_trace s' = gc_trace s @ map (\<lambda>r. Notified (cr_notifier r) res) rs"
  using assms
proof (induction rs arbitrary: s)
  case Nil
  have "gc_step s (worker_turn (Inr ()) s)"
    by (rule gc_turn)
  with Nil show ?case
    by (intro exI [of _ "worker_turn (Inr ()) s"]) (auto simp: worker_turn_def)
next
  case (Cons r rs)
  let ?s = "worker_turn (Inr ()) s"
  have "gc_step s ?s"
    by (rule gc_turn)
  moreover have "gc_worker ?s = Notifying res rs" "gc_trace ?s = gc_trace s @ [Notified (cr_notifier r) res]"
    using Cons.prems by (simp_all add: worker_turn_def)
  ultimately show ?case
    using Cons.IH [of ?s] by (auto intro: converse_rtranclp_into_rtranclp)
qed

lemma pending_answered:
  assumes "gc_worker s = Polling" and "\<not> gc_shutdown s" and "r \<in> set (cq_pending (gc_queue s))"
  shows "\<exists>s'. gc_step\<^sup>*\<^sup>* s s' \<and> Notified (cr_notifier r) Success \<in> set (gc_trace s')"
proof -
  let ?q = "gc_queue s"
  let ?s0 = "s\<lparr>gc_now := gc_now s + gc_last_flush s + gc_max_wait_micros (cq_config ?q)\<rparr>"
  let ?s1 = "worker_turn (Inr ()) ?s0"
  let ?s2 = "worker_turn (Inr ()) ?s1"
  let ?s3 = "worker_turn (Inr ()) ?s2"
  have s0: "gc_step s ?s0"
    using gc_tick [of s "gc_last_flush s + gc_max_wait_micros (cq_config ?q)"] by (simp add: add.assoc)
  have ne: "cq_pending ?q \<noteq> []"
    using assms(3) by auto
  have s1: "?s1 = ?s0\<lparr>gc_worker := Draining\<rparr>"
    using assms(1,2) ne by (simp add: worker_turn_def should_flush_def)
  have s2: "gc_worker ?s2 = Flushing (cq_pending ?q)"
    unfolding s1 using ne by (simp add: worker_turn_def drain_def)
  then have s3: "gc_worker ?s3 = Notifying Success (cq_pending ?q)"
    by (simp add: worker_turn_def [of _ ?s2])
  have "gc_step\<^sup>*\<^sup>* s ?s3"
    using s0 gc_turn by (meson rtranclp.rtrancl_into_rtrancl rtranclp.rtrancl_refl)
  moreover obtain s' where s': "gc_step\<^sup>*\<^sup>* ?s3 s'"
    "gc_trace s' = gc_trace ?s3 @ map (\<lambda>r. Notified (cr_notifier r) Success) (cq_pending ?q)"
    using notify_all [OF s3] by blast
  ultimately have "gc_step\<^sup>*\<^sup>* s s'"
    by (meson rtranclp_trans)
  moreover have "Notified (cr_notifier r) Success \<in> set (gc_trace s')"
    unfolding s'(2) using assms(3) by simp
  ultimately show ?thesis by blast
qed

lemma reachable_steps: "gc_step\<^sup>*\<^sup>* s s' \<Longrightarrow> gc_reachable cfg s \<Longrightarrow> gc_reachable cfg s'"
  by (induction rule: rtranclp_induct) (auto intro: gc_next)

lemma channels_reachable:
  assumes "gc_reachable cfg s"
  shows "distinct (channels s)" "set (channels s) = {..<gc_next_channel s}"
proof -
  have eq: "mset (channels s) = mset [0..<gc_next_channel s]"
    using gc_inv_reachable [OF assms] by (simp add: gc_inv_def)
  then show "distinct (channels s)"
    by (metis distinct_upt mset_eq_imp_distinct_iff)
  show "set (channels s) = {..<gc_next_channel s}"
    using eq by (metis set_mset_mset set_upt atLeast0LessThan)
qed

section \<open>Properties\<close>

definition sample_coordinator :: coordinator where
  "sample_coordinator = submit 1 4 (coordinator_new group_commit_default 0)"

lemma sample_coordinator_ok:
  "gc_reachable group_commit_default sample_coordinator" "gc_worker sample_coordinator = Polling"
  "\<not> gc_shutdown sample_coordinator" "gc_next_channel sample_coordinator = 1"
  "map cr_notifier (cq_pending (gc_queue sample_coordinator)) = [0]"
proof -
  show "gc_reachable group_commit_default sample_coordinator"
    unfolding sample_coordinator_def by (rule gc_next [OF gc_start gc_submit])
  show "gc_worker sample_coordinator = Polling" "\<not> gc_shutdown sample_coordinator"
    "gc_next_channel sample_coordinator = 1"
    "map cr_notifier (cq_pending (gc_queue sample_coordinator)) = [0]"
    by (simp_all add: sample_coordinator_def submit_def coordinator_new_def group_commit_default_def
        enqueue_def queue_new_def)
qed

text \<open>
  C32. In every interleaving of clients, worker and shutdown, each submitted commit is in exactly
  one place (queued, in the batch in flight, or answered) and answered at most once, and a commit
  is answered with success only after the flush callback succeeded following its submission.
\<close>

theorem group_commit_exactly_once:
  assumes "gc_reachable cfg s"
  shows "distinct (answered (gc_trace s)) \<and>
    mset (answered (gc_trace s)) + mset (map cr_notifier (in_flight (gc_worker s))) +
      mset (map cr_notifier (cq_pending (gc_queue s))) = mset [0..<gc_next_channel s] \<and>
    (\<forall>a c b. gc_trace s = a @ Notified c Success # b \<longrightarrow> flushed_after_submit a c)"
  using gc_inv_reachable [OF assms] channels_reachable(1) [OF assms]
  by (auto simp: gc_inv_def channels_def honest_def add.assoc)

theorem group_commit_exactly_once_witness:
  "\<exists>s :: coordinator. Notified 0 Success \<in> set (gc_trace s) \<and> distinct (answered (gc_trace s)) \<and>
    flushed_after_submit (gc_trace s) 0"
proof -
  obtain r where "r \<in> set (cq_pending (gc_queue sample_coordinator))" "cr_notifier r = 0"
    using sample_coordinator_ok(5) by (metis imageE image_set list.set_intros(1))
  then obtain s where s: "gc_step\<^sup>*\<^sup>* sample_coordinator s" "Notified 0 Success \<in> set (gc_trace s)"
    using pending_answered [OF sample_coordinator_ok(2,3)] by metis
  have "gc_reachable group_commit_default s"
    using s(1) sample_coordinator_ok(1) by (rule reachable_steps)
  note props = group_commit_exactly_once [OF this]
  obtain a b where "gc_trace s = a @ Notified 0 Success # b"
    using split_list [OF s(2)] by blast
  then have "flushed_after_submit (gc_trace s) 0"
    using props flushed_after_submit_append [of a 0] by simp
  then show ?thesis
    using props s(2) by blast
qed

text \<open>
  A queued commit is never stuck: from every reachable state in which the worker polls and was
  not told to stop there is a continuation in which the commit is answered with success, whatever
  else is queued.
\<close>

lemma group_commit_progress:
  assumes "gc_reachable cfg s" and "gc_worker s = Polling" and "\<not> gc_shutdown s"
    and "r \<in> set (cq_pending (gc_queue s))"
  shows "\<exists>s'. gc_reachable cfg s' \<and> gc_step\<^sup>*\<^sup>* s s' \<and>
    Notified (cr_notifier r) Success \<in> set (gc_trace s')"
  using pending_answered [OF assms(2-4)] reachable_steps assms(1) by blast

lemma group_commit_progress_witness:
  "\<exists>s'. gc_step\<^sup>*\<^sup>* sample_coordinator s' \<and> Notified 0 Success \<in> set (gc_trace s')"
proof -
  obtain r where "r \<in> set (cq_pending (gc_queue sample_coordinator))" "cr_notifier r = 0"
    using sample_coordinator_ok(5) by (metis imageE image_set list.set_intros(1))
  then show ?thesis
    using group_commit_progress [OF sample_coordinator_ok(1-3)] by metis
qed

text \<open>Shutting down answers every commit submitted until then.\<close>

lemma shutdown_answers_all:
  assumes "gc_reachable cfg s" and "gc_worker s = Exited \<or> gc_worker s = NotStarted"
  shows "set (answered (gc_trace (finish_shutdown s))) = {..<gc_next_channel s} \<and>
    cq_pending (gc_queue (finish_shutdown s)) = []"
  using channels_reachable(2) [OF assms(1)] assms(2)
  by (auto simp: finish_shutdown_def drain_def channels_def)

lemma shutdown_answers_all_witness:
  "set (answered (gc_trace (finish_shutdown (worker_turn (Inr ()) (set_shutdown sample_coordinator))))) = {..<1}"
proof -
  let ?s = "worker_turn (Inr ()) (set_shutdown sample_coordinator)"
  have "gc_reachable group_commit_default ?s"
    using sample_coordinator_ok(1) by (meson gc_next gc_step.gc_shutdown gc_turn)
  moreover have "gc_worker ?s = Exited" "gc_next_channel ?s = 1"
    using sample_coordinator_ok(2,4) by (simp_all add: worker_turn_def set_shutdown_def)
  ultimately show ?thesis
    using shutdown_answers_all [of group_commit_default ?s] by simp
qed

end
