(* ===== verification/FileHeader.thy ===== *)
theory FileHeader
  imports PagerConfig
begin

text \<open>
  The database file header (\<open>src/src/pager/header.rs\<close>): its 256-byte layout, and the user metadata
  that lives beside it. The clock is an argument.
\<close>

record file_header =
  fh_version :: u16
  fh_page_size :: page_size
  fh_compression :: compression_type
  fh_encryption :: encryption_type
  fh_total_pages :: u64
  fh_free_pages :: u64
  fh_superblock_page_id :: u64
  fh_first_free_list_page_id :: u64
  fh_catalog_page_id :: u64
  fh_database_uuid :: bytes
  fh_created_at :: bytes
  fh_modified_at :: bytes
  fh_metadata :: "string \<rightharpoonup> bytes"

definition header_magic :: bytes where
  "header_magic = [0x4E, 0x4B, 0x44, 0x42]"

definition header_version :: u16 where
  "header_version = 1"

lemma length_header_magic [simp]: "length header_magic = 4"
  by (simp add: header_magic_def)

text \<open>\<open>timestamp_bytes n\<close>: 32 bytes, the first eight holding \<open>n\<close>.\<close>

definition timestamp_bytes :: "u64 \<Rightarrow> bytes" where
  "timestamp_bytes n = u64_le n @ replicate 24 0"

definition file_header_new ::
    "u64 \<Rightarrow> u64 \<Rightarrow> page_size \<Rightarrow> compression_type \<Rightarrow> encryption_type \<Rightarrow> file_header" where
  "file_header_new nanos secs ps c e =
     \<lparr>fh_version = header_version, fh_page_size = ps, fh_compression = c, fh_encryption = e,
      fh_total_pages = 3, fh_free_pages = 0, fh_superblock_page_id = 1, fh_first_free_list_page_id = 0,
      fh_catalog_page_id = 2, fh_database_uuid = timestamp_bytes nanos,
      fh_created_at = timestamp_bytes secs, fh_modified_at = timestamp_bytes secs,
      fh_metadata = Map.empty\<rparr>"

definition file_header_to_bytes :: "file_header \<Rightarrow> bytes" where
  "file_header_to_bytes h =
     header_magic @ u16_le (fh_version h) @ replicate 2 0 @ u32_le (page_size_to_u32 (fh_page_size h)) @
     [compression_to_u8 (fh_compression h), encryption_to_u8 (fh_encryption h)] @ replicate 2 0 @
     u64_le (fh_total_pages h) @ u64_le (fh_free_pages h) @ u64_le (fh_superblock_page_id h) @
     u64_le (fh_first_free_list_page_id h) @ u64_le (fh_catalog_page_id h) @ replicate 24 0 @
     fh_database_uuid h @ fh_created_at h @ fh_modified_at h @ replicate 80 0"

definition file_header_from_bytes :: "bytes \<Rightarrow> pager_error + file_header" where
  "file_header_from_bytes bs =
     (let expected = u32_of_le header_magic in
      if length bs < 256 then Inl (InvalidFileHeader expected 0)
      else let found = u32_of_le (bslice 0 4 bs) in
      if bslice 0 4 bs \<noteq> header_magic then Inl (InvalidFileHeader expected found)
      else let version = u16_of_le (bslice 4 6 bs) in
      if version \<noteq> header_version then Inl (InvalidFileHeader expected found)
      else let ps = u32_of_le (bslice 8 12 bs) in
      rbind (ok_or (page_size_from_u32 ps) (InvalidPageSize ps)) (\<lambda>page_size.
      rbind (ok_or (compression_from_u8 (bs ! 12)) (InvalidFileHeader expected found)) (\<lambda>c.
      rbind (ok_or (encryption_from_u8 (bs ! 13)) (InvalidFileHeader expected found)) (\<lambda>e.
      Inr \<lparr>fh_version = version, fh_page_size = page_size, fh_compression = c, fh_encryption = e,
           fh_total_pages = u64_of_le (bslice 16 24 bs), fh_free_pages = u64_of_le (bslice 24 32 bs),
           fh_superblock_page_id = u64_of_le (bslice 32 40 bs),
           fh_first_free_list_page_id = u64_of_le (bslice 40 48 bs),
           fh_catalog_page_id = u64_of_le (bslice 48 56 bs),
           fh_database_uuid = bslice 80 112 bs, fh_created_at = bslice 112 144 bs,
           fh_modified_at = bslice 144 176 bs, fh_metadata = Map.empty\<rparr>))))"

definition update_modified_timestamp :: "u64 \<Rightarrow> file_header \<Rightarrow> file_header" where
  "update_modified_timestamp now h = h\<lparr>fh_modified_at := timestamp_bytes now\<rparr>"

definition set_metadata :: "u64 \<Rightarrow> string \<Rightarrow> bytes \<Rightarrow> file_header \<Rightarrow> file_header" where
  "set_metadata now k v h = update_modified_timestamp now (h\<lparr>fh_metadata := (fh_metadata h)(k \<mapsto> v)\<rparr>)"

definition get_metadata :: "file_header \<Rightarrow> string \<Rightarrow> bytes option" where
  "get_metadata h k = fh_metadata h k"

definition remove_metadata :: "u64 \<Rightarrow> string \<Rightarrow> file_header \<Rightarrow> bytes option \<times> file_header" where
  "remove_metadata now k h =
     (let r = fh_metadata h k; h' = h\<lparr>fh_metadata := (fh_metadata h)(k := None)\<rparr> in
      (r, if r \<noteq> None then update_modified_timestamp now h' else h'))"

definition clear_metadata :: "u64 \<Rightarrow> file_header \<Rightarrow> file_header" where
  "clear_metadata now h =
     (if fh_metadata h \<noteq> Map.empty
      then update_modified_timestamp now (h\<lparr>fh_metadata := Map.empty\<rparr>) else h)"

section \<open>Well-formed headers\<close>

definition file_header_wf :: "file_header \<Rightarrow> bool" where
  "file_header_wf h \<longleftrightarrow>
     fh_version h = header_version \<and> length (fh_database_uuid h) = 32 \<and>
     length (fh_created_at h) = 32 \<and> length (fh_modified_at h) = 32"

lemma length_timestamp [simp]: "length (timestamp_bytes n) = 32"
  by (simp add: timestamp_bytes_def)

lemma file_header_wf_ops:
  "file_header_wf (file_header_new nanos secs ps c e)"
  "file_header_wf h \<Longrightarrow> file_header_wf (update_modified_timestamp now h)"
  "file_header_wf h \<Longrightarrow> file_header_wf (set_metadata now k v h)"
  "file_header_wf h \<Longrightarrow> file_header_wf (snd (remove_metadata now k h))"
  "file_header_wf h \<Longrightarrow> file_header_wf (clear_metadata now h)"
  by (simp_all add: file_header_wf_def file_header_new_def update_modified_timestamp_def
      set_metadata_def remove_metadata_def clear_metadata_def Let_def)

lemma file_header_fields:
  fixes h :: file_header and rest :: bytes
  assumes "file_header_wf h"
  defines "bs \<equiv> file_header_to_bytes h @ rest"
  shows "bslice 0 4 bs = header_magic" "bslice 4 6 bs = u16_le (fh_version h)"
    "bslice 8 12 bs = u32_le (page_size_to_u32 (fh_page_size h))"
    "bs ! 12 = compression_to_u8 (fh_compression h)" "bs ! 13 = encryption_to_u8 (fh_encryption h)"
    "bslice 16 24 bs = u64_le (fh_total_pages h)" "bslice 24 32 bs = u64_le (fh_free_pages h)"
    "bslice 32 40 bs = u64_le (fh_superblock_page_id h)"
    "bslice 40 48 bs = u64_le (fh_first_free_list_page_id h)"
    "bslice 48 56 bs = u64_le (fh_catalog_page_id h)"
    "bslice 80 112 bs = fh_database_uuid h" "bslice 112 144 bs = fh_created_at h"
    "bslice 144 176 bs = fh_modified_at h" "length bs = 256 + length rest"
  using assms(1)
  by (simp_all add: bs_def file_header_to_bytes_def file_header_wf_def nth_append codec_simps)

section \<open>Properties\<close>

text \<open>
  A well-formed file header fills 256 bytes and survives them, except that the user metadata is
  not part of the encoding and comes back empty.
\<close>

lemma file_header_round_trip:
  assumes "file_header_wf h"
  shows "length (file_header_to_bytes h) = 256 \<and>
    file_header_from_bytes (file_header_to_bytes h @ rest) = Inr (h\<lparr>fh_metadata := Map.empty\<rparr>)"
proof -
  have "length (file_header_to_bytes h) = 256"
    using file_header_fields(14) [OF assms, of "[]"] by simp
  moreover have "file_header_from_bytes (file_header_to_bytes h @ rest) = Inr (h\<lparr>fh_metadata := Map.empty\<rparr>)"
    using assms \<open>length (file_header_to_bytes h) = 256\<close>
    by (simp add: file_header_from_bytes_def file_header_fields(1-13) [OF assms] Let_def file_header_wf_def)
  ultimately show ?thesis by simp
qed

lemma file_header_round_trip_witness:
  "file_header_from_bytes (file_header_to_bytes (file_header_new 5 6 Size4KB Lz4 Aes256Gcm) @ [1]) =
    Inr (file_header_new 5 6 Size4KB Lz4 Aes256Gcm)"
  using file_header_round_trip [OF file_header_wf_ops(1), of 5 6 Size4KB Lz4 Aes256Gcm "[1]"]
  by (simp add: file_header_new_def)

end
