(* ===== verification/PageFormat.thy ===== *)
theory PageFormat
  imports PagerConfig
begin

text \<open>
  Pages and their on-disk format (\<open>src/src/pager/page.rs\<close>): the header, compression and encryption
  of the data, padding, and the digest over header, stored length and stored data.
\<close>

type_synonym page_id = u64

section \<open>Page types\<close>

datatype page_type =
    PT_Free | PT_Superblock | PT_FreeList | PT_BTreeInternal | PT_BTreeLeaf | PT_HashBucket
  | PT_ArtNode4 | PT_ArtNode16 | PT_ArtNode48 | PT_ArtNode256 | PT_LsmMeta | PT_LsmData | PT_Catalog
  | PT_Overflow | PT_BloomMeta | PT_BloomData | PT_BloomFilter | PT_InvertedIndex | PT_RTreeNode
  | PT_GraphAdjList | PT_VectorIndex | PT_TimeSeriesBucket | PT_IndexMetadata

fun page_type_to_u8 :: "page_type \<Rightarrow> u8" where
  "page_type_to_u8 PT_Free = 0"
| "page_type_to_u8 PT_Superblock = 1"
| "page_type_to_u8 PT_FreeList = 2"
| "page_type_to_u8 PT_BTreeInternal = 3"
| "page_type_to_u8 PT_BTreeLeaf = 4"
| "page_type_to_u8 PT_HashBucket = 5"
| "page_type_to_u8 PT_ArtNode4 = 6"
| "page_type_to_u8 PT_ArtNode16 = 7"
| "page_type_to_u8 PT_ArtNode48 = 8"
| "page_type_to_u8 PT_ArtNode256 = 9"
| "page_type_to_u8 PT_LsmMeta = 10"
| "page_type_to_u8 PT_LsmData = 11"
| "page_type_to_u8 PT_Catalog = 12"
| "page_type_to_u8 PT_Overflow = 13"
| "page_type_to_u8 PT_BloomMeta = 14"
| "page_type_to_u8 PT_BloomData = 15"
| "page_type_to_u8 PT_BloomFilter = 16"
| "page_type_to_u8 PT_InvertedIndex = 17"
| "page_type_to_u8 PT_RTreeNode = 18"
| "page_type_to_u8 PT_GraphAdjList = 19"
| "page_type_to_u8 PT_VectorIndex = 20"
| "page_type_to_u8 PT_TimeSeriesBucket = 21"
| "page_type_to_u8 PT_IndexMetadata = 33"

definition page_type_from_u8 :: "u8 \<Rightarrow> page_type option" where
  "page_type_from_u8 v =
     map_of [(0, PT_Free), (1, PT_Superblock), (2, PT_FreeList), (3, PT_BTreeInternal),
       (4, PT_BTreeLeaf), (5, PT_HashBucket), (6, PT_ArtNode4), (7, PT_ArtNode16), (8, PT_ArtNode48),
       (9, PT_ArtNode256), (10, PT_LsmMeta), (11, PT_LsmData), (12, PT_Catalog), (13, PT_Overflow),
       (16, PT_BloomFilter), (17, PT_InvertedIndex), (18, PT_RTreeNode), (19, PT_GraphAdjList),
       (20, PT_VectorIndex), (21, PT_TimeSeriesBucket), (33, PT_IndexMetadata)] v"

definition readable_type :: "page_type \<Rightarrow> bool" where
  "readable_type t \<longleftrightarrow> t \<noteq> PT_BloomMeta \<and> t \<noteq> PT_BloomData"

lemma page_type_codec:
  "page_type_from_u8 (page_type_to_u8 t) = (if readable_type t then Some t else None)"
  by (cases t) (simp_all add: page_type_from_u8_def readable_type_def)

section \<open>Headers\<close>

record page_header =
  ph_page_id :: page_id
  ph_page_type :: page_type
  ph_compression :: compression_type
  ph_encryption :: encryption_type
  ph_flags :: u8
  ph_uncompressed_size :: u32
  ph_compressed_size :: u32
  ph_virtual_page_id :: page_id

definition page_header_new :: "page_id \<Rightarrow> page_type \<Rightarrow> page_header" where
  "page_header_new i t =
     \<lparr>ph_page_id = i, ph_page_type = t, ph_compression = Comp_None, ph_encryption = Enc_None,
      ph_flags = 0, ph_uncompressed_size = 0, ph_compressed_size = 0, ph_virtual_page_id = 0\<rparr>"

definition page_header_to_bytes :: "page_header \<Rightarrow> bytes" where
  "page_header_to_bytes h =
     u64_le (ph_page_id h) @
     [page_type_to_u8 (ph_page_type h), compression_to_u8 (ph_compression h),
      encryption_to_u8 (ph_encryption h), ph_flags h] @
     u32_le (ph_uncompressed_size h) @ u32_le (ph_compressed_size h) @ replicate 4 0 @
     u64_le (ph_virtual_page_id h)"

definition page_header_from_bytes :: "bytes \<Rightarrow> pager_error + page_header" where
  "page_header_from_bytes bs =
     (if length bs < 32 then Inl (InsufficientBuffer ''page header'' 32 (length bs))
      else rbind (ok_or (page_type_from_u8 (bs ! 8)) (InvalidPageType (bs ! 8))) (\<lambda>t.
      rbind (ok_or (compression_from_u8 (bs ! 9)) (InvalidCompressionType (bs ! 9))) (\<lambda>c.
      rbind (ok_or (encryption_from_u8 (bs ! 10)) (InvalidEncryptionType (bs ! 10))) (\<lambda>e.
      Inr \<lparr>ph_page_id = u64_of_le (bslice 0 8 bs), ph_page_type = t, ph_compression = c,
           ph_encryption = e, ph_flags = bs ! 11,
           ph_uncompressed_size = u32_of_le (bslice 12 16 bs),
           ph_compressed_size = u32_of_le (bslice 16 20 bs),
           ph_virtual_page_id = u64_of_le (bslice 24 32 bs)\<rparr>))))"

lemma length_page_header [simp]: "length (page_header_to_bytes h) = 32"
  by (simp add: page_header_to_bytes_def)

lemma page_header_round_trip:
  "page_header_from_bytes (page_header_to_bytes h) =
     (if readable_type (ph_page_type h) then Inr h
      else Inl (InvalidPageType (page_type_to_u8 (ph_page_type h))))"
proof -
  have "page_header_to_bytes h ! 8 = page_type_to_u8 (ph_page_type h)"
    "page_header_to_bytes h ! 9 = compression_to_u8 (ph_compression h)"
    "page_header_to_bytes h ! 10 = encryption_to_u8 (ph_encryption h)"
    "page_header_to_bytes h ! 11 = ph_flags h"
    by (simp_all add: page_header_to_bytes_def nth_append)
  moreover have "bslice 0 8 (page_header_to_bytes h) = u64_le (ph_page_id h)"
    "bslice 12 16 (page_header_to_bytes h) = u32_le (ph_uncompressed_size h)"
    "bslice 16 20 (page_header_to_bytes h) = u32_le (ph_compressed_size h)"
    "bslice 24 32 (page_header_to_bytes h) = u64_le (ph_virtual_page_id h)"
    by (simp_all add: page_header_to_bytes_def codec_simps)
  ultimately show ?thesis
    by (simp add: page_header_from_bytes_def page_type_codec)
qed

section \<open>Pages\<close>

record page =
  pg_header :: page_header
  pg_data :: bytes

definition page_new :: "page_id \<Rightarrow> page_type \<Rightarrow> page" where
  "page_new i t = \<lparr>pg_header = page_header_new i t, pg_data = []\<rparr>"

definition page_digest :: "libs \<Rightarrow> page_header \<Rightarrow> bytes \<Rightarrow> bytes" where
  "page_digest L h stored = sha256 L (page_header_to_bytes h @ u32_le (of_nat (length stored)) @ stored)"

definition calculate_checksum :: "libs \<Rightarrow> page \<Rightarrow> bytes" where
  "calculate_checksum L p = page_digest L (pg_header p) (pg_data p)"

definition verify_checksum :: "libs \<Rightarrow> page \<Rightarrow> bytes \<Rightarrow> bool" where
  "verify_checksum L p expected \<longleftrightarrow> calculate_checksum L p = expected"

definition compress_page :: "libs \<Rightarrow> page_header \<Rightarrow> bytes \<Rightarrow> pager_error + bytes" where
  "compress_page L h d =
     (case ph_compression h of
        Comp_None \<Rightarrow> Inr d
      | Lz4 \<Rightarrow> Inr (lz4_compress L d)
      | Zstd \<Rightarrow> ok_or (zstd_encode L d) (CompressionError (ph_page_id h) Zstd))"

definition encrypt_page ::
    "libs \<Rightarrow> bytes \<Rightarrow> bytes option \<Rightarrow> page_header \<Rightarrow> bytes \<Rightarrow> pager_error + bytes" where
  "encrypt_page L nonce key h d =
     (case ph_encryption h of
        Enc_None \<Rightarrow> Inr d
      | Aes256Gcm \<Rightarrow>
          rbind (ok_or key PageMissingEncryptionKey) (\<lambda>k.
          rbind (ok_or (aes_encrypt L k nonce d) (PageEncryptionError (ph_page_id h) Aes256Gcm)) (\<lambda>enc.
          Inr (nonce @ enc))))"

definition page_to_bytes ::
    "libs \<Rightarrow> bytes \<Rightarrow> page \<Rightarrow> nat \<Rightarrow> bytes option \<Rightarrow> pager_error + bytes" where
  "page_to_bytes L nonce p size_of_page key =
     (let h = (pg_header p)\<lparr>ph_uncompressed_size := of_nat (length (pg_data p))\<rparr> in
      rbind (compress_page L h (pg_data p)) (\<lambda>compressed.
      rbind (encrypt_page L nonce key h compressed) (\<lambda>stored.
      let h = h\<lparr>ph_compressed_size := of_nat (length stored)\<rparr>;
          body = page_header_to_bytes h @ stored in
      if size_of_page < 32 then Inl PagerPanic
      else let data_end = size_of_page - 32;
               body = (if length body < data_end then resize data_end 0 body else body) in
      Inr (body @ page_digest L h stored))))"

definition decrypt_page ::
    "libs \<Rightarrow> bytes option \<Rightarrow> page_header \<Rightarrow> bytes \<Rightarrow> pager_error + bytes" where
  "decrypt_page L key h stored =
     (case ph_encryption h of
        Enc_None \<Rightarrow> Inr stored
      | Aes256Gcm \<Rightarrow>
          rbind (ok_or key PageMissingEncryptionKey) (\<lambda>k.
          if length stored < 12 then Inl (PageDecryptionError (ph_page_id h) Aes256Gcm)
          else ok_or (aes_decrypt L k (bslice 0 12 stored) (drop 12 stored))
                 (PageDecryptionError (ph_page_id h) Aes256Gcm)))"

definition decompress_page :: "libs \<Rightarrow> page_header \<Rightarrow> bytes \<Rightarrow> pager_error + bytes" where
  "decompress_page L h d =
     (case ph_compression h of
        Comp_None \<Rightarrow> Inr d
      | Lz4 \<Rightarrow> ok_or (lz4_decompress L d) (DecompressionError (ph_page_id h) Lz4)
      | Zstd \<Rightarrow> ok_or (zstd_decode L d) (DecompressionError (ph_page_id h) Zstd))"

definition page_from_bytes :: "libs \<Rightarrow> bytes \<Rightarrow> bool \<Rightarrow> bytes option \<Rightarrow> pager_error + page" where
  "page_from_bytes L bs verify key =
     (if length bs < 64 then Inl (InsufficientBuffer ''page'' 64 (length bs))
      else rbind (page_header_from_bytes (bslice 0 32 bs)) (\<lambda>h.
      let data_end = 32 + unat (ph_compressed_size h) in
      if data_end > length bs - 32 then Inl (InvalidDataLength (ph_page_id h))
      else let stored = bslice 32 data_end bs; checksum = drop (length bs - 32) bs in
      if verify \<and> page_digest L h stored \<noteq> checksum then Inl (PageChecksumMismatch (ph_page_id h))
      else rbind (decrypt_page L key h stored) (\<lambda>compressed.
      rbind (decompress_page L h compressed) (\<lambda>d.
      if length d \<noteq> unat (ph_uncompressed_size h)
      then Inl (DecompressionError (ph_page_id h) (ph_compression h))
      else Inr \<lparr>pg_header = h, pg_data = d\<rparr>))))"

section \<open>Overflow page headers\<close>

record overflow_header =
  oh_magic :: u32
  oh_next_page_id :: u32
  oh_data_length :: u32
  oh_checksum :: u32

definition overflow_magic :: u32 where
  "overflow_magic = 0x4F564C46"

definition overflow_header_new :: "u32 \<Rightarrow> u32 \<Rightarrow> u32 \<Rightarrow> overflow_header" where
  "overflow_header_new nxt len crc =
     \<lparr>oh_magic = overflow_magic, oh_next_page_id = nxt, oh_data_length = len, oh_checksum = crc\<rparr>"

definition overflow_header_to_bytes :: "overflow_header \<Rightarrow> bytes" where
  "overflow_header_to_bytes h =
     u32_le (oh_magic h) @ u32_le (oh_next_page_id h) @ u32_le (oh_data_length h) @
     u32_le (oh_checksum h) @ replicate 16 0"

definition overflow_header_from_bytes :: "bytes \<Rightarrow> pager_error + overflow_header" where
  "overflow_header_from_bytes bs =
     (if length bs < 32 then Inl (InsufficientBuffer ''overflow page header'' 32 (length bs))
      else let m = u32_of_le (bslice 0 4 bs) in
      if m \<noteq> overflow_magic then Inl (InvalidMagic ''overflow page header'' overflow_magic m)
      else Inr \<lparr>oh_magic = m, oh_next_page_id = u32_of_le (bslice 4 8 bs),
                oh_data_length = u32_of_le (bslice 8 12 bs), oh_checksum = u32_of_le (bslice 12 16 bs)\<rparr>)"

definition overflow_is_last :: "overflow_header \<Rightarrow> bool" where
  "overflow_is_last h \<longleftrightarrow> oh_next_page_id h = 0"

lemma overflow_header_round_trip:
  "overflow_header_from_bytes (overflow_header_to_bytes (overflow_header_new n l c) @ rest) =
     Inr (overflow_header_new n l c)"
  by (simp add: overflow_header_from_bytes_def overflow_header_to_bytes_def overflow_header_new_def
      codec_simps)

section \<open>The round trip of a page\<close>

lemma decrypt_encrypt_page:
  assumes "libs_ok L" and "length nonce = 12" and "encrypt_page L nonce key h d = Inr stored"
    and "ph_encryption h' = ph_encryption h"
  shows "decrypt_page L key h' stored = Inr d"
  using assms libs_okD(5) [OF assms(1)]
  by (auto simp: encrypt_page_def decrypt_page_def rbind_eq_Inr_iff ok_or_def bslice_front
      split: encryption_type.splits option.splits)

lemma decompress_compress_page:
  assumes "libs_ok L" and "compress_page L h d = Inr c" and "ph_compression h' = ph_compression h"
  shows "decompress_page L h' c = Inr d"
  using assms libs_okD(1,3) [OF assms(1)]
  by (auto simp: compress_page_def decompress_page_def ok_or_def
      split: compression_type.splits option.splits)

text \<open>The shape of an encoded page: header, stored data, zeros, digest.\<close>

lemma page_to_bytes_frame:
  assumes "page_to_bytes L nonce p n key = Inr bs"
  obtains c stored h pad where "compress_page L (pg_header p) (pg_data p) = Inr c"
    and "encrypt_page L nonce key (pg_header p) c = Inr stored"
    and "h = (pg_header p)\<lparr>ph_uncompressed_size := of_nat (length (pg_data p)),
        ph_compressed_size := of_nat (length stored)\<rparr>"
    and "bs = page_header_to_bytes h @ stored @ replicate pad 0 @ page_digest L h stored"
    and "pad = n - 64 - length stored" and "32 \<le> n"
proof -
  let ?h0 = "(pg_header p)\<lparr>ph_uncompressed_size := of_nat (length (pg_data p))\<rparr>"
  have same: "compress_page L ?h0 = compress_page L (pg_header p)"
    "encrypt_page L nonce key ?h0 = encrypt_page L nonce key (pg_header p)"
    by (auto simp: compress_page_def encrypt_page_def fun_eq_iff
        split: compression_type.split encryption_type.split)
  from assms obtain c stored where c: "compress_page L (pg_header p) (pg_data p) = Inr c"
    "encrypt_page L nonce key (pg_header p) c = Inr stored" and n: "32 \<le> n"
    by (auto simp: page_to_bytes_def same rbind_eq_Inr_iff Let_def split: if_splits)
  let ?h = "(pg_header p)\<lparr>ph_uncompressed_size := of_nat (length (pg_data p)),
    ph_compressed_size := of_nat (length stored)\<rparr>"
  have "bs = page_header_to_bytes ?h @ stored @ replicate (n - 64 - length stored) 0 @ page_digest L ?h stored"
    using assms c n by (auto simp: page_to_bytes_def same Let_def resize_def)
  then show ?thesis
    using that c n by blast
qed

lemma page_from_to_bytes:
  assumes L: "libs_ok L" and nonce: "length nonce = 12"
    and enc: "page_to_bytes L nonce p n key = Inr bs" and small: "length bs < 2 ^ 32"
    and data: "length (pg_data p) < 2 ^ 32"
  shows "page_from_bytes L bs verify key =
    (if readable_type (ph_page_type (pg_header p))
     then Inr (p\<lparr>pg_header := (pg_header p)\<lparr>ph_uncompressed_size := of_nat (length (pg_data p)),
       ph_compressed_size := ph_compressed_size (projr (page_header_from_bytes (bslice 0 32 bs)))\<rparr>\<rparr>)
     else Inl (InvalidPageType (page_type_to_u8 (ph_page_type (pg_header p)))))"
proof -
  obtain c stored h pad where c: "compress_page L (pg_header p) (pg_data p) = Inr c"
    and e: "encrypt_page L nonce key (pg_header p) c = Inr stored"
    and h: "h = (pg_header p)\<lparr>ph_uncompressed_size := of_nat (length (pg_data p)),
        ph_compressed_size := of_nat (length stored)\<rparr>"
    and bs: "bs = page_header_to_bytes h @ stored @ replicate pad 0 @ page_digest L h stored"
    using enc by (rule page_to_bytes_frame)
  have dig: "length (page_digest L h stored) = 32"
    using L by (simp add: page_digest_def libs_okD)
  have len: "length bs = 64 + length stored + pad"
    by (simp add: bs dig)
  have hdr: "bslice 0 32 bs = page_header_to_bytes h"
    by (simp add: bs bslice_front)
  have sz: "unat (ph_compressed_size h) = length stored" "unat (ph_uncompressed_size h) = length (pg_data p)"
    using small len data by (simp_all add: h)
  have "bslice 32 (32 + length stored) bs = stored"
    by (simp add: bs codec_simps)
  moreover have "drop (length bs - 32) bs = page_digest L h stored"
    by (simp add: bs dig)
  moreover have "decrypt_page L key h stored = Inr c" "decompress_page L h c = Inr (pg_data p)"
    using decrypt_encrypt_page [OF L nonce e] decompress_compress_page [OF L c] by (simp_all add: h)
  ultimately show ?thesis
    using len sz unfolding page_from_bytes_def hdr page_header_round_trip
    by (simp add: h)
qed

section \<open>Properties\<close>

text \<open>
  C33. A page of a readable type survives its encoding: with compression, encryption, padding and
  digest, decoding the bytes gives the page back, with the two sizes of its header filled in, and
  the bytes fill the page size exactly whenever the stored data fits.
\<close>

theorem page_round_trip:
  assumes "libs_ok L" and "length nonce = 12" and "readable_type (ph_page_type (pg_header p))"
    and "page_to_bytes L nonce p n key = Inr bs" and "length bs < 2 ^ 32"
    and "length (pg_data p) < 2 ^ 32"
  shows "\<exists>sz. page_from_bytes L bs verify key =
      Inr (p\<lparr>pg_header := (pg_header p)\<lparr>ph_uncompressed_size := of_nat (length (pg_data p)),
        ph_compressed_size := sz\<rparr>\<rparr>) \<and> length bs = max n (64 + unat sz)"
proof -
  obtain c stored h pad where h: "h = (pg_header p)\<lparr>ph_uncompressed_size := of_nat (length (pg_data p)),
        ph_compressed_size := of_nat (length stored)\<rparr>"
    and bs: "bs = page_header_to_bytes h @ stored @ replicate pad 0 @ page_digest L h stored"
    and pad: "pad = n - 64 - length stored"
    using assms(4) by (rule page_to_bytes_frame)
  have "length bs = 64 + length stored + pad"
    using assms(1) by (simp add: bs page_digest_def libs_okD)
  then have "length bs = max n (64 + unat (of_nat (length stored) :: u32))"
    using pad assms(5) by (simp add: max_def)
  moreover have "bslice 0 32 bs = page_header_to_bytes h"
    by (simp add: bs bslice_front)
  ultimately show ?thesis
    using page_from_to_bytes [OF assms(1,2,4,5,6), of verify] assms(3)
    by (intro exI [of _ "of_nat (length stored)"]) (simp add: page_header_round_trip h)
qed

definition sample_page :: page where
  "sample_page = \<lparr>pg_header = (page_header_new 9 PT_BTreeLeaf)\<lparr>ph_compression := Lz4,
     ph_encryption := Aes256Gcm\<rparr>, pg_data = [5, 6, 7]\<rparr>"

lemma sample_page_encodes:
  obtains bs where "page_to_bytes plain_libs (replicate 12 0) sample_page 128 (Some [1]) = Inr bs"
    and "length bs = 128"
  by (simp add: page_to_bytes_def sample_page_def page_header_new_def plain_libs_def compress_page_def
      encrypt_page_def page_digest_def Let_def)

theorem page_round_trip_witness:
  "\<exists>bs sz. page_from_bytes plain_libs bs True (Some [1]) =
    Inr (sample_page\<lparr>pg_header := (pg_header sample_page)\<lparr>ph_uncompressed_size := 3,
      ph_compressed_size := sz\<rparr>\<rparr>)"
proof -
  obtain bs where bs: "page_to_bytes plain_libs (replicate 12 0) sample_page 128 (Some [1]) = Inr bs"
    "length bs = 128"
    by (rule sample_page_encodes)
  have "readable_type (ph_page_type (pg_header sample_page))" "length (pg_data sample_page) = 3"
    by (simp_all add: readable_type_def sample_page_def page_header_new_def)
  then show ?thesis
    using page_round_trip [OF plain_libs_ok length_replicate _ bs(1), of True] bs(2) by auto
qed

text \<open>
  A page of type \<open>BloomMeta\<close> or \<open>BloomData\<close> can be written but never read: the decoder does not
  know their type bytes.
\<close>

lemma bloom_page_unreadable:
  assumes "libs_ok L" and "length nonce = 12" and "ph_page_type (pg_header p) \<in> {PT_BloomMeta, PT_BloomData}"
    and "page_to_bytes L nonce p n key = Inr bs" and "length bs < 2 ^ 32"
    and "length (pg_data p) < 2 ^ 32"
  shows "page_from_bytes L bs verify key = Inl (InvalidPageType (page_type_to_u8 (ph_page_type (pg_header p))))"
  using page_from_to_bytes [OF assms(1,2,4,5,6)] assms(3) by (auto simp: readable_type_def)

lemma bloom_page_unreadable_witness:
  "\<exists>bs. page_to_bytes plain_libs (replicate 12 0) (page_new 3 PT_BloomMeta) 128 None = Inr bs \<and>
    page_from_bytes plain_libs bs True None = Inl (InvalidPageType 14)"
proof -
  let ?p = "page_new 3 PT_BloomMeta"
  obtain bs where bs: "page_to_bytes plain_libs (replicate 12 0) ?p 128 None = Inr bs" "length bs = 128"
    by (simp add: page_to_bytes_def page_new_def page_header_new_def plain_libs_def compress_page_def
      encrypt_page_def page_digest_def Let_def)
  have "ph_page_type (pg_header ?p) \<in> {PT_BloomMeta, PT_BloomData}" "length (pg_data ?p) = 0"
    "page_type_to_u8 (ph_page_type (pg_header ?p)) = 14"
    by (simp_all add: page_new_def page_header_new_def)
  then show ?thesis
    using bloom_page_unreadable [OF plain_libs_ok length_replicate _ bs(1), of True] bs by auto
qed

end
