(* ===== verification/FreeList.thy ===== *)
theory FreeList
  imports PageFormat "HOL-Library.Multiset"
begin

text \<open>
  Free pages (\<open>src/src/pager/freelist.rs\<close>): the pages of the persistent list, and the in-memory free
  list, a first-in first-out queue beside an atomic counter. The counter is updated after the queue,
  so the operations also exist as a step relation over their two halves.
\<close>

section \<open>Free list pages\<close>

record free_list_page =
  flp_next_page :: page_id
  flp_free_pages :: "page_id list"

definition free_list_page_new :: free_list_page where
  "free_list_page_new = \<lparr>flp_next_page = 0, flp_free_pages = []\<rparr>"

definition max_entries :: "nat \<Rightarrow> nat" where
  "max_entries data_size = (data_size - 16) div 8"

definition flp_is_full :: "nat \<Rightarrow> free_list_page \<Rightarrow> bool" where
  "flp_is_full data_size p \<longleftrightarrow> length (flp_free_pages p) \<ge> max_entries data_size"

definition flp_add_page :: "page_id \<Rightarrow> nat \<Rightarrow> free_list_page \<Rightarrow> pager_error + free_list_page" where
  "flp_add_page i data_size p =
     (if flp_is_full data_size p then Inl FreeListFull
      else Inr (p\<lparr>flp_free_pages := flp_free_pages p @ [i]\<rparr>))"

definition flp_pop_page :: "free_list_page \<Rightarrow> page_id option \<times> free_list_page" where
  "flp_pop_page p =
     (if flp_free_pages p = [] then (None, p)
      else (Some (last (flp_free_pages p)), p\<lparr>flp_free_pages := butlast (flp_free_pages p)\<rparr>))"

definition flp_to_bytes :: "free_list_page \<Rightarrow> bytes" where
  "flp_to_bytes p =
     u64_le (flp_next_page p) @ u64_le (of_nat (length (flp_free_pages p))) @
     concat (map u64_le (flp_free_pages p))"

fun read_page_ids :: "nat \<Rightarrow> nat \<Rightarrow> bytes \<Rightarrow> page_id list \<Rightarrow> pager_error + page_id list" where
  "read_page_ids 0 offset bs acc = Inr acc"
| "read_page_ids (Suc n) offset bs acc =
     (if offset + 8 > length bs
      then Inl (InsufficientBuffer ''free list page entries'' (offset + 8) (length bs))
      else read_page_ids n (offset + 8) bs (acc @ [u64_of_le (bslice offset (offset + 8) bs)]))"

definition flp_from_bytes :: "bytes \<Rightarrow> pager_error + free_list_page" where
  "flp_from_bytes bs =
     (if length bs < 16 then Inl (InsufficientBuffer ''free list page header'' 16 (length bs))
      else rbind (read_page_ids (unat (u64_of_le (bslice 8 16 bs))) 16 bs []) (\<lambda>ids.
      Inr \<lparr>flp_next_page = u64_of_le (bslice 0 8 bs), flp_free_pages = ids\<rparr>))"

lemma read_page_ids_concat:
  "length pre = offset \<Longrightarrow>
   read_page_ids (length ids) offset (pre @ concat (map u64_le ids) @ rest) acc = Inr (acc @ ids)"
proof (induction ids arbitrary: pre offset acc)
  case Nil
  then show ?case by simp
next
  case (Cons i ids)
  show ?case
    using Cons.IH [of "pre @ u64_le i" "offset + 8" "acc @ [i]"] Cons.prems
    by (simp add: bslice_skip bslice_front)
qed

lemma flp_round_trip:
  assumes "length (flp_free_pages p) < 2 ^ 64"
  shows "flp_from_bytes (flp_to_bytes p @ rest) = Inr p"
proof -
  let ?pre = "u64_le (flp_next_page p) @ u64_le (of_nat (length (flp_free_pages p)))"
  have bs: "flp_to_bytes p @ rest = ?pre @ concat (map u64_le (flp_free_pages p)) @ rest"
    by (simp add: flp_to_bytes_def)
  have "read_page_ids (length (flp_free_pages p)) 16 (flp_to_bytes p @ rest) [] = Inr (flp_free_pages p)"
    unfolding bs using read_page_ids_concat [of ?pre 16 "flp_free_pages p" rest "[]"] by simp
  then show ?thesis
    using assms by (simp add: flp_from_bytes_def flp_to_bytes_def codec_simps)
qed

section \<open>The free list\<close>

record free_list =
  fl_first_page :: page_id
  fl_last_page :: page_id
  fl_total_free :: u64
  fl_queue :: "page_id list"

definition free_list_new :: free_list where
  "free_list_new = \<lparr>fl_first_page = 0, fl_last_page = 0, fl_total_free = 0, fl_queue = []\<rparr>"

definition free_list_from_state :: "page_id \<Rightarrow> page_id \<Rightarrow> u64 \<Rightarrow> free_list" where
  "free_list_from_state a b n = \<lparr>fl_first_page = a, fl_last_page = b, fl_total_free = n, fl_queue = []\<rparr>"

definition fl_is_empty :: "free_list \<Rightarrow> bool" where
  "fl_is_empty f \<longleftrightarrow> fl_total_free f = 0"

definition set_first_page :: "page_id \<Rightarrow> free_list \<Rightarrow> free_list" where
  "set_first_page i f =
     (let f = f\<lparr>fl_first_page := i\<rparr> in if fl_last_page f = 0 then f\<lparr>fl_last_page := i\<rparr> else f)"

definition set_last_page :: "page_id \<Rightarrow> free_list \<Rightarrow> free_list" where
  "set_last_page i f =
     (let f = f\<lparr>fl_last_page := i\<rparr> in if fl_first_page f = 0 then f\<lparr>fl_first_page := i\<rparr> else f)"

text \<open>The halves of \<open>push_page\<close> and \<open>pop_page\<close>: the queue first, the counter second.\<close>

definition fl_push_queue :: "page_id \<Rightarrow> free_list \<Rightarrow> free_list" where
  "fl_push_queue i f = f\<lparr>fl_queue := fl_queue f @ [i]\<rparr>"

definition increment_free :: "free_list \<Rightarrow> free_list" where
  "increment_free f = f\<lparr>fl_total_free := fl_total_free f + 1\<rparr>"

definition fl_pop_queue :: "free_list \<Rightarrow> page_id option \<times> free_list" where
  "fl_pop_queue f =
     (case fl_queue f of [] \<Rightarrow> (None, f) | i # q \<Rightarrow> (Some i, f\<lparr>fl_queue := q\<rparr>))"

definition decrement_free :: "free_list \<Rightarrow> free_list" where
  "decrement_free f =
     (let prev = fl_total_free f; f = f\<lparr>fl_total_free := fl_total_free f - 1\<rparr> in
      if prev = 1 then f\<lparr>fl_first_page := 0, fl_last_page := 0\<rparr> else f)"

definition push_page :: "page_id \<Rightarrow> free_list \<Rightarrow> free_list" where
  "push_page i f = increment_free (fl_push_queue i f)"

definition pop_page :: "free_list \<Rightarrow> page_id option \<times> free_list" where
  "pop_page f =
     (let (r, f) = fl_pop_queue f in (r, if r \<noteq> None then decrement_free f else f))"

definition set_free_pages :: "page_id list \<Rightarrow> free_list \<Rightarrow> free_list" where
  "set_free_pages ids f =
     (let f = f\<lparr>fl_queue := sort ids, fl_total_free := of_nat (length ids)\<rparr> in
      if (of_nat (length ids) :: u64) = 0 then f\<lparr>fl_first_page := 0, fl_last_page := 0\<rparr> else f)"

definition snapshot_free_pages :: "free_list \<Rightarrow> page_id list \<times> free_list" where
  "snapshot_free_pages f = (fl_queue f, f\<lparr>fl_queue := rev (fl_queue f)\<rparr>)"

section \<open>Sequential use\<close>

definition fl_wf :: "free_list \<Rightarrow> bool" where
  "fl_wf f \<longleftrightarrow> fl_total_free f = of_nat (length (fl_queue f))"

lemma fl_wf_ops:
  "fl_wf free_list_new"
  "fl_wf f \<Longrightarrow> fl_wf (push_page i f)"
  "fl_wf f \<Longrightarrow> fl_wf (snd (pop_page f))"
  "fl_wf (set_free_pages ids f)"
  "fl_wf f \<Longrightarrow> fl_wf (snd (snapshot_free_pages f))"
  by (auto simp: fl_wf_def free_list_new_def push_page_def increment_free_def fl_push_queue_def
      pop_page_def fl_pop_queue_def decrement_free_def set_free_pages_def snapshot_free_pages_def Let_def
      split: list.splits)

text \<open>Repeated use of an operation that takes one element.\<close>

fun take_many :: "('s \<Rightarrow> 'i option \<times> 's) \<Rightarrow> nat \<Rightarrow> 's \<Rightarrow> 'i list \<times> 's" where
  "take_many get 0 s = ([], s)"
| "take_many get (Suc n) s =
     (case get s of
        (None, s') \<Rightarrow> ([], s')
      | (Some i, s') \<Rightarrow> (let (is, t) = take_many get n s' in (i # is, t)))"

text \<open>What an allocator relies on: a bag of pages that returns only what was put in.\<close>

locale page_pool =
  fixes put :: "'i \<Rightarrow> 's \<Rightarrow> 's"
    and take_one :: "'s \<Rightarrow> 'i option \<times> 's"
    and pool :: "'s \<Rightarrow> 'i multiset"
    and ok :: "'s \<Rightarrow> bool"
  assumes ok_put: "ok s \<Longrightarrow> ok (put i s)"
    and ok_take: "ok s \<Longrightarrow> ok (snd (take_one s))"
    and pool_put: "ok s \<Longrightarrow> pool (put i s) = add_mset i (pool s)"
    and take_some: "ok s \<Longrightarrow> take_one s = (Some i, s') \<Longrightarrow> pool s = add_mset i (pool s')"
    and take_none: "ok s \<Longrightarrow> take_one s = (None, s') \<Longrightarrow> pool s = {#} \<and> pool s' = {#}"
begin

lemma take_after_put: "ok s \<Longrightarrow> fst (take_one (put i s)) \<noteq> None"
  using take_none [of "put i s"] ok_put pool_put by (metis add_mset_not_empty prod.collapse)

text \<open>What is taken and what is left are together what was there: nothing is handed out twice.\<close>

lemma take_many_pool: "ok s \<Longrightarrow> take_many take_one n s = (is, t) \<Longrightarrow> pool s = mset is + pool t \<and> ok t"
proof (induction n arbitrary: s "is" t)
  case (Suc n)
  obtain r s' where r: "take_one s = (r, s')"
    by (cases "take_one s")
  have ok': "ok s'"
    using ok_take [OF Suc.prems(1)] r by simp
  show ?case
  proof (cases r)
    case None
    then show ?thesis
      using Suc.prems r take_none [OF Suc.prems(1), of s'] ok' by auto
  next
    case (Some i)
    obtain js u where ju: "take_many take_one n s' = (js, u)"
      by (cases "take_many take_one n s'")
    have "pool s' = mset js + pool u \<and> ok u"
      using Suc.IH [OF ok' ju] .
    then show ?thesis
      using Suc.prems(2) r Some ju take_some [OF Suc.prems(1), of i s'] by auto
  qed
qed auto

lemma take_many_distinct:
  assumes "ok s" and "take_many take_one n s = (is, t)" and "\<forall>i. count (pool s) i \<le> 1"
  shows "distinct is"
proof -
  have "pool s = mset is + pool t"
    using take_many_pool [OF assms(1,2)] by simp
  then have "count (mset is) i \<le> 1" for i
    using assms(3) [rule_format, of i] by simp
  then show ?thesis
    by (metis One_nat_def count_eq_zero_iff distinct_count_atmost_1 le_less less_one set_mset_mset)
qed

end

interpretation fl_pool: page_pool push_page pop_page "\<lambda>f. mset (fl_queue f)" fl_wf
  by unfold_locales
    (auto simp: fl_wf_def push_page_def increment_free_def fl_push_queue_def pop_page_def fl_pop_queue_def
      decrement_free_def Let_def split: list.splits if_splits)

section \<open>Concurrent use\<close>

text \<open>
  Threads interleave at the atomic operations: \<open>fl_adds\<close> and \<open>fl_subs\<close> count the threads between the
  queue half and the counter half of a push and of a pop.
\<close>

record fl_shared =
  fl_list :: free_list
  fl_adds :: nat
  fl_subs :: nat

inductive fl_step :: "fl_shared \<Rightarrow> fl_shared \<Rightarrow> bool" where
  push_queue: "fl_step s (s\<lparr>fl_list := fl_push_queue i (fl_list s), fl_adds := fl_adds s + 1\<rparr>)"
| push_count: "0 < fl_adds s \<Longrightarrow>
    fl_step s (s\<lparr>fl_list := increment_free (fl_list s), fl_adds := fl_adds s - 1\<rparr>)"
| pop_queue: "fl_pop_queue (fl_list s) = (Some i, f) \<Longrightarrow> fl_step s (s\<lparr>fl_list := f, fl_subs := fl_subs s + 1\<rparr>)"
| pop_count: "0 < fl_subs s \<Longrightarrow>
    fl_step s (s\<lparr>fl_list := decrement_free (fl_list s), fl_subs := fl_subs s - 1\<rparr>)"

definition fl_shared_new :: fl_shared where
  "fl_shared_new = \<lparr>fl_list = free_list_new, fl_adds = 0, fl_subs = 0\<rparr>"

definition fl_balanced :: "fl_shared \<Rightarrow> bool" where
  "fl_balanced s \<longleftrightarrow>
     fl_total_free (fl_list s) + of_nat (fl_adds s) = of_nat (length (fl_queue (fl_list s))) + of_nat (fl_subs s)"

lemma fl_balanced_step: "fl_step s s' \<Longrightarrow> fl_balanced s \<Longrightarrow> fl_balanced s'"
proof (induction rule: fl_step.induct)
  case (push_count s)
  then obtain n where "fl_adds s = Suc n"
    using gr0_implies_Suc by blast
  with push_count show ?case
    by (simp add: fl_balanced_def increment_free_def algebra_simps)
next
  case (pop_queue s i f)
  then show ?case
    by (auto simp: fl_balanced_def fl_pop_queue_def algebra_simps split: list.splits)
next
  case (pop_count s)
  then obtain n where n: "fl_subs s = Suc n"
    using gr0_implies_Suc by blast
  have "fl_total_free (decrement_free (fl_list s)) = fl_total_free (fl_list s) - 1"
    "fl_queue (decrement_free (fl_list s)) = fl_queue (fl_list s)"
    by (simp_all add: decrement_free_def Let_def)
  moreover have "fl_total_free (fl_list s) - 1 + of_nat (fl_adds s) =
      (fl_total_free (fl_list s) + of_nat (fl_adds s)) - 1"
    by simp
  moreover have "\<dots> = of_nat (length (fl_queue (fl_list s))) + of_nat n"
    using pop_count.prems n by (simp add: fl_balanced_def)
  ultimately show ?case
    using n by (simp add: fl_balanced_def)
qed (simp add: fl_balanced_def fl_push_queue_def algebra_simps)

lemma fl_balanced_reach: "fl_step\<^sup>*\<^sup>* fl_shared_new s \<Longrightarrow> fl_balanced s"
proof (induction rule: rtranclp_induct)
  case base
  then show ?case
    by (simp add: fl_balanced_def fl_shared_new_def free_list_new_def)
qed (rule fl_balanced_step)

section \<open>Properties\<close>

text \<open>
  Whatever is taken from the free list was there and is handed out once: after any number of
  pops the pages returned and the pages left are together the pages that were free, and if no page
  was freed twice none is returned twice.
\<close>

lemma free_list_hands_out_once:
  assumes "fl_wf f" and "take_many pop_page n f = (ids, f')"
  shows "mset (fl_queue f) = mset ids + mset (fl_queue f') \<and> fl_wf f' \<and>
    (distinct (fl_queue f) \<longrightarrow> distinct ids)"
proof -
  have "\<forall>i. count (mset (fl_queue f)) i \<le> 1" if "distinct (fl_queue f)"
    using that by (simp add: distinct_count_atmost_1)
  then show ?thesis
    using fl_pool.take_many_pool [OF assms] fl_pool.take_many_distinct [OF assms] by blast
qed

lemma free_list_hands_out_once_witness:
  "take_many pop_page (Suc (Suc 0)) (set_free_pages [9, 4, 7] free_list_new) =
    ([4, 7], set_free_pages [9] free_list_new) \<and>
   mset (fl_queue (set_free_pages [9, 4, 7] free_list_new)) = mset [4, 7] + mset [9]"
proof -
  have "take_many pop_page (Suc (Suc 0)) (set_free_pages [9, 4, 7] free_list_new) =
      ([4, 7], set_free_pages [9] free_list_new)"
    by (simp add: set_free_pages_def free_list_new_def pop_page_def fl_pop_queue_def
        decrement_free_def Let_def)
  moreover have "fl_queue (set_free_pages [9] free_list_new) = [9]"
    by (simp add: set_free_pages_def Let_def)
  ultimately show ?thesis
    using free_list_hands_out_once [OF fl_wf_ops(4)] by metis
qed

text \<open>
  The free list is a queue, first in first out, and taking a snapshot turns it around: the page
  that would be reused next becomes the last one.
\<close>

lemma snapshot_reverses:
  "snapshot_free_pages f = (fl_queue f, f\<lparr>fl_queue := rev (fl_queue f)\<rparr>) \<and>
   fst (pop_page (push_page j (free_list_new\<lparr>fl_queue := i # q\<rparr>))) = Some i"
  by (simp add: snapshot_free_pages_def pop_page_def push_page_def fl_pop_queue_def fl_push_queue_def
      increment_free_def)

text \<open>
  In every interleaving of pushes and pops the counter is the length of the queue up to the
  operations in between their two halves; when none is, it is exact.
\<close>

lemma free_list_counter:
  assumes "fl_step\<^sup>*\<^sup>* fl_shared_new s"
  shows "fl_total_free (fl_list s) + of_nat (fl_adds s) =
      of_nat (length (fl_queue (fl_list s))) + of_nat (fl_subs s) \<and>
    (fl_adds s = 0 \<and> fl_subs s = 0 \<longrightarrow> fl_wf (fl_list s))"
  using fl_balanced_reach [OF assms] by (auto simp: fl_balanced_def fl_wf_def)

lemma free_list_counter_witness:
  "\<exists>s :: fl_shared. fl_step\<^sup>*\<^sup>* fl_shared_new s \<and> fl_queue (fl_list s) = [5] \<and> fl_adds s = 1 \<and>
    fl_total_free (fl_list s) + 1 = of_nat (length (fl_queue (fl_list s)))"
proof -
  define s1 where "s1 = fl_shared_new\<lparr>fl_list := fl_push_queue 5 free_list_new, fl_adds := 1\<rparr>"
  have "fl_step fl_shared_new s1"
    using push_queue [of fl_shared_new 5] by (simp add: s1_def fl_shared_new_def)
  then have reach: "fl_step\<^sup>*\<^sup>* fl_shared_new s1" by blast
  have "fl_queue (fl_list s1) = [5]" "fl_adds s1 = 1" "fl_subs s1 = 0"
    by (simp_all add: s1_def fl_push_queue_def free_list_new_def fl_shared_new_def)
  then show ?thesis
    using reach free_list_counter [OF reach] by auto
qed

text \<open>
  In between, the counter can pass below zero: a pop that overtakes the counter half of a push
  leaves the counter at the largest 64-bit value while the list is empty.
\<close>

lemma free_list_counter_underflow:
  "\<exists>s. fl_step\<^sup>*\<^sup>* fl_shared_new s \<and> fl_queue (fl_list s) = [] \<and> fl_total_free (fl_list s) = - 1"
proof -
  define s1 where "s1 = fl_shared_new\<lparr>fl_list := fl_push_queue 5 free_list_new, fl_adds := 1\<rparr>"
  define s2 where "s2 = s1\<lparr>fl_list := free_list_new, fl_subs := 1\<rparr>"
  define s3 where "s3 = s2\<lparr>fl_list := decrement_free free_list_new, fl_subs := 0\<rparr>"
  have "fl_step fl_shared_new s1"
    using push_queue [of fl_shared_new 5] by (simp add: s1_def fl_shared_new_def)
  moreover have "fl_step s1 s2"
    using pop_queue [of s1 5 free_list_new]
    by (simp add: s1_def s2_def fl_shared_new_def fl_push_queue_def fl_pop_queue_def free_list_new_def)
  moreover have "fl_step s2 s3"
    using pop_count [of s2] by (simp add: s1_def s2_def s3_def fl_shared_new_def)
  moreover have "fl_queue (fl_list s3) = []" "fl_total_free (fl_list s3) = - 1"
    by (simp_all add: s3_def decrement_free_def free_list_new_def)
  ultimately show ?thesis
    by (meson converse_rtranclp_into_rtranclp rtranclp.rtrancl_refl)
qed

end
