(* ===== verification/PageMapper.thy ===== *)
theory PageMapper
  imports PageFormat
begin

text \<open>
  The virtual-to-physical page mapping (\<open>src/src/pager/page_mapper.rs\<close>). Its hash map is a partial
  map; where the code iterates over it, the iteration order is an argument that lists the keys.
  The abstract view is the total function \<open>translate\<close>.
\<close>

section \<open>State and operations\<close>

record page_mapper =
  pm_mapping :: "page_id \<rightharpoonup> page_id"
  pm_next_virtual_id :: page_id
  pm_dirty :: bool

definition mapper_new :: page_mapper where
  "mapper_new = \<lparr>pm_mapping = Map.empty, pm_next_virtual_id = 2, pm_dirty = False\<rparr>"

definition mapper_from_state :: "(page_id \<rightharpoonup> page_id) \<Rightarrow> page_id \<Rightarrow> page_mapper" where
  "mapper_from_state m nxt = \<lparr>pm_mapping = m, pm_next_virtual_id = nxt, pm_dirty = False\<rparr>"

definition translate :: "page_mapper \<Rightarrow> page_id \<Rightarrow> page_id" where
  "translate m v = (case pm_mapping m v of Some p \<Rightarrow> p | None \<Rightarrow> v)"

definition allocate_virtual :: "page_mapper \<Rightarrow> page_id \<times> page_mapper" where
  "allocate_virtual m =
     (pm_next_virtual_id m, m\<lparr>pm_next_virtual_id := pm_next_virtual_id m + 1, pm_dirty := True\<rparr>)"

definition remap :: "page_id \<Rightarrow> page_id \<Rightarrow> page_mapper \<Rightarrow> page_mapper" where
  "remap v p m =
     m\<lparr>pm_mapping := (if v = p then (pm_mapping m)(v := None) else (pm_mapping m)(v \<mapsto> p)),
       pm_dirty := True\<rparr>"

definition unmap :: "page_id \<Rightarrow> page_mapper \<Rightarrow> page_mapper" where
  "unmap v m = m\<lparr>pm_mapping := (pm_mapping m)(v := None), pm_dirty := True\<rparr>"

definition clear_dirty :: "page_mapper \<Rightarrow> page_mapper" where
  "clear_dirty m = m\<lparr>pm_dirty := False\<rparr>"

definition find_virtual_pages_for_physical :: "page_id list \<Rightarrow> page_mapper \<Rightarrow> page_id \<Rightarrow> page_id list" where
  "find_virtual_pages_for_physical order m p =
     (let result = filter (\<lambda>v. pm_mapping m v = Some p) order in
      if result = [] \<and> pm_mapping m p = None then [p] else result)"

definition mapper_to_bytes :: "page_id list \<Rightarrow> page_mapper \<Rightarrow> bytes" where
  "mapper_to_bytes order m =
     u64_le (pm_next_virtual_id m) @ u64_le (of_nat (length order)) @
     concat (map (\<lambda>v. u64_le v @ u64_le (the (pm_mapping m v))) order)"

fun read_mappings ::
    "nat \<Rightarrow> nat \<Rightarrow> bytes \<Rightarrow> (page_id \<rightharpoonup> page_id) \<Rightarrow> pager_error + (page_id \<rightharpoonup> page_id)" where
  "read_mappings 0 offset bs m = Inr m"
| "read_mappings (Suc n) offset bs m =
     (if offset + 16 > length bs then Inl (InsufficientBuffer ''page mapper entries'' (offset + 16) (length bs))
      else read_mappings n (offset + 16) bs
             (m(u64_of_le (bslice offset (offset + 8) bs) \<mapsto> u64_of_le (bslice (offset + 8) (offset + 16) bs))))"

definition mapper_from_bytes :: "bytes \<Rightarrow> pager_error + page_mapper" where
  "mapper_from_bytes bs =
     (if length bs < 16 then Inl (InsufficientBuffer ''page mapper header'' 16 (length bs))
      else rbind (read_mappings (unat (u64_of_le (bslice 8 16 bs))) 16 bs Map.empty) (\<lambda>m.
      Inr (mapper_from_state m (u64_of_le (bslice 0 8 bs)))))"

definition rebuild_step ::
    "page_id \<times> page_id \<Rightarrow> (page_id \<rightharpoonup> page_id) \<times> page_id \<Rightarrow> (page_id \<rightharpoonup> page_id) \<times> page_id" where
  "rebuild_step = (\<lambda>(physical_id, virtual_id) (mapping, max_virtual_id).
     if virtual_id = 0 then (mapping, max_virtual_id)
     else ((if virtual_id \<noteq> physical_id then mapping(virtual_id \<mapsto> physical_id) else mapping),
           (if virtual_id > max_virtual_id then virtual_id else max_virtual_id)))"

definition rebuild_from_headers :: "(page_id \<times> page_id) list \<Rightarrow> page_mapper" where
  "rebuild_from_headers headers =
     (let (mapping, max_virtual_id) = fold rebuild_step headers (Map.empty, 2) in
      mapper_from_state mapping (max_virtual_id + 1))"

section \<open>The abstract view\<close>

definition mapper_wf :: "page_mapper \<Rightarrow> bool" where
  "mapper_wf m \<longleftrightarrow> (\<forall>v. pm_mapping m v \<noteq> Some v)"

lemma mapper_wf_ops [simp]:
  "mapper_wf mapper_new"
  "mapper_wf m \<Longrightarrow> mapper_wf (remap v p m)"
  "mapper_wf m \<Longrightarrow> mapper_wf (unmap v m)"
  "mapper_wf m \<Longrightarrow> mapper_wf (snd (allocate_virtual m))"
  by (auto simp: mapper_wf_def mapper_new_def remap_def unmap_def allocate_virtual_def)

lemma translate_ops [simp]:
  "translate mapper_new = id"
  "translate (remap v p m) = (translate m)(v := p)"
  "translate (unmap v m) = (translate m)(v := v)"
  "translate (snd (allocate_virtual m)) = translate m"
  "translate (clear_dirty m) = translate m"
  by (auto simp: translate_def mapper_new_def remap_def unmap_def allocate_virtual_def clear_dirty_def
      fun_eq_iff split: option.splits)

lemma find_virtual_pages_correct:
  assumes wf: "mapper_wf m" and inj: "inj (translate m)" and order: "set order = dom (pm_mapping m)"
  shows "set (find_virtual_pages_for_physical order m p) = {v. translate m v = p}"
proof (cases "\<exists>v. pm_mapping m v = Some p")
  case True
  then obtain v where v: "pm_mapping m v = Some p" by blast
  then have "translate m v = p" "v \<in> set order" "v \<noteq> p"
    using order wf by (auto simp: translate_def mapper_wf_def)
  then have uniq: "translate m u = p \<Longrightarrow> u = v" for u
    using inj by (metis injD)
  have "pm_mapping m u = Some p \<longleftrightarrow> u = v" for u
    using uniq v by (auto simp: translate_def)
  then have "set (find_virtual_pages_for_physical order m p) = {v}"
    using \<open>v \<in> set order\<close> by (auto simp: find_virtual_pages_for_physical_def filter_empty_conv)
  moreover have "u \<in> {u. translate m u = p} \<longleftrightarrow> u \<in> {v}" for u
    using uniq [of u] \<open>translate m v = p\<close> by auto
  ultimately show ?thesis by blast
next
  case False
  then have "translate m v = p \<longleftrightarrow> v = p \<and> pm_mapping m p = None" for v
    using wf by (auto simp: translate_def mapper_wf_def split: option.splits)
  then show ?thesis
    using False by (auto simp: find_virtual_pages_for_physical_def)
qed

lemma read_mappings_order:
  assumes "length pre = offset" and "distinct order"
  shows "read_mappings (length order) offset
      (pre @ concat (map (\<lambda>v. u64_le v @ u64_le (the (f v))) order) @ rest) m =
    Inr (\<lambda>v. if v \<in> set order then Some (the (f v)) else m v)"
  using assms
proof (induction order arbitrary: pre offset m)
  case Nil
  then show ?case by simp
next
  case (Cons v order)
  let ?pre = "pre @ u64_le v @ u64_le (the (f v))"
  have "read_mappings (length order) (offset + 16)
      (?pre @ concat (map (\<lambda>v. u64_le v @ u64_le (the (f v))) order) @ rest) (m(v \<mapsto> the (f v))) =
    Inr (\<lambda>u. if u \<in> set order then Some (the (f u)) else (m(v \<mapsto> the (f v))) u)"
    using Cons.prems by (intro Cons.IH) auto
  then show ?case
    using Cons.prems by (simp add: bslice_skip bslice_front fun_eq_iff)
qed

lemma mapper_round_trip_rest:
  assumes "distinct order" and "set order = dom (pm_mapping m)" and "length order < 2 ^ 64"
  shows "mapper_from_bytes (mapper_to_bytes order m @ rest) = Inr (clear_dirty m)"
proof -
  let ?pre = "u64_le (pm_next_virtual_id m) @ u64_le (of_nat (length order))"
  let ?bs = "mapper_to_bytes order m @ rest"
  have bs: "?bs = ?pre @ concat (map (\<lambda>v. u64_le v @ u64_le (the (pm_mapping m v))) order) @ rest"
    by (simp add: mapper_to_bytes_def)
  have n: "u64_of_le (bslice 8 16 ?bs) = of_nat (length order)" "bslice 0 8 ?bs = u64_le (pm_next_virtual_id m)"
    by (simp_all add: bs codec_simps)
  have "(\<lambda>v. if v \<in> set order then Some (the (pm_mapping m v)) else None) = pm_mapping m"
    using assms(2) by (auto simp: fun_eq_iff dom_def)
  then have "read_mappings (length order) 16 ?bs Map.empty = Inr (pm_mapping m)"
    using read_mappings_order [of ?pre 16 order "pm_mapping m" rest Map.empty] assms(1)
    unfolding bs by simp
  then show ?thesis
    using assms(3) n
    by (simp add: mapper_from_bytes_def mapper_from_state_def clear_dirty_def mapper_to_bytes_def)
qed

lemma rebuild_fold:
  assumes "distinct (map snd hs)"
  shows "(\<forall>v. v \<notin> snd ` set hs \<longrightarrow> fst (fold rebuild_step hs (m, b)) v = m v) \<and>
    (\<forall>p v. (p, v) \<in> set hs \<and> v \<noteq> 0 \<longrightarrow>
       fst (fold rebuild_step hs (m, b)) v = (if p \<noteq> v then Some p else m v)) \<and>
    b \<le> snd (fold rebuild_step hs (m, b)) \<and>
    (\<forall>p v. (p, v) \<in> set hs \<longrightarrow> v \<le> snd (fold rebuild_step hs (m, b))) \<and>
    snd (fold rebuild_step hs (m, b)) \<in> insert b (snd ` set hs)"
  using assms
proof (induction hs arbitrary: m b)
  case Nil
  then show ?case by simp
next
  case (Cons h hs)
  obtain p0 v0 where h: "h = (p0, v0)"
    by (cases h)
  obtain m1 b1 where s: "rebuild_step h (m, b) = (m1, b1)"
    by (cases "rebuild_step h (m, b)")
  have m1: "m1 = (if v0 \<noteq> 0 \<and> v0 \<noteq> p0 then m(v0 \<mapsto> p0) else m)" "b \<le> b1" "v0 \<le> b1" "b1 \<in> {b, v0}"
    using s h by (auto simp: rebuild_step_def split: if_splits)
  have notin: "v0 \<notin> snd ` set hs"
    using Cons.prems h by auto
  note IH = Cons.IH [of m1 b1]
  have step: "fold rebuild_step (h # hs) (m, b) = fold rebuild_step hs (m1, b1)"
    using s by simp
  have "b \<le> snd (fold rebuild_step hs (m1, b1))" "v0 \<le> snd (fold rebuild_step hs (m1, b1))"
    using IH Cons.prems m1(2,3) by (auto intro: order_trans)
  moreover have v0: "fst (fold rebuild_step hs (m1, b1)) v0 = m1 v0"
    using IH Cons.prems notin by simp
  moreover have "fst (fold rebuild_step hs (m1, b1)) v = m v" if "v \<notin> snd ` set (h # hs)" for v
    using IH Cons.prems that h m1(1) by simp
  moreover have "fst (fold rebuild_step hs (m1, b1)) v = (if p \<noteq> v then Some p else m v)"
    if "(p, v) \<in> set (h # hs)" "v \<noteq> 0" for p v
  proof (cases "v = v0")
    case True
    then have "p = p0"
      using that(1) h notin by force
    then show ?thesis
      using True v0 m1(1) that(2) by auto
  next
    case False
    then have "(p, v) \<in> set hs" "m1 v = m v"
      using that(1) h m1(1) by auto
    then show ?thesis
      using IH Cons.prems that(2) by simp
  qed
  moreover have "v \<le> snd (fold rebuild_step hs (m1, b1))" if "(p, v) \<in> set (h # hs)" for p v
    using IH Cons.prems that h \<open>v0 \<le> snd (fold rebuild_step hs (m1, b1))\<close> by auto
  moreover have "snd (fold rebuild_step hs (m1, b1)) \<in> insert b (snd ` set (h # hs))"
    using IH Cons.prems h m1(4) by auto
  ultimately show ?case
    unfolding step by blast
qed

section \<open>Properties\<close>

text \<open>
  The mapping behaves as a total function on page ids that starts as the identity, is changed at
  one point by \<open>remap\<close> and reset at one point by \<open>unmap\<close>, and is untouched by allocating virtual ids.
\<close>

lemma mapper_translation:
  "translate mapper_new = id \<and> translate (remap v p m) = (translate m)(v := p) \<and>
   translate (unmap v m) = (translate m)(v := v) \<and> translate (snd (allocate_virtual m)) = translate m"
  by simp

text \<open>
  The mapping survives its encoding, whatever the iteration order of the hash map and whatever
  bytes follow, as a clean mapper.
\<close>

lemma mapper_round_trip:
  assumes "distinct order" and "set order = dom (pm_mapping m)" and "length order < 2 ^ 64"
  shows "mapper_from_bytes (mapper_to_bytes order m @ rest) = Inr (m\<lparr>pm_dirty := False\<rparr>)"
  using mapper_round_trip_rest [OF assms] by (simp add: clear_dirty_def)

definition sample_mapper :: page_mapper where
  "sample_mapper = remap 7 3 (remap 4 9 mapper_new)"

lemma sample_mapper_dom: "dom (pm_mapping sample_mapper) = {4, 7}" "mapper_wf sample_mapper"
  by (auto simp: sample_mapper_def remap_def mapper_new_def mapper_wf_def)

lemma mapper_round_trip_witness:
  "mapper_from_bytes (mapper_to_bytes [7, 4] sample_mapper @ [0]) = Inr (sample_mapper\<lparr>pm_dirty := False\<rparr>)"
  using mapper_round_trip [of "[7, 4]" sample_mapper "[0]"] sample_mapper_dom by auto

text \<open>
  When the superblock is lost the mapping can be rebuilt from the page headers: if no two pages
  carry the same virtual id, every page with a virtual id is found again under it, and the next
  virtual id is beyond all of them as long as the id space is not exhausted.
\<close>

lemma mapper_rebuild:
  assumes "distinct (map snd headers)" and "(p, v) \<in> set headers" and "v \<noteq> 0"
    and "2 ^ 64 - 1 \<notin> snd ` set headers"
  shows "translate (rebuild_from_headers headers) v = p \<and>
    v < pm_next_virtual_id (rebuild_from_headers headers)"
proof -
  obtain m b where mb: "fold rebuild_step headers (Map.empty, 2) = (m, b)"
    by (cases "fold rebuild_step headers (Map.empty, 2)")
  note facts = rebuild_fold [OF assms(1), of Map.empty 2, unfolded mb fst_conv snd_conv]
  have "m v = (if p \<noteq> v then Some p else None)" "v \<le> b"
    using facts assms(2,3) by auto
  moreover have "b \<noteq> 2 ^ 64 - 1"
    using facts assms(4) by auto
  then have "b < b + 1"
    by (rule u64_less_succ)
  ultimately show ?thesis
    by (auto simp: rebuild_from_headers_def mb mapper_from_state_def translate_def)
qed

lemma mapper_rebuild_witness:
  "translate (rebuild_from_headers [(3, 7), (9, 4), (5, 0)]) 7 = 3"
  using mapper_rebuild [of "[(3, 7), (9, 4), (5, 0)]" 3 7] by auto

text \<open>
  While no two virtual pages share a physical page, the reverse lookup used by the compaction
  finds exactly the virtual pages behind a physical one.
\<close>

lemma reverse_lookup_exact:
  assumes "mapper_wf m" and "inj (translate m)" and "set order = dom (pm_mapping m)"
  shows "set (find_virtual_pages_for_physical order m p) = {v. translate m v = p}"
  using assms by (rule find_virtual_pages_correct)

lemma reverse_lookup_exact_witness:
  "set (find_virtual_pages_for_physical [4, 9] (remap 9 4 (remap 4 9 mapper_new)) 9) = {4}"
proof -
  let ?m = "remap 9 4 (remap 4 9 mapper_new)"
  have "translate ?m = id(4 := 9, 9 := 4)"
    by simp
  then have "inj (translate ?m)"
    by (auto simp: inj_def split: if_splits)
  moreover have "set [4, 9] = dom (pm_mapping ?m)"
    by (auto simp: remap_def mapper_new_def)
  moreover have "{v. translate ?m v = 9} = {4}"
    by auto
  ultimately show ?thesis
    using reverse_lookup_exact [of ?m "[4, 9]" 9] by simp
qed

end
