(* ===== verification/Superblock.thy ===== *)
theory Superblock
  imports PageMapper
begin

text \<open>
  The superblock (\<open>src/src/pager/superblock.rs\<close>): allocation state of the database file, with the page
  mapping stored inline behind the header while it fits into 256 bytes. The iteration order of the
  mapping is an argument of the encoder.
\<close>

record superblock =
  sb_magic :: u64
  sb_version :: u64
  sb_total_pages :: u64
  sb_free_pages :: u64
  sb_first_free_list_page :: page_id
  sb_last_free_list_page :: page_id
  sb_next_page_id :: u64
  sb_transaction_counter :: u64
  sb_last_checkpoint_lsn :: u64
  sb_root_btree_page :: page_id
  sb_btree_row_count :: u64
  sb_page_mapper_page :: page_id
  sb_page_mapper :: page_mapper

definition superblock_magic :: u64 where
  "superblock_magic = 0x004E4B5355504552"

definition superblock_new :: superblock where
  "superblock_new =
     \<lparr>sb_magic = superblock_magic, sb_version = 2, sb_total_pages = 2, sb_free_pages = 0,
      sb_first_free_list_page = 0, sb_last_free_list_page = 0, sb_next_page_id = 2,
      sb_transaction_counter = 0, sb_last_checkpoint_lsn = 0, sb_root_btree_page = 0,
      sb_btree_row_count = 0, sb_page_mapper_page = 0, sb_page_mapper = mapper_new\<rparr>"

definition superblock_header :: "superblock \<Rightarrow> bytes" where
  "superblock_header s =
     u64_le (sb_magic s) @ u64_le (sb_version s) @ u64_le (sb_total_pages s) @ u64_le (sb_free_pages s) @
     u64_le (sb_first_free_list_page s) @ u64_le (sb_last_free_list_page s) @ u64_le (sb_next_page_id s) @
     u64_le (sb_transaction_counter s) @ u64_le (sb_last_checkpoint_lsn s) @ u64_le (sb_root_btree_page s) @
     u64_le (sb_btree_row_count s) @ u64_le (sb_page_mapper_page s)"

definition superblock_to_bytes :: "page_id list \<Rightarrow> superblock \<Rightarrow> bytes" where
  "superblock_to_bytes order s =
     (let mapper_bytes = mapper_to_bytes order (sb_page_mapper s) in
      if length mapper_bytes \<le> 256 then resize 352 0 (superblock_header s @ mapper_bytes)
      else resize 352 0 (superblock_header s))"

definition read_inline_mapper :: "bytes \<Rightarrow> page_id \<Rightarrow> pager_error + page_mapper" where
  "read_inline_mapper bs mapper_page =
     (if mapper_page = 0 \<and> length bs \<ge> 352
      then let mapper_bytes = bslice 96 352 bs;
               has_data = (length mapper_bytes \<ge> 16 \<and> (\<exists>b\<in>set (bslice 0 16 mapper_bytes). b \<noteq> 0)) in
           if has_data then mapper_from_bytes mapper_bytes else Inr mapper_new
      else Inr mapper_new)"

definition superblock_from_bytes :: "bytes \<Rightarrow> pager_error + superblock" where
  "superblock_from_bytes bs =
     (if length bs < 96 then Inl (InvalidSuperblock ''size'')
      else let magic = u64_of_le (bslice 0 8 bs) in
      if magic \<noteq> superblock_magic then Inl (InvalidSuperblock ''magic'')
      else let version = u64_of_le (bslice 8 16 bs) in
      rbind (if version = 1 then Inr (0, mapper_new)
             else if version = 2
             then let mapper_page = u64_of_le (bslice 88 96 bs) in
                  rbind (read_inline_mapper bs mapper_page) (\<lambda>m. Inr (mapper_page, m))
             else Inl (InvalidSuperblock ''version'')) (\<lambda>(mapper_page, mapper).
      Inr \<lparr>sb_magic = magic, sb_version = 2, sb_total_pages = u64_of_le (bslice 16 24 bs),
           sb_free_pages = u64_of_le (bslice 24 32 bs),
           sb_first_free_list_page = u64_of_le (bslice 32 40 bs),
           sb_last_free_list_page = u64_of_le (bslice 40 48 bs),
           sb_next_page_id = u64_of_le (bslice 48 56 bs),
           sb_transaction_counter = u64_of_le (bslice 56 64 bs),
           sb_last_checkpoint_lsn = u64_of_le (bslice 64 72 bs),
           sb_root_btree_page = u64_of_le (bslice 72 80 bs),
           sb_btree_row_count = u64_of_le (bslice 80 88 bs),
           sb_page_mapper_page = mapper_page, sb_page_mapper = mapper\<rparr>))"

definition increment_transaction :: "superblock \<Rightarrow> superblock" where
  "increment_transaction s = s\<lparr>sb_transaction_counter := sb_transaction_counter s + 1\<rparr>"

definition update_checkpoint :: "u64 \<Rightarrow> superblock \<Rightarrow> superblock" where
  "update_checkpoint l s = s\<lparr>sb_last_checkpoint_lsn := l\<rparr>"

definition allocate_new_page :: "superblock \<Rightarrow> page_id \<times> superblock" where
  "allocate_new_page s =
     (sb_next_page_id s,
      s\<lparr>sb_next_page_id := sb_next_page_id s + 1, sb_total_pages := sb_total_pages s + 1\<rparr>)"

definition mark_page_freed :: "superblock \<Rightarrow> superblock" where
  "mark_page_freed s = s\<lparr>sb_free_pages := sb_free_pages s + 1\<rparr>"

definition mark_page_allocated :: "superblock \<Rightarrow> superblock" where
  "mark_page_allocated s =
     (if sb_free_pages s > 0 then s\<lparr>sb_free_pages := sb_free_pages s - 1\<rparr> else s)"

section \<open>The layout\<close>

lemma length_superblock_header [simp]: "length (superblock_header s) = 96"
  by (simp add: superblock_header_def)

lemma superblock_header_fields:
  fixes s :: superblock and rest :: bytes
  defines "bs \<equiv> superblock_header s @ rest"
  shows "bslice 0 8 bs = u64_le (sb_magic s)" "bslice 8 16 bs = u64_le (sb_version s)"
    "bslice 16 24 bs = u64_le (sb_total_pages s)" "bslice 24 32 bs = u64_le (sb_free_pages s)"
    "bslice 32 40 bs = u64_le (sb_first_free_list_page s)"
    "bslice 40 48 bs = u64_le (sb_last_free_list_page s)"
    "bslice 48 56 bs = u64_le (sb_next_page_id s)" "bslice 56 64 bs = u64_le (sb_transaction_counter s)"
    "bslice 64 72 bs = u64_le (sb_last_checkpoint_lsn s)"
    "bslice 72 80 bs = u64_le (sb_root_btree_page s)" "bslice 80 88 bs = u64_le (sb_btree_row_count s)"
    "bslice 88 96 bs = u64_le (sb_page_mapper_page s)" "bslice 96 352 bs = take 256 rest"
  by (simp_all add: bs_def superblock_header_def codec_simps) (simp add: bslice_def)

lemma superblock_decode:
  assumes "sb_magic s = superblock_magic" and "sb_version s = 2" and "length rest = 256"
    and "sb_page_mapper_page s = 0"
  shows "superblock_from_bytes (superblock_header s @ rest) =
    rbind (if \<exists>b\<in>set (take 16 rest). b \<noteq> 0 then mapper_from_bytes rest else Inr mapper_new)
      (\<lambda>m. Inr (s\<lparr>sb_page_mapper := m\<rparr>))"
proof -
  let ?bs = "superblock_header s @ rest"
  have "read_inline_mapper ?bs 0 =
      (if \<exists>b\<in>set (take 16 rest). b \<noteq> 0 then mapper_from_bytes rest else Inr mapper_new)"
    using assms(3)
    by (auto simp: read_inline_mapper_def superblock_header_fields(13) bslice_def Let_def)
  then show ?thesis
    using assms
    by (simp add: superblock_from_bytes_def superblock_header_fields(1-12) Let_def rbind_def split: sum.split)
qed

lemma resize_pad: "length xs \<le> n \<Longrightarrow> resize n x xs = xs @ replicate (n - length xs) x"
  by (simp add: resize_def)

lemma length_mapper_to_bytes: "length (mapper_to_bytes order m) = 16 + 16 * length order"
proof -
  have "length (concat (map (\<lambda>v. u64_le v @ u64_le (the (pm_mapping m v))) order)) = 16 * length order"
    by (induction order) auto
  then show ?thesis
    by (simp add: mapper_to_bytes_def)
qed

lemma nat_le_zero: "nat_le n 0 = replicate n 0"
  by (induction n) auto

lemma u64_le_zero_iff: "(\<forall>b\<in>set (u64_le w). b = 0) \<longleftrightarrow> w = 0"
proof
  assume "\<forall>b\<in>set (u64_le w). b = 0"
  then have "u64_le w = replicate 8 0"
    by (metis length_u_le(3) replicate_length_same)
  also have "\<dots> = u64_le 0"
    by (simp add: u64_le_def nat_le_zero)
  finally show "w = 0"
    by (metis u_of_le_le(3))
qed (simp add: u64_le_def nat_le_zero)

section \<open>Allocation\<close>

fun allocate_pages :: "nat \<Rightarrow> superblock \<Rightarrow> page_id list \<times> superblock" where
  "allocate_pages 0 s = ([], s)"
| "allocate_pages (Suc n) s =
     (let (i, s) = allocate_new_page s; (is, s) = allocate_pages n s in (i # is, s))"

lemma allocate_pages_total:
  "allocate_pages n s = (ids, s') \<Longrightarrow> sb_total_pages s' = sb_total_pages s + of_nat n"
  by (induction n arbitrary: s ids s')
    (auto simp: allocate_new_page_def Let_def split: prod.splits)

lemma allocate_pages_ids:
  assumes "unat (sb_next_page_id s) + n \<le> 2 ^ 64" and "allocate_pages n s = (ids, s')"
  shows "map unat ids = [unat (sb_next_page_id s)..<unat (sb_next_page_id s) + n]"
  using assms
proof (induction n arbitrary: s ids s')
  case (Suc n)
  let ?s = "snd (allocate_new_page s)"
  obtain js t where js: "allocate_pages n ?s = (js, t)"
    by (cases "allocate_pages n ?s")
  have ids: "ids = sb_next_page_id s # js"
    using Suc.prems(2) js by (simp add: allocate_new_page_def)
  show ?case
  proof (cases "n = 0")
    case True
    then show ?thesis using ids js by simp
  next
    case False
    then have nx: "unat (sb_next_page_id ?s) = unat (sb_next_page_id s) + 1"
      using Suc.prems(1) by (simp add: allocate_new_page_def unat_word_ariths)
    then have "map unat js = [unat (sb_next_page_id s) + 1..<unat (sb_next_page_id s) + 1 + n]"
      using Suc.IH [OF _ js] Suc.prems(1) by simp
    then show ?thesis
      using ids by (simp add: upt_conv_Cons)
  qed
qed auto

section \<open>Properties\<close>

text \<open>
  A superblock whose mapping has at most 15 entries and that names no mapper page survives its
  encoding, whatever the iteration order of the mapping.
\<close>

lemma superblock_round_trip:
  assumes "sb_magic s = superblock_magic" and "sb_version s = 2" and "sb_page_mapper_page s = 0"
    and "distinct order" and "set order = dom (pm_mapping (sb_page_mapper s))" and "length order \<le> 15"
    and "pm_next_virtual_id (sb_page_mapper s) \<noteq> 0"
  shows "length (superblock_to_bytes order s) = 352 \<and>
    superblock_from_bytes (superblock_to_bytes order s) =
      Inr (s\<lparr>sb_page_mapper := (sb_page_mapper s)\<lparr>pm_dirty := False\<rparr>\<rparr>)"
proof -
  let ?m = "mapper_to_bytes order (sb_page_mapper s)"
  let ?rest = "?m @ replicate (256 - length ?m) 0"
  have len: "length ?m \<le> 256"
    using assms(6) by (simp add: length_mapper_to_bytes)
  have bs: "superblock_to_bytes order s = superblock_header s @ ?rest"
    using len by (simp add: superblock_to_bytes_def resize_pad Let_def)
  have sub: "set (u64_le (pm_next_virtual_id (sb_page_mapper s))) \<subseteq> set (take 16 ?rest)"
    by (auto simp: mapper_to_bytes_def)
  then have "\<exists>b\<in>set (take 16 ?rest). b \<noteq> 0"
    using u64_le_zero_iff [of "pm_next_virtual_id (sb_page_mapper s)"] assms(7) by blast
  moreover have "mapper_from_bytes ?rest = Inr (clear_dirty (sb_page_mapper s))"
    using assms(4-6) by (intro mapper_round_trip_rest) auto
  ultimately show ?thesis
    using superblock_decode [OF assms(1,2) _ assms(3), of ?rest] len
    unfolding bs by (simp add: clear_dirty_def)
qed

definition sample_superblock :: superblock where
  "sample_superblock = superblock_new\<lparr>sb_page_mapper := sample_mapper, sb_btree_row_count := 42\<rparr>"

lemma superblock_round_trip_witness:
  "superblock_from_bytes (superblock_to_bytes [4, 7] sample_superblock) =
    Inr (sample_superblock\<lparr>sb_page_mapper := sample_mapper\<lparr>pm_dirty := False\<rparr>\<rparr>)"
proof -
  have "pm_next_virtual_id sample_mapper = 2"
    by (simp add: sample_mapper_def remap_def mapper_new_def)
  then show ?thesis
    using superblock_round_trip [of sample_superblock "[4, 7]"] sample_mapper_dom(1)
    by (simp add: sample_superblock_def superblock_new_def)
qed

text \<open>
  With more than 15 remapped pages and no mapper page, the mapping is not stored: reading the
  superblock back gives the identity mapping and restarts the virtual ids.
\<close>

lemma superblock_mapping_lost:
  assumes "sb_magic s = superblock_magic" and "sb_version s = 2" and "sb_page_mapper_page s = 0"
    and "15 < length order"
  shows "superblock_from_bytes (superblock_to_bytes order s) = Inr (s\<lparr>sb_page_mapper := mapper_new\<rparr>)"
proof -
  have "superblock_to_bytes order s = superblock_header s @ replicate 256 0"
    using assms(4) by (simp add: superblock_to_bytes_def length_mapper_to_bytes resize_pad)
  moreover have "set (take 16 (replicate 256 (0 :: u8))) = {0}"
    by simp
  ultimately show ?thesis
    using superblock_decode [OF assms(1,2) _ assms(3), of "replicate 256 0"] by simp
qed

lemma superblock_mapping_lost_witness:
  "superblock_from_bytes (superblock_to_bytes (map of_nat [3..<20]) superblock_new) =
    Inr (superblock_new\<lparr>sb_page_mapper := mapper_new\<rparr>)"
  using superblock_mapping_lost [of superblock_new "map of_nat [3..<20]"]
  by (simp add: superblock_new_def)

text \<open>
  Growing the database hands out fresh page ids: the ids of any number of allocations that stays
  below the 64-bit limit are consecutive, hence distinct, and the page count grows by as many.
\<close>

lemma fresh_page_ids:
  assumes "unat (sb_next_page_id s) + n \<le> 2 ^ 64" and "allocate_pages n s = (ids, s')"
  shows "distinct ids \<and> map unat ids = [unat (sb_next_page_id s)..<unat (sb_next_page_id s) + n] \<and>
    sb_total_pages s' = sb_total_pages s + of_nat n"
proof -
  have ids: "map unat ids = [unat (sb_next_page_id s)..<unat (sb_next_page_id s) + n]"
    using assms by (rule allocate_pages_ids)
  then have "distinct (map unat ids)"
    by (simp only: distinct_upt)
  then have "distinct ids"
    by (simp only: distinct_map)
  then show ?thesis
    using ids allocate_pages_total [OF assms(2)] by simp
qed

lemma fresh_page_ids_witness:
  "distinct (fst (allocate_pages 3 superblock_new)) \<and>
   sb_total_pages (snd (allocate_pages 3 superblock_new)) = 5"
  using fresh_page_ids [of superblock_new 3 "fst (allocate_pages 3 superblock_new)"
      "snd (allocate_pages 3 superblock_new)"]
  by (simp add: superblock_new_def)

end
