(* ===== verification/PageCache.thy ===== *)
theory PageCache
  imports PageFormat
begin

text \<open>
  The page cache of \<open>pager/cache.rs\<close>: 32 shards, each a hash map whose entries are chained into a
  doubly linked list through the page ids of their neighbours. The hash map is an ordered map, so
  that the order in which it is iterated is the order of its keys; only the set of what an iteration
  yields is used. Metrics are left out.

  Each shard refines a plain list of pages, most recently used first.
\<close>

section \<open>Data\<close>

record cache_entry =
  ce_page :: page
  ce_dirty :: bool
  ce_prev :: "page_id option"
  ce_next :: "page_id option"

record cache_stats =
  st_hits :: u64
  st_misses :: u64
  st_evictions :: u64
  st_flushes :: u64
  st_current_size :: nat
  st_dirty_pages :: nat

definition cache_stats_default :: cache_stats where
  "cache_stats_default =
     \<lparr>st_hits = 0, st_misses = 0, st_evictions = 0, st_flushes = 0, st_current_size = 0, st_dirty_pages = 0\<rparr>"

definition stats_reset :: "cache_stats \<Rightarrow> cache_stats" where
  "stats_reset s = s\<lparr>st_hits := 0, st_misses := 0, st_evictions := 0, st_flushes := 0\<rparr>"

record cache_config =
  cc_capacity :: nat
  cc_write_back :: bool

definition cache_config_default :: cache_config where
  "cache_config_default = \<lparr>cc_capacity = 10000, cc_write_back = True\<rparr>"

record cache_shard =
  cs_entries :: "(page_id, cache_entry) btmap"
  cs_head :: "page_id option"
  cs_tail :: "page_id option"
  cs_stats :: cache_stats
  cs_capacity :: nat

record page_cache =
  pc_config :: cache_config
  pc_shards :: "cache_shard list"
  pc_write_back :: bool

definition num_shards :: nat where "num_shards = 32"

definition shard_new :: "nat \<Rightarrow> cache_shard" where
  "shard_new cap =
     \<lparr>cs_entries = [], cs_head = None, cs_tail = None, cs_stats = cache_stats_default, cs_capacity = cap\<rparr>"

definition cache_new :: "cache_config \<Rightarrow> page_cache" where
  "cache_new cfg =
     \<lparr>pc_config = cfg,
      pc_shards = replicate num_shards (shard_new ((cc_capacity cfg + num_shards - 1) div num_shards)),
      pc_write_back = cc_write_back cfg\<rparr>"

definition shard_index :: "page_id \<Rightarrow> nat" where
  "shard_index i = unat i mod num_shards"

section \<open>Shards\<close>

text \<open>\<open>get_mut\<close>, followed by an assignment when the key is present.\<close>

definition alter :: "'k::linorder \<Rightarrow> ('v \<Rightarrow> 'v) \<Rightarrow> ('k, 'v) btmap \<Rightarrow> ('k, 'v) btmap" where
  "alter k f m = (case bt_get m k of None \<Rightarrow> m | Some v \<Rightarrow> bt_insert k (f v) m)"

definition alter_at :: "'k::linorder option \<Rightarrow> ('v \<Rightarrow> 'v) \<Rightarrow> ('k, 'v) btmap \<Rightarrow> ('k, 'v) btmap" where
  "alter_at ko f m = (case ko of None \<Rightarrow> m | Some k \<Rightarrow> alter k f m)"

definition move_to_front :: "page_id \<Rightarrow> cache_shard \<Rightarrow> cache_shard" where
  "move_to_front i s =
     (if cs_head s = Some i then s
      else
        let s = (case bt_get (cs_entries s) i of
                   None \<Rightarrow> s
                 | Some e \<Rightarrow>
                     s\<lparr>cs_entries :=
                         alter_at (ce_next e) (ce_prev_update (\<lambda>_. ce_prev e))
                           (alter_at (ce_prev e) (ce_next_update (\<lambda>_. ce_next e)) (cs_entries s)),
                       cs_tail := (if cs_tail s = Some i then ce_prev e else cs_tail s)\<rparr>);
            entries = alter i (\<lambda>e. e\<lparr>ce_prev := None, ce_next := cs_head s\<rparr>) (cs_entries s);
            entries = alter_at (cs_head s) (ce_prev_update (\<lambda>_. Some i)) entries
        in s\<lparr>cs_entries := entries, cs_head := Some i,
             cs_tail := (if cs_tail s = None then Some i else cs_tail s)\<rparr>)"

definition remove_entry :: "page_id \<Rightarrow> cache_shard \<Rightarrow> page option \<times> cache_shard" where
  "remove_entry i s =
     (case bt_get (cs_entries s) i of
        None \<Rightarrow> (None, s)
      | Some e \<Rightarrow>
          let entries = bt_remove i (cs_entries s);
              entries = alter_at (ce_prev e) (ce_next_update (\<lambda>_. ce_next e)) entries;
              head = (if ce_prev e = None then ce_next e else cs_head s);
              entries = alter_at (ce_next e) (ce_prev_update (\<lambda>_. ce_prev e)) entries;
              tail = (if ce_next e = None then ce_prev e else cs_tail s);
              st = (cs_stats s)\<lparr>st_current_size := length entries\<rparr>;
              s = s\<lparr>cs_entries := entries, cs_head := head, cs_tail := tail\<rparr>
          in if ce_dirty e
             then (Some (ce_page e), s\<lparr>cs_stats := st\<lparr>st_dirty_pages := st_dirty_pages st - 1\<rparr>\<rparr>)
             else (None, s\<lparr>cs_stats := st\<rparr>))"

definition evict_lru :: "cache_shard \<Rightarrow> page option \<times> cache_shard" where
  "evict_lru s =
     (case cs_tail s of
        None \<Rightarrow> (None, s)
      | Some t \<Rightarrow> remove_entry t (s\<lparr>cs_stats := (cs_stats s)\<lparr>st_evictions := st_evictions (cs_stats s) + 1\<rparr>\<rparr>))"

section \<open>Operations under the lock of a shard\<close>

definition shard_get :: "page_id \<Rightarrow> cache_shard \<Rightarrow> page option \<times> cache_shard" where
  "shard_get i s =
     (case bt_get (cs_entries s) i of
        Some e \<Rightarrow>
          (Some (ce_page e),
           move_to_front i (s\<lparr>cs_stats := (cs_stats s)\<lparr>st_hits := st_hits (cs_stats s) + 1\<rparr>\<rparr>))
      | None \<Rightarrow> (None, s\<lparr>cs_stats := (cs_stats s)\<lparr>st_misses := st_misses (cs_stats s) + 1\<rparr>\<rparr>))"

definition shard_put :: "page \<Rightarrow> bool \<Rightarrow> cache_shard \<Rightarrow> page option \<times> cache_shard" where
  "shard_put p dirty s =
     (let i = ph_page_id (pg_header p) in
      case bt_get (cs_entries s) i of
        Some e \<Rightarrow>
          (None, move_to_front i
             (s\<lparr>cs_entries := bt_insert i (e\<lparr>ce_page := p, ce_dirty := (ce_dirty e \<or> dirty)\<rparr>) (cs_entries s)\<rparr>))
      | None \<Rightarrow>
          let (evicted, s) = (if length (cs_entries s) \<ge> cs_capacity s then evict_lru s else (None, s));
              entries = bt_insert i \<lparr>ce_page = p, ce_dirty = dirty, ce_prev = None, ce_next = cs_head s\<rparr>
                          (cs_entries s);
              entries = alter_at (cs_head s) (ce_prev_update (\<lambda>_. Some i)) entries;
              st = (cs_stats s)\<lparr>st_current_size := length entries\<rparr>
          in (evicted,
              s\<lparr>cs_entries := entries, cs_head := Some i,
                cs_tail := (if cs_tail s = None then Some i else cs_tail s),
                cs_stats := (if dirty then st\<lparr>st_dirty_pages := st_dirty_pages st + 1\<rparr> else st)\<rparr>))"

definition shard_mark_dirty :: "page_id \<Rightarrow> cache_shard \<Rightarrow> bool \<times> cache_shard" where
  "shard_mark_dirty i s =
     (case bt_get (cs_entries s) i of
        Some e \<Rightarrow>
          (True,
           if \<not> ce_dirty e
           then s\<lparr>cs_entries := bt_insert i (e\<lparr>ce_dirty := True\<rparr>) (cs_entries s),
                  cs_stats := (cs_stats s)\<lparr>st_dirty_pages := st_dirty_pages (cs_stats s) + 1\<rparr>\<rparr>
           else s)
      | None \<Rightarrow> (False, s))"

definition shard_mark_clean :: "page_id \<Rightarrow> cache_shard \<Rightarrow> bool \<times> cache_shard" where
  "shard_mark_clean i s =
     (case bt_get (cs_entries s) i of
        Some e \<Rightarrow>
          (True,
           if ce_dirty e
           then s\<lparr>cs_entries := bt_insert i (e\<lparr>ce_dirty := False\<rparr>) (cs_entries s),
                  cs_stats := (cs_stats s)\<lparr>st_dirty_pages := st_dirty_pages (cs_stats s) - 1,
                                          st_flushes := st_flushes (cs_stats s) + 1\<rparr>\<rparr>
           else s)
      | None \<Rightarrow> (False, s))"

definition shard_dirty_pages :: "cache_shard \<Rightarrow> (page_id \<times> page) list" where
  "shard_dirty_pages s = map (\<lambda>(i, e). (i, ce_page e)) (filter (\<lambda>(i, e). ce_dirty e) (cs_entries s))"

definition shard_clear :: "cache_shard \<Rightarrow> (page_id \<times> page) list \<times> cache_shard" where
  "shard_clear s =
     (shard_dirty_pages s,
      s\<lparr>cs_entries := [], cs_head := None, cs_tail := None,
        cs_stats := (cs_stats s)\<lparr>st_current_size := 0, st_dirty_pages := 0\<rparr>\<rparr>)"

section \<open>The cache\<close>

definition on_shard :: "page_id \<Rightarrow> (cache_shard \<Rightarrow> 'a \<times> cache_shard) \<Rightarrow> page_cache \<Rightarrow> 'a \<times> page_cache" where
  "on_shard i f c =
     (let k = shard_index i; (r, s) = f (pc_shards c ! k) in (r, c\<lparr>pc_shards := (pc_shards c)[k := s]\<rparr>))"

definition cache_get :: "page_id \<Rightarrow> page_cache \<Rightarrow> page option \<times> page_cache" where
  "cache_get i = on_shard i (shard_get i)"

definition cache_put :: "page \<Rightarrow> bool \<Rightarrow> page_cache \<Rightarrow> page option \<times> page_cache" where
  "cache_put p dirty = on_shard (ph_page_id (pg_header p)) (shard_put p dirty)"

definition cache_contains :: "page_id \<Rightarrow> page_cache \<Rightarrow> bool" where
  "cache_contains i c = (bt_get (cs_entries (pc_shards c ! shard_index i)) i \<noteq> None)"

definition mark_dirty :: "page_id \<Rightarrow> page_cache \<Rightarrow> bool \<times> page_cache" where
  "mark_dirty i = on_shard i (shard_mark_dirty i)"

definition mark_clean :: "page_id \<Rightarrow> page_cache \<Rightarrow> bool \<times> page_cache" where
  "mark_clean i = on_shard i (shard_mark_clean i)"

definition is_dirty :: "page_id \<Rightarrow> page_cache \<Rightarrow> bool" where
  "is_dirty i c = (case bt_get (cs_entries (pc_shards c ! shard_index i)) i of None \<Rightarrow> False | Some e \<Rightarrow> ce_dirty e)"

definition get_dirty_pages :: "page_cache \<Rightarrow> (page_id \<times> page) list" where
  "get_dirty_pages c = concat (map shard_dirty_pages (pc_shards c))"

definition cache_remove :: "page_id \<Rightarrow> page_cache \<Rightarrow> page option \<times> page_cache" where
  "cache_remove i = on_shard i (remove_entry i)"

definition cache_clear :: "page_cache \<Rightarrow> (page_id \<times> page) list \<times> page_cache" where
  "cache_clear c =
     (concat (map (fst \<circ> shard_clear) (pc_shards c)), c\<lparr>pc_shards := map (snd \<circ> shard_clear) (pc_shards c)\<rparr>)"

definition stats_add :: "cache_stats \<Rightarrow> cache_stats \<Rightarrow> cache_stats" where
  "stats_add a b =
     \<lparr>st_hits = st_hits a + st_hits b, st_misses = st_misses a + st_misses b,
      st_evictions = st_evictions a + st_evictions b, st_flushes = st_flushes a + st_flushes b,
      st_current_size = st_current_size a + st_current_size b,
      st_dirty_pages = st_dirty_pages a + st_dirty_pages b\<rparr>"

definition cache_stats_of :: "page_cache \<Rightarrow> cache_stats" where
  "cache_stats_of c = fold (\<lambda>s acc. stats_add acc (cs_stats s)) (pc_shards c) cache_stats_default"

definition reset_stats :: "page_cache \<Rightarrow> page_cache" where
  "reset_stats c = c\<lparr>pc_shards := map (\<lambda>s. s\<lparr>cs_stats := stats_reset (cs_stats s)\<rparr>) (pc_shards c)\<rparr>"

definition cache_size :: "page_cache \<Rightarrow> nat" where
  "cache_size c = sum_list (map (\<lambda>s. length (cs_entries s)) (pc_shards c))"

section \<open>Chains of entries\<close>

lemma bt_get_alter [simp]: "bt_get (alter k f m) = (bt_get m)(k := map_option f (bt_get m k))"
  by (auto simp: alter_def fun_eq_iff split: option.splits)

lemma bt_get_alter_at [simp]:
  "bt_get (alter_at None f m) = bt_get m"
  "bt_get (alter_at (Some k) f m) = (bt_get m)(k := map_option f (bt_get m k))"
  by (simp_all add: alter_at_def)

lemma bt_wf_alter [simp]: "bt_wf m \<Longrightarrow> bt_wf (alter k f m)"
  by (simp add: alter_def split: option.splits)

lemma fst_set_alter [simp]: "fst ` set (alter k f m) = fst ` set m"
  using bt_get_None_iff [of m k] by (auto simp: alter_def split: option.splits)

lemma bt_wf_alter_at [simp]: "bt_wf m \<Longrightarrow> bt_wf (alter_at ko f m)"
  and fst_set_alter_at [simp]: "fst ` set (alter_at ko f m) = fst ` set m"
  by (auto simp: alter_at_def split: option.splits)

lemma fst_set_bt_remove [simp]: "fst ` set (bt_remove k m) = fst ` set m - {k}"
  by (auto simp: bt_remove_def)

lemma length_bt_keys: "bt_wf m \<Longrightarrow> length m = card (fst ` set m)"
  using bt_wf_distinct [of m] distinct_card [of "map fst m"] by simp

text \<open>The first element of a list, and the last, when there is one.\<close>

fun first :: "'a list \<Rightarrow> 'a option \<Rightarrow> 'a option" where
  "first [] n = n"
| "first (x # xs) n = Some x"

fun final :: "'a option \<Rightarrow> 'a list \<Rightarrow> 'a option" where
  "final p [] = p"
| "final p (x # xs) = final (Some x) xs"

lemma final_snoc [simp]: "final p (xs @ [x]) = Some x"
  by (induction p xs rule: final.induct) auto

lemma final_append [simp]: "final p (xs @ ys) = final (final p xs) ys"
  by (induction p xs rule: final.induct) auto

lemma first_append [simp]: "first (xs @ ys) n = first xs (first ys n)"
  by (cases xs) auto

text \<open>
  \<open>chain E p xs n\<close>: the entries of \<open>xs\<close> are linked both ways in this order, with \<open>p\<close> before the first
  and \<open>n\<close> after the last.
\<close>

fun chain :: "(page_id \<Rightarrow> cache_entry option) \<Rightarrow> page_id option \<Rightarrow> page_id list \<Rightarrow> page_id option \<Rightarrow> bool" where
  "chain E p [] n \<longleftrightarrow> True"
| "chain E p (x # xs) n \<longleftrightarrow>
     (case E x of None \<Rightarrow> False | Some e \<Rightarrow> ce_prev e = p \<and> ce_next e = first xs n) \<and> chain E (Some x) xs n"

lemma chain_cong: "(\<And>x. x \<in> set xs \<Longrightarrow> E x = E' x) \<Longrightarrow> chain E p xs n = chain E' p xs n"
  by (induction E p xs n rule: chain.induct) auto

lemma chain_outside [simp]: "x \<notin> set xs \<Longrightarrow> chain (E(x := v)) p xs n = chain E p xs n"
  by (rule chain_cong) auto

lemma chain_append: "chain E p (xs @ ys) n \<longleftrightarrow> chain E p xs (first ys n) \<and> chain E (final p xs) ys n"
  by (induction E p xs n rule: chain.induct) (auto split: option.splits)

lemma chain_set_next:
  assumes "chain E p (xs @ [y]) n" and "y \<notin> set xs"
  shows "chain (E(y := map_option (ce_next_update (\<lambda>_. n')) (E y))) p (xs @ [y]) n'"
  using assms by (auto simp: chain_append split: option.splits)

lemma chain_set_prev:
  assumes "chain E p (y # ys) n" and "y \<notin> set ys"
  shows "chain (E(y := map_option (ce_prev_update (\<lambda>_. p')) (E y))) p' (y # ys) n"
  using assms by (auto split: option.splits)

lemma chain_entry:
  assumes "chain E p (xs @ x # ys) n" and "E x = Some e"
  shows "ce_prev e = final p xs" "ce_next e = first ys n"
  using assms by (auto simp: chain_append)

text \<open>Taking an element out of a chain: the pointer updates of \<open>move_to_front\<close> and \<open>remove_entry\<close>.\<close>

definition unlinked :: "cache_entry \<Rightarrow> (page_id, cache_entry) btmap \<Rightarrow> (page_id, cache_entry) btmap" where
  "unlinked e m =
     alter_at (ce_next e) (ce_prev_update (\<lambda>_. ce_prev e))
       (alter_at (ce_prev e) (ce_next_update (\<lambda>_. ce_next e)) m)"

lemma chain_unlinked:
  assumes "chain (bt_get m) None (xs @ x # ys) None" and "distinct (xs @ x # ys)"
    and e: "bt_get m x = Some e" and same: "\<And>y. y \<noteq> x \<Longrightarrow> bt_get m' y = bt_get m y"
  shows "chain (bt_get (unlinked e m')) None (xs @ ys) None"
proof -
  note pn = chain_entry [OF assms(1) e]
  have seg: "chain (bt_get m') p zs n = chain (bt_get m) p zs n" if "x \<notin> set zs" for p zs n
    using that same by (intro chain_cong) metis
  have xs: "chain (bt_get m') None xs (Some x)" and ys: "chain (bt_get m') (Some x) ys None"
    using assms(1,2) by (auto simp: chain_append seg)
  have "chain (bt_get (alter_at (final None xs) (ce_next_update (\<lambda>_. first ys None)) m')) None xs (first ys None)"
  proof (cases xs rule: rev_cases)
    case (snoc us u)
    then show ?thesis
      using chain_set_next [of "bt_get m'" None us u "Some x" "first ys None"] xs assms(2) by simp
  qed simp
  moreover have "chain (bt_get (alter_at (final None xs) (ce_next_update (\<lambda>_. first ys None)) m')) (Some x) ys None"
    using ys assms(2) by (cases xs rule: rev_cases) auto
  ultimately show ?thesis
    unfolding unlinked_def pn chain_append
    using assms(2) chain_set_prev [of _ "Some x" "hd ys" "tl ys" None "final None xs"]
    by (cases ys) auto
qed

text \<open>Putting an element in front.\<close>

lemma chain_front:
  assumes "chain (bt_get m) None xs None" and "distinct xs" and "i \<notin> set xs"
    and "bt_get m i = Some e" and "ce_prev e = None" and "ce_next e = first xs None"
  shows "chain (bt_get (alter_at (first xs None) (ce_prev_update (\<lambda>_. Some i)) m)) None (i # xs) None"
proof (cases xs)
  case (Cons y ys)
  then show ?thesis
    using assms chain_set_prev [of "bt_get m" None y ys None "Some i"] by (auto simp del: chain.simps(2) simp add: chain.simps(2) [of _ _ i])
qed (use assms in simp)

section \<open>The list behind a shard\<close>

text \<open>Following the pointers from the head; a chain is no longer than the number of entries.\<close>

fun walk_chain :: "nat \<Rightarrow> (page_id, cache_entry) btmap \<Rightarrow> page_id option \<Rightarrow> page_id list" where
  "walk_chain (Suc n) m (Some i) =
     (case bt_get m i of None \<Rightarrow> [] | Some e \<Rightarrow> i # walk_chain n m (ce_next e))"
| "walk_chain _ _ _ = []"

definition shard_ids :: "cache_shard \<Rightarrow> page_id list" where
  "shard_ids s = walk_chain (length (cs_entries s)) (cs_entries s) (cs_head s)"

definition content :: "cache_entry \<Rightarrow> page \<times> bool" where
  "content e = (ce_page e, ce_dirty e)"

definition shard_contents :: "cache_shard \<Rightarrow> page_id \<Rightarrow> (page \<times> bool) option" where
  "shard_contents s i = map_option content (bt_get (cs_entries s) i)"

definition shard_inv :: "cache_shard \<Rightarrow> page_id list \<Rightarrow> bool" where
  "shard_inv s xs \<longleftrightarrow>
     bt_wf (cs_entries s) \<and> distinct xs \<and> set xs = fst ` set (cs_entries s) \<and>
     chain (bt_get (cs_entries s)) None xs None \<and> cs_head s = first xs None \<and> cs_tail s = final None xs"

lemma walk_chain_chain:
  "chain (bt_get m) p xs None \<Longrightarrow> length xs \<le> n \<Longrightarrow> walk_chain n m (first xs None) = xs"
proof (induction xs arbitrary: p n)
  case (Cons x xs)
  then show ?case
    by (cases n) (auto split: option.splits)
qed (cases n, auto)

lemma shard_inv_length: "shard_inv s xs \<Longrightarrow> length xs = length (cs_entries s)"
  using length_bt_keys [of "cs_entries s"] distinct_card [of xs] by (simp add: shard_inv_def)

lemma shard_inv_ids: "shard_inv s xs \<Longrightarrow> shard_ids s = xs"
  using walk_chain_chain [of "cs_entries s" None xs] shard_inv_length [of s xs]
  by (simp add: shard_ids_def shard_inv_def)

lemma shard_inv_present: "shard_inv s xs \<Longrightarrow> i \<in> set xs \<longleftrightarrow> bt_get (cs_entries s) i \<noteq> None"
  by (simp add: shard_inv_def bt_get_None_iff)

lemma shard_contents_None: "shard_inv s xs \<Longrightarrow> shard_contents s i = None \<longleftrightarrow> i \<notin> set xs"
  using shard_inv_present [of s xs i] by (simp add: shard_contents_def)

lemma shard_contents_cong:
  "(\<And>i. map_option content (bt_get (cs_entries s) i) = map_option content (bt_get (cs_entries s') i)) \<Longrightarrow>
     shard_contents s = shard_contents s'"
  by (simp add: fun_eq_iff shard_contents_def)

lemma content_alter_at:
  assumes "\<And>e. content (f e) = content e"
  shows "map_option content (bt_get (alter_at ko f m) i) = map_option content (bt_get m i)"
  using assms by (cases ko) (auto simp: option.map_comp o_def)

lemma content_pointers [simp]:
  "content (ce_prev_update f e) = content e" "content (ce_next_update f e) = content e"
  by (simp_all add: content_def)

lemma content_unlinked [simp]:
  "map_option content (bt_get (unlinked e m) i) = map_option content (bt_get m i)"
  by (simp add: unlinked_def content_alter_at)

lemma fst_set_unlinked [simp]: "fst ` set (unlinked e m) = fst ` set m"
  and bt_wf_unlinked [simp]: "bt_wf m \<Longrightarrow> bt_wf (unlinked e m)"
  by (simp_all add: unlinked_def)

lemma final_unlinked:
  assumes "distinct (xs @ x # ys)"
  shows "(if final None (xs @ x # ys) = Some x then final None xs else final None (xs @ x # ys)) = final None (xs @ ys)"
  using assms by (cases ys rule: rev_cases) auto

lemma move_to_front_inv:
  assumes inv: "shard_inv s xs" and "i \<in> set xs"
  shows "shard_inv (move_to_front i s) (i # remove1 i xs)" (is ?inv)
    and "shard_contents (move_to_front i s) = shard_contents s" (is ?con)
    and "cs_capacity (move_to_front i s) = cs_capacity s" "cs_stats (move_to_front i s) = cs_stats s"
proof -
  from \<open>i \<in> set xs\<close> obtain us vs where xs: "xs = us @ i # vs" "i \<notin> set us"
    by (meson split_list_first)
  obtain e where e: "bt_get (cs_entries s) i = Some e"
    using inv assms(2) shard_inv_present by blast
  have rem: "remove1 i xs = us @ vs"
    using xs by (simp add: remove1_append)
  have "?inv \<and> ?con \<and> cs_capacity (move_to_front i s) = cs_capacity s \<and> cs_stats (move_to_front i s) = cs_stats s"
  proof (cases "cs_head s = Some i")
    case True
    then have "us = []"
      using inv xs by (cases us) (auto simp: shard_inv_def)
    then show ?thesis
      using True inv xs rem by (simp add: move_to_front_def)
  next
    case False
    let ?m = "unlinked e (cs_entries s)"
    let ?m' = "alter i (\<lambda>e. e\<lparr>ce_prev := None, ce_next := cs_head s\<rparr>) ?m"
    let ?s = "s\<lparr>cs_entries := alter_at (cs_head s) (ce_prev_update (\<lambda>_. Some i)) ?m', cs_head := Some i,
        cs_tail := final None (us @ vs)\<rparr>"
    have dist: "distinct (us @ i # vs)" and head: "cs_head s = first us None" and us: "us \<noteq> []"
      using inv xs False by (cases us; auto simp: shard_inv_def)+
    have tail: "cs_tail s = final None (us @ i # vs)"
      using inv xs by (simp add: shard_inv_def)
    have "ce_prev e = final None us"
      using chain_entry(1) [of "bt_get (cs_entries s)" None us i vs None e] inv e xs by (simp add: shard_inv_def)
    then have tail': "(if cs_tail s = Some i then ce_prev e else cs_tail s) = final None (us @ vs)"
      using final_unlinked [OF dist] tail by (simp only:)
    have "final None (us @ vs) \<noteq> None"
      using us by (cases "us @ vs" rule: rev_cases) (simp, metis final_snoc option.distinct(1))
    then have front: "move_to_front i s = ?s"
      using e False tail' by (simp add: move_to_front_def unlinked_def Let_def del: final_append)
    have ne: "bt_get ?m i \<noteq> None"
      using e content_unlinked [of e "cs_entries s" i] by (auto simp del: content_unlinked)
    have "chain (bt_get ?m) None (us @ vs) None"
      using chain_unlinked [of "cs_entries s" us i vs e "cs_entries s"] inv e xs dist by (simp add: shard_inv_def)
    then have "chain (bt_get ?m') None (us @ vs) None"
      using dist by simp
    then have "chain (bt_get (cs_entries ?s)) None (i # us @ vs) None"
      using chain_front [of ?m' "us @ vs" i] dist ne head us by (cases us) auto
    moreover have "final (Some i) (us @ vs) = final None (us @ vs)"
      using us by (cases us) auto
    moreover have "insert i (set us \<union> set vs) = fst ` set (cs_entries s)"
      using inv xs by (simp add: shard_inv_def)
    ultimately have ?inv
      using inv dist rem unfolding front by (auto simp: shard_inv_def)
    moreover have ?con
      unfolding front by (rule shard_contents_cong) (auto simp: content_alter_at option.map_comp o_def)
    ultimately show ?thesis
      unfolding front by simp
  qed
  then show ?inv ?con "cs_capacity (move_to_front i s) = cs_capacity s" "cs_stats (move_to_front i s) = cs_stats s"
    by blast+
qed

lemma remove_entry_inv:
  assumes inv: "shard_inv s xs" and "i \<in> set xs" and r: "remove_entry i s = (r, s')"
  shows "shard_inv s' (remove1 i xs)" "shard_contents s' = (shard_contents s)(i := None)"
    "cs_capacity s' = cs_capacity s"
    "r = (case shard_contents s i of Some (p, d) \<Rightarrow> if d then Some p else None | None \<Rightarrow> None)"
proof -
  from \<open>i \<in> set xs\<close> obtain us vs where xs: "xs = us @ i # vs" "i \<notin> set us"
    by (meson split_list_first)
  obtain e where e: "bt_get (cs_entries s) i = Some e"
    using inv assms(2) shard_inv_present by blast
  have rem: "remove1 i xs = us @ vs" and dist: "distinct (us @ i # vs)"
    using xs inv by (simp_all add: remove1_append shard_inv_def)
  have pn: "ce_prev e = final None us" "ce_next e = first vs None"
    using chain_entry [of "bt_get (cs_entries s)" None us i vs None e] inv e xs by (simp_all add: shard_inv_def)
  let ?m = "unlinked e (bt_remove i (cs_entries s))"
  have s': "cs_entries s' = ?m" "cs_capacity s' = cs_capacity s"
    "cs_head s' = (if ce_prev e = None then ce_next e else cs_head s)"
    "cs_tail s' = (if ce_next e = None then ce_prev e else cs_tail s)"
    "r = (if ce_dirty e then Some (ce_page e) else None)"
    using r e by (auto simp: remove_entry_def unlinked_def Let_def split: if_splits)
  have "chain (bt_get ?m) None (us @ vs) None"
    using chain_unlinked [of "cs_entries s" us i vs e "bt_remove i (cs_entries s)"] inv e xs dist
    by (simp add: shard_inv_def)
  moreover have "cs_head s' = first (us @ vs) None" "cs_tail s' = final None (us @ vs)"
    using inv xs pn s'(3,4) by (cases us rule: rev_cases; cases us; cases vs; auto simp: shard_inv_def)+
  moreover have "set (us @ vs) = fst ` set ?m"
    using inv xs dist by (auto simp: shard_inv_def)
  ultimately show "shard_inv s' (remove1 i xs)"
    using inv dist rem s'(1) by (auto simp: shard_inv_def)
  show "shard_contents s' = (shard_contents s)(i := None)"
    by (auto simp: shard_contents_def s'(1) fun_eq_iff)
  show "cs_capacity s' = cs_capacity s"
    by (rule s')
  show "r = (case shard_contents s i of Some (p, d) \<Rightarrow> if d then Some p else None | None \<Rightarrow> None)"
    using e s'(5) by (simp add: shard_contents_def content_def)
qed

section \<open>Refinement of a least-recently-used list\<close>

text \<open>The specification of a shard: pages with their dirty bits, most recently used first.\<close>

type_synonym lru = "(page_id \<times> page \<times> bool) list"

definition lru_drop :: "page_id \<Rightarrow> lru \<Rightarrow> lru" where
  "lru_drop i l = filter (\<lambda>(j, v). j \<noteq> i) l"

definition lru_get :: "page_id \<Rightarrow> lru \<Rightarrow> page option \<times> lru" where
  "lru_get i l =
     (case map_of l i of None \<Rightarrow> (None, l) | Some v \<Rightarrow> (Some (fst v), (i, v) # lru_drop i l))"

definition lru_put :: "nat \<Rightarrow> page \<Rightarrow> bool \<Rightarrow> lru \<Rightarrow> page option \<times> lru" where
  "lru_put cap p dirty l =
     (let i = ph_page_id (pg_header p) in
      case map_of l i of
        Some (q, d) \<Rightarrow> (None, (i, p, d \<or> dirty) # lru_drop i l)
      | None \<Rightarrow>
          if length l \<ge> cap \<and> l \<noteq> []
          then (case last l of (j, q, d) \<Rightarrow> if d then Some q else None, (i, p, dirty) # butlast l)
          else (None, (i, p, dirty) # l))"

definition lru_mark :: "page_id \<Rightarrow> bool \<Rightarrow> lru \<Rightarrow> bool \<times> lru" where
  "lru_mark i b l = (i \<in> fst ` set l, map (\<lambda>(j, q, d). (j, q, if j = i then b else d)) l)"

definition lru_remove :: "page_id \<Rightarrow> lru \<Rightarrow> page option \<times> lru" where
  "lru_remove i l = (case map_of l i of Some (p, d) \<Rightarrow> if d then Some p else None | None \<Rightarrow> None, lru_drop i l)"

definition shard_view :: "cache_shard \<Rightarrow> lru" where
  "shard_view s = map (\<lambda>i. (i, the (shard_contents s i))) (shard_ids s)"

definition shard_wf :: "cache_shard \<Rightarrow> bool" where
  "shard_wf s \<longleftrightarrow> shard_inv s (shard_ids s)"

lemma shard_wfI: "shard_inv s xs \<Longrightarrow> shard_wf s"
  using shard_inv_ids [of s xs] by (simp add: shard_wf_def)

lemma shard_view_inv: "shard_inv s xs \<Longrightarrow> shard_view s = map (\<lambda>i. (i, the (shard_contents s i))) xs"
  by (simp add: shard_view_def shard_inv_ids)

lemma map_of_view:
  assumes "shard_inv s xs"
  shows "map_of (shard_view s) = shard_contents s"
proof
  fix i
  show "map_of (shard_view s) i = shard_contents s i"
    using shard_contents_None [OF assms, of i] unfolding shard_view_inv [OF assms]
    by (auto simp: map_of_map_restrict restrict_map_def)
qed

lemma lru_drop_map:
  assumes "distinct xs"
  shows "lru_drop i (map (\<lambda>j. (j, f j)) xs) = map (\<lambda>j. (j, f j)) (remove1 i xs)"
  using assms by (simp add: lru_drop_def filter_map o_def distinct_remove1_removeAll removeAll_filter_not_eq
      split_def neq_commute)

lemma shard_inv_distinct: "shard_inv s xs \<Longrightarrow> distinct xs"
  by (simp add: shard_inv_def)

lemma view_to_front:
  assumes "shard_inv s xs" and "i \<in> set xs" and "shard_inv s' (i # remove1 i xs)"
    and "shard_contents s' = (shard_contents s)(i \<mapsto> v)"
  shows "shard_view s' = (i, v) # lru_drop i (shard_view s)"
  unfolding shard_view_inv [OF assms(1)] shard_view_inv [OF assms(3)] assms(4)
    lru_drop_map [OF shard_inv_distinct [OF assms(1)]]
  using shard_inv_distinct [OF assms(1)] by auto

lemma shard_inv_stats [simp]: "shard_inv (s\<lparr>cs_stats := st\<rparr>) = shard_inv s"
  by (simp add: shard_inv_def fun_eq_iff)

lemma shard_contents_stats [simp]: "shard_contents (s\<lparr>cs_stats := st\<rparr>) = shard_contents s"
  by (simp add: shard_contents_def fun_eq_iff)

lemma shard_view_stats [simp]: "shard_view (s\<lparr>cs_stats := st\<rparr>) = shard_view s"
  by (simp add: shard_view_def shard_ids_def)

lemma shard_get_refines:
  assumes "shard_inv s xs" and "shard_get i s = (r, s')"
  shows "\<exists>ys. shard_inv s' ys" "(r, shard_view s') = lru_get i (shard_view s)" "cs_capacity s' = cs_capacity s"
proof -
  let ?s = "s\<lparr>cs_stats := (cs_stats s)\<lparr>st_hits := st_hits (cs_stats s) + 1\<rparr>\<rparr>"
  have "(\<exists>ys. shard_inv s' ys) \<and> (r, shard_view s') = lru_get i (shard_view s) \<and> cs_capacity s' = cs_capacity s"
  proof (cases "bt_get (cs_entries s) i")
    case None
    then have "shard_contents s i = None"
      by (simp add: shard_contents_def)
    then show ?thesis
      using assms None by (auto simp: shard_get_def lru_get_def map_of_view [OF assms(1)])
  next
    case (Some e)
    then have i: "i \<in> set xs" and c: "shard_contents s i = Some (content e)"
      using shard_inv_present [OF assms(1), of i] by (simp_all add: shard_contents_def)
    have s': "s' = move_to_front i ?s" "r = Some (ce_page e)"
      using assms(2) Some by (auto simp: shard_get_def)
    note mf = move_to_front_inv [of ?s xs i, simplified, OF assms(1) i, folded s'(1)]
    have "shard_view s' = (i, content e) # lru_drop i (shard_view s)"
      using mf(1,2) c by (intro view_to_front [OF assms(1) i]) auto
    then show ?thesis
      using mf c s'(2) by (auto simp: lru_get_def map_of_view [OF assms(1)] content_def)
  qed
  then show "\<exists>ys. shard_inv s' ys" "(r, shard_view s') = lru_get i (shard_view s)" "cs_capacity s' = cs_capacity s"
    by blast+
qed

lemma chain_same_pointers:
  "E i = Some e \<Longrightarrow> ce_prev e' = ce_prev e \<Longrightarrow> ce_next e' = ce_next e \<Longrightarrow>
     chain (E(i \<mapsto> e')) p xs n = chain E p xs n"
  by (induction E p xs n rule: chain.induct) auto

lemma shard_inv_update:
  assumes "shard_inv s xs" and "bt_get (cs_entries s) i = Some e"
    and "ce_prev e' = ce_prev e" and "ce_next e' = ce_next e"
  shows "shard_inv (s\<lparr>cs_entries := bt_insert i e' (cs_entries s)\<rparr>) xs"
proof -
  have "i \<in> fst ` set (cs_entries s)"
    using assms(2) bt_get_None_iff [of "cs_entries s" i] by simp
  then show ?thesis
    using assms chain_same_pointers [of "bt_get (cs_entries s)" i e e'] by (auto simp: shard_inv_def)
qed

lemma shard_contents_update [simp]:
  "shard_contents (s\<lparr>cs_entries := bt_insert i e (cs_entries s)\<rparr>) = (shard_contents s)(i \<mapsto> content e)"
  by (auto simp: shard_contents_def)

lemma evict_lru_inv:
  assumes inv: "shard_inv s xs" and r: "evict_lru s = (r, s')"
  shows "shard_inv s' (butlast xs)" "cs_capacity s' = cs_capacity s"
    "shard_contents s' = (if xs = [] then shard_contents s else (shard_contents s)(last xs := None))"
    "r = (if xs = [] then None else case shard_contents s (last xs) of
            Some (p, d) \<Rightarrow> if d then Some p else None | None \<Rightarrow> None)"
proof -
  let ?s = "s\<lparr>cs_stats := (cs_stats s)\<lparr>st_evictions := st_evictions (cs_stats s) + 1\<rparr>\<rparr>"
  have "shard_inv s' (butlast xs) \<and> cs_capacity s' = cs_capacity s \<and>
      shard_contents s' = (if xs = [] then shard_contents s else (shard_contents s)(last xs := None)) \<and>
      r = (if xs = [] then None else case shard_contents s (last xs) of
            Some (p, d) \<Rightarrow> if d then Some p else None | None \<Rightarrow> None)"
  proof (cases xs rule: rev_cases)
    case Nil
    then show ?thesis
      using inv r by (auto simp: evict_lru_def shard_inv_def)
  next
    case (snoc us u)
    have "remove1 u (us @ [u]) = us"
      using shard_inv_distinct [OF inv] snoc by (simp add: remove1_append)
    moreover have "remove_entry u ?s = (r, s')"
      using inv r snoc by (simp add: evict_lru_def shard_inv_def)
    ultimately show ?thesis
      using remove_entry_inv [of ?s xs u r s'] inv snoc by simp
  qed
  then show "shard_inv s' (butlast xs)" "cs_capacity s' = cs_capacity s"
    "shard_contents s' = (if xs = [] then shard_contents s else (shard_contents s)(last xs := None))"
    "r = (if xs = [] then None else case shard_contents s (last xs) of
            Some (p, d) \<Rightarrow> if d then Some p else None | None \<Rightarrow> None)"
    by blast+
qed

text \<open>Inserting a new entry in front of a well-formed shard that lacks it.\<close>

lemma push_front_inv:
  assumes inv: "shard_inv s xs" and "i \<notin> set xs"
    and s': "s' = s\<lparr>cs_entries := alter_at (cs_head s) (ce_prev_update (\<lambda>_. Some i))
        (bt_insert i \<lparr>ce_page = p, ce_dirty = dirty, ce_prev = None, ce_next = cs_head s\<rparr> (cs_entries s)),
      cs_head := Some i, cs_tail := (if cs_tail s = None then Some i else cs_tail s), cs_stats := st\<rparr>"
  shows "shard_inv s' (i # xs)" "shard_contents s' = (shard_contents s)(i \<mapsto> (p, dirty))"
proof -
  let ?e = "\<lparr>ce_page = p, ce_dirty = dirty, ce_prev = None, ce_next = cs_head s\<rparr>"
  have "chain (bt_get (bt_insert i ?e (cs_entries s))) None xs None"
    using inv assms(2) by (simp add: shard_inv_def)
  then have "chain (bt_get (cs_entries s')) None (i # xs) None"
    using chain_front [of "bt_insert i ?e (cs_entries s)" xs i ?e] inv assms(2) s' by (simp add: shard_inv_def)
  moreover have "cs_tail s' = final None (i # xs)"
    using inv s' by (cases xs rule: rev_cases) (auto simp: shard_inv_def)
  ultimately show "shard_inv s' (i # xs)"
    using inv assms(2) s' by (auto simp: shard_inv_def)
  show "shard_contents s' = (shard_contents s)(i \<mapsto> (p, dirty))"
    unfolding s' by (auto simp: shard_contents_def fun_eq_iff content_alter_at content_def)
qed

lemma shard_put_refines:
  assumes inv: "shard_inv s xs" and r: "shard_put p dirty s = (r, s')"
  shows "\<exists>ys. shard_inv s' ys" "(r, shard_view s') = lru_put (cs_capacity s) p dirty (shard_view s)"
    "cs_capacity s' = cs_capacity s"
proof -
  let ?i = "ph_page_id (pg_header p)"
  have "(\<exists>ys. shard_inv s' ys) \<and> (r, shard_view s') = lru_put (cs_capacity s) p dirty (shard_view s) \<and>
    cs_capacity s' = cs_capacity s"
  proof (cases "bt_get (cs_entries s) ?i")
    case (Some e)
    let ?e = "e\<lparr>ce_page := p, ce_dirty := (ce_dirty e \<or> dirty)\<rparr>"
    let ?s = "s\<lparr>cs_entries := bt_insert ?i ?e (cs_entries s)\<rparr>"
    have i: "?i \<in> set xs" and c: "shard_contents s ?i = Some (content e)"
      using shard_inv_present [OF inv, of ?i] Some by (simp_all add: shard_contents_def)
    have s': "s' = move_to_front ?i ?s" "r = None"
      using r Some by (auto simp: shard_put_def Let_def)
    have "shard_inv ?s xs"
      using shard_inv_update [OF inv Some] by simp
    note mf = move_to_front_inv [OF this i, folded s'(1)]
    have "shard_view s' = (?i, content ?e) # lru_drop ?i (shard_view s)"
      using mf(1,2) by (intro view_to_front [OF inv i]) auto
    then show ?thesis
      using mf c s'(2) by (auto simp: lru_put_def map_of_view [OF inv] content_def Let_def)
  next
    case None
    then have i: "?i \<notin> set xs" and c: "shard_contents s ?i = None"
      using shard_inv_present [OF inv, of ?i] by (simp_all add: shard_contents_def)
    define full where "full \<longleftrightarrow> length (cs_entries s) \<ge> cs_capacity s"
    obtain r1 s1 where ev: "(if full then evict_lru s else (None, s)) = (r1, s1)"
      by (metis surj_pair)
    define ys where "ys = (if full then butlast xs else xs)"
    have i': "?i \<notin> set ys"
      using i by (auto simp: ys_def dest: in_set_butlastD)
    have s1: "shard_inv s1 ys" "cs_capacity s1 = cs_capacity s"
      using evict_lru_inv(1,2) [OF inv, of r1 s1] ev inv by (auto simp: ys_def split: if_splits)
    have same: "shard_contents s1 j = shard_contents s j" if "j \<in> set ys" for j
      using evict_lru_inv(3) [OF inv, of r1 s1] ev that shard_inv_distinct [OF inv]
      by (cases xs rule: rev_cases) (auto simp: ys_def split: if_splits)
    have r1: "r1 = (if full \<and> xs \<noteq> [] then case last (shard_view s) of (j, q, d) \<Rightarrow> if d then Some q else None
        else None)"
      using evict_lru_inv(4) [OF inv, of r1 s1] ev shard_contents_None [OF inv, of "last xs"]
      unfolding shard_view_inv [OF inv] by (auto simp: last_map split: if_splits)
    have s': "r = r1" "cs_capacity s' = cs_capacity s1"
      using r None ev by (auto simp: shard_put_def full_def Let_def)
    obtain st where "s' = s1\<lparr>cs_entries := alter_at (cs_head s1) (ce_prev_update (\<lambda>_. Some ?i))
        (bt_insert ?i \<lparr>ce_page = p, ce_dirty = dirty, ce_prev = None, ce_next = cs_head s1\<rparr> (cs_entries s1)),
      cs_head := Some ?i, cs_tail := (if cs_tail s1 = None then Some ?i else cs_tail s1), cs_stats := st\<rparr>"
      using r None ev by (auto simp: shard_put_def full_def Let_def)
    note pf = push_front_inv [OF s1(1) i' this]
    have "shard_view s' = (?i, p, dirty) # (if full then butlast (shard_view s) else shard_view s)"
      unfolding shard_view_inv [OF pf(1)] pf(2) shard_view_inv [OF inv]
      using i' same by (auto simp: ys_def map_butlast [symmetric])
    moreover have "length (shard_view s) = length (cs_entries s)" "xs = [] \<longleftrightarrow> shard_view s = []"
      using shard_inv_length [OF inv] by (simp_all add: shard_view_inv [OF inv])
    moreover have "map_of (shard_view s) ?i = None"
      using c by (simp add: map_of_view [OF inv])
    ultimately show ?thesis
      using pf(1) s' s1(2) r1 by (auto simp: lru_put_def Let_def full_def)
  qed
  then show "\<exists>ys. shard_inv s' ys" "(r, shard_view s') = lru_put (cs_capacity s) p dirty (shard_view s)"
    "cs_capacity s' = cs_capacity s"
    by blast+
qed

lemma shard_remove_refines:
  assumes inv: "shard_inv s xs" and r: "remove_entry i s = (r, s')"
  shows "\<exists>ys. shard_inv s' ys" "(r, shard_view s') = lru_remove i (shard_view s)" "cs_capacity s' = cs_capacity s"
proof -
  have "(\<exists>ys. shard_inv s' ys) \<and> (r, shard_view s') = lru_remove i (shard_view s) \<and> cs_capacity s' = cs_capacity s"
  proof (cases "i \<in> set xs")
    case True
    note re = remove_entry_inv [OF inv True r]
    have "shard_view s' = lru_drop i (shard_view s)"
      unfolding shard_view_inv [OF inv] shard_view_inv [OF re(1)] re(2)
        lru_drop_map [OF shard_inv_distinct [OF inv]]
      using shard_inv_distinct [OF inv] by auto
    then show ?thesis
      using re by (auto simp: lru_remove_def map_of_view [OF inv])
  next
    case False
    then have "bt_get (cs_entries s) i = None" "shard_contents s i = None"
      using shard_inv_present [OF inv, of i] shard_contents_None [OF inv, of i] by simp_all
    moreover have "lru_drop i (shard_view s) = shard_view s"
      using False shard_inv_distinct [OF inv] unfolding shard_view_inv [OF inv]
      by (simp add: lru_drop_map remove1_idem)
    ultimately show ?thesis
      using inv r map_of_view [OF inv] by (auto simp: remove_entry_def lru_remove_def)
  qed
  then show "\<exists>ys. shard_inv s' ys" "(r, shard_view s') = lru_remove i (shard_view s)" "cs_capacity s' = cs_capacity s"
    by blast+
qed

lemma view_mark:
  assumes inv: "shard_inv s xs" and e: "bt_get (cs_entries s) i = Some e"
  shows "shard_view (s\<lparr>cs_entries := bt_insert i (e\<lparr>ce_dirty := b\<rparr>) (cs_entries s), cs_stats := st\<rparr>) =
    snd (lru_mark i b (shard_view s))"
proof -
  let ?s = "s\<lparr>cs_entries := bt_insert i (e\<lparr>ce_dirty := b\<rparr>) (cs_entries s)\<rparr>"
  have inv': "shard_inv ?s xs"
    using shard_inv_update [OF inv e] by simp
  have "the (((shard_contents s)(i \<mapsto> content (e\<lparr>ce_dirty := b\<rparr>))) j) =
      (case the (shard_contents s j) of (q, d) \<Rightarrow> (q, if j = i then b else d))" for j
    using e by (auto simp: content_def shard_contents_def split: prod.splits)
  then have "shard_view ?s = snd (lru_mark i b (shard_view s))"
    unfolding shard_view_inv [OF inv] shard_view_inv [OF inv'] shard_contents_update
    by (auto simp: lru_mark_def split: prod.splits)
  then show ?thesis
    using shard_view_stats [of st ?s] by simp
qed

lemma lru_mark_same:
  assumes inv: "shard_inv s xs" and "shard_contents s i = None \<or> shard_contents s i = Some (q, b)"
  shows "lru_mark i b (shard_view s) = (shard_contents s i \<noteq> None, shard_view s)"
proof -
  have "snd (the (shard_contents s i)) = b" if "i \<in> set xs"
    using assms(2) shard_contents_None [OF inv, of i] that by auto
  then show ?thesis
    using shard_contents_None [OF inv, of i] unfolding shard_view_inv [OF inv]
    by (auto simp: lru_mark_def image_image split: prod.splits)
qed

lemma lru_mark_fst: "shard_inv s xs \<Longrightarrow> fst (lru_mark i b (shard_view s)) \<longleftrightarrow> shard_contents s i \<noteq> None"
  using shard_contents_None [of s xs i] by (simp add: lru_mark_def shard_view_inv image_image)

lemma shard_mark_refines:
  assumes inv: "shard_inv s xs" and r: "shard_mark_dirty i s = (r, s') \<and> b \<or> shard_mark_clean i s = (r, s') \<and> \<not> b"
  shows "\<exists>ys. shard_inv s' ys" "(r, shard_view s') = lru_mark i b (shard_view s)" "cs_capacity s' = cs_capacity s"
proof -
  have "(\<exists>ys. shard_inv s' ys) \<and> (r, shard_view s') = lru_mark i b (shard_view s) \<and> cs_capacity s' = cs_capacity s"
  proof (cases "bt_get (cs_entries s) i")
    case None
    then have "shard_contents s i = None"
      by (simp add: shard_contents_def)
    with None show ?thesis
      using inv r lru_mark_same [OF inv, of i] by (auto simp: shard_mark_dirty_def shard_mark_clean_def)
  next
    case (Some e)
    then have c: "shard_contents s i = Some (ce_page e, ce_dirty e)"
      by (simp add: shard_contents_def content_def)
    show ?thesis
    proof (cases "ce_dirty e = b")
      case True
      then show ?thesis
        using inv r Some c lru_mark_same [OF inv, of i "ce_page e" b]
        by (auto simp: shard_mark_dirty_def shard_mark_clean_def)
    next
      case False
      define st where "st = cs_stats s'"
      have "r" and s': "s' = s\<lparr>cs_entries := bt_insert i (e\<lparr>ce_dirty := b\<rparr>) (cs_entries s), cs_stats := st\<rparr>"
        using r Some False by (auto simp: shard_mark_dirty_def shard_mark_clean_def st_def)
      moreover have "shard_inv s' xs"
        using shard_inv_update [OF inv Some, of "e\<lparr>ce_dirty := b\<rparr>"]
          shard_inv_stats [of st "s\<lparr>cs_entries := bt_insert i (e\<lparr>ce_dirty := b\<rparr>) (cs_entries s)\<rparr>"] unfolding s' by simp
      ultimately show ?thesis
        using view_mark [OF inv Some, of st b] lru_mark_fst [OF inv, of i b] c by (cases "lru_mark i b (shard_view s)") auto
    qed
  qed
  then show "\<exists>ys. shard_inv s' ys" "(r, shard_view s') = lru_mark i b (shard_view s)" "cs_capacity s' = cs_capacity s"
    by blast+
qed

section \<open>Runs of the whole cache\<close>

datatype cache_op =
    CGet page_id
  | CPut page bool
  | CMark page_id bool
  | CRemove page_id
  | CClear
  | CResetStats

datatype cache_out = OutPage "page option" | OutFlag bool | OutDirty "(page_id \<times> page) set" | OutUnit

fun cache_apply :: "cache_op \<Rightarrow> page_cache \<Rightarrow> cache_out \<times> page_cache" where
  "cache_apply (CGet i) c = map_prod OutPage id (cache_get i c)"
| "cache_apply (CPut p d) c = map_prod OutPage id (cache_put p d c)"
| "cache_apply (CMark i b) c = map_prod OutFlag id (if b then mark_dirty i c else mark_clean i c)"
| "cache_apply (CRemove i) c = map_prod OutPage id (cache_remove i c)"
| "cache_apply CClear c = map_prod (\<lambda>ps. OutDirty (set ps)) id (cache_clear c)"
| "cache_apply CResetStats c = (OutUnit, reset_stats c)"

fun cache_run :: "cache_op list \<Rightarrow> page_cache \<Rightarrow> cache_out list \<times> page_cache" where
  "cache_run [] c = ([], c)"
| "cache_run (x # xs) c = (let (out, c) = cache_apply x c; (outs, c) = cache_run xs c in (out # outs, c))"

text \<open>The same on 32 lists.\<close>

definition on_list :: "page_id \<Rightarrow> (lru \<Rightarrow> 'a \<times> lru) \<Rightarrow> lru list \<Rightarrow> 'a \<times> lru list" where
  "on_list i f ls = (let k = shard_index i; (r, l) = f (ls ! k) in (r, ls[k := l]))"

definition lru_dirty :: "lru \<Rightarrow> (page_id \<times> page) set" where
  "lru_dirty l = {(i, p). (i, p, True) \<in> set l}"

fun lru_apply :: "nat \<Rightarrow> cache_op \<Rightarrow> lru list \<Rightarrow> cache_out \<times> lru list" where
  "lru_apply cap (CGet i) ls = map_prod OutPage id (on_list i (lru_get i) ls)"
| "lru_apply cap (CPut p d) ls = map_prod OutPage id (on_list (ph_page_id (pg_header p)) (lru_put cap p d) ls)"
| "lru_apply cap (CMark i b) ls = map_prod OutFlag id (on_list i (lru_mark i b) ls)"
| "lru_apply cap (CRemove i) ls = map_prod OutPage id (on_list i (lru_remove i) ls)"
| "lru_apply cap CClear ls = (OutDirty (\<Union>l\<in>set ls. lru_dirty l), map (\<lambda>_. []) ls)"
| "lru_apply cap CResetStats ls = (OutUnit, ls)"

fun lru_run :: "nat \<Rightarrow> cache_op list \<Rightarrow> lru list \<Rightarrow> cache_out list \<times> lru list" where
  "lru_run cap [] ls = ([], ls)"
| "lru_run cap (x # xs) ls = (let (out, ls) = lru_apply cap x ls; (outs, ls) = lru_run cap xs ls in (out # outs, ls))"

definition cache_view :: "page_cache \<Rightarrow> lru list" where
  "cache_view c = map shard_view (pc_shards c)"

definition cache_wf :: "nat \<Rightarrow> page_cache \<Rightarrow> bool" where
  "cache_wf cap c \<longleftrightarrow>
     length (pc_shards c) = num_shards \<and> (\<forall>s\<in>set (pc_shards c). (\<exists>xs. shard_inv s xs) \<and> cs_capacity s = cap)"

lemma shard_index_less [simp]: "shard_index i < num_shards"
  by (simp add: shard_index_def num_shards_def)

lemma on_shard_refines:
  assumes wf: "cache_wf cap c" and r: "on_shard i f c = (r, c')"
    and f: "\<And>s xs r s'. shard_inv s xs \<Longrightarrow> cs_capacity s = cap \<Longrightarrow> f s = (r, s') \<Longrightarrow>
      (\<exists>ys. shard_inv s' ys) \<and> cs_capacity s' = cap \<and> g (shard_view s) = (r, shard_view s')"
  shows "cache_wf cap c' \<and> on_list i g (cache_view c) = (r, cache_view c')"
proof -
  let ?k = "shard_index i"
  have len: "?k < length (pc_shards c)"
    using wf by (simp add: cache_wf_def)
  obtain s' where s': "f (pc_shards c ! ?k) = (r, s')" "c' = c\<lparr>pc_shards := (pc_shards c)[?k := s']\<rparr>"
    using r by (auto simp: on_shard_def Let_def split: prod.splits)
  have "pc_shards c ! ?k \<in> set (pc_shards c)"
    using len by simp
  then obtain xs where "shard_inv (pc_shards c ! ?k) xs" "cs_capacity (pc_shards c ! ?k) = cap"
    using wf unfolding cache_wf_def by blast
  from f [OF this s'(1)] show ?thesis
    using wf len s'(2)
    by (auto simp: cache_wf_def cache_view_def on_list_def map_update dest!: set_update_subset_insert [THEN subsetD])
qed

lemma shard_clear_refines:
  assumes "shard_inv s xs"
  shows "shard_inv (snd (shard_clear s)) []" "shard_view (snd (shard_clear s)) = []"
    "set (fst (shard_clear s)) = lru_dirty (shard_view s)"
proof -
  show inv: "shard_inv (snd (shard_clear s)) []"
    by (simp add: shard_clear_def shard_inv_def)
  show "shard_view (snd (shard_clear s)) = []"
    by (simp add: shard_view_inv [OF inv])
  have "(i, p) \<in> set (shard_dirty_pages s) \<longleftrightarrow> shard_contents s i = Some (p, True)" for i p
    using assms by (force simp: shard_dirty_pages_def shard_contents_def shard_inv_def bt_get_Some_iff content_def)
  moreover have "shard_contents s i = Some (p, True) \<longleftrightarrow> (i, p, True) \<in> set (shard_view s)" for i p
    using shard_contents_None [OF assms, of i] unfolding shard_view_inv [OF assms] by force
  ultimately show "set (fst (shard_clear s)) = lru_dirty (shard_view s)"
    by (auto simp: shard_clear_def lru_dirty_def)
qed

lemma shard_dirty_pages_view: "shard_inv s xs \<Longrightarrow> set (shard_dirty_pages s) = lru_dirty (shard_view s)"
  using shard_clear_refines(3) [of s xs] by (simp add: shard_clear_def)

lemma cache_get_refines:
  assumes "cache_wf cap c" and "cache_get i c = (r, c')"
  shows "cache_wf cap c' \<and> on_list i (lru_get i) (cache_view c) = (r, cache_view c')"
proof (rule on_shard_refines [OF assms(1) assms(2) [unfolded cache_get_def]], goal_cases)
  case (1 s xs r s')
  then show ?case
    using shard_get_refines [of s xs i r s'] by auto
qed

lemma cache_put_refines:
  assumes "cache_wf cap c" and "cache_put p d c = (r, c')"
  shows "cache_wf cap c' \<and> on_list (ph_page_id (pg_header p)) (lru_put cap p d) (cache_view c) = (r, cache_view c')"
proof (rule on_shard_refines [OF assms(1) assms(2) [unfolded cache_put_def]], goal_cases)
  case (1 s xs r s')
  then show ?case
    using shard_put_refines [of s xs p d r s'] by auto
qed

lemma cache_mark_refines:
  assumes "cache_wf cap c" and "(if b then mark_dirty i c else mark_clean i c) = (r, c')"
  shows "cache_wf cap c' \<and> on_list i (lru_mark i b) (cache_view c) = (r, cache_view c')"
proof -
  have "on_shard i (if b then shard_mark_dirty i else shard_mark_clean i) c = (r, c')"
    using assms(2) by (auto simp: mark_dirty_def mark_clean_def split: if_splits)
  then show ?thesis
  proof (rule on_shard_refines [OF assms(1)], goal_cases)
    case (1 s xs r s')
    then show ?case
      using shard_mark_refines [of s xs i r s' b] by (auto split: if_splits)
  qed
qed

lemma cache_remove_refines:
  assumes "cache_wf cap c" and "cache_remove i c = (r, c')"
  shows "cache_wf cap c' \<and> on_list i (lru_remove i) (cache_view c) = (r, cache_view c')"
proof (rule on_shard_refines [OF assms(1) assms(2) [unfolded cache_remove_def]], goal_cases)
  case (1 s xs r s')
  then show ?case
    using shard_remove_refines [of s xs i r s'] by auto
qed

lemma map_prod_eq_iff: "map_prod f id x = (a, b) \<longleftrightarrow> (\<exists>r. x = (r, b) \<and> a = f r)"
  by (cases x) auto

lemma cache_apply_refines:
  assumes wf: "cache_wf cap c" and r: "cache_apply x c = (out, c')"
  shows "cache_wf cap c' \<and> lru_apply cap x (cache_view c) = (out, cache_view c')"
proof (cases x)
  case (CGet i)
  then show ?thesis
    using r cache_get_refines [OF wf] by (auto simp: map_prod_eq_iff)
next
  case (CPut p d)
  then show ?thesis
    using r cache_put_refines [OF wf] by (auto simp: map_prod_eq_iff)
next
  case (CMark i b)
  then show ?thesis
    using r cache_mark_refines [OF wf, of b i] by (auto simp: map_prod_eq_iff)
next
  case (CRemove i)
  then show ?thesis
    using r cache_remove_refines [OF wf] by (auto simp: map_prod_eq_iff)
next
  case CClear
  have inv: "\<exists>xs. shard_inv s xs" if "s \<in> set (pc_shards c)" for s
    using wf that by (auto simp: cache_wf_def)
  have "cs_capacity (snd (shard_clear s)) = cs_capacity s" for s
    by (simp add: shard_clear_def)
  moreover have "shard_view (snd (shard_clear s)) = []" "set (fst (shard_clear s)) = lru_dirty (shard_view s)"
    "\<exists>ys. shard_inv (snd (shard_clear s)) ys" if "s \<in> set (pc_shards c)" for s
    using inv [OF that] shard_clear_refines by blast+
  ultimately show ?thesis
    using CClear r wf by (auto simp: cache_clear_def cache_wf_def cache_view_def)
next
  case CResetStats
  then show ?thesis
    using r wf by (auto simp: reset_stats_def cache_wf_def cache_view_def)
qed

lemma cache_run_refines:
  "cache_wf cap c \<Longrightarrow> cache_run xs c = (outs, c') \<Longrightarrow>
     cache_wf cap c' \<and> lru_run cap xs (cache_view c) = (outs, cache_view c')"
proof (induction xs arbitrary: c outs)
  case (Cons x xs)
  then show ?case
    using cache_apply_refines [OF Cons.prems(1), of x] by (fastforce split: prod.splits)
qed simp

lemma cache_new_wf:
  "cache_wf ((cc_capacity cfg + 31) div 32) (cache_new cfg)"
  "cache_view (cache_new cfg) = replicate num_shards []"
proof -
  have inv: "shard_inv (shard_new n) []" for n
    by (simp add: shard_inv_def shard_new_def)
  then show "cache_wf ((cc_capacity cfg + 31) div 32) (cache_new cfg)"
    by (auto simp: cache_wf_def cache_new_def num_shards_def shard_new_def)
  show "cache_view (cache_new cfg) = replicate num_shards []"
    using shard_view_inv [OF inv] by (simp add: cache_view_def cache_new_def)
qed

section \<open>The contract with the pager\<close>

text \<open>
  What the pager relies on, and what follows: however pages are evicted, a cache whose dirty victims
  are written back hides no write. \<open>lookup\<close> is what the cache holds under an id, with its dirty bit.
\<close>

locale write_back_cache =
  fixes get :: "page_id \<Rightarrow> 'c \<Rightarrow> page option \<times> 'c"
    and put :: "page \<Rightarrow> bool \<Rightarrow> 'c \<Rightarrow> page option \<times> 'c"
    and clean :: "page_id \<Rightarrow> 'c \<Rightarrow> bool \<times> 'c"
    and lookup :: "'c \<Rightarrow> page_id \<Rightarrow> (page \<times> bool) option"
    and wf :: "'c \<Rightarrow> bool"
  assumes lookup_key: "wf c \<Longrightarrow> lookup c i = Some (p, d) \<Longrightarrow> ph_page_id (pg_header p) = i"
    and get_law: "wf c \<Longrightarrow> get i c = (r, c') \<Longrightarrow> wf c' \<and> r = map_option fst (lookup c i) \<and> lookup c' = lookup c"
    and put_law: "wf c \<Longrightarrow> put p d c = (ev, c') \<Longrightarrow> wf c' \<and>
      lookup c' (ph_page_id (pg_header p)) =
        Some (p, d \<or> (case lookup c (ph_page_id (pg_header p)) of Some (q, b) \<Rightarrow> b | None \<Rightarrow> False)) \<and>
      (\<forall>j. j \<noteq> ph_page_id (pg_header p) \<longrightarrow>
        lookup c' j = lookup c j \<or>
        lookup c' j = None \<and> (\<forall>q. lookup c j = Some (q, True) \<longrightarrow> ev = Some q)) \<and>
      (\<forall>q. ev = Some q \<longrightarrow> ph_page_id (pg_header q) \<noteq> ph_page_id (pg_header p) \<and>
        lookup c (ph_page_id (pg_header q)) = Some (q, True))"
    and clean_law: "wf c \<Longrightarrow> clean i c = (found, c') \<Longrightarrow> wf c' \<and>
      lookup c' = (lookup c)(i := map_option (\<lambda>(q, b). (q, False)) (lookup c i))"
begin

text \<open>
  What a read through the cache sees, for a store behind it. Pages are compared through \<open>k\<close>: a stored
  page has its two sizes filled in, a cached one may not.
\<close>

definition seen :: "(page \<Rightarrow> 'p) \<Rightarrow> (page_id \<Rightarrow> 'p option) \<Rightarrow> 'c \<Rightarrow> page_id \<Rightarrow> 'p option" where
  "seen k disk c i = (case lookup c i of Some (q, b) \<Rightarrow> Some (k q) | None \<Rightarrow> disk i)"

definition coherent :: "(page \<Rightarrow> 'p) \<Rightarrow> (page_id \<Rightarrow> 'p option) \<Rightarrow> 'c \<Rightarrow> bool" where
  "coherent k disk c \<longleftrightarrow> wf c \<and> (\<forall>i q. lookup c i = Some (q, False) \<longrightarrow> disk i = Some (k q))"

definition written_back :: "(page \<Rightarrow> 'p) \<Rightarrow> page option \<Rightarrow> (page_id \<Rightarrow> 'p option) \<Rightarrow> page_id \<Rightarrow> 'p option" where
  "written_back k ev disk = (case ev of None \<Rightarrow> disk | Some q \<Rightarrow> disk(ph_page_id (pg_header q) \<mapsto> k q))"

lemma seen_disk: "coherent k disk c \<Longrightarrow> (\<And>q. lookup c i \<noteq> Some (q, True)) \<Longrightarrow> seen k disk c i = disk i"
  by (auto simp: coherent_def seen_def split: option.splits)

lemma get_coherent:
  assumes "coherent k disk c" and "get i c = (r, c')"
  shows "coherent k disk c' \<and> seen k disk c' = seen k disk c \<and> (\<forall>q. r = Some q \<longrightarrow> seen k disk c i = Some (k q))"
  using assms get_law [of c i r c'] by (auto simp: coherent_def seen_def fun_eq_iff split: option.splits)

lemma put_coherent:
  assumes coh: "coherent k disk c" and p: "put p d c = (ev, c')"
    and d: "d \<or> disk (ph_page_id (pg_header p)) = Some (k p)"
  shows "coherent k (written_back k ev disk) c' \<and>
    seen k (written_back k ev disk) c' = (seen k disk c)(ph_page_id (pg_header p) \<mapsto> k p)"
proof -
  let ?i = "ph_page_id (pg_header p)" and ?disk = "written_back k ev disk"
  have wf: "wf c"
    using coh by (simp add: coherent_def)
  note law = put_law [OF wf p]
  have other: "seen k ?disk c' j = seen k disk c j \<and> (\<forall>q. lookup c' j = Some (q, False) \<longrightarrow> ?disk j = Some (k q))"
    if "j \<noteq> ?i" for j
  proof (cases "lookup c' j = lookup c j")
    case True
    then show ?thesis
      using coh law that by (auto simp: seen_def coherent_def written_back_def split: option.splits)
  next
    case False
    then have gone: "lookup c' j = None" and ev: "lookup c j = Some (q, True) \<Longrightarrow> ev = Some q" for q
      using law that by blast+
    have dirty: "lookup c j = Some (q, True)" if "ev = Some q" "ph_page_id (pg_header q) = j" for q
      using law that by blast
    have "?disk j = seen k disk c j"
    proof (cases "\<exists>q. lookup c j = Some (q, True)")
      case True
      then obtain q where "lookup c j = Some (q, True)" by blast
      then show ?thesis
        using ev lookup_key [OF wf, of j q] by (simp add: written_back_def seen_def)
    next
      case False
      then have "?disk j = disk j"
        using dirty by (cases ev) (auto simp: written_back_def)
      then show ?thesis
        using False seen_disk [OF coh, of j] by simp
    qed
    then show ?thesis
      using gone by (simp add: seen_def)
  qed
  have here: "\<forall>q. lookup c' ?i = Some (q, False) \<longrightarrow> ?disk ?i = Some (k q)"
    using law d by (auto simp: written_back_def split: option.splits)
  have "coherent k ?disk c'"
    unfolding coherent_def using law here other by metis
  moreover have "seen k ?disk c' j = ((seen k disk c)(?i \<mapsto> k p)) j" for j
    using law other [of j] by (cases "j = ?i") (auto simp: seen_def)
  ultimately show ?thesis
    by blast
qed

lemma clean_coherent:
  assumes "coherent k disk c" and "clean i c = (found, c')" and "disk i = seen k disk c i"
  shows "coherent k disk c' \<and> seen k disk c' = seen k disk c"
  using assms clean_law [of c i found c'] by (auto simp: coherent_def seen_def fun_eq_iff split: option.splits)

end

text \<open>The cache keeps it: pages stay under their own id, and an id has one shard.\<close>

definition lru_lookup :: "lru list \<Rightarrow> page_id \<Rightarrow> (page \<times> bool) option" where
  "lru_lookup ls i = map_of (ls ! shard_index i) i"

definition keyed :: "lru \<Rightarrow> bool" where
  "keyed l \<longleftrightarrow> distinct (map fst l) \<and> (\<forall>x\<in>set l. ph_page_id (pg_header (fst (snd x))) = fst x)"

definition lru_keyed :: "lru list \<Rightarrow> bool" where
  "lru_keyed ls \<longleftrightarrow> length ls = num_shards \<and>
     (\<forall>k<num_shards. keyed (ls ! k) \<and> (\<forall>i\<in>fst ` set (ls ! k). shard_index i = k))"

definition cache_lookup :: "page_cache \<Rightarrow> page_id \<Rightarrow> (page \<times> bool) option" where
  "cache_lookup c = lru_lookup (cache_view c)"

definition cache_ok :: "nat \<Rightarrow> page_cache \<Rightarrow> bool" where
  "cache_ok cap c \<longleftrightarrow> cache_wf cap c \<and> lru_keyed (cache_view c)"

lemma map_of_lru_drop: "map_of (lru_drop i l) j = (if j = i then None else map_of l j)"
  by (induction l) (auto simp: lru_drop_def)

lemma keyed_lru_drop: "keyed l \<Longrightarrow> keyed (lru_drop i l) \<and> i \<notin> fst ` set (lru_drop i l)"
  by (auto simp: keyed_def lru_drop_def distinct_map inj_on_def)

lemma on_list_keyed:
  assumes "lru_keyed ls" and "on_list i f ls = (r, ls')"
    and f: "\<And>l r l'. keyed l \<Longrightarrow> f l = (r, l') \<Longrightarrow> keyed l' \<and> fst ` set l' \<subseteq> insert i (fst ` set l)"
  shows "lru_keyed ls'"
proof -
  let ?l = "ls ! shard_index i"
  obtain l' where l': "f ?l = (r, l')" "ls' = ls[shard_index i := l']"
    using assms(2) by (auto simp: on_list_def Let_def split: prod.splits)
  have "keyed ?l" and idx: "\<forall>j\<in>fst ` set ?l. shard_index j = shard_index i"
    using assms(1) by (simp_all add: lru_keyed_def)
  then have "keyed l'" "\<forall>j\<in>fst ` set l'. shard_index j = shard_index i"
    using f l'(1) by blast+
  then show ?thesis
    using assms(1) l'(2) by (auto simp: lru_keyed_def nth_list_update)
qed

lemma on_list_lookup:
  assumes "lru_keyed ls" and "on_list i f ls = (r, ls')"
  shows "r = fst (f (ls ! shard_index i))"
    "lru_lookup ls' j = (if shard_index j = shard_index i then map_of (snd (f (ls ! shard_index i))) j else lru_lookup ls j)"
  using assms by (auto simp: lru_keyed_def on_list_def lru_lookup_def Let_def nth_list_update split: prod.splits)

lemma keyed_Cons [simp]: "keyed ((i, p, d) # l) \<longleftrightarrow> ph_page_id (pg_header p) = i \<and> i \<notin> fst ` set l \<and> keyed l"
  by (auto simp: keyed_def)

lemma keyed_map_of: "keyed l \<Longrightarrow> map_of l i = Some (p, d) \<Longrightarrow> ph_page_id (pg_header p) = i"
  by (auto simp: keyed_def dest!: map_of_SomeD)

lemma lru_get_keyed: "keyed l \<Longrightarrow> lru_get i l = (r, l') \<Longrightarrow> keyed l'"
  using keyed_lru_drop [of l i] keyed_map_of [of l i] by (auto simp: lru_get_def split: option.splits)

lemma lru_get_map: "lru_get i l = (r, l') \<Longrightarrow> map_of l' = map_of l \<and> r = map_option fst (map_of l i)"
  by (auto simp: lru_get_def map_of_lru_drop fun_eq_iff split: option.splits)

lemma lru_mark_keyed: "keyed l \<Longrightarrow> lru_mark i b l = (r, l') \<Longrightarrow> keyed l'"
  by (auto simp: lru_mark_def keyed_def split_def o_def)

lemma lru_mark_map:
  "map_of (snd (lru_mark i b l)) = (map_of l)(i := map_option (\<lambda>(q, d). (q, b)) (map_of l i))"
  by (induction l) (auto simp: lru_mark_def fun_eq_iff)

lemma lru_put_keyed:
  assumes "keyed l" and "lru_put cap p d l = (r, l')"
  shows "keyed l'"
proof -
  have "keyed (butlast l)"
    using assms(1) by (auto simp: keyed_def map_butlast distinct_butlast dest: in_set_butlastD)
  moreover have "fst ` set (butlast l) \<subseteq> fst ` set l"
    by (auto dest: in_set_butlastD)
  ultimately show ?thesis
    using assms keyed_lru_drop [OF assms(1)]
    by (auto simp: lru_put_def Let_def map_of_eq_None_iff split: option.splits if_splits prod.splits)
qed

lemma lru_put_map:
  assumes "keyed l" and "lru_put cap p d l = (ev, l')"
  defines "i \<equiv> ph_page_id (pg_header p)"
  shows "map_of l' i = Some (p, d \<or> (case map_of l i of Some (q, b) \<Rightarrow> b | None \<Rightarrow> False))"
    and "j \<noteq> i \<Longrightarrow> map_of l' j = map_of l j \<or> map_of l' j = None \<and> (\<forall>q. map_of l j = Some (q, True) \<longrightarrow> ev = Some q)"
    and "ev = Some q \<Longrightarrow> ph_page_id (pg_header q) \<noteq> i \<and> map_of l (ph_page_id (pg_header q)) = Some (q, True) \<and>
      ph_page_id (pg_header q) \<in> fst ` set l"
proof -
  show "map_of l' i = Some (p, d \<or> (case map_of l i of Some (q, b) \<Rightarrow> b | None \<Rightarrow> False))"
    using assms by (auto simp: lru_put_def Let_def split: option.splits if_splits)
  have split_last: "map_of l k = (case map_of (butlast l) k of None \<Rightarrow> map_of [last l] k | Some v \<Rightarrow> Some v)"
    if "l \<noteq> []" for k
    using that by (cases l rule: rev_cases) (simp_all add: map_add_def split: option.splits)
  show "map_of l' j = map_of l j \<or> map_of l' j = None \<and> (\<forall>q. map_of l j = Some (q, True) \<longrightarrow> ev = Some q)" if "j \<noteq> i"
    using assms that split_last [of j]
    by (auto simp: lru_put_def Let_def map_of_lru_drop split_def split: option.splits if_splits)
  assume ev: "ev = Some q"
  then have "l \<noteq> []" and last: "last l = (fst (last l), q, True)" and none: "map_of l i = None"
    using assms by (auto simp: lru_put_def Let_def split: option.splits if_splits prod.splits)
  then have mem: "(fst (last l), q, True) \<in> set l"
    by (metis last_in_set)
  then have "map_of l (fst (last l)) = Some (q, True)" "ph_page_id (pg_header q) = fst (last l)"
    using assms(1) map_of_is_SomeI [of l] by (force simp: keyed_def)+
  then show "ph_page_id (pg_header q) \<noteq> i \<and> map_of l (ph_page_id (pg_header q)) = Some (q, True) \<and>
      ph_page_id (pg_header q) \<in> fst ` set l"
    using none image_eqI [OF _ mem, of _ fst] by auto
qed

lemma keys_lru_get: "lru_get i l = (r, l') \<Longrightarrow> fst ` set l' \<subseteq> insert i (fst ` set l)"
  by (force simp: lru_get_def lru_drop_def split: option.splits)

lemma keys_lru_put: "lru_put cap p d l = (r, l') \<Longrightarrow> fst ` set l' \<subseteq> insert (ph_page_id (pg_header p)) (fst ` set l)"
  by (force simp: lru_put_def Let_def lru_drop_def split: option.splits if_splits dest: in_set_butlastD)

lemma keys_lru_mark: "lru_mark i b l = (r, l') \<Longrightarrow> fst ` set l' \<subseteq> insert i (fst ` set l)"
  by (force simp: lru_mark_def)

lemma cache_get_ok:
  assumes "cache_ok cap c" and "cache_get i c = (r, c')"
  shows "cache_ok cap c' \<and> r = map_option fst (cache_lookup c i) \<and> cache_lookup c' = cache_lookup c"
proof -
  have wf: "cache_wf cap c'" and get: "on_list i (lru_get i) (cache_view c) = (r, cache_view c')"
    and keyed: "lru_keyed (cache_view c)"
    using assms cache_get_refines [of cap c i r c'] by (simp_all add: cache_ok_def)
  have "lru_keyed (cache_view c')"
    using on_list_keyed [OF keyed get] lru_get_keyed keys_lru_get by blast
  moreover obtain l' where "lru_get i (cache_view c ! shard_index i) = (r, l')"
    using on_list_lookup(1) [OF keyed get] by (metis prod.collapse)
  ultimately show ?thesis
    using wf lru_get_map [of i "cache_view c ! shard_index i" r l'] on_list_lookup(2) [OF keyed get]
    by (auto simp: cache_ok_def cache_lookup_def lru_lookup_def fun_eq_iff)
qed

lemma cache_mark_ok:
  assumes "cache_ok cap c" and "(if b then mark_dirty i c else mark_clean i c) = (r, c')"
  shows "cache_ok cap c' \<and>
    cache_lookup c' = (cache_lookup c)(i := map_option (\<lambda>(q, d). (q, b)) (cache_lookup c i))"
proof -
  have wf: "cache_wf cap c'" and get: "on_list i (lru_mark i b) (cache_view c) = (r, cache_view c')"
    and keyed: "lru_keyed (cache_view c)"
    using assms cache_mark_refines [of cap c b i r c'] by (simp_all add: cache_ok_def)
  have "lru_keyed (cache_view c')"
    using on_list_keyed [OF keyed get] lru_mark_keyed keys_lru_mark by blast
  then show ?thesis
    using wf on_list_lookup(2) [OF keyed get]
    by (auto simp: cache_ok_def cache_lookup_def lru_lookup_def lru_mark_map fun_eq_iff)
qed

lemma cache_put_ok:
  assumes ok: "cache_ok cap c" and put: "cache_put p d c = (ev, c')"
  defines "i \<equiv> ph_page_id (pg_header p)"
  shows "cache_ok cap c'"
    and "cache_lookup c' i = Some (p, d \<or> (case cache_lookup c i of Some (q, b) \<Rightarrow> b | None \<Rightarrow> False))"
    and "j \<noteq> i \<Longrightarrow> cache_lookup c' j = cache_lookup c j \<or>
      cache_lookup c' j = None \<and> (\<forall>q. cache_lookup c j = Some (q, True) \<longrightarrow> ev = Some q)"
    and "ev = Some q \<Longrightarrow> ph_page_id (pg_header q) \<noteq> i \<and> cache_lookup c (ph_page_id (pg_header q)) = Some (q, True)"
proof -
  let ?l = "cache_view c ! shard_index i"
  have wf: "cache_wf cap c'" and get: "on_list i (lru_put cap p d) (cache_view c) = (ev, cache_view c')"
    and keyed: "lru_keyed (cache_view c)"
    using ok cache_put_refines [OF _ put, of cap] by (simp_all add: cache_ok_def i_def)
  obtain l' where l': "lru_put cap p d ?l = (ev, l')"
    using on_list_lookup(1) [OF keyed get] by (metis prod.collapse)
  have kl: "keyed ?l" and idx: "\<And>j. j \<in> fst ` set ?l \<Longrightarrow> shard_index j = shard_index i"
    using keyed shard_index_less [of i] unfolding lru_keyed_def by blast+
  note map = lru_put_map [OF kl l', folded i_def]
  have look: "cache_lookup c' j = (if shard_index j = shard_index i then map_of l' j else cache_lookup c j)" for j
    using on_list_lookup(2) [OF keyed get, of j] l' by (simp add: cache_lookup_def)
  have here: "shard_index j = shard_index i \<Longrightarrow> cache_lookup c j = map_of ?l j" for j
    by (simp add: cache_lookup_def lru_lookup_def)
  have "lru_keyed (cache_view c')"
    using on_list_keyed [OF keyed get] lru_put_keyed keys_lru_put unfolding i_def by blast
  then show "cache_ok cap c'"
    using wf by (simp add: cache_ok_def)
  show "cache_lookup c' i = Some (p, d \<or> (case cache_lookup c i of Some (q, b) \<Rightarrow> b | None \<Rightarrow> False))"
    using map(1) by (simp add: look here)
  show "cache_lookup c' j = cache_lookup c j \<or>
      cache_lookup c' j = None \<and> (\<forall>q. cache_lookup c j = Some (q, True) \<longrightarrow> ev = Some q)" if "j \<noteq> i"
    using map(2) [OF that] here [of j] by (simp add: look)
  show "ph_page_id (pg_header q) \<noteq> i \<and> cache_lookup c (ph_page_id (pg_header q)) = Some (q, True)" if "ev = Some q"
    using map(3) [OF that] idx here by metis
qed

lemma cache_lookup_key: "cache_ok cap c \<Longrightarrow> cache_lookup c i = Some (p, d) \<Longrightarrow> ph_page_id (pg_header p) = i"
  using keyed_map_of [of "cache_view c ! shard_index i" i p d]
  by (simp add: cache_ok_def lru_keyed_def cache_lookup_def lru_lookup_def)

interpretation lru_cache: write_back_cache cache_get cache_put mark_clean cache_lookup "cache_ok cap" for cap
proof
  show "cache_ok cap c \<Longrightarrow> cache_lookup c i = Some (p, d) \<Longrightarrow> ph_page_id (pg_header p) = i" for c i p d
    by (rule cache_lookup_key)
next
  show "cache_ok cap c \<Longrightarrow> cache_get i c = (r, c') \<Longrightarrow>
      cache_ok cap c' \<and> r = map_option fst (cache_lookup c i) \<and> cache_lookup c' = cache_lookup c" for c i r c'
    by (rule cache_get_ok)
next
  fix c p d ev c'
  assume "cache_ok cap c" and "cache_put p d c = (ev, c')"
  note put = cache_put_ok [OF this]
  show "cache_ok cap c' \<and>
      cache_lookup c' (ph_page_id (pg_header p)) =
        Some (p, d \<or> (case cache_lookup c (ph_page_id (pg_header p)) of Some (q, b) \<Rightarrow> b | None \<Rightarrow> False)) \<and>
      (\<forall>j. j \<noteq> ph_page_id (pg_header p) \<longrightarrow> cache_lookup c' j = cache_lookup c j \<or>
        cache_lookup c' j = None \<and> (\<forall>q. cache_lookup c j = Some (q, True) \<longrightarrow> ev = Some q)) \<and>
      (\<forall>q. ev = Some q \<longrightarrow> ph_page_id (pg_header q) \<noteq> ph_page_id (pg_header p) \<and>
        cache_lookup c (ph_page_id (pg_header q)) = Some (q, True))"
    using put by blast
next
  show "cache_ok cap c \<Longrightarrow> mark_clean i c = (found, c') \<Longrightarrow>
      cache_ok cap c' \<and> cache_lookup c' = (cache_lookup c)(i := map_option (\<lambda>(q, b). (q, False)) (cache_lookup c i))"
    for c i found c'
    using cache_mark_ok [of cap c False i found c'] by simp
qed

lemma cache_new_ok: "cache_ok ((cc_capacity cfg + 31) div 32) (cache_new cfg)" "cache_lookup (cache_new cfg) i = None"
  using cache_new_wf [of cfg]
  by (auto simp: cache_ok_def lru_keyed_def keyed_def cache_lookup_def lru_lookup_def num_shards_def shard_index_def)

section \<open>Size\<close>

lemma on_list_bounded:
  assumes "\<forall>l\<in>set ls. length l \<le> n" and "length ls = num_shards"
    and "\<And>l r l'. length l \<le> n \<Longrightarrow> f l = (r, l') \<Longrightarrow> length l' \<le> n"
    and "on_list i f ls = (r, ls')"
  shows "(\<forall>l\<in>set ls'. length l \<le> n) \<and> length ls' = num_shards"
proof -
  obtain l' where l': "f (ls ! shard_index i) = (r, l')" "ls' = ls[shard_index i := l']"
    using assms(4) by (auto simp: on_list_def Let_def split: prod.splits)
  have "length l' \<le> n"
    using assms(1,2) by (intro assms(3) [OF _ l'(1)]) simp
  then show ?thesis
    using assms(1,2) l'(2) by (auto dest!: set_update_subset_insert [THEN subsetD])
qed

lemma length_lru_drop: "map_of l i = Some v \<Longrightarrow> length (lru_drop i l) < length l"
  by (auto simp: lru_drop_def dest!: map_of_SomeD intro!: length_filter_less)

lemma length_lru_get: "length l \<le> n \<Longrightarrow> lru_get i l = (r, l') \<Longrightarrow> length l' \<le> n"
  using length_lru_drop [of l i] by (fastforce simp: lru_get_def split: option.splits)

lemma length_lru_put: "length l \<le> max 1 cap \<Longrightarrow> lru_put cap p d l = (r, l') \<Longrightarrow> length l' \<le> max 1 cap"
  using length_lru_drop [of l "ph_page_id (pg_header p)"]
  by (fastforce simp: lru_put_def Let_def split: option.splits if_splits)

lemma length_lru_remove: "length l \<le> n \<Longrightarrow> lru_remove i l = (r, l') \<Longrightarrow> length l' \<le> n"
  using length_filter_le [of "\<lambda>(j, v). j \<noteq> i" l] by (auto simp: lru_remove_def lru_drop_def)

lemma length_lru_mark: "length l \<le> n \<Longrightarrow> lru_mark i b l = (r, l') \<Longrightarrow> length l' \<le> n"
  by (auto simp: lru_mark_def)

lemma lru_apply_bounded:
  assumes "\<forall>l\<in>set ls. length l \<le> max 1 cap" and "length ls = num_shards" and "lru_apply cap x ls = (out, ls')"
  shows "(\<forall>l\<in>set ls'. length l \<le> max 1 cap) \<and> length ls' = num_shards"
proof (cases x)
  case (CGet i)
  then obtain r where "on_list i (lru_get i) ls = (r, ls')"
    using assms(3) by (auto simp: map_prod_eq_iff)
  with length_lru_get show ?thesis
    by (rule on_list_bounded [OF assms(1,2)])
next
  case (CPut p d)
  then obtain r where "on_list (ph_page_id (pg_header p)) (lru_put cap p d) ls = (r, ls')"
    using assms(3) by (auto simp: map_prod_eq_iff)
  with length_lru_put show ?thesis
    by (rule on_list_bounded [OF assms(1,2)])
next
  case (CMark i b)
  then obtain r where "on_list i (lru_mark i b) ls = (r, ls')"
    using assms(3) by (auto simp: map_prod_eq_iff)
  with length_lru_mark show ?thesis
    by (rule on_list_bounded [OF assms(1,2)])
next
  case (CRemove i)
  then obtain r where "on_list i (lru_remove i) ls = (r, ls')"
    using assms(3) by (auto simp: map_prod_eq_iff)
  with length_lru_remove show ?thesis
    by (rule on_list_bounded [OF assms(1,2)])
qed (use assms in auto)

lemma lru_run_bounded:
  "\<forall>l\<in>set ls. length l \<le> max 1 cap \<Longrightarrow> length ls = num_shards \<Longrightarrow> lru_run cap xs ls = (outs, ls') \<Longrightarrow>
     (\<forall>l\<in>set ls'. length l \<le> max 1 cap) \<and> length ls' = num_shards"
proof (induction xs arbitrary: ls outs)
  case (Cons x xs)
  then show ?case
    using lru_apply_bounded [OF Cons.prems(1,2), of x] by (fastforce split: prod.splits)
qed simp

lemma cache_size_view:
  assumes "cache_wf cap c"
  shows "cache_size c = sum_list (map length (cache_view c))"
proof -
  have "length (shard_view s) = length (cs_entries s)" if "s \<in> set (pc_shards c)" for s
  proof -
    have "\<exists>xs. shard_inv s xs"
      using assms that by (simp add: cache_wf_def)
    then obtain xs where inv: "shard_inv s xs" by (elim exE)
    show ?thesis
      by (simp add: shard_view_inv [OF inv] shard_inv_length [OF inv])
  qed
  then show ?thesis
    unfolding cache_size_def cache_view_def map_map by (intro arg_cong [where f = sum_list] map_cong) auto
qed

section \<open>Properties\<close>

text \<open>
  C7. The cache is 32 least-recently-used lists: whatever sequence of operations a new cache runs,
  the answers and the pages kept, with their dirty bits and in their order of use, are those of the
  lists, so the pointers of the linked entries never go astray.
\<close>

theorem cache_refines_lru:
  "map_prod id cache_view (cache_run xs (cache_new cfg)) =
     lru_run ((cc_capacity cfg + 31) div 32) xs (replicate num_shards [])"
  using cache_run_refines [OF cache_new_wf(1) [of cfg], of xs] cache_new_wf(2) [of cfg]
  by (cases "cache_run xs (cache_new cfg)") simp

text \<open>
  C10. The cache stays within its capacity, rounded up to a multiple of 32; a cache of capacity 0
  still holds one page per shard.
\<close>

theorem cache_bounded: "cache_size (snd (cache_run xs (cache_new cfg))) \<le> 32 * max 1 ((cc_capacity cfg + 31) div 32)"
proof -
  obtain outs c where run: "cache_run xs (cache_new cfg) = (outs, c)"
    by fastforce
  let ?n = "max 1 ((cc_capacity cfg + 31) div 32)"
  note ref = cache_run_refines [OF cache_new_wf(1) [of cfg] run, unfolded cache_new_wf(2)]
  have "(\<forall>l\<in>set (cache_view c). length l \<le> ?n) \<and> length (cache_view c) = num_shards"
    using ref lru_run_bounded [of "replicate num_shards []" "(cc_capacity cfg + 31) div 32" xs outs "cache_view c"]
    by auto
  then have "sum_list (map length (cache_view c)) \<le> num_shards * ?n"
    using sum_list_mono [of "cache_view c" length "\<lambda>_. ?n"] by (simp add: sum_list_triv)
  then show ?thesis
    using ref run cache_size_view by (auto simp: num_shards_def)
qed

text \<open>
  The count of dirty pages is not kept by an update in place: a clean page that is put again as dirty
  is dirty but not counted.
\<close>

lemma dirty_update_uncounted:
  fixes p :: page and cfg :: cache_config
  defines "c \<equiv> snd (cache_put p True (snd (cache_put p False (cache_new cfg))))"
  shows "is_dirty (ph_page_id (pg_header p)) c \<and> st_dirty_pages (cs_stats (pc_shards c ! shard_index (ph_page_id (pg_header p)))) = 0"
proof -
  let ?i = "ph_page_id (pg_header p)"
  have k: "shard_index ?i < num_shards"
    by (rule shard_index_less)
  show ?thesis
    unfolding c_def using k
    by (simp add: cache_put_def on_shard_def Let_def split_def cache_new_def shard_put_def shard_new_def
        evict_lru_def alter_at_def move_to_front_def cache_stats_default_def is_dirty_def)
qed

end
