(* ===== verification/Mvcc.thy ===== *)
theory Mvcc
  imports WalRecord
begin

text \<open>
  Multi-version values: references to overflow pages (\<open>ValueRef\<close> of \<open>src/src/types.rs\<close>), snapshots
  (\<open>src/src/snap.rs\<close>) and version chains with their garbage collection
  (\<open>src/src/txn/version.rs\<close>). The abstract view of a chain is the list of its versions, newest
  first; a snapshot sees the first version it accepts.
\<close>

section \<open>Value references\<close>

datatype value_ref =
    RefInline
  | SinglePage u32 u16 u32
  | OverflowChain u32 u64 u32

datatype value_ref_decode_error =
    InsufficientBytes nat nat
  | InvalidLength string nat nat
  | UnknownType u8

definition ref_is_inline :: "value_ref \<Rightarrow> bool" where
  "ref_is_inline r = (case r of RefInline \<Rightarrow> True | _ \<Rightarrow> False)"

definition ref_size_hint :: "value_ref \<Rightarrow> u64 option" where
  "ref_size_hint r =
     (case r of RefInline \<Rightarrow> None | SinglePage _ _ len \<Rightarrow> Some (ucast len)
      | OverflowChain _ len _ \<Rightarrow> Some len)"

definition requires_overflow :: "value_ref \<Rightarrow> bool" where
  "requires_overflow r = (\<not> ref_is_inline r)"

fun ref_encode :: "value_ref \<Rightarrow> bytes" where
  "ref_encode RefInline = [0]"
| "ref_encode (SinglePage page_id offset len) = [1] @ u32_le page_id @ u16_le offset @ u32_le len"
| "ref_encode (OverflowChain first_page len count) = [2] @ u32_le first_page @ u64_le len @ u32_le count"

definition ref_decode :: "bytes \<Rightarrow> value_ref_decode_error + value_ref" where
  "ref_decode bs =
     (if bs = [] then Inl (InsufficientBytes 1 0)
      else if bs ! 0 = 0 then
        (if length bs \<noteq> 1 then Inl (InvalidLength ''Inline'' 1 (length bs)) else Inr RefInline)
      else if bs ! 0 = 1 then
        (if length bs \<noteq> 11 then Inl (InvalidLength ''SinglePage'' 11 (length bs))
         else Inr (SinglePage (u32_of_le (bslice 1 5 bs)) (u16_of_le (bslice 5 7 bs))
                     (u32_of_le (bslice 7 11 bs))))
      else if bs ! 0 = 2 then
        (if length bs \<noteq> 17 then Inl (InvalidLength ''OverflowChain'' 17 (length bs))
         else Inr (OverflowChain (u32_of_le (bslice 1 5 bs)) (u64_of_le (bslice 5 13 bs))
                     (u32_of_le (bslice 13 17 bs))))
      else Inl (UnknownType (bs ! 0)))"

lemma ref_decode_encode: "ref_decode (ref_encode r) = Inr r"
  by (cases r) (simp_all add: ref_decode_def codec_simps)

lemma ref_encode_decode: "ref_decode bs = Inr r \<Longrightarrow> ref_encode r = bs"
proof -
  have split: "bs = bs ! 0 # bslice 1 (length bs) bs" if "bs \<noteq> []"
    using that by (cases bs) (simp_all add: bslice_def)
  have s11: "bslice 1 5 bs @ bslice 5 7 bs @ bslice 7 11 bs = bslice 1 11 bs"
    and s17: "bslice 1 5 bs @ bslice 5 13 bs @ bslice 13 17 bs = bslice 1 17 bs"
    by (simp_all add: bslice_append_bslice)
  assume "ref_decode bs = Inr r"
  then show ?thesis
    using split s11 s17
    by (auto simp: ref_decode_def u_le_of_le split: if_splits) (cases bs; simp)+
qed

section \<open>Snapshots\<close>

record snapshot =
  snap_id :: u64
  snap_name :: string
  snap_lsn :: lsn
  snap_created_at :: int
  snap_size_bytes :: u64
  snap_min_active_txn :: txn_id
  snap_active_txns :: "txn_id set"

definition snapshot_new ::
    "u64 \<Rightarrow> string \<Rightarrow> lsn \<Rightarrow> int \<Rightarrow> u64 \<Rightarrow> txn_id list \<Rightarrow> snapshot" where
  "snapshot_new i n l created bytes_pinned active =
     \<lparr>snap_id = i, snap_name = n, snap_lsn = l, snap_created_at = created, snap_size_bytes = bytes_pinned,
      snap_min_active_txn = (if active = [] then 0 else Min (set active)),
      snap_active_txns = set active\<rparr>"

definition is_visible :: "snapshot \<Rightarrow> lsn \<Rightarrow> txn_id \<Rightarrow> bool" where
  "is_visible s version_lsn created_by =
     (if version_lsn > snap_lsn s then False
      else if created_by < snap_min_active_txn s then True
      else created_by \<notin> snap_active_txns s)"

text \<open>The watermark is an optimisation: it lies below every active transaction.\<close>

definition snapshot_wf :: "snapshot \<Rightarrow> bool" where
  "snapshot_wf s \<longleftrightarrow> (\<forall>t\<in>snap_active_txns s. snap_min_active_txn s \<le> t)"

lemma snapshot_new_wf: "snapshot_wf (snapshot_new i n l created bytes_pinned active)"
  by (simp add: snapshot_wf_def snapshot_new_def)

lemma is_visible_iff:
  "snapshot_wf s \<Longrightarrow> is_visible s l t \<longleftrightarrow> l \<le> snap_lsn s \<and> t \<notin> snap_active_txns s"
  by (auto simp: is_visible_def snapshot_wf_def)

section \<open>Version chains\<close>

datatype version_value = VInline bytes | VExternal value_ref

fun as_inline :: "version_value \<Rightarrow> bytes option" where
  "as_inline (VInline d) = Some d"
| "as_inline (VExternal _) = None"

fun as_external :: "version_value \<Rightarrow> value_ref option" where
  "as_external (VInline _) = None"
| "as_external (VExternal r) = Some r"

fun value_size_hint :: "version_value \<Rightarrow> u64 option" where
  "value_size_hint (VInline d) = Some (of_nat (length d))"
| "value_size_hint (VExternal r) = ref_size_hint r"

fun value_is_empty :: "version_value \<Rightarrow> bool" where
  "value_is_empty (VInline d) = (d = [])"
| "value_is_empty (VExternal r) = (case ref_size_hint r of None \<Rightarrow> False | Some n \<Rightarrow> n = 0)"

fun value_len :: "version_value \<Rightarrow> nat" where
  "value_len (VInline d) = length d"
| "value_len (VExternal r) = (case ref_size_hint r of None \<Rightarrow> 0 | Some n \<Rightarrow> unat n)"

datatype version_chain =
  VersionChain (vc_value: version_value) (vc_created_by: txn_id) (vc_commit_lsn: "lsn option")
    (vc_prev: "version_chain option")

definition chain_new :: "bytes \<Rightarrow> txn_id \<Rightarrow> version_chain" where
  "chain_new v t = VersionChain (VInline v) t None None"

definition chain_new_external :: "value_ref \<Rightarrow> txn_id \<Rightarrow> version_chain" where
  "chain_new_external r t = VersionChain (VExternal r) t None None"

fun chain_commit :: "lsn \<Rightarrow> version_chain \<Rightarrow> version_chain" where
  "chain_commit l (VersionChain v t _ p) = VersionChain v t (Some l) p"

definition prepend :: "bytes \<Rightarrow> txn_id \<Rightarrow> version_chain \<Rightarrow> version_chain" where
  "prepend v t c = VersionChain (VInline v) t None (Some c)"

definition prepend_external :: "value_ref \<Rightarrow> txn_id \<Rightarrow> version_chain \<Rightarrow> version_chain" where
  "prepend_external r t c = VersionChain (VExternal r) t None (Some c)"

fun find_visible_version :: "snapshot \<Rightarrow> version_chain \<Rightarrow> version_value option" where
  "find_visible_version s (VersionChain v t cl p) =
     (if (case cl of Some l \<Rightarrow> is_visible s l t | None \<Rightarrow> False) then Some v
      else (case p of Some c \<Rightarrow> find_visible_version s c | None \<Rightarrow> None))"

definition find_visible_inline :: "snapshot \<Rightarrow> version_chain \<Rightarrow> bytes option" where
  "find_visible_inline s c =
     (case find_visible_version s c of
        Some (VInline d) \<Rightarrow> Some d
      | Some (VExternal _) \<Rightarrow> None
      | None \<Rightarrow> None)"

fun collect_external_refs :: "version_chain \<Rightarrow> value_ref list" where
  "collect_external_refs (VersionChain v t cl p) =
     (case v of VExternal r \<Rightarrow> [r] | VInline _ \<Rightarrow> []) @
     (case p of Some c \<Rightarrow> collect_external_refs c | None \<Rightarrow> [])"

section \<open>Vacuum\<close>

definition below :: "lsn \<Rightarrow> lsn option \<Rightarrow> bool" where
  "below m cl = (case cl of Some l \<Rightarrow> l < m | None \<Rightarrow> False)"

fun retain_obsolete_versions ::
    "lsn \<Rightarrow> version_chain \<Rightarrow> nat \<times> value_ref list \<Rightarrow> version_chain \<times> nat \<times> value_ref list" where
  "retain_obsolete_versions m (VersionChain v t cl p) (budget, freed) =
     (let (rebuilt, budget, freed) =
            (case p of
               None \<Rightarrow> (None, budget, freed)
             | Some c \<Rightarrow> (let (c', b, f) = retain_obsolete_versions m c (budget, freed) in (Some c', b, f)));
          keep = (below m cl \<and> budget > 0);
          budget = (if keep then budget - 1 else budget);
          removed = (below m cl \<and> \<not> keep);
          freed = (if removed then (case v of VExternal r \<Rightarrow> freed @ [r] | VInline _ \<Rightarrow> freed) else freed);
          prev = (if removed then Option.bind rebuilt vc_prev else rebuilt)
      in (VersionChain v t cl prev, budget, freed))"

fun count_removable_obsolete_versions :: "lsn \<Rightarrow> version_chain \<Rightarrow> nat" where
  "count_removable_obsolete_versions m (VersionChain v t cl p) =
     (if below m cl then 1 else 0) +
     (case p of Some c \<Rightarrow> count_removable_obsolete_versions m c | None \<Rightarrow> 0)"

definition vacuum :: "lsn \<Rightarrow> version_chain \<Rightarrow> version_chain \<times> nat \<times> value_ref list" where
  "vacuum m c =
     (let removed = count_removable_obsolete_versions m c - 1 in
      if removed = 0 then (c, 0, [])
      else let (c', _, freed) = retain_obsolete_versions m c (1, []) in (c', removed, freed))"

section \<open>The abstract view\<close>

type_synonym version = "version_value \<times> txn_id \<times> lsn option"

fun versions :: "version_chain \<Rightarrow> version list" where
  "versions (VersionChain v t cl p) = (v, t, cl) # (case p of Some c \<Rightarrow> versions c | None \<Rightarrow> [])"

definition sees :: "snapshot \<Rightarrow> version \<Rightarrow> bool" where
  "sees s = (\<lambda>(v, t, cl). case cl of Some l \<Rightarrow> is_visible s l t | None \<Rightarrow> False)"

definition obsolete :: "lsn \<Rightarrow> version \<Rightarrow> bool" where
  "obsolete m = (\<lambda>(v, t, cl). below m cl)"

lemma versions_nonempty [simp]: "versions c \<noteq> []"
  by (cases c) simp

lemma versions_ops [simp]:
  "versions (chain_new v t) = [(VInline v, t, None)]"
  "versions (prepend v t c) = (VInline v, t, None) # versions c"
  "versions (prepend_external r t c) = (VExternal r, t, None) # versions c"
  "versions (chain_commit l c) = (case versions c of (v, t, _) # vs \<Rightarrow> (v, t, Some l) # vs)"
  by (simp_all add: chain_new_def prepend_def prepend_external_def, cases c, simp)

lemma find_visible_versions:
  "find_visible_version s c = map_option fst (find (sees s) (versions c))"
  by (induction s c rule: find_visible_version.induct) (auto simp: sees_def split: option.splits)

lemma count_versions: "count_removable_obsolete_versions m c = length (filter (obsolete m) (versions c))"
  by (induction m c rule: count_removable_obsolete_versions.induct)
    (auto simp: obsolete_def split: option.splits)

text \<open>
  The order a chain keeps: uncommitted versions first, then commits from new to old. Then the
  obsolete versions form its end.
\<close>

definition chain_ordered :: "version list \<Rightarrow> bool" where
  "chain_ordered vs \<longleftrightarrow>
     sorted_wrt (\<lambda>(_, _, newer) (_, _, older).
       case older of None \<Rightarrow> newer = None | Some l \<Rightarrow> (case newer of None \<Rightarrow> True | Some k \<Rightarrow> l < k)) vs"

definition collected :: "lsn \<Rightarrow> version list \<Rightarrow> version list" where
  "collected m vs = takeWhile (\<lambda>x. \<not> obsolete m x) vs @ take 1 (dropWhile (\<lambda>x. \<not> obsolete m x) vs)"

lemma chain_ordered_obsolete:
  assumes "chain_ordered (x # vs)" and "obsolete m x"
  shows "\<forall>y\<in>set vs. obsolete m y"
  using assms
  by (fastforce simp: chain_ordered_def obsolete_def below_def split: option.splits)

lemma chain_ordered_tail: "chain_ordered (x # vs) \<Longrightarrow> chain_ordered vs"
  by (simp add: chain_ordered_def)

definition ext_refs :: "version \<Rightarrow> value_ref list" where
  "ext_refs = (\<lambda>(v, t, cl). case v of VExternal r \<Rightarrow> [r] | VInline _ \<Rightarrow> [])"

text \<open>
  Where every version is obsolete, the walk keeps the head and reports as freed the references of
  all versions but the oldest.
\<close>

lemma retain_all_obsolete:
  assumes "\<forall>x\<in>set (versions c). obsolete m x"
  shows "\<exists>c'. retain_obsolete_versions m c (1, fr) =
      (c', 0, fr @ concat (map ext_refs (rev (butlast (versions c))))) \<and> versions c' = [hd (versions c)]"
  using assms
proof (induction c rule: versions.induct)
  case (1 v t cl p)
  show ?case
  proof (cases p)
    case None
    with "1.prems" show ?thesis by (simp add: obsolete_def)
  next
    case (Some c)
    then obtain c' where c': "retain_obsolete_versions m c (1, fr) =
        (c', 0, fr @ concat (map ext_refs (rev (butlast (versions c)))))" "versions c' = [hd (versions c)]"
      using "1.IH" "1.prems" by auto
    then have "vc_prev c' = None"
      by (cases c') (auto split: option.splits)
    then show ?thesis
      using c'(1) "1.prems" Some by (cases v) (auto simp: obsolete_def ext_refs_def)
  qed
qed

lemma retain_ordered:
  assumes "chain_ordered (versions c)" and "\<exists>x\<in>set (versions c). obsolete m x"
  shows "\<exists>c'. retain_obsolete_versions m c (1, fr) =
      (c', 0, fr @ concat (map ext_refs (rev (butlast (filter (obsolete m) (versions c)))))) \<and>
    versions c' = collected m (versions c)"
  using assms
proof (induction c rule: versions.induct)
  case (1 v t cl p)
  let ?c = "VersionChain v t cl p"
  show ?case
  proof (cases "obsolete m (v, t, cl)")
    case True
    then have all: "\<forall>x\<in>set (versions ?c). obsolete m x"
      using chain_ordered_obsolete [of "(v, t, cl)"] "1.prems"(1) by auto
    then have "filter (obsolete m) (versions ?c) = versions ?c"
      "collected m (versions ?c) = [hd (versions ?c)]"
      using True by (auto simp: collected_def)
    then show ?thesis
      using retain_all_obsolete [OF all, of fr] by metis
  next
    case False
    then obtain c where c: "p = Some c" "\<exists>x\<in>set (versions c). obsolete m x"
      using "1.prems"(2) by (cases p) auto
    then obtain c' where "retain_obsolete_versions m c (1, fr) =
        (c', 0, fr @ concat (map ext_refs (rev (butlast (filter (obsolete m) (versions c))))))"
      "versions c' = collected m (versions c)"
      using "1.IH" "1.prems"(1) chain_ordered_tail by auto
    then show ?thesis
      using c False by (simp add: obsolete_def collected_def)
  qed
qed

lemma collected_few:
  assumes "chain_ordered vs" and "length (filter (obsolete m) vs) \<le> 1"
  shows "collected m vs = vs"
  using assms
proof (induction vs)
  case (Cons x vs)
  show ?case
  proof (cases "obsolete m x")
    case True
    then have "filter (obsolete m) vs = vs"
      using chain_ordered_obsolete [OF Cons.prems(1)] by simp
    with True Cons.prems(2) have "vs = []" by simp
    with True show ?thesis by (simp add: collected_def)
  next
    case False
    with Cons show ?thesis by (simp add: collected_def chain_ordered_def)
  qed
qed (simp add: collected_def)

lemma vacuum_versions:
  assumes "chain_ordered (versions c)" and "vacuum m c = (c', n, freed)"
  shows "versions c' = collected m (versions c)"
    and "n = length (filter (obsolete m) (versions c)) - 1"
    and "freed = concat (map ext_refs (rev (butlast (filter (obsolete m) (versions c)))))"
proof -
  have *: "versions c' = collected m (versions c) \<and> n = length (filter (obsolete m) (versions c)) - 1 \<and>
    freed = concat (map ext_refs (rev (butlast (filter (obsolete m) (versions c)))))"
  proof (cases "length (filter (obsolete m) (versions c)) \<le> 1")
    case True
    moreover from True have "butlast (filter (obsolete m) (versions c)) = []"
      by (cases "filter (obsolete m) (versions c)") auto
    ultimately show ?thesis
      using assms(2) collected_few [OF assms(1)] by (simp add: vacuum_def count_versions)
  next
    case False
    then have "\<exists>x\<in>set (versions c). obsolete m x"
      by (metis filter_False list.size(3) zero_le)
    from retain_ordered [OF assms(1) this, of "[]"] show ?thesis
      using False assms(2) by (auto simp: vacuum_def count_versions)
  qed
  then show "versions c' = collected m (versions c)"
    and "n = length (filter (obsolete m) (versions c)) - 1"
    and "freed = concat (map ext_refs (rev (butlast (filter (obsolete m) (versions c)))))"
    by blast+
qed

text \<open>Reading through the collected list: the first obsolete version is a base every snapshot sees.\<close>

lemma find_collected:
  assumes "\<forall>x\<in>set vs. obsolete m x \<longrightarrow> P x"
  shows "find P (collected m vs) = find P vs"
  using assms by (induction vs) (auto simp: collected_def)

lemma dropWhile_filter: "filter P vs = x # xs \<Longrightarrow> \<exists>ys. dropWhile (\<lambda>x. \<not> P x) vs = x # ys"
  by (induction vs) (auto split: if_splits)

lemma length_collected:
  assumes "chain_ordered vs"
  shows "length vs = length (collected m vs) + (length (filter (obsolete m) vs) - 1)"
  using assms
proof (induction vs)
  case (Cons x vs)
  show ?case
  proof (cases "obsolete m x")
    case True
    then have "filter (obsolete m) vs = vs"
      using chain_ordered_obsolete [OF Cons.prems] by simp
    with True show ?thesis by (simp add: collected_def)
  next
    case False
    with Cons show ?thesis by (simp add: collected_def chain_ordered_def)
  qed
qed (simp add: collected_def)

text \<open>A snapshot's active transactions have not committed at or before its position.\<close>

definition consistent :: "snapshot \<Rightarrow> version list \<Rightarrow> bool" where
  "consistent s vs \<longleftrightarrow>
     snapshot_wf s \<and> (\<forall>(v, t, cl)\<in>set vs. t \<in> snap_active_txns s \<longrightarrow> (case cl of Some l \<Rightarrow> snap_lsn s < l | None \<Rightarrow> True))"

lemma obsolete_seen:
  assumes "consistent s vs" and "m \<le> snap_lsn s" and "x \<in> set vs" and "obsolete m x"
  shows "sees s x"
proof -
  obtain v t l where x: "x = (v, t, Some l)" and l: "l < m"
    using assms(4) by (cases x) (auto simp: obsolete_def below_def split: option.splits)
  then have "t \<notin> snap_active_txns s"
    using assms(1-3) by (fastforce simp: consistent_def)
  then show ?thesis
    using assms(1,2) x l by (auto simp: sees_def consistent_def is_visible_iff)
qed

section \<open>Properties\<close>

text \<open>
  A reference to an overflow value survives storage: decoding its encoding gives it back, and
  the decoder accepts nothing but encodings.
\<close>

lemma value_ref_codec:
  "ref_decode (ref_encode r) = Inr r \<and> (\<forall>bs. ref_decode bs = Inr r \<longleftrightarrow> bs = ref_encode r)"
  using ref_decode_encode ref_encode_decode by blast

text \<open>
  The watermark of a snapshot changes no answer: a version is visible exactly when it was
  committed at or before the snapshot by a transaction that was not active then.
\<close>

lemma snapshot_visibility:
  "is_visible (snapshot_new i n l created bytes_pinned active) vl t \<longleftrightarrow> vl \<le> l \<and> t \<notin> set active"
  using is_visible_iff [OF snapshot_new_wf] by (simp add: snapshot_new_def)

text \<open>
  C31. Vacuuming a chain removes exactly the reported number of versions and hides nothing: every
  consistent snapshot at or above the watermark reads the same value before and after.
\<close>

theorem vacuum_preserves_reads:
  assumes "chain_ordered (versions c)" and "vacuum m c = (c', n, freed)"
    and "consistent s (versions c)" and "m \<le> snap_lsn s"
  shows "find_visible_version s c' = find_visible_version s c \<and>
    length (versions c) = length (versions c') + n"
proof -
  have "find (sees s) (collected m (versions c)) = find (sees s) (versions c)"
    using obsolete_seen [OF assms(3,4)] by (intro find_collected) auto
  then show ?thesis
    using vacuum_versions(1,2) [OF assms(1,2)] length_collected [OF assms(1), of m]
    by (simp add: find_visible_versions)
qed

definition sample_chain :: version_chain where
  "sample_chain =
     VersionChain (VInline [7]) 9 None (Some
    (VersionChain (VInline [3]) 5 (Some 30) (Some
    (VersionChain (VExternal (SinglePage 8 0 100)) 3 (Some 20) (Some
    (VersionChain (VExternal (SinglePage 4 0 200)) 2 (Some 10) None))))))"

lemma sample_chain_ok:
  "chain_ordered (versions sample_chain)"
  "consistent (snapshot_new 1 [] 25 0 0 [5, 9]) (versions sample_chain)"
  "vacuum 25 sample_chain =
     (VersionChain (VInline [7]) 9 None (Some
     (VersionChain (VInline [3]) 5 (Some 30) (Some
     (VersionChain (VExternal (SinglePage 8 0 100)) 3 (Some 20) None)))),
      1, [SinglePage 8 0 100])"
  by (simp_all add: sample_chain_def chain_ordered_def consistent_def snapshot_new_wf)
    (simp_all add: snapshot_new_def vacuum_def below_def)

theorem vacuum_preserves_reads_witness:
  "find_visible_version (snapshot_new 1 [] 25 0 0 [5, 9]) (fst (vacuum 25 sample_chain)) =
    find_visible_version (snapshot_new 1 [] 25 0 0 [5, 9]) sample_chain"
proof -
  have "25 \<le> snap_lsn (snapshot_new 1 [] 25 0 0 [5, 9])"
    by (simp add: snapshot_new_def)
  from vacuum_preserves_reads [OF sample_chain_ok(1,3,2) this] show ?thesis
    by (simp add: sample_chain_ok(3))
qed

text \<open>
  The references vacuum hands out for freeing are not those of the removed versions: with two or
  more obsolete versions, the newest of them stays in the chain, yet its reference is in the list,
  and the list holds no other references than those of obsolete versions newer than the oldest.
\<close>

lemma vacuum_frees_retained:
  assumes "chain_ordered (versions c)" and "vacuum m c = (c', n, freed)"
    and "filter (obsolete m) (versions c) = (VExternal r, t, cl) # older" and "older \<noteq> []"
  shows "r \<in> set freed \<and> (VExternal r, t, cl) \<in> set (versions c') \<and>
    freed = concat (map ext_refs (rev (butlast (filter (obsolete m) (versions c)))))"
proof -
  have "(VExternal r, t, cl) \<in> set (versions c')"
    using vacuum_versions(1) [OF assms(1,2)] dropWhile_filter [OF assms(3)]
    by (auto simp: collected_def)
  moreover have "r \<in> set freed"
    using vacuum_versions(3) [OF assms(1,2)] assms(3,4) by (auto simp: ext_refs_def)
  ultimately show ?thesis
    using vacuum_versions(3) [OF assms(1,2)] by blast
qed

lemma vacuum_frees_retained_witness:
  "SinglePage 8 0 100 \<in> set (snd (snd (vacuum 25 sample_chain))) \<and>
    (VExternal (SinglePage 8 0 100), 3, Some 20) \<in> set (versions (fst (vacuum 25 sample_chain)))"
proof -
  have "filter (obsolete 25) (versions sample_chain) =
      (VExternal (SinglePage 8 0 100), 3, Some 20) # [(VExternal (SinglePage 4 0 200), 2, Some 10)]"
    by (simp add: sample_chain_def obsolete_def below_def)
  note freed = vacuum_frees_retained [OF sample_chain_ok(1,3) this list.distinct(2)]
  show ?thesis
    unfolding sample_chain_ok(3) fst_conv snd_conv using freed by blast
qed

end
