(* ===== verification/PagerFile.thy ===== *)
theory PagerFile
  imports VfsMemory FileHeader FreeList Superblock PageCache Mvcc
begin

text \<open>
  The pager of \<open>pager/pagefile.rs\<close> with the pin table of \<open>pager/pin_table.rs\<close>: pages are addressed by
  virtual ids, translated to physical slots of the file, cached under their virtual id, and handed
  out from the free list or from the end of the file. Each call is one step: the locks of the page
  table serialise calls and carry no state. The file is a file of the in-memory file system, whose
  \<open>sync_all\<close> does nothing.

  An operation is a function from the state to a result and the state it leaves, also when it fails:
  an error part way keeps what was already done. What the source draws from outside, the nonces of
  the cipher, the clock and the iteration order of a hash map, comes from an environment and is
  indexed by a counter in the state, so that no two draws are taken to be the same.
\<close>

section \<open>Pins\<close>

type_synonym pin_table = "page_id \<rightharpoonup> nat"

definition pin :: "page_id \<Rightarrow> pin_table \<Rightarrow> nat \<times> pin_table" where
  "pin i t = (let n = (case t i of Some c \<Rightarrow> c | None \<Rightarrow> 0) + 1 in (n, t(i \<mapsto> n)))"

definition unpin :: "page_id \<Rightarrow> pin_table \<Rightarrow> nat option \<times> pin_table" where
  "unpin i t =
     (case t i of
        Some c \<Rightarrow>
          if c > 0
          then let n = c - 1 in (Some n, if n = 0 then t(i := None) else t(i \<mapsto> n))
          else (None, t)
      | None \<Rightarrow> (None, t))"

definition is_pinned :: "page_id \<Rightarrow> pin_table \<Rightarrow> bool" where
  "is_pinned i t = (case t i of Some c \<Rightarrow> c > 0 | None \<Rightarrow> False)"

definition ref_count :: "page_id \<Rightarrow> pin_table \<Rightarrow> nat" where
  "ref_count i t = (case t i of Some c \<Rightarrow> c | None \<Rightarrow> 0)"

section \<open>State\<close>

record pager =
  pgr_file :: open_file_state
  pgr_config :: pager_config
  pgr_header :: file_header
  pgr_superblock :: superblock
  pgr_free_list :: free_list
  pgr_mapper :: page_mapper
  pgr_cache :: "page_cache option"
  pgr_pins :: pin_table
  pgr_draws :: nat

record pager_env =
  env_libs :: libs
  env_nonce :: "nat \<Rightarrow> bytes"
  env_secs :: "nat \<Rightarrow> u64"
  env_order :: "nat \<Rightarrow> (page_id \<rightharpoonup> page_id) \<Rightarrow> page_id list"
  env_crc32 :: "bytes \<Rightarrow> u32"

section \<open>Actions\<close>

type_synonym 'a action = "(pager, pager_error, 'a) st_action"

definition draw :: "nat action" where
  "draw s = (Inr (pgr_draws s), s\<lparr>pgr_draws := pgr_draws s + 1\<rparr>)"

section \<open>The file\<close>

definition size_of :: "pager \<Rightarrow> nat" where
  "size_of s = unat (page_size_to_u32 (pc_page_size (pgr_config s)))"

text \<open>The offset of a slot, computed in 64 bits.\<close>

definition page_offset :: "pager \<Rightarrow> page_id \<Rightarrow> nat" where
  "page_offset s i = unat (i * of_nat (size_of s))"

text \<open>A buffer of zeros filled by \<open>read_at_offset\<close>, which may stop short.\<close>

definition read_block :: "open_file_state \<Rightarrow> nat \<Rightarrow> nat \<Rightarrow> bytes" where
  "read_block f off n = resize n 0 (read_at_offset f off n)"

definition write_at :: "nat \<Rightarrow> bytes \<Rightarrow> unit action" where
  "write_at off bs s =
     (case write_to_offset (pgr_file s) off bs of
        Inl e \<Rightarrow> (Inl (VfsError e), s)
      | Inr f \<Rightarrow> (Inr (), s\<lparr>pgr_file := f\<rparr>))"

definition encode_page :: "pager_env \<Rightarrow> page \<Rightarrow> bytes action" where
  "encode_page E p = pbind draw (\<lambda>k s.
     (page_to_bytes (env_libs E) (env_nonce E k) p (size_of s) (pc_encryption_key (pgr_config s)), s))"

definition decode_block :: "pager_env \<Rightarrow> pager \<Rightarrow> bytes \<Rightarrow> pager_error + page" where
  "decode_block E s bs =
     page_from_bytes (env_libs E) bs (pc_enable_checksums (pgr_config s)) (pc_encryption_key (pgr_config s))"

text \<open>A new page with the compression and the encryption of the configuration.\<close>

definition config_page :: "pager \<Rightarrow> page_id \<Rightarrow> page_type \<Rightarrow> bytes \<Rightarrow> page" where
  "config_page s i t d =
     \<lparr>pg_header = (page_header_new i t)\<lparr>ph_compression := pc_compression (pgr_config s),
         ph_encryption := pc_encryption (pgr_config s)\<rparr>,
      pg_data = d\<rparr>"

definition header_block :: "pager \<Rightarrow> file_header \<Rightarrow> bytes" where
  "header_block s h = put_slice 0 (file_header_to_bytes h) (replicate (size_of s) 0)"

text \<open>The header and the superblock, written directly to slots 0 and 1.\<close>

definition write_metadata :: "pager_env \<Rightarrow> file_header \<Rightarrow> superblock \<Rightarrow> unit action" where
  "write_metadata E h sb =
     pbind (\<lambda>s. write_at 0 (header_block s h) s) (\<lambda>_.
     pbind draw (\<lambda>k.
     pbind (\<lambda>s. encode_page E
              (config_page s 1 PT_Superblock (superblock_to_bytes (env_order E k (pm_mapping (sb_page_mapper sb))) sb)) s) (\<lambda>bs s.
     write_at (size_of s) bs s)))"

text \<open>Collects what \<open>write_metadata\<close> stores and stamps the header.\<close>

definition collect_metadata :: "pager_env \<Rightarrow> (file_header \<times> superblock) action" where
  "collect_metadata E = pbind draw (\<lambda>k s.
     let h = update_modified_timestamp (env_secs E k)
               ((pgr_header s)\<lparr>fh_total_pages := sb_total_pages (pgr_superblock s),
                  fh_free_pages := fl_total_free (pgr_free_list s), fh_first_free_list_page_id := 0\<rparr>) in
     (Inr (h, pgr_superblock s), s\<lparr>pgr_header := h\<rparr>))"

section \<open>Pages\<close>

definition write_page_to_disk :: "pager_env \<Rightarrow> page \<Rightarrow> unit action" where
  "write_page_to_disk E p =
     pbind (encode_page E p) (\<lambda>bs s.
     write_at (page_offset s (translate (pgr_mapper s) (ph_page_id (pg_header p)))) bs s)"

definition write_back :: "pager_env \<Rightarrow> page option \<Rightarrow> unit action" where
  "write_back E evicted = (case evicted of None \<Rightarrow> pret () | Some q \<Rightarrow> write_page_to_disk E q)"

definition allocate_physical :: "page_id action" where
  "allocate_physical s =
     (case pop_page (pgr_free_list s) of
        (Some i, fl) \<Rightarrow>
          (Inr i, s\<lparr>pgr_free_list := fl, pgr_superblock := mark_page_allocated (pgr_superblock s)\<rparr>)
      | (None, fl) \<Rightarrow>
          (let (i, sb) = allocate_new_page (pgr_superblock s) in
           (Inr i, s\<lparr>pgr_free_list := fl, pgr_superblock := sb\<rparr>)))"

definition allocate_page :: "pager_env \<Rightarrow> page_type \<Rightarrow> page_id action" where
  "allocate_page E t =
     pbind (\<lambda>s. let (v, m) = allocate_virtual (pgr_mapper s) in (Inr v, s\<lparr>pgr_mapper := m\<rparr>)) (\<lambda>v.
     pbind allocate_physical (\<lambda>i.
     pbind (\<lambda>s. (Inr (), s\<lparr>pgr_mapper := remap v i (pgr_mapper s)\<rparr>)) (\<lambda>_.
     pbind (\<lambda>s. let p = config_page s v t [] in
              encode_page E (p\<lparr>pg_header := (pg_header p)\<lparr>ph_virtual_page_id := v\<rparr>\<rparr>) s) (\<lambda>bs.
     pbind (collect_metadata E) (\<lambda>(h, sb).
     pbind (\<lambda>s. write_at (page_offset s i) bs s) (\<lambda>_.
     pbind (write_metadata E h sb) (\<lambda>_.
     pret v)))))))"

definition free_page :: "pager_env \<Rightarrow> page_id \<Rightarrow> unit action" where
  "free_page E v s =
     (if v = 0 \<or> v = 1 then (Inl (InvalidPageId v), s)
      else let i = translate (pgr_mapper s) v in
      if is_pinned i (pgr_pins s) then (Inl (PagePinned i), s)
      else
        pbind (plift (decode_block E s (read_block (pgr_file s) (page_offset s i) (size_of s)))) (\<lambda>p.
        if ph_page_type (pg_header p) = PT_Free \<or> ph_page_type (pg_header p) = PT_FreeList
        then perr (PageAlreadyFree i)
        else
          pbind (\<lambda>s. encode_page E (config_page s i PT_Free []) s) (\<lambda>bs.
          pbind (\<lambda>s. write_at (page_offset s i) bs s) (\<lambda>_.
          pbind (\<lambda>s. (Inr (), s\<lparr>pgr_mapper := unmap v (pgr_mapper s),
                     pgr_free_list := push_page i (pgr_free_list s),
                     pgr_superblock := mark_page_freed (pgr_superblock s)\<rparr>)) (\<lambda>_.
          pbind (collect_metadata E) (\<lambda>(h, sb).
          write_metadata E h sb))))) s)"

definition read_uncached :: "pager_env \<Rightarrow> page_id \<Rightarrow> page_id \<Rightarrow> page action" where
  "read_uncached E v i s =
     pbind (plift (decode_block E s (read_block (pgr_file s) (page_offset s i) (size_of s)))) (\<lambda>p.
     let p = (if ph_virtual_page_id (pg_header p) \<noteq> v
              then p\<lparr>pg_header := (pg_header p)\<lparr>ph_virtual_page_id := v\<rparr>\<rparr> else p) in
     pbind (\<lambda>s. case pgr_cache s of
              None \<Rightarrow> (Inr (), s)
            | Some c \<Rightarrow> (let (evicted, c) = cache_put p False c in write_back E evicted (s\<lparr>pgr_cache := Some c\<rparr>))) (\<lambda>_.
     pret p)) s"

definition cached :: "page_id \<Rightarrow> page option action" where
  "cached v s =
     (case pgr_cache s of
        None \<Rightarrow> (Inr None, s)
      | Some c \<Rightarrow> (let (r, c) = cache_get v c in (Inr r, s\<lparr>pgr_cache := Some c\<rparr>)))"

definition read_page :: "pager_env \<Rightarrow> page_id \<Rightarrow> page action" where
  "read_page E v s =
     (let i = translate (pgr_mapper s) v in
      if i \<ge> sb_total_pages (pgr_superblock s) then (Inl (PageNotFound i), s)
      else
        pbind (cached v) (\<lambda>hit.
        case hit of
          Some p \<Rightarrow> pret p
        | None \<Rightarrow> (\<lambda>s.
            let s = s\<lparr>pgr_pins := snd (pin i (pgr_pins s))\<rparr>;
                (result, s) = read_uncached E v i s in
            (result, s\<lparr>pgr_pins := snd (unpin i (pgr_pins s))\<rparr>))) s)"

definition mark_cached_clean :: "page_id \<Rightarrow> unit action" where
  "mark_cached_clean v s =
     (Inr (), s\<lparr>pgr_cache := map_option (\<lambda>c. snd (mark_clean v c)) (pgr_cache s)\<rparr>)"

definition write_page :: "pager_env \<Rightarrow> page \<Rightarrow> unit action" where
  "write_page E p s =
     (case pgr_cache s of
        Some c \<Rightarrow>
          if pc_cache_write_back (pgr_config s)
          then let (evicted, c) = cache_put p True c in
               pbind (write_back E evicted) (\<lambda>_.
               pbind (write_page_to_disk E p) (\<lambda>_.
               mark_cached_clean (ph_page_id (pg_header p)))) (s\<lparr>pgr_cache := Some c\<rparr>)
          else pbind (write_page_to_disk E p) (\<lambda>_ s.
               (Inr (), s\<lparr>pgr_cache := map_option (\<lambda>c. snd (cache_put p False c)) (pgr_cache s)\<rparr>)) s
      | None \<Rightarrow> write_page_to_disk E p s)"

definition flush_cache :: "pager_env \<Rightarrow> unit action" where
  "flush_cache E s =
     (case pgr_cache s of
        None \<Rightarrow> (Inr (), s)
      | Some c \<Rightarrow>
          pmapM (\<lambda>(i, p). pbind (write_page_to_disk E p) (\<lambda>_. mark_cached_clean i)) (get_dirty_pages c) s)"

definition clear_cache :: "pager_env \<Rightarrow> unit action" where
  "clear_cache E s =
     (case pgr_cache s of
        None \<Rightarrow> (Inr (), s)
      | Some c \<Rightarrow>
          (let (dirty, c) = cache_clear c in
           pmapM (\<lambda>(i, p). write_page_to_disk E p) dirty (s\<lparr>pgr_cache := Some c\<rparr>)))"

section \<open>The superblock\<close>

definition write_superblock :: "pager_env \<Rightarrow> superblock \<Rightarrow> unit action" where
  "write_superblock E sb =
     pbind draw (\<lambda>k s.
     write_page E (config_page s 1 PT_Superblock
       (superblock_to_bytes (env_order E k (pm_mapping (sb_page_mapper sb))) sb)) s)"

definition persist_page_mapper :: "pager_env \<Rightarrow> unit action" where
  "persist_page_mapper E s =
     (if \<not> pm_dirty (pgr_mapper s) then (Inr (), s)
      else let sb = (pgr_superblock s)\<lparr>sb_page_mapper := pgr_mapper s\<rparr> in
           pbind (write_superblock E sb) (\<lambda>_ s. (Inr (), s\<lparr>pgr_mapper := clear_dirty (pgr_mapper s)\<rparr>))
             (s\<lparr>pgr_superblock := sb\<rparr>))"

definition pager_sync :: "pager_env \<Rightarrow> unit action" where
  "pager_sync E = pbind (flush_cache E) (\<lambda>_. persist_page_mapper E)"

definition set_root_btree_page :: "pager_env \<Rightarrow> page_id \<Rightarrow> unit action" where
  "set_root_btree_page E i s =
     (let sb = (pgr_superblock s)\<lparr>sb_root_btree_page := i\<rparr> in write_superblock E sb (s\<lparr>pgr_superblock := sb\<rparr>))"

definition set_btree_row_count :: "pager_env \<Rightarrow> u64 \<Rightarrow> unit action" where
  "set_btree_row_count E n s =
     (let sb = (pgr_superblock s)\<lparr>sb_btree_row_count := n\<rparr> in write_superblock E sb (s\<lparr>pgr_superblock := sb\<rparr>))"

definition write_header :: "file_header \<Rightarrow> unit action" where
  "write_header h s = write_at 0 (header_block s h) s"

definition read_free_list_page :: "pager_env \<Rightarrow> page_id \<Rightarrow> free_list_page action" where
  "read_free_list_page E i = pbind (read_page E i) (\<lambda>p. plift (flp_from_bytes (pg_data p)))"

definition write_free_list_page :: "pager_env \<Rightarrow> page_id \<Rightarrow> free_list_page \<Rightarrow> unit action" where
  "write_free_list_page E i flp s = write_page E (config_page s i PT_FreeList (flp_to_bytes flp)) s"

section \<open>Creating and opening\<close>

definition cache_of :: "pager_config \<Rightarrow> page_cache option" where
  "cache_of cfg =
     (if pc_cache_capacity cfg > 0
      then Some (cache_new (cache_config_default\<lparr>cc_capacity := pc_cache_capacity cfg,
                              cc_write_back := pc_cache_write_back cfg\<rparr>))
      else None)"

text \<open>The mapper of a superblock, its next virtual id raised to the next page id.\<close>

definition synced_mapper :: "superblock \<Rightarrow> page_mapper" where
  "synced_mapper sb =
     (let m = sb_page_mapper sb in
      if pm_next_virtual_id m < sb_next_page_id sb
      then mapper_from_state (pm_mapping m) (sb_next_page_id sb) else m)"

definition pager_create :: "pager_env \<Rightarrow> u64 \<Rightarrow> memory_fs \<Rightarrow> string \<Rightarrow> pager_config \<Rightarrow> pager_error + pager" where
  "pager_create E nanos fs path cfg =
     (if pager_config_validate cfg \<noteq> Inr () then Inl ConfigError
      else case create_file fs path of
        Inl e \<Rightarrow> Inl (VfsError e)
      | Inr f \<Rightarrow>
          let s0 = \<lparr>pgr_file = f, pgr_config = cfg,
                    pgr_header = file_header_new nanos (env_secs E 0) (pc_page_size cfg) (pc_compression cfg) (pc_encryption cfg),
                    pgr_superblock = superblock_new, pgr_free_list = free_list_new,
                    pgr_mapper = synced_mapper superblock_new, pgr_cache = cache_of cfg,
                    pgr_pins = Map.empty, pgr_draws = 1\<rparr> in
          (case pbind (\<lambda>s. write_at 0 (header_block s (pgr_header s)) s) (\<lambda>_.
                pbind draw (\<lambda>k.
                pbind (encode_page E ((page_new 1 PT_Superblock)\<lparr>pg_data :=
                    superblock_to_bytes (env_order E k (pm_mapping (sb_page_mapper superblock_new))) superblock_new\<rparr>)) (\<lambda>bs s.
                write_at (size_of s) bs s))) s0 of
             (Inl e, s) \<Rightarrow> Inl e
           | (Inr u, s) \<Rightarrow> Inr s))"

text \<open>
  The loop over the chain of free-list pages; it follows stored page ids and has no bound of its own,
  so it carries fuel and answers \<open>None\<close> when that runs out.
\<close>

fun read_free_pages ::
    "nat \<Rightarrow> pager_env \<Rightarrow> open_file_state \<Rightarrow> nat \<Rightarrow> page_id \<Rightarrow> page_id list \<Rightarrow> (pager_error + page_id list) option" where
  "read_free_pages fuel E f n i acc =
     (if i = 0 then Some (Inr acc)
      else case fuel of
        0 \<Rightarrow> None
      | Suc fuel \<Rightarrow>
          (case page_from_bytes (env_libs E) (read_block f (unat (i * of_nat n)) n) True None of
             Inl e \<Rightarrow> Some (Inl e)
           | Inr p \<Rightarrow>
               (case flp_from_bytes (pg_data p) of
                  Inl e \<Rightarrow> Some (Inl e)
                | Inr flp \<Rightarrow> read_free_pages fuel E f n (flp_next_page flp) (acc @ flp_free_pages flp))))"

definition pager_open :: "nat \<Rightarrow> pager_env \<Rightarrow> memory_fs \<Rightarrow> string \<Rightarrow> (pager_error + pager) option" where
  "pager_open fuel E fs path =
     (case open_file fs path of
        Inl e \<Rightarrow> Some (Inl (VfsError e))
      | Inr hnd \<Rightarrow>
          let f = (fs, hnd) in
          (case file_header_from_bytes (read_block f 0 (unat (page_size_to_u32 Size4KB))) of
             Inl e \<Rightarrow> Some (Inl e)
           | Inr h \<Rightarrow>
               let n = unat (page_size_to_u32 (fh_page_size h)) in
               (case rbind (page_from_bytes (env_libs E) (read_block f n n) True None) (\<lambda>p.
                       superblock_from_bytes (pg_data p)) of
                  Inl e \<Rightarrow> Some (Inl e)
                | Inr sb \<Rightarrow>
                    let cfg = \<lparr>pc_page_size = fh_page_size h, pc_compression = fh_compression h,
                               pc_encryption = fh_encryption h, pc_encryption_key = None,
                               pc_enable_checksums = True, pc_cache_capacity = 1000, pc_cache_write_back = True\<rparr>;
                        fl = free_list_from_state (sb_first_free_list_page sb) (sb_last_free_list_page sb) (sb_free_pages sb);
                        done_with = (\<lambda>fl. Some (Inr
                          \<lparr>pgr_file = f, pgr_config = cfg, pgr_header = h, pgr_superblock = sb, pgr_free_list = fl,
                           pgr_mapper = synced_mapper sb, pgr_cache = cache_of cfg, pgr_pins = Map.empty,
                           pgr_draws = 0\<rparr>)) in
                    if sb_free_pages sb > 0 \<and> sb_first_free_list_page sb \<noteq> 0
                    then (case read_free_pages fuel E f n (sb_first_free_list_page sb) [] of
                            None \<Rightarrow> None
                          | Some (Inl e) \<Rightarrow> Some (Inl e)
                          | Some (Inr ids) \<Rightarrow> done_with (set_free_pages ids fl))
                    else done_with fl)))"

section \<open>Overflow chains\<close>

definition write_overflow_page :: "pager_env \<Rightarrow> page_id \<Rightarrow> bytes \<Rightarrow> page_id option \<Rightarrow> unit action" where
  "write_overflow_page E i d nxt s =
     (let h = overflow_header_new (case nxt of Some j \<Rightarrow> ucast j | None \<Rightarrow> 0) (of_nat (length d)) (env_crc32 E d) in
      write_page E (config_page s i PT_Overflow (overflow_header_to_bytes h @ d)) s)"

definition link_overflow_pages :: "pager_env \<Rightarrow> page_id \<Rightarrow> page_id \<Rightarrow> unit action" where
  "link_overflow_pages E i j =
     pbind (read_page E i) (\<lambda>p.
     pbind (plift (overflow_header_from_bytes (pg_data p))) (\<lambda>h s.
     write_page E (config_page s i PT_Overflow
       (overflow_header_to_bytes (h\<lparr>oh_next_page_id := ucast j\<rparr>) @ drop 32 (pg_data p))) s))"

fun allocate_many :: "pager_env \<Rightarrow> page_type \<Rightarrow> nat \<Rightarrow> page_id list action" where
  "allocate_many E t 0 = pret []"
| "allocate_many E t (Suc n) =
     pbind (allocate_page E t) (\<lambda>i. pbind (allocate_many E t n) (\<lambda>is. pret (i # is)))"

text \<open>Writes \<open>d\<close> in chunks of \<open>c\<close> bytes to the pages, each linked to the next.\<close>

fun write_chain :: "pager_env \<Rightarrow> nat \<Rightarrow> page_id list \<Rightarrow> bytes \<Rightarrow> unit action" where
  "write_chain E c [] d = pret ()"
| "write_chain E c (i # is) d =
     pbind (write_overflow_page E i (take c d) (case is of [] \<Rightarrow> None | j # _ \<Rightarrow> Some j)) (\<lambda>_.
     write_chain E c is (drop c d))"

definition chunk_size :: "pager \<Rightarrow> nat" where
  "chunk_size s = page_data_size (pc_page_size (pgr_config s)) - 32"

definition allocate_overflow_chain :: "pager_env \<Rightarrow> bytes \<Rightarrow> page_id list action" where
  "allocate_overflow_chain E d s =
     (if d = [] then (Inr [], s)
      else let c = chunk_size s; num_pages = (length d + c - 1) div c in
           pbind (allocate_many E PT_Overflow num_pages) (\<lambda>is.
           pbind (write_chain E c is d) (\<lambda>_. pret is)) s)"

text \<open>One page of a chain: its data and the header that links it.\<close>

definition read_overflow_page :: "pager_env \<Rightarrow> page_id \<Rightarrow> (bytes \<times> overflow_header) action" where
  "read_overflow_page E i =
     pbind (read_page E i) (\<lambda>p.
     if ph_page_type (pg_header p) \<noteq> PT_Overflow then perr PagerInternalError
     else pbind (plift (overflow_header_from_bytes (pg_data p))) (\<lambda>h.
       let data_end = 32 + unat (oh_data_length h) in
       if data_end > length (pg_data p) then perr PagerInternalError
       else let d = bslice 32 data_end (pg_data p) in
       if env_crc32 E d \<noteq> oh_checksum h then perr PagerInternalError
       else pret (d, h)))"

text \<open>The loops over a chain have no bound of their own: they carry fuel and answer \<open>None\<close> without.\<close>

fun read_overflow_chain :: "nat \<Rightarrow> pager_env \<Rightarrow> page_id \<Rightarrow> bytes \<Rightarrow> pager \<Rightarrow> ((pager_error + bytes) \<times> pager) option" where
  "read_overflow_chain 0 E i acc s = None"
| "read_overflow_chain (Suc fuel) E i acc s =
     (case read_overflow_page E i s of
        (Inl e, s) \<Rightarrow> Some (Inl e, s)
      | (Inr (d, h), s) \<Rightarrow>
          if overflow_is_last h then Some (Inr (acc @ d), s)
          else read_overflow_chain fuel E (ucast (oh_next_page_id h)) (acc @ d) s)"

definition free_chain_step :: "pager_env \<Rightarrow> page_id \<Rightarrow> page_id option action" where
  "free_chain_step E i =
     pbind (read_page E i) (\<lambda>p.
     if ph_page_type (pg_header p) \<noteq> PT_Overflow then perr PagerInternalError
     else pbind (plift (overflow_header_from_bytes (pg_data p))) (\<lambda>h.
       pbind (free_page E i) (\<lambda>_.
       pret (if overflow_is_last h then None else Some (ucast (oh_next_page_id h))))))"

fun free_overflow_chain :: "nat \<Rightarrow> pager_env \<Rightarrow> page_id \<Rightarrow> pager \<Rightarrow> ((pager_error + unit) \<times> pager) option" where
  "free_overflow_chain 0 E i s = None"
| "free_overflow_chain (Suc fuel) E i s =
     (case free_chain_step E i s of
        (Inl e, s) \<Rightarrow> Some (Inl e, s)
      | (Inr None, s) \<Rightarrow> Some (Inr (), s)
      | (Inr (Some j), s) \<Rightarrow> free_overflow_chain fuel E j s)"

definition free_value_ref :: "nat \<Rightarrow> pager_env \<Rightarrow> value_ref \<Rightarrow> pager \<Rightarrow> ((pager_error + nat) \<times> pager) option" where
  "free_value_ref fuel E r s =
     (case r of
        RefInline \<Rightarrow> Some (Inr 0, s)
      | SinglePage i off len \<Rightarrow>
          Some (pbind (free_page E (ucast i)) (\<lambda>_. pret 1) s)
      | OverflowChain i len pages \<Rightarrow>
          (case free_overflow_chain fuel E (ucast i) s of
             None \<Rightarrow> None
           | Some (Inl e, s) \<Rightarrow> Some (Inl e, s)
           | Some (Inr u, s) \<Rightarrow> Some (Inr (unat pages), s)))"

text \<open>All references are tried; the first error is reported at the end.\<close>

fun free_value_refs_loop ::
    "nat \<Rightarrow> pager_env \<Rightarrow> value_ref list \<Rightarrow> nat \<Rightarrow> pager_error option \<Rightarrow> pager \<Rightarrow>
     ((pager_error + nat) \<times> pager) option" where
  "free_value_refs_loop fuel E [] n err s = Some (case err of Some e \<Rightarrow> Inl e | None \<Rightarrow> Inr n, s)"
| "free_value_refs_loop fuel E (r # rs) n err s =
     (case free_value_ref fuel E r s of
        None \<Rightarrow> None
      | Some (Inr k, s) \<Rightarrow> free_value_refs_loop fuel E rs (n + k) err s
      | Some (Inl e, s) \<Rightarrow>
          free_value_refs_loop fuel E rs n (case err of Some e' \<Rightarrow> Some e' | None \<Rightarrow> Some e) s)"

definition free_value_refs :: "nat \<Rightarrow> pager_env \<Rightarrow> value_ref list \<Rightarrow> pager \<Rightarrow> ((pager_error + nat) \<times> pager) option" where
  "free_value_refs fuel E rs s = free_value_refs_loop fuel E rs 0 None s"

section \<open>Compaction\<close>

fun find_used :: "pager_env \<Rightarrow> page_id list \<Rightarrow> page_id option action" where
  "find_used E [] = pret None"
| "find_used E (i # is) =
     pbind (read_page E i) (\<lambda>p.
     if ph_page_type (pg_header p) \<noteq> PT_Free \<and> ph_page_type (pg_header p) \<noteq> PT_FreeList
     then pret (Some i) else find_used E is)"

text \<open>The ids from \<open>a\<close> up to \<open>b\<close>, excluding \<open>b\<close>, downwards.\<close>

definition ids_down :: "nat \<Rightarrow> nat \<Rightarrow> page_id list" where
  "ids_down a b = rev (map of_nat [a..<b])"

definition find_highest_used_page :: "pager_env \<Rightarrow> page_id option action" where
  "find_highest_used_page E s = find_used E (ids_down 2 (unat (sb_total_pages (pgr_superblock s)))) s"

definition move_page :: "pager_env \<Rightarrow> page_id \<Rightarrow> page_id \<Rightarrow> unit action" where
  "move_page E i j =
     (if i = j then perr PagerInternalError
      else if i = 0 \<or> i = 1 then perr (InvalidPageId i)
      else if j = 0 \<or> j = 1 then perr (InvalidPageId j)
      else
        pbind draw (\<lambda>k.
        pbind (\<lambda>s. (Inr (find_virtual_pages_for_physical (env_order E k (pm_mapping (pgr_mapper s))) (pgr_mapper s) i), s)) (\<lambda>vs.
        pbind (read_page E i) (\<lambda>p.
        pbind (write_page_to_disk E (p\<lparr>pg_header := (pg_header p)\<lparr>ph_page_id := j\<rparr>\<rparr>)) (\<lambda>_.
        pbind (\<lambda>s. (Inr (), s\<lparr>pgr_mapper := fold (\<lambda>v. remap v j) vs (pgr_mapper s)\<rparr>)) (\<lambda>_ s.
        write_page_to_disk E (config_page s i PT_Free []) s))))))"

definition truncate_file :: "nat \<Rightarrow> unit action" where
  "truncate_file n s = (Inr (), s\<lparr>pgr_file := set_size n (pgr_file s)\<rparr>)"

fun move_down :: "pager_env \<Rightarrow> page_id list \<Rightarrow> page_id list \<Rightarrow> nat \<Rightarrow> nat action" where
  "move_down E [] free n = pret n"
| "move_down E (i # is) free n =
     pbind (read_page E i) (\<lambda>p.
     if ph_page_type (pg_header p) = PT_Free \<or> ph_page_type (pg_header p) = PT_FreeList
     then move_down E is free n
     else case free of
       [] \<Rightarrow> pret n
     | j # free \<Rightarrow> pbind (move_page E i j) (\<lambda>_. move_down E is free (n + 1)))"

record vacuum_pager_stats =
  vp_file_size_before :: nat
  vp_file_size_after :: nat
  vp_pages_moved :: nat
  vp_pages_truncated :: u64
  vp_bytes_reclaimed :: nat

definition compact_and_truncate :: "pager_env \<Rightarrow> vacuum_pager_stats action" where
  "compact_and_truncate E s =
     (let before = get_size (pgr_file s);
          stats = \<lparr>vp_file_size_before = before, vp_file_size_after = before, vp_pages_moved = 0,
                   vp_pages_truncated = 0, vp_bytes_reclaimed = 0\<rparr> in
      pbind (find_highest_used_page E) (\<lambda>highest.
      case highest of
        None \<Rightarrow> pret (stats\<lparr>vp_file_size_after := before\<rparr>)
      | Some used \<Rightarrow>
          pbind (\<lambda>s. let (ids, fl) = snapshot_free_pages (pgr_free_list s) in
                   (Inr (sort (filter (\<lambda>i. 2 \<le> i \<and> i < used) ids)), s\<lparr>pgr_free_list := fl\<rparr>)) (\<lambda>free.
          pbind (\<lambda>s. move_down E (ids_down (unat used + 1) (unat (sb_total_pages (pgr_superblock s)))) free 0 s) (\<lambda>moved.
          pbind (\<lambda>s. truncate_file ((unat used + 1) * size_of s) s) (\<lambda>_.
          pbind (\<lambda>s. let old = sb_total_pages (pgr_superblock s) in
                   (Inr (old - (used + 1)), s\<lparr>pgr_superblock := (pgr_superblock s)\<lparr>sb_total_pages := used + 1\<rparr>\<rparr>)) (\<lambda>cut.
          pbind (\<lambda>s. write_superblock E (pgr_superblock s) s) (\<lambda>_ s.
          let after = (unat used + 1) * size_of s in
          (Inr (stats\<lparr>vp_file_size_after := after, vp_pages_moved := moved, vp_pages_truncated := cut,
                  vp_bytes_reclaimed := before - after\<rparr>), s))))))) s)"

end
