(* ===== verification/PagerStore.thy ===== *)
theory PagerStore
  imports PagerFile
begin

text \<open>
  The pager implements a store of pages by virtual id: allocating adds an empty page under a new id,
  writing replaces a page, reading returns what was last written and freeing takes the page away,
  and no operation touches another page. The lemmas go from bytes of the file over slots of it to
  the state of the pager; \<open>pager_inv\<close> ties a state to the store it implements.
\<close>

section \<open>Actions\<close>

lemma pbind_draw [simp]: "pbind draw f s = f (pgr_draws s) (s\<lparr>pgr_draws := pgr_draws s + 1\<rparr>)"
  by (simp add: pbind_def draw_def)

section \<open>Slots\<close>

definition byte_at :: "bytes \<Rightarrow> nat \<Rightarrow> u8" where
  "byte_at buf k = (if k < length buf then buf ! k else 0)"

lemma byte_at_overwrite:
  "byte_at (overwrite off bs buf) k = (if off \<le> k \<and> k < off + length bs then bs ! (k - off) else byte_at buf k)"
proof (cases "k < max (off + length bs) (length buf)")
  case True
  then show ?thesis
    using overwrite_nth [OF True] by (auto simp: byte_at_def)
next
  case False
  then show ?thesis
    by (auto simp: byte_at_def)
qed

abbreviation file_bytes :: "pager \<Rightarrow> bytes" where
  "file_bytes s \<equiv> buffer (file_data (pgr_file s))"

definition slot :: "pager \<Rightarrow> page_id \<Rightarrow> bytes" where
  "slot s i = read_block (pgr_file s) (page_offset s i) (size_of s)"

lemma read_block_bytes:
  assumes "length (buffer (file_data f)) < 2 ^ 64"
  shows "read_block f off n = map (\<lambda>k. byte_at (buffer (file_data f)) (off + k)) [0..<n]"
proof (rule nth_equalityI)
  fix k assume "k < length (read_block f off n)"
  then show "read_block f off n ! k = map (\<lambda>k. byte_at (buffer (file_data f)) (off + k)) [0..<n] ! k"
    by (auto simp: read_block_def mem_file.read_at [OF assms] resize_def byte_at_def nth_append)
qed (simp add: read_block_def)

lemma size_of_bounds: "4096 \<le> size_of s" "size_of s < 2 ^ 32"
  unfolding size_of_def by (cases "pc_page_size (pgr_config s)"; simp)+

definition in_file :: "pager \<Rightarrow> page_id \<Rightarrow> bool" where
  "in_file s i \<longleftrightarrow> unat i * size_of s + size_of s < 2 ^ 64"

lemma page_offset_in_file: "in_file s i \<Longrightarrow> page_offset s i = unat i * size_of s"
  using size_of_bounds [of s] by (simp add: in_file_def page_offset_def unat_word_ariths unat_of_nat)

lemma page_offset_low: "page_offset s 0 = 0" "page_offset s 1 = size_of s"
  using size_of_bounds [of s] by (simp_all add: page_offset_def unat_of_nat)

lemma in_file_low: "in_file s 0" "in_file s 1"
  using size_of_bounds [of s] by (simp_all add: in_file_def)

lemma length_slot [simp]: "length (slot s i) = size_of s"
  by (simp add: slot_def read_block_def)

lemma write_slot:
  assumes "length bs = size_of s" and "in_file s i" and "length (file_bytes s) < 2 ^ 64"
  obtains f where "write_at (page_offset s i) bs s = (Inr (), s\<lparr>pgr_file := f\<rparr>)"
    and "length (buffer (file_data f)) < 2 ^ 64"
    and "\<And>t. t = s\<lparr>pgr_file := f\<rparr> \<Longrightarrow> slot t i = bs"
    and "\<And>t j. t = s\<lparr>pgr_file := f\<rparr> \<Longrightarrow> in_file s j \<Longrightarrow> j \<noteq> i \<Longrightarrow> slot t j = slot s j"
proof -
  let ?n = "size_of s"
  note off = page_offset_in_file [OF assms(2)]
  have small: "page_offset s i + length bs < 2 ^ 64"
    using assms(1,2) off by (simp add: in_file_def)
  then obtain f where f: "write_to_offset (pgr_file s) (page_offset s i) bs = Inr f"
    "buffer (file_data f) = overwrite (page_offset s i) bs (file_bytes s)"
    using mem_file.write_at by blast
  have len: "length (buffer (file_data f)) < 2 ^ 64"
    using f(2) small assms(3) by simp
  have slot': "slot (s\<lparr>pgr_file := f\<rparr>) j = map (\<lambda>k. byte_at (buffer (file_data f)) (page_offset s j + k)) [0..<?n]" for j
    using read_block_bytes [OF len] by (simp add: slot_def size_of_def page_offset_def)
  have "slot (s\<lparr>pgr_file := f\<rparr>) i = bs"
    unfolding slot' f(2) byte_at_overwrite using assms(1) by (intro nth_equalityI) auto
  moreover have "slot (s\<lparr>pgr_file := f\<rparr>) j = slot s j" if "in_file s j" "j \<noteq> i" for j
  proof -
    have "unat j \<noteq> unat i"
      using that(2) by (simp only: word_unat_eq_iff not_False_eq_True)
    then have "unat j * ?n + ?n \<le> unat i * ?n \<or> unat i * ?n + ?n \<le> unat j * ?n"
      by (metis Suc_leI add.commute linorder_neq_iff mult_Suc mult_le_mono1)
    then show ?thesis
      unfolding slot' f(2) byte_at_overwrite off page_offset_in_file [OF that(1)]
      using assms(1) read_block_bytes [OF assms(3)] by (auto simp: slot_def page_offset_in_file [OF that(1)])
  qed
  ultimately show ?thesis
    using that [of f] f(1) len by (simp add: write_at_def)
qed

section \<open>Encoded pages\<close>

text \<open>A page without what the codec and the reader fill in: the two sizes and the virtual id.\<close>

definition page_core :: "page \<Rightarrow> page" where
  "page_core p = p\<lparr>pg_header := (pg_header p)\<lparr>ph_uncompressed_size := 0, ph_compressed_size := 0,
     ph_virtual_page_id := 0\<rparr>\<rparr>"

definition env_ok :: "pager_env \<Rightarrow> bool" where
  "env_ok E \<longleftrightarrow> libs_ok (env_libs E) \<and> (\<forall>k. length (env_nonce E k) = 12)"

text \<open>A page that can be stored: its type is known to the decoder and its encoding fills a slot.\<close>

definition page_ok :: "pager_env \<Rightarrow> pager \<Rightarrow> page \<Rightarrow> bool" where
  "page_ok E s p \<longleftrightarrow>
     readable_type (ph_page_type (pg_header p)) \<and> length (pg_data p) < 2 ^ 32 \<and>
     (\<forall>k. \<exists>bs. page_to_bytes (env_libs E) (env_nonce E k) p (size_of s) (pc_encryption_key (pgr_config s)) = Inr bs \<and>
        length bs = size_of s)"

text \<open>
  What the configured codecs have to grant the pager for its own pages: whatever carries at most the
  352 bytes of a superblock can be stored.
\<close>

definition codecs_fit :: "pager_env \<Rightarrow> pager \<Rightarrow> bool" where
  "codecs_fit E s \<longleftrightarrow>
     (\<forall>p. ph_compression (pg_header p) = pc_compression (pgr_config s) \<and>
        ph_encryption (pg_header p) = pc_encryption (pgr_config s) \<and>
        readable_type (ph_page_type (pg_header p)) \<and> length (pg_data p) \<le> 352 \<longrightarrow> page_ok E s p)"

lemma page_core_update [simp]:
  "page_core (p\<lparr>pg_header := (pg_header p)\<lparr>ph_uncompressed_size := a, ph_compressed_size := b\<rparr>\<rparr>) = page_core p"
  "page_core (p\<lparr>pg_header := (pg_header p)\<lparr>ph_virtual_page_id := v\<rparr>\<rparr>) = page_core p"
  by (simp_all add: page_core_def)

lemma page_core_fields [simp]:
  "pg_data (page_core p) = pg_data p" "ph_page_type (pg_header (page_core p)) = ph_page_type (pg_header p)"
  "ph_page_id (pg_header (page_core p)) = ph_page_id (pg_header p)"
  by (simp_all add: page_core_def)

lemma page_core_eqD:
  assumes "page_core p = page_core q"
  shows "pg_data p = pg_data q" "ph_page_type (pg_header p) = ph_page_type (pg_header q)"
    "ph_page_id (pg_header p) = ph_page_id (pg_header q)"
  using arg_cong [OF assms, of pg_data] arg_cong [OF assms, of "\<lambda>p. ph_page_type (pg_header p)"]
    arg_cong [OF assms, of "\<lambda>p. ph_page_id (pg_header p)"] by simp_all

lemma encode_ok:
  assumes "env_ok E" and "page_ok E s p"
  obtains bs q where "encode_page E p s = (Inr bs, s\<lparr>pgr_draws := pgr_draws s + 1\<rparr>)"
    and "length bs = size_of s" and "decode_block E s bs = Inr q" and "page_core q = page_core p"
proof -
  let ?key = "pc_encryption_key (pgr_config s)"
  obtain bs where bs: "page_to_bytes (env_libs E) (env_nonce E (pgr_draws s)) p (size_of s) ?key = Inr bs"
    "length bs = size_of s"
    using assms(2) by (auto simp: page_ok_def)
  have "length bs < 2 ^ 32" "length (pg_data p) < 2 ^ 32" "readable_type (ph_page_type (pg_header p))"
    using bs(2) size_of_bounds [of s] assms(2) by (auto simp: page_ok_def)
  then obtain sz where "decode_block E s bs = Inr (p\<lparr>pg_header := (pg_header p)\<lparr>
      ph_uncompressed_size := of_nat (length (pg_data p)), ph_compressed_size := sz\<rparr>\<rparr>)"
    using page_from_to_bytes [OF _ _ bs(1), of "pc_enable_checksums (pgr_config s)"] assms(1)
    by (auto simp: env_ok_def decode_block_def)
  moreover have "encode_page E p s = (Inr bs, s\<lparr>pgr_draws := pgr_draws s + 1\<rparr>)"
    using bs(1) by (simp add: encode_page_def size_of_def)
  ultimately show ?thesis
    using that bs(2) by fastforce
qed

text \<open>These only look at the configuration.\<close>

lemma config_cong:
  assumes "pgr_config s' = pgr_config s"
  shows "size_of s' = size_of s" "page_ok E s' = page_ok E s" "codecs_fit E s' = codecs_fit E s"
    "decode_block E s' = decode_block E s" "in_file s' = in_file s" "page_offset s' = page_offset s"
    "config_page s' = config_page s" "header_block s' = header_block s"
  using assms
  by (simp_all add: size_of_def page_ok_def codecs_fit_def decode_block_def in_file_def page_offset_def
      config_page_def header_block_def fun_eq_iff)

definition disk_view :: "pager_env \<Rightarrow> pager \<Rightarrow> page_id \<Rightarrow> page option" where
  "disk_view E s v =
     (case decode_block E s (slot s (translate (pgr_mapper s) v)) of Inl e \<Rightarrow> None | Inr p \<Rightarrow> Some (page_core p))"

text \<open>A step that changes nothing but slots in \<open>I\<close> of the file and the draw counter.\<close>

definition touches :: "page_id set \<Rightarrow> pager \<Rightarrow> pager \<Rightarrow> bool" where
  "touches I s t \<longleftrightarrow>
     t = s\<lparr>pgr_file := pgr_file t, pgr_draws := pgr_draws t\<rparr> \<and> length (file_bytes t) < 2 ^ 64 \<and>
     (\<forall>j. in_file s j \<longrightarrow> j \<notin> I \<longrightarrow> slot t j = slot s j)"

lemma touches_config: "touches I s t \<Longrightarrow> pgr_config t = pgr_config s"
  unfolding touches_def by (metis pager.select_convs(2) pager.surjective pager.update_convs(1,9))

lemma touches_trans:
  assumes "touches I s t" and "touches J t u"
  shows "touches (I \<union> J) s u"
proof -
  have "u = s\<lparr>pgr_file := pgr_file u, pgr_draws := pgr_draws u\<rparr>"
    using assms unfolding touches_def by (metis pager.surjective pager.update_convs(1,9))
  then show ?thesis
    using assms config_cong(5) [OF touches_config [OF assms(1)]] by (simp add: touches_def)
qed

lemma touches_draw: "length (file_bytes s) < 2 ^ 64 \<Longrightarrow> touches {} s (s\<lparr>pgr_draws := d\<rparr>)"
  by (simp add: touches_def slot_def size_of_def page_offset_def)

lemma slot_draws [simp]: "slot (s\<lparr>pgr_draws := d\<rparr>) = slot s"
  by (simp add: slot_def size_of_def page_offset_def fun_eq_iff)

lemma write_slot_touches:
  assumes "length bs = size_of s" and "in_file s i" and "length (file_bytes s) < 2 ^ 64"
  obtains t where "write_at (page_offset s i) bs s = (Inr (), t)" and "touches {i} s t" and "slot t i = bs"
  using assms
proof (rule write_slot)
  fix f
  assume f: "write_at (page_offset s i) bs s = (Inr (), s\<lparr>pgr_file := f\<rparr>)" "length (buffer (file_data f)) < 2 ^ 64"
    "\<And>t. t = s\<lparr>pgr_file := f\<rparr> \<Longrightarrow> slot t i = bs"
    "\<And>t j. t = s\<lparr>pgr_file := f\<rparr> \<Longrightarrow> in_file s j \<Longrightarrow> j \<noteq> i \<Longrightarrow> slot t j = slot s j"
  have "touches {i} s (s\<lparr>pgr_file := f\<rparr>)"
    unfolding touches_def using f(2,4) by simp
  then show ?thesis
    using that f(1,3) by blast
qed

text \<open>Storing a page in a slot.\<close>

lemma store_in_slot:
  assumes "env_ok E" and "page_ok E s p" and "in_file s i" and "length (file_bytes s) < 2 ^ 64"
  obtains t q where "pbind (encode_page E p) (\<lambda>bs s. write_at (page_offset s i) bs s) s = (Inr (), t)"
    and "touches {i} s t" and "decode_block E t (slot t i) = Inr q" and "page_core q = page_core p"
proof -
  obtain bs q where enc: "encode_page E p s = (Inr bs, s\<lparr>pgr_draws := pgr_draws s + 1\<rparr>)" "length bs = size_of s"
    "decode_block E s bs = Inr q" "page_core q = page_core p"
    using encode_ok [OF assms(1,2)] .
  let ?s = "s\<lparr>pgr_draws := pgr_draws s + 1\<rparr>"
  have cong: "size_of ?s = size_of s" "in_file ?s = in_file s" "page_offset ?s = page_offset s"
    by (rule config_cong; simp)+
  have "length bs = size_of ?s" "in_file ?s i" "length (file_bytes ?s) < 2 ^ 64"
    using enc(2) assms(3,4) cong by simp_all
  then obtain t where t: "write_at (page_offset ?s i) bs ?s = (Inr (), t)" "touches {i} ?s t" "slot t i = bs"
    by (rule write_slot_touches)
  have "touches {i} s t"
    using touches_trans [OF touches_draw [OF assms(4)] t(2)] by simp
  moreover have "decode_block E t (slot t i) = Inr q"
    using config_cong(4) [OF touches_config [OF \<open>touches {i} s t\<close>]] enc(3) t(3) by simp
  moreover have "pbind (encode_page E p) (\<lambda>bs s. write_at (page_offset s i) bs s) s = (Inr (), t)"
    using enc(1) t(1) by (simp add: pbind_def)
  ultimately show ?thesis
    using that enc(4) by blast
qed

lemma config_updates [simp]:
  "size_of (s\<lparr>pgr_file := f\<rparr>) = size_of s" "size_of (s\<lparr>pgr_draws := d\<rparr>) = size_of s"
  "size_of (s\<lparr>pgr_cache := c\<rparr>) = size_of s" "size_of (s\<lparr>pgr_mapper := m\<rparr>) = size_of s"
  "size_of (s\<lparr>pgr_superblock := sb\<rparr>) = size_of s" "size_of (s\<lparr>pgr_free_list := fl\<rparr>) = size_of s"
  "size_of (s\<lparr>pgr_header := h\<rparr>) = size_of s" "size_of (s\<lparr>pgr_pins := pt\<rparr>) = size_of s"
  by (simp_all add: size_of_def)

lemma length_superblock_to_bytes [simp]: "length (superblock_to_bytes order sb) = 352"
  by (simp add: superblock_to_bytes_def Let_def)

lemma length_file_header: "file_header_wf h \<Longrightarrow> length (file_header_to_bytes h) = 256"
  using file_header_fields(14) [of h "[]"] by simp

lemma length_header_block: "file_header_wf h \<Longrightarrow> length (header_block s h) = size_of s"
  using size_of_bounds [of s] by (simp add: header_block_def length_file_header)

lemma config_page_ok: "codecs_fit E s \<Longrightarrow> readable_type t \<Longrightarrow> length d \<le> 352 \<Longrightarrow> page_ok E s (config_page s i t d)"
  by (simp add: codecs_fit_def config_page_def page_header_new_def)

lemma touches_mono: "touches I s t \<Longrightarrow> I \<subseteq> J \<Longrightarrow> touches J s t"
  by (auto simp: touches_def)

lemma write_metadata_touches:
  assumes "env_ok E" and "codecs_fit E s" and "file_header_wf h" and "length (file_bytes s) < 2 ^ 64"
  obtains t where "write_metadata E h sb s = (Inr (), t)" and "touches {0, 1} s t"
proof -
  have "length (header_block s h) = size_of s" "in_file s 0" "length (file_bytes s) < 2 ^ 64"
    using assms length_header_block in_file_low by simp_all
  then obtain t where t: "write_at (page_offset s 0) (header_block s h) s = (Inr (), t)" "touches {0} s t"
    by (rule write_slot_touches)
  let ?t = "t\<lparr>pgr_draws := pgr_draws t + 1\<rparr>"
  let ?p = "config_page ?t 1 PT_Superblock
    (superblock_to_bytes (env_order E (pgr_draws t) (pm_mapping (sb_page_mapper sb))) sb)"
  have small: "length (file_bytes t) < 2 ^ 64"
    using t(2) by (simp add: touches_def)
  have tt: "touches {0} s ?t"
    using touches_trans [OF t(2) touches_draw [OF small]] by simp
  have "codecs_fit E ?t"
    using assms(2) config_cong(3) [OF touches_config [OF tt]] by simp
  then have "page_ok E ?t ?p"
    by (intro config_page_ok) (simp_all add: readable_type_def)
  then obtain u q where "pbind (encode_page E ?p) (\<lambda>bs s. write_at (page_offset s 1) bs s) ?t = (Inr (), u)"
    "touches {1} ?t u"
    using store_in_slot [OF assms(1), of ?t ?p 1] in_file_low(2) small by auto
  moreover have "write_metadata E h sb s = pbind (encode_page E ?p) (\<lambda>bs s. write_at (page_offset s 1) bs s) ?t"
    using t(1) by (simp add: write_metadata_def pbind_def draw_def page_offset_low)
  moreover have "{0 :: page_id} \<union> {1} = {0, 1}"
    by auto
  ultimately show ?thesis
    using that touches_trans [OF tt, of "{1}" u] by metis
qed

section \<open>The cache between calls\<close>

type_synonym page_store = "page_id \<rightharpoonup> page"

text \<open>Between calls the cache holds no dirty page, no future id, and of the store only what is in it.\<close>

definition cache_sound :: "page_cache \<Rightarrow> nat \<Rightarrow> page_store \<Rightarrow> bool" where
  "cache_sound c nv M \<longleftrightarrow>
     (\<exists>cap. cache_ok cap c) \<and>
     (\<forall>v p d. cache_lookup c v = Some (p, d) \<longrightarrow>
        \<not> d \<and> unat v < nv \<and> (\<forall>q. M v = Some q \<longrightarrow> page_core p = q))"

lemma cache_soundD:
  assumes "cache_sound c nv M" and "cache_lookup c v = Some (p, d)"
  shows "\<not> d" "unat v < nv" "M v = Some q \<Longrightarrow> page_core p = q"
  using assms unfolding cache_sound_def by blast+

lemma cache_soundE: "cache_sound c nv M \<Longrightarrow> \<exists>cap. cache_ok cap c"
  by (simp add: cache_sound_def)

lemma cache_sound_mono:
  assumes "cache_sound c nv M" and "nv \<le> nv'"
    and "\<And>v q. unat v < nv \<Longrightarrow> M' v = Some q \<Longrightarrow> M v = Some q"
  shows "cache_sound c nv' M'"
  using assms(1,2) assms(3) unfolding cache_sound_def by (metis order_less_le_trans)

lemma cache_sound_extend:
  assumes "cache_sound c nv (M(v := None))" and "\<And>p d. cache_lookup c v = Some (p, d) \<Longrightarrow> page_core p = q"
  shows "cache_sound c nv (M(v \<mapsto> q))"
proof -
  have "\<not> d \<and> unat w < nv \<and> (\<forall>r. (M(v \<mapsto> q)) w = Some r \<longrightarrow> page_core p = r)"
    if l: "cache_lookup c w = Some (p, d)" for w p d
    using cache_soundD [OF assms(1) l] assms(2) [of p d] l by (cases "w = v") auto
  then show ?thesis
    using cache_soundE [OF assms(1)] unfolding cache_sound_def by blast
qed

lemma cache_sound_no_victim:
  assumes "cache_sound c nv M" and "cache_put p d c = (ev, c')"
  shows "ev = None"
proof (cases ev)
  case (Some q)
  obtain cap where "cache_ok cap c"
    using assms(1) by (auto simp: cache_sound_def)
  then have "cache_lookup c (ph_page_id (pg_header q)) = Some (q, True)"
    using cache_put_ok(4) [OF _ assms(2) Some] by blast
  then show ?thesis
    using assms(1) by (auto simp: cache_sound_def)
qed

lemma cache_sound_put:
  assumes sound: "cache_sound c nv M" and put: "cache_put p False c = (ev, c')"
    and "unat (ph_page_id (pg_header p)) < nv"
    and "\<And>q. M (ph_page_id (pg_header p)) = Some q \<Longrightarrow> page_core p = q"
  shows "cache_sound c' nv M"
proof -
  obtain cap where ok: "cache_ok cap c"
    using sound by (auto simp: cache_sound_def)
  have "\<not> d \<and> unat v < nv \<and> (\<forall>q. M v = Some q \<longrightarrow> page_core r = q)" if l: "cache_lookup c' v = Some (r, d)" for v r d
  proof (cases "v = ph_page_id (pg_header p)")
    case True
    then show ?thesis
      using l cache_put_ok(2) [OF ok put] cache_soundD(1) [OF sound, of v] assms(3,4)
      by (cases "cache_lookup c v") auto
  next
    case False
    then have "cache_lookup c v = Some (r, d)"
      using l cache_put_ok(3) [OF ok put False] by auto
    then show ?thesis
      using sound by (auto simp: cache_sound_def)
  qed
  then show ?thesis
    using cache_put_ok(1) [OF ok put] by (auto simp: cache_sound_def)
qed

lemma cache_sound_write:
  assumes sound: "cache_sound c nv M" and put: "cache_put p True c = (ev, c')"
    and nv: "unat (ph_page_id (pg_header p)) < nv"
  shows "cache_sound (snd (mark_clean (ph_page_id (pg_header p)) c')) nv (M(ph_page_id (pg_header p) \<mapsto> page_core p))"
proof -
  let ?i = "ph_page_id (pg_header p)" and ?c = "snd (mark_clean (ph_page_id (pg_header p)) c')"
  obtain cap where ok: "cache_ok cap c"
    using sound by (auto simp: cache_sound_def)
  have ok': "cache_ok cap ?c" "cache_lookup ?c = (cache_lookup c')(?i := map_option (\<lambda>(q, d). (q, False)) (cache_lookup c' ?i))"
    using cache_mark_ok [OF cache_put_ok(1) [OF ok put], of False ?i "fst (mark_clean ?i c')" ?c] by simp_all
  have "\<not> d \<and> unat v < nv \<and> (\<forall>q. (M(?i \<mapsto> page_core p)) v = Some q \<longrightarrow> page_core r = q)"
    if l: "cache_lookup ?c v = Some (r, d)" for v r d
  proof (cases "v = ?i")
    case True
    then show ?thesis
      using l ok'(2) cache_put_ok(2) [OF ok put] nv by auto
  next
    case False
    then have "cache_lookup c v = Some (r, d)"
      using l ok'(2) cache_put_ok(3) [OF ok put False] by auto
    then show ?thesis
      using sound False by (auto simp: cache_sound_def)
  qed
  then show ?thesis
    using ok'(1) unfolding cache_sound_def by blast
qed

lemma cache_sound_get:
  assumes "cache_sound c nv M" and "cache_get v c = (r, c')"
  shows "cache_sound c' nv M" "r = Some p \<Longrightarrow> M v = Some q \<Longrightarrow> page_core p = q"
proof -
  obtain cap where "cache_ok cap c"
    using cache_soundE [OF assms(1)] by blast
  note get = cache_get_ok [OF this assms(2)]
  then show "cache_sound c' nv M"
    using assms(1) unfolding cache_sound_def by auto
  assume "r = Some p" and "M v = Some q"
  then show "page_core p = q"
    using get cache_soundD(3) [OF assms(1), of v] by auto
qed

section \<open>The invariant\<close>

definition pager_inv :: "pager_env \<Rightarrow> pager \<Rightarrow> page_store \<Rightarrow> bool" where
  "pager_inv E s M \<longleftrightarrow>
     codecs_fit E s \<and> file_header_wf (pgr_header s) \<and> length (file_bytes s) < 2 ^ 64 \<and>
     sb_total_pages (pgr_superblock s) = sb_next_page_id (pgr_superblock s) \<and>
     2 \<le> unat (sb_next_page_id (pgr_superblock s)) \<and>
     unat (sb_next_page_id (pgr_superblock s)) * size_of s < 2 ^ 63 \<and>
     2 \<le> unat (pm_next_virtual_id (pgr_mapper s)) \<and> pgr_pins s = Map.empty \<and>
     translate (pgr_mapper s) 1 = 1 \<and>
     (\<forall>v p. M v = Some p \<longrightarrow> ph_page_id (pg_header p) = v) \<and>
     (\<forall>v\<in>dom M. 2 \<le> unat v \<and> unat v < unat (pm_next_virtual_id (pgr_mapper s)) \<and>
        2 \<le> unat (translate (pgr_mapper s) v) \<and>
        unat (translate (pgr_mapper s) v) < unat (sb_next_page_id (pgr_superblock s)) \<and>
        disk_view E s v = M v) \<and>
     inj_on (translate (pgr_mapper s)) (dom M) \<and>
     distinct (fl_queue (pgr_free_list s)) \<and>
     (\<forall>i\<in>set (fl_queue (pgr_free_list s)). 2 \<le> unat i \<and>
        unat i < unat (sb_next_page_id (pgr_superblock s)) \<and> i \<notin> translate (pgr_mapper s) ` dom M) \<and>
     (\<forall>c. pgr_cache s = Some c \<longrightarrow> cache_sound c (unat (pm_next_virtual_id (pgr_mapper s))) M)"

lemma inv_in_file:
  assumes "pager_inv E s M" and "unat i < unat (sb_next_page_id (pgr_superblock s))"
  shows "in_file s i"
proof -
  have "Suc (unat i) * size_of s \<le> unat (sb_next_page_id (pgr_superblock s)) * size_of s"
    using assms(2) by (intro mult_le_mono1) simp
  then show ?thesis
    using assms(1) by (simp add: in_file_def pager_inv_def)
qed

lemma disk_view_touches:
  assumes "touches I s t" and "in_file s (translate (pgr_mapper s) v)" and "translate (pgr_mapper s) v \<notin> I"
  shows "disk_view E t v = disk_view E s v"
proof -
  have "pgr_mapper t = pgr_mapper s"
    using assms(1) unfolding touches_def by (metis pager.select_convs(6) pager.surjective pager.update_convs(1,9))
  then show ?thesis
    using assms config_cong(4) [OF touches_config [OF assms(1)]] by (simp add: disk_view_def touches_def)
qed

lemma touches_fields:
  assumes "touches I s t"
  shows "pgr_config t = pgr_config s" "pgr_header t = pgr_header s" "pgr_superblock t = pgr_superblock s"
    "pgr_free_list t = pgr_free_list s" "pgr_mapper t = pgr_mapper s" "pgr_cache t = pgr_cache s" "pgr_pins t = pgr_pins s"
    "length (file_bytes t) < 2 ^ 64"
proof -
  obtain f d where t: "t = s\<lparr>pgr_file := f, pgr_draws := d\<rparr>"
    using assms unfolding touches_def by blast
  show "pgr_config t = pgr_config s" "pgr_header t = pgr_header s" "pgr_superblock t = pgr_superblock s"
    "pgr_free_list t = pgr_free_list s" "pgr_mapper t = pgr_mapper s" "pgr_cache t = pgr_cache s" "pgr_pins t = pgr_pins s"
    by (simp_all add: t)
  show "length (file_bytes t) < 2 ^ 64"
    using assms by (simp add: touches_def)
qed

lemma disk_view_mapper:
  assumes "pgr_file t = pgr_file s" and "pgr_config t = pgr_config s" and "translate (pgr_mapper t) v = translate (pgr_mapper s) v"
  shows "disk_view E t v = disk_view E s v"
  using assms config_cong(1,4,6) [OF assms(2)] by (simp add: disk_view_def slot_def)

lemma pager_invD:
  assumes "pager_inv E s M"
  shows "codecs_fit E s" "file_header_wf (pgr_header s)" "length (file_bytes s) < 2 ^ 64"
    "sb_total_pages (pgr_superblock s) = sb_next_page_id (pgr_superblock s)"
    "2 \<le> unat (sb_next_page_id (pgr_superblock s))"
    "unat (sb_next_page_id (pgr_superblock s)) * size_of s < 2 ^ 63"
    "2 \<le> unat (pm_next_virtual_id (pgr_mapper s))" "pgr_pins s = Map.empty"
    "inj_on (translate (pgr_mapper s)) (dom M)" "distinct (fl_queue (pgr_free_list s))"
    "pgr_cache s = Some c \<Longrightarrow> cache_sound c (unat (pm_next_virtual_id (pgr_mapper s))) M"
    "M v = Some p \<Longrightarrow> ph_page_id (pg_header p) = v"
    "i \<in> set (fl_queue (pgr_free_list s)) \<Longrightarrow> 2 \<le> unat i \<and>
       unat i < unat (sb_next_page_id (pgr_superblock s)) \<and> i \<notin> translate (pgr_mapper s) ` dom M"
    "translate (pgr_mapper s) 1 = 1"
  using assms by (auto simp: pager_inv_def)

lemma pager_inv_page:
  assumes "pager_inv E s M" and "M v = Some p"
  shows "2 \<le> unat v" "unat v < unat (pm_next_virtual_id (pgr_mapper s))"
    "2 \<le> unat (translate (pgr_mapper s) v)"
    "unat (translate (pgr_mapper s) v) < unat (sb_next_page_id (pgr_superblock s))"
    "disk_view E s v = Some p" "in_file s (translate (pgr_mapper s) v)"
    "\<And>w. w \<in> dom M \<Longrightarrow> w \<noteq> v \<Longrightarrow> translate (pgr_mapper s) w \<noteq> translate (pgr_mapper s) v"
proof -
  have "v \<in> dom M"
    using assms(2) by auto
  moreover have "\<forall>v\<in>dom M. 2 \<le> unat v \<and> unat v < unat (pm_next_virtual_id (pgr_mapper s)) \<and>
        2 \<le> unat (translate (pgr_mapper s) v) \<and>
        unat (translate (pgr_mapper s) v) < unat (sb_next_page_id (pgr_superblock s)) \<and>
        disk_view E s v = M v"
    using assms(1) unfolding pager_inv_def by (elim conjE)
  ultimately have page: "2 \<le> unat v \<and> unat v < unat (pm_next_virtual_id (pgr_mapper s)) \<and>
        2 \<le> unat (translate (pgr_mapper s) v) \<and>
        unat (translate (pgr_mapper s) v) < unat (sb_next_page_id (pgr_superblock s)) \<and>
        disk_view E s v = M v"
    by (rule bspec [rotated])
  then show "2 \<le> unat v" "unat v < unat (pm_next_virtual_id (pgr_mapper s))"
    "2 \<le> unat (translate (pgr_mapper s) v)" "disk_view E s v = Some p"
    and lt: "unat (translate (pgr_mapper s) v) < unat (sb_next_page_id (pgr_superblock s))"
    using assms(2) by simp_all
  show "in_file s (translate (pgr_mapper s) v)"
    using inv_in_file [OF assms(1) lt] .
  show "translate (pgr_mapper s) w \<noteq> translate (pgr_mapper s) v" if "w \<in> dom M" "w \<noteq> v" for w
    using pager_invD(9) [OF assms(1)] that \<open>v \<in> dom M\<close> by (meson inj_on_eq_iff)
qed

lemma pager_invI:
  assumes "codecs_fit E s" and "file_header_wf (pgr_header s)" and "length (file_bytes s) < 2 ^ 64"
    and "sb_total_pages (pgr_superblock s) = sb_next_page_id (pgr_superblock s)"
    and "2 \<le> unat (sb_next_page_id (pgr_superblock s))"
    and "unat (sb_next_page_id (pgr_superblock s)) * size_of s < 2 ^ 63"
    and "2 \<le> unat (pm_next_virtual_id (pgr_mapper s))" and "pgr_pins s = Map.empty"
    and "inj_on (translate (pgr_mapper s)) (dom M)" and "distinct (fl_queue (pgr_free_list s))"
    and "\<And>c. pgr_cache s = Some c \<Longrightarrow> cache_sound c (unat (pm_next_virtual_id (pgr_mapper s))) M"
    and "\<And>v p. M v = Some p \<Longrightarrow> ph_page_id (pg_header p) = v \<and> 2 \<le> unat v \<and>
        unat v < unat (pm_next_virtual_id (pgr_mapper s)) \<and> 2 \<le> unat (translate (pgr_mapper s) v) \<and>
        unat (translate (pgr_mapper s) v) < unat (sb_next_page_id (pgr_superblock s)) \<and> disk_view E s v = Some p"
    and "\<And>i. i \<in> set (fl_queue (pgr_free_list s)) \<Longrightarrow> 2 \<le> unat i \<and>
        unat i < unat (sb_next_page_id (pgr_superblock s)) \<and> i \<notin> translate (pgr_mapper s) ` dom M"
    and "translate (pgr_mapper s) 1 = 1"
  shows "pager_inv E s M"
proof -
  have "\<forall>v\<in>dom M. 2 \<le> unat v \<and> unat v < unat (pm_next_virtual_id (pgr_mapper s)) \<and>
        2 \<le> unat (translate (pgr_mapper s) v) \<and>
        unat (translate (pgr_mapper s) v) < unat (sb_next_page_id (pgr_superblock s)) \<and> disk_view E s v = M v"
    using assms(12) by auto
  then show ?thesis
    unfolding pager_inv_def using assms by blast
qed

section \<open>Writing\<close>

lemma write_page_to_disk_slot:
  assumes "env_ok E" and "page_ok E s p" and "length (file_bytes s) < 2 ^ 64"
  defines "i \<equiv> translate (pgr_mapper s) (ph_page_id (pg_header p))"
  assumes "in_file s i"
  obtains t where "write_page_to_disk E p s = (Inr (), t)" and "touches {i} s t"
    and "disk_view E t (ph_page_id (pg_header p)) = Some (page_core p)"
proof -
  obtain t q where t: "pbind (encode_page E p) (\<lambda>bs s. write_at (page_offset s i) bs s) s = (Inr (), t)"
    "touches {i} s t" "decode_block E t (slot t i) = Inr q" "page_core q = page_core p"
    using store_in_slot [OF assms(1,2,5,3)] .
  have "write_page_to_disk E p s = pbind (encode_page E p) (\<lambda>bs s. write_at (page_offset s i) bs s) s"
    by (simp add: write_page_to_disk_def encode_page_def pbind_def draw_def i_def split: sum.split)
  moreover have "disk_view E t (ph_page_id (pg_header p)) = Some (page_core p)"
    using t(3,4) touches_fields(5) [OF t(2)] by (simp add: disk_view_def i_def)
  ultimately show ?thesis
    using that t by simp
qed

lemma inv_write:
  assumes inv: "pager_inv E s M" and v: "M v = Some p0"
    and t: "touches {translate (pgr_mapper s) v} s t" and "disk_view E t v = Some q"
    and q: "ph_page_id (pg_header q) = v"
    and c: "\<And>c'. c = Some c' \<Longrightarrow> cache_sound c' (unat (pm_next_virtual_id (pgr_mapper s))) (M(v \<mapsto> q))"
  shows "pager_inv E (t\<lparr>pgr_cache := c\<rparr>) (M(v \<mapsto> q))"
proof -
  let ?t = "t\<lparr>pgr_cache := c\<rparr>"
  note f = touches_fields [OF t]
  have same: "disk_view E ?t w = disk_view E t w" for w
    by (rule disk_view_mapper) simp_all
  have view: "disk_view E ?t w = (M(v \<mapsto> q)) w" if w: "w \<in> dom M" for w
  proof (cases "w = v")
    case False
    obtain p where p: "M w = Some p"
      using w by auto
    have "disk_view E t w = disk_view E s w"
      using pager_inv_page(6) [OF inv p] pager_inv_page(7) [OF inv v w False]
      by (intro disk_view_touches [OF t]) auto
    then show ?thesis
      using same pager_inv_page(5) [OF inv p] p False by simp
  qed (use same assms(4) in simp)
  have "dom (M(v \<mapsto> q)) = dom M"
    using v by auto
  moreover have "codecs_fit E ?t" "size_of ?t = size_of s"
    using pager_invD(1) [OF inv] config_cong(1,3) [of ?t s] f(1) by simp_all
  ultimately show ?thesis
    using inv f c view pager_invD(12) [OF inv] q unfolding pager_inv_def
    by (auto simp del: fun_upd_apply simp: fun_upd_def split: if_splits)
qed

text \<open>A write puts the page into its slot and leaves a cache that agrees with the store after it.\<close>

lemma write_page_effect:
  assumes "env_ok E" and inv: "pager_inv E s M" and ok: "page_ok E s p"
  defines "v \<equiv> ph_page_id (pg_header p)"
  assumes nv: "unat v < unat (pm_next_virtual_id (pgr_mapper s))"
    and slot: "unat (translate (pgr_mapper s) v) < unat (sb_next_page_id (pgr_superblock s))"
  obtains t c where "write_page E p s = (Inr (), t\<lparr>pgr_cache := c\<rparr>)"
    and "touches {translate (pgr_mapper s) v} s t" and "disk_view E t v = Some (page_core p)"
    and "\<And>c'. c = Some c' \<Longrightarrow> cache_sound c' (unat (pm_next_virtual_id (pgr_mapper s))) (M(v \<mapsto> page_core p))"
proof -
  let ?nv = "unat (pm_next_virtual_id (pgr_mapper s))"
  have disk: "\<exists>t. write_page_to_disk E p (s\<lparr>pgr_cache := c\<rparr>) = (Inr (), t) \<and>
      touches {translate (pgr_mapper s) v} (s\<lparr>pgr_cache := c\<rparr>) t \<and> disk_view E t v = Some (page_core p)" for c
  proof -
    let ?s = "s\<lparr>pgr_cache := c\<rparr>"
    have "page_ok E ?s p" "length (file_bytes ?s) < 2 ^ 64" "in_file ?s (translate (pgr_mapper ?s) v)"
      using ok pager_invD(3) [OF inv] inv_in_file [OF inv slot] config_cong(2,5) [of ?s s] by simp_all
    then obtain t where "write_page_to_disk E p ?s = (Inr (), t)" "touches {translate (pgr_mapper ?s) v} ?s t"
      "disk_view E t v = Some (page_core p)"
      unfolding v_def by (rule write_page_to_disk_slot [OF assms(1)])
    then show ?thesis
      by auto
  qed
  have again: "touches I s (t\<lparr>pgr_cache := pgr_cache s\<rparr>)" if tc: "touches I (s\<lparr>pgr_cache := c\<rparr>) t" for I t c
  proof -
    obtain f d where t: "t = s\<lparr>pgr_cache := c, pgr_file := f, pgr_draws := d\<rparr>"
      using tc unfolding touches_def by blast
    then have "t\<lparr>pgr_cache := pgr_cache s\<rparr> = s\<lparr>pgr_file := f, pgr_draws := d\<rparr>"
      by simp
    then show ?thesis
      using tc t config_cong(5) [of "s\<lparr>pgr_cache := c\<rparr>" s]
      by (simp add: touches_def slot_def page_offset_def)
  qed
  show ?thesis
  proof (cases "pgr_cache s")
    case None
    obtain t where t: "write_page_to_disk E p s = (Inr (), t)" "touches {translate (pgr_mapper s) v} s t"
      "disk_view E t v = Some (page_core p)"
      using disk [of "pgr_cache s"] by auto
    have "t\<lparr>pgr_cache := None\<rparr> = t"
      using touches_fields(6) [OF t(2)] None by simp
    then show ?thesis
      using that [of None t] t None by (simp add: write_page_def)
  next
    case (Some c)
    note sound = pager_invD(11) [OF inv Some]
    show ?thesis
    proof (cases "pc_cache_write_back (pgr_config s)")
      case True
      obtain ev c1 where put: "cache_put p True c = (ev, c1)"
        by fastforce
      have ev: "ev = None"
        using cache_sound_no_victim [OF sound put] .
      let ?c2 = "snd (mark_clean v c1)"
      obtain t where t: "write_page_to_disk E p (s\<lparr>pgr_cache := Some c1\<rparr>) = (Inr (), t)"
        "touches {translate (pgr_mapper s) v} (s\<lparr>pgr_cache := Some c1\<rparr>) t" "disk_view E t v = Some (page_core p)"
        using disk by blast
      let ?t = "t\<lparr>pgr_cache := pgr_cache s\<rparr>"
      have "pgr_cache t = Some c1"
        using touches_fields(6) [OF t(2)] by simp
      then have "write_page E p s = (Inr (), ?t\<lparr>pgr_cache := Some ?c2\<rparr>)"
        using Some True put ev t(1)
        by (simp add: write_page_def pbind_def write_back_def pret_def mark_cached_clean_def v_def)
      moreover have "disk_view E ?t v = Some (page_core p)"
        using disk_view_mapper [of ?t t v E] t(3) by simp
      ultimately show ?thesis
        using that [of "Some ?c2" ?t] again [OF t(2)] cache_sound_write [OF sound put] nv by (auto simp: v_def)
    next
      case False
      obtain t where t: "write_page_to_disk E p s = (Inr (), t)" "touches {translate (pgr_mapper s) v} s t"
        "disk_view E t v = Some (page_core p)"
        using disk [of "pgr_cache s"] by auto
      obtain ev c1 where put: "cache_put p False c = (ev, c1)"
        by fastforce
      have "cache_sound c1 ?nv (M(v \<mapsto> page_core p))"
      proof -
        have "cache_sound c ?nv (M(v := None))"
          using sound by (rule cache_sound_mono) (auto split: if_splits)
        then have "cache_sound c1 ?nv (M(v := None))"
          using nv by (intro cache_sound_put [OF _ put]) (simp_all add: v_def)
        moreover obtain cap where ok1: "cache_ok cap c"
          using cache_soundE [OF sound] by blast
        ultimately show ?thesis
          using cache_put_ok(2) [OF ok1 put] by (intro cache_sound_extend) (auto simp: v_def)
      qed
      moreover have "write_page E p s = (Inr (), t\<lparr>pgr_cache := Some c1\<rparr>)"
        using Some False t(1) put touches_fields(6) [OF t(2)] by (simp add: write_page_def pbind_def)
      ultimately show ?thesis
        using that [of "Some c1" t] t(2,3) by auto
    qed
  qed
qed

lemma write_page_inv:
  assumes "env_ok E" and inv: "pager_inv E s M" and ok: "page_ok E s p"
    and v: "M (ph_page_id (pg_header p)) = Some p0"
  shows "\<exists>t. write_page E p s = (Inr (), t) \<and> pager_inv E t (M(ph_page_id (pg_header p) \<mapsto> page_core p)) \<and>
    pgr_config t = pgr_config s \<and> pgr_mapper t = pgr_mapper s \<and> pgr_superblock t = pgr_superblock s"
proof -
  obtain t c where t: "write_page E p s = (Inr (), t\<lparr>pgr_cache := c\<rparr>)"
    "touches {translate (pgr_mapper s) (ph_page_id (pg_header p))} s t"
    "disk_view E t (ph_page_id (pg_header p)) = Some (page_core p)"
    "\<And>c'. c = Some c' \<Longrightarrow> cache_sound c' (unat (pm_next_virtual_id (pgr_mapper s))) (M(ph_page_id (pg_header p) \<mapsto> page_core p))"
    by (rule write_page_effect [OF assms(1) inv ok pager_inv_page(2,4) [OF inv v]]) (rule that; simp)
  then show ?thesis
    using inv_write [OF inv v t(2,3) _ t(4)] touches_fields [OF t(2)] by auto
qed

text \<open>The superblock lies under no page of a client, so that writing it leaves all of them.\<close>

lemma write_superblock_inv:
  assumes "env_ok E" and inv: "pager_inv E s M"
  shows "\<exists>t. write_superblock E sb s = (Inr (), t) \<and> pager_inv E t M \<and>
    pgr_config t = pgr_config s \<and> pgr_mapper t = pgr_mapper s \<and> pgr_superblock t = pgr_superblock s"
proof -
  let ?s = "s\<lparr>pgr_draws := pgr_draws s + 1\<rparr>"
  let ?p = "config_page ?s 1 PT_Superblock (superblock_to_bytes (env_order E (pgr_draws s) (pm_mapping (sb_page_mapper sb))) sb)"
  have views: "disk_view E ?s w = disk_view E s w" for w
    by (rule disk_view_mapper) simp_all
  have inv1: "pager_inv E ?s M"
    using inv views [simplified] config_cong(1,3) [of ?s s] unfolding pager_inv_def by simp
  have i: "ph_page_id (pg_header ?p) = 1"
    by (simp add: config_page_def page_header_new_def)
  have "page_ok E ?s ?p"
    using pager_invD(1) [OF inv1] by (intro config_page_ok) (simp_all add: readable_type_def)
  moreover have "unat (ph_page_id (pg_header ?p)) < unat (pm_next_virtual_id (pgr_mapper ?s))"
    "unat (translate (pgr_mapper ?s) (ph_page_id (pg_header ?p))) < unat (sb_next_page_id (pgr_superblock ?s))"
    using pager_invD(5,7,14) [OF inv] unfolding i by simp_all
  ultimately obtain t c where t: "write_page E ?p ?s = (Inr (), t\<lparr>pgr_cache := c\<rparr>)"
    "touches {translate (pgr_mapper ?s) 1} ?s t"
    "\<And>c'. c = Some c' \<Longrightarrow> cache_sound c' (unat (pm_next_virtual_id (pgr_mapper ?s))) (M(1 \<mapsto> page_core ?p))"
    using write_page_effect [OF assms(1) inv1, of ?p] unfolding i by metis
  let ?t = "t\<lparr>pgr_cache := c\<rparr>"
  note f = touches_fields [OF t(2)]
  have view: "disk_view E ?t w = Some p" if p: "M w = Some p" for w p
  proof -
    have "disk_view E ?t w = disk_view E t w"
      by (rule disk_view_mapper) simp_all
    also have "\<dots> = disk_view E ?s w"
      using pager_inv_page(3,6) [OF inv1 p] pager_invD(14) [OF inv1] by (intro disk_view_touches [OF t(2)]) auto
    finally show ?thesis
      using pager_inv_page(5) [OF inv1 p] by simp
  qed
  have cong: "codecs_fit E ?t" "size_of ?t = size_of s"
    using pager_invD(1) [OF inv] config_cong(1,3) [of ?t s] f(1) by simp_all
  have "pager_inv E ?t M"
  proof (rule pager_invI)
    show "cache_sound c' (unat (pm_next_virtual_id (pgr_mapper ?t))) M" if "pgr_cache ?t = Some c'" for c'
    proof -
      have "c = Some c'"
        using that by simp
      then have "cache_sound c' (unat (pm_next_virtual_id (pgr_mapper ?s))) M"
        using pager_inv_page(1) [OF inv, of 1] by (intro cache_sound_mono [OF t(3)]) auto
      then show ?thesis
        using f(5) by simp
    qed
    show "ph_page_id (pg_header p) = w \<and> 2 \<le> unat w \<and> unat w < unat (pm_next_virtual_id (pgr_mapper ?t)) \<and>
        2 \<le> unat (translate (pgr_mapper ?t) w) \<and>
        unat (translate (pgr_mapper ?t) w) < unat (sb_next_page_id (pgr_superblock ?t)) \<and> disk_view E ?t w = Some p"
      if p: "M w = Some p" for w p
      using view [OF p] f pager_invD(12) [OF inv p] pager_inv_page(1-4) [OF inv p] by simp
  qed (use f cong pager_invD [OF inv] in simp_all)
  then show ?thesis
    using t(1) f by (auto simp: write_superblock_def)
qed

lemma inv_superblock_field:
  assumes "pager_inv E s M" and "sb_next_page_id sb = sb_next_page_id (pgr_superblock s)"
    and "sb_total_pages sb = sb_total_pages (pgr_superblock s)"
  shows "pager_inv E (s\<lparr>pgr_superblock := sb\<rparr>) M"
proof -
  let ?s = "s\<lparr>pgr_superblock := sb\<rparr>"
  have "disk_view E ?s w = disk_view E s w" for w
    by (rule disk_view_mapper) simp_all
  then show ?thesis
    using assms config_cong(1,3) [of ?s s] unfolding pager_inv_def by simp
qed

section \<open>Reading\<close>

lemma inv_cache:
  assumes inv: "pager_inv E s M"
    and c: "\<And>c'. c = Some c' \<Longrightarrow> cache_sound c' (unat (pm_next_virtual_id (pgr_mapper s))) M"
  shows "pager_inv E (s\<lparr>pgr_cache := c\<rparr>) M"
proof -
  let ?s = "s\<lparr>pgr_cache := c\<rparr>"
  have "disk_view E ?s v = disk_view E s v" for v
    by (rule disk_view_mapper) simp_all
  then show ?thesis
    using inv c config_cong(3) [of ?s s] unfolding pager_inv_def by simp
qed

lemma pin_unpin: "snd (unpin i (snd (pin i Map.empty))) = Map.empty"
  by (simp add: pin_def unpin_def)

lemma read_uncached_slot:
  assumes "decode_block E s (slot s i) = Inr p"
  shows "\<exists>q. page_core q = page_core p \<and> read_uncached E v i s =
    (case pgr_cache s of
       None \<Rightarrow> (Inr q, s)
     | Some c \<Rightarrow> (let (evicted, c) = cache_put q False c in
         pbind (write_back E evicted) (\<lambda>_. pret q) (s\<lparr>pgr_cache := Some c\<rparr>)))"
proof (intro exI conjI)
  let ?q = "if ph_virtual_page_id (pg_header p) \<noteq> v
              then p\<lparr>pg_header := (pg_header p)\<lparr>ph_virtual_page_id := v\<rparr>\<rparr> else p"
  show "page_core ?q = page_core p"
    by simp
  show "read_uncached E v i s =
    (case pgr_cache s of
       None \<Rightarrow> (Inr ?q, s)
     | Some c \<Rightarrow> (let (evicted, c) = cache_put ?q False c in
         pbind (write_back E evicted) (\<lambda>_. pret ?q) (s\<lparr>pgr_cache := Some c\<rparr>)))"
    using assms by (simp add: read_uncached_def slot_def pbind_def pret_def plift_def Let_def split: option.split prod.split)
qed

lemma read_page_inv:
  assumes inv: "pager_inv E s M" and v: "M v = Some q"
  shows "\<exists>p t. read_page E v s = (Inr p, t) \<and> page_core p = q \<and> pager_inv E t M \<and>
    pgr_config t = pgr_config s \<and> pgr_mapper t = pgr_mapper s \<and> pgr_superblock t = pgr_superblock s"
proof -
  let ?i = "translate (pgr_mapper s) v" and ?nv = "unat (pm_next_virtual_id (pgr_mapper s))"
  have bound: "\<not> sb_total_pages (pgr_superblock s) \<le> ?i"
    using pager_inv_page(4) [OF inv v] pager_invD(4) [OF inv] by (simp add: word_le_nat_alt)
  obtain p0 where p0: "decode_block E s (slot s ?i) = Inr p0" "page_core p0 = q"
    using pager_inv_page(5) [OF inv v] by (auto simp: disk_view_def split: sum.splits)
  have id: "ph_page_id (pg_header p) = v" if "page_core p = q" for p
    using page_core_fields(3) [of p] that pager_invD(12) [OF inv v] by simp
  have miss: "\<exists>p t. (let s = s\<lparr>pgr_cache := c, pgr_pins := snd (pin ?i (pgr_pins s))\<rparr>; (result, s) = read_uncached E v ?i s in
        (result, s\<lparr>pgr_pins := snd (unpin ?i (pgr_pins s))\<rparr>)) = (Inr p, t) \<and> page_core p = q \<and> pager_inv E t M \<and>
        pgr_config t = pgr_config s \<and> pgr_mapper t = pgr_mapper s \<and> pgr_superblock t = pgr_superblock s"
    if sound: "\<And>c'. c = Some c' \<Longrightarrow> cache_sound c' ?nv M" for c
  proof -
    let ?s = "s\<lparr>pgr_cache := c, pgr_pins := snd (pin ?i (pgr_pins s))\<rparr>"
    have "decode_block E ?s (slot ?s ?i) = Inr p0"
      using p0(1) config_cong(4,6) [of ?s s] by (simp add: slot_def)
    from read_uncached_slot [OF this, of v] obtain p
      where p: "page_core p = page_core p0" and rd: "read_uncached E v ?i ?s =
      (case c of
         None \<Rightarrow> (Inr p, ?s)
       | Some c \<Rightarrow> (let (evicted, c) = cache_put p False c in
           pbind (write_back E evicted) (\<lambda>_. pret p) (?s\<lparr>pgr_cache := Some c\<rparr>)))"
      by auto
    have pins: "snd (unpin ?i (snd (pin ?i (pgr_pins s)))) = pgr_pins s"
      using pager_invD(8) [OF inv] by (simp add: pin_unpin)
    show ?thesis
    proof (cases c)
      case None
      then show ?thesis
        using rd p p0(2) pins inv_cache [OF inv, of c] by simp
    next
      case (Some c0)
      obtain ev c1 where put: "cache_put p False c0 = (ev, c1)"
        by fastforce
      have "ev = None"
        using cache_sound_no_victim [OF sound [OF Some] put] .
      moreover have "cache_sound c1 ?nv M"
        using pager_inv_page(2) [OF inv v] v p p0(2) id [of p]
        by (intro cache_sound_put [OF sound [OF Some] put]) auto
      then have "pager_inv E (s\<lparr>pgr_cache := Some c1\<rparr>) M"
        using inv_cache [OF inv, of "Some c1"] by simp
      ultimately show ?thesis
        using rd Some put p p0(2) pins by (simp add: write_back_def pret_def pbind_def)
    qed
  qed
  show ?thesis
  proof (cases "pgr_cache s")
    case None
    have "s\<lparr>pgr_cache := pgr_cache s, pgr_pins := x\<rparr> = s\<lparr>pgr_pins := x\<rparr>" for x
      by simp
    note miss [of "pgr_cache s", unfolded this, OF pager_invD(11) [OF inv]]
    then show ?thesis
      using bound None by (simp add: read_page_def cached_def pbind_def Let_def)
  next
    case (Some c)
    obtain r c1 where get: "cache_get v c = (r, c1)"
      by fastforce
    note sound = pager_invD(11) [OF inv Some]
    note s1 = cache_sound_get [OF sound get]
    show ?thesis
    proof (cases r)
      case None
      then show ?thesis
        using bound miss [of "Some c1"] Some get s1(1) by (simp add: read_page_def cached_def pbind_def Let_def)
    next
      case (Some p)
      then show ?thesis
        using bound \<open>pgr_cache s = Some c\<close> get s1 v inv_cache [OF inv, of "Some c1"]
        by (auto simp: read_page_def cached_def pbind_def Let_def pret_def)
    qed
  qed
qed

section \<open>Allocating and freeing\<close>

text \<open>What the metadata of a call leaves: everything the invariant speaks of but the header.\<close>

lemma collect_metadata_eq:
  assumes "file_header_wf (pgr_header s)"
  obtains h where "collect_metadata E s = (Inr (h, pgr_superblock s), s\<lparr>pgr_draws := pgr_draws s + 1, pgr_header := h\<rparr>)"
    and "file_header_wf h"
proof -
  let ?h0 = "(pgr_header s)\<lparr>fh_total_pages := sb_total_pages (pgr_superblock s),
                  fh_free_pages := fl_total_free (pgr_free_list s), fh_first_free_list_page_id := 0\<rparr>"
  have "file_header_wf ?h0"
    using assms by (simp add: file_header_wf_def)
  then have "file_header_wf (update_modified_timestamp (env_secs E (pgr_draws s)) ?h0)"
    by (rule file_header_wf_ops(2))
  then show ?thesis
    using that by (simp add: collect_metadata_def Let_def)
qed

lemma pop_page_queue:
  "pop_page f = (r, f') \<Longrightarrow> fl_queue f = (case r of None \<Rightarrow> [] | Some i \<Rightarrow> i # fl_queue f') \<and> (r = None \<longrightarrow> f' = f)"
  by (auto simp: pop_page_def fl_pop_queue_def decrement_free_def Let_def split: list.splits if_splits)

lemma push_page_queue: "fl_queue (push_page i f) = fl_queue f @ [i]"
  by (simp add: push_page_def increment_free_def fl_push_queue_def)

text \<open>The slot a new page gets was used by no page, and the state stays consistent.\<close>

lemma allocate_physical_fresh:
  assumes inv: "pager_inv E s M" and room: "(unat (sb_next_page_id (pgr_superblock s)) + 1) * size_of s < 2 ^ 63"
  obtains i fl sb where "allocate_physical (s\<lparr>pgr_mapper := m\<rparr>) =
      (Inr i, s\<lparr>pgr_mapper := m, pgr_free_list := fl, pgr_superblock := sb\<rparr>)"
    and "2 \<le> unat i" "unat i < unat (sb_next_page_id sb)" "i \<notin> translate (pgr_mapper s) ` dom M"
    and "unat (sb_next_page_id (pgr_superblock s)) \<le> unat (sb_next_page_id sb)"
    and "sb_total_pages sb = sb_next_page_id sb" and "unat (sb_next_page_id sb) * size_of s < 2 ^ 63"
    and "set (fl_queue fl) \<subseteq> set (fl_queue (pgr_free_list s)) - {i}" and "distinct (fl_queue fl)"
    and "unat (sb_next_page_id sb) \<le> unat (sb_next_page_id (pgr_superblock s)) + 1"
proof -
  let ?sb = "pgr_superblock s"
  obtain r fl where pop: "pop_page (pgr_free_list s) = (r, fl)"
    by fastforce
  note q = pop_page_queue [OF pop]
  show ?thesis
  proof (cases r)
    case (Some i)
    then have "i \<in> set (fl_queue (pgr_free_list s))"
      using q by simp
    then show ?thesis
      using that [of i "mark_page_allocated ?sb" fl] pop Some q pager_invD(4,6,10,13) [OF inv]
      by (auto simp: allocate_physical_def mark_page_allocated_def)
  next
    case None
    let ?i = "sb_next_page_id ?sb"
    have "unat ?i * 1 \<le> unat ?i * size_of s"
      using size_of_bounds [of s] by (intro mult_le_mono2) linarith
    then have "unat ?i < 2 ^ 63"
      using pager_invD(6) [OF inv] by linarith
    then have "unat (?i + 1) = unat ?i + 1"
      by (simp add: unat_word_ariths)
    moreover have "?i \<notin> translate (pgr_mapper s) ` dom M"
      using pager_inv_page(4) [OF inv] by fastforce
    ultimately show ?thesis
      using that [of ?i "snd (allocate_new_page ?sb)" fl] pop None q pager_invD(4,5,10) [OF inv] room
      by (auto simp: allocate_physical_def allocate_new_page_def)
  qed
qed

lemma inv_fresh_virtual: "pager_inv E s M \<Longrightarrow> M (pm_next_virtual_id (pgr_mapper s)) = None"
  using pager_inv_page(2) [of E s M "pm_next_virtual_id (pgr_mapper s)"] by fastforce

text \<open>The bytes of a page and the metadata, stored after the state in memory has been changed.\<close>

lemma store_with_metadata:
  assumes "env_ok E" and "codecs_fit E s" and "file_header_wf (pgr_header s)" and "length (file_bytes s) < 2 ^ 64"
    and "length bs = size_of s" and "in_file s i" and "2 \<le> unat i"
  obtains h d u where "pbind (collect_metadata E) (\<lambda>(h, sb).
      pbind (\<lambda>s. write_at (page_offset s i) bs s) (\<lambda>_. pbind (write_metadata E h sb) (\<lambda>_. pret v))) s = (Inr v, u)"
    and "file_header_wf h" and "touches {0, 1, i} (s\<lparr>pgr_draws := d, pgr_header := h\<rparr>) u" and "slot u i = bs"
proof -
  obtain h where h: "collect_metadata E s = (Inr (h, pgr_superblock s), s\<lparr>pgr_draws := pgr_draws s + 1, pgr_header := h\<rparr>)"
    "file_header_wf h"
    using collect_metadata_eq [OF assms(3)] .
  let ?s = "s\<lparr>pgr_draws := pgr_draws s + 1, pgr_header := h\<rparr>"
  have cong: "size_of ?s = size_of s" "codecs_fit E ?s = codecs_fit E s" "in_file ?s = in_file s"
    by (rule config_cong; simp)+
  have "length bs = size_of ?s" "in_file ?s i" "length (file_bytes ?s) < 2 ^ 64"
    using assms cong by simp_all
  then obtain t where t: "write_at (page_offset ?s i) bs ?s = (Inr (), t)" "touches {i} ?s t" "slot t i = bs"
    by (rule write_slot_touches)
  have "codecs_fit E t" "length (file_bytes t) < 2 ^ 64"
    using config_cong(3) [OF touches_fields(1) [OF t(2)]] touches_fields(8) [OF t(2)] cong assms(2) by simp_all
  then obtain u where u: "write_metadata E h (pgr_superblock s) t = (Inr (), u)" "touches {0, 1} t u"
    using write_metadata_touches [OF assms(1)] h(2) by blast
  have "in_file t i" "i \<noteq> 0" "i \<noteq> 1"
    using config_cong(5) [OF touches_fields(1) [OF t(2)]] cong(3) assms(6,7) by auto
  then have "slot u i = bs"
    using u(2) t(3) by (simp add: touches_def)
  moreover have "touches {0, 1, i} ?s u"
    using touches_mono [OF touches_trans [OF t(2) u(2)]] by auto
  moreover have "pbind (collect_metadata E) (\<lambda>(h, sb).
      pbind (\<lambda>s. write_at (page_offset s i) bs s) (\<lambda>_. pbind (write_metadata E h sb) (\<lambda>_. pret v))) s = (Inr v, u)"
    using h(1) t(1) u(1) by (simp add: pbind_def pret_def)
  ultimately show ?thesis
    using that h(2) by blast
qed

lemma allocate_page_inv:
  assumes env: "env_ok E" and inv: "pager_inv E s M" and t: "readable_type t"
    and room: "(unat (sb_next_page_id (pgr_superblock s)) + 1) * size_of s < 2 ^ 63"
    and ids: "unat (pm_next_virtual_id (pgr_mapper s)) + 1 < 2 ^ 64"
  defines "v \<equiv> pm_next_virtual_id (pgr_mapper s)"
  shows "\<exists>u. allocate_page E t s = (Inr v, u) \<and> pgr_config u = pgr_config s \<and>
    pm_next_virtual_id (pgr_mapper u) = v + 1 \<and>
    unat (sb_next_page_id (pgr_superblock u)) \<le> unat (sb_next_page_id (pgr_superblock s)) + 1 \<and>
    pager_inv E u (M(v \<mapsto> page_core (config_page s v t [])))"
proof -
  let ?m = "snd (allocate_virtual (pgr_mapper s))"
  obtain i fl sb where i: "allocate_physical (s\<lparr>pgr_mapper := ?m\<rparr>) =
      (Inr i, s\<lparr>pgr_mapper := ?m, pgr_free_list := fl, pgr_superblock := sb\<rparr>)"
    "2 \<le> unat i" "unat i < unat (sb_next_page_id sb)" "i \<notin> translate (pgr_mapper s) ` dom M"
    "unat (sb_next_page_id (pgr_superblock s)) \<le> unat (sb_next_page_id sb)"
    "sb_total_pages sb = sb_next_page_id sb" "unat (sb_next_page_id sb) * size_of s < 2 ^ 63"
    "set (fl_queue fl) \<subseteq> set (fl_queue (pgr_free_list s)) - {i}" "distinct (fl_queue fl)"
    "unat (sb_next_page_id sb) \<le> unat (sb_next_page_id (pgr_superblock s)) + 1"
    using allocate_physical_fresh [OF inv room] .
  let ?p = "(config_page s v t [])\<lparr>pg_header := (pg_header (config_page s v t []))\<lparr>ph_virtual_page_id := v\<rparr>\<rparr>"
  let ?s = "s\<lparr>pgr_free_list := fl, pgr_superblock := sb, pgr_mapper := remap v i ?m\<rparr>"
  have cong: "size_of ?s = size_of s" "codecs_fit E ?s = codecs_fit E s" "in_file ?s = in_file s"
      "page_ok E ?s = page_ok E s" "decode_block E ?s = decode_block E s" "config_page ?s = config_page s"
    by (rule config_cong; simp)+
  have "page_ok E ?s ?p"
    using pager_invD(1) [OF inv] t unfolding cong(4) by (simp add: codecs_fit_def config_page_def page_header_new_def)
  from encode_ok [OF env this] obtain bs q
    where enc: "encode_page E ?p ?s = (Inr bs, ?s\<lparr>pgr_draws := pgr_draws ?s + 1\<rparr>)" "length bs = size_of s"
      "decode_block E s bs = Inr q" "page_core q = page_core (config_page s v t [])"
    unfolding cong(5) by auto
  let ?s' = "?s\<lparr>pgr_draws := pgr_draws s + 1\<rparr>"
  have cong': "size_of ?s' = size_of s" "codecs_fit E ?s' = codecs_fit E s" "in_file ?s' = in_file s"
    by (rule config_cong; simp)+
  have "Suc (unat i) * size_of s \<le> unat (sb_next_page_id sb) * size_of s"
    using i(3) by (intro mult_le_mono1) simp
  then have infile: "in_file s i"
    using i(7) by (simp add: in_file_def)
  have "codecs_fit E ?s'" "file_header_wf (pgr_header ?s')" "length (file_bytes ?s') < 2 ^ 64"
    "length bs = size_of ?s'" "in_file ?s' i"
    using pager_invD(1-3) [OF inv] enc(2) infile cong' by simp_all
  from store_with_metadata [OF env this i(2), of v] obtain h d u
    where u: "pbind (collect_metadata E) (\<lambda>(h, sb).
      pbind (\<lambda>s. write_at (page_offset s i) bs s) (\<lambda>_. pbind (write_metadata E h sb) (\<lambda>_. pret v))) ?s' = (Inr v, u)"
    "file_header_wf h" "touches {0, 1, i} (?s'\<lparr>pgr_draws := d, pgr_header := h\<rparr>) u" "slot u i = bs"
    by blast
  have alloc: "allocate_page E t s = (Inr v, u)"
    using i(1) enc(1) u(1) cong(6) by (simp add: allocate_page_def pbind_def allocate_virtual_def v_def Let_def)
  note f = touches_fields [OF u(3)]
  have vM: "M v = None"
    using inv_fresh_virtual [OF inv] by (simp add: v_def)
  have v1: "unat (v + 1) = unat v + 1"
    using ids by (simp add: v_def unat_word_ariths)
  have tr: "translate (pgr_mapper u) = (translate (pgr_mapper s))(v := i)"
    using f(5) by simp
  have next_v: "pm_next_virtual_id (pgr_mapper u) = v + 1"
    using f(5) by (simp add: remap_def allocate_virtual_def v_def)
  have view_v: "disk_view E u v = Some (page_core (config_page s v t []))"
    using u(4) enc(3,4) tr config_cong(4) [of u s] f(1) by (simp add: disk_view_def)
  have view: "disk_view E u w = M w" if p: "M w = Some p" for w p
  proof -
    have "w \<noteq> v" "translate (pgr_mapper s) w \<notin> {0, 1, i}"
      using p vM pager_inv_page(3) [OF inv p] i(4) by auto
    moreover have "in_file s (translate (pgr_mapper s) w)"
      using pager_inv_page(6) [OF inv p] .
    ultimately have "disk_view E u w = disk_view E (?s'\<lparr>pgr_draws := d, pgr_header := h\<rparr>) w"
      using config_cong(5) [of "?s'\<lparr>pgr_draws := d, pgr_header := h\<rparr>" s] by (intro disk_view_touches [OF u(3)]) auto
    also have "\<dots> = disk_view E s w"
      using \<open>w \<noteq> v\<close> by (intro disk_view_mapper) simp_all
    finally show ?thesis
      using pager_inv_page(5) [OF inv p] p by simp
  qed
  have "pager_inv E u (M(v \<mapsto> page_core (config_page s v t [])))"
  proof (rule pager_invI)
    show "translate (pgr_mapper u) 1 = 1"
      using pager_invD(7,14) [OF inv] unfolding tr by (auto simp: v_def)
    show "codecs_fit E u"
      using pager_invD(1) [OF inv] config_cong(3) [of u s] f(1) by simp
    show "unat (sb_next_page_id (pgr_superblock u)) * size_of u < 2 ^ 63"
      using i(7) config_cong(1) [of u s] f(1,3) by simp
    show "inj_on (translate (pgr_mapper u)) (dom (M(v \<mapsto> page_core (config_page s v t []))))"
      using pager_invD(9) [OF inv] i(4) vM unfolding tr by (auto simp: inj_on_def)
    show "cache_sound c (unat (pm_next_virtual_id (pgr_mapper u))) (M(v \<mapsto> page_core (config_page s v t [])))"
      if c: "pgr_cache u = Some c" for c
    proof -
      have "cache_sound c (unat v) M"
        using pager_invD(11) [OF inv] c f(6) by (simp add: v_def)
      then show ?thesis
        using next_v v1 by (elim cache_sound_mono) (auto split: if_splits)
    qed
    show "ph_page_id (pg_header p) = w \<and> 2 \<le> unat w \<and> unat w < unat (pm_next_virtual_id (pgr_mapper u)) \<and>
        2 \<le> unat (translate (pgr_mapper u) w) \<and>
        unat (translate (pgr_mapper u) w) < unat (sb_next_page_id (pgr_superblock u)) \<and> disk_view E u w = Some p"
      if p: "(M(v \<mapsto> page_core (config_page s v t []))) w = Some p" for w p
    proof (cases "w = v")
      case True
      then show ?thesis
        using p view_v tr next_v v1 i(2,3) f(3) pager_invD(7) [OF inv]
        by (auto simp: config_page_def page_header_new_def v_def)
    next
      case False
      then have Mw: "M w = Some p"
        using p by simp
      then show ?thesis
        using False view [OF Mw] tr next_v v1 f(3) i(5) pager_invD(12) [OF inv Mw] pager_inv_page(1-4) [OF inv Mw]
        by (simp add: v_def)
    qed
    show "2 \<le> unat j \<and> unat j < unat (sb_next_page_id (pgr_superblock u)) \<and>
        j \<notin> translate (pgr_mapper u) ` dom (M(v \<mapsto> page_core (config_page s v t [])))"
      if "j \<in> set (fl_queue (pgr_free_list u))" for j
    proof -
      have j: "j \<in> set (fl_queue (pgr_free_list s))" "j \<noteq> i"
        using that i(8) f(4) by auto
      then show ?thesis
        using pager_invD(13) [OF inv j(1)] i(5) f(3) vM unfolding tr by auto
    qed
  qed (use f i u(2) next_v v1 pager_invD(5,7,8) [OF inv] in \<open>simp_all add: v_def\<close>)
  then show ?thesis
    using alloc next_v f(1,3) i(10) by simp
qed

lemma free_page_inv:
  assumes env: "env_ok E" and inv: "pager_inv E s M" and p: "M v = Some p"
    and kind: "ph_page_type (pg_header p) \<noteq> PT_Free" "ph_page_type (pg_header p) \<noteq> PT_FreeList"
  shows "\<exists>u. free_page E v s = (Inr (), u) \<and> pgr_config u = pgr_config s \<and>
    pm_next_virtual_id (pgr_mapper u) = pm_next_virtual_id (pgr_mapper s) \<and>
    sb_next_page_id (pgr_superblock u) = sb_next_page_id (pgr_superblock s) \<and> pager_inv E u (M(v := None))"
proof -
  define i where "i = translate (pgr_mapper s) v"
  note page = pager_inv_page [OF inv p, folded i_def]
  have low: "v \<noteq> 0" "v \<noteq> 1" "\<not> is_pinned i (pgr_pins s)"
    using page(1) pager_invD(8) [OF inv] by (auto simp: is_pinned_def)
  obtain q where q: "decode_block E s (slot s i) = Inr q" "page_core q = p"
    using page(5) by (auto simp: disk_view_def i_def split: sum.splits)
  have kind_q: "ph_page_type (pg_header q) = ph_page_type (pg_header p)"
    using q(2) page_core_fields(2) [of q] by simp
  have free_ok: "page_ok E s (config_page s i PT_Free [])"
    using pager_invD(1) [OF inv] by (intro config_page_ok) (simp_all add: readable_type_def)
  obtain t where t: "pbind (encode_page E (config_page s i PT_Free [])) (\<lambda>bs s. write_at (page_offset s i) bs s) s = (Inr (), t)"
    "touches {i} s t"
    using store_in_slot [OF env free_ok page(6) pager_invD(3) [OF inv]] .
  let ?t = "t\<lparr>pgr_mapper := unmap v (pgr_mapper t), pgr_free_list := push_page i (pgr_free_list t),
              pgr_superblock := mark_page_freed (pgr_superblock t)\<rparr>"
  note ft = touches_fields [OF t(2)]
  have "file_header_wf (pgr_header ?t)"
    using ft(2) pager_invD(2) [OF inv] by simp
  then obtain h where h: "collect_metadata E ?t = (Inr (h, pgr_superblock ?t), ?t\<lparr>pgr_draws := pgr_draws ?t + 1, pgr_header := h\<rparr>)"
    "file_header_wf h"
    by (rule collect_metadata_eq)
  let ?t' = "?t\<lparr>pgr_draws := pgr_draws ?t + 1, pgr_header := h\<rparr>"
  have "codecs_fit E ?t'" "length (file_bytes ?t') < 2 ^ 64"
    using pager_invD(1) [OF inv] config_cong(3) [of ?t' s] ft(1,8) by simp_all
  then obtain u where u: "write_metadata E h (pgr_superblock ?t) ?t' = (Inr (), u)" "touches {0, 1} ?t' u"
    using write_metadata_touches [OF env _ h(2)] by blast
  note f = touches_fields [OF u(2)]
  obtain bs s1 where enc: "encode_page E (config_page s i PT_Free []) s = (Inr bs, s1)"
    "write_at (page_offset s1 i) bs s1 = (Inr (), t)"
    using t(1) by (auto simp: pbind_def split: prod.splits sum.splits)
  have free: "free_page E v s = (Inr (), u)"
    unfolding free_page_def Let_def i_def [symmetric] slot_def [symmetric]
    using low kind kind_q enc h(1) u(1) by (simp add: q(1) pbind_def plift_def)
  have tr: "translate (pgr_mapper u) w = translate (pgr_mapper s) w" if "w \<noteq> v" for w
    using f(5) ft(5) that by simp
  have next_v: "pm_next_virtual_id (pgr_mapper u) = pm_next_virtual_id (pgr_mapper s)"
    using f(5) ft(5) by (simp add: unmap_def)
  have next_p: "sb_next_page_id (pgr_superblock u) = sb_next_page_id (pgr_superblock s)"
    "sb_total_pages (pgr_superblock u) = sb_total_pages (pgr_superblock s)"
    using f(3) ft(3) by (simp_all add: mark_page_freed_def)
  have queue: "fl_queue (pgr_free_list u) = fl_queue (pgr_free_list s) @ [i]"
    using f(4) ft(4) by (simp add: push_page_queue)
  have size: "size_of u = size_of s" "codecs_fit E u" "in_file ?t' = in_file s"
    using pager_invD(1) [OF inv] config_cong(1,3) [of u s] config_cong(5) [of ?t' s] f(1) ft(1) by simp_all
  have image: "translate (pgr_mapper u) ` dom (M(v := None)) = translate (pgr_mapper s) ` (dom M - {v})"
    using tr by (auto simp: image_iff)
  have view: "disk_view E u w = Some r" if r: "M w = Some r" "w \<noteq> v" for w r
  proof -
    note pw = pager_inv_page [OF inv r(1)]
    have "translate (pgr_mapper s) w \<noteq> i"
      using page(7) [of w] r by (auto simp: i_def)
    moreover have "translate (pgr_mapper ?t') w = translate (pgr_mapper s) w"
      using r(2) ft(5) by simp
    ultimately have "disk_view E u w = disk_view E ?t' w"
      using pw(3,6) size(3) by (intro disk_view_touches [OF u(2)]) auto
    also have "\<dots> = disk_view E t w"
      using r(2) by (intro disk_view_mapper) simp_all
    also have "\<dots> = disk_view E s w"
      using pw(6) \<open>translate (pgr_mapper s) w \<noteq> i\<close> by (intro disk_view_touches [OF t(2)]) auto
    finally show ?thesis
      using pw(5) by simp
  qed
  have "pager_inv E u (M(v := None))"
  proof (rule pager_invI)
    show "translate (pgr_mapper u) 1 = 1"
      using tr [of 1] low(2) pager_invD(14) [OF inv] by simp
    show "inj_on (translate (pgr_mapper u)) (dom (M(v := None)))"
      using pager_invD(9) [OF inv] tr by (auto simp: inj_on_def)
    show "cache_sound c (unat (pm_next_virtual_id (pgr_mapper u))) (M(v := None))" if "pgr_cache u = Some c" for c
    proof -
      have "cache_sound c (unat (pm_next_virtual_id (pgr_mapper s))) M"
        using pager_invD(11) [OF inv] that f(6) ft(6) by simp
      then show ?thesis
        unfolding next_v by (elim cache_sound_mono) (auto split: if_splits)
    qed
    show "ph_page_id (pg_header r) = w \<and> 2 \<le> unat w \<and> unat w < unat (pm_next_virtual_id (pgr_mapper u)) \<and>
        2 \<le> unat (translate (pgr_mapper u) w) \<and>
        unat (translate (pgr_mapper u) w) < unat (sb_next_page_id (pgr_superblock u)) \<and> disk_view E u w = Some r"
      if "(M(v := None)) w = Some r" for w r
    proof -
      have r: "M w = Some r" "w \<noteq> v"
        using that by (auto split: if_splits)
      then show ?thesis
        using view [OF r] tr [OF r(2)] next_v next_p pager_inv_page [OF inv r(1)] pager_invD(12) [OF inv r(1)] by simp
    qed
    show "2 \<le> unat j \<and> unat j < unat (sb_next_page_id (pgr_superblock u)) \<and>
        j \<notin> translate (pgr_mapper u) ` dom (M(v := None))" if "j \<in> set (fl_queue (pgr_free_list u))" for j
    proof (cases "j = i")
      case True
      then show ?thesis
        using page(3,4,7) next_p unfolding image by fastforce
    next
      case False
      then have "j \<in> set (fl_queue (pgr_free_list s))"
        using that queue by simp
      from pager_invD(13) [OF inv this] show ?thesis
        using next_p unfolding image by auto
    qed
    have "i \<notin> set (fl_queue (pgr_free_list s))"
      using pager_invD(13) [OF inv, of i] p by (auto simp: i_def)
    then show "distinct (fl_queue (pgr_free_list u))"
      using queue pager_invD(10) [OF inv] by simp
  qed (use size f ft h(2) next_v next_p pager_invD(2-8) [OF inv] in simp_all)
  then show ?thesis
    using free next_v next_p f(1) ft(1) by simp
qed

end
