(* ===== verification/PagerRefine.thy ===== *)
theory PagerRefine
  imports PagerStore
begin

text \<open>
  The pager against its specification, a map from ids to pages: every legal sequence of calls on a
  created pager gets the answers of the map. The calls of a client of the pager are data, so that a
  property speaks of whole runs.
\<close>

section \<open>Calls\<close>

datatype page_call = SAlloc page_type | SWrite page | SRead page_id | SFree page_id

datatype page_answer = New_id page_id | Got page | Done

definition pager_call :: "pager_env \<Rightarrow> page_call \<Rightarrow> page_answer action" where
  "pager_call E c =
     (case c of
        SAlloc t \<Rightarrow> pbind (allocate_page E t) (\<lambda>v. pret (New_id v))
      | SWrite p \<Rightarrow> pbind (write_page E p) (\<lambda>_. pret Done)
      | SRead v \<Rightarrow> pbind (read_page E v) (\<lambda>p. pret (Got p))
      | SFree v \<Rightarrow> pbind (free_page E v) (\<lambda>_. pret Done))"

fun pager_run :: "pager_env \<Rightarrow> page_call list \<Rightarrow> pager \<Rightarrow> (pager_error + page_answer) list \<times> pager" where
  "pager_run E [] s = ([], s)"
| "pager_run E (c # cs) s =
     (let (r, s) = pager_call E c s; (rs, s) = pager_run E cs s in (r # rs, s))"

section \<open>The specification\<close>

record page_world =
  pw_pages :: page_store
  pw_next :: page_id

definition store_new :: page_world where
  "store_new = \<lparr>pw_pages = Map.empty, pw_next = 2\<rparr>"

text \<open>The pages of the specification are without what the codec fills in, and so are its answers.\<close>

definition store_call :: "pager \<Rightarrow> page_call \<Rightarrow> page_world \<Rightarrow> page_answer \<times> page_world" where
  "store_call s c w =
     (case c of
        SAlloc t \<Rightarrow> (New_id (pw_next w),
          \<lparr>pw_pages = (pw_pages w)(pw_next w \<mapsto> page_core (config_page s (pw_next w) t [])), pw_next = pw_next w + 1\<rparr>)
      | SWrite p \<Rightarrow> (Done, w\<lparr>pw_pages := (pw_pages w)(ph_page_id (pg_header p) \<mapsto> page_core p)\<rparr>)
      | SRead v \<Rightarrow> (Got (the (pw_pages w v)), w)
      | SFree v \<Rightarrow> (Done, w\<lparr>pw_pages := (pw_pages w)(v := None)\<rparr>))"

text \<open>What a client may ask for: its own pages only, of types and sizes that can be stored.\<close>

definition call_legal :: "pager_env \<Rightarrow> pager \<Rightarrow> page_call \<Rightarrow> page_world \<Rightarrow> bool" where
  "call_legal E s c w =
     (case c of
        SAlloc t \<Rightarrow> readable_type t
      | SWrite p \<Rightarrow> page_ok E s p \<and> pw_pages w (ph_page_id (pg_header p)) \<noteq> None
      | SRead v \<Rightarrow> pw_pages w v \<noteq> None
      | SFree v \<Rightarrow> (case pw_pages w v of
          None \<Rightarrow> False
        | Some p \<Rightarrow> ph_page_type (pg_header p) \<noteq> PT_Free \<and> ph_page_type (pg_header p) \<noteq> PT_FreeList))"

fun store_run :: "pager \<Rightarrow> page_call list \<Rightarrow> page_world \<Rightarrow> page_answer list \<times> page_world" where
  "store_run s [] w = ([], w)"
| "store_run s (c # cs) w = (let (r, w) = store_call s c w; (rs, w) = store_run s cs w in (r # rs, w))"

fun run_legal :: "pager_env \<Rightarrow> pager \<Rightarrow> page_call list \<Rightarrow> page_world \<Rightarrow> bool" where
  "run_legal E s [] w = True"
| "run_legal E s (c # cs) w = (call_legal E s c w \<and> run_legal E s cs (snd (store_call s c w)))"

fun answer_core :: "page_answer \<Rightarrow> page_answer" where
  "answer_core (New_id v) = New_id v"
| "answer_core (Got p) = Got (page_core p)"
| "answer_core Done = Done"

section \<open>Simulation\<close>

text \<open>The states that implement a world, with room for \<open>n\<close> more pages.\<close>

definition implements :: "pager_env \<Rightarrow> nat \<Rightarrow> pager \<Rightarrow> page_world \<Rightarrow> bool" where
  "implements E n s w \<longleftrightarrow>
     pager_inv E s (pw_pages w) \<and> pm_next_virtual_id (pgr_mapper s) = pw_next w \<and>
     (unat (sb_next_page_id (pgr_superblock s)) + n) * size_of s < 2 ^ 63 \<and>
     unat (pw_next w) + n < 2 ^ 63"

lemma store_call_config: "pgr_config t = pgr_config s \<Longrightarrow> store_call t = store_call s"
  using config_cong(7) [of t s] by (simp add: store_call_def fun_eq_iff split: page_call.split)

lemma call_legal_config: "pgr_config t = pgr_config s \<Longrightarrow> call_legal E t = call_legal E s"
  using config_cong(2) [of t s E] by (simp add: call_legal_def fun_eq_iff split: page_call.split)

lemma store_run_config: "pgr_config t = pgr_config s \<Longrightarrow> store_run t cs w = store_run s cs w"
  using store_call_config [of t s] by (induction cs arbitrary: w) (simp_all add: Let_def split: prod.split)

lemma run_legal_config: "pgr_config t = pgr_config s \<Longrightarrow> run_legal E t cs w = run_legal E s cs w"
  using store_call_config [of t s] call_legal_config [of t s E] by (induction cs arbitrary: w) simp_all

lemma pager_call_simulates:
  assumes env: "env_ok E" and imp: "implements E (Suc n) s w" and legal: "call_legal E s c w"
  shows "\<exists>a t. pager_call E c s = (Inr a, t) \<and> answer_core a = fst (store_call s c w) \<and>
    pgr_config t = pgr_config s \<and> implements E n t (snd (store_call s c w))"
proof -
  have inv: "pager_inv E s (pw_pages w)" and nxt: "pm_next_virtual_id (pgr_mapper s) = pw_next w"
    and room: "(unat (sb_next_page_id (pgr_superblock s)) + Suc n) * size_of s < 2 ^ 63"
    and ids: "unat (pw_next w) + Suc n < 2 ^ 63"
    using imp by (auto simp: implements_def)
  have room1: "k * size_of s < 2 ^ 63" if "k \<le> unat (sb_next_page_id (pgr_superblock s)) + Suc n" for k
    using room mult_le_mono1 [OF that, of "size_of s"] by linarith
  show ?thesis
  proof (cases c)
    case (SAlloc t)
    have "(unat (sb_next_page_id (pgr_superblock s)) + 1) * size_of s < 2 ^ 63" "readable_type t"
      "unat (pm_next_virtual_id (pgr_mapper s)) + 1 < 2 ^ 64"
      using room1 [of "unat (sb_next_page_id (pgr_superblock s)) + 1"] legal SAlloc ids nxt
      by (simp_all add: call_legal_def)
    from allocate_page_inv [OF env inv this(2,1,3)] obtain u
      where u: "allocate_page E t s = (Inr (pw_next w), u)" "pgr_config u = pgr_config s"
        "pm_next_virtual_id (pgr_mapper u) = pw_next w + 1"
        "unat (sb_next_page_id (pgr_superblock u)) \<le> unat (sb_next_page_id (pgr_superblock s)) + 1"
        "pager_inv E u ((pw_pages w)(pw_next w \<mapsto> page_core (config_page s (pw_next w) t [])))"
      unfolding nxt by blast
    have "unat (pw_next w + 1) = unat (pw_next w) + 1"
      using ids by (simp add: unat_word_ariths)
    then have "implements E n u (snd (store_call s c w))"
      using u(2-5) SAlloc ids room1 [of "unat (sb_next_page_id (pgr_superblock u)) + n"] config_cong(1) [of u s]
      by (simp add: implements_def store_call_def)
    then show ?thesis
      using u(1,2) SAlloc by (auto simp: pager_call_def store_call_def pbind_def pret_def)
  next
    case (SWrite p)
    then obtain p0 where "pw_pages w (ph_page_id (pg_header p)) = Some p0" "page_ok E s p"
      using legal by (auto simp: call_legal_def)
    from write_page_inv [OF env inv this(2,1)] obtain t where t: "write_page E p s = (Inr (), t)"
      "pager_inv E t ((pw_pages w)(ph_page_id (pg_header p) \<mapsto> page_core p))"
      "pgr_config t = pgr_config s" "pgr_mapper t = pgr_mapper s" "pgr_superblock t = pgr_superblock s"
      by blast
    then show ?thesis
      using SWrite nxt ids room1 [of "unat (sb_next_page_id (pgr_superblock s)) + n"] config_cong(1) [of t s]
      by (auto simp: implements_def store_call_def pager_call_def pbind_def pret_def)
  next
    case (SRead v)
    then obtain q where q: "pw_pages w v = Some q"
      using legal by (auto simp: call_legal_def)
    from read_page_inv [OF inv this] obtain p t where "read_page E v s = (Inr p, t)" "page_core p = q"
      "pager_inv E t (pw_pages w)" "pgr_config t = pgr_config s" "pgr_mapper t = pgr_mapper s"
      "pgr_superblock t = pgr_superblock s"
      by blast
    then show ?thesis
      using SRead q nxt ids room1 [of "unat (sb_next_page_id (pgr_superblock s)) + n"] config_cong(1) [of t s]
      by (auto simp: implements_def store_call_def pager_call_def pbind_def pret_def)
  next
    case (SFree v)
    then obtain p where "pw_pages w v = Some p" "ph_page_type (pg_header p) \<noteq> PT_Free"
      "ph_page_type (pg_header p) \<noteq> PT_FreeList"
      using legal by (auto simp: call_legal_def split: option.splits)
    from free_page_inv [OF env inv this] obtain u where "free_page E v s = (Inr (), u)"
      "pgr_config u = pgr_config s" "pm_next_virtual_id (pgr_mapper u) = pm_next_virtual_id (pgr_mapper s)"
      "sb_next_page_id (pgr_superblock u) = sb_next_page_id (pgr_superblock s)"
      "pager_inv E u ((pw_pages w)(v := None))"
      by blast
    then show ?thesis
      using SFree nxt ids room1 [of "unat (sb_next_page_id (pgr_superblock s)) + n"] config_cong(1) [of u s]
      by (auto simp: implements_def store_call_def pager_call_def pbind_def pret_def)
  qed
qed

lemma pager_run_simulates:
  assumes "env_ok E" and "implements E (length cs) s w" and "run_legal E s cs w"
  shows "map (map_sum id answer_core) (fst (pager_run E cs s)) = map Inr (fst (store_run s cs w))"
  using assms
proof (induction cs arbitrary: s w)
  case (Cons c cs)
  then obtain a t where a: "pager_call E c s = (Inr a, t)" "answer_core a = fst (store_call s c w)"
    "pgr_config t = pgr_config s" "implements E (length cs) t (snd (store_call s c w))"
    using pager_call_simulates [OF Cons.prems(1), of "length cs" s w c] by auto
  have "run_legal E t cs (snd (store_call s c w))"
    using Cons.prems(3) run_legal_config [OF a(3)] by simp
  from Cons.IH [OF Cons.prems(1) a(4) this] show ?case
    using a(1,2) store_run_config [OF a(3)] by (auto split: prod.splits)
qed simp

section \<open>Creating\<close>

text \<open>Pages that are neither compressed nor encrypted.\<close>

lemma plain_page_ok:
  assumes "env_ok E" and "ph_compression (pg_header p) = Comp_None" and "ph_encryption (pg_header p) = Enc_None"
    and "readable_type (ph_page_type (pg_header p))" and "length (pg_data p) + 64 \<le> size_of s"
  shows "page_ok E s p"
proof -
  have "\<exists>bs. page_to_bytes (env_libs E) nonce p (size_of s) key = Inr bs \<and> length bs = size_of s" for nonce key
    using assms libs_okD(6) size_of_bounds [of s]
    by (auto simp: page_to_bytes_def compress_page_def encrypt_page_def page_digest_def Let_def env_ok_def)
  then show ?thesis
    using assms size_of_bounds [of s] by (simp add: page_ok_def)
qed

lemma plain_codecs_fit:
  assumes "env_ok E" and "pc_compression (pgr_config s) = Comp_None" and "pc_encryption (pgr_config s) = Enc_None"
  shows "codecs_fit E s"
  using assms plain_page_ok [OF assms(1)] size_of_bounds [of s] by (auto simp: codecs_fit_def)

lemma pager_create_inv:
  assumes env: "env_ok E" and new: "create_file fs path = Inr f" and cfg: "pager_config_validate cfg = Inr ()"
  obtains s where "pager_create E nanos fs path cfg = Inr s" and "pgr_config s = cfg"
    and "sb_next_page_id (pgr_superblock s) = 2"
    and "codecs_fit E s \<Longrightarrow> implements E n s store_new \<longleftrightarrow> (n + 2) * size_of s < 2 ^ 63 \<and> n + 2 < 2 ^ 63"
proof -
  let ?h = "file_header_new nanos (env_secs E 0) (pc_page_size cfg) (pc_compression cfg) (pc_encryption cfg)"
  let ?s0 = "\<lparr>pgr_file = f, pgr_config = cfg, pgr_header = ?h, pgr_superblock = superblock_new,
     pgr_free_list = free_list_new, pgr_mapper = synced_mapper superblock_new, pgr_cache = cache_of cfg,
     pgr_pins = Map.empty, pgr_draws = 1\<rparr>"
  have h: "file_header_wf ?h"
    by (rule file_header_wf_ops(1))
  have "buffer (file_data f) = []"
    using new by (auto simp: create_file_def new_file_data_def file_data_def Let_def split: if_splits)
  then have "length (header_block ?s0 ?h) = size_of ?s0" "in_file ?s0 0" "length (file_bytes ?s0) < 2 ^ 64"
    using length_header_block [OF h] in_file_low by simp_all
  then obtain t where t: "write_at (page_offset ?s0 0) (header_block ?s0 ?h) ?s0 = (Inr (), t)" "touches {0} ?s0 t"
    by (rule write_slot_touches)
  let ?t = "t\<lparr>pgr_draws := pgr_draws t + 1\<rparr>"
  let ?p = "(page_new 1 PT_Superblock)\<lparr>pg_data := superblock_to_bytes
    (env_order E (pgr_draws t) (pm_mapping (sb_page_mapper superblock_new))) superblock_new\<rparr>"
  have ok: "page_ok E ?t ?p"
    using size_of_bounds [of ?t]
    by (intro plain_page_ok [OF env]) (simp_all add: page_new_def page_header_new_def readable_type_def)
  have small: "length (file_bytes ?t) < 2 ^ 64"
    using touches_fields(8) [OF t(2)] by simp
  obtain u where u: "pbind (encode_page E ?p) (\<lambda>bs s. write_at (page_offset s 1) bs s) ?t = (Inr (), u)"
    "touches {1} ?t u"
    using store_in_slot [OF env ok in_file_low(2) small] .
  have "pager_create E nanos fs path cfg = Inr u"
    using new cfg t(1) u(1) by (simp add: pager_create_def page_offset_low pbind_def draw_def)
  moreover note f = touches_fields [OF t(2)] touches_fields [OF u(2)]
  moreover have "implements E n u store_new \<longleftrightarrow> (n + 2) * size_of u < 2 ^ 63 \<and> n + 2 < 2 ^ 63" if "codecs_fit E u"
  proof -
    have "cache_sound c 2 Map.empty" if "pgr_cache u = Some c" for c
      using that f cache_new_ok by (auto simp: cache_of_def cache_sound_def split: if_splits)
    moreover have "2 * size_of u < 2 ^ 63"
      using size_of_bounds [of u] by simp
    ultimately have "pager_inv E u Map.empty"
      using that f h unfolding pager_inv_def
      by (simp add: superblock_new_def synced_mapper_def mapper_new_def free_list_new_def translate_def)
    then show ?thesis
      using f by (auto simp: implements_def store_new_def superblock_new_def synced_mapper_def mapper_new_def add.commute)
  qed
  ultimately show ?thesis
    using that by (simp add: superblock_new_def)
qed

section \<open>Properties\<close>

text \<open>
  C6. The pager is a store of pages. From its creation on, every sequence of allocations, writes,
  reads and frees of a client that uses its own pages gets the answers of a map from ids to pages:
  new ids are new, a read returns what was last written under that id, whatever was cached, evicted,
  remapped, freed or handed out again in between, and every call succeeds. The file has to stay
  below 2^63 bytes, and the codecs have to fit the pager's own pages into a slot.
\<close>

theorem pager_refines_store:
  assumes "env_ok E" and "pager_create E nanos fs path cfg = Inr s" and "codecs_fit E s"
    and "run_legal E s cs store_new" and "(length cs + 2) * size_of s < 2 ^ 63"
  shows "map (map_sum id answer_core) (fst (pager_run E cs s)) = map Inr (fst (store_run s cs store_new))"
proof -
  obtain f where f: "create_file fs path = Inr f" "pager_config_validate cfg = Inr ()"
    using assms(2) by (auto simp: pager_create_def split: if_splits sum.splits)
  have "(length cs + 2) * 1 \<le> (length cs + 2) * size_of s"
    using size_of_bounds [of s] by (intro mult_le_mono2) linarith
  then have "implements E (length cs) s store_new"
    using pager_create_inv [OF assms(1) f, of nanos "length cs"] assms(2,3,5) by fastforce
  then show ?thesis
    using pager_run_simulates assms(1,4) by blast
qed

definition sample_env :: pager_env where
  "sample_env = \<lparr>env_libs = plain_libs, env_nonce = (\<lambda>k. replicate 12 (of_nat k)), env_secs = of_nat,
     env_order = (\<lambda>k m. []), env_crc32 = (\<lambda>bs. of_nat (length bs))\<rparr>"

lemma sample_env_ok: "env_ok sample_env"
  by (simp add: env_ok_def sample_env_def plain_libs_ok)

lemma sample_created:
  obtains s where "pager_create sample_env 7 memory_fs_new ''db'' pager_config_default = Inr s"
    and "pgr_config s = pager_config_default" and "codecs_fit sample_env s"
    and "size_of s = 4096" and "implements sample_env 9 s store_new" and "sb_next_page_id (pgr_superblock s) = 2"
proof -
  obtain f where f: "create_file memory_fs_new ''db'' = Inr f"
    by (simp add: create_file_def memory_fs_new_def Let_def)
  have valid: "pager_config_validate pager_config_default = Inr ()"
    by (simp add: pager_config_validate_def pager_config_default_def)
  obtain s where s: "pager_create sample_env 7 memory_fs_new ''db'' pager_config_default = Inr s"
    "pgr_config s = pager_config_default" "sb_next_page_id (pgr_superblock s) = 2"
    "codecs_fit sample_env s \<Longrightarrow> implements sample_env 9 s store_new \<longleftrightarrow> (9 + 2) * size_of s < 2 ^ 63 \<and> 9 + 2 < (2 ^ 63 :: nat)"
    using pager_create_inv [OF sample_env_ok f valid] by metis
  moreover have "codecs_fit sample_env s" "size_of s = 4096"
    using s(2) plain_codecs_fit [OF sample_env_ok, of s] by (simp_all add: pager_config_default_def size_of_def)
  ultimately show ?thesis
    using that by simp
qed

definition sample_leaf :: "page_id \<Rightarrow> page" where
  "sample_leaf v = (page_new v PT_BTreeLeaf)\<lparr>pg_data := [1, 2, 3]\<rparr>"

theorem pager_refines_store_witness:
  "\<exists>s. pager_create sample_env 7 memory_fs_new ''db'' pager_config_default = Inr s \<and>
     map (map_sum id answer_core) (fst (pager_run sample_env
       [SAlloc PT_BTreeLeaf, SWrite (sample_leaf 2), SAlloc PT_BTreeLeaf, SRead 2, SFree 2, SAlloc PT_BTreeLeaf, SRead 4] s)) =
     map Inr [New_id 2, Done, New_id 3, Got (page_core (sample_leaf 2)), Done, New_id 4,
       Got (page_core (config_page s 4 PT_BTreeLeaf []))]"
proof -
  let ?cs = "[SAlloc PT_BTreeLeaf, SWrite (sample_leaf 2), SAlloc PT_BTreeLeaf, SRead 2, SFree 2, SAlloc PT_BTreeLeaf, SRead 4]"
  obtain s where s: "pager_create sample_env 7 memory_fs_new ''db'' pager_config_default = Inr s"
    "codecs_fit sample_env s" "size_of s = 4096"
    by (rule sample_created)
  have "page_ok sample_env s (sample_leaf 2)"
    using s(3) by (intro plain_page_ok [OF sample_env_ok])
      (simp_all add: sample_leaf_def page_new_def page_header_new_def readable_type_def)
  then have "run_legal sample_env s ?cs store_new"
    by (simp add: call_legal_def store_call_def store_new_def readable_type_def sample_leaf_def page_new_def page_header_new_def)
  moreover have "fst (store_run s ?cs store_new) = [New_id 2, Done, New_id 3, Got (page_core (sample_leaf 2)), Done, New_id 4,
       Got (page_core (config_page s 4 PT_BTreeLeaf []))]"
    by (simp add: store_call_def store_new_def sample_leaf_def page_new_def page_header_new_def)
  ultimately show ?thesis
    using pager_refines_store [OF sample_env_ok s(1,2), of ?cs] s(1,3) by auto
qed

end
