(* ===== verification/OverflowChain.thy ===== *)
theory OverflowChain
  imports PagerRefine
begin

text \<open>
  Chains of overflow pages (\<open>pager/pagefile.rs\<close>) and the stream that reads them
  (\<open>pager/overflow_stream.rs\<close>): a value is cut into chunks, one per page, each page linked to the
  next. Writing, reading and freeing a chain are shown over the pages of the store, so that nothing
  here depends on slots, caches or encodings.
\<close>

section \<open>The stream\<close>

record overflow_stream =
  os_current_page_id :: "page_id option"
  os_total_length :: u64
  os_position :: u64
  os_buffer :: bytes
  os_buffer_pos :: nat

definition overflow_stream_new :: "page_id \<Rightarrow> u64 \<Rightarrow> overflow_stream" where
  "overflow_stream_new first_page_id total_length =
     \<lparr>os_current_page_id = Some first_page_id, os_total_length = total_length, os_position = 0, os_buffer = [], os_buffer_pos = 0\<rparr>"

text \<open>Nothing of the stream changes when the page cannot be read.\<close>

definition load_next_page :: "pager_env \<Rightarrow> overflow_stream \<Rightarrow> overflow_stream action" where
  "load_next_page E st =
     (case os_current_page_id st of
        None \<Rightarrow> pret st
      | Some i \<Rightarrow> pbind (read_overflow_page E i) (\<lambda>(d, h).
          pret (st\<lparr>os_buffer := d, os_buffer_pos := 0,
            os_current_page_id := (if overflow_is_last h then None else Some (ucast (oh_next_page_id h)))\<rparr>)))"

text \<open>The refill at the head of the loop of \<open>read\<close>; \<open>None\<close> when there are no more pages.\<close>

definition refill :: "pager_env \<Rightarrow> overflow_stream \<Rightarrow> overflow_stream option action" where
  "refill E st =
     (if os_buffer_pos st \<ge> length (os_buffer st)
      then if os_current_page_id st = None then pret None
           else pbind (load_next_page E st) (\<lambda>st. pret (Some st))
      else pret (Some st))"

definition stream_to_copy :: "nat \<Rightarrow> overflow_stream \<Rightarrow> nat" where
  "stream_to_copy want st =
     min want (min (length (os_buffer st) - os_buffer_pos st) (unat (os_total_length st - os_position st)))"

definition stream_advance :: "nat \<Rightarrow> overflow_stream \<Rightarrow> overflow_stream" where
  "stream_advance n st =
     st\<lparr>os_buffer_pos := os_buffer_pos st + n, os_position := os_position st + of_nat n\<rparr>"

lemma refill_result:
  assumes "refill E st s = (Inr (Some st'), t)"
  shows "os_position st' = os_position st" "os_total_length st' = os_total_length st"
    "os_buffer st' \<noteq> [] \<Longrightarrow> os_buffer_pos st' < length (os_buffer st')"
  using assms
  by (auto simp: refill_def load_next_page_def pbind_def pret_def split: if_splits option.splits prod.splits sum.splits)

text \<open>
  The loop of \<open>read\<close>, with the bytes copied so far. It ends because every round copies at least one
  byte: a page without data stops it.
\<close>

function stream_read_loop ::
    "pager_env \<Rightarrow> nat \<Rightarrow> bytes \<Rightarrow> overflow_stream \<Rightarrow> pager \<Rightarrow> (pager_error + bytes) \<times> overflow_stream \<times> pager" where
  "stream_read_loop E want acc st s =
     (if length acc < want \<and> os_position st < os_total_length st
      then case refill E st s of
             (Inl e, s) \<Rightarrow> (Inl e, st, s)
           | (Inr None, s) \<Rightarrow> (Inr acc, st, s)
           | (Inr (Some st), s) \<Rightarrow>
               if os_buffer st = [] then (Inr acc, st, s)
               else let n = stream_to_copy (want - length acc) st in
                    stream_read_loop E want (acc @ bslice (os_buffer_pos st) (os_buffer_pos st + n) (os_buffer st))
                      (stream_advance n st) s
      else (Inr acc, st, s))"
  by pat_completeness auto
termination
proof (relation "measure (\<lambda>(E, want, acc, st, s). want - length acc)")
  fix E want and acc :: bytes and st s a t x st' n
  assume less: "length acc < want \<and> os_position st < os_total_length st"
    and r: "(a, t) = refill E st s" "a = Inr x" "x = Some st'" and "os_buffer st' \<noteq> []"
    and n: "n = stream_to_copy (want - length acc) st'"
  note res = refill_result [of E st s st' t]
  have "os_buffer_pos st' < length (os_buffer st')"
    using res(3) r \<open>os_buffer st' \<noteq> []\<close> by simp
  moreover have "0 < unat (os_total_length st' - os_position st')"
    using res(1,2) r less by (auto simp: unat_gt_0)
  ultimately have "0 < n" "n \<le> length (os_buffer st') - os_buffer_pos st'"
    using less by (simp_all add: n stream_to_copy_def)
  then show "((E, want, acc @ bslice (os_buffer_pos st') (os_buffer_pos st' + n) (os_buffer st'), stream_advance n st', t),
      E, want, acc, st, s) \<in> measure (\<lambda>(E, want, acc, st, s). want - length acc)"
    using less by auto
qed simp

declare stream_read_loop.simps [simp del]

definition stream_read :: "pager_env \<Rightarrow> nat \<Rightarrow> overflow_stream \<Rightarrow> pager \<Rightarrow> (pager_error + bytes) \<times> overflow_stream \<times> pager" where
  "stream_read E want st s =
     (if os_position st \<ge> os_total_length st then (Inr [], st, s) else stream_read_loop E want [] st s)"

definition stream_size_hint :: "overflow_stream \<Rightarrow> u64 option" where
  "stream_size_hint st = Some (os_total_length st)"

section \<open>Chains in the store\<close>

definition overflow_page :: "pager_env \<Rightarrow> pager \<Rightarrow> page_id \<Rightarrow> bytes \<Rightarrow> page_id option \<Rightarrow> page" where
  "overflow_page E s i d nxt = config_page s i PT_Overflow
     (overflow_header_to_bytes (overflow_header_new (case nxt of Some j \<Rightarrow> ucast j | None \<Rightarrow> 0)
        (of_nat (length d)) (env_crc32 E d)) @ d)"

lemma write_overflow_page_eq: "write_overflow_page E i d nxt s = write_page E (overflow_page E s i d nxt) s"
  by (simp add: write_overflow_page_def overflow_page_def Let_def)

definition next_of :: "page_id list \<Rightarrow> page_id option" where
  "next_of is = (case is of [] \<Rightarrow> None | j # js \<Rightarrow> Some j)"

text \<open>The pages \<open>is\<close> of the store carry \<open>d\<close> in chunks of \<open>c\<close> bytes.\<close>

fun chain_in :: "pager_env \<Rightarrow> pager \<Rightarrow> nat \<Rightarrow> page_id list \<Rightarrow> bytes \<Rightarrow> page_store \<Rightarrow> bool" where
  "chain_in E s c [] d M \<longleftrightarrow> d = []"
| "chain_in E s c (i # is) d M \<longleftrightarrow>
     M i = Some (page_core (overflow_page E s i (take c d) (next_of is))) \<and> chain_in E s c is (drop c d) M"

lemma chain_in_cong: "(\<And>i. i \<in> set is \<Longrightarrow> M' i = M i) \<Longrightarrow> chain_in E s c is d M' = chain_in E s c is d M"
  by (induction "is" arbitrary: d) simp_all

text \<open>What a call on one page leaves as it was.\<close>

abbreviation same_ids :: "pager \<Rightarrow> pager \<Rightarrow> bool" where
  "same_ids s t \<equiv> pgr_config t = pgr_config s \<and> pgr_mapper t = pgr_mapper s \<and> pgr_superblock t = pgr_superblock s"

lemma read_overflow_page_inv:
  assumes inv: "pager_inv E s M" and page: "M i = Some (page_core (overflow_page E s0 i d nxt))"
    and len: "length d < 2 ^ 32"
  shows "\<exists>h t. read_overflow_page E i s = (Inr (d, h), t) \<and>
    oh_next_page_id h = (case nxt of Some j \<Rightarrow> ucast j | None \<Rightarrow> 0) \<and> pager_inv E t M \<and> same_ids s t"
proof -
  let ?h = "overflow_header_new (case nxt of Some j \<Rightarrow> ucast j | None \<Rightarrow> 0) (of_nat (length d)) (env_crc32 E d)"
  obtain p t where t: "read_page E i s = (Inr p, t)" "page_core p = page_core (overflow_page E s0 i d nxt)"
    "pager_inv E t M" "same_ids s t"
    using read_page_inv [OF inv page] by blast
  have data: "pg_data p = overflow_header_to_bytes ?h @ d" "ph_page_type (pg_header p) = PT_Overflow"
    using page_core_eqD(1,2) [OF t(2)] by (simp_all add: overflow_page_def config_page_def page_header_new_def)
  have "length (overflow_header_to_bytes ?h) = 32" "unat (oh_data_length ?h) = length d" "oh_checksum ?h = env_crc32 E d"
    using len by (simp_all add: overflow_header_to_bytes_def overflow_header_new_def unat_of_nat)
  then have "read_overflow_page E i s = (Inr (d, ?h), t)"
    using t(1) data by (simp add: read_overflow_page_def pbind_def plift_def pret_def overflow_header_round_trip Let_def codec_simps)
  then show ?thesis
    using t(3,4) by (auto simp: overflow_header_new_def)
qed

text \<open>The ids of a chain survive the 32 bits of the links.\<close>

definition narrow :: "page_id list \<Rightarrow> bool" where
  "narrow is \<longleftrightarrow> (\<forall>i\<in>set is. i \<noteq> 0 \<and> unat i < 2 ^ 32)"

lemma narrow_simps [simp]: "narrow []" "narrow (i # is) \<longleftrightarrow> i \<noteq> 0 \<and> unat i < 2 ^ 32 \<and> narrow is"
  by (auto simp: narrow_def)

lemma narrow_link:
  assumes "(i :: page_id) \<noteq> 0" and "unat i < 2 ^ 32"
  shows "(ucast i :: u32) \<noteq> 0" "ucast (ucast i :: u32) = i"
proof -
  have low: "unat (ucast i :: u32) = unat i"
    using assms(2) by (simp add: unsigned_ucast_eq unsigned_take_bit_eq take_bit_nat_eq_self)
  then show "(ucast i :: u32) \<noteq> 0"
    using assms(1) by (auto simp: word_unat_eq_iff)
  have "unat (ucast (ucast i :: u32) :: page_id) = unat i"
    using low assms(2) by (simp add: unsigned_ucast_eq unsigned_take_bit_eq take_bit_nat_eq_self)
  then show "ucast (ucast i :: u32) = i"
    by (simp add: word_unat_eq_iff)
qed

lemma read_chain_inv:
  assumes "pager_inv E s M" and "chain_in E s0 c is d M" and "is \<noteq> []" and "narrow is" and "c < 2 ^ 32"
  shows "\<exists>t. read_overflow_chain (length is + k) E (hd is) acc s = Some (Inr (acc @ d), t) \<and> pager_inv E t M \<and> same_ids s t"
  using assms
proof (induction "is" arbitrary: d acc s)
  case (Cons i "is")
  have "length (take c d) < 2 ^ 32"
    using Cons.prems(5) by simp
  from read_overflow_page_inv [OF Cons.prems(1) _ this] obtain h t
    where t: "read_overflow_page E i s = (Inr (take c d, h), t)" "pager_inv E t M" "same_ids s t"
      and h: "oh_next_page_id h = (case next_of is of Some j \<Rightarrow> ucast j | None \<Rightarrow> 0)"
    using Cons.prems(2) by (metis chain_in.simps(2))
  show ?case
  proof (cases "is")
    case Nil
    then have "overflow_is_last h" "drop c d = []"
      using h Cons.prems(2) by (simp_all add: overflow_is_last_def next_of_def)
    then show ?thesis
      using t append_take_drop_id [of c d] by auto
  next
    case (Cons j js)
    then have "\<not> overflow_is_last h" "ucast (oh_next_page_id h) = hd is"
      using h Cons.prems(4) narrow_link [of j] by (auto simp: overflow_is_last_def next_of_def)
    moreover obtain u where "read_overflow_chain (length is + k) E (hd is) (acc @ take c d) t =
        Some (Inr (acc @ take c d @ drop c d), u)" "pager_inv E u M" "same_ids t u"
      using Cons.IH [OF t(2), of "drop c d" "acc @ take c d"] Cons.prems Cons by auto
    ultimately show ?thesis
      using t by auto
  qed
qed simp

section \<open>Building and freeing a chain\<close>

lemma allocate_many_inv:
  assumes "env_ok E" and "pager_inv E s M" and "readable_type ty"
    and "(unat (sb_next_page_id (pgr_superblock s)) + n) * size_of s < 2 ^ 63"
    and "unat (pm_next_virtual_id (pgr_mapper s)) + n < 2 ^ 64"
  shows "\<exists>is u M'. allocate_many E ty n s = (Inr is, u) \<and> pager_inv E u M' \<and> pgr_config u = pgr_config s \<and>
    length is = n \<and> distinct is \<and> (\<forall>w. w \<notin> set is \<longrightarrow> M' w = M w) \<and>
    (\<forall>i\<in>set is. M i = None \<and> M' i \<noteq> None \<and> unat (pm_next_virtual_id (pgr_mapper s)) \<le> unat i \<and>
       unat i < unat (pm_next_virtual_id (pgr_mapper s)) + n)"
  using assms
proof (induction n arbitrary: s M)
  case 0
  then show ?case
    by (auto simp: pret_def)
next
  case (Suc n)
  let ?v = "pm_next_virtual_id (pgr_mapper s)" and ?q = "sb_next_page_id (pgr_superblock s)"
  let ?p = "page_core (config_page s ?v ty [])"
  have "(unat ?q + 1) * size_of s \<le> (unat ?q + Suc n) * size_of s"
    by (intro mult_le_mono1) simp
  then have "(unat ?q + 1) * size_of s < 2 ^ 63" "unat ?v + 1 < 2 ^ 64"
    using Suc.prems(4,5) by linarith+
  from allocate_page_inv [OF Suc.prems(1-3) this] obtain t
    where t: "allocate_page E ty s = (Inr ?v, t)" "pgr_config t = pgr_config s"
      "pm_next_virtual_id (pgr_mapper t) = ?v + 1" "unat (sb_next_page_id (pgr_superblock t)) \<le> unat ?q + 1"
      "pager_inv E t (M(?v \<mapsto> ?p))"
    by blast
  have v1: "unat (?v + 1) = unat ?v + 1"
    using Suc.prems(5) by (simp add: unat_word_ariths)
  have "(unat (sb_next_page_id (pgr_superblock t)) + n) * size_of s \<le> (unat ?q + Suc n) * size_of s"
    using t(4) by (intro mult_le_mono1) simp
  then have "(unat (sb_next_page_id (pgr_superblock t)) + n) * size_of t < 2 ^ 63"
    "unat (pm_next_virtual_id (pgr_mapper t)) + n < 2 ^ 64"
    using Suc.prems(4,5) config_cong(1) [OF t(2)] t(3) v1 by simp_all
  from Suc.IH [OF Suc.prems(1) t(5) Suc.prems(3) this] obtain "is" u M'
    where u: "allocate_many E ty n t = (Inr is, u)" "pager_inv E u M'" "pgr_config u = pgr_config t" "length is = n"
      "distinct is" "\<forall>w. w \<notin> set is \<longrightarrow> M' w = (M(?v \<mapsto> ?p)) w"
      "\<forall>i\<in>set is. (M(?v \<mapsto> ?p)) i = None \<and> M' i \<noteq> None \<and> unat ?v + 1 \<le> unat i \<and> unat i < unat ?v + 1 + n"
    unfolding t(3) v1 by blast
  have v: "?v \<notin> set is" "M ?v = None"
    using u(7) inv_fresh_virtual [OF Suc.prems(2)] by auto
  have "\<forall>w. w \<notin> set (?v # is) \<longrightarrow> M' w = M w"
    using u(6) by auto
  moreover have "\<forall>i\<in>set (?v # is). M i = None \<and> M' i \<noteq> None \<and> unat ?v \<le> unat i \<and> unat i < unat ?v + Suc n"
    using u(6,7) v by (auto split: if_splits)
  ultimately show ?case
    using t(1,2) u(1-5) v(1) by (intro exI [of _ "?v # is"] exI [of _ u] exI [of _ M'])
      (simp add: pbind_def pret_def)
qed

lemma write_chain_inv:
  assumes "env_ok E" and "pager_inv E s M" and "distinct is" and "\<And>i. i \<in> set is \<Longrightarrow> M i \<noteq> None"
    and "\<And>i ch nxt. length ch \<le> c \<Longrightarrow> page_ok E s (overflow_page E s i ch nxt)"
    and "length d \<le> length is * c"
  shows "\<exists>t M'. write_chain E c is d s = (Inr (), t) \<and> pager_inv E t M' \<and> chain_in E s c is d M' \<and>
    same_ids s t \<and> (\<forall>w. w \<notin> set is \<longrightarrow> M' w = M w)"
  using assms
proof (induction "is" arbitrary: s M d)
  case Nil
  then show ?case
    by (auto simp: pret_def)
next
  case (Cons i "is")
  let ?p = "overflow_page E s i (take c d) (next_of is)"
  have id: "ph_page_id (pg_header ?p) = i"
    by (simp add: overflow_page_def config_page_def page_header_new_def)
  have ok: "page_ok E s ?p"
    by (intro Cons.prems(5)) simp
  obtain p0 where "M (ph_page_id (pg_header ?p)) = Some p0"
    using Cons.prems(4) [of i] unfolding id by auto
  from write_page_inv [OF Cons.prems(1,2) ok this] obtain t where t: "write_page E ?p s = (Inr (), t)"
    "pager_inv E t (M(i \<mapsto> page_core ?p))" "same_ids s t"
    unfolding id by blast
  have page_eq: "overflow_page E t = overflow_page E s" "page_ok E t = page_ok E s"
    using config_cong(2,7) [of t s] t(3) by (simp_all add: overflow_page_def fun_eq_iff)
  have chain_eq: "chain_in E t c js e N = chain_in E s c js e N" for js e N
    by (induction js arbitrary: e) (simp_all add: page_eq)
  have "\<exists>u M'. write_chain E c is (drop c d) t = (Inr (), u) \<and> pager_inv E u M' \<and> chain_in E t c is (drop c d) M' \<and>
    same_ids t u \<and> (\<forall>w. w \<notin> set is \<longrightarrow> M' w = (M(i \<mapsto> page_core ?p)) w)"
    using Cons.prems(3,4,6) by (intro Cons.IH [OF Cons.prems(1) t(2)]) (auto simp: page_eq intro: Cons.prems(5))
  then obtain u M' where u: "write_chain E c is (drop c d) t = (Inr (), u)" "pager_inv E u M'"
    "chain_in E s c is (drop c d) M'" "same_ids t u" "\<forall>w. w \<notin> set is \<longrightarrow> M' w = (M(i \<mapsto> page_core ?p)) w"
    unfolding chain_eq by blast
  have "write_chain E c (i # is) d s = (Inr (), u)"
    using t(1) u(1) by (simp add: write_overflow_page_eq pbind_def next_of_def)
  moreover have "chain_in E s c (i # is) d M'"
    using u(3,5) Cons.prems(3) by simp
  ultimately show ?case
    using u(2,4,5) t(3) by (intro exI [of _ u] exI [of _ M']) auto
qed

lemma free_chain_step_inv:
  assumes env: "env_ok E" and inv: "pager_inv E s M" and page: "M i = Some (page_core (overflow_page E s0 i d nxt))"
  shows "\<exists>t. free_chain_step E i s =
      (Inr (case nxt of None \<Rightarrow> None | Some j \<Rightarrow> if (ucast j :: u32) = 0 then None else Some (ucast (ucast j :: u32))), t) \<and>
    pager_inv E t (M(i := None))"
proof -
  let ?h = "overflow_header_new (case nxt of Some j \<Rightarrow> ucast j | None \<Rightarrow> 0) (of_nat (length d)) (env_crc32 E d)"
  obtain p t where t: "read_page E i s = (Inr p, t)" "page_core p = page_core (overflow_page E s0 i d nxt)"
    "pager_inv E t M"
    using read_page_inv [OF inv page] by blast
  have data: "pg_data p = overflow_header_to_bytes ?h @ d" "ph_page_type (pg_header p) = PT_Overflow"
    using page_core_eqD(1,2) [OF t(2)] by (simp_all add: overflow_page_def config_page_def page_header_new_def)
  obtain u where u: "free_page E i t = (Inr (), u)" "pager_inv E u (M(i := None))"
    using free_page_inv [OF env t(3) page] by (auto simp: overflow_page_def config_page_def page_header_new_def)
  have "free_chain_step E i s = (Inr (if overflow_is_last ?h then None else Some (ucast (oh_next_page_id ?h))), u)"
    using t(1) u(1) data by (simp add: free_chain_step_def pbind_def plift_def pret_def overflow_header_round_trip)
  then show ?thesis
    using u(2) by (auto simp: overflow_is_last_def overflow_header_new_def split: option.split)
qed

lemma free_chain_inv:
  assumes "env_ok E" and "pager_inv E s M" and "chain_in E s0 c is d M" and "is \<noteq> []" and "narrow is" and "distinct is"
  shows "\<exists>t. free_overflow_chain (length is + k) E (hd is) s = Some (Inr (), t) \<and> pager_inv E t (M |` (- set is))"
  using assms
proof (induction "is" arbitrary: d s M)
  case (Cons i "is")
  obtain t where t: "free_chain_step E i s =
      (Inr (case next_of is of None \<Rightarrow> None | Some j \<Rightarrow> if (ucast j :: u32) = 0 then None else Some (ucast (ucast j :: u32))), t)"
    "pager_inv E t (M(i := None))"
    using free_chain_step_inv [OF Cons.prems(1,2), of i s0 "take c d" "next_of is"] Cons.prems(3) by auto
  show ?case
  proof (cases "is")
    case Nil
    have "M(i := None) = M |` (- set [i])"
      by (auto simp: restrict_map_def)
    then show ?thesis
      using t Nil by (simp add: next_of_def)
  next
    case (Cons j js)
    have "chain_in E s0 c is (drop c d) (M(i := None))"
      using Cons.prems(3,6) chain_in_cong [of "is" "M(i := None)" M] by fastforce
    moreover have "is \<noteq> []" "narrow is" "distinct is"
      using Cons.prems(5,6) Cons by auto
    ultimately obtain u where "free_overflow_chain (length is + k) E (hd is) t = Some (Inr (), u)"
      "pager_inv E u (M(i := None) |` (- set is))"
      using Cons.IH [OF Cons.prems(1) t(2)] by blast
    moreover have "M(i := None) |` (- set is) = M |` (- set (i # is))"
      by (auto simp: restrict_map_def)
    ultimately show ?thesis
      using t(1) Cons Cons.prems(5) narrow_link [of j] by (simp add: next_of_def)
  qed
qed simp

section \<open>The value as a whole\<close>

text \<open>
  Full overflow pages can be stored, whatever bytes they hold. The pager fills them up to the data size
  of a page; the 28 bytes that encryption adds do not fit then, and neither do those a compressor adds
  to bytes it cannot shrink, so that this excludes encrypted pages and such compressors.
\<close>

definition overflow_fits :: "pager_env \<Rightarrow> pager \<Rightarrow> bool" where
  "overflow_fits E s \<longleftrightarrow> (\<forall>i ch nxt. length ch \<le> chunk_size s \<longrightarrow> page_ok E s (overflow_page E s i ch nxt))"

definition chain_length :: "pager \<Rightarrow> bytes \<Rightarrow> nat" where
  "chain_length s d = (length d + chunk_size s - 1) div chunk_size s"

lemma chunk_size_bounds: "chunk_size s + 96 = size_of s" "4000 \<le> chunk_size s" "chunk_size s < 2 ^ 32"
  using page_data_size_add [of "pc_page_size (pgr_config s)"] size_of_bounds [of s]
  by (simp_all add: chunk_size_def size_of_def)

lemma chain_length_covers: "length d \<le> chain_length s d * chunk_size s"
proof -
  let ?c = "chunk_size s"
  have "length d + ?c - 1 = chain_length s d * ?c + (length d + ?c - 1) mod ?c"
    by (simp add: chain_length_def)
  moreover have "(length d + ?c - 1) mod ?c < ?c"
    using chunk_size_bounds(2) [of s] by simp
  ultimately show ?thesis
    by linarith
qed

lemma plain_overflow_fits:
  assumes "env_ok E" and "pc_compression (pgr_config s) = Comp_None" and "pc_encryption (pgr_config s) = Enc_None"
  shows "overflow_fits E s"
  using chunk_size_bounds(1) [of s] assms
  by (auto simp: overflow_fits_def overflow_page_def config_page_def page_header_new_def readable_type_def
      overflow_header_to_bytes_def intro!: plain_page_ok)

lemma allocate_overflow_chain_inv:
  assumes env: "env_ok E" and inv: "pager_inv E s M" and fits: "overflow_fits E s" and d: "d \<noteq> []"
    and room: "(unat (sb_next_page_id (pgr_superblock s)) + chain_length s d) * size_of s < 2 ^ 63"
    and ids: "unat (pm_next_virtual_id (pgr_mapper s)) + chain_length s d < 2 ^ 32"
  shows "\<exists>is t M'. allocate_overflow_chain E d s = (Inr is, t) \<and> pager_inv E t M' \<and> pgr_config t = pgr_config s \<and>
    chain_in E s (chunk_size s) is d M' \<and> length is = chain_length s d \<and> is \<noteq> [] \<and> distinct is \<and> narrow is \<and>
    M' |` (- set is) = M \<and> M |` (- set is) = M"
proof -
  let ?c = "chunk_size s"
  have "readable_type PT_Overflow" "unat (pm_next_virtual_id (pgr_mapper s)) + chain_length s d < 2 ^ 64"
    using ids by (simp_all add: readable_type_def)
  from allocate_many_inv [OF env inv this(1) room this(2)] obtain "is" t M1 where a: "allocate_many E PT_Overflow (chain_length s d) s = (Inr is, t)" "pager_inv E t M1"
    "pgr_config t = pgr_config s" "length is = chain_length s d" "distinct is" "\<forall>w. w \<notin> set is \<longrightarrow> M1 w = M w"
    "\<forall>i\<in>set is. M i = None \<and> M1 i \<noteq> None \<and> unat (pm_next_virtual_id (pgr_mapper s)) \<le> unat i \<and>
       unat i < unat (pm_next_virtual_id (pgr_mapper s)) + chain_length s d"
    by blast
  have same: "overflow_page E t = overflow_page E s" "page_ok E t = page_ok E s"
    using config_cong(2,7) [OF a(3)] by (simp_all add: overflow_page_def fun_eq_iff)
  have chain_eq: "chain_in E t c js e N = chain_in E s c js e N" for c js e N
    by (induction js arbitrary: e) (simp_all add: same)
  have "\<exists>u M'. write_chain E ?c is d t = (Inr (), u) \<and> pager_inv E u M' \<and> chain_in E t ?c is d M' \<and>
      same_ids t u \<and> (\<forall>w. w \<notin> set is \<longrightarrow> M' w = M1 w)"
    using a(4,5,7) fits chain_length_covers [of d s]
    by (intro write_chain_inv [OF env a(2)]) (auto simp: same overflow_fits_def)
  then obtain u M2 where w: "write_chain E ?c is d t = (Inr (), u)" "pager_inv E u M2" "chain_in E s ?c is d M2"
    "same_ids t u" "\<forall>w. w \<notin> set is \<longrightarrow> M2 w = M1 w"
    unfolding chain_eq by blast
  have alloc: "allocate_overflow_chain E d s = (Inr is, u)"
    using a(1) w(1) d by (simp add: allocate_overflow_chain_def chain_length_def Let_def pbind_def pret_def)
  have ne: "is \<noteq> []"
    using a(4) d chain_length_covers [of d s] by auto
  have "unat i \<noteq> 0" if "i \<in> set is" for i
    using a(7) that pager_invD(7) [OF inv] by fastforce
  then have "narrow is"
    using a(7) ids by (fastforce simp: narrow_def)
  moreover have "M2 |` (- set is) = M" "M |` (- set is) = M"
    using a(6,7) w(5) by (auto simp: restrict_map_def fun_eq_iff)
  ultimately show ?thesis
    using alloc w(2,3,4) a(3,4,5) ne by (intro exI [of _ "is"] exI [of _ u] exI [of _ M2]) simp
qed

section \<open>Streaming\<close>

text \<open>
  A stream in front of the bytes \<open>rest\<close>: what is left of its buffer and the chain behind it, no page
  of which is empty.
\<close>

definition stream_at :: "pager_env \<Rightarrow> pager \<Rightarrow> nat \<Rightarrow> page_store \<Rightarrow> overflow_stream \<Rightarrow> bytes \<Rightarrow> bool" where
  "stream_at E s0 c M st rest \<longleftrightarrow>
     (\<exists>is later. rest = drop (os_buffer_pos st) (os_buffer st) @ later \<and> chain_in E s0 c is later M \<and>
        os_current_page_id st = next_of is \<and> narrow is \<and> (is \<noteq> [] \<longrightarrow> (length is - 1) * c < length later) \<and>
        unat (os_position st) + length rest = unat (os_total_length st))"

lemma refill_inv:
  assumes inv: "pager_inv E s M" and at: "stream_at E s0 c M st rest" and "rest \<noteq> []" and c: "0 < c" "c < 2 ^ 32"
  shows "\<exists>st' t. refill E st s = (Inr (Some st'), t) \<and> pager_inv E t M \<and> stream_at E s0 c M st' rest \<and>
    os_buffer_pos st' < length (os_buffer st')"
proof (cases "os_buffer_pos st < length (os_buffer st)")
  case True
  then show ?thesis
    using inv at by (simp add: refill_def pret_def)
next
  case False
  obtain "is" later where later: "rest = drop (os_buffer_pos st) (os_buffer st) @ later" "chain_in E s0 c is later M"
    "os_current_page_id st = next_of is" "narrow is" "is \<noteq> [] \<longrightarrow> (length is - 1) * c < length later"
    "unat (os_position st) + length rest = unat (os_total_length st)"
    using at unfolding stream_at_def by blast
  have "later \<noteq> []"
    using later(1) False \<open>rest \<noteq> []\<close> by auto
  then obtain i js where "is": "is = i # js"
    using later(2) by (cases "is") auto
  have page: "M i = Some (page_core (overflow_page E s0 i (take c later) (next_of js)))" "length (take c later) < 2 ^ 32"
    using later(2) "is" c by simp_all
  obtain h t where h: "read_overflow_page E i s = (Inr (take c later, h), t)" "pager_inv E t M"
    "oh_next_page_id h = (case next_of js of Some j \<Rightarrow> ucast j | None \<Rightarrow> 0)"
    using read_overflow_page_inv [OF inv page] by blast
  let ?st = "st\<lparr>os_buffer := take c later, os_buffer_pos := 0, os_current_page_id := next_of js\<rparr>"
  have link: "(if overflow_is_last h then None else Some (ucast (oh_next_page_id h))) = next_of js"
    using h(3) later(4) narrow_link [of "hd js"] by (cases js) (auto simp: "is" next_of_def overflow_is_last_def)
  have "refill E st s = (Inr (Some ?st), t)"
    using False later(3) h(1) link by (simp add: "is" next_of_def refill_def load_next_page_def pbind_def pret_def)
  moreover have "js \<noteq> [] \<longrightarrow> (length js - 1) * c < length (drop c later)"
  proof
    assume "js \<noteq> []"
    then obtain n where n: "length js = Suc n"
      by (cases js) auto
    then have "Suc n * c < length later"
      using later(5) "is" by simp
    then show "(length js - 1) * c < length (drop c later)"
      using n by simp
  qed
  then have "stream_at E s0 c M ?st rest"
    using later False unfolding stream_at_def
    by (intro exI [of _ js] exI [of _ "drop c later"]) (simp add: "is")
  moreover have "os_buffer_pos ?st < length (os_buffer ?st)"
    using \<open>later \<noteq> []\<close> c(1) by simp
  ultimately show ?thesis
    using h(2) by blast
qed

lemma stream_at_advance:
  assumes "stream_at E s0 c M st rest" and "n \<le> length (os_buffer st) - os_buffer_pos st" "os_buffer_pos st \<le> length (os_buffer st)"
  shows "stream_at E s0 c M (stream_advance n st) (drop n rest)"
    "bslice (os_buffer_pos st) (os_buffer_pos st + n) (os_buffer st) = take n rest"
proof -
  obtain "is" later where later: "rest = drop (os_buffer_pos st) (os_buffer st) @ later" "chain_in E s0 c is later M"
    "os_current_page_id st = next_of is" "narrow is" "is \<noteq> [] \<longrightarrow> (length is - 1) * c < length later"
    "unat (os_position st) + length rest = unat (os_total_length st)"
    using assms(1) unfolding stream_at_def by blast
  show "bslice (os_buffer_pos st) (os_buffer_pos st + n) (os_buffer st) = take n rest"
    using assms(2,3) later(1) by (simp add: bslice_def)
  have n: "n \<le> length rest"
    using assms(2) later(1) by simp
  have "unat (os_total_length st) < 2 ^ 64"
    using unsigned_less [of "os_total_length st"] by simp
  then have "unat (os_position st + of_nat n) = unat (os_position st) + n"
    using later(6) n by (simp add: unat_word_ariths unat_of_nat)
  then show "stream_at E s0 c M (stream_advance n st) (drop n rest)"
    using later n assms(2) unfolding stream_at_def stream_advance_def
    by (intro exI [of _ "is"] exI [of _ later]) (simp add: add.commute)
qed

lemma stream_read_loop_inv:
  assumes "pager_inv E s M" and "stream_at E s0 c M st rest" and "0 < c" "c < 2 ^ 32" and "length acc \<le> want"
  shows "\<exists>st' t. stream_read_loop E want acc st s = (Inr (acc @ take (want - length acc) rest), st', t) \<and>
    pager_inv E t M \<and> stream_at E s0 c M st' (drop (want - length acc) rest)"
  using assms
proof (induction "want - length acc" arbitrary: acc st s rest rule: less_induct)
  case less
  have pos: "unat (os_position st) + length rest = unat (os_total_length st)"
    using less.prems(2) by (auto simp: stream_at_def)
  show ?case
  proof (cases "length acc < want \<and> rest \<noteq> []")
    case False
    then have "\<not> (length acc < want \<and> os_position st < os_total_length st)" "take (want - length acc) rest = []"
      "drop (want - length acc) rest = rest"
      using pos less.prems(5) by (auto simp: word_less_nat_alt)
    then show ?thesis
      using less.prems by (subst stream_read_loop.simps) auto
  next
    case True
    then have "rest \<noteq> []" "0 < length rest"
      by auto
    then have run: "length acc < want \<and> os_position st < os_total_length st"
      using pos True unfolding word_less_nat_alt by linarith
    from refill_inv [OF less.prems(1,2) \<open>rest \<noteq> []\<close> less.prems(3,4)] obtain st1 t1
      where r: "refill E st s = (Inr (Some st1), t1)" "pager_inv E t1 M" "stream_at E s0 c M st1 rest"
        "os_buffer_pos st1 < length (os_buffer st1)"
      by blast
    define n where "n = stream_to_copy (want - length acc) st1"
    have pos1: "unat (os_position st1) + length rest = unat (os_total_length st1)"
      using r(3) by (auto simp: stream_at_def)
    then have "unat (os_total_length st1 - os_position st1) = length rest"
      by (metis add_diff_cancel_left' le_add1 unat_sub word_le_nat_alt)
    then have n: "0 < n" "n \<le> want - length acc" "n \<le> length (os_buffer st1) - os_buffer_pos st1" "n \<le> length rest"
      using True r(4) by (auto simp: n_def stream_to_copy_def)
    note adv = stream_at_advance [OF r(3) n(3) less_imp_le [OF r(4)]]
    let ?acc = "acc @ take n rest"
    have loop: "stream_read_loop E want acc st s = stream_read_loop E want ?acc (stream_advance n st1) t1"
      using run r(1,4) adv(2) by (subst stream_read_loop.simps) (auto simp: n_def [symmetric] Let_def)
    have step: "want - length ?acc < want - length acc" "length ?acc \<le> want"
      "want - length acc = n + (want - length ?acc)"
      using n True by auto
    obtain st' t where res: "stream_read_loop E want ?acc (stream_advance n st1) t1 =
        (Inr (?acc @ take (want - length ?acc) (drop n rest)), st', t)" "pager_inv E t M"
        "stream_at E s0 c M st' (drop (want - length ?acc) (drop n rest))"
      using less.hyps [OF step(1) r(2) adv(1) less.prems(3,4) step(2)] by blast
    have "acc @ take (want - length acc) rest = ?acc @ take (want - length ?acc) (drop n rest)"
      "drop (want - length acc) rest = drop (want - length ?acc) (drop n rest)"
      unfolding step(3) by (simp_all add: take_add add.commute)
    then show ?thesis
      using loop res by metis
  qed
qed

text \<open>Reads of the sizes \<open>ns\<close>, one after the other, and the pieces they should return.\<close>

fun stream_reads :: "pager_env \<Rightarrow> nat list \<Rightarrow> overflow_stream \<Rightarrow> pager \<Rightarrow> (pager_error + bytes) list" where
  "stream_reads E [] st s = []"
| "stream_reads E (n # ns) st s = (let (r, st, s) = stream_read E n st s in r # stream_reads E ns st s)"

fun pieces :: "nat list \<Rightarrow> 'a list \<Rightarrow> 'a list list" where
  "pieces [] d = []"
| "pieces (n # ns) d = take n d # pieces ns (drop n d)"

lemma stream_reads_inv:
  assumes "pager_inv E s M" and "stream_at E s0 c M st rest" and "0 < c" "c < 2 ^ 32"
  shows "stream_reads E ns st s = map Inr (pieces ns rest)"
  using assms
proof (induction ns arbitrary: st s rest)
  case (Cons n ns)
  have pos: "unat (os_position st) + length rest = unat (os_total_length st)"
    using Cons.prems(2) by (auto simp: stream_at_def)
  show ?case
  proof (cases "os_total_length st \<le> os_position st")
    case True
    then have "length rest = 0"
      using pos unfolding word_le_nat_alt by linarith
    then show ?thesis
      using True Cons by (simp add: stream_read_def)
  next
    case False
    obtain st' t where "stream_read_loop E n [] st s = (Inr (take n rest), st', t)" "pager_inv E t M"
      "stream_at E s0 c M st' (drop n rest)"
      using stream_read_loop_inv [OF Cons.prems, of "[]" n] by auto
    then show ?thesis
      using False Cons.IH Cons.prems(3,4) by (simp add: stream_read_def)
  qed
qed simp

section \<open>Properties\<close>

text \<open>
  C8. A value stored in an overflow chain comes back whole, and freeing the chain gives back exactly
  its pages: the pager stores the value in as many pages as it has chunks, reading from the first page
  returns the value within that many steps, freeing from the first page ends within as many, and
  afterwards the store holds what it held before the value was stored. Full overflow pages have to fit
  a slot whatever they hold (\<open>overflow_fits\<close>), which they do with neither compression nor
  encryption; the file has to stay below \<open>2 ^ 63\<close> bytes, and the page ids have to fit the
  32 bits of the links.
\<close>

theorem overflow_chain_round_trip:
  assumes "env_ok E" and "pager_inv E s M" and "overflow_fits E s" and "d \<noteq> []"
    and "(unat (sb_next_page_id (pgr_superblock s)) + chain_length s d) * size_of s < 2 ^ 63"
    and "unat (pm_next_virtual_id (pgr_mapper s)) + chain_length s d < 2 ^ 32"
  shows "\<exists>is t u v. allocate_overflow_chain E d s = (Inr is, t) \<and> length is = chain_length s d \<and>
    read_overflow_chain (chain_length s d) E (hd is) [] t = Some (Inr d, u) \<and>
    free_overflow_chain (chain_length s d) E (hd is) u = Some (Inr (), v) \<and> pager_inv E v M"
proof -
  obtain "is" t M' where a: "allocate_overflow_chain E d s = (Inr is, t)" "pager_inv E t M'"
    "chain_in E s (chunk_size s) is d M'" "length is = chain_length s d" "is \<noteq> []" "distinct is" "narrow is"
    "M' |` (- set is) = M"
    using allocate_overflow_chain_inv [OF assms] by blast
  obtain u where u: "read_overflow_chain (chain_length s d) E (hd is) [] t = Some (Inr d, u)" "pager_inv E u M'"
    using read_chain_inv [OF a(2,3,5,7) chunk_size_bounds(3), of 0 "[]"] a(4) by auto
  then obtain v where "free_overflow_chain (chain_length s d) E (hd is) u = Some (Inr (), v)" "pager_inv E v (M' |` (- set is))"
    using free_chain_inv [OF assms(1) u(2) a(3,5,7,6), of 0] a(4) by auto
  then show ?thesis
    using a(1,4,8) u(1) by auto
qed

theorem overflow_chain_round_trip_witness:
  "\<exists>s is t u v. pager_create sample_env 7 memory_fs_new ''db'' pager_config_default = Inr s \<and>
    allocate_overflow_chain sample_env (replicate 10000 5) s = (Inr is, t) \<and> length is = 3 \<and>
    read_overflow_chain 3 sample_env (hd is) [] t = Some (Inr (replicate 10000 5), u) \<and>
    free_overflow_chain 3 sample_env (hd is) u = Some (Inr (), v)"
proof -
  obtain s where s: "pager_create sample_env 7 memory_fs_new ''db'' pager_config_default = Inr s"
    "pgr_config s = pager_config_default" "codecs_fit sample_env s" "size_of s = 4096" "implements sample_env 9 s store_new"
    "sb_next_page_id (pgr_superblock s) = 2"
    by (rule sample_created)
  have "overflow_fits sample_env s"
    using s(2) by (intro plain_overflow_fits [OF sample_env_ok]) (simp_all add: pager_config_default_def)
  moreover have "chain_length s (replicate 10000 5) = 3"
    using chunk_size_bounds(1) [of s] s(4) by (simp add: chain_length_def)
  ultimately show ?thesis
    using overflow_chain_round_trip [OF sample_env_ok, of s Map.empty "replicate 10000 5"] s
    by (auto simp: implements_def store_new_def)
qed

text \<open>
  C9. Streaming a stored value returns it piece by piece. A stream opened on the chain of a value with
  the value's length answers reads of any sizes with the next bytes of the value, also across page
  boundaries, and with nothing once the value has been read. As for the chain as a whole, full
  overflow pages have to fit a slot whatever they hold, as they do with neither compression nor
  encryption, the file has to stay below \<open>2 ^ 63\<close> bytes, and the page ids have to fit the
  32 bits of the links.
\<close>

theorem overflow_stream_reads:
  assumes "env_ok E" and "pager_inv E s M" and "overflow_fits E s" and "d \<noteq> []" and "length d < 2 ^ 63"
    and "(unat (sb_next_page_id (pgr_superblock s)) + chain_length s d) * size_of s < 2 ^ 63"
    and "unat (pm_next_virtual_id (pgr_mapper s)) + chain_length s d < 2 ^ 32"
  shows "\<exists>is t. allocate_overflow_chain E d s = (Inr is, t) \<and>
    stream_reads E ns (overflow_stream_new (hd is) (of_nat (length d))) t = map Inr (pieces ns d)"
proof -
  let ?c = "chunk_size s"
  obtain "is" t M' where a: "allocate_overflow_chain E d s = (Inr is, t)" "pager_inv E t M'"
    "chain_in E s ?c is d M'" "length is = chain_length s d" "is \<noteq> []" "narrow is"
    using allocate_overflow_chain_inv [OF assms(1-4,6,7)] by blast
  have "(length is - 1) * ?c < length d"
  proof -
    have "chain_length s d * ?c \<le> length d + ?c - 1"
      by (simp add: chain_length_def)
    moreover obtain n where "chain_length s d = Suc n"
      using a(4,5) by (cases "chain_length s d") auto
    ultimately show ?thesis
      using a(4) chunk_size_bounds(2) [of s] by simp
  qed
  then have "stream_at E s ?c M' (overflow_stream_new (hd is) (of_nat (length d))) d"
    using a(3,5,6) assms(5) unfolding stream_at_def
    by (intro exI [of _ "is"] exI [of _ d])
      (auto simp: overflow_stream_new_def next_of_def unat_of_nat split: list.split)
  then have "stream_reads E ns (overflow_stream_new (hd is) (of_nat (length d))) t = map Inr (pieces ns d)"
    using chunk_size_bounds(2,3) [of s] by (intro stream_reads_inv [OF a(2)]) auto
  then show ?thesis
    using a(1) by blast
qed

theorem overflow_stream_reads_witness:
  "\<exists>s is t. pager_create sample_env 7 memory_fs_new ''db'' pager_config_default = Inr s \<and>
    allocate_overflow_chain sample_env (replicate 10000 5) s = (Inr is, t) \<and>
    stream_reads sample_env [4000, 7000, 1] (overflow_stream_new (hd is) 10000) t =
      [Inr (replicate 4000 5), Inr (replicate 6000 5), Inr []]"
proof -
  obtain s where s: "pager_create sample_env 7 memory_fs_new ''db'' pager_config_default = Inr s"
    "pgr_config s = pager_config_default" "codecs_fit sample_env s" "size_of s = 4096" "implements sample_env 9 s store_new"
    "sb_next_page_id (pgr_superblock s) = 2"
    by (rule sample_created)
  have "overflow_fits sample_env s"
    using s(2) by (intro plain_overflow_fits [OF sample_env_ok]) (simp_all add: pager_config_default_def)
  moreover have "chain_length s (replicate 10000 5) = 3"
    using chunk_size_bounds(1) [of s] s(4) by (simp add: chain_length_def)
  ultimately show ?thesis
    using overflow_stream_reads [OF sample_env_ok, of s Map.empty "replicate 10000 5" "[4000, 7000, 1]"] s
    by (auto simp: implements_def store_new_def)
qed

end
