(* ===== verification/TableTypes.thy ===== *)
theory TableTypes
  imports Mvcc PagerConfig
begin

text \<open>
  What the tables share: scan bounds (\<open>src/src/types.rs\<close>), batches of mutations and value streams
  (\<open>src/src/table/traits.rs\<close>), and tables that keep a chain of versions under each key. The locale
  \<open>versioned_store\<close> is the contract of such a table with the transactions that commit to it, and its
  lemma \<open>history\<close> what a reader at a log sequence number gets from it.
\<close>

section \<open>Bounds\<close>

datatype 'a bound = Included 'a | Excluded 'a | Unbounded

datatype scan_bounds = Scan_All | Scan_Prefix bytes | Scan_Range "bytes bound" "bytes bound"

text \<open>\<open>starts_with\<close> of a slice.\<close>

definition starts_with :: "bytes \<Rightarrow> bytes \<Rightarrow> bool" where
  "starts_with p k \<longleftrightarrow> take (length p) k = p"

lemma starts_with_simps [simp]:
  "starts_with [] k" "starts_with (a # p) (b # k) \<longleftrightarrow> a = b \<and> starts_with p k" "\<not> starts_with (a # p) []"
  by (auto simp: starts_with_def)

text \<open>The keys with a prefix follow each other, and the prefix itself comes first.\<close>

lemma starts_with_interval: "p \<le> j \<Longrightarrow> j \<le> k \<Longrightarrow> starts_with p k \<Longrightarrow> starts_with p j"
proof (induction p arbitrary: j k)
  case (Cons a p)
  then obtain j' b k' where "j = b # j'" "k = a # k'" "starts_with p k'"
    by (cases j; cases k) auto
  with Cons show ?case
    by auto
qed simp

lemma starts_with_le: "starts_with p k \<Longrightarrow> p \<le> k"
proof (induction p arbitrary: k)
  case (Cons a p)
  then show ?case
    by (cases k) auto
qed simp

section \<open>Mutations\<close>

datatype mutation = Put bytes bytes | Delete bytes | RangeDelete scan_bounds | Merge bytes bytes

record batch_report =
  br_attempted :: nat
  br_applied :: nat
  br_deleted :: nat
  br_bytes_written :: nat

definition batch_report_default :: batch_report where
  "batch_report_default = \<lparr>br_attempted = 0, br_applied = 0, br_deleted = 0, br_bytes_written = 0\<rparr>"

datatype table_error =
    MemtableFull
  | MemtableImmutable
  | MemtableNotImmutable
  | OperationNotSupported
  | InvalidOperationState
  | TablePanic
  | TableOther
  | TableCorruption string
  | TablePager pager_error
  | InvalidValueRef
  | InvalidFormatVersion u32

section \<open>Value streams\<close>

record slice_stream =
  ss_data :: bytes
  ss_position :: nat

definition slice_stream_new :: "bytes \<Rightarrow> slice_stream" where
  "slice_stream_new d = \<lparr>ss_data = d, ss_position = 0\<rparr>"

definition slice_read :: "nat \<Rightarrow> slice_stream \<Rightarrow> (table_error + bytes) \<times> slice_stream" where
  "slice_read want st =
     (let remaining = length (ss_data st) - ss_position st in
      if remaining = 0 then (Inr [], st)
      else let to_copy = min remaining want in
           (Inr (bslice (ss_position st) (ss_position st + to_copy) (ss_data st)),
            st\<lparr>ss_position := ss_position st + to_copy\<rparr>))"

text \<open>
  The loop of \<open>put_stream\<close>: 8192 bytes at a time until a read returns none. A stream need not end, so
  the loop carries fuel.
\<close>

fun drain_stream :: "nat \<Rightarrow> (nat \<Rightarrow> 's \<Rightarrow> ('e + bytes) \<times> 's) \<Rightarrow> bytes \<Rightarrow> 's \<Rightarrow> (('e + bytes) \<times> 's) option" where
  "drain_stream 0 rd acc st = None"
| "drain_stream (Suc fuel) rd acc st =
     (case rd 8192 st of
        (Inl e, st) \<Rightarrow> Some (Inl e, st)
      | (Inr [], st) \<Rightarrow> Some (Inr acc, st)
      | (Inr (b # bs), st) \<Rightarrow> drain_stream fuel rd (acc @ b # bs) st)"

lemma drain_slice_stream:
  assumes "length (ss_data st) - ss_position st \<le> 8192 * fuel"
  shows "\<exists>st'. drain_stream (Suc fuel) slice_read acc st = Some (Inr (acc @ drop (ss_position st) (ss_data st)), st')"
  using assms
proof (induction fuel arbitrary: acc st)
  case 0
  then show ?case
    by (simp add: slice_read_def)
next
  case (Suc fuel)
  let ?r = "length (ss_data st) - ss_position st"
  show ?case
  proof (cases "?r = 0")
    case True
    then show ?thesis
      by (simp add: slice_read_def)
  next
    case False
    define n where "n = min ?r 8192"
    let ?st = "st\<lparr>ss_position := ss_position st + n\<rparr>"
    obtain b bs where b: "take n (drop (ss_position st) (ss_data st)) = b # bs"
      using False by (cases "take n (drop (ss_position st) (ss_data st))") (auto simp: n_def)
    have rd: "slice_read 8192 st = (Inr (b # bs), ?st)"
      using False b by (simp add: slice_read_def n_def bslice_def Let_def)
    have "(b # bs) @ drop (ss_position st + n) (ss_data st) = drop (ss_position st) (ss_data st)"
      unfolding b [symmetric] by (metis add.commute append_take_drop_id drop_drop)
    then have split: "acc @ b # bs @ drop (ss_position st + n) (ss_data st) = acc @ drop (ss_position st) (ss_data st)"
      by simp
    have "length (ss_data ?st) - ss_position ?st \<le> 8192 * fuel"
      using Suc.prems by (auto simp: n_def min_def)
    from Suc.IH [OF this, of "acc @ b # bs"] show ?thesis
      using rd split by (subst drain_stream.simps(2)) auto
  qed
qed

section \<open>Keys with versions\<close>

type_synonym versioned = "(bytes, version_chain) btmap"

text \<open>The snapshot the tables build to read at a log sequence number.\<close>

definition at_lsn :: "lsn \<Rightarrow> snapshot" where
  "at_lsn l = snapshot_new 0 [] l 0 0 []"

definition read_at :: "versioned \<Rightarrow> bytes \<Rightarrow> lsn \<Rightarrow> bytes option" where
  "read_at m k l = (case bt_get m k of None \<Rightarrow> None | Some c \<Rightarrow> find_visible_inline (at_lsn l) c)"

text \<open>\<open>commit_versions\<close>: the heads a transaction left uncommitted get its log sequence number.\<close>

definition commit_heads :: "txn_id \<Rightarrow> lsn \<Rightarrow> versioned \<Rightarrow> versioned" where
  "commit_heads t l m =
     bt_map (\<lambda>k c. if vc_created_by c = t \<and> vc_commit_lsn c = None then chain_commit l c else c) m"

text \<open>A new version on top of a key, uncommitted.\<close>

definition push_version :: "bytes \<Rightarrow> bytes \<Rightarrow> txn_id \<Rightarrow> versioned \<Rightarrow> versioned" where
  "push_version k v t m =
     bt_insert k (case bt_get m k of Some c \<Rightarrow> prepend v t c | None \<Rightarrow> chain_new v t) m"

fun vacuum_all :: "lsn \<Rightarrow> versioned \<Rightarrow> versioned \<times> nat" where
  "vacuum_all l [] = ([], 0)"
| "vacuum_all l ((k, c) # m) =
     (let (c', removed, freed) = vacuum l c; (m', n) = vacuum_all l m in ((k, c') # m', removed + n))"

text \<open>\<open>commit_all_uncommitted\<close>: every uncommitted version of a chain, of whichever transaction.\<close>

fun commit_all_uncommitted :: "lsn \<Rightarrow> version_chain \<Rightarrow> version_chain" where
  "commit_all_uncommitted l (VersionChain v t cl p) =
     VersionChain v t (case cl of None \<Rightarrow> Some l | Some x \<Rightarrow> Some x) (map_option (commit_all_uncommitted l) p)"

lemma versions_commit_all:
  "versions (commit_all_uncommitted l c) =
     map (\<lambda>(v, t, cl). (v, t, case cl of None \<Rightarrow> Some l | Some x \<Rightarrow> Some x)) (versions c)"
  by (induction l c rule: commit_all_uncommitted.induct) (auto split: option.split)

lemma visible_at_lsn [simp]: "is_visible (at_lsn m) l t \<longleftrightarrow> l \<le> m"
  by (auto simp: is_visible_def at_lsn_def snapshot_new_def)

text \<open>Every committed version of the map is older than \<open>l\<close>, and no head is uncommitted.\<close>

definition settled_before :: "lsn \<Rightarrow> versioned \<Rightarrow> bool" where
  "settled_before l m \<longleftrightarrow> bt_wf m \<and>
     (\<forall>k c. bt_get m k = Some c \<longrightarrow> vc_commit_lsn c \<noteq> None \<and> (\<forall>(v, t, cl)\<in>set (versions c). \<forall>x. cl = Some x \<longrightarrow> x < l))"

lemma settled_beforeD:
  "settled_before l m \<Longrightarrow> bt_get m k = Some c \<Longrightarrow> (w, u, Some x) \<in> set (versions c) \<Longrightarrow> x < l"
  unfolding settled_before_def by fast

lemma read_at_lookup:
  "read_at m k l = (case bt_get m k of None \<Rightarrow> None | Some c \<Rightarrow>
     Option.bind (find (sees (at_lsn l)) (versions c)) (\<lambda>x. as_inline (fst x)))"
  by (auto simp: read_at_def find_visible_inline_def find_visible_versions split: option.split version_value.split)

section \<open>Commits to a versioned map\<close>

definition values_for :: "bytes \<Rightarrow> (bytes \<times> bytes) list \<Rightarrow> bytes list" where
  "values_for k ws = map snd (filter (\<lambda>w. fst w = k) ws)"

lemma values_for_simps [simp]:
  "values_for k [] = []" "values_for k (ws @ ws') = values_for k ws @ values_for k ws'"
  "values_for k ((j, v) # ws) = (if j = k then v # values_for k ws else values_for k ws)"
  by (simp_all add: values_for_def)

lemma map_of_rev_values: "map_of (rev ws) k = (if values_for k ws = [] then None else Some (last (values_for k ws)))"
  by (induction ws rule: rev_induct) auto

definition put_all :: "txn_id \<Rightarrow> (bytes \<times> bytes) list \<Rightarrow> versioned \<Rightarrow> versioned" where
  "put_all t ws m = fold (\<lambda>(k, v). push_version k v t) ws m"

definition old_versions :: "versioned \<Rightarrow> bytes \<Rightarrow> version list" where
  "old_versions m k = (case bt_get m k of None \<Rightarrow> [] | Some c \<Rightarrow> versions c)"

lemma put_all_wf [simp]: "bt_wf m \<Longrightarrow> bt_wf (put_all t ws m)"
  by (induction ws arbitrary: m) (auto simp: put_all_def push_version_def)

lemma put_all_snoc: "put_all t (ws @ [(k, v)]) m = push_version k v t (put_all t ws m)"
  by (simp add: put_all_def)

lemma put_all_get:
  "if values_for k ws = [] then bt_get (put_all t ws m) k = bt_get m k
   else \<exists>c. bt_get (put_all t ws m) k = Some c \<and>
     versions c = map (\<lambda>v. (VInline v, t, None)) (rev (values_for k ws)) @ old_versions m k"
proof (induction ws rule: rev_induct)
  case (snoc w ws)
  obtain j v where w: "w = (j, v)"
    by fastforce
  note step = put_all_snoc [of t ws]
  show ?case
  proof (cases "j = k")
    case True
    then show ?thesis
      using snoc by (auto simp: step w push_version_def old_versions_def split: if_splits option.split)
  next
    case False
    then show ?thesis
      using snoc by (simp add: step w push_version_def)
  qed
qed (simp add: put_all_def)

lemma commit_heads_wf [simp]: "bt_wf (commit_heads t l m) = bt_wf m"
  by (simp add: commit_heads_def)

lemma head_uncommitted: "vc_commit_lsn c = None \<longleftrightarrow> (\<exists>v t. hd (versions c) = (v, t, None))"
  "vc_created_by c = fst (snd (hd (versions c)))"
  by (cases c; simp)+

lemma commit_put_get:
  assumes "settled_before l m" and "values_for k ws \<noteq> []"
  obtains c where "bt_get (commit_heads t l (put_all t ws m)) k = Some c"
    and "versions c = (VInline (last (values_for k ws)), t, Some l) #
      map (\<lambda>v. (VInline v, t, None)) (rev (butlast (values_for k ws))) @ old_versions m k"
proof -
  obtain c where c: "bt_get (put_all t ws m) k = Some c"
    "versions c = map (\<lambda>v. (VInline v, t, None)) (rev (values_for k ws)) @ old_versions m k"
    using put_all_get [of k ws t m] assms(2) by auto
  have r: "rev (values_for k ws) = last (values_for k ws) # rev (butlast (values_for k ws))"
    using assms(2) by (metis append_butlast_last_id rev.simps(2) rev_rev_ident rev_append rev_singleton_conv append_Cons append_Nil)
  have v: "versions c = (VInline (last (values_for k ws)), t, None) #
      map (\<lambda>v. (VInline v, t, None)) (rev (butlast (values_for k ws))) @ old_versions m k"
    using c(2) unfolding r by simp
  then have "vc_created_by c = t" "vc_commit_lsn c = None"
    by (auto simp: head_uncommitted)
  then show ?thesis
    using that [of "chain_commit l c"] c(1) v by (simp add: commit_heads_def)
qed

lemma commit_other_get:
  assumes "settled_before l m" and "values_for k ws = []"
  shows "bt_get (commit_heads t l (put_all t ws m)) k = bt_get m k"
proof (cases "bt_get m k")
  case (Some c)
  then have "vc_commit_lsn c \<noteq> None"
    using assms(1) by (auto simp: settled_before_def)
  then show ?thesis
    using put_all_get [of k ws t m] assms(2) Some by (auto simp: commit_heads_def)
qed (use put_all_get [of k ws t m] assms(2) in \<open>simp add: commit_heads_def\<close>)

lemma unseen_uncommitted: "find (sees s) (map (\<lambda>v. (f v, t, None)) vs @ xs) = find (sees s) xs"
  by (induction vs) (auto simp: sees_def)

lemma commit_read_at:
  assumes "settled_before l m"
  shows "read_at (commit_heads t l (put_all t ws m)) k n =
    (if l \<le> n then case map_of (rev ws) k of Some v \<Rightarrow> Some v | None \<Rightarrow> read_at m k n else read_at m k n)"
proof (cases "values_for k ws = []")
  case True
  then show ?thesis
    using commit_other_get [OF assms True] by (simp add: read_at_def map_of_rev_values)
next
  case False
  obtain c where c: "bt_get (commit_heads t l (put_all t ws m)) k = Some c"
    "versions c = (VInline (last (values_for k ws)), t, Some l) #
      map (\<lambda>v. (VInline v, t, None)) (rev (butlast (values_for k ws))) @ old_versions m k"
    using commit_put_get [OF assms False] .
  moreover have "find (sees (at_lsn n)) (versions c) = (if l \<le> n then Some (VInline (last (values_for k ws)), t, Some l)
      else find (sees (at_lsn n)) (old_versions m k))"
    unfolding c(2) by (simp add: unseen_uncommitted) (simp add: sees_def)
  ultimately show ?thesis
    using False by (simp add: read_at_lookup map_of_rev_values old_versions_def split: option.split)
qed

lemma commit_settled:
  assumes "settled_before l m" and "l < l'"
  shows "settled_before l' (commit_heads t l (put_all t ws m))"
proof -
  have "vc_commit_lsn c \<noteq> None \<and> (\<forall>(v, t, cl)\<in>set (versions c). \<forall>x. cl = Some x \<longrightarrow> x < l')"
    if c: "bt_get (commit_heads t l (put_all t ws m)) k = Some c" for k c
  proof (cases "values_for k ws = []")
    case True
    then show ?thesis
      using c commit_other_get [OF assms(1) True] assms by (fastforce simp: settled_before_def)
  next
    case False
    then have v: "versions c = (VInline (last (values_for k ws)), t, Some l) #
        map (\<lambda>v. (VInline v, t, None)) (rev (butlast (values_for k ws))) @ old_versions m k"
      using commit_put_get [OF assms(1) False, of t] c by (metis option.inject)
    moreover have "x < l'" if "(w, u, Some x) \<in> set (old_versions m k)" for w u x
    proof (cases "bt_get m k")
      case (Some c)
      then show ?thesis
        using that settled_beforeD [OF assms(1) Some] assms(2) by (force simp: old_versions_def)
    qed (use that in \<open>simp add: old_versions_def\<close>)
    ultimately show ?thesis
      using assms(2) by (auto simp: head_uncommitted)
  qed
  then show ?thesis
    using assms(1) by (auto simp: settled_before_def)
qed

section \<open>Committing and reading\<close>

text \<open>
  The contract of a table with versions: committing the writes of a transaction above everything
  committed so far shows them to readers from that log sequence number on and to no others.
\<close>

locale versioned_store =
  fixes read :: "'s \<Rightarrow> bytes \<Rightarrow> lsn \<Rightarrow> bytes option"
    and commit :: "txn_id \<Rightarrow> lsn \<Rightarrow> (bytes \<times> bytes) list \<Rightarrow> 's \<Rightarrow> 's"
    and settled :: "lsn \<Rightarrow> 's \<Rightarrow> bool"
  assumes commit_read: "settled l s \<Longrightarrow> read (commit t l ws s) k n =
      (if l \<le> n then case map_of (rev ws) k of Some v \<Rightarrow> Some v | None \<Rightarrow> read s k n else read s k n)"
    and commit_settled: "settled l s \<Longrightarrow> l < l' \<Longrightarrow> settled l' (commit t l ws s)"
    and settled_mono: "settled l s \<Longrightarrow> l \<le> l' \<Longrightarrow> settled l' s"
begin

text \<open>A history lists the commits, oldest first; the value at \<open>n\<close> is what the latest one up to \<open>n\<close> wrote.\<close>

lemma read_stable: "settled l s \<Longrightarrow> n < l \<Longrightarrow> read (commit t l ws s) k n = read s k n"
  using commit_read [of l s t ws k n] by auto

lemma read_own: "settled l s \<Longrightarrow> map_of (rev ws) k = Some v \<Longrightarrow> l \<le> n \<Longrightarrow> read (commit t l ws s) k n = Some v"
  by (simp add: commit_read)

end

type_synonym commit = "txn_id \<times> lsn \<times> (bytes \<times> bytes) list"

fun value_at :: "commit list \<Rightarrow> bytes \<Rightarrow> lsn \<Rightarrow> bytes option \<Rightarrow> bytes option" where
  "value_at [] k n v = v"
| "value_at ((t, l, ws) # hs) k n v =
     value_at hs k n (if l \<le> n then case map_of (rev ws) k of Some w \<Rightarrow> Some w | None \<Rightarrow> v else v)"

fun history_from :: "lsn \<Rightarrow> commit list \<Rightarrow> bool" where
  "history_from l0 [] \<longleftrightarrow> True"
| "history_from l0 ((t, l, ws) # hs) \<longleftrightarrow> l0 \<le> l \<and> l < l + 1 \<and> history_from (l + 1) hs"

context versioned_store
begin

lemma history:
  assumes "settled l0 s" and "history_from l0 hs"
  shows "read (fold (\<lambda>(t, l, ws). commit t l ws) hs s) k n = value_at hs k n (read s k n)"
  using assms
proof (induction hs arbitrary: s l0)
  case (Cons h hs)
  obtain t l ws where h: "h = (t, l, ws)"
    by (cases h)
  then have "settled l s" "settled (l + 1) (commit t l ws s)"
    using Cons.prems settled_mono commit_settled by auto
  then show ?case
    using Cons.IH [of "l + 1" "commit t l ws s"] Cons.prems(2) commit_read [of l s] by (simp add: h)
qed simp

end

lemma settled_before_mono: "settled_before l m \<Longrightarrow> l \<le> l' \<Longrightarrow> settled_before l' m"
  unfolding settled_before_def by fastforce

interpretation versioned: versioned_store read_at "\<lambda>t l ws m. commit_heads t l (put_all t ws m)" settled_before
  by unfold_locales (simp_all add: commit_read_at commit_settled settled_before_mono)

end
