(* ===== verification/MemoryBTree.thy ===== *)
theory MemoryBTree
  imports TableTypes
begin

text \<open>
  The in-memory B-tree table (\<open>src/src/table/btree/memory.rs\<close>): an ordered map of version chains, a
  writer that collects changes and flushes them uncommitted, cursors, and the same table used as a
  secondary index. The size the compiler gives to a version chain is a parameter of the size
  estimates, which no result but the memory counter depends on.
\<close>

section \<open>The table\<close>

record memory_btree =
  mb_id :: u64
  mb_name :: string
  mb_data :: versioned
  mb_memory_usage :: nat
  mb_memory_budget :: nat

definition btree_with_budget :: "u64 \<Rightarrow> string \<Rightarrow> nat \<Rightarrow> memory_btree" where
  "btree_with_budget i n b =
     \<lparr>mb_id = i, mb_name = n, mb_data = [], mb_memory_usage = 0, mb_memory_budget = b\<rparr>"

definition btree_new :: "u64 \<Rightarrow> string \<Rightarrow> memory_btree" where
  "btree_new i n = btree_with_budget i n (64 * 1024 * 1024)"

text \<open>The counter saturates at both ends.\<close>

definition add_usage :: "int \<Rightarrow> nat \<Rightarrow> nat" where
  "add_usage delta n = (if delta < 0 then n - nat (- delta) else min (2 ^ 64 - 1) (n + nat delta))"

definition update_memory_usage :: "int \<Rightarrow> memory_btree \<Rightarrow> memory_btree" where
  "update_memory_usage delta b = b\<lparr>mb_memory_usage := add_usage delta (mb_memory_usage b)\<rparr>"

text \<open>A \<open>Vec\<close> takes 24 bytes, an optional box 8, a version chain \<open>sz\<close>.\<close>

fun chain_size :: "nat \<Rightarrow> version_chain \<Rightarrow> nat" where
  "chain_size sz (VersionChain v t cl p) =
     value_len v + sz + 8 + (case p of None \<Rightarrow> 0 | Some c \<Rightarrow> chain_size sz c)"

definition estimate_entry_size :: "nat \<Rightarrow> bytes \<Rightarrow> version_chain \<Rightarrow> nat" where
  "estimate_entry_size sz k c = length k + 24 + chain_size sz c"

definition btree_vacuum :: "lsn \<Rightarrow> memory_btree \<Rightarrow> nat \<times> memory_btree" where
  "btree_vacuum l b = (let (m, n) = vacuum_all l (mb_data b) in (n, b\<lparr>mb_data := m\<rparr>))"

definition btree_get :: "memory_btree \<Rightarrow> bytes \<Rightarrow> lsn \<Rightarrow> bytes option" where
  "btree_get b k l =
     (case bt_get (mb_data b) k of None \<Rightarrow> None | Some c \<Rightarrow> find_visible_inline (at_lsn l) c)"

definition btree_get_stream :: "memory_btree \<Rightarrow> bytes \<Rightarrow> lsn \<Rightarrow> slice_stream option" where
  "btree_get_stream b k l = map_option slice_stream_new (btree_get b k l)"

definition btree_approximate_len :: "memory_btree \<Rightarrow> nat" where
  "btree_approximate_len b = length (mb_data b)"

section \<open>Writers\<close>

record btree_writer =
  bw_tx_id :: txn_id
  bw_snapshot_lsn :: lsn
  bw_pending :: "(bytes \<times> bytes option) list"

definition btree_writer_new :: "txn_id \<Rightarrow> lsn \<Rightarrow> btree_writer" where
  "btree_writer_new t l = \<lparr>bw_tx_id = t, bw_snapshot_lsn = l, bw_pending = []\<rparr>"

definition btree_put :: "bytes \<Rightarrow> bytes \<Rightarrow> btree_writer \<Rightarrow> nat \<times> btree_writer" where
  "btree_put k v w = (length k + length v + 16, w\<lparr>bw_pending := bw_pending w @ [(k, Some v)]\<rparr>)"

definition btree_put_stream ::
    "nat \<Rightarrow> (nat \<Rightarrow> 's \<Rightarrow> (table_error + bytes) \<times> 's) \<Rightarrow> bytes \<Rightarrow> 's \<Rightarrow> btree_writer \<Rightarrow>
     ((table_error + nat) \<times> btree_writer) option" where
  "btree_put_stream fuel rd k st w =
     (case drain_stream fuel rd [] st of
        None \<Rightarrow> None
      | Some (Inl e, st) \<Rightarrow> Some (Inl e, w)
      | Some (Inr d, st) \<Rightarrow> (let (n, w) = btree_put k d w in Some (Inr n, w)))"

definition btree_delete :: "memory_btree \<Rightarrow> bytes \<Rightarrow> btree_writer \<Rightarrow> bool \<times> btree_writer" where
  "btree_delete b k w =
     (if bt_get (mb_data b) k \<noteq> None
      then (True, w\<lparr>bw_pending := bw_pending w @ [(k, None)]\<rparr>)
      else (False, w))"

text \<open>The key of a bound, whether or not it is included.\<close>

fun bound_key :: "'a bound \<Rightarrow> 'a option" where
  "bound_key (Included k) = Some k"
| "bound_key (Excluded k) = Some k"
| "bound_key Unbounded = None"

text \<open>The keys \<open>range_delete\<close> deletes; \<open>BTreeMap::range\<close> panics when the start lies behind the end.\<close>

definition keys_to_delete :: "memory_btree \<Rightarrow> scan_bounds \<Rightarrow> table_error + bytes list" where
  "keys_to_delete b bounds =
     (let ks = map fst (mb_data b) in
      case bounds of
        Scan_All \<Rightarrow> Inr ks
      | Scan_Prefix p \<Rightarrow> Inr (takeWhile (starts_with p) (filter (\<lambda>k. p \<le> k) ks))
      | Scan_Range start stop \<Rightarrow>
          (case (bound_key start, bound_key stop) of
             (Some s, Some e) \<Rightarrow> if e < s then Inl TablePanic else Inr (filter (\<lambda>k. s \<le> k \<and> k \<le> e) ks)
           | (Some s, None) \<Rightarrow> Inr (filter (\<lambda>k. s \<le> k) ks)
           | (None, Some e) \<Rightarrow> Inr (filter (\<lambda>k. k \<le> e) ks)
           | (None, None) \<Rightarrow> Inr ks))"

definition btree_range_delete :: "memory_btree \<Rightarrow> scan_bounds \<Rightarrow> btree_writer \<Rightarrow> table_error + nat \<times> btree_writer" where
  "btree_range_delete b bounds w =
     rbind (keys_to_delete b bounds) (\<lambda>ks.
     Inr (length ks, w\<lparr>bw_pending := bw_pending w @ map (\<lambda>k. (k, None)) ks\<rparr>))"

definition btree_batch_get :: "memory_btree \<Rightarrow> bytes list \<Rightarrow> btree_writer \<Rightarrow> bytes option list" where
  "btree_batch_get b ks w = map (\<lambda>k. btree_get b k (bw_snapshot_lsn w)) ks"

definition btree_apply_mutation ::
    "memory_btree \<Rightarrow> batch_report \<times> btree_writer \<Rightarrow> mutation \<Rightarrow> table_error + batch_report \<times> btree_writer" where
  "btree_apply_mutation b = (\<lambda>(r, w) mut.
     case mut of
       Put k v \<Rightarrow>
         Inr (r\<lparr>br_applied := br_applied r + 1, br_bytes_written := br_bytes_written r + length k + length v\<rparr>,
              snd (btree_put k v w))
     | Delete k \<Rightarrow>
         (let (found, w) = btree_delete b k w in
          Inr (r\<lparr>br_deleted := br_deleted r + (if found then 1 else 0), br_applied := br_applied r + 1\<rparr>, w))
     | RangeDelete bounds \<Rightarrow>
         rbind (btree_range_delete b bounds w) (\<lambda>(n, w).
         Inr (r\<lparr>br_deleted := br_deleted r + n, br_applied := br_applied r + 1\<rparr>, w))
     | Merge k v \<Rightarrow> Inr (r, w))"

definition btree_apply_batch ::
    "memory_btree \<Rightarrow> mutation list \<Rightarrow> btree_writer \<Rightarrow> table_error + batch_report \<times> btree_writer" where
  "btree_apply_batch b muts w =
     fold_result (btree_apply_mutation b) muts (batch_report_default\<lparr>br_attempted := length muts\<rparr>, w)"

text \<open>One pending change on the table; the memory counter follows the size of the entry.\<close>

definition entry_size :: "nat \<Rightarrow> bytes \<Rightarrow> version_chain option \<Rightarrow> int" where
  "entry_size sz k c = (case c of None \<Rightarrow> 0 | Some c \<Rightarrow> int (estimate_entry_size sz k c))"

definition btree_flush_change ::
    "nat \<Rightarrow> txn_id \<Rightarrow> bytes \<times> bytes option \<Rightarrow> memory_btree \<Rightarrow> memory_btree" where
  "btree_flush_change sz t = (\<lambda>(k, change) b.
     case change of
       Some v \<Rightarrow>
         let m = push_version k v t (mb_data b) in
         update_memory_usage (entry_size sz k (bt_get m k) - entry_size sz k (bt_get (mb_data b) k)) (b\<lparr>mb_data := m\<rparr>)
     | None \<Rightarrow>
         (case bt_get (mb_data b) k of
            None \<Rightarrow> b
          | Some c \<Rightarrow>
              update_memory_usage (- int (estimate_entry_size sz k c)) (b\<lparr>mb_data := bt_remove k (mb_data b)\<rparr>)))"

definition btree_flush :: "nat \<Rightarrow> btree_writer \<Rightarrow> memory_btree \<Rightarrow> btree_writer \<times> memory_btree" where
  "btree_flush sz w b = (w\<lparr>bw_pending := []\<rparr>, fold (btree_flush_change sz (bw_tx_id w)) (bw_pending w) b)"

definition btree_commit_versions :: "btree_writer \<Rightarrow> lsn \<Rightarrow> memory_btree \<Rightarrow> memory_btree" where
  "btree_commit_versions w l b = b\<lparr>mb_data := commit_heads (bw_tx_id w) l (mb_data b)\<rparr>"

section \<open>Cursors\<close>

record btree_cursor =
  bc_snapshot_lsn :: lsn
  bc_bounds :: scan_bounds
  bc_key :: "bytes option"
  bc_value :: "bytes option"
  bc_exhausted :: bool

definition is_in_bounds :: "scan_bounds \<Rightarrow> bytes \<Rightarrow> bool" where
  "is_in_bounds bounds k =
     (case bounds of
        Scan_All \<Rightarrow> True
      | Scan_Prefix p \<Rightarrow> starts_with p k
      | Scan_Range start stop \<Rightarrow>
          (case start of Included s \<Rightarrow> s \<le> k | Excluded s \<Rightarrow> s < k | Unbounded \<Rightarrow> True) \<and>
          (case stop of Included e \<Rightarrow> k \<le> e | Excluded e \<Rightarrow> k < e | Unbounded \<Rightarrow> True))"

definition cursor_exhaust :: "btree_cursor \<Rightarrow> btree_cursor" where
  "cursor_exhaust c = c\<lparr>bc_exhausted := True, bc_key := None, bc_value := None\<rparr>"

definition cursor_found :: "bytes \<Rightarrow> bytes \<Rightarrow> btree_cursor \<Rightarrow> btree_cursor" where
  "cursor_found k v c = c\<lparr>bc_key := Some k, bc_value := Some v, bc_exhausted := False\<rparr>"

text \<open>
  The loops of the cursor over the entries in its way: \<open>cursor_stop\<close> ends at the first key out of
  bounds, \<open>cursor_skip\<close> passes over it.
\<close>

fun cursor_stop :: "versioned \<Rightarrow> btree_cursor \<Rightarrow> btree_cursor" where
  "cursor_stop [] c = cursor_exhaust c"
| "cursor_stop ((k, ch) # es) c =
     (if \<not> is_in_bounds (bc_bounds c) k then cursor_exhaust c
      else case find_visible_inline (at_lsn (bc_snapshot_lsn c)) ch of
        Some v \<Rightarrow> cursor_found k v c
      | None \<Rightarrow> cursor_stop es c)"

fun cursor_skip :: "versioned \<Rightarrow> btree_cursor \<Rightarrow> btree_cursor" where
  "cursor_skip [] c = cursor_exhaust c"
| "cursor_skip ((k, ch) # es) c =
     (if \<not> is_in_bounds (bc_bounds c) k then cursor_skip es c
      else case find_visible_inline (at_lsn (bc_snapshot_lsn c)) ch of
        Some v \<Rightarrow> cursor_found k v c
      | None \<Rightarrow> cursor_skip es c)"

definition cursor_first :: "memory_btree \<Rightarrow> btree_cursor \<Rightarrow> btree_cursor" where
  "cursor_first b c =
     (let start_key = (case bc_bounds c of
            Scan_All \<Rightarrow> None
          | Scan_Prefix p \<Rightarrow> Some p
          | Scan_Range start stop \<Rightarrow> bound_key start) in
      cursor_stop (case start_key of None \<Rightarrow> mb_data b | Some s \<Rightarrow> bt_range (\<lambda>k. s \<le> k) (mb_data b)) c)"

text \<open>The end \<open>last\<close> computes for a prefix: its last byte plus one, or a zero byte behind 255.\<close>

definition prefix_end :: "bytes \<Rightarrow> bytes" where
  "prefix_end p = (if p = [] then [] else if last p < 255 then butlast p @ [last p + 1] else p @ [0])"

definition cursor_last :: "memory_btree \<Rightarrow> btree_cursor \<Rightarrow> btree_cursor" where
  "cursor_last b c =
     (let end_key = (case bc_bounds c of
            Scan_All \<Rightarrow> None
          | Scan_Prefix p \<Rightarrow> Some (prefix_end p)
          | Scan_Range start stop \<Rightarrow> bound_key stop) in
      cursor_skip (rev (case end_key of None \<Rightarrow> mb_data b | Some e \<Rightarrow> bt_range (\<lambda>k. k < e) (mb_data b))) c)"

definition cursor_new :: "memory_btree \<Rightarrow> scan_bounds \<Rightarrow> lsn \<Rightarrow> btree_cursor" where
  "cursor_new b bounds l =
     cursor_first b \<lparr>bc_snapshot_lsn = l, bc_bounds = bounds, bc_key = None, bc_value = None, bc_exhausted = False\<rparr>"

definition cursor_valid :: "btree_cursor \<Rightarrow> bool" where
  "cursor_valid c \<longleftrightarrow> \<not> bc_exhausted c \<and> bc_key c \<noteq> None"

definition cursor_next :: "memory_btree \<Rightarrow> btree_cursor \<Rightarrow> btree_cursor" where
  "cursor_next b c =
     (if bc_exhausted c then c
      else case bc_key c of
        None \<Rightarrow> c\<lparr>bc_exhausted := True\<rparr>
      | Some k \<Rightarrow> cursor_stop (drop 1 (bt_range (\<lambda>j. k \<le> j) (mb_data b))) c)"

definition cursor_prev :: "memory_btree \<Rightarrow> btree_cursor \<Rightarrow> btree_cursor" where
  "cursor_prev b c =
     (if bc_exhausted c then c
      else case bc_key c of
        None \<Rightarrow> c\<lparr>bc_exhausted := True\<rparr>
      | Some k \<Rightarrow> cursor_stop (rev (bt_range (\<lambda>j. j < k) (mb_data b))) c)"

definition cursor_seek :: "memory_btree \<Rightarrow> bytes \<Rightarrow> btree_cursor \<Rightarrow> btree_cursor" where
  "cursor_seek b k c = cursor_stop (bt_range (\<lambda>j. k \<le> j) (mb_data b)) c"

definition cursor_seek_for_prev :: "memory_btree \<Rightarrow> bytes \<Rightarrow> btree_cursor \<Rightarrow> btree_cursor" where
  "cursor_seek_for_prev b k c = cursor_skip (rev (bt_range (\<lambda>j. j \<le> k) (mb_data b))) c"

section \<open>The table as an index\<close>

definition insert_entry :: "nat \<Rightarrow> bytes \<Rightarrow> bytes \<Rightarrow> txn_id \<Rightarrow> lsn \<Rightarrow> memory_btree \<Rightarrow> memory_btree" where
  "insert_entry sz index_key primary_key t l b =
     (let old = bt_get (mb_data b) index_key;
          c = chain_commit l (case old of Some c \<Rightarrow> prepend primary_key t c | None \<Rightarrow> chain_new primary_key t) in
      update_memory_usage (int (estimate_entry_size sz index_key c) - entry_size sz index_key old)
        (b\<lparr>mb_data := bt_insert index_key c (mb_data b)\<rparr>))"

definition delete_entry :: "nat \<Rightarrow> bytes \<Rightarrow> bytes \<Rightarrow> memory_btree \<Rightarrow> memory_btree" where
  "delete_entry sz index_key primary_key b =
     (case bt_get (mb_data b) index_key of
        None \<Rightarrow> b
      | Some c \<Rightarrow>
          if find_visible_inline (at_lsn (- 1)) c = Some primary_key
          then update_memory_usage (- int (estimate_entry_size sz index_key c))
                 (b\<lparr>mb_data := bt_remove index_key (mb_data b)\<rparr>)
          else b)"

definition index_scan :: "memory_btree \<Rightarrow> scan_bounds \<Rightarrow> btree_cursor" where
  "index_scan b bounds = cursor_new b bounds (- 1)"

section \<open>Transactions on the table\<close>

text \<open>A transaction that puts, flushes and commits.\<close>

definition btree_txn :: "nat \<Rightarrow> txn_id \<Rightarrow> lsn \<Rightarrow> (bytes \<times> bytes) list \<Rightarrow> memory_btree \<Rightarrow> memory_btree" where
  "btree_txn sz t l ws b =
     (let w = fold (\<lambda>(k, v) w. snd (btree_put k v w)) ws (btree_writer_new t l);
          (w, b) = btree_flush sz w b in
      btree_commit_versions w l b)"

lemma pending_puts:
  "bw_pending (fold (\<lambda>(k, v) w. snd (btree_put k v w)) ws w) = bw_pending w @ map (\<lambda>(k, v). (k, Some v)) ws"
  "bw_tx_id (fold (\<lambda>(k, v) w. snd (btree_put k v w)) ws w) = bw_tx_id w"
  by (induction ws arbitrary: w) (auto simp: btree_put_def)

lemma update_memory_usage_data [simp]: "mb_data (update_memory_usage d b) = mb_data b"
  by (simp add: update_memory_usage_def)

lemma flush_puts: "mb_data (fold (btree_flush_change sz t) (map (\<lambda>(k, v). (k, Some v)) ws) b) = put_all t ws (mb_data b)"
  by (induction ws arbitrary: b) (auto simp: btree_flush_change_def put_all_def Let_def)

lemma btree_txn_data: "mb_data (btree_txn sz t l ws b) = commit_heads t l (put_all t ws (mb_data b))"
  by (simp add: btree_txn_def btree_flush_def btree_commit_versions_def pending_puts btree_writer_new_def flush_puts Let_def)

lemma btree_get_eq: "btree_get b k l = read_at (mb_data b) k l"
  by (simp add: btree_get_def read_at_def)

interpretation btree: versioned_store btree_get "btree_txn sz" "\<lambda>l b. settled_before l (mb_data b)" for sz
  by unfold_locales
    (simp_all add: btree_get_eq btree_txn_data commit_read_at commit_settled settled_before_mono split: option.split)

lemma btree_new_settled: "settled_before l (mb_data (btree_new i n))"
  by (simp add: settled_before_def btree_new_def btree_with_budget_def)

section \<open>Scanning\<close>

definition visible_entries :: "lsn \<Rightarrow> versioned \<Rightarrow> (bytes \<times> bytes) list" where
  "visible_entries l es =
     concat (map (\<lambda>(k, ch). case find_visible_inline (at_lsn l) ch of Some v \<Rightarrow> [(k, v)] | None \<Rightarrow> []) es)"

text \<open>What a cursor gives when it is moved forward until it is no longer valid.\<close>

fun cursor_items :: "nat \<Rightarrow> memory_btree \<Rightarrow> btree_cursor \<Rightarrow> (bytes \<times> bytes) list" where
  "cursor_items 0 b c = []"
| "cursor_items (Suc n) b c =
     (if cursor_valid c then (the (bc_key c), the (bc_value c)) # cursor_items n b (cursor_next b c) else [])"

lemma cursor_stop_cong:
  "bc_bounds c = bc_bounds c' \<Longrightarrow> bc_snapshot_lsn c = bc_snapshot_lsn c' \<Longrightarrow> cursor_stop es c = cursor_stop es c'"
  by (induction es) (auto simp: cursor_exhaust_def cursor_found_def split: option.split)

lemma cursor_stop_fields [simp]:
  "bc_bounds (cursor_stop es c) = bc_bounds c" "bc_snapshot_lsn (cursor_stop es c) = bc_snapshot_lsn c"
  by (induction es) (auto simp: cursor_exhaust_def cursor_found_def split: option.split)

lemma bt_range_suffix:
  assumes "bt_wf (pre @ (k, ch) # es)"
  shows "bt_range (\<lambda>j. k \<le> j) (pre @ (k, ch) # es) = (k, ch) # es"
proof -
  have s: "sorted_wrt (<) (map fst (pre @ (k, ch) # es))"
    using assms by (simp add: bt_wf_def)
  then have "\<forall>x\<in>set pre. \<not> k \<le> fst x" "\<forall>x\<in>set es. k \<le> fst x"
    by (auto simp: sorted_wrt_append)
  then have "filter (\<lambda>(a, b). k \<le> a) pre = []" "filter (\<lambda>(a, b). k \<le> a) es = es"
    by (auto simp: filter_empty_conv filter_id_conv)
  then show ?thesis
    by (simp add: bt_range_def)
qed

definition interval :: "scan_bounds \<Rightarrow> versioned \<Rightarrow> bool" where
  "interval bounds es \<longleftrightarrow> sorted_wrt (\<lambda>(j, _) (k, _). is_in_bounds bounds k \<longrightarrow> is_in_bounds bounds j) es"

lemma cursor_items_stop:
  assumes "mb_data b = pre @ es" and "bt_wf (mb_data b)" and "interval (bc_bounds c) es" and "length es < n"
  shows "cursor_items n b (cursor_stop es c) =
    visible_entries (bc_snapshot_lsn c) (filter (\<lambda>(k, _). is_in_bounds (bc_bounds c) k) es)"
  using assms
proof (induction es arbitrary: pre c n)
  case Nil
  then show ?case
    by (cases n) (simp_all add: cursor_exhaust_def cursor_valid_def visible_entries_def)
next
  case (Cons e es)
  obtain k ch where e: "e = (k, ch)"
    by fastforce
  obtain m where n: "n = Suc m"
    using Cons.prems(4) by (cases n) auto
  have iv: "interval (bc_bounds c) es"
    using Cons.prems(3) by (simp add: interval_def)
  have IH: "cursor_items m' b (cursor_stop es c') =
      visible_entries (bc_snapshot_lsn c) (filter (\<lambda>(k, _). is_in_bounds (bc_bounds c) k) es)"
    if "length es < m'" "bc_bounds c' = bc_bounds c" "bc_snapshot_lsn c' = bc_snapshot_lsn c" for m' c'
    using Cons.IH [of "pre @ [e]" c' m'] Cons.prems(1,2) iv that by simp
  show ?case
  proof (cases "is_in_bounds (bc_bounds c) k")
    case False
    then have "filter (\<lambda>(k, _). is_in_bounds (bc_bounds c) k) (e # es) = []"
      using Cons.prems(3) by (auto simp: interval_def e filter_empty_conv)
    then show ?thesis
      using False by (simp add: e n cursor_exhaust_def cursor_valid_def visible_entries_def)
  next
    case True
    show ?thesis
    proof (cases "find_visible_inline (at_lsn (bc_snapshot_lsn c)) ch")
      case None
      then show ?thesis
        using True IH [of n c] Cons.prems(4) by (simp add: e visible_entries_def)
    next
      case (Some v)
      have "drop 1 (bt_range (\<lambda>j. k \<le> j) (mb_data b)) = es"
        using bt_range_suffix [of pre k ch es] Cons.prems(1,2) by (simp add: e)
      then have "cursor_next b (cursor_found k v c) = cursor_stop es (cursor_found k v c)"
        by (simp add: cursor_next_def cursor_found_def)
      then show ?thesis
        using True Some IH [of m "cursor_found k v c"] Cons.prems(4)
        by (simp add: e n cursor_found_def cursor_valid_def visible_entries_def)
    qed
  qed
qed

text \<open>Ranges that start behind a stored key fall outside: the cursor does not get past that key.\<close>

definition bounds_ok :: "memory_btree \<Rightarrow> scan_bounds \<Rightarrow> bool" where
  "bounds_ok b bounds = (case bounds of Scan_Range (Excluded s) e \<Rightarrow> bt_get (mb_data b) s = None | _ \<Rightarrow> True)"

definition start_key :: "scan_bounds \<Rightarrow> bytes option" where
  "start_key bounds = (case bounds of Scan_All \<Rightarrow> None | Scan_Prefix p \<Rightarrow> Some p | Scan_Range s e \<Rightarrow> bound_key s)"

lemma in_bounds_start: "is_in_bounds bounds k \<Longrightarrow> start_key bounds = Some s \<Longrightarrow> s \<le> k"
  by (cases bounds) (auto simp: is_in_bounds_def start_key_def starts_with_le split: bound.splits)

lemma interval_from_start:
  assumes "bt_wf es" and "bounds_ok b bounds" and "\<forall>(k, ch)\<in>set es. bt_get (mb_data b) k = Some ch"
    and "\<forall>s. start_key bounds = Some s \<longrightarrow> (\<forall>(k, ch)\<in>set es. s \<le> k)"
  shows "interval bounds es"
proof -
  have "is_in_bounds bounds j"
    if "j < k" and k: "is_in_bounds bounds k" and j: "(j, cj) \<in> set es" for j k cj
  proof (cases bounds)
    case (Scan_Prefix p)
    then have "p \<le> j"
      using assms(4) j by (fastforce simp: start_key_def)
    then show ?thesis
      using starts_with_interval [of p j k] that Scan_Prefix by (simp add: is_in_bounds_def)
  next
    case (Scan_Range lo hi)
    have "lo = Included x \<or> lo = Excluded x \<Longrightarrow> x \<le> j" for x
      using assms(4) j Scan_Range by (fastforce simp: start_key_def)
    moreover have "lo = Excluded j \<Longrightarrow> False"
      using assms(2,3) j Scan_Range by (fastforce simp: bounds_ok_def)
    ultimately show ?thesis
      using k \<open>j < k\<close> Scan_Range by (cases lo; cases hi) (auto simp: is_in_bounds_def le_less)
  qed (simp add: is_in_bounds_def)
  moreover have "sorted_wrt (\<lambda>(j, _) (k, _). j < k) es"
    using assms(1) by (simp add: bt_wf_def sorted_wrt_map case_prod_unfold)
  ultimately show ?thesis
    unfolding interval_def by (elim sorted_wrt_mono_rel [rotated]) auto
qed

lemma bt_range_from:
  assumes "bt_wf m"
  shows "\<exists>pre. m = pre @ bt_range (\<lambda>k. s \<le> k) m \<and> (\<forall>(k, ch)\<in>set pre. k < s)"
  using assms
proof (induction m)
  case (Cons e m)
  obtain k ch where e: "e = (k, ch)"
    by fastforce
  show ?case
  proof (cases "s \<le> k")
    case True
    then have "\<forall>x\<in>set m. s \<le> fst x"
      using Cons.prems e by auto
    then have "bt_range (\<lambda>k. s \<le> k) (e # m) = e # m"
      using True by (auto simp: e bt_range_def filter_id_conv)
    then show ?thesis
      by (intro exI [of _ "[]"]) simp
  next
    case False
    obtain pre where "m = pre @ bt_range (\<lambda>k. s \<le> k) m" "\<forall>(k, ch)\<in>set pre. k < s"
      using Cons e by auto
    moreover have "bt_range (\<lambda>k. s \<le> k) (e # m) = bt_range (\<lambda>k. s \<le> k) m"
      using False by (simp add: e bt_range_def)
    ultimately show ?thesis
      using False e by (intro exI [of _ "e # pre"]) auto
  qed
qed (simp add: bt_range_def)

lemma cursor_first_entries:
  assumes "bt_wf (mb_data b)"
  obtains pre es where "mb_data b = pre @ es" and "cursor_first b c = cursor_stop es c"
    and "\<forall>s. start_key (bc_bounds c) = Some s \<longrightarrow> (\<forall>(k, ch)\<in>set es. s \<le> k)"
    and "\<forall>(k, ch)\<in>set pre. \<not> is_in_bounds (bc_bounds c) k"
proof (cases "start_key (bc_bounds c)")
  case None
  then have "cursor_first b c = cursor_stop (mb_data b) c"
    by (auto simp: cursor_first_def start_key_def split: scan_bounds.splits)
  then show ?thesis
    using that [of "[]" "mb_data b"] None by simp
next
  case (Some s)
  obtain pre where pre: "mb_data b = pre @ bt_range (\<lambda>k. s \<le> k) (mb_data b)" "\<forall>(k, ch)\<in>set pre. k < s"
    using bt_range_from [OF assms] by blast
  have "cursor_first b c = cursor_stop (bt_range (\<lambda>k. s \<le> k) (mb_data b)) c"
    using Some by (auto simp: cursor_first_def start_key_def split: scan_bounds.splits)
  moreover have "\<forall>(k, ch)\<in>set pre. \<not> is_in_bounds (bc_bounds c) k"
    using pre(2) in_bounds_start [OF _ Some] by fastforce
  moreover have "\<forall>(k, ch)\<in>set (bt_range (\<lambda>k. s \<le> k) (mb_data b)). s \<le> k"
    by (auto simp: bt_range_def)
  ultimately show ?thesis
    using Some by (intro that [OF pre(1)]) simp_all
qed

text \<open>Every operation keeps the keys in order.\<close>

lemma vacuum_all_keys [simp]: "map fst (fst (vacuum_all l m)) = map fst m"
  by (induction l m rule: vacuum_all.induct) (auto split: prod.split)

lemma btree_vacuum_data: "mb_data (snd (btree_vacuum l b)) = fst (vacuum_all l (mb_data b))"
  by (simp add: btree_vacuum_def case_prod_unfold Let_def)

lemma push_version_wf: "bt_wf m \<Longrightarrow> bt_wf (push_version k v t m)"
  by (simp add: push_version_def)

lemma flush_change_wf: "bt_wf (mb_data b) \<Longrightarrow> bt_wf (mb_data (btree_flush_change sz t ch b))"
  by (auto simp: btree_flush_change_def push_version_wf Let_def split: prod.split option.split)

lemma btree_wf_ops:
  assumes "bt_wf (mb_data b)"
  shows "bt_wf (mb_data (snd (btree_flush sz w b)))" "bt_wf (mb_data (btree_commit_versions w l b))"
    "bt_wf (mb_data (snd (btree_vacuum l b)))" "bt_wf (mb_data (insert_entry sz k p t l b))"
    "bt_wf (mb_data (delete_entry sz k p b))"
proof -
  have "bt_wf (mb_data (fold (btree_flush_change sz t) chs b))" for t chs
    using assms by (induction chs arbitrary: b) (simp_all add: flush_change_wf)
  then show "bt_wf (mb_data (snd (btree_flush sz w b)))"
    by (simp add: btree_flush_def)
  show "bt_wf (mb_data (btree_commit_versions w l b))"
    using assms by (simp add: btree_commit_versions_def)
  show "bt_wf (mb_data (snd (btree_vacuum l b)))"
    using assms by (simp add: btree_vacuum_data bt_wf_def)
  show "bt_wf (mb_data (insert_entry sz k p t l b))" "bt_wf (mb_data (delete_entry sz k p b))"
    using assms by (simp_all add: insert_entry_def delete_entry_def Let_def split: option.split)
qed

text \<open>Vacuuming a table hides nothing from readers at or above the watermark.\<close>

lemma vacuum_all_get: "bt_get (fst (vacuum_all l m)) k = map_option (\<lambda>c. fst (vacuum l c)) (bt_get m k)"
  by (induction l m rule: vacuum_all.induct) (auto split: prod.split)

lemma at_lsn_consistent: "consistent (at_lsn n) vs"
  by (simp add: consistent_def at_lsn_def snapshot_new_def snapshot_wf_def)

lemma btree_vacuum_reads:
  assumes "\<And>c. bt_get (mb_data b) k = Some c \<Longrightarrow> chain_ordered (versions c)" and "l \<le> n"
  shows "btree_get (snd (btree_vacuum l b)) k n = btree_get b k n"
proof (cases "bt_get (mb_data b) k")
  case (Some c)
  obtain c' r fr where v: "vacuum l c = (c', r, fr)"
    by (cases "vacuum l c")
  have "find (sees (at_lsn n)) (collected l (versions c)) = find (sees (at_lsn n)) (versions c)"
    using obsolete_seen [OF at_lsn_consistent, of l n] assms(2)
    by (intro find_collected) (auto simp: at_lsn_def snapshot_new_def)
  then have "find_visible_inline (at_lsn n) c' = find_visible_inline (at_lsn n) c"
    using vacuum_versions(1) [OF assms(1) [OF Some] v] by (simp add: find_visible_inline_def find_visible_versions)
  then show ?thesis
    using Some v by (simp add: btree_get_def btree_vacuum_data vacuum_all_get)
qed (simp add: btree_get_def btree_vacuum_data vacuum_all_get)

text \<open>A range delete takes the keys at the ends of the range with it, also when they are excluded.\<close>

lemma range_delete_excluded:
  assumes "bt_get (mb_data b) s \<noteq> None" and "s \<le> e"
  shows "\<exists>ks. keys_to_delete b (Scan_Range (Excluded s) (Excluded e)) = Inr ks \<and> s \<in> set ks"
  using assms by (auto simp: keys_to_delete_def bt_get_None_iff [of "mb_data b"] image_iff Let_def)

text \<open>Positioning a cursor at the last key of a range misses the end of the range.\<close>

lemma cursor_skip_key: "bc_key (cursor_skip es c) = Some k \<Longrightarrow> k \<in> fst ` set es"
  by (induction es) (auto simp: cursor_exhaust_def cursor_found_def split: if_splits option.splits)

lemma last_misses_end:
  assumes "bc_bounds c = Scan_Range lo (Included e)"
  shows "bc_key (cursor_last b c) \<noteq> Some e"
  using cursor_skip_key [of "rev (bt_range (\<lambda>k. k < e) (mb_data b))" c e] assms
  by (auto simp: cursor_last_def bt_range_def)

section \<open>Properties\<close>

text \<open>
  C11. The table is a multi-version map. After any sequence of transactions that put, flush and commit
  with rising log sequence numbers, a read at any log sequence number returns what the latest
  transaction committed up to there put last, and nothing for a key no such transaction put.
\<close>

theorem btree_history:
  assumes "history_from 0 hs"
  shows "btree_get (fold (\<lambda>(t, l, ws). btree_txn sz t l ws) hs (btree_new i nm)) k n = value_at hs k n None"
proof -
  have "btree_get (btree_new i nm) k n = None"
    by (simp add: btree_get_def btree_new_def btree_with_budget_def)
  then show ?thesis
    using btree.history [OF btree_new_settled assms, of sz i nm k n] by simp
qed

theorem btree_history_witness:
  "btree_get (fold (\<lambda>(t, l, ws). btree_txn 80 t l ws)
      [(1, 10, [([1], [5]), ([2], [6])]), (2, 20, [([1], [7]), ([1], [8])])] (btree_new 0 [])) [1] 15 = Some [5]"
  using btree_history [of "[(1, 10, [([1], [5]), ([2], [6])]), (2, 20, [([1], [7]), ([1], [8])])]" 80 0 "[]" "[1]" 15]
  by simp

text \<open>
  C12. A scan is exact: moving a new cursor forward to its end gives the visible entries within its
  bounds, in the order of their keys and each once, for every kind of bounds except a range that
  excludes a stored key as its start.
\<close>

theorem btree_scan_exact:
  assumes "bt_wf (mb_data b)" and "bounds_ok b bounds" and "length (mb_data b) < n"
  shows "cursor_items n b (cursor_new b bounds l) =
    visible_entries l (filter (\<lambda>(k, _). is_in_bounds bounds k) (mb_data b))"
proof -
  let ?c = "\<lparr>bc_snapshot_lsn = l, bc_bounds = bounds, bc_key = None, bc_value = None, bc_exhausted = False\<rparr>"
  obtain pre es where es: "mb_data b = pre @ es" "cursor_first b ?c = cursor_stop es ?c"
    "\<forall>s. start_key bounds = Some s \<longrightarrow> (\<forall>(k, ch)\<in>set es. s \<le> k)" "\<forall>(k, ch)\<in>set pre. \<not> is_in_bounds bounds k"
    using cursor_first_entries [OF assms(1), of ?c] by auto
  have wf: "bt_wf es"
    using assms(1) es(1) by (simp add: bt_wf_def sorted_wrt_append)
  have "\<forall>(k, ch)\<in>set es. bt_get (mb_data b) k = Some ch"
    using bt_get_Some_iff [OF assms(1)] es(1) by auto
  then have "interval bounds es"
    using interval_from_start [OF wf assms(2)] es(3) by blast
  then have "cursor_items n b (cursor_stop es ?c) = visible_entries l (filter (\<lambda>(k, _). is_in_bounds bounds k) es)"
    using cursor_items_stop [OF es(1) assms(1), of ?c n] assms(3) es(1) by simp
  moreover have "filter (\<lambda>(k, _). is_in_bounds bounds k) pre = []"
    using es(4) by (auto simp: filter_empty_conv)
  ultimately show ?thesis
    using es(1,2) by (simp add: cursor_new_def)
qed

definition sample_btree :: memory_btree where
  "sample_btree = btree_txn 80 1 10 [([1], [5]), ([1, 2], [6]), ([2], [7]), ([3], [8])] (btree_new 0 [])"

lemma sample_btree_ok:
  "bt_wf (mb_data sample_btree)" "map fst (mb_data sample_btree) = [[1], [1, 2], [2], [3]]"
  by (simp_all add: sample_btree_def btree_txn_data put_all_def push_version_def commit_heads_def btree_new_def
      btree_with_budget_def)

theorem btree_scan_exact_witness:
  "cursor_items 5 sample_btree (cursor_new sample_btree (Scan_Prefix [1]) 10) = [([1], [5]), ([1, 2], [6])]"
proof -
  have "length (mb_data sample_btree) < 5"
    using arg_cong [OF sample_btree_ok(2), of length] by simp
  then have "cursor_items 5 sample_btree (cursor_new sample_btree (Scan_Prefix [1]) 10) =
      visible_entries 10 (filter (\<lambda>(k, _). is_in_bounds (Scan_Prefix [1]) k) (mb_data sample_btree))"
    using btree_scan_exact [OF sample_btree_ok(1), of "Scan_Prefix [1]" 5 10] by (simp add: bounds_ok_def)
  also have "\<dots> = [([1], [5]), ([1, 2], [6])]"
    by (simp add: sample_btree_def btree_txn_data put_all_def push_version_def commit_heads_def btree_new_def
      btree_with_budget_def visible_entries_def is_in_bounds_def starts_with_def find_visible_inline_def chain_new_def bt_map_def)
  finally show ?thesis .
qed

text \<open>
  A range that excludes its start finds nothing when the start is a stored key: the cursor begins
  at that key, finds it out of bounds and stops, whatever keys follow.
\<close>

lemma excluded_start_scan_empty:
  assumes "bt_wf (mb_data b)" and "bt_get (mb_data b) s \<noteq> None"
  shows "cursor_items n b (cursor_new b (Scan_Range (Excluded s) hi) l) = []"
proof -
  obtain ch where "(s, ch) \<in> set (mb_data b)"
    using assms(2) by (auto simp: bt_get_None_iff)
  then obtain pre es where "mb_data b = pre @ (s, ch) # es"
    by (metis split_list)
  then have "bt_range (\<lambda>k. s \<le> k) (mb_data b) = (s, ch) # es"
    using bt_range_suffix [of pre s ch es] assms(1) by simp
  then have "\<not> cursor_valid (cursor_new b (Scan_Range (Excluded s) hi) l)"
    by (simp add: cursor_new_def cursor_first_def is_in_bounds_def cursor_valid_def cursor_exhaust_def)
  then show ?thesis
    by (cases n) simp_all
qed

lemma excluded_start_scan_empty_witness:
  "cursor_items 5 sample_btree (cursor_new sample_btree (Scan_Range (Excluded [1]) Unbounded) 10) = [] \<and>
   btree_get sample_btree [2] 10 = Some [7]"
proof -
  have "bt_get (mb_data sample_btree) [1] \<noteq> None"
    using sample_btree_ok(2) by (simp add: bt_get_None_iff flip: list.set_map)
  moreover have "btree_get sample_btree [2] 10 = Some [7]"
    by (simp add: sample_btree_def btree_get_eq btree_txn_data commit_read_at settled_before_def btree_new_def btree_with_budget_def)
  ultimately show ?thesis
    using excluded_start_scan_empty [OF sample_btree_ok(1), of "[1]" 5 Unbounded 10] by simp
qed

text \<open>
  A delete is visible before it is committed and to every snapshot: flushing it takes the key
  with all its versions out of the table, so no reader at any log sequence number finds a value,
  also one the reader could see before.
\<close>

lemma btree_delete_forgets:
  assumes "bt_get (mb_data b) k \<noteq> None"
  shows "\<exists>w. btree_delete b k (btree_writer_new t l) = (True, w) \<and>
    (\<forall>n. btree_get (snd (btree_flush sz w b)) k n = None)"
  using assms by (auto simp: btree_delete_def btree_writer_new_def btree_flush_def btree_flush_change_def btree_get_def)

lemma btree_delete_forgets_witness:
  "\<exists>w. btree_delete sample_btree [1] (btree_writer_new 2 10) = (True, w) \<and>
    btree_get sample_btree [1] 10 = Some [5] \<and> btree_get (snd (btree_flush 80 w sample_btree)) [1] 10 = None"
proof -
  have "bt_get (mb_data sample_btree) [1] \<noteq> None"
    using sample_btree_ok(2) by (simp add: bt_get_None_iff flip: list.set_map)
  moreover have "btree_get sample_btree [1] 10 = Some [5]"
    by (simp add: sample_btree_def btree_get_eq btree_txn_data commit_read_at settled_before_def btree_new_def btree_with_budget_def)
  ultimately show ?thesis
    using btree_delete_forgets [of sample_btree "[1]" 2 10 80] by auto
qed

text \<open>
  C16. Putting a value from a stream over a slice ends and puts the slice: one read per 8192 bytes and
  one that finds the end are enough.
\<close>

theorem put_stream_ends:
  assumes "length d \<le> 8192 * n"
  shows "btree_put_stream (Suc n) slice_read k (slice_stream_new d) w =
    Some (Inr (length k + length d + 16), snd (btree_put k d w))"
proof -
  have "length (ss_data (slice_stream_new d)) - ss_position (slice_stream_new d) \<le> 8192 * n"
    using assms by (simp add: slice_stream_new_def)
  from drain_slice_stream [OF this, of "[]"] obtain st
    where "drain_stream (Suc n) slice_read [] (slice_stream_new d) = Some (Inr d, st)"
    by (auto simp: slice_stream_new_def)
  then show ?thesis
    by (simp add: btree_put_stream_def btree_put_def)
qed

theorem put_stream_ends_witness:
  "btree_put_stream 3 slice_read [1] (slice_stream_new (replicate 10000 7)) (btree_writer_new 1 5) =
    Some (Inr 10017, snd (btree_put [1] (replicate 10000 7) (btree_writer_new 1 5)))"
  using put_stream_ends [of "replicate 10000 7" 2 "[1]" "btree_writer_new 1 5"] by (simp add: numeral_3_eq_3)

end
