(* ===== verification/MemoryHash.thy ===== *)
theory MemoryHash
  imports MemoryBTree
begin

text \<open>
  The in-memory hash table (\<open>src/src/table/hash/memory.rs\<close>). Its hash map is kept in key order, which
  nothing it does shows. A deletion pushes an empty value, and reading an empty value finds nothing.
\<close>

section \<open>The table\<close>

record memory_hash =
  mh_id :: u64
  mh_name :: string
  mh_data :: versioned
  mh_memory_usage :: nat
  mh_memory_budget :: nat

definition hash_with_capacity_and_budget :: "u64 \<Rightarrow> string \<Rightarrow> nat \<Rightarrow> nat \<Rightarrow> memory_hash" where
  "hash_with_capacity_and_budget i n cap b =
     \<lparr>mh_id = i, mh_name = n, mh_data = [], mh_memory_usage = 0, mh_memory_budget = b\<rparr>"

definition hash_with_budget :: "u64 \<Rightarrow> string \<Rightarrow> nat \<Rightarrow> memory_hash" where
  "hash_with_budget i n b = hash_with_capacity_and_budget i n 0 b"

definition hash_new :: "u64 \<Rightarrow> string \<Rightarrow> memory_hash" where
  "hash_new i n = hash_with_budget i n (64 * 1024 * 1024)"

definition hash_update_memory_usage :: "int \<Rightarrow> memory_hash \<Rightarrow> memory_hash" where
  "hash_update_memory_usage delta h = h\<lparr>mh_memory_usage := add_usage delta (mh_memory_usage h)\<rparr>"

definition hash_get :: "memory_hash \<Rightarrow> bytes \<Rightarrow> lsn \<Rightarrow> bytes option" where
  "hash_get h k l =
     (case bt_get (mh_data h) k of
        None \<Rightarrow> None
      | Some c \<Rightarrow>
          (case find_visible_inline (at_lsn l) c of
             None \<Rightarrow> None
           | Some v \<Rightarrow> if v = [] then None else Some v))"

text \<open>Stores a chain under a key and accounts for it.\<close>

definition hash_store :: "nat \<Rightarrow> bytes \<Rightarrow> version_chain \<Rightarrow> memory_hash \<Rightarrow> memory_hash" where
  "hash_store sz k c h =
     hash_update_memory_usage (int (estimate_entry_size sz k c) - entry_size sz k (bt_get (mh_data h) k))
       (h\<lparr>mh_data := bt_insert k c (mh_data h)\<rparr>)"

definition hash_put :: "nat \<Rightarrow> bytes \<Rightarrow> bytes \<Rightarrow> txn_id \<Rightarrow> lsn \<Rightarrow> memory_hash \<Rightarrow> nat \<times> memory_hash" where
  "hash_put sz k v t l h =
     (length k + length v + 16, hash_store sz k (VersionChain (VInline v) t (Some l) (bt_get (mh_data h) k)) h)"

definition hash_commit_versions :: "txn_id \<Rightarrow> lsn \<Rightarrow> memory_hash \<Rightarrow> memory_hash" where
  "hash_commit_versions t l h = h\<lparr>mh_data := commit_heads t l (mh_data h)\<rparr>"

definition hash_delete :: "nat \<Rightarrow> bytes \<Rightarrow> memory_hash \<Rightarrow> bool \<times> memory_hash" where
  "hash_delete sz k h =
     (case bt_get (mh_data h) k of
        Some c \<Rightarrow>
          (True, hash_update_memory_usage (- int (estimate_entry_size sz k c)) (h\<lparr>mh_data := bt_remove k (mh_data h)\<rparr>))
      | None \<Rightarrow> (False, h))"

definition hash_vacuum :: "lsn \<Rightarrow> memory_hash \<Rightarrow> nat \<times> memory_hash" where
  "hash_vacuum l h = (let (m, n) = vacuum_all l (mh_data h) in (n, h\<lparr>mh_data := m\<rparr>))"

definition hash_approximate_len :: "memory_hash \<Rightarrow> nat" where
  "hash_approximate_len h = length (mh_data h)"

text \<open>Unlike \<open>get\<close>, a batch returns the empty value of a deleted key.\<close>

definition hash_batch_get :: "memory_hash \<Rightarrow> bytes list \<Rightarrow> lsn \<Rightarrow> bytes option list" where
  "hash_batch_get h ks l =
     map (\<lambda>k. case bt_get (mh_data h) k of None \<Rightarrow> None | Some c \<Rightarrow> find_visible_inline (at_lsn l) c) ks"

section \<open>Writers\<close>

record hash_writer =
  hw_tx_id :: txn_id
  hw_snapshot_lsn :: lsn
  hw_pending :: "(bytes \<times> bytes option) list"

definition hash_writer_new :: "txn_id \<Rightarrow> lsn \<Rightarrow> hash_writer" where
  "hash_writer_new t l = \<lparr>hw_tx_id = t, hw_snapshot_lsn = l, hw_pending = []\<rparr>"

definition hash_writer_put :: "bytes \<Rightarrow> bytes \<Rightarrow> hash_writer \<Rightarrow> nat \<times> hash_writer" where
  "hash_writer_put k v w = (length k + length v + 16, w\<lparr>hw_pending := hw_pending w @ [(k, Some v)]\<rparr>)"

definition hash_writer_delete :: "memory_hash \<Rightarrow> bytes \<Rightarrow> hash_writer \<Rightarrow> bool \<times> hash_writer" where
  "hash_writer_delete h k w =
     (if bt_get (mh_data h) k \<noteq> None
      then (True, w\<lparr>hw_pending := hw_pending w @ [(k, None)]\<rparr>)
      else (False, w))"

definition hash_range_delete :: "scan_bounds \<Rightarrow> hash_writer \<Rightarrow> table_error + nat" where
  "hash_range_delete bounds w = Inl OperationNotSupported"

definition hash_writer_batch_get :: "memory_hash \<Rightarrow> bytes list \<Rightarrow> hash_writer \<Rightarrow> bytes option list" where
  "hash_writer_batch_get h ks w = hash_batch_get h ks (hw_snapshot_lsn w)"

definition hash_apply_mutation ::
    "memory_hash \<Rightarrow> batch_report \<times> hash_writer \<Rightarrow> mutation \<Rightarrow> table_error + batch_report \<times> hash_writer" where
  "hash_apply_mutation h = (\<lambda>(r, w) mut.
     case mut of
       Put k v \<Rightarrow>
         (let (n, w) = hash_writer_put k v w in
          Inr (r\<lparr>br_applied := br_applied r + 1, br_bytes_written := br_bytes_written r + n\<rparr>, w))
     | Delete k \<Rightarrow>
         (let (found, w) = hash_writer_delete h k w in
          Inr (if found then r\<lparr>br_deleted := br_deleted r + 1, br_applied := br_applied r + 1\<rparr> else r, w))
     | RangeDelete bounds \<Rightarrow> Inr (r, w)
     | Merge k v \<Rightarrow> Inr (r, w))"

definition hash_apply_batch ::
    "memory_hash \<Rightarrow> mutation list \<Rightarrow> hash_writer \<Rightarrow> table_error + batch_report \<times> hash_writer" where
  "hash_apply_batch h muts w =
     fold_result (hash_apply_mutation h) muts (batch_report_default\<lparr>br_attempted := length muts\<rparr>, w)"

definition hash_flush_change ::
    "nat \<Rightarrow> txn_id \<Rightarrow> bytes \<times> bytes option \<Rightarrow> memory_hash \<Rightarrow> memory_hash" where
  "hash_flush_change sz t = (\<lambda>(k, change) h.
     case change of
       Some v \<Rightarrow> hash_store sz k (VersionChain (VInline v) t None (bt_get (mh_data h) k)) h
     | None \<Rightarrow>
         (case bt_get (mh_data h) k of
            None \<Rightarrow> h
          | Some c \<Rightarrow> hash_store sz k (VersionChain (VInline []) t None (Some c)) h))"

definition hash_flush :: "nat \<Rightarrow> hash_writer \<Rightarrow> memory_hash \<Rightarrow> hash_writer \<times> memory_hash" where
  "hash_flush sz w h = (w\<lparr>hw_pending := []\<rparr>, fold (hash_flush_change sz (hw_tx_id w)) (hw_pending w) h)"

definition hash_writer_commit_versions :: "hash_writer \<Rightarrow> lsn \<Rightarrow> memory_hash \<Rightarrow> memory_hash" where
  "hash_writer_commit_versions w l h = hash_commit_versions (hw_tx_id w) l h"

section \<open>Transactions on the table\<close>

text \<open>A change of a transaction: a value to put, or a deletion.\<close>

type_synonym change = "bytes \<times> bytes option"

definition hash_change :: "memory_hash \<Rightarrow> change \<Rightarrow> hash_writer \<Rightarrow> hash_writer" where
  "hash_change h = (\<lambda>(k, c) w.
     case c of Some v \<Rightarrow> snd (hash_writer_put k v w) | None \<Rightarrow> snd (hash_writer_delete h k w))"

definition hash_txn :: "nat \<Rightarrow> txn_id \<Rightarrow> lsn \<Rightarrow> change list \<Rightarrow> memory_hash \<Rightarrow> memory_hash" where
  "hash_txn sz t l cs h =
     (let (w, h) = hash_flush sz (fold (hash_change h) cs (hash_writer_new t l)) h in
      hash_writer_commit_versions w l h)"

text \<open>The versions a transaction adds: a deletion counts only where the key is in the table.\<close>

definition effective :: "versioned \<Rightarrow> change list \<Rightarrow> (bytes \<times> bytes) list" where
  "effective m cs =
     concat (map (\<lambda>(k, c). case c of Some v \<Rightarrow> [(k, v)] | None \<Rightarrow> if bt_get m k = None then [] else [(k, [])]) cs)"

lemma hash_store_data [simp]: "mh_data (hash_store sz k c h) = bt_insert k c (mh_data h)"
  by (simp add: hash_store_def hash_update_memory_usage_def)

lemma push_version_insert:
  "bt_insert k (VersionChain (VInline v) t None (bt_get m k)) m = push_version k v t m"
  by (simp add: push_version_def prepend_def chain_new_def split: option.split)

lemma hash_change_fields:
  "hw_pending (hash_change h (k, c) w) =
     hw_pending w @ (if c \<noteq> None \<or> bt_get (mh_data h) k \<noteq> None then [(k, c)] else [])"
  "hw_tx_id (hash_change h (k, c) w) = hw_tx_id w"
  by (cases c; simp add: hash_change_def hash_writer_put_def hash_writer_delete_def)+

lemma pending_changes:
  "hw_pending (fold (hash_change h) cs w) =
     hw_pending w @ filter (\<lambda>(k, c). c \<noteq> None \<or> bt_get (mh_data h) k \<noteq> None) cs"
  "hw_tx_id (fold (hash_change h) cs w) = hw_tx_id w"
  by (induction cs arbitrary: w) (auto simp: hash_change_fields split: if_splits)

lemma flush_changes:
  assumes "\<forall>k. bt_get m k \<noteq> None \<longrightarrow> bt_get (mh_data h) k \<noteq> None"
  shows "mh_data (fold (hash_flush_change sz t) (filter (\<lambda>(k, c). c \<noteq> None \<or> bt_get m k \<noteq> None) cs) h) =
    put_all t (effective m cs) (mh_data h)"
  using assms
proof (induction cs arbitrary: h)
  case (Cons x cs)
  obtain k c where x: "x = (k, c)"
    by fastforce
  show ?case
  proof (cases c)
    case None
    show ?thesis
    proof (cases "bt_get m k")
      case (Some ch)
      then obtain ch' where ch': "bt_get (mh_data h) k = Some ch'"
        using Cons.prems by blast
      let ?h = "hash_store sz k (VersionChain (VInline []) t None (Some ch')) h"
      have "mh_data ?h = push_version k [] t (mh_data h)"
        using push_version_insert [of k "[]" t "mh_data h"] ch' by simp
      moreover have "\<forall>k. bt_get m k \<noteq> None \<longrightarrow> bt_get (mh_data ?h) k \<noteq> None"
        using Cons.prems by simp
      ultimately show ?thesis
        using Cons.IH [of ?h] None Some ch' by (simp add: x effective_def hash_flush_change_def put_all_def)
    qed (use Cons None in \<open>simp add: x effective_def\<close>)
  next
    case (Some v)
    let ?h = "hash_store sz k (VersionChain (VInline v) t None (bt_get (mh_data h) k)) h"
    have "\<forall>k. bt_get m k \<noteq> None \<longrightarrow> bt_get (mh_data ?h) k \<noteq> None"
      using Cons.prems by simp
    then show ?thesis
      using Cons.IH [of ?h] Some push_version_insert [of k v t "mh_data h"]
      by (simp add: x effective_def hash_flush_change_def put_all_def)
  qed
qed (simp add: effective_def put_all_def)

lemma hash_txn_data: "mh_data (hash_txn sz t l cs h) = commit_heads t l (put_all t (effective (mh_data h) cs) (mh_data h))"
  using flush_changes [of "mh_data h" h sz t cs]
  by (simp add: hash_txn_def hash_flush_def hash_writer_commit_versions_def hash_commit_versions_def pending_changes
      hash_writer_new_def)

section \<open>Histories with deletions\<close>

definition live :: "bytes option \<Rightarrow> bytes option" where
  "live v = (if v = Some [] then None else v)"

lemma hash_get_eq: "hash_get h k l = live (read_at (mh_data h) k l)"
  by (simp add: hash_get_def read_at_def live_def split: option.split)

fun changes_at :: "(txn_id \<times> lsn \<times> change list) list \<Rightarrow> bytes \<Rightarrow> lsn \<Rightarrow> bytes option \<Rightarrow> bytes option" where
  "changes_at [] k n v = v"
| "changes_at ((t, l, cs) # hs) k n v =
     changes_at hs k n (if l \<le> n then case map_of (rev cs) k of Some c \<Rightarrow> c | None \<Rightarrow> v else v)"

text \<open>A writer looks for the key of a deletion in the table only, not among its own puts.\<close>

definition deletes_first :: "change list \<Rightarrow> bool" where
  "deletes_first cs \<longleftrightarrow> sorted_wrt (\<lambda>(j, c) (k, d). j = k \<longrightarrow> c \<noteq> None \<longrightarrow> d \<noteq> None) cs"

lemma effective_append [simp]: "effective m (cs @ ds) = effective m cs @ effective m ds"
  by (simp add: effective_def)

lemma map_of_effective:
  assumes "deletes_first cs"
  shows "map_of (rev (effective m cs)) k =
    (case map_of (rev cs) k of
       None \<Rightarrow> None
     | Some (Some v) \<Rightarrow> Some v
     | Some None \<Rightarrow> if bt_get m k = None then None else Some [])"
  using assms
proof (induction cs rule: rev_induct)
  case (snoc x cs)
  obtain j c where x: "x = (j, c)"
    by fastforce
  have cs: "deletes_first cs" and del: "\<And>v. c = None \<Longrightarrow> (j, Some v) \<notin> set cs"
    using snoc.prems by (auto simp: deletes_first_def sorted_wrt_append x)
  have "map_of (rev cs) k = Some (Some v) \<Longrightarrow> (k, Some v) \<in> set cs" for v
    by (metis map_of_SomeD set_rev)
  then show ?case
    using snoc.IH [OF cs] del
    by (cases c) (auto simp: x effective_def [of m "[(j, c)]" for c] split: option.splits)
qed (simp add: effective_def)

lemma hash_txn_get:
  assumes "settled_before l (mh_data h)" and "deletes_first cs"
  shows "hash_get (hash_txn sz t l cs h) k n =
    live (if l \<le> n then case map_of (rev cs) k of Some c \<Rightarrow> c | None \<Rightarrow> read_at (mh_data h) k n else read_at (mh_data h) k n)"
  using commit_read_at [OF assms(1), of t "effective (mh_data h) cs" k n] map_of_effective [OF assms(2), of "mh_data h" k]
  by (auto simp: hash_get_eq hash_txn_data live_def read_at_def split: option.splits)

lemma changes_at_live: "live v = live v' \<Longrightarrow> live (changes_at hs k n v) = live (changes_at hs k n v')"
proof (induction hs arbitrary: v v')
  case (Cons h hs)
  obtain t l cs where h: "h = (t, l, cs)"
    by (cases h)
  let ?step = "\<lambda>v. if l \<le> n then case map_of (rev cs) k of Some c \<Rightarrow> c | None \<Rightarrow> v else v"
  have "live (?step v) = live (?step v')"
    using Cons.prems by (simp split: option.split)
  from Cons.IH [OF this] show ?case
    by (simp add: h)
qed simp

lemma hash_history_from:
  assumes "settled_before l0 (mh_data h)" and "history_from l0 (map (\<lambda>(t, l, cs). (t, l, [])) hs)"
    and "\<forall>(t, l, cs)\<in>set hs. deletes_first cs"
  shows "hash_get (fold (\<lambda>(t, l, cs). hash_txn sz t l cs) hs h) k n = live (changes_at hs k n (read_at (mh_data h) k n))"
  using assms
proof (induction hs arbitrary: h l0)
  case Nil
  then show ?case
    by (simp add: hash_get_eq)
next
  case (Cons x hs)
  obtain t l cs where x: "x = (t, l, cs)"
    by (cases x)
  let ?h = "hash_txn sz t l cs h"
  have l: "settled_before l (mh_data h)" "l < l + 1"
    using Cons.prems(1,2) settled_before_mono by (auto simp: x)
  then have "settled_before (l + 1) (mh_data ?h)"
    by (simp add: hash_txn_data commit_settled)
  moreover have "history_from (l + 1) (map (\<lambda>(t, l, cs). (t, l, [])) hs)"
    using Cons.prems(2) by (simp add: x)
  ultimately have get: "hash_get (fold (\<lambda>(t, l, cs). hash_txn sz t l cs) hs ?h) k n = live (changes_at hs k n (read_at (mh_data ?h) k n))"
    using Cons.prems(3) by (intro Cons.IH) auto
  have "live (read_at (mh_data ?h) k n) =
      live (if l \<le> n then case map_of (rev cs) k of Some c \<Rightarrow> c | None \<Rightarrow> read_at (mh_data h) k n else read_at (mh_data h) k n)"
    using hash_txn_get [OF l(1), of cs sz t k n] Cons.prems(3) by (simp add: x hash_get_eq)
  from changes_at_live [OF this, of hs k n] show ?case
    using get by (simp add: x)
qed

interpretation hash: versioned_store "\<lambda>h. read_at (mh_data h)" "\<lambda>t l ws. hash_txn sz t l (map (\<lambda>(k, v). (k, Some v)) ws)"
  "\<lambda>l h. settled_before l (mh_data h)" for sz
proof -
  have "effective m (map (\<lambda>(k, v). (k, Some v)) ws) = ws" for m ws
    by (induction ws) (auto simp: effective_def)
  then show "versioned_store (\<lambda>h. read_at (mh_data h)) (\<lambda>t l ws. hash_txn sz t l (map (\<lambda>(k, v). (k, Some v)) ws))
      (\<lambda>l h. settled_before l (mh_data h))"
    by unfold_locales (simp_all add: hash_txn_data commit_read_at commit_settled settled_before_mono)
qed

section \<open>Properties\<close>

text \<open>
  C15. The hash table is a multi-version map with deletions: after any sequence of committed
  transactions with rising log sequence numbers a read returns the last change up to its own log
  sequence number, nothing after a deletion, as long as no transaction deletes a key it has put.
\<close>

theorem hash_history:
  assumes "history_from 0 (map (\<lambda>(t, l, cs). (t, l, [])) hs)" and "\<forall>(t, l, cs)\<in>set hs. deletes_first cs"
  shows "hash_get (fold (\<lambda>(t, l, cs). hash_txn sz t l cs) hs (hash_new i nm)) k n = live (changes_at hs k n None)"
proof -
  have "settled_before 0 (mh_data (hash_new i nm))" "read_at (mh_data (hash_new i nm)) k n = None"
    by (simp_all add: hash_new_def hash_with_budget_def hash_with_capacity_and_budget_def settled_before_def read_at_def)
  then show ?thesis
    using hash_history_from [OF _ assms, of "hash_new i nm" sz k n] by simp
qed

theorem hash_history_witness:
  "hash_get (fold (\<lambda>(t, l, cs). hash_txn 80 t l cs)
      [(1, 10, [([1], Some [5])]), (2, 20, [([1], None), ([2], Some [6])])] (hash_new 0 [])) [1] 15 = Some [5] \<and>
   hash_get (fold (\<lambda>(t, l, cs). hash_txn 80 t l cs)
      [(1, 10, [([1], Some [5])]), (2, 20, [([1], None), ([2], Some [6])])] (hash_new 0 [])) [1] 25 = None"
  using hash_history [of "[(1, 10, [([1], Some [5])]), (2, 20, [([1], None), ([2], Some [6])])]" 80 0 "[]" "[1]" 15]
    hash_history [of "[(1, 10, [([1], Some [5])]), (2, 20, [([1], None), ([2], Some [6])])]" 80 0 "[]" "[1]" 25]
  by (simp add: deletes_first_def live_def)

text \<open>
  Deleting a key a transaction has itself put is lost: for a key that is not in the table the
  writer answers that there is nothing to delete, and after the commit the put is there.
\<close>

lemma delete_after_put_lost:
  assumes "settled_before l (mh_data h)" and "bt_get (mh_data h) k = None" and "v \<noteq> []" and "l \<le> n"
  shows "hash_get (hash_txn sz t l [(k, Some v), (k, None)] h) k n = Some v"
  using commit_read_at [OF assms(1), of t "[(k, v)]" k n] assms
  by (simp add: hash_get_eq hash_txn_data effective_def live_def)

lemma delete_after_put_lost_witness: "hash_get (hash_txn 80 1 10 [([1], Some [5]), ([1], None)] (hash_new 0 [])) [1] 10 = Some [5]"
  by (rule delete_after_put_lost)
    (simp_all add: hash_new_def hash_with_budget_def hash_with_capacity_and_budget_def settled_before_def)

end
