(* ===== verification/Memtable.thy ===== *)
theory Memtable
  imports MemoryHash
begin

text \<open>
  The memtable of the LSM engine (\<open>src/src/table/lsm/memtable.rs\<close>): a bounded, sorted write buffer of
  version chains that turns immutable once. An insert is one step; the atomics and locks of the source
  serialise it. The sizes the compiler gives to a version chain (\<open>sz\<close>) and to a value reference (\<open>rsz\<close>)
  are parameters.
\<close>

section \<open>State and operations\<close>

record memtable =
  mt_data :: versioned
  mt_memory_usage :: nat
  mt_immutable :: bool
  mt_max_size :: nat
  mt_min_lsn :: "lsn option"
  mt_max_lsn :: "lsn option"

definition memtable_new :: "nat \<Rightarrow> memtable" where
  "memtable_new n = \<lparr>mt_data = [], mt_memory_usage = 0, mt_immutable = False, mt_max_size = n,
     mt_min_lsn = None, mt_max_lsn = None\<rparr>"

fun version_size :: "nat \<Rightarrow> version_value \<Rightarrow> nat" where
  "version_size rsz (VInline d) = length d"
| "version_size rsz (VExternal r) = rsz"

fun estimate_chain_size :: "nat \<Rightarrow> nat \<Rightarrow> version_chain \<Rightarrow> nat" where
  "estimate_chain_size sz rsz (VersionChain v t cl p) =
     sz + version_size rsz v + (case p of None \<Rightarrow> 0 | Some c \<Rightarrow> estimate_chain_size sz rsz c)"

definition commit_opt :: "lsn option \<Rightarrow> version_chain \<Rightarrow> version_chain" where
  "commit_opt l c = (case l of Some l \<Rightarrow> chain_commit l c | None \<Rightarrow> c)"

definition memtable_insert ::
    "nat \<Rightarrow> nat \<Rightarrow> bytes \<Rightarrow> bytes \<Rightarrow> txn_id \<Rightarrow> lsn option \<Rightarrow> memtable \<Rightarrow> table_error + memtable" where
  "memtable_insert sz rsz k v t commit_lsn m =
     (if mt_immutable m then Inl MemtableImmutable
      else
        let (new_chain, delta) =
              (case bt_get (mt_data m) k of
                 Some c \<Rightarrow>
                   (let new_chain = commit_opt commit_lsn (prepend v t c) in
                    (new_chain, estimate_chain_size sz rsz new_chain - estimate_chain_size sz rsz c))
               | None \<Rightarrow> (commit_opt commit_lsn (chain_new v t), length k + length v + sz)) in
        if mt_memory_usage m + delta > mt_max_size m then Inl MemtableFull
        else
          let m = (case commit_lsn of
                     Some l \<Rightarrow>
                       m\<lparr>mt_min_lsn := Some (case mt_min_lsn m of None \<Rightarrow> l | Some x \<Rightarrow> min x l),
                         mt_max_lsn := Some (case mt_max_lsn m of None \<Rightarrow> l | Some x \<Rightarrow> max x l)\<rparr>
                   | None \<Rightarrow> m) in
          Inr (m\<lparr>mt_data := bt_insert k new_chain (mt_data m), mt_memory_usage := mt_memory_usage m + delta\<rparr>))"

definition memtable_delete ::
    "nat \<Rightarrow> nat \<Rightarrow> bytes \<Rightarrow> txn_id \<Rightarrow> lsn option \<Rightarrow> memtable \<Rightarrow> table_error + memtable" where
  "memtable_delete sz rsz k t commit_lsn m = memtable_insert sz rsz k [] t commit_lsn m"

definition memtable_commit_versions :: "txn_id \<Rightarrow> lsn \<Rightarrow> memtable \<Rightarrow> memtable" where
  "memtable_commit_versions t l m = m\<lparr>mt_data := commit_heads t l (mt_data m)\<rparr>"

text \<open>The first version of a chain committed at or before a log sequence number.\<close>

fun committed_version :: "lsn \<Rightarrow> version_chain \<Rightarrow> version_value option" where
  "committed_version l (VersionChain v t cl p) =
     (if (case cl of Some x \<Rightarrow> x \<le> l | None \<Rightarrow> False) then Some v
      else case p of None \<Rightarrow> None | Some c \<Rightarrow> committed_version l c)"

text \<open>A deleted key is found with an empty value, a key never seen is not found.\<close>

definition memtable_get :: "memtable \<Rightarrow> bytes \<Rightarrow> lsn \<Rightarrow> table_error + bytes option" where
  "memtable_get m k l =
     (case bt_get (mt_data m) k of
        None \<Rightarrow> Inr None
      | Some c \<Rightarrow>
          (case committed_version l c of
             None \<Rightarrow> Inr None
           | Some (VInline d) \<Rightarrow> Inr (Some d)
           | Some (VExternal r) \<Rightarrow> Inl InvalidOperationState))"

definition in_range :: "bytes option \<Rightarrow> bytes option \<Rightarrow> bytes \<Rightarrow> bool" where
  "in_range start stop k \<longleftrightarrow>
     (case start of Some s \<Rightarrow> s \<le> k | None \<Rightarrow> True) \<and> (case stop of Some e \<Rightarrow> k < e | None \<Rightarrow> True)"

fun scan_entries :: "lsn \<Rightarrow> versioned \<Rightarrow> table_error + (bytes \<times> bytes) list" where
  "scan_entries l [] = Inr []"
| "scan_entries l ((k, c) # es) =
     (case committed_version l c of
        None \<Rightarrow> scan_entries l es
      | Some v \<Rightarrow>
          if value_is_empty v then scan_entries l es
          else case v of
            VInline d \<Rightarrow> rbind (scan_entries l es) (\<lambda>rest. Inr ((k, d) # rest))
          | VExternal r \<Rightarrow> Inl InvalidOperationState)"

text \<open>\<open>BTreeMap::range\<close> panics when the start of a range lies behind its end.\<close>

definition memtable_scan ::
    "memtable \<Rightarrow> bytes option \<Rightarrow> bytes option \<Rightarrow> lsn \<Rightarrow> table_error + (bytes \<times> bytes) list" where
  "memtable_scan m start stop l =
     (if (case (start, stop) of (Some s, Some e) \<Rightarrow> e < s | _ \<Rightarrow> False) then Inl TablePanic
      else scan_entries l (bt_range (in_range start stop) (mt_data m)))"

definition memtable_entries :: "memtable \<Rightarrow> table_error + versioned" where
  "memtable_entries m = (if mt_immutable m then Inr (mt_data m) else Inl MemtableNotImmutable)"

definition memtable_is_full :: "memtable \<Rightarrow> bool" where
  "memtable_is_full m \<longleftrightarrow> mt_memory_usage m \<ge> mt_max_size m"

definition memtable_len :: "memtable \<Rightarrow> nat" where
  "memtable_len m = length (mt_data m)"

definition make_immutable :: "memtable \<Rightarrow> bool \<times> memtable" where
  "make_immutable m = (if mt_immutable m then (False, m) else (True, m\<lparr>mt_immutable := True\<rparr>))"

fun vacuum_chains :: "nat \<Rightarrow> nat \<Rightarrow> lsn \<Rightarrow> versioned \<Rightarrow> versioned \<times> nat \<times> nat" where
  "vacuum_chains sz rsz l [] = ([], 0, 0)"
| "vacuum_chains sz rsz l ((k, c) # es) =
     (let (c', removed, freed_refs) = vacuum l c; (es', total, freed) = vacuum_chains sz rsz l es in
      ((k, c') # es', removed + total, (estimate_chain_size sz rsz c - estimate_chain_size sz rsz c') + freed))"

text \<open>The counter is an atomic of 64 bits, decreased modulo its width.\<close>

definition memtable_vacuum :: "nat \<Rightarrow> nat \<Rightarrow> lsn \<Rightarrow> memtable \<Rightarrow> table_error + nat \<times> memtable" where
  "memtable_vacuum sz rsz l m =
     (if \<not> mt_immutable m then Inl MemtableNotImmutable
      else let (es, total, freed) = vacuum_chains sz rsz l (mt_data m) in
           Inr (total, m\<lparr>mt_data := es,
             mt_memory_usage := (if freed \<le> mt_memory_usage m then mt_memory_usage m - freed
                                 else mt_memory_usage m + 2 ^ 64 - freed)\<rparr>))"

section \<open>Accounting\<close>

definition entries_size :: "nat \<Rightarrow> nat \<Rightarrow> versioned \<Rightarrow> nat" where
  "entries_size sz rsz es = sum_list (map (\<lambda>(k, c). length k + estimate_chain_size sz rsz c) es)"

lemma entries_size_insert:
  assumes "bt_wf m"
  shows "entries_size sz rsz (bt_insert k c m) =
    entries_size sz rsz m + (length k + estimate_chain_size sz rsz c) -
    (case bt_get m k of None \<Rightarrow> 0 | Some c' \<Rightarrow> length k + estimate_chain_size sz rsz c')"
  using assms
proof (induction k c m rule: bt_insert.induct)
  case (2 k v a b m)
  have "k < a \<Longrightarrow> bt_get m k = None"
    using "2.prems" by (fastforce simp: bt_get_None_iff)
  moreover have "bt_get m k = Some c' \<Longrightarrow> length k + estimate_chain_size sz rsz c' \<le> entries_size sz rsz m" for c'
    using "2.prems" bt_get_Some_iff [of m k c'] member_le_sum_list [of "length k + estimate_chain_size sz rsz c'"
        "map (\<lambda>(k, c). length k + estimate_chain_size sz rsz c) m"]
    by (force simp: entries_size_def)
  ultimately show ?case
    using 2 by (auto simp: entries_size_def split: option.splits)
qed (simp add: entries_size_def)

lemma estimate_chain_ops [simp]:
  "estimate_chain_size sz rsz (commit_opt l c) = estimate_chain_size sz rsz c"
  "estimate_chain_size sz rsz (chain_commit x c) = estimate_chain_size sz rsz c"
  "estimate_chain_size sz rsz (prepend v t c) = sz + length v + estimate_chain_size sz rsz c"
  "estimate_chain_size sz rsz (chain_new v t) = sz + length v"
  by (cases c; cases l; simp add: commit_opt_def prepend_def chain_new_def)+

lemma chain_size_versions:
  "estimate_chain_size sz rsz c = sum_list (map (\<lambda>(v, t, cl). sz + version_size rsz v) (versions c))"
  by (induction c rule: versions.induct) (auto split: option.splits)

lemma retain_shrinks:
  "retain_obsolete_versions m c (b, fr) = (c', b', fr') \<Longrightarrow> estimate_chain_size sz rsz c' \<le> estimate_chain_size sz rsz c"
proof (induction c arbitrary: c' b' fr' rule: versions.induct)
  case (1 v t cl p)
  show ?case
  proof (cases p)
    case None
    then show ?thesis
      using "1.prems" by (auto simp: Let_def split: if_splits)
  next
    case (Some c)
    obtain d b2 f2 where d: "retain_obsolete_versions m c (b, fr) = (d, b2, f2)"
      by (metis prod_cases3)
    then have "estimate_chain_size sz rsz d \<le> estimate_chain_size sz rsz c"
      using "1.IH" Some by simp
    moreover have "(case vc_prev d of None \<Rightarrow> 0 | Some e \<Rightarrow> estimate_chain_size sz rsz e) \<le> estimate_chain_size sz rsz d"
      by (cases d) (simp split: option.split)
    ultimately show ?thesis
      using "1.prems" Some d by (auto simp: Let_def split: if_splits option.splits)
  qed
qed

lemma vacuum_shrinks: "vacuum m c = (c', n, fr) \<Longrightarrow> estimate_chain_size sz rsz c' \<le> estimate_chain_size sz rsz c"
  by (auto simp: vacuum_def Let_def split: if_splits prod.splits intro: retain_shrinks)

lemma vacuum_chains_size:
  "vacuum_chains sz rsz l es = (es', n, freed) \<Longrightarrow>
   map fst es' = map fst es \<and> entries_size sz rsz es = entries_size sz rsz es' + freed"
proof (induction sz rsz l es arbitrary: es' n freed rule: vacuum_chains.induct)
  case (2 sz rsz l k c es)
  then show ?case
    using vacuum_shrinks [of l c _ _ _ sz rsz] by (fastforce simp: entries_size_def split: prod.splits)
qed (simp add: entries_size_def)

text \<open>The calls that change a memtable, and runs of them; a call that fails changes nothing.\<close>

datatype memtable_call =
    Insert bytes bytes txn_id "lsn option"
  | Remove bytes txn_id "lsn option"
  | Commit_versions txn_id lsn
  | Make_immutable
  | Vacuum lsn

definition memtable_step :: "nat \<Rightarrow> nat \<Rightarrow> memtable_call \<Rightarrow> memtable \<Rightarrow> memtable" where
  "memtable_step sz rsz call m =
     (case call of
        Insert k v t l \<Rightarrow> (case memtable_insert sz rsz k v t l m of Inl e \<Rightarrow> m | Inr m' \<Rightarrow> m')
      | Remove k t l \<Rightarrow> (case memtable_delete sz rsz k t l m of Inl e \<Rightarrow> m | Inr m' \<Rightarrow> m')
      | Commit_versions t l \<Rightarrow> memtable_commit_versions t l m
      | Make_immutable \<Rightarrow> snd (make_immutable m)
      | Vacuum l \<Rightarrow> (case memtable_vacuum sz rsz l m of Inl e \<Rightarrow> m | Inr (n, m') \<Rightarrow> m'))"

definition memtable_inv :: "nat \<Rightarrow> nat \<Rightarrow> memtable \<Rightarrow> bool" where
  "memtable_inv sz rsz m \<longleftrightarrow> bt_wf (mt_data m) \<and> mt_memory_usage m = entries_size sz rsz (mt_data m) \<and>
     mt_memory_usage m \<le> mt_max_size m"

lemma memtable_insert_inv:
  assumes "memtable_inv sz rsz m" and "memtable_insert sz rsz k v t l m = Inr m'"
  shows "memtable_inv sz rsz m' \<and> mt_max_size m' = mt_max_size m"
proof (cases "bt_get (mt_data m) k")
  case None
  then show ?thesis
    using assms entries_size_insert [of "mt_data m" sz rsz k "commit_opt l (chain_new v t)"]
    by (auto simp: memtable_inv_def memtable_insert_def Let_def split: if_splits option.splits)
next
  case (Some c)
  have "(k, c) \<in> set (mt_data m)"
    using Some assms(1) bt_get_Some_iff [of "mt_data m" k c] by (simp add: memtable_inv_def)
  then have "length k + estimate_chain_size sz rsz c \<le> entries_size sz rsz (mt_data m)"
    using member_le_sum_list [of "length k + estimate_chain_size sz rsz c"
        "map (\<lambda>(k, c). length k + estimate_chain_size sz rsz c) (mt_data m)"]
    by (force simp: entries_size_def)
  then show ?thesis
    using assms Some entries_size_insert [of "mt_data m" sz rsz k "commit_opt l (prepend v t c)"]
    by (auto simp: memtable_inv_def memtable_insert_def Let_def split: if_splits option.splits)
qed

lemma commit_heads_size: "entries_size sz rsz (commit_heads t l m) = entries_size sz rsz m"
  by (induction m) (auto simp: entries_size_def commit_heads_def bt_map_def)

lemma memtable_step_inv:
  assumes "memtable_inv sz rsz m"
  shows "memtable_inv sz rsz (memtable_step sz rsz call m)"
proof (cases call)
  case (Vacuum l)
  obtain es n freed where v: "vacuum_chains sz rsz l (mt_data m) = (es, n, freed)"
    by (metis prod_cases3)
  then have "bt_wf es \<longleftrightarrow> bt_wf (mt_data m)" "entries_size sz rsz (mt_data m) = entries_size sz rsz es + freed"
    using vacuum_chains_size [OF v] by (simp_all add: bt_wf_def)
  then show ?thesis
    using assms v Vacuum by (auto simp: memtable_step_def memtable_vacuum_def memtable_inv_def)
next
  case (Insert k v t l)
  then show ?thesis
    using assms memtable_insert_inv [OF assms, of k v t l] by (simp add: memtable_step_def split: sum.split)
next
  case (Remove k t l)
  then show ?thesis
    using assms memtable_insert_inv [OF assms, of k "[]" t l]
    by (simp add: memtable_step_def memtable_delete_def split: sum.split)
qed (use assms in \<open>simp_all add: memtable_step_def memtable_commit_versions_def make_immutable_def memtable_inv_def commit_heads_size\<close>)

section \<open>Reading what was inserted\<close>

type_synonym insertion = "bytes \<times> bytes \<times> txn_id \<times> lsn option"

definition insert_all :: "nat \<Rightarrow> nat \<Rightarrow> insertion list \<Rightarrow> memtable \<Rightarrow> table_error + memtable" where
  "insert_all sz rsz = fold_result (\<lambda>m (k, v, t, l). memtable_insert sz rsz k v t l m)"

text \<open>The value a reader at \<open>n\<close> should find: the last insertion of the key committed up to there.\<close>

fun inserted_at :: "insertion list \<Rightarrow> bytes \<Rightarrow> lsn \<Rightarrow> bytes option \<Rightarrow> bytes option" where
  "inserted_at [] k n r = r"
| "inserted_at ((j, v, t, l) # xs) k n r =
     inserted_at xs k n (if j = k \<and> (case l of Some x \<Rightarrow> x \<le> n | None \<Rightarrow> False) then Some v else r)"

definition chain_at :: "versioned \<Rightarrow> bytes \<Rightarrow> lsn \<Rightarrow> version_value option" where
  "chain_at m k n = (case bt_get m k of None \<Rightarrow> None | Some c \<Rightarrow> committed_version n c)"

lemma insert_chain_at:
  assumes "memtable_insert sz rsz k v t l m = Inr m'"
  shows "chain_at (mt_data m') j n =
    (if k = j \<and> (case l of Some x \<Rightarrow> x \<le> n | None \<Rightarrow> False) then Some (VInline v) else chain_at (mt_data m) j n)"
  using assms
  by (auto simp: memtable_insert_def chain_at_def Let_def commit_opt_def prepend_def chain_new_def
      split: if_splits option.splits)

lemma insert_wf: "memtable_insert sz rsz k v t l m = Inr m' \<Longrightarrow> bt_wf (mt_data m) \<Longrightarrow> bt_wf (mt_data m')"
  by (auto simp: memtable_insert_def Let_def split: if_splits option.splits)

lemma insert_all_reads:
  assumes "insert_all sz rsz xs m = Inr m'" and "bt_wf (mt_data m)"
    and "\<And>k n. chain_at (mt_data m) k n = map_option VInline (r k n)"
  shows "bt_wf (mt_data m') \<and> chain_at (mt_data m') k n = map_option VInline (inserted_at xs k n (r k n))"
  using assms
proof (induction xs arbitrary: m r)
  case (Cons x xs)
  obtain j v t l where x: "x = (j, v, t, l)"
    by (cases x)
  obtain m1 where m1: "memtable_insert sz rsz j v t l m = Inr m1" "insert_all sz rsz xs m1 = Inr m'"
    using Cons.prems(1) by (auto simp: insert_all_def x rbind_eq_Inr_iff)
  let ?r = "\<lambda>k n. if j = k \<and> (case l of Some x \<Rightarrow> x \<le> n | None \<Rightarrow> False) then Some v else r k n"
  have "chain_at (mt_data m1) k n = map_option VInline (?r k n)" for k n
    using insert_chain_at [OF m1(1)] Cons.prems(3) by simp
  from Cons.IH [OF m1(2) insert_wf [OF m1(1) Cons.prems(2)] this] show ?case
    by (simp add: x)
qed (simp add: insert_all_def)

lemma scan_entries_reads:
  assumes "bt_wf es" and "\<And>k c. (k, c) \<in> set es \<Longrightarrow> committed_version n c = map_option VInline (r k)"
  shows "scan_entries n es = Inr (concat (map (\<lambda>(k, c). case r k of None \<Rightarrow> [] | Some d \<Rightarrow> if d = [] then [] else [(k, d)]) es))"
  using assms
proof (induction es)
  case (Cons e es)
  obtain k c where e: "e = (k, c)"
    by fastforce
  have "scan_entries n es = Inr (concat (map (\<lambda>(k, c). case r k of None \<Rightarrow> [] | Some d \<Rightarrow> if d = [] then [] else [(k, d)]) es))"
    using Cons e by auto
  moreover have "committed_version n c = map_option VInline (r k)"
    using Cons.prems(2) e by simp
  ultimately show ?case
    by (auto simp: e split: option.split)
qed simp

lemma scanned_keys:
  "map fst (concat (map (\<lambda>(k, c). case r k of None \<Rightarrow> [] | Some d \<Rightarrow> if d = [] then [] else [(k, d)]) es)) =
   filter (\<lambda>j. r j \<noteq> None \<and> r j \<noteq> Some []) (map fst es)"
  by (induction es) (auto split: option.splits)

section \<open>Properties\<close>

text \<open>
  C13. A memtable returns what was inserted: after any sequence of accepted insertions and deletions,
  in whatever order of log sequence numbers, a read at \<open>n\<close> gives the value of the last
  one of that key committed up to \<open>n\<close>, an empty value for a deleted key, and a scan
  without an end gives the keys from its start on that have such a value and are not deleted, in
  order.
\<close>

theorem memtable_reads:
  assumes "insert_all sz rsz xs (memtable_new cap) = Inr m"
  shows "memtable_get m k n = Inr (inserted_at xs k n None) \<and>
    (\<exists>es. memtable_scan m start None n = Inr es \<and> sorted_wrt (<) (map fst es) \<and>
      (\<forall>j d. (j, d) \<in> set es \<longleftrightarrow> in_range start None j \<and> d \<noteq> [] \<and> inserted_at xs j n None = Some d))"
proof -
  have "chain_at (mt_data (memtable_new cap)) j i = map_option VInline ((\<lambda>_ _. None) j i)" for j i
    by (simp add: memtable_new_def chain_at_def)
  then have reads: "bt_wf (mt_data m)" "\<And>j. chain_at (mt_data m) j n = map_option VInline (inserted_at xs j n None)"
    using insert_all_reads [OF assms, of "\<lambda>_ _. None"] by (auto simp: memtable_new_def)
  have "memtable_get m k n = Inr (inserted_at xs k n None)"
    using reads(2) [of k]
    by (cases "inserted_at xs k n None") (auto simp: memtable_get_def chain_at_def split: option.splits)
  moreover have "\<exists>es. memtable_scan m start None n = Inr es \<and> sorted_wrt (<) (map fst es) \<and>
      (\<forall>j d. (j, d) \<in> set es \<longleftrightarrow> in_range start None j \<and> d \<noteq> [] \<and> inserted_at xs j n None = Some d)"
  proof -
    let ?r = "\<lambda>j. inserted_at xs j n None"
    let ?es = "bt_range (in_range start None) (mt_data m)"
    let ?out = "concat (map (\<lambda>(k, c). case ?r k of None \<Rightarrow> [] | Some d \<Rightarrow> if d = [] then [] else [(k, d)]) ?es)"
    have get: "bt_get ?es j = (if in_range start None j then bt_get (mt_data m) j else None)" for j
      by simp
    have wf: "bt_wf ?es"
      using reads(1) by simp
    have "committed_version n c = map_option VInline (?r j)" if "(j, c) \<in> set ?es" for j c
      using that reads(2) [of j] bt_get_Some_iff [OF wf, of j c] get [of j]
      by (simp add: chain_at_def split: if_splits)
    from scan_entries_reads [OF wf this] have "memtable_scan m start None n = Inr ?out"
      by (simp add: memtable_scan_def split: option.split)
    moreover have "map fst ?out = filter (\<lambda>j. ?r j \<noteq> None \<and> ?r j \<noteq> Some []) (map fst ?es)"
      by (rule scanned_keys)
    then have "sorted_wrt (<) (map fst ?out)"
      using wf by (simp add: bt_wf_def sorted_wrt_filter)
    moreover have "(j, d) \<in> set ?out \<longleftrightarrow> in_range start None j \<and> d \<noteq> [] \<and> ?r j = Some d" for j d
    proof -
      have "?r j = Some d \<Longrightarrow> bt_get (mt_data m) j \<noteq> None"
        using reads(2) [of j] by (auto simp: chain_at_def split: option.splits)
      then show ?thesis
        using bt_get_Some_iff [OF wf, of j] get [of j] by (fastforce split: option.splits if_splits)
    qed
    ultimately show ?thesis
      by blast
  qed
  ultimately show ?thesis ..
qed

theorem memtable_reads_witness:
  "\<exists>m. insert_all 80 16 [([1], [5], 1, Some 10), ([2], [6], 1, Some 10), ([1], [], 2, Some 20)] (memtable_new 1000) = Inr m \<and>
    memtable_get m [1] 15 = Inr (Some [5]) \<and> memtable_get m [1] 25 = Inr (Some [])"
proof -
  let ?xs = "[([1], [5], 1, Some 10), ([2], [6], 1, Some 10), ([1], [], 2, Some 20)] :: insertion list"
  obtain m where m: "insert_all 80 16 ?xs (memtable_new 1000) = Inr m"
    by (simp add: insert_all_def memtable_insert_def memtable_new_def)
  show ?thesis
    using m memtable_reads [OF m, of "[1]" 15 None] memtable_reads [OF m, of "[1]" 25 None] by simp
qed

text \<open>
  C14. The memory counter of a memtable is exact and never passes its limit: whatever calls it has
  had, it is the sum of the sizes of its keys and version chains, also after vacuuming.
\<close>

theorem memtable_accounting:
  "mt_memory_usage (fold (memtable_step sz rsz) calls (memtable_new cap)) =
     entries_size sz rsz (mt_data (fold (memtable_step sz rsz) calls (memtable_new cap))) \<and>
   mt_memory_usage (fold (memtable_step sz rsz) calls (memtable_new cap)) \<le> cap"
proof -
  have inv: "memtable_inv sz rsz m \<Longrightarrow> memtable_inv sz rsz (fold (memtable_step sz rsz) calls m)" for m
    by (induction calls arbitrary: m) (simp_all add: memtable_step_inv)
  have "mt_max_size (memtable_step sz rsz c m) = mt_max_size m" for c m
    by (auto simp: memtable_step_def memtable_delete_def memtable_insert_def memtable_commit_versions_def
        make_immutable_def memtable_vacuum_def Let_def split: memtable_call.split sum.split option.split prod.split if_splits)
  then have "mt_max_size (fold (memtable_step sz rsz) calls m) = mt_max_size m" for m
    by (induction calls arbitrary: m) simp_all
  then show ?thesis
    using inv [of "memtable_new cap"] by (simp add: memtable_inv_def memtable_new_def entries_size_def)
qed

end
