(* ===== verification/Composite.thy ===== *)
theory Composite
  imports TableTypes
begin

text \<open>
  Queries over a primary table and its secondary tables (\<open>src/src/table/composite.rs\<close>). The executor
  is given how to read the primary table and how to ask a bloom filter; both are arguments here. All
  four strategies answer what the primary table holds, as long as no filter denies a key it has.
\<close>

section \<open>Configuration\<close>

datatype composition_strategy = BloomFirst | PrimaryFirst | Parallel | Sequential

datatype secondary_role = PreFilter | PostFilter | AlternativeAccess | Enrichment

text \<open>The kinds of \<open>TableEngineKind\<close>.\<close>

datatype engine_kind =
    Kind_BTree | Kind_BPlusTree | Kind_LsmTree | Kind_Art | Kind_Hash | Kind_Memory | Kind_AppendLog
  | Kind_ColumnarSegment | Kind_SparseOrdered | Kind_Bloom | Kind_Bitmap | Kind_FullText
  | Kind_VectorHnsw | Kind_VectorIvf | Kind_GeoSpatial | Kind_TimeSeries | Kind_GraphAdjacency | Kind_Blob
  | Kind_Custom u32

record secondary_table =
  st_table_id :: table_id
  st_engine_kind :: engine_kind
  st_role :: secondary_role

record composite_config =
  cc_primary_table_id :: table_id
  cc_primary_engine_kind :: engine_kind
  cc_secondary_tables :: "secondary_table list"
  cc_strategy :: composition_strategy

definition composite_new :: "table_id \<Rightarrow> engine_kind \<Rightarrow> composite_config" where
  "composite_new tb kind =
     \<lparr>cc_primary_table_id = tb, cc_primary_engine_kind = kind, cc_secondary_tables = [], cc_strategy = BloomFirst\<rparr>"

definition with_secondary :: "secondary_table \<Rightarrow> composite_config \<Rightarrow> composite_config" where
  "with_secondary st c = c\<lparr>cc_secondary_tables := cc_secondary_tables c @ [st]\<rparr>"

definition with_strategy :: "composition_strategy \<Rightarrow> composite_config \<Rightarrow> composite_config" where
  "with_strategy st c = c\<lparr>cc_strategy := st\<rparr>"

definition has_bloom_filter :: "composite_config \<Rightarrow> bool" where
  "has_bloom_filter c = list_ex (\<lambda>s. st_engine_kind s = Kind_Bloom) (cc_secondary_tables c)"

definition bloom_filter_ids :: "composite_config \<Rightarrow> table_id list" where
  "bloom_filter_ids c = map st_table_id (filter (\<lambda>s. st_engine_kind s = Kind_Bloom) (cc_secondary_tables c))"

definition with_bloom_prefilter :: "table_id \<Rightarrow> composite_config \<Rightarrow> composite_config" where
  "with_bloom_prefilter tb c =
     with_strategy BloomFirst (with_secondary \<lparr>st_table_id = tb, st_engine_kind = Kind_Bloom, st_role = PreFilter\<rparr> c)"

definition with_bloom_postfilter :: "table_id \<Rightarrow> composite_config \<Rightarrow> composite_config" where
  "with_bloom_postfilter tb c = with_secondary \<lparr>st_table_id = tb, st_engine_kind = Kind_Bloom, st_role = PostFilter\<rparr> c"

definition with_hash_access :: "table_id \<Rightarrow> composite_config \<Rightarrow> composite_config" where
  "with_hash_access tb c = with_secondary \<lparr>st_table_id = tb, st_engine_kind = Kind_Hash, st_role = AlternativeAccess\<rparr> c"

section \<open>Queries\<close>

record table_consulted =
  tc_table_id :: table_id
  tc_engine_kind :: engine_kind
  tc_role :: secondary_role
  tc_contributed :: bool

record composite_result =
  cr_value :: "bytes option"
  cr_tables_consulted :: "table_consulted list"
  cr_pre_filtered :: bool

type_synonym 'e primary_get = "table_id \<Rightarrow> bytes \<Rightarrow> lsn \<Rightarrow> 'e + bytes option"
type_synonym 'e bloom_ask = "table_id \<Rightarrow> bytes \<Rightarrow> 'e + bool"

definition consulted_primary :: "composite_config \<Rightarrow> bytes option \<Rightarrow> table_consulted" where
  "consulted_primary c v =
     \<lparr>tc_table_id = cc_primary_table_id c, tc_engine_kind = cc_primary_engine_kind c, tc_role = AlternativeAccess,
      tc_contributed = (v \<noteq> None)\<rparr>"

definition consulted_secondary :: "secondary_table \<Rightarrow> bool \<Rightarrow> table_consulted" where
  "consulted_secondary s b =
     \<lparr>tc_table_id = st_table_id s, tc_engine_kind = st_engine_kind s, tc_role = st_role s, tc_contributed = b\<rparr>"

fun might_exist_loop :: "'e bloom_ask \<Rightarrow> bytes \<Rightarrow> table_id list \<Rightarrow> 'e + bool" where
  "might_exist_loop ask k [] = Inr True"
| "might_exist_loop ask k (b # bs) = rbind (ask b k) (\<lambda>r. if r then might_exist_loop ask k bs else Inr False)"

text \<open>\<open>might_exist\<close>.\<close>

definition composite_might_exist :: "composite_config \<Rightarrow> 'e bloom_ask \<Rightarrow> bytes \<Rightarrow> 'e + bool" where
  "composite_might_exist c ask k = might_exist_loop ask k (bloom_filter_ids c)"

fun bloom_first_loop ::
    "composite_config \<Rightarrow> lsn \<Rightarrow> 'e primary_get \<Rightarrow> 'e bloom_ask \<Rightarrow> bytes \<Rightarrow> table_id list \<Rightarrow> table_consulted list \<Rightarrow>
     'e + composite_result" where
  "bloom_first_loop c l get ask k [] tcs =
     rbind (get (cc_primary_table_id c) k l) (\<lambda>v.
     Inr \<lparr>cr_value = v, cr_tables_consulted = tcs @ [consulted_primary c v], cr_pre_filtered = False\<rparr>)"
| "bloom_first_loop c l get ask k (b # bs) tcs =
     (let tcs = tcs @ [\<lparr>tc_table_id = b, tc_engine_kind = Kind_Bloom, tc_role = PreFilter, tc_contributed = True\<rparr>] in
      rbind (ask b k) (\<lambda>r.
      if r then bloom_first_loop c l get ask k bs tcs
      else Inr \<lparr>cr_value = None, cr_tables_consulted = tcs, cr_pre_filtered = True\<rparr>))"

definition get_bloom_first ::
    "composite_config \<Rightarrow> lsn \<Rightarrow> 'e primary_get \<Rightarrow> 'e bloom_ask \<Rightarrow> bytes \<Rightarrow> 'e + composite_result" where
  "get_bloom_first c l get ask k = bloom_first_loop c l get ask k (bloom_filter_ids c) []"

definition ask_secondary :: "'e bloom_ask \<Rightarrow> bytes \<Rightarrow> bool \<Rightarrow> secondary_table \<Rightarrow> 'e + bool" where
  "ask_secondary ask k other s = (if st_engine_kind s = Kind_Bloom then ask (st_table_id s) k else Inr other)"

fun post_filter_loop ::
    "'e bloom_ask \<Rightarrow> bytes \<Rightarrow> bytes option \<Rightarrow> secondary_table list \<Rightarrow> table_consulted list \<Rightarrow> 'e + composite_result" where
  "post_filter_loop ask k v [] tcs = Inr \<lparr>cr_value = v, cr_tables_consulted = tcs, cr_pre_filtered = False\<rparr>"
| "post_filter_loop ask k v (s # ss) tcs =
     (if st_role s = PostFilter
      then rbind (ask_secondary ask k True s) (\<lambda>r.
           let tcs = tcs @ [consulted_secondary s r] in
           if r then post_filter_loop ask k v ss tcs
           else Inr \<lparr>cr_value = None, cr_tables_consulted = tcs, cr_pre_filtered = False\<rparr>)
      else post_filter_loop ask k v ss tcs)"

definition get_primary_first ::
    "composite_config \<Rightarrow> lsn \<Rightarrow> 'e primary_get \<Rightarrow> 'e bloom_ask \<Rightarrow> bytes \<Rightarrow> 'e + composite_result" where
  "get_primary_first c l get ask k =
     rbind (get (cc_primary_table_id c) k l) (\<lambda>v.
     if v = None then Inr \<lparr>cr_value = v, cr_tables_consulted = [consulted_primary c v], cr_pre_filtered = False\<rparr>
     else post_filter_loop ask k v (cc_secondary_tables c) [consulted_primary c v])"

fun ask_all :: "'e bloom_ask \<Rightarrow> bytes \<Rightarrow> secondary_table list \<Rightarrow> table_consulted list \<Rightarrow> 'e + table_consulted list" where
  "ask_all ask k [] tcs = Inr tcs"
| "ask_all ask k (s # ss) tcs =
     rbind (ask_secondary ask k True s) (\<lambda>r. ask_all ask k ss (tcs @ [consulted_secondary s r]))"

definition get_parallel ::
    "composite_config \<Rightarrow> lsn \<Rightarrow> 'e primary_get \<Rightarrow> 'e bloom_ask \<Rightarrow> bytes \<Rightarrow> 'e + composite_result" where
  "get_parallel c l get ask k =
     rbind (get (cc_primary_table_id c) k l) (\<lambda>v.
     rbind (ask_all ask k (cc_secondary_tables c) [consulted_primary c v]) (\<lambda>tcs.
     Inr \<lparr>cr_value = (if list_all tc_contributed tcs then v else None), cr_tables_consulted = tcs, cr_pre_filtered = False\<rparr>))"

fun alternatives_loop :: "'e bloom_ask \<Rightarrow> bytes \<Rightarrow> secondary_table list \<Rightarrow> table_consulted list \<Rightarrow> 'e + table_consulted list" where
  "alternatives_loop ask k [] tcs = Inr tcs"
| "alternatives_loop ask k (s # ss) tcs =
     (if st_role s = AlternativeAccess
      then rbind (ask_secondary ask k False s) (\<lambda>r. alternatives_loop ask k ss (tcs @ [consulted_secondary s r]))
      else alternatives_loop ask k ss tcs)"

definition get_sequential ::
    "composite_config \<Rightarrow> lsn \<Rightarrow> 'e primary_get \<Rightarrow> 'e bloom_ask \<Rightarrow> bytes \<Rightarrow> 'e + composite_result" where
  "get_sequential c l get ask k =
     rbind (get (cc_primary_table_id c) k l) (\<lambda>v.
     if v \<noteq> None then Inr \<lparr>cr_value = v, cr_tables_consulted = [consulted_primary c v], cr_pre_filtered = False\<rparr>
     else rbind (alternatives_loop ask k (cc_secondary_tables c) [consulted_primary c v]) (\<lambda>tcs.
       Inr \<lparr>cr_value = None, cr_tables_consulted = tcs, cr_pre_filtered = False\<rparr>))"

definition composite_get ::
    "composite_config \<Rightarrow> lsn \<Rightarrow> 'e primary_get \<Rightarrow> 'e bloom_ask \<Rightarrow> bytes \<Rightarrow> 'e + composite_result" where
  "composite_get c l get ask k =
     (case cc_strategy c of
        BloomFirst \<Rightarrow> get_bloom_first c l get ask k
      | PrimaryFirst \<Rightarrow> get_primary_first c l get ask k
      | Parallel \<Rightarrow> get_parallel c l get ask k
      | Sequential \<Rightarrow> get_sequential c l get ask k)"

section \<open>The strategies agree\<close>

text \<open>What the filters promise: they answer, and deny no key the primary table holds.\<close>

definition filters_sound :: "composite_config \<Rightarrow> 'e bloom_ask \<Rightarrow> bytes \<Rightarrow> bytes option \<Rightarrow> bool" where
  "filters_sound c ask k v \<longleftrightarrow>
     (\<forall>b\<in>set (bloom_filter_ids c). (ask b k = Inr True) \<or> (ask b k = Inr False \<and> v = None))"

lemma filters_soundD:
  assumes "filters_sound c ask k v" and "s \<in> set (cc_secondary_tables c)"
  obtains r where "ask_secondary ask k b s = Inr r" and "v \<noteq> None \<Longrightarrow> b \<Longrightarrow> r"
proof (cases "st_engine_kind s = Kind_Bloom")
  case True
  then have "st_table_id s \<in> set (bloom_filter_ids c)"
    using assms(2) by (auto simp: bloom_filter_ids_def)
  then show ?thesis
    using assms(1) that True by (auto simp: filters_sound_def ask_secondary_def)
qed (use that in \<open>simp add: ask_secondary_def\<close>)

lemma bloom_first_value:
  assumes "\<forall>b\<in>set bs. ask b k = Inr True \<or> ask b k = Inr False \<and> v = None" and "get (cc_primary_table_id c) k l = Inr v"
  shows "\<exists>r. bloom_first_loop c l get ask k bs tcs = Inr r \<and> cr_value r = v"
  using assms by (induction bs arbitrary: tcs) (auto simp: Let_def)

lemma post_filter_value:
  assumes "filters_sound c ask k v" and "set ss \<subseteq> set (cc_secondary_tables c)" and "v \<noteq> None"
  shows "\<exists>r. post_filter_loop ask k v ss tcs = Inr r \<and> cr_value r = v"
  using assms(2)
proof (induction ss arbitrary: tcs)
  case (Cons s ss)
  obtain r where "ask_secondary ask k True s = Inr r" "r"
    using filters_soundD [OF assms(1), of s True] Cons.prems assms(3) by auto
  then show ?case
    using Cons by (simp add: Let_def)
qed simp

lemma ask_all_value:
  assumes "filters_sound c ask k v" and "set ss \<subseteq> set (cc_secondary_tables c)"
  shows "\<exists>tcs'. ask_all ask k ss tcs = Inr tcs' \<and> (v \<noteq> None \<longrightarrow> list_all tc_contributed tcs' = list_all tc_contributed tcs)"
  using assms(2)
proof (induction ss arbitrary: tcs)
  case (Cons s ss)
  obtain r where r: "ask_secondary ask k True s = Inr r" "v \<noteq> None \<Longrightarrow> r"
    using filters_soundD [OF assms(1), of s True] Cons.prems by auto
  then show ?case
    using Cons.IH [of "tcs @ [consulted_secondary s r]"] Cons.prems by (auto simp: consulted_secondary_def)
qed simp

lemma alternatives_answer:
  assumes "filters_sound c ask k v" and "set ss \<subseteq> set (cc_secondary_tables c)"
  shows "\<exists>tcs'. alternatives_loop ask k ss tcs = Inr tcs'"
  using assms(2)
proof (induction ss arbitrary: tcs)
  case (Cons s ss)
  obtain r where "ask_secondary ask k False s = Inr r"
    using filters_soundD [OF assms(1), of s False] Cons.prems by auto
  then show ?case
    using Cons by simp
qed simp

text \<open>
  C23. Every strategy of a composite query finds what the primary table holds for the key, and ends
  with an answer, when the filters answer and deny no key that is there.
\<close>

theorem composite_get_value:
  assumes "get (cc_primary_table_id c) k l = Inr v" and "filters_sound c ask k v"
  shows "\<exists>r. composite_get c l get ask k = Inr r \<and> cr_value r = v"
proof (cases "cc_strategy c")
  case BloomFirst
  then show ?thesis
    using bloom_first_value [of "bloom_filter_ids c" ask k v get c l] assms
    by (simp add: composite_get_def get_bloom_first_def filters_sound_def)
next
  case PrimaryFirst
  then show ?thesis
    using post_filter_value [OF assms(2) order_refl, of "[consulted_primary c v]"] assms(1)
    by (cases v) (simp_all add: composite_get_def get_primary_first_def)
next
  case Parallel
  obtain tcs where "ask_all ask k (cc_secondary_tables c) [consulted_primary c v] = Inr tcs"
    "v \<noteq> None \<Longrightarrow> list_all tc_contributed tcs"
    using ask_all_value [OF assms(2) order_refl, of "[consulted_primary c v]"] by (auto simp: consulted_primary_def)
  then show ?thesis
    using assms(1) Parallel by (cases v) (simp_all add: composite_get_def get_parallel_def)
next
  case Sequential
  then show ?thesis
    using alternatives_answer [OF assms(2) order_refl, of "[consulted_primary c v]"] assms(1)
    by (auto simp: composite_get_def get_sequential_def)
qed

theorem composite_get_value_witness:
  "\<exists>r. composite_get (with_bloom_prefilter 2 (composite_new 1 Kind_LsmTree)) 9
      (\<lambda>tb k l. Inr (Some [5])) (\<lambda>tb k. Inr True :: table_error + bool) [1] = Inr r \<and> cr_value r = Some [5]"
  by (rule composite_get_value)
    (simp_all add: filters_sound_def)

end
