(* ===== verification/Conflict.thy ===== *)
theory Conflict
  imports WalRecord TableTypes
begin

text \<open>
  Conflict and deadlock detection (\<open>src/src/txn/conflict.rs\<close>): write locks per table and key, and a
  wait-for graph searched for cycles. The hash map of the graph is an association list in its
  iteration order; the depth-first search threads its visited set, recursion stack and path, and
  takes the number of edges and keys as fuel, which is enough for every graph.
\<close>

section \<open>Write locks\<close>

datatype conflict_type = WriteWrite | ReadWrite | Serialization

text \<open>
  What the last error of a transaction reports: an error of a table, an error of the log with the text
  the caller puts in front of it, or a text alone.
\<close>

datatype failure =
    TableFailed table_error
  | WalFailed string wal_error
  | Message string

datatype txn_error =
    InvalidState txn_id string string
  | WriteWriteConflict table_id bytes txn_id txn_id
  | ReadWriteConflict table_id bytes txn_id txn_id
  | SerializationConflict txn_id string
  | TransactionNotFound txn_id string
  | Deadlock txn_id "txn_id list" string
  | OtherError failure

type_synonym lock_key = "table_id \<times> bytes"

record conflict_detector =
  write_locks :: "lock_key \<rightharpoonup> txn_id"

definition conflict_detector_new :: conflict_detector where
  "conflict_detector_new = \<lparr>write_locks = Map.empty\<rparr>"

definition check_write_conflict ::
    "conflict_detector \<Rightarrow> table_id \<Rightarrow> bytes \<Rightarrow> txn_id \<Rightarrow> txn_error + unit" where
  "check_write_conflict d object_id key t =
     (case write_locks d (object_id, key) of
        Some other \<Rightarrow> if other \<noteq> t then Inl (WriteWriteConflict object_id key other t) else Inr ()
      | None \<Rightarrow> Inr ())"

definition acquire_write_lock ::
    "table_id \<Rightarrow> bytes \<Rightarrow> txn_id \<Rightarrow> conflict_detector \<Rightarrow> conflict_detector" where
  "acquire_write_lock object_id key t d = d\<lparr>write_locks := (write_locks d)((object_id, key) \<mapsto> t)\<rparr>"

definition release_locks :: "txn_id \<Rightarrow> conflict_detector \<Rightarrow> conflict_detector" where
  "release_locks t d =
     d\<lparr>write_locks := (\<lambda>k. case write_locks d k of Some h \<Rightarrow> if h \<noteq> t then Some h else None | None \<Rightarrow> None)\<rparr>"

text \<open>The read set is iterated in the order of its list.\<close>

fun check_read_write_conflicts ::
    "conflict_detector \<Rightarrow> lock_key list \<Rightarrow> txn_id \<Rightarrow> txn_error + unit" where
  "check_read_write_conflicts d [] t = Inr ()"
| "check_read_write_conflicts d ((object_id, key) # ks) t =
     (case write_locks d (object_id, key) of
        Some other \<Rightarrow>
          if other \<noteq> t then Inl (ReadWriteConflict object_id key t other)
          else check_read_write_conflicts d ks t
      | None \<Rightarrow> check_read_write_conflicts d ks t)"

text \<open>How a transaction takes a lock: the check, then the acquisition.\<close>

definition lock_key ::
    "table_id \<Rightarrow> bytes \<Rightarrow> txn_id \<Rightarrow> conflict_detector \<Rightarrow> txn_error + conflict_detector" where
  "lock_key object_id key t d =
     rbind (check_write_conflict d object_id key t) (\<lambda>_. Inr (acquire_write_lock object_id key t d))"

lemma lock_key_Inr_iff:
  "lock_key tb k t d = Inr d' \<longleftrightarrow>
     (write_locks d (tb, k) = None \<or> write_locks d (tb, k) = Some t) \<and> d' = acquire_write_lock tb k t d"
  by (auto simp: lock_key_def check_write_conflict_def split: option.splits)

lemma read_write_conflicts_iff:
  "check_read_write_conflicts d ks t = Inr () \<longleftrightarrow>
     (\<forall>k\<in>set ks. write_locks d k = None \<or> write_locks d k = Some t)"
  by (induction d ks t rule: check_read_write_conflicts.induct) (auto split: option.splits)

section \<open>The wait-for graph\<close>

type_synonym wait_graph = "(txn_id \<times> txn_id list) list"

fun add_wait :: "txn_id \<Rightarrow> txn_id \<Rightarrow> wait_graph \<Rightarrow> wait_graph" where
  "add_wait waiter holder [] = [(waiter, [holder])]"
| "add_wait waiter holder ((w, hs) # g) =
     (if w = waiter then (w, hs @ [holder]) # g else (w, hs) # add_wait waiter holder g)"

definition remove_wait :: "txn_id \<Rightarrow> wait_graph \<Rightarrow> wait_graph" where
  "remove_wait waiter g = filter (\<lambda>(w, hs). w \<noteq> waiter) g"

definition neighbors :: "wait_graph \<Rightarrow> txn_id \<Rightarrow> txn_id list" where
  "neighbors g t = (case map_of g t of Some hs \<Rightarrow> hs | None \<Rightarrow> [])"

type_synonym dfs_state = "txn_id set \<times> txn_id set \<times> txn_id list"

fun dfs_detect_cycle ::
    "nat \<Rightarrow> wait_graph \<Rightarrow> txn_id \<Rightarrow> dfs_state \<Rightarrow> (txn_id list option \<times> dfs_state) option"
and dfs_neighbors ::
    "nat \<Rightarrow> wait_graph \<Rightarrow> txn_id list \<Rightarrow> dfs_state \<Rightarrow> (txn_id list option \<times> dfs_state) option" where
  "dfs_detect_cycle 0 g current st = None"
| "dfs_detect_cycle (Suc n) g current (visited, rec_stack, path) =
     (case dfs_neighbors n g (neighbors g current)
             (insert current visited, insert current rec_stack, path @ [current]) of
        None \<Rightarrow> None
      | Some (Some cyc, st) \<Rightarrow> Some (Some cyc, st)
      | Some (None, (visited', rec_stack', path')) \<Rightarrow>
          Some (None, (visited', rec_stack' - {current}, butlast path')))"
| "dfs_neighbors n g [] st = Some (None, st)"
| "dfs_neighbors n g (x # xs) (visited, rec_stack, path) =
     (if x \<notin> visited then
        (case dfs_detect_cycle n g x (visited, rec_stack, path) of
           None \<Rightarrow> None
         | Some (Some cyc, st) \<Rightarrow> Some (Some cyc, st)
         | Some (None, st) \<Rightarrow> dfs_neighbors n g xs st)
      else if x \<in> rec_stack
      then Some (Some (dropWhile (\<lambda>y. y \<noteq> x) path), (visited, rec_stack, path))
      else dfs_neighbors n g xs (visited, rec_stack, path))"

fun detect_from :: "nat \<Rightarrow> wait_graph \<Rightarrow> txn_id list \<Rightarrow> dfs_state \<Rightarrow> txn_id list option option" where
  "detect_from n g [] st = Some None"
| "detect_from n g (x # xs) (visited, rec_stack, path) =
     (if x \<notin> visited then
        (case dfs_detect_cycle n g x (visited, rec_stack, path) of
           None \<Rightarrow> None
         | Some (Some cyc, st) \<Rightarrow> Some (Some cyc)
         | Some (None, st) \<Rightarrow> detect_from n g xs st)
      else detect_from n g xs (visited, rec_stack, path))"

definition graph_fuel :: "wait_graph \<Rightarrow> nat" where
  "graph_fuel g = length (concat (map (\<lambda>(w, hs). w # hs) g))"

definition detect_cycle :: "wait_graph \<Rightarrow> txn_id list option option" where
  "detect_cycle g = detect_from (graph_fuel g) g (map fst g) ({}, {}, [])"

section \<open>What a cycle is\<close>

definition waits_for :: "wait_graph \<Rightarrow> txn_id \<Rightarrow> txn_id \<Rightarrow> bool" where
  "waits_for g a b \<longleftrightarrow> b \<in> set (neighbors g a)"

fun walk :: "wait_graph \<Rightarrow> txn_id list \<Rightarrow> bool" where
  "walk g [] \<longleftrightarrow> True"
| "walk g [a] \<longleftrightarrow> True"
| "walk g (a # b # p) \<longleftrightarrow> waits_for g a b \<and> walk g (b # p)"

definition is_cycle :: "wait_graph \<Rightarrow> txn_id list \<Rightarrow> bool" where
  "is_cycle g c \<longleftrightarrow> c \<noteq> [] \<and> walk g c \<and> waits_for g (last c) (hd c)"

lemma walk_snoc: "walk g p \<Longrightarrow> (p \<noteq> [] \<longrightarrow> waits_for g (last p) x) \<Longrightarrow> walk g (p @ [x])"
  by (induction g p rule: walk.induct) auto

lemma walk_dropWhile: "walk g p \<Longrightarrow> walk g (dropWhile Q p)"
  by (induction g p rule: walk.induct) auto

lemma walk_reaches: "walk g p \<Longrightarrow> p \<noteq> [] \<Longrightarrow> (waits_for g)\<^sup>*\<^sup>* (hd p) (last p)"
  by (induction g p rule: walk.induct) (auto intro: converse_rtranclp_into_rtranclp)

lemma is_cycle_reaches: "is_cycle g c \<Longrightarrow> (waits_for g)\<^sup>+\<^sup>+ (hd c) (hd c)"
  using walk_reaches by (auto simp: is_cycle_def intro: rtranclp_into_tranclp1)

section \<open>The invariant of the search\<close>

definition finished_ok :: "wait_graph \<Rightarrow> txn_id set \<Rightarrow> bool" where
  "finished_ok g F \<longleftrightarrow> (\<forall>u\<in>F. (\<forall>v. waits_for g u v \<longrightarrow> v \<in> F) \<and> \<not> (waits_for g)\<^sup>+\<^sup>+ u u)"

fun dfs_inv :: "wait_graph \<Rightarrow> dfs_state \<Rightarrow> bool" where
  "dfs_inv g (V, R, P) \<longleftrightarrow> R = set P \<and> R \<subseteq> V \<and> walk g P \<and> finished_ok g (V - R)"

lemma finished_closed:
  assumes "finished_ok g F" and "u \<in> F" and "(waits_for g)\<^sup>*\<^sup>* u v"
  shows "v \<in> F"
  using assms(3,2,1) by (induction rule: rtranclp_induct) (auto simp: finished_ok_def)

lemma finished_insert:
  assumes F: "finished_ok g F" and c: "c \<notin> F" and succs: "\<forall>v. waits_for g c v \<longrightarrow> v \<in> F"
  shows "finished_ok g (insert c F)"
proof -
  have "\<not> (waits_for g)\<^sup>+\<^sup>+ c c"
  proof
    assume "(waits_for g)\<^sup>+\<^sup>+ c c"
    then obtain v where "waits_for g c v" "(waits_for g)\<^sup>*\<^sup>* v c"
      by (auto dest: tranclpD)
    then show False
      using finished_closed [OF F] succs c by blast
  qed
  then show ?thesis
    using F succs by (auto simp: finished_ok_def)
qed

lemma cycle_found:
  assumes "walk g P" and "P \<noteq> []" and "x \<in> set P" and "waits_for g (last P) x"
  shows "is_cycle g (dropWhile (\<lambda>y. y \<noteq> x) P)"
proof -
  let ?c = "dropWhile (\<lambda>y. y \<noteq> x) P"
  have "?c \<noteq> []"
    using assms(3) by (simp add: dropWhile_eq_Nil_conv)
  moreover have "hd ?c = x"
    using hd_dropWhile [OF calculation] by simp
  moreover have "last ?c = last P"
    using calculation(1) by (metis last_append takeWhile_dropWhile_id)
  ultimately show ?thesis
    using walk_dropWhile [OF assms(1)] assms(4) by (simp add: is_cycle_def)
qed

text \<open>
  What a call of the search does from a state with the invariant: it reports a cycle, or it leaves
  stack and path as they were, with everything it was asked about finished.
\<close>

definition dfs_done :: "wait_graph \<Rightarrow> txn_id set \<Rightarrow> dfs_state \<Rightarrow> (txn_id list option \<times> dfs_state) \<Rightarrow> bool" where
  "dfs_done g X st res \<longleftrightarrow>
     (case res of
        (Some cyc, _) \<Rightarrow> is_cycle g cyc
      | (None, (V', R', P')) \<Rightarrow>
          dfs_inv g (V', R', P') \<and> fst st \<subseteq> V' \<and> R' = fst (snd st) \<and> P' = snd (snd st) \<and>
          X \<subseteq> V' - R')"

lemma dfs_correct:
  "dfs_detect_cycle n g c st = Some res \<Longrightarrow> dfs_inv g st \<Longrightarrow> c \<notin> fst st \<Longrightarrow>
     (snd (snd st) \<noteq> [] \<longrightarrow> waits_for g (last (snd (snd st))) c) \<Longrightarrow> dfs_done g {c} st res"
  "dfs_neighbors n g xs st = Some res \<Longrightarrow> dfs_inv g st \<Longrightarrow> snd (snd st) \<noteq> [] \<Longrightarrow>
     (\<forall>x\<in>set xs. waits_for g (last (snd (snd st))) x) \<Longrightarrow> dfs_done g (set xs) st res"
proof (induction n g c st and n g xs st arbitrary: res and res
    rule: dfs_detect_cycle_dfs_neighbors.induct)
  case (2 n g current V R P)
  let ?st = "(insert current V, insert current R, P @ [current])"
  obtain r where r: "dfs_neighbors n g (neighbors g current) ?st = Some r"
    using "2.prems"(1) by (auto split: option.splits)
  have "insert current V - insert current R = V - R"
    using "2.prems"(3) by auto
  then have "dfs_inv g ?st"
    using "2.prems" by (auto intro: walk_snoc)
  then have fin: "dfs_done g (set (neighbors g current)) ?st r"
    by (intro "2.IH" [OF r]) (auto simp: waits_for_def)
  show ?case
  proof (cases "fst r")
    case (Some cyc)
    then show ?thesis
      using fin "2.prems"(1) r by (cases r) (auto simp: dfs_done_def)
  next
    case None
    then obtain V' R' P' where r': "r = (None, (V', R', P'))"
      by (cases r) auto
    have res: "res = (None, (V', R' - {current}, butlast P'))"
      using "2.prems"(1) r r' by simp
    have inv: "finished_ok g (V' - R')" "R' = insert current R" "P' = P @ [current]"
      "insert current V \<subseteq> V'" "set (neighbors g current) \<subseteq> V' - R'" "set P' = R'" "R' \<subseteq> V'"
      using fin r' by (auto simp: dfs_done_def)
    have "current \<notin> R"
      using "2.prems"(2,3) by auto
    then have eq: "V' - R = insert current (V' - R')" "R' - {current} = R" "butlast P' = P"
      using inv(2-4) by auto
    have "finished_ok g (V' - R)"
      unfolding eq(1) using inv(1,2,5) by (intro finished_insert) (auto simp: waits_for_def)
    moreover have "R = set P" "walk g P" "V \<subseteq> V'" "R \<subseteq> V'" "current \<in> V' - R"
      using "2.prems"(2) inv(4) \<open>current \<notin> R\<close> by auto
    ultimately show ?thesis
      unfolding res eq(2,3) dfs_done_def by simp
  qed
next
  case (4 n g x xs V R P)
  show ?case
  proof (cases "x \<in> V")
    case False
    then obtain r where r: "dfs_detect_cycle n g x (V, R, P) = Some r"
      using "4.prems"(1) by (auto split: option.splits)
    have fin: "dfs_done g {x} (V, R, P) r"
      using "4.IH"(1) [OF False r] "4.prems" False by auto
    show ?thesis
    proof (cases "fst r")
      case (Some cyc)
      then show ?thesis
        using fin "4.prems"(1) r False by (cases r) (auto simp: dfs_done_def)
    next
      case None
      then obtain V' where r': "r = (None, (V', R, P))"
        using fin by (cases r) (auto simp: dfs_done_def)
      have inv: "dfs_inv g (V', R, P)" "V \<subseteq> V'" "x \<in> V' - R"
        using fin r' by (auto simp: dfs_done_def)
      have rest: "dfs_neighbors n g xs (V', R, P) = Some res"
        using "4.prems"(1) r r' False by simp
      have "dfs_done g (set xs) (V', R, P) res"
        using "4.IH"(2) [OF False r r' [symmetric] refl rest] inv "4.prems" by auto
      then show ?thesis
        using inv by (auto simp: dfs_done_def split: option.splits)
    qed
  next
    case True
    note V = this
    show ?thesis
    proof (cases "x \<in> R")
      case True
      then show ?thesis
        using "4.prems" V cycle_found [of g P x] by (auto simp: dfs_done_def)
    next
      case False
      then have "dfs_done g (set xs) (V, R, P) res"
        using "4.IH"(3) V "4.prems" by auto
      then show ?thesis
        using V False by (auto simp: dfs_done_def split: option.splits)
    qed
  qed
qed (auto simp: dfs_done_def)

section \<open>The fuel suffices\<close>

definition nodes :: "wait_graph \<Rightarrow> txn_id set" where
  "nodes g = set (concat (map (\<lambda>(w, hs). w # hs) g))"

lemma finite_nodes [simp]: "finite (nodes g)"
  by (simp add: nodes_def)

lemma card_nodes: "card (nodes g) \<le> graph_fuel g"
  unfolding nodes_def graph_fuel_def by (rule card_length)

lemma neighbors_entry: "x \<in> set (neighbors g c) \<Longrightarrow> \<exists>hs. (c, hs) \<in> set g \<and> x \<in> set hs"
  by (cases "map_of g c") (auto simp: neighbors_def dest: map_of_SomeD)

lemma neighbors_nodes: "set (neighbors g c) \<subseteq> nodes g"
  using neighbors_entry by (force simp: nodes_def)

lemma keys_nodes: "set (map fst g) \<subseteq> nodes g"
  by (force simp: nodes_def)

lemma dfs_visited:
  "dfs_detect_cycle n g c st = Some (None, st') \<Longrightarrow> insert c (fst st) \<subseteq> fst st'"
  "dfs_neighbors n g xs st = Some (None, st') \<Longrightarrow> fst st \<subseteq> fst st'"
proof (induction n g c st and n g xs st arbitrary: st' and st'
    rule: dfs_detect_cycle_dfs_neighbors.induct)
  case (2 n g current V R P)
  then show ?case
    by (auto split: option.splits) blast+
next
  case (4 n g x xs V R P)
  show ?case
  proof (cases "x \<in> V")
    case False
    then obtain st1 where st1: "dfs_detect_cycle n g x (V, R, P) = Some (None, st1)"
      "dfs_neighbors n g xs st1 = Some (None, st')"
      using "4.prems" by (auto split: option.splits)
    then show ?thesis
      using "4.IH"(1) [OF False st1(1)] "4.IH"(2) [OF False st1(1) refl refl st1(2)] by auto
  next
    case True
    then have "x \<notin> R \<and> dfs_neighbors n g xs (V, R, P) = Some (None, st')"
      using "4.prems" by (auto split: if_splits)
    then show ?thesis
      using "4.IH"(3) True by auto
  qed
qed auto

lemma dfs_total:
  "card (nodes g - fst st) \<le> n \<Longrightarrow> c \<in> nodes g - fst st \<Longrightarrow> dfs_detect_cycle n g c st \<noteq> None"
  "card (nodes g - fst st) \<le> n \<Longrightarrow> set xs \<subseteq> nodes g \<Longrightarrow> dfs_neighbors n g xs st \<noteq> None"
proof (induction n g c st and n g xs st rule: dfs_detect_cycle_dfs_neighbors.induct)
  case (1 g current st)
  then show ?case
    by (metis card_0_eq empty_iff finite_Diff finite_nodes le_zero_eq)
next
  case (2 n g current V R P)
  have "nodes g - insert current V = (nodes g - V) - {current}"
    by auto
  then have "card (nodes g - insert current V) \<le> n"
    using "2.prems" by (simp add: card_Diff_singleton_if)
  then show ?case
    using "2.IH" neighbors_nodes by (auto split: option.splits)
next
  case (4 n g x xs V R P)
  show ?case
  proof (cases "x \<in> V")
    case False
    then obtain r where r: "dfs_detect_cycle n g x (V, R, P) = Some r"
      using "4.IH"(1) "4.prems" by auto
    obtain cyc st' where rr: "r = (cyc, st')"
      by (cases r)
    show ?thesis
    proof (cases cyc)
      case None
      then have "V \<subseteq> fst st'"
        using dfs_visited(1) [of n g x "(V, R, P)" st'] r rr by auto
      then have "card (nodes g - fst st') \<le> card (nodes g - V)"
        by (intro card_mono) auto
      then have "dfs_neighbors n g xs st' \<noteq> None"
        using "4.IH"(2) [OF False r rr [symmetric] None] "4.prems" by auto
      then show ?thesis
        using r rr None False by simp
    qed (use r rr False in simp)
  next
    case True
    then show ?thesis
      using "4.IH"(3) "4.prems" by auto
  qed
qed simp

lemma detect_from_correct:
  assumes "dfs_inv g (V, {}, [])" and "set xs \<subseteq> nodes g"
  shows "\<exists>r. detect_from (graph_fuel g) g xs (V, {}, []) = Some r \<and>
    (case r of Some cyc \<Rightarrow> is_cycle g cyc
     | None \<Rightarrow> \<exists>V'. finished_ok g V' \<and> V \<union> set xs \<subseteq> V')"
  using assms
proof (induction xs arbitrary: V)
  case Nil
  then show ?case by auto
next
  case (Cons x xs)
  show ?case
  proof (cases "x \<in> V")
    case True
    then have eq: "V \<union> set (x # xs) = V \<union> set xs"
      by auto
    show ?thesis
      unfolding eq using Cons.IH [OF Cons.prems(1)] Cons.prems(2) True by simp
  next
    case False
    have "card (nodes g - V) \<le> graph_fuel g"
      using card_mono [of "nodes g" "nodes g - V"] card_nodes [of g] by simp
    then obtain res where res: "dfs_detect_cycle (graph_fuel g) g x (V, {}, []) = Some res"
      using dfs_total(1) [of g "(V, {}, [])" "graph_fuel g" x] Cons.prems(2) False by auto
    then have fin: "dfs_done g {x} (V, {}, []) res"
      using dfs_correct(1) Cons.prems(1) False by auto
    show ?thesis
    proof (cases "fst res")
      case (Some cyc)
      then show ?thesis
        using fin res False by (cases res) (auto simp: dfs_done_def)
    next
      case None
      then obtain V' where r': "res = (None, (V', {}, []))" "dfs_inv g (V', {}, [])" "insert x V \<subseteq> V'"
        using fin by (cases res) (auto simp: dfs_done_def)
      from Cons.IH [OF r'(2)] Cons.prems(2) obtain r where
        "detect_from (graph_fuel g) g xs (V', {}, []) = Some r"
        "case r of Some cyc \<Rightarrow> is_cycle g cyc | None \<Rightarrow> \<exists>W. finished_ok g W \<and> V' \<union> set xs \<subseteq> W"
        by auto
      then show ?thesis
        using res r' False by (auto split: option.splits)
    qed
  qed
qed

lemma waits_for_key: "waits_for g a b \<Longrightarrow> a \<in> set (map fst g)"
  using neighbors_entry by (force simp: waits_for_def)

section \<open>Properties\<close>

text \<open>
  C30. Deadlock detection terminates on every wait-for graph and is exact: a reported list is a cycle
  of the graph, and when nothing is reported no transaction waits, directly or through others, for
  itself.
\<close>

theorem deadlock_detection_correct:
  "\<exists>r. detect_cycle g = Some r \<and>
    (case r of Some cyc \<Rightarrow> is_cycle g cyc | None \<Rightarrow> \<forall>t. \<not> (waits_for g)\<^sup>+\<^sup>+ t t)"
proof -
  have "dfs_inv g ({}, {}, [])"
    by (simp add: finished_ok_def)
  from detect_from_correct [OF this keys_nodes] obtain r where r: "detect_cycle g = Some r"
    "case r of Some cyc \<Rightarrow> is_cycle g cyc | None \<Rightarrow> \<exists>V. finished_ok g V \<and> set (map fst g) \<subseteq> V"
    unfolding detect_cycle_def Un_empty_left by blast
  have "\<not> (waits_for g)\<^sup>+\<^sup>+ t t" if "finished_ok g V" "set (map fst g) \<subseteq> V" for V t
  proof
    assume cyc: "(waits_for g)\<^sup>+\<^sup>+ t t"
    then have "t \<in> V"
      using waits_for_key that(2) by (metis subsetD tranclpD)
    then show False
      using that(1) cyc by (simp add: finished_ok_def)
  qed
  then show ?thesis
    using r by (auto split: option.splits)
qed

lemma release_locks_iff:
  "write_locks (release_locks t d) x = Some u \<longleftrightarrow> write_locks d x = Some u \<and> u \<noteq> t"
  by (auto simp: release_locks_def split: option.splits)

text \<open>
  Write locks exclude each other: a transaction that obtains a lock found it free or its own;
  then it holds it, no other lock changes, a second transaction is refused while it is held, and
  releasing frees all and only the locks of the releasing transaction.
\<close>

lemma write_lock_exclusion:
  assumes "lock_key tb k t d = Inr d'"
  shows "write_locks d (tb, k) \<in> {None, Some t} \<and> write_locks d' = (write_locks d)((tb, k) \<mapsto> t) \<and>
    (\<forall>u. u \<noteq> t \<longrightarrow> lock_key tb k u d' = Inl (WriteWriteConflict tb k t u)) \<and>
    (\<forall>x u. write_locks (release_locks t d') x = Some u \<longleftrightarrow> write_locks d' x = Some u \<and> u \<noteq> t)"
proof -
  have d': "d' = acquire_write_lock tb k t d" "write_locks d (tb, k) \<in> {None, Some t}"
    using assms by (auto simp: lock_key_Inr_iff)
  have "write_locks d' (tb, k) = Some t"
    by (simp add: d'(1) acquire_write_lock_def)
  then have "\<forall>u. u \<noteq> t \<longrightarrow> lock_key tb k u d' = Inl (WriteWriteConflict tb k t u)"
    by (simp add: lock_key_def check_write_conflict_def)
  then show ?thesis
    using d' by (simp add: acquire_write_lock_def release_locks_iff)
qed

lemma write_lock_exclusion_witness:
  "lock_key 1 [7] 4 (acquire_write_lock 1 [7] 3 conflict_detector_new) = Inl (WriteWriteConflict 1 [7] 3 4)"
proof -
  have "lock_key 1 [7] 3 conflict_detector_new = Inr (acquire_write_lock 1 [7] 3 conflict_detector_new)"
    by (simp add: lock_key_Inr_iff conflict_detector_new_def)
  from write_lock_exclusion [OF this] show ?thesis
    by simp
qed

text \<open>
  The serializable check passes exactly when no key of the read set is write-locked by another
  transaction, whatever the iteration order.
\<close>

lemma read_write_check_exact:
  "check_read_write_conflicts d ks t = Inr () \<longleftrightarrow> {u. \<exists>k\<in>set ks. write_locks d k = Some u} \<subseteq> {t}"
proof -
  have "write_locks d k = None \<or> write_locks d k = Some t \<longleftrightarrow> (\<forall>u. write_locks d k = Some u \<longrightarrow> u = t)" for k
    by (cases "write_locks d k") auto
  then show ?thesis
    unfolding read_write_conflicts_iff by auto
qed

end
