(* ===== verification/MemoryBlob.thy ===== *)
theory MemoryBlob
  imports MemoryBTree
begin

text \<open>
  The in-memory blob table (\<open>src/src/table/blob/memory.rs\<close>). Each key has a chain of versions whose
  values are encoded records of the data and its size; the encoder is the third-party \<open>postcard\<close>,
  a parameter \<open>pc\<close> of the operations. Putting and deleting leave uncommitted versions; committing
  gives every uncommitted version of the table the sequence number, whoever wrote it.
\<close>

section \<open>The table\<close>

record blob_metadata =
  bm_data :: bytes
  bm_size :: u64

record blob_codec =
  pc_to_allocvec :: "blob_metadata \<Rightarrow> bytes option"
  pc_from_bytes :: "bytes \<Rightarrow> blob_metadata option"

text \<open>Decoding gives back what was encoded, and encoding into a growing vector succeeds.\<close>

definition blob_codec_ok :: "blob_codec \<Rightarrow> bool" where
  "blob_codec_ok pc \<longleftrightarrow> (\<forall>m. \<exists>bs. pc_to_allocvec pc m = Some bs \<and> pc_from_bytes pc bs = Some m)"

record memory_blob =
  ml_id :: u64
  ml_name :: string
  ml_metadata :: versioned
  ml_memory_usage :: nat
  ml_memory_budget :: nat
  ml_max_blob_size :: nat
  ml_inline_threshold :: nat

definition blob_with_config :: "u64 \<Rightarrow> string \<Rightarrow> nat \<Rightarrow> nat \<Rightarrow> nat \<Rightarrow> memory_blob" where
  "blob_with_config i n budget mx thr =
     \<lparr>ml_id = i, ml_name = n, ml_metadata = [], ml_memory_usage = 0, ml_memory_budget = budget,
      ml_max_blob_size = mx, ml_inline_threshold = thr\<rparr>"

definition blob_new :: "u64 \<Rightarrow> string \<Rightarrow> memory_blob" where
  "blob_new i n = blob_with_config i n (64 * 1024 * 1024) (16 * 1024 * 1024) (4 * 1024)"

definition blob_update_memory_usage :: "int \<Rightarrow> memory_blob \<Rightarrow> memory_blob" where
  "blob_update_memory_usage delta b = b\<lparr>ml_memory_usage := add_usage delta (ml_memory_usage b)\<rparr>"

text \<open>Two vectors of 24 bytes each.\<close>

definition blob_entry_size :: "bytes \<Rightarrow> bytes \<Rightarrow> nat" where
  "blob_entry_size k v = length k + length v + 24 * 2"

text \<open>Decoding a version.\<close>

definition decode_version :: "blob_codec \<Rightarrow> version_value \<Rightarrow> table_error + bytes" where
  "decode_version pc v =
     (case as_inline v of
        None \<Rightarrow> Inl TableOther
      | Some bs \<Rightarrow> (case pc_from_bytes pc bs of None \<Rightarrow> Inl TableOther | Some m \<Rightarrow> Inr (bm_data m)))"

fun blob_walk :: "blob_codec \<Rightarrow> version_chain \<Rightarrow> table_error + bytes option" where
  "blob_walk pc (VersionChain v t cl p) =
     (if cl \<noteq> None then rbind (decode_version pc v) (\<lambda>d. Inr (Some d))
      else case p of None \<Rightarrow> Inr None | Some c \<Rightarrow> blob_walk pc c)"

definition blob_get :: "blob_codec \<Rightarrow> memory_blob \<Rightarrow> bytes \<Rightarrow> table_error + bytes option" where
  "blob_get pc b k = (case bt_get (ml_metadata b) k of None \<Rightarrow> Inr None | Some c \<Rightarrow> blob_walk pc c)"

definition blob_get_snapshot :: "blob_codec \<Rightarrow> memory_blob \<Rightarrow> bytes \<Rightarrow> snapshot \<Rightarrow> table_error + bytes option" where
  "blob_get_snapshot pc b k s =
     (case bt_get (ml_metadata b) k of
        None \<Rightarrow> Inr None
      | Some c \<Rightarrow>
          (case find_visible_version s c of
             None \<Rightarrow> Inr None
           | Some v \<Rightarrow> rbind (decode_version pc v) (\<lambda>d. Inr (Some d))))"

text \<open>The size of the latest committed version that decodes.\<close>

fun committed_size :: "blob_codec \<Rightarrow> bytes \<Rightarrow> version_chain \<Rightarrow> nat option" where
  "committed_size pc k (VersionChain v t cl p) =
     (case (if cl = None then None else Option.bind (as_inline v) (pc_from_bytes pc)) of
        Some m \<Rightarrow> Some (blob_entry_size k (bm_data m))
      | None \<Rightarrow> (case p of None \<Rightarrow> None | Some c \<Rightarrow> committed_size pc k c))"

text \<open>An \<open>isize\<close> read as \<open>usize\<close>.\<close>

definition as_usize :: "int \<Rightarrow> nat" where
  "as_usize z = nat (z mod 2 ^ 64)"

definition blob_put_tx ::
    "blob_codec \<Rightarrow> bytes \<Rightarrow> bytes \<Rightarrow> txn_id \<Rightarrow> memory_blob \<Rightarrow> table_error + nat \<times> memory_blob" where
  "blob_put_tx pc k v t b =
     (if length v > ml_max_blob_size b then Inl TableOther
      else case pc_to_allocvec pc \<lparr>bm_data = v, bm_size = of_nat (length v)\<rparr> of
        None \<Rightarrow> Inl TableOther
      | Some bs \<Rightarrow>
          let old = bt_get (ml_metadata b) k;
              old_size = (case Option.bind old (committed_size pc k) of None \<Rightarrow> 0 | Some n \<Rightarrow> n);
              delta = int (blob_entry_size k v) - int old_size;
              new_usage = as_usize (int (ml_memory_usage b) + delta) in
          if new_usage > ml_memory_budget b then Inl TableOther
          else Inr (length v + length k + 16,
            blob_update_memory_usage delta (b\<lparr>ml_metadata := push_version k bs t (ml_metadata b)\<rparr>)))"

definition blob_put :: "blob_codec \<Rightarrow> bytes \<Rightarrow> bytes \<Rightarrow> memory_blob \<Rightarrow> table_error + nat \<times> memory_blob" where
  "blob_put pc k v b = blob_put_tx pc k v 0 b"

definition blob_delete_tx ::
    "blob_codec \<Rightarrow> bytes \<Rightarrow> txn_id \<Rightarrow> memory_blob \<Rightarrow> table_error + bool \<times> memory_blob" where
  "blob_delete_tx pc k t b =
     (case bt_get (ml_metadata b) k of
        None \<Rightarrow> Inr (False, b)
      | Some c \<Rightarrow>
          (case pc_to_allocvec pc \<lparr>bm_data = [], bm_size = 0\<rparr> of
             None \<Rightarrow> Inl TableOther
           | Some bs \<Rightarrow>
               Inr (True, blob_update_memory_usage (- int (blob_entry_size k []))
                 (b\<lparr>ml_metadata := bt_insert k (prepend bs t c) (ml_metadata b)\<rparr>))))"

definition blob_delete :: "blob_codec \<Rightarrow> bytes \<Rightarrow> memory_blob \<Rightarrow> table_error + bool \<times> memory_blob" where
  "blob_delete pc k b = blob_delete_tx pc k 0 b"

definition blob_commit_versions :: "txn_id \<Rightarrow> lsn \<Rightarrow> memory_blob \<Rightarrow> memory_blob" where
  "blob_commit_versions t l b = b\<lparr>ml_metadata := bt_map (\<lambda>k. commit_all_uncommitted l) (ml_metadata b)\<rparr>"

definition blob_vacuum :: "lsn \<Rightarrow> memory_blob \<Rightarrow> nat \<times> memory_blob" where
  "blob_vacuum l b = (let (m, n) = vacuum_all l (ml_metadata b) in (n, b\<lparr>ml_metadata := m\<rparr>))"

section \<open>What is read\<close>

lemma blob_update_memory_usage_simps [simp]:
  "ml_metadata (blob_update_memory_usage d b) = ml_metadata b"
  by (simp add: blob_update_memory_usage_def)

lemma blob_walk_versions:
  "blob_walk pc c =
     (case find (\<lambda>(v, t, cl). cl \<noteq> None) (versions c) of
        None \<Rightarrow> Inr None | Some (v, t, cl) \<Rightarrow> rbind (decode_version pc v) (\<lambda>d. Inr (Some d)))"
  by (induction pc c rule: blob_walk.induct) (auto split: option.split)

lemma blob_put_tx_cases:
  assumes "blob_put_tx pc k v t b = Inr (n, b')"
  obtains bs where "pc_to_allocvec pc \<lparr>bm_data = v, bm_size = of_nat (length v)\<rparr> = Some bs"
    and "ml_metadata b' = push_version k bs t (ml_metadata b)"
  using assms by (auto simp: blob_put_tx_def Let_def split: if_splits option.splits)

lemma decode_version_put:
  assumes "blob_codec_ok pc" and "pc_to_allocvec pc \<lparr>bm_data = v, bm_size = s\<rparr> = Some bs"
  shows "decode_version pc (VInline bs) = Inr v"
proof -
  have "pc_from_bytes pc bs = Some \<lparr>bm_data = v, bm_size = s\<rparr>"
    using assms unfolding blob_codec_ok_def by (metis option.inject)
  then show ?thesis
    by (simp add: decode_version_def)
qed

text \<open>The chain of a key after a new version and a commit: the new version is committed on top.\<close>

lemma walk_committed_head:
  assumes "versions c = (VInline bs, t, None) # vs"
  shows "blob_walk pc (commit_all_uncommitted l c) = rbind (decode_version pc (VInline bs)) (\<lambda>d. Inr (Some d))"
  using assms by (simp add: blob_walk_versions versions_commit_all)

lemma push_version_head:
  obtains c vs where "bt_get (push_version k bs t m) k = Some c" "versions c = (VInline bs, t, None) # vs"
    "vs = old_versions m k"
  by (cases "bt_get m k") (auto simp: push_version_def old_versions_def)

lemma push_version_other: "j \<noteq> k \<Longrightarrow> bt_get (push_version k bs t m) j = bt_get m j"
  by (simp add: push_version_def)

lemma blob_get_committed:
  assumes "blob_codec_ok pc" and "blob_put_tx pc k v t b = Inr (n, b')"
  shows "blob_get pc (blob_commit_versions u l b') k = Inr (Some v)"
proof -
  obtain bs where bs: "pc_to_allocvec pc \<lparr>bm_data = v, bm_size = of_nat (length v)\<rparr> = Some bs"
    and m: "ml_metadata b' = push_version k bs t (ml_metadata b)"
    using blob_put_tx_cases [OF assms(2)] .
  obtain c vs where c: "bt_get (push_version k bs t (ml_metadata b)) k = Some c"
    "versions c = (VInline bs, t, None) # vs"
    using push_version_head .
  show ?thesis
    using walk_committed_head [OF c(2)] decode_version_put [OF assms(1) bs]
    by (simp add: blob_get_def blob_commit_versions_def m c(1))
qed

lemma blob_get_uncommitted:
  assumes "blob_put_tx pc k v t b = Inr (n, b')"
  shows "blob_get pc b' j = blob_get pc b j"
proof -
  obtain bs where m: "ml_metadata b' = push_version k bs t (ml_metadata b)"
    using blob_put_tx_cases [OF assms] .
  show ?thesis
  proof (cases "j = k")
    case True
    obtain c where c: "bt_get (push_version k bs t (ml_metadata b)) k = Some c"
      "versions c = (VInline bs, t, None) # old_versions (ml_metadata b) k"
      using push_version_head by metis
    then show ?thesis
      using True by (auto simp: blob_get_def m blob_walk_versions old_versions_def split: option.split)
  qed (simp add: blob_get_def m push_version_other)
qed

text \<open>
  Committing a blob. Until it is committed a put changes no read; then the key reads as the
  value put. The commit is of no particular transaction: calling it for any transaction \<open>u\<close> shows
  what \<open>t\<close> wrote.
\<close>

lemma blob_put_visible:
  assumes "blob_codec_ok pc" and "blob_put_tx pc k v t b = Inr (n, b')"
  shows "blob_get pc b' j = blob_get pc b j \<and>
    blob_get pc (blob_commit_versions u l b') k = Inr (Some v)"
  using blob_get_uncommitted [OF assms(2)] blob_get_committed [OF assms] by simp

definition plain_blob_codec :: blob_codec where
  "plain_blob_codec =
     \<lparr>pc_to_allocvec = \<lambda>m. Some (u64_le (bm_size m) @ bm_data m),
      pc_from_bytes = \<lambda>bs. Some \<lparr>bm_data = drop 8 bs, bm_size = u64_of_le (take 8 bs)\<rparr>\<rparr>"

lemma plain_blob_codec_ok: "blob_codec_ok plain_blob_codec"
  by (simp add: blob_codec_ok_def plain_blob_codec_def)

lemma blob_put_visible_witness:
  "\<exists>b'. blob_put_tx plain_blob_codec [1] [2, 3] 7 (blob_new 1 ''b'') = Inr (19, b') \<and>
    blob_get plain_blob_codec b' [1] = Inr None \<and>
    blob_get plain_blob_codec (blob_commit_versions 9 5 b') [1] = Inr (Some [2, 3])"
proof -
  obtain b' where b': "blob_put_tx plain_blob_codec [1] [2, 3] 7 (blob_new 1 ''b'') = Inr (19, b')"
    by (simp add: blob_put_tx_def blob_new_def blob_with_config_def plain_blob_codec_def blob_entry_size_def
        as_usize_def)
  from blob_put_visible [OF plain_blob_codec_ok this, of "[1]" 9 5] show ?thesis
    using b' by (simp add: blob_get_def blob_new_def blob_with_config_def)
qed

text \<open>
  A deleted blob is not gone: the tombstone is an encoded record with no data, and reading it
  gives an empty blob where a missing key gives none.
\<close>

lemma deleted_blob_reads_empty:
  assumes "blob_codec_ok pc" and "blob_delete_tx pc k t b = Inr (True, b')"
  shows "blob_get pc (blob_commit_versions t l b') k = Inr (Some [])"
proof -
  obtain c bs where c: "bt_get (ml_metadata b) k = Some c"
    and bs: "pc_to_allocvec pc \<lparr>bm_data = [], bm_size = 0\<rparr> = Some bs"
    and b': "bt_get (ml_metadata b') k = Some (prepend bs t c)"
    using assms(2) by (auto simp: blob_delete_tx_def split: option.splits)
  have "blob_walk pc (commit_all_uncommitted l (prepend bs t c)) = Inr (Some [])"
    using walk_committed_head [of "prepend bs t c"] decode_version_put [OF assms(1) bs] by simp
  then show ?thesis
    by (simp add: blob_get_def blob_commit_versions_def b')
qed

lemma deleted_blob_reads_empty_witness:
  "\<exists>b b'. blob_delete_tx plain_blob_codec [1] 8 b = Inr (True, b') \<and>
    blob_get plain_blob_codec (blob_commit_versions 8 6 b') [1] = Inr (Some [])"
proof -
  obtain n b where "blob_put_tx plain_blob_codec [1] [2, 3] 7 (blob_new 1 ''b'') = Inr (n, b)"
    by (simp add: blob_put_tx_def blob_new_def blob_with_config_def plain_blob_codec_def blob_entry_size_def
        as_usize_def)
  then obtain bs where "ml_metadata b = push_version [1] bs 7 (ml_metadata (blob_new 1 ''b''))"
    by (rule blob_put_tx_cases)
  then obtain b' where b': "blob_delete_tx plain_blob_codec [1] 8 b = Inr (True, b')"
    by (simp add: blob_delete_tx_def plain_blob_codec_def push_version_def)
  from deleted_blob_reads_empty [OF plain_blob_codec_ok this] b' show ?thesis
    by blast
qed

end
