(* ===== verification/GraphEdge.thy ===== *)
theory GraphEdge
  imports TableTypes
begin

text \<open>
  Edges of graph tables (\<open>src/src/table/graph/edge.rs\<close>, \<open>config.rs\<close>): adjacency lists, the keys under
  which edges are stored, and the stored form of an edge. A weight, an \<open>f64\<close>, is the word of its bits.
\<close>

section \<open>Configuration\<close>

datatype graph_storage_backend = Backend_Hash | Backend_BTree

record graph_config =
  gc_directed :: bool
  gc_weighted :: bool
  gc_use_memory_index :: bool
  gc_max_edges_per_vertex :: nat
  gc_storage_backend :: graph_storage_backend

definition graph_config_default :: graph_config where
  "graph_config_default =
     \<lparr>gc_directed = True, gc_weighted = False, gc_use_memory_index = True, gc_max_edges_per_vertex = 10000,
      gc_storage_backend = Backend_Hash\<rparr>"

definition graph_config_undirected :: graph_config where
  "graph_config_undirected = graph_config_default\<lparr>gc_directed := False\<rparr>"

definition graph_config_weighted :: graph_config where
  "graph_config_weighted = graph_config_default\<lparr>gc_weighted := True\<rparr>"

definition graph_config_undirected_weighted :: graph_config where
  "graph_config_undirected_weighted = graph_config_default\<lparr>gc_directed := False, gc_weighted := True\<rparr>"

section \<open>Edges and adjacency lists\<close>

record edge =
  e_edge_id :: bytes
  e_source :: bytes
  e_label :: bytes
  e_target :: bytes
  e_weight :: "u64 option"

definition edge_new :: "bytes \<Rightarrow> bytes \<Rightarrow> bytes \<Rightarrow> bytes \<Rightarrow> u64 option \<Rightarrow> edge" where
  "edge_new i s l t w = \<lparr>e_edge_id = i, e_source = s, e_label = l, e_target = t, e_weight = w\<rparr>"

definition edge_unweighted :: "bytes \<Rightarrow> bytes \<Rightarrow> bytes \<Rightarrow> bytes \<Rightarrow> edge" where
  "edge_unweighted i s l t = edge_new i s l t None"

definition edge_weighted :: "bytes \<Rightarrow> bytes \<Rightarrow> bytes \<Rightarrow> bytes \<Rightarrow> u64 \<Rightarrow> edge" where
  "edge_weighted i s l t w = edge_new i s l t (Some w)"

record adjacency_list =
  al_edges_by_label :: "(bytes, edge list) btmap"
  al_all_edges :: "edge list"

definition adjacency_new :: adjacency_list where
  "adjacency_new = \<lparr>al_edges_by_label = [], al_all_edges = []\<rparr>"

definition adjacency_add_edge :: "edge \<Rightarrow> adjacency_list \<Rightarrow> adjacency_list" where
  "adjacency_add_edge e a =
     (let old = (case bt_get (al_edges_by_label a) (e_label e) of None \<Rightarrow> [] | Some es \<Rightarrow> es) in
      \<lparr>al_edges_by_label = bt_insert (e_label e) (old @ [e]) (al_edges_by_label a),
       al_all_edges = al_all_edges a @ [e]\<rparr>)"

fun edge_position :: "bytes \<Rightarrow> edge list \<Rightarrow> nat option" where
  "edge_position i [] = None"
| "edge_position i (e # es) = (if e_edge_id e = i then Some 0 else map_option Suc (edge_position i es))"

definition adjacency_remove_edge :: "bytes \<Rightarrow> adjacency_list \<Rightarrow> bool \<times> adjacency_list" where
  "adjacency_remove_edge i a =
     (case edge_position i (al_all_edges a) of
        None \<Rightarrow> (False, a)
      | Some pos \<Rightarrow>
          let e = al_all_edges a ! pos;
              a = a\<lparr>al_all_edges := take pos (al_all_edges a) @ drop (Suc pos) (al_all_edges a)\<rparr> in
          (True,
           case bt_get (al_edges_by_label a) (e_label e) of
             None \<Rightarrow> a
           | Some es \<Rightarrow>
               let es = filter (\<lambda>x. e_edge_id x \<noteq> i) es in
               if es = [] then a\<lparr>al_edges_by_label := bt_remove (e_label e) (al_edges_by_label a)\<rparr>
               else a\<lparr>al_edges_by_label := bt_insert (e_label e) es (al_edges_by_label a)\<rparr>))"

definition edges_with_label :: "adjacency_list \<Rightarrow> bytes \<Rightarrow> edge list" where
  "edges_with_label a l = (case bt_get (al_edges_by_label a) l of None \<Rightarrow> [] | Some es \<Rightarrow> es)"

definition adjacency_len :: "adjacency_list \<Rightarrow> nat" where
  "adjacency_len a = length (al_all_edges a)"

definition adjacency_labels :: "adjacency_list \<Rightarrow> bytes list" where
  "adjacency_labels a = map fst (al_edges_by_label a)"

text \<open>
  The two views of a list agree: under each label stand the edges of that label in order of
  insertion, no label is left without edges, and ids are distinct.
\<close>

definition labelled :: "bytes \<Rightarrow> edge list \<Rightarrow> edge list option" where
  "labelled l es = (let fs = filter (\<lambda>e. e_label e = l) es in if fs = [] then None else Some fs)"

definition adjacency_inv :: "adjacency_list \<Rightarrow> bool" where
  "adjacency_inv a \<longleftrightarrow> distinct (map e_edge_id (al_all_edges a)) \<and>
     (\<forall>l. bt_get (al_edges_by_label a) l = labelled l (al_all_edges a))"

lemma edge_position_None: "edge_position i es = None \<longleftrightarrow> i \<notin> e_edge_id ` set es"
  by (induction es) auto

lemma edge_position_Some:
  "edge_position i es = Some p \<Longrightarrow> p < length es \<and> e_edge_id (es ! p) = i"
  by (induction es arbitrary: p) (auto split: if_splits)

lemma remove_position:
  assumes "edge_position i es = Some p" and "distinct (map e_edge_id es)"
  shows "take p es @ drop (Suc p) es = filter (\<lambda>e. e_edge_id e \<noteq> i) es"
  using assms
proof (induction es arbitrary: p)
  case (Cons e es)
  show ?case
  proof (cases "e_edge_id e = i")
    case True
    then have "filter (\<lambda>e. e_edge_id e \<noteq> i) es = es"
      using Cons.prems(2) True by (auto simp: filter_id_conv image_iff)
    then show ?thesis
      using True Cons.prems(1) by auto
  next
    case False
    then show ?thesis
      using Cons by auto
  qed
qed simp

lemma adjacency_add_inv:
  assumes "adjacency_inv a" and "e_edge_id e \<notin> e_edge_id ` set (al_all_edges a)"
  shows "adjacency_inv (adjacency_add_edge e a)"
  using assms by (auto simp: adjacency_inv_def adjacency_add_edge_def Let_def labelled_def)

lemma adjacency_remove_edges:
  assumes "adjacency_inv a"
  shows "adjacency_inv (snd (adjacency_remove_edge i a))"
    and "al_all_edges (snd (adjacency_remove_edge i a)) = filter (\<lambda>e. e_edge_id e \<noteq> i) (al_all_edges a)"
    and "fst (adjacency_remove_edge i a) \<longleftrightarrow> i \<in> e_edge_id ` set (al_all_edges a)"
proof -
  let ?es = "al_all_edges a"
  let ?rest = "filter (\<lambda>e. e_edge_id e \<noteq> i) ?es"
  have dist: "distinct (map e_edge_id ?es)"
    and get: "\<And>l. bt_get (al_edges_by_label a) l = labelled l ?es"
    using assms by (auto simp: adjacency_inv_def)
  have "adjacency_inv (snd (adjacency_remove_edge i a)) \<and> al_all_edges (snd (adjacency_remove_edge i a)) = ?rest \<and>
    (fst (adjacency_remove_edge i a) \<longleftrightarrow> i \<in> e_edge_id ` set ?es)"
  proof (cases "edge_position i ?es")
    case None
    then have "i \<notin> e_edge_id ` set ?es"
      by (simp add: edge_position_None)
    then have "?rest = ?es"
      by (auto simp: filter_id_conv)
    with None assms \<open>i \<notin> _\<close> show ?thesis
      by (simp add: adjacency_remove_edge_def)
  next
    case (Some p)
    let ?e = "?es ! p"
    note pos = edge_position_Some [OF Some]
    then have e: "?e \<in> set ?es" "e_edge_id ?e = i"
      by auto
    then have ids: "i \<in> e_edge_id ` set ?es"
      by blast
    have rest: "take p ?es @ drop (Suc p) ?es = ?rest"
      using remove_position [OF Some dist] .
    have bucket: "labelled (e_label ?e) ?es = Some (filter (\<lambda>x. e_label x = e_label ?e) ?es)"
      using e(1) by (auto simp: labelled_def filter_empty_conv)
    have "x = ?e" if "x \<in> set ?es" "e_edge_id x = i" for x
      using that e dist by (metis distinct_map inj_on_def)
    then have "filter (\<lambda>x. e_label x = l) ?rest = filter (\<lambda>x. e_label x = l) ?es" if "l \<noteq> e_label ?e" for l
      using that by (auto intro!: filter_cong)
    then have other: "labelled l ?rest = labelled l ?es" if "l \<noteq> e_label ?e" for l
      using that by (simp add: labelled_def)
    let ?kept = "filter (\<lambda>x. e_edge_id x \<noteq> i) (filter (\<lambda>x. e_label x = e_label ?e) ?es)"
    have kept: "labelled (e_label ?e) ?rest = (if ?kept = [] then None else Some ?kept)"
      by (simp add: labelled_def Let_def conj_commute)
    define a' where "a' = snd (adjacency_remove_edge i a)"
    have a': "al_all_edges a' = ?rest"
      "al_edges_by_label a' = (if ?kept = [] then bt_remove (e_label ?e) (al_edges_by_label a)
        else bt_insert (e_label ?e) ?kept (al_edges_by_label a))"
      unfolding a'_def adjacency_remove_edge_def by (simp_all add: Some rest get bucket Let_def)
    have "bt_get (al_edges_by_label a') l = labelled l ?rest" for l
      using other [of l] kept get [of l] by (auto simp: a'(2))
    moreover have "distinct (map e_edge_id ?rest)"
      using dist by (simp add: distinct_map_filter)
    moreover have "fst (adjacency_remove_edge i a)"
      by (simp add: adjacency_remove_edge_def Some Let_def)
    ultimately show ?thesis
      using ids a' by (simp add: adjacency_inv_def a'_def)
  qed
  then show "adjacency_inv (snd (adjacency_remove_edge i a))"
    "al_all_edges (snd (adjacency_remove_edge i a)) = ?rest"
    "fst (adjacency_remove_edge i a) \<longleftrightarrow> i \<in> e_edge_id ` set ?es"
    by blast+
qed

section \<open>Keys\<close>

datatype graph_key =
    Key_Outgoing bytes bytes bytes
  | Key_Incoming bytes bytes bytes
  | Key_EdgeData bytes

text \<open>The bytes of \<open>out:\<close>, \<open>in:\<close>, \<open>edge:\<close> and of a colon.\<close>

definition tag_out :: bytes where "tag_out = [0x6F, 0x75, 0x74, 0x3A]"
definition tag_in :: bytes where "tag_in = [0x69, 0x6E, 0x3A]"
definition tag_edge :: bytes where "tag_edge = [0x65, 0x64, 0x67, 0x65, 0x3A]"

fun graph_key_encode :: "graph_key \<Rightarrow> bytes" where
  "graph_key_encode (Key_Outgoing s l i) = tag_out @ s @ [0x3A] @ l @ [0x3A] @ i"
| "graph_key_encode (Key_Incoming t l i) = tag_in @ t @ [0x3A] @ l @ [0x3A] @ i"
| "graph_key_encode (Key_EdgeData i) = tag_edge @ i"

definition outgoing_prefix :: "bytes \<Rightarrow> bytes option \<Rightarrow> bytes" where
  "outgoing_prefix s l = tag_out @ s @ (case l of None \<Rightarrow> [] | Some l \<Rightarrow> 0x3A # l)"

definition incoming_prefix :: "bytes \<Rightarrow> bytes option \<Rightarrow> bytes" where
  "incoming_prefix t l = tag_in @ t @ (case l of None \<Rightarrow> [] | Some l \<Rightarrow> 0x3A # l)"

text \<open>Keys of vertices and labels without a colon are told apart; others are not.\<close>

lemma colon_split:
  "(0x3A :: u8) \<notin> set a \<Longrightarrow> 0x3A \<notin> set b \<Longrightarrow> a @ 0x3A # x = b @ 0x3A # y \<longleftrightarrow> a = b \<and> x = y"
proof (induction a arbitrary: b)
  case Nil
  then show ?case
    by (cases b) auto
next
  case (Cons c a)
  then show ?case
    by (cases b) auto
qed

fun colon_free :: "graph_key \<Rightarrow> bool" where
  "colon_free (Key_Outgoing s l i) \<longleftrightarrow> 0x3A \<notin> set s \<and> 0x3A \<notin> set l"
| "colon_free (Key_Incoming t l i) \<longleftrightarrow> 0x3A \<notin> set t \<and> 0x3A \<notin> set l"
| "colon_free (Key_EdgeData i) \<longleftrightarrow> True"

lemma graph_key_inj:
  assumes "colon_free j" and "colon_free k" and "graph_key_encode j = graph_key_encode k"
  shows "j = k"
  using assms
  by (cases j; cases k) (auto simp: tag_out_def tag_in_def tag_edge_def colon_split)

lemma graph_key_collision:
  "graph_key_encode (Key_Outgoing (s @ 0x3A # l) m i) = graph_key_encode (Key_Outgoing s (l @ 0x3A # m) i)"
  by simp

section \<open>Stored edges\<close>

record edge_data =
  ed_source :: bytes
  ed_label :: bytes
  ed_target :: bytes
  ed_weight :: "u64 option"

definition edge_data_encode :: "edge_data \<Rightarrow> bytes" where
  "edge_data_encode e =
     len_prefixed (ed_source e) @ len_prefixed (ed_label e) @ len_prefixed (ed_target e) @
     (case ed_weight e of Some w \<Rightarrow> 1 # u64_le w | None \<Rightarrow> [0])"

text \<open>A length and that many bytes from an offset, with the offset behind them.\<close>

definition read_prefixed :: "bytes \<Rightarrow> nat \<Rightarrow> string + (bytes \<times> nat)" where
  "read_prefixed = read_prefixed_or ''too short for length'' ''too short''"

definition edge_data_decode :: "bytes \<Rightarrow> string + edge_data" where
  "edge_data_decode d =
     rbind (read_prefixed d 0) (\<lambda>(s, offset).
     rbind (read_prefixed d offset) (\<lambda>(l, offset).
     rbind (read_prefixed d offset) (\<lambda>(t, offset).
     if length d < offset + 1 then Inl ''too short for weight flag''
     else let has_weight = d ! offset \<noteq> 0; offset = offset + 1 in
     rbind (if has_weight
            then if length d < offset + 8 then Inl ''too short for weight''
                 else Inr (Some (u64_of_le (bslice offset (offset + 8) d)))
            else Inr None) (\<lambda>w.
     Inr \<lparr>ed_source = s, ed_label = l, ed_target = t, ed_weight = w\<rparr>))))"

lemma read_prefixed_at:
  assumes "length bs < 2 ^ 32" and "offset = length pre"
  shows "read_prefixed (pre @ len_prefixed bs @ rest) offset = Inr (bs, offset + length (len_prefixed bs))"
  using read_prefixed_or_at [OF assms] by (simp add: read_prefixed_def length_len_prefixed add.assoc)

text \<open>
  A stored edge is read back, whatever its fields hold, as long as each is shorter than the
  four bytes of its length can say.
\<close>

lemma edge_data_round_trip:
  assumes "length (ed_source e) < 2 ^ 32" and "length (ed_label e) < 2 ^ 32" and "length (ed_target e) < 2 ^ 32"
  shows "edge_data_decode (edge_data_encode e) = Inr e"
proof -
  let ?s = "len_prefixed (ed_source e)" and ?l = "len_prefixed (ed_label e)" and ?t = "len_prefixed (ed_target e)"
  define w where "w = (case ed_weight e of Some w \<Rightarrow> 1 # u64_le w | None \<Rightarrow> [0])"
  define d where "d = ?s @ ?l @ ?t @ w"
  define n where "n = length (?s @ ?l @ ?t)"
  have s: "read_prefixed d 0 = Inr (ed_source e, length ?s)"
    using read_prefixed_at [OF assms(1), of 0 "[]" "?l @ ?t @ w"] by (simp add: d_def)
  have l: "read_prefixed d (length ?s) = Inr (ed_label e, length (?s @ ?l))"
    using read_prefixed_at [OF assms(2), of "length ?s" ?s "?t @ w"] by (simp add: d_def)
  have t: "read_prefixed d (length ?s + length ?l) = Inr (ed_target e, n)"
    using read_prefixed_at [OF assms(3), of "length (?s @ ?l)" "?s @ ?l" w] by (simp add: d_def n_def)
  have "d = (?s @ ?l @ ?t) @ w"
    by (simp add: d_def)
  then have w: "length d = n + length w" "d ! n = w ! 0" "bslice (n + 1) (n + 1 + 8) d = take 8 (drop 1 w)"
    by (simp_all add: nth_append bslice_def n_def)
  have "edge_data_decode d = Inr e"
    using w by (cases "ed_weight e") (simp_all add: edge_data_decode_def s l t w_def)
  then show ?thesis
    by (simp add: edge_data_encode_def d_def w_def)
qed

lemma edge_data_round_trip_witness:
  "edge_data_decode (edge_data_encode \<lparr>ed_source = [1], ed_label = [], ed_target = [2, 3], ed_weight = Some 7\<rparr>) =
    Inr \<lparr>ed_source = [1], ed_label = [], ed_target = [2, 3], ed_weight = Some 7\<rparr>"
  by (rule edge_data_round_trip) simp_all

end
