(* ===== verification/MemoryGraph.thy ===== *)
theory MemoryGraph
  imports GraphEdge MemoryHash "HOL-Library.Product_Lexorder" "HOL-Library.Multiset"
begin

text \<open>
  The in-memory graph table (\<open>src/src/table/graph/memory.rs\<close>): edges stored under three keys of a hash
  table, an index of version chains for outgoing and incoming edges, and the two searches. Edges are
  kept in the index as JSON; the third-party encoder is the parameter \<open>js\<close>. The order in which a hash
  map is walked is the parameter \<open>ord\<close>, a permutation of its entries.
\<close>

section \<open>The table\<close>

record edge_json =
  js_to_vec :: "edge \<Rightarrow> bytes option"
  js_from_slice :: "bytes \<Rightarrow> edge option"

text \<open>
  Edges whose weight is one of \<open>W\<close> are encoded to nonempty texts, and decoding gives them back. An edge
  without a weight is always among them. JSON has no NaN and no infinities: \<open>serde_json\<close> writes such a
  weight as \<open>null\<close> and reads it back as no weight, and a weight of many digits may come back as its
  neighbour, so \<open>W\<close> is a parameter and not the set of all weights.
\<close>

definition edge_json_ok :: "u64 option set \<Rightarrow> edge_json \<Rightarrow> bool" where
  "edge_json_ok W js \<longleftrightarrow> None \<in> W \<and>
     (\<forall>e. e_weight e \<in> W \<longrightarrow> (\<exists>bs. js_to_vec js e = Some bs \<and> bs \<noteq> [] \<and> js_from_slice js bs = Some e))"

type_synonym edge_slot = "bytes \<times> bytes \<times> bytes"
type_synonym edge_index = "(edge_slot, version_chain) btmap"

record memory_graph =
  mg_table_id :: u64
  mg_name :: string
  mg_config :: graph_config
  mg_storage :: memory_hash
  mg_outgoing :: edge_index
  mg_incoming :: edge_index
  mg_vertices :: "bytes set"
  mg_tx_counter :: u64

definition graph_new :: "u64 \<Rightarrow> string \<Rightarrow> graph_config \<Rightarrow> memory_graph" where
  "graph_new i n cfg =
     \<lparr>mg_table_id = i, mg_name = n, mg_config = cfg, mg_storage = hash_new i (n @ ''_storage''),
      mg_outgoing = [], mg_incoming = [], mg_vertices = {}, mg_tx_counter = 0\<rparr>"

definition next_tx :: "memory_graph \<Rightarrow> (txn_id \<times> lsn) \<times> memory_graph" where
  "next_tx g = (let c = mg_tx_counter g + 1 in ((c, c), g\<lparr>mg_tx_counter := c\<rparr>))"

definition graph_commit_versions :: "txn_id \<Rightarrow> lsn \<Rightarrow> memory_graph \<Rightarrow> memory_graph" where
  "graph_commit_versions t l g =
     (let g = g\<lparr>mg_storage := hash_commit_versions t l (mg_storage g)\<rparr> in
      if gc_use_memory_index (mg_config g)
      then g\<lparr>mg_outgoing := bt_map (\<lambda>k. commit_all_uncommitted l) (mg_outgoing g),
             mg_incoming := bt_map (\<lambda>k. commit_all_uncommitted l) (mg_incoming g)\<rparr>
      else g)"

definition add_vertex :: "bytes \<Rightarrow> memory_graph \<Rightarrow> memory_graph" where
  "add_vertex v g = (if gc_use_memory_index (mg_config g) then g\<lparr>mg_vertices := insert v (mg_vertices g)\<rparr> else g)"

definition graph_vertices :: "memory_graph \<Rightarrow> table_error + bytes set" where
  "graph_vertices g = (if gc_use_memory_index (mg_config g) then Inr (mg_vertices g) else Inl OperationNotSupported)"

section \<open>Changing edges\<close>

definition store_all :: "nat \<Rightarrow> (graph_key \<times> bytes) list \<Rightarrow> txn_id \<Rightarrow> lsn \<Rightarrow> memory_hash \<Rightarrow> memory_hash" where
  "store_all sz kvs t l h = fold (\<lambda>(k, v) h. snd (hash_put sz (graph_key_encode k) v t l h)) kvs h"

text \<open>A new, uncommitted version in a slot of the index.\<close>

definition slot_push :: "edge_slot \<Rightarrow> bytes \<Rightarrow> txn_id \<Rightarrow> edge_index \<Rightarrow> edge_index" where
  "slot_push k v t m = bt_insert k (VersionChain (VInline v) t None (bt_get m k)) m"

definition add_edge_with_weight ::
    "edge_json \<Rightarrow> nat \<Rightarrow> bytes \<Rightarrow> bytes \<Rightarrow> bytes \<Rightarrow> bytes \<Rightarrow> u64 option \<Rightarrow> txn_id \<Rightarrow> lsn \<Rightarrow> memory_graph \<Rightarrow>
     (table_error + unit) \<times> memory_graph" where
  "add_edge_with_weight js sz s lb d i w t l g =
     (let dt = edge_data_encode \<lparr>ed_source = s, ed_label = lb, ed_target = d, ed_weight = w\<rparr>;
          directed = gc_directed (mg_config g);
          g = g\<lparr>mg_storage := store_all sz
            ([(Key_EdgeData i, dt), (Key_Outgoing s lb i, d), (Key_Incoming d lb i, s)] @
             (if directed then [] else [(Key_Outgoing d lb i, s), (Key_Incoming s lb i, d)])) t l (mg_storage g)\<rparr> in
      if \<not> gc_use_memory_index (mg_config g) then (Inr (), g)
      else let g = g\<lparr>mg_vertices := insert d (insert s (mg_vertices g))\<rparr> in
      case js_to_vec js (edge_new i s lb d w) of
        None \<Rightarrow> (Inl TableOther, g)
      | Some bs \<Rightarrow>
          let g = g\<lparr>mg_outgoing := slot_push (s, lb, i) bs t (mg_outgoing g),
                    mg_incoming := slot_push (d, lb, i) bs t (mg_incoming g)\<rparr> in
          if directed then (Inr (), g)
          else case js_to_vec js (edge_unweighted i d lb s) of
            None \<Rightarrow> (Inl TableOther, g)
          | Some bs \<Rightarrow>
              (Inr (), g\<lparr>mg_outgoing := slot_push (d, lb, i) bs t (mg_outgoing g),
                         mg_incoming := slot_push (s, lb, i) bs t (mg_incoming g)\<rparr>))"

definition graph_add_edge ::
    "edge_json \<Rightarrow> nat \<Rightarrow> bytes \<Rightarrow> bytes \<Rightarrow> bytes \<Rightarrow> bytes \<Rightarrow> txn_id \<Rightarrow> lsn \<Rightarrow> memory_graph \<Rightarrow>
     (table_error + unit) \<times> memory_graph" where
  "graph_add_edge js sz s lb d i t l g = add_edge_with_weight js sz s lb d i None t l g"

text \<open>A tombstone in a slot that is there.\<close>

definition slot_bury :: "edge_slot \<Rightarrow> txn_id \<Rightarrow> edge_index \<Rightarrow> edge_index" where
  "slot_bury k t m =
     (case bt_get m k of None \<Rightarrow> m | Some c \<Rightarrow> bt_insert k (VersionChain (VInline []) t None (Some c)) m)"

definition graph_remove_edge ::
    "nat \<Rightarrow> bytes \<Rightarrow> bytes \<Rightarrow> bytes \<Rightarrow> bytes \<Rightarrow> txn_id \<Rightarrow> lsn \<Rightarrow> memory_graph \<Rightarrow> memory_graph" where
  "graph_remove_edge sz s lb d i t l g =
     (let directed = gc_directed (mg_config g);
          g = g\<lparr>mg_storage := store_all sz
            ([(Key_EdgeData i, []), (Key_Outgoing s lb i, []), (Key_Incoming d lb i, [])] @
             (if directed then [] else [(Key_Outgoing d lb i, []), (Key_Incoming s lb i, [])])) t l (mg_storage g)\<rparr> in
      if \<not> gc_use_memory_index (mg_config g) then g
      else let g = g\<lparr>mg_outgoing := slot_bury (s, lb, i) t (mg_outgoing g),
                     mg_incoming := slot_bury (d, lb, i) t (mg_incoming g)\<rparr> in
      if directed then g
      else g\<lparr>mg_outgoing := slot_bury (d, lb, i) t (mg_outgoing g),
             mg_incoming := slot_bury (s, lb, i) t (mg_incoming g)\<rparr>)"

section \<open>Reading edges\<close>

text \<open>The edge a chain shows to a reader of everything committed.\<close>

definition visible_edge :: "edge_json \<Rightarrow> version_chain \<Rightarrow> edge option" where
  "visible_edge js c =
     (case find_visible_version (at_lsn (- 1)) c of
        None \<Rightarrow> None
      | Some v \<Rightarrow> if value_is_empty v then None else Option.bind (as_inline v) (js_from_slice js))"

type_synonym walk_order = "(edge_slot \<times> version_chain) list \<Rightarrow> (edge_slot \<times> version_chain) list"

definition index_edges :: "edge_json \<Rightarrow> walk_order \<Rightarrow> edge_index \<Rightarrow> bytes \<Rightarrow> bytes option \<Rightarrow> edge list" where
  "index_edges js ord m v lb =
     List.map_filter (\<lambda>((u, l, i), c).
       if u = v \<and> (case lb of None \<Rightarrow> True | Some f \<Rightarrow> l = f) then visible_edge js c else None) (ord m)"

record edge_cursor =
  ec_edges :: "edge list"
  ec_position :: nat

definition edge_cursor_new :: "edge list \<Rightarrow> edge_cursor" where
  "edge_cursor_new es = \<lparr>ec_edges = es, ec_position = 0\<rparr>"

definition graph_outgoing :: "edge_json \<Rightarrow> walk_order \<Rightarrow> memory_graph \<Rightarrow> bytes \<Rightarrow> bytes option \<Rightarrow> edge_cursor" where
  "graph_outgoing js ord g v lb =
     edge_cursor_new (if gc_use_memory_index (mg_config g) then index_edges js ord (mg_outgoing g) v lb else [])"

definition graph_incoming :: "edge_json \<Rightarrow> walk_order \<Rightarrow> memory_graph \<Rightarrow> bytes \<Rightarrow> bytes option \<Rightarrow> edge_cursor" where
  "graph_incoming js ord g v lb =
     edge_cursor_new (if gc_use_memory_index (mg_config g) then index_edges js ord (mg_incoming g) v lb else [])"

text \<open>The reference a cursor gives leaves out the weight.\<close>

record edge_ref =
  er_edge_id :: bytes
  er_source :: bytes
  er_label :: bytes
  er_target :: bytes

definition edge_ref_of :: "edge \<Rightarrow> edge_ref" where
  "edge_ref_of e = \<lparr>er_edge_id = e_edge_id e, er_source = e_source e, er_label = e_label e, er_target = e_target e\<rparr>"

definition edge_cursor_valid :: "edge_cursor \<Rightarrow> bool" where
  "edge_cursor_valid c \<longleftrightarrow> ec_position c < length (ec_edges c)"

definition edge_cursor_current :: "edge_cursor \<Rightarrow> edge_ref option" where
  "edge_cursor_current c = (if edge_cursor_valid c then Some (edge_ref_of (ec_edges c ! ec_position c)) else None)"

definition edge_cursor_next :: "edge_cursor \<Rightarrow> edge_cursor" where
  "edge_cursor_next c = (if edge_cursor_valid c then c\<lparr>ec_position := ec_position c + 1\<rparr> else c)"

function collect_all :: "edge_cursor \<Rightarrow> edge_ref list \<Rightarrow> edge_ref list" where
  "collect_all c acc =
     (if edge_cursor_valid c
      then collect_all (edge_cursor_next c)
             (case edge_cursor_current c of Some r \<Rightarrow> acc @ [r] | None \<Rightarrow> acc)
      else acc)"
  by pat_completeness auto
termination
  by (relation "measure (\<lambda>(c, acc). length (ec_edges c) - ec_position c)")
    (auto simp: edge_cursor_next_def edge_cursor_valid_def)

declare collect_all.simps [simp del]

lemma collect_all_eq: "collect_all c acc = acc @ map edge_ref_of (drop (ec_position c) (ec_edges c))"
proof (induction c acc rule: collect_all.induct)
  case (1 c acc)
  show ?case
  proof (cases "edge_cursor_valid c")
    case True
    then have p: "ec_position c < length (ec_edges c)"
      by (simp add: edge_cursor_valid_def)
    have "collect_all c acc = collect_all (edge_cursor_next c) (acc @ [edge_ref_of (ec_edges c ! ec_position c)])"
      using True by (subst collect_all.simps) (simp add: edge_cursor_current_def)
    then show ?thesis
      using 1 [OF True] True Cons_nth_drop_Suc [OF p]
      by (simp add: edge_cursor_next_def edge_cursor_current_def) (metis list.simps(9))
  next
    case False
    then show ?thesis
      by (subst collect_all.simps) (simp add: edge_cursor_valid_def)
  qed
qed

definition outgoing_refs :: "edge_json \<Rightarrow> walk_order \<Rightarrow> memory_graph \<Rightarrow> bytes \<Rightarrow> edge_ref list" where
  "outgoing_refs js ord g v = collect_all (graph_outgoing js ord g v None) []"

definition graph_neighbors :: "edge_json \<Rightarrow> walk_order \<Rightarrow> memory_graph \<Rightarrow> bytes \<Rightarrow> bytes list" where
  "graph_neighbors js ord g v = map er_target (outgoing_refs js ord g v)"

definition has_edge :: "edge_json \<Rightarrow> walk_order \<Rightarrow> memory_graph \<Rightarrow> bytes \<Rightarrow> bytes \<Rightarrow> bytes option \<Rightarrow> bool" where
  "has_edge js ord g s d lb = list_ex (\<lambda>r. er_target r = d) (collect_all (graph_outgoing js ord g s lb) [])"

fun vacuum_index :: "lsn \<Rightarrow> edge_index \<Rightarrow> edge_index \<times> nat" where
  "vacuum_index l [] = ([], 0)"
| "vacuum_index l ((k, c) # m) =
     (let (c', removed, freed) = vacuum l c; (m', n) = vacuum_index l m in ((k, c') # m', removed + n))"

definition graph_vacuum :: "lsn \<Rightarrow> memory_graph \<Rightarrow> nat \<times> memory_graph" where
  "graph_vacuum l g =
     (let (n, h) = hash_vacuum l (mg_storage g); g = g\<lparr>mg_storage := h\<rparr> in
      if gc_use_memory_index (mg_config g)
      then let (out, a) = vacuum_index l (mg_outgoing g); (inc, b) = vacuum_index l (mg_incoming g) in
           (n + a + b, g\<lparr>mg_outgoing := out, mg_incoming := inc\<rparr>)
      else (n, g))"

section \<open>Searches\<close>

text \<open>
  A visitor is called with each vertex and answers whether to go on; \<open>'v\<close> is what it keeps. The loop
  of \<open>bfs\<close> takes fuel, one for each vertex it takes from the queue.
\<close>

definition bfs_edge :: "bytes list \<times> bytes set \<Rightarrow> bytes \<Rightarrow> bytes list \<times> bytes set" where
  "bfs_edge = (\<lambda>(queue, visited) d. if d \<in> visited then (queue, visited) else (queue @ [d], insert d visited))"

fun bfs_loop ::
    "nat \<Rightarrow> (bytes \<Rightarrow> bytes list) \<Rightarrow> (bytes \<Rightarrow> 'v \<Rightarrow> bool \<times> 'v) \<Rightarrow> bytes list \<Rightarrow> bytes set \<Rightarrow> 'v \<Rightarrow> 'v option" where
  "bfs_loop fuel nb visit [] visited st = Some st"
| "bfs_loop 0 nb visit (v # queue) visited st = None"
| "bfs_loop (Suc fuel) nb visit (v # queue) visited st =
     (let (go, st) = visit v st in
      if \<not> go then Some st
      else let (queue, visited) = foldl bfs_edge (queue, visited) (nb v) in
           bfs_loop fuel nb visit queue visited st)"

definition bfs ::
    "nat \<Rightarrow> edge_json \<Rightarrow> walk_order \<Rightarrow> memory_graph \<Rightarrow> bytes \<Rightarrow> (bytes \<Rightarrow> 'v \<Rightarrow> bool \<times> 'v) \<Rightarrow> 'v \<Rightarrow> 'v option" where
  "bfs fuel js ord g start visit st = bfs_loop fuel (graph_neighbors js ord g) visit [start] {start} st"

text \<open>\<open>dfs_recursive\<close>; the fuel bounds the depth of the calls.\<close>

fun dfs_recursive ::
    "nat \<Rightarrow> (bytes \<Rightarrow> bytes list) \<Rightarrow> (bytes \<Rightarrow> 'v \<Rightarrow> bool \<times> 'v) \<Rightarrow> bytes \<Rightarrow> bytes set \<times> 'v \<Rightarrow> (bytes set \<times> 'v) option"
  and dfs_edges ::
    "nat \<Rightarrow> (bytes \<Rightarrow> bytes list) \<Rightarrow> (bytes \<Rightarrow> 'v \<Rightarrow> bool \<times> 'v) \<Rightarrow> bytes list \<Rightarrow> bytes set \<times> 'v \<Rightarrow> (bytes set \<times> 'v) option"
where
  "dfs_recursive 0 nb visit v st = None"
| "dfs_recursive (Suc fuel) nb visit v (visited, st) =
     (if v \<in> visited then Some (visited, st)
      else let (go, st) = visit v st in
           if \<not> go then Some (insert v visited, st)
           else dfs_edges fuel nb visit (nb v) (insert v visited, st))"
| "dfs_edges fuel nb visit [] st = Some st"
| "dfs_edges fuel nb visit (d # ds) st =
     (case dfs_recursive fuel nb visit d st of
        None \<Rightarrow> None
      | Some st \<Rightarrow> dfs_edges fuel nb visit ds st)"

definition dfs ::
    "nat \<Rightarrow> edge_json \<Rightarrow> walk_order \<Rightarrow> memory_graph \<Rightarrow> bytes \<Rightarrow> (bytes \<Rightarrow> 'v \<Rightarrow> bool \<times> 'v) \<Rightarrow> 'v \<Rightarrow> 'v option" where
  "dfs fuel js ord g start visit st =
     map_option snd (dfs_recursive fuel (graph_neighbors js ord g) visit start ({}, st))"

section \<open>Searches visit what is reachable\<close>

text \<open>
  What the searches rely on: a vertex leads to finitely many others. The visitor that goes on and
  notes each vertex shows which vertices a search visits, and in which order.
\<close>

definition note_vertex :: "bytes \<Rightarrow> bytes list \<Rightarrow> bool \<times> bytes list" where
  "note_vertex v vs = (True, vs @ [v])"

locale finite_graph =
  fixes nb :: "bytes \<Rightarrow> bytes list" and U :: "bytes set"
  assumes finite_U: "finite U" and targets: "set (nb v) \<subseteq> U"
begin

definition reach :: "bytes \<Rightarrow> bytes set" where
  "reach v = {u. (\<lambda>a b. b \<in> set (nb a))\<^sup>*\<^sup>* v u}"

lemma reach_refl [simp]: "v \<in> reach v"
  by (simp add: reach_def)

lemma reach_step: "u \<in> reach v \<Longrightarrow> w \<in> set (nb u) \<Longrightarrow> w \<in> reach v"
  by (auto simp: reach_def intro: rtranclp.rtrancl_into_rtrancl)

lemma reach_trans: "u \<in> reach v \<Longrightarrow> reach u \<subseteq> reach v"
  by (auto simp: reach_def)

lemma reach_closed:
  assumes "v \<in> V" and "\<And>x. x \<in> V \<Longrightarrow> set (nb x) \<subseteq> V"
  shows "reach v \<subseteq> V"
proof
  fix u
  assume "u \<in> reach v"
  then have "(\<lambda>a b. b \<in> set (nb a))\<^sup>*\<^sup>* v u"
    by (simp add: reach_def)
  then show "u \<in> V"
    by (induction rule: rtranclp_induct) (use assms in auto)
qed

lemma bfs_edges:
  "\<exists>new. foldl bfs_edge (queue, V) ds = (queue @ new, V \<union> set ds) \<and> distinct new \<and> set new = set ds - V"
proof (induction ds rule: rev_induct)
  case (snoc d ds)
  then obtain new where "foldl bfs_edge (queue, V) ds = (queue @ new, V \<union> set ds)" "distinct new" "set new = set ds - V"
    by blast
  then show ?case
    by (cases "d \<in> V \<union> set ds") (auto simp: bfs_edge_def insert_absorb intro!: exI [of _ "new @ [d]"] exI [of _ new])
qed simp

lemma bfs_noted:
  assumes "distinct (xs @ queue)" and "\<forall>x\<in>set xs. set (nb x) \<subseteq> set (xs @ queue)"
    and "set (xs @ queue) \<subseteq> reach start" and "start \<in> set (xs @ queue)"
    and "card (U - set (xs @ queue)) + length queue \<le> fuel"
  shows "\<exists>ys. bfs_loop fuel nb note_vertex queue (set (xs @ queue)) xs = Some ys \<and> distinct ys \<and> set ys = reach start"
  using assms
proof (induction fuel arbitrary: queue xs)
  case 0
  then show ?case
    using reach_closed [of start "set xs"] by auto
next
  case (Suc fuel)
  show ?case
  proof (cases queue)
    case Nil
    then show ?thesis
      using Suc.prems reach_closed [of start "set xs"] by auto
  next
    case (Cons v q)
    let ?V = "set (xs @ queue)"
    obtain new where new: "foldl bfs_edge (q, ?V) (nb v) = (q @ new, ?V \<union> set (nb v))" "distinct new"
      "set new = set (nb v) - ?V"
      using bfs_edges by blast
    let ?xs = "xs @ [v]" and ?q = "q @ new"
    have V: "set (?xs @ ?q) = ?V \<union> set (nb v)"
      using new(3) Cons by auto
    have "v \<in> reach start"
      using Suc.prems(3) Cons by auto
    then have sub: "set (?xs @ ?q) \<subseteq> reach start"
      using Suc.prems(3) reach_step unfolding V by blast
    have "length new = card (set (nb v) - ?V)"
      using distinct_card [OF new(2)] new(3) by simp
    moreover have "card (U - ?V) = card (U - (?V \<union> set (nb v))) + card (set (nb v) - ?V)"
    proof -
      have "U - ?V = (U - (?V \<union> set (nb v))) \<union> (set (nb v) - ?V)"
        using targets [of v] by blast
      moreover have "(U - (?V \<union> set (nb v))) \<inter> (set (nb v) - ?V) = {}"
        by blast
      ultimately show ?thesis
        using finite_U card_Un_disjoint [of "U - (?V \<union> set (nb v))" "set (nb v) - ?V"] by simp
    qed
    ultimately have fuel: "card (U - set (?xs @ ?q)) + length ?q \<le> fuel"
      using Suc.prems(5) Cons unfolding V by simp
    have "distinct (?xs @ ?q)" "\<forall>x\<in>set ?xs. set (nb x) \<subseteq> set (?xs @ ?q)" "start \<in> set (?xs @ ?q)"
      using Suc.prems(1,2,4) new(2,3) Cons unfolding V by auto
    from Suc.IH [OF this(1,2) sub this(3) fuel] show ?thesis
      using new(1) Cons unfolding V by (simp add: note_vertex_def)
  qed
qed

lemma bfs_exact:
  assumes "Suc (card U) \<le> fuel"
  shows "\<exists>vs. bfs_loop fuel nb note_vertex [start] {start} [] = Some vs \<and> distinct vs \<and> set vs = reach start"
proof -
  have "card (U - {start}) \<le> card U"
    using finite_U by (simp add: card_Diff1_le)
  then show ?thesis
    using bfs_noted [of "[]" "[start]" start fuel] assms by simp
qed

text \<open>A call of the recursive search adds vertices that are reachable, each once, with all they lead to.\<close>

definition dfs_adds :: "bytes set \<Rightarrow> bytes set \<Rightarrow> bytes list \<Rightarrow> (bytes set \<times> bytes list) option \<Rightarrow> bool" where
  "dfs_adds R V vs r \<longleftrightarrow> (\<exists>new V'. r = Some (V', vs @ new) \<and> distinct new \<and> set new = V' - V \<and> V \<subseteq> V' \<and>
     V' - V \<subseteq> R \<and> (\<forall>x\<in>V' - V. set (nb x) \<subseteq> V'))"

lemma dfs_adds_mono: "dfs_adds R V vs r \<Longrightarrow> R \<subseteq> R' \<Longrightarrow> dfs_adds R' V vs r"
  unfolding dfs_adds_def by blast

lemma card_less: "x \<in> U \<Longrightarrow> x \<notin> V \<Longrightarrow> insert x V \<subseteq> V' \<Longrightarrow> card (U - V') < card (U - V)"
  using finite_U by (intro psubset_card_mono) auto

lemma dfs_noted:
  "v \<in> U \<Longrightarrow> card (U - V) < fuel \<Longrightarrow>
     dfs_adds (reach v) V vs (dfs_recursive fuel nb note_vertex v (V, vs)) \<and>
     (\<forall>V' ws. dfs_recursive fuel nb note_vertex v (V, vs) = Some (V', ws) \<longrightarrow> v \<in> V')"
  "set ds \<subseteq> U \<Longrightarrow> card (U - V) < fuel \<Longrightarrow>
     dfs_adds (\<Union>d\<in>set ds. reach d) V vs (dfs_edges fuel nb note_vertex ds (V, vs)) \<and>
     (\<forall>V' ws. dfs_edges fuel nb note_vertex ds (V, vs) = Some (V', ws) \<longrightarrow> set ds \<subseteq> V')"
proof (induction fuel arbitrary: v ds V vs)
  case 0
  {
    case 1
    then show ?case by simp
  next
    case 2
    then show ?case by simp
  }
next
  case (Suc fuel)
  note rec = Suc.IH(1) and edges = Suc.IH(2)
  have step: "dfs_adds (reach v) V vs (dfs_recursive (Suc fuel) nb note_vertex v (V, vs)) \<and>
     (\<forall>V' ws. dfs_recursive (Suc fuel) nb note_vertex v (V, vs) = Some (V', ws) \<longrightarrow> v \<in> V')"
    if "v \<in> U" "card (U - V) < Suc fuel" for v V vs
  proof (cases "v \<in> V")
    case True
    then show ?thesis
      by (simp add: dfs_adds_def)
  next
    case False
    have "card (U - insert v V) < fuel"
      using card_less [OF that(1) False order_refl] that(2) by simp
    from edges [OF targets this, of v "vs @ [v]"] obtain new V' where
      r: "dfs_edges fuel nb note_vertex (nb v) (insert v V, vs @ [v]) = Some (V', vs @ v # new)"
      and new: "distinct new" "set new = V' - insert v V" "insert v V \<subseteq> V'" "V' - insert v V \<subseteq> (\<Union>d\<in>set (nb v). reach d)"
        "\<forall>x\<in>V' - insert v V. set (nb x) \<subseteq> V'" "set (nb v) \<subseteq> V'"
      by (auto simp: dfs_adds_def)
    have "(\<Union>d\<in>set (nb v). reach d) \<subseteq> reach v"
      using reach_trans reach_step [OF reach_refl] by blast
    then have "V' - V \<subseteq> reach v"
      using new(4) reach_refl [of v] by blast
    then have "dfs_adds (reach v) V vs (Some (V', vs @ v # new))"
      using new False unfolding dfs_adds_def by (intro exI [of _ "v # new"] exI [of _ V']) auto
    then show ?thesis
      using False r new(3) by (simp add: note_vertex_def)
  qed
  {
    case 1
    then show ?case
      using step by blast
  next
    case 2
    then show ?case
    proof (induction ds arbitrary: V vs)
      case Nil
      then show ?case
        by (simp add: dfs_adds_def)
    next
      case (Cons d ds)
      obtain n1 V1 where r1: "dfs_recursive (Suc fuel) nb note_vertex d (V, vs) = Some (V1, vs @ n1)"
        and n1: "distinct n1" "set n1 = V1 - V" "V \<subseteq> V1" "V1 - V \<subseteq> reach d" "\<forall>x\<in>V1 - V. set (nb x) \<subseteq> V1" "d \<in> V1"
      proof -
        have d: "d \<in> U"
          using Cons.prems(1) by simp
        obtain n1 V1 where "dfs_recursive (Suc fuel) nb note_vertex d (V, vs) = Some (V1, vs @ n1)"
          "distinct n1" "set n1 = V1 - V" "V \<subseteq> V1" "V1 - V \<subseteq> reach d" "\<forall>x\<in>V1 - V. set (nb x) \<subseteq> V1"
          using conjunct1 [OF step [OF d Cons.prems(2), of vs]] unfolding dfs_adds_def by blast
        then show ?thesis
          using conjunct2 [OF step [OF d Cons.prems(2), of vs]] that by blast
      qed
      have "card (U - V1) < Suc fuel"
        using card_mono [of "U - V" "U - V1"] finite_U n1(3) Cons.prems(2) by (metis Diff_mono finite_Diff le_less_trans order_refl)
      obtain n2 V2 where r2: "dfs_edges (Suc fuel) nb note_vertex ds (V1, vs @ n1) = Some (V2, (vs @ n1) @ n2)"
        and n2: "distinct n2" "set n2 = V2 - V1" "V1 \<subseteq> V2" "V2 - V1 \<subseteq> (\<Union>d\<in>set ds. reach d)"
          "\<forall>x\<in>V2 - V1. set (nb x) \<subseteq> V2" "set ds \<subseteq> V2"
      proof -
        have ds: "set ds \<subseteq> U"
          using Cons.prems(1) by simp
        note adds = Cons.IH [OF ds \<open>card (U - V1) < Suc fuel\<close>, of "vs @ n1"]
        obtain n2 V2 where "dfs_edges (Suc fuel) nb note_vertex ds (V1, vs @ n1) = Some (V2, (vs @ n1) @ n2)"
          "distinct n2" "set n2 = V2 - V1" "V1 \<subseteq> V2" "V2 - V1 \<subseteq> (\<Union>d\<in>set ds. reach d)"
          "\<forall>x\<in>V2 - V1. set (nb x) \<subseteq> V2"
          using conjunct1 [OF adds] unfolding dfs_adds_def by blast
        then show ?thesis
          using conjunct2 [OF adds] that by blast
      qed
      have "set (n1 @ n2) = V2 - V" "distinct (n1 @ n2)" "V2 - V \<subseteq> (\<Union>x\<in>set (d # ds). reach x)"
        using n1 n2 by auto
      moreover have "\<forall>x\<in>V2 - V. set (nb x) \<subseteq> V2"
        using n1(5) n2(3,5) by blast
      ultimately have "dfs_adds (\<Union>x\<in>set (d # ds). reach x) V vs (Some (V2, vs @ (n1 @ n2)))"
        using n1(3) n2(3) unfolding dfs_adds_def by (intro exI [of _ "n1 @ n2"] exI [of _ V2]) simp
      moreover have "dfs_edges (Suc fuel) nb note_vertex (d # ds) (V, vs) = Some (V2, vs @ (n1 @ n2))"
        unfolding dfs_edges.simps r1 option.case r2 by simp
      moreover have "set (d # ds) \<subseteq> V2"
        using n1(6) n2(3,6) by auto
      ultimately show ?case
        by (metis option.inject prod.inject)
    qed
  }
qed

lemma dfs_exact:
  assumes "start \<in> U" and "card U < fuel"
  shows "\<exists>vs. map_option snd (dfs_recursive fuel nb note_vertex start ({}, [])) = Some vs \<and> distinct vs \<and> set vs = reach start"
proof -
  obtain V vs where r: "dfs_recursive fuel nb note_vertex start ({}, []) = Some (V, vs)"
    and V: "distinct vs" "set vs = V" "V \<subseteq> reach start" "\<forall>x\<in>V. set (nb x) \<subseteq> V" "start \<in> V"
    using dfs_noted(1) [OF assms(1), of "{}" fuel "[]"] assms(2) by (auto simp: dfs_adds_def)
  have "reach start \<subseteq> V"
    using V(4) by (intro reach_closed [OF V(5)]) blast
  then show ?thesis
    using r V by auto
qed

end


section \<open>Searches of a graph table\<close>

definition graph_targets :: "edge_json \<Rightarrow> walk_order \<Rightarrow> memory_graph \<Rightarrow> bytes set" where
  "graph_targets js ord g = e_target ` {e. \<exists>x\<in>set (ord (mg_outgoing g)). visible_edge js (snd x) = Some e}"

lemma visible_edges_image:
  "{e. \<exists>x\<in>set xs. visible_edge js (snd x) = Some e} \<subseteq> (\<lambda>x. the (visible_edge js (snd x))) ` set xs"
  by force

lemma set_index_edges:
  "set (index_edges js ord m v lb) =
     {e. \<exists>l i c. ((v, l, i), c) \<in> set (ord m) \<and> (lb = None \<or> lb = Some l) \<and> visible_edge js c = Some e}"
  by (force simp: index_edges_def List.map_filter_def split: option.splits if_splits)

lemma neighbors_eq:
  "graph_neighbors js ord g v =
     (if gc_use_memory_index (mg_config g) then map e_target (index_edges js ord (mg_outgoing g) v None) else [])"
  by (simp add: graph_neighbors_def outgoing_refs_def collect_all_eq graph_outgoing_def edge_cursor_new_def
      edge_ref_of_def)

lemma graph_targets_finite: "finite (graph_targets js ord g)"
  "card (graph_targets js ord g) \<le> length (ord (mg_outgoing g))"
proof -
  let ?E = "{e. \<exists>x\<in>set (ord (mg_outgoing g)). visible_edge js (snd x) = Some e}"
  have fin: "finite ?E"
    by (rule finite_subset [OF visible_edges_image]) simp
  then show "finite (graph_targets js ord g)"
    by (simp add: graph_targets_def)
  have "card (graph_targets js ord g) \<le> card ?E"
    unfolding graph_targets_def by (rule card_image_le [OF fin])
  also have "\<dots> \<le> card ((\<lambda>x. the (visible_edge js (snd x))) ` set (ord (mg_outgoing g)))"
    by (rule card_mono [OF _ visible_edges_image]) simp
  also have "\<dots> \<le> length (ord (mg_outgoing g))"
    using card_image_le card_length le_trans by blast
  finally show "card (graph_targets js ord g) \<le> length (ord (mg_outgoing g))" .
qed

interpretation graph: finite_graph "graph_neighbors js ord g" "insert start (graph_targets js ord g)" for js ord g start
proof unfold_locales
  show "finite (insert start (graph_targets js ord g))"
    by (simp add: graph_targets_finite)
  show "set (graph_neighbors js ord g v) \<subseteq> insert start (graph_targets js ord g)" for v
    by (auto simp: neighbors_eq set_index_edges graph_targets_def) force
qed

definition reachable :: "(bytes \<Rightarrow> bytes list) \<Rightarrow> bytes \<Rightarrow> bytes set" where
  "reachable nb v = {u. (\<lambda>a b. b \<in> set (nb a))\<^sup>*\<^sup>* v u}"

text \<open>
  C18. Both searches of a graph table end and visit the vertices that can be reached from the start,
  each exactly once, in whatever order the hash map is walked. Two more steps than the index has
  entries are enough.
\<close>

theorem graph_searches_exact:
  assumes "mset (ord (mg_outgoing g)) = mset (mg_outgoing g)" and "fuel \<ge> length (mg_outgoing g) + 2"
  shows "(\<exists>vs. bfs fuel js ord g start note_vertex [] = Some vs \<and> distinct vs \<and>
      set vs = reachable (graph_neighbors js ord g) start) \<and>
    (\<exists>vs. dfs fuel js ord g start note_vertex [] = Some vs \<and> distinct vs \<and>
      set vs = reachable (graph_neighbors js ord g) start)"
proof -
  have "length (ord (mg_outgoing g)) = length (mg_outgoing g)"
    using assms(1) mset_eq_length by blast
  moreover have "card (insert start (graph_targets js ord g)) \<le> Suc (card (graph_targets js ord g))"
    by (simp add: card_insert_le_m1 card_insert_if graph_targets_finite)
  ultimately have "Suc (card (insert start (graph_targets js ord g))) \<le> fuel"
    using graph_targets_finite(2) [of js ord g] assms(2) by linarith
  then show ?thesis
    using graph.bfs_exact [of start js ord g fuel start] graph.dfs_exact [of start start js ord g fuel]
    by (auto simp: bfs_def dfs_def graph.reach_def reachable_def)
qed

section \<open>The edges of a graph\<close>

text \<open>
  The specification: a slot, a vertex with a label and an edge id, holds at most one edge. Adding an
  edge fills the slot of its source in the outgoing edges and of its target in the incoming ones;
  in an undirected graph also the other way round, without the weight. Removing empties them.
\<close>

datatype graph_op =
    Add_Edge bytes bytes bytes bytes "u64 option"
  | Remove_Edge bytes bytes bytes bytes

definition graph_apply ::
    "edge_json \<Rightarrow> nat \<Rightarrow> graph_op \<times> txn_id \<times> lsn \<Rightarrow> memory_graph \<Rightarrow> memory_graph" where
  "graph_apply js sz = (\<lambda>(op, t, l) g. graph_commit_versions t l
     (case op of
        Add_Edge s lb d i w \<Rightarrow> snd (add_edge_with_weight js sz s lb d i w t l g)
      | Remove_Edge s lb d i \<Rightarrow> graph_remove_edge sz s lb d i t l g))"

type_synonym slots = "edge_slot \<Rightarrow> edge option"

definition op_weight :: "graph_op \<Rightarrow> u64 option" where
  "op_weight op = (case op of Add_Edge s lb d i w \<Rightarrow> w | Remove_Edge s lb d i \<Rightarrow> None)"

fun spec_out :: "bool \<Rightarrow> graph_op \<Rightarrow> slots \<Rightarrow> slots" where
  "spec_out directed (Add_Edge s lb d i w) m =
     (let m = m((s, lb, i) \<mapsto> edge_new i s lb d w) in
      if directed then m else m((d, lb, i) \<mapsto> edge_unweighted i d lb s))"
| "spec_out directed (Remove_Edge s lb d i) m =
     (let m = m((s, lb, i) := None) in if directed then m else m((d, lb, i) := None))"

fun spec_in :: "bool \<Rightarrow> graph_op \<Rightarrow> slots \<Rightarrow> slots" where
  "spec_in directed (Add_Edge s lb d i w) m =
     (let m = m((d, lb, i) \<mapsto> edge_new i s lb d w) in
      if directed then m else m((s, lb, i) \<mapsto> edge_unweighted i d lb s))"
| "spec_in directed (Remove_Edge s lb d i) m =
     (let m = m((d, lb, i) := None) in if directed then m else m((s, lb, i) := None))"

definition edges_at :: "slots \<Rightarrow> bytes \<Rightarrow> bytes option \<Rightarrow> edge set" where
  "edges_at m v lb = {e. \<exists>l i. m (v, l, i) = Some e \<and> (lb = None \<or> lb = Some l)}"

text \<open>
  The head of a chain whose versions below it are committed decides what is seen once everything is
  committed. \<open>head_edge\<close> reads it whether or not it is committed yet.
\<close>

definition head_edge :: "edge_json \<Rightarrow> version_chain \<Rightarrow> edge option" where
  "head_edge js c = (if value_is_empty (vc_value c) then None else Option.bind (as_inline (vc_value c)) (js_from_slice js))"

definition index_shows :: "edge_json \<Rightarrow> edge_index \<Rightarrow> slots \<Rightarrow> bool" where
  "index_shows js m f \<longleftrightarrow> bt_wf m \<and> (\<forall>k. Option.bind (bt_get m k) (head_edge js) = f k)"

definition index_committed :: "edge_index \<Rightarrow> bool" where
  "index_committed m \<longleftrightarrow> (\<forall>k c. bt_get m k = Some c \<longrightarrow> vc_commit_lsn c \<noteq> None)"

lemma max_visible [simp]: "(l :: u64) \<le> - 1"
  by simp

lemma head_edge_simps [simp]:
  "head_edge js (VersionChain (VInline []) t cl p) = None"
  "head_edge js (commit_all_uncommitted l c) = head_edge js c"
  "bs \<noteq> [] \<Longrightarrow> head_edge js (VersionChain (VInline bs) t cl p) = js_from_slice js bs"
  by (simp_all add: head_edge_def) (cases c, simp)

lemma visible_head: "vc_commit_lsn c \<noteq> None \<Longrightarrow> visible_edge js c = head_edge js c"
  by (cases c) (auto simp: visible_edge_def head_edge_def)

lemma commit_all_committed: "vc_commit_lsn (commit_all_uncommitted l c) \<noteq> None"
  by (cases c) (simp split: option.split)

lemma bind_commit_all: "Option.bind (map_option (commit_all_uncommitted l) x) (head_edge js) = Option.bind x (head_edge js)"
  by (cases x) simp_all

lemma index_commit_shows: "index_shows js m f \<Longrightarrow> index_shows js (bt_map (\<lambda>k. commit_all_uncommitted l) m) f"
  by (simp add: index_shows_def bind_commit_all)

lemma index_commit_committed: "index_committed (bt_map (\<lambda>k. commit_all_uncommitted l) m)"
  using commit_all_committed by (auto simp: index_committed_def)

lemma slot_push_shows:
  assumes "index_shows js m f" and "edge_json_ok W js" and "e_weight e \<in> W" and "js_to_vec js e = Some bs"
  shows "index_shows js (slot_push k bs t m) (f(k \<mapsto> e))"
proof -
  have "bs \<noteq> []" "js_from_slice js bs = Some e"
    using assms(2-4) unfolding edge_json_ok_def by (metis option.inject)+
  then show ?thesis
    using assms(1) by (auto simp: index_shows_def slot_push_def)
qed

lemma slot_bury_shows: "index_shows js m f \<Longrightarrow> index_shows js (slot_bury k t m) (f(k := None))"
  by (auto simp: index_shows_def slot_bury_def fun_eq_iff split: option.splits)

definition graph_shows :: "edge_json \<Rightarrow> memory_graph \<Rightarrow> slots \<Rightarrow> slots \<Rightarrow> bool" where
  "graph_shows js g out inc \<longleftrightarrow> index_shows js (mg_outgoing g) out \<and> index_shows js (mg_incoming g) inc"

lemma add_edge_shows:
  assumes js: "edge_json_ok W js" and w: "w \<in> W" and idx: "gc_use_memory_index (mg_config g)" and shows_g: "graph_shows js g out inc"
    and dir: "directed = gc_directed (mg_config g)"
  shows "graph_shows js (snd (add_edge_with_weight js sz s lb d i w t l g))
      (spec_out directed (Add_Edge s lb d i w) out) (spec_in directed (Add_Edge s lb d i w) inc)"
    and "fst (add_edge_with_weight js sz s lb d i w t l g) = Inr ()"
    and "mg_config (snd (add_edge_with_weight js sz s lb d i w t l g)) = mg_config g"
proof -
  have W: "e_weight (edge_new i s lb d w) \<in> W" "e_weight (edge_unweighted i d lb s) \<in> W"
    using js w by (simp_all add: edge_json_ok_def edge_new_def edge_unweighted_def)
  obtain bs where bs: "js_to_vec js (edge_new i s lb d w) = Some bs"
    using js W(1) unfolding edge_json_ok_def by blast
  obtain rs where rs: "js_to_vec js (edge_unweighted i d lb s) = Some rs"
    using js W(2) unfolding edge_json_ok_def by blast
  note push = slot_push_shows [OF _ js W(1) bs] slot_push_shows [OF _ js W(2) rs]
  show "graph_shows js (snd (add_edge_with_weight js sz s lb d i w t l g))
      (spec_out directed (Add_Edge s lb d i w) out) (spec_in directed (Add_Edge s lb d i w) inc)"
    using shows_g idx bs rs dir by (auto simp: graph_shows_def add_edge_with_weight_def Let_def intro!: push)
  show "fst (add_edge_with_weight js sz s lb d i w t l g) = Inr ()"
    "mg_config (snd (add_edge_with_weight js sz s lb d i w t l g)) = mg_config g"
    using bs rs by (simp_all add: add_edge_with_weight_def Let_def)
qed

lemma remove_edge_shows:
  assumes "gc_use_memory_index (mg_config g)" and "graph_shows js g out inc" and "directed = gc_directed (mg_config g)"
  shows "graph_shows js (graph_remove_edge sz s lb d i t l g)
      (spec_out directed (Remove_Edge s lb d i) out) (spec_in directed (Remove_Edge s lb d i) inc)"
    and "mg_config (graph_remove_edge sz s lb d i t l g) = mg_config g"
  using assms by (auto simp: graph_shows_def graph_remove_edge_def Let_def intro!: slot_bury_shows)

definition graph_settled :: "memory_graph \<Rightarrow> bool" where
  "graph_settled g \<longleftrightarrow> index_committed (mg_outgoing g) \<and> index_committed (mg_incoming g)"

lemma commit_shows:
  assumes "gc_use_memory_index (mg_config g)" and "graph_shows js g out inc"
  shows "graph_shows js (graph_commit_versions t l g) out inc" "graph_settled (graph_commit_versions t l g)"
    "mg_config (graph_commit_versions t l g) = mg_config g"
  using assms by (simp_all add: index_commit_shows index_commit_committed graph_shows_def graph_settled_def graph_commit_versions_def Let_def)

lemma graph_apply_shows:
  assumes js: "edge_json_ok W js" and w: "op_weight op \<in> W" and "gc_use_memory_index (mg_config g)" and "graph_shows js g out inc"
    and "directed = gc_directed (mg_config g)"
  shows "graph_shows js (graph_apply js sz (op, t, l) g) (spec_out directed op out) (spec_in directed op inc)"
    "graph_settled (graph_apply js sz (op, t, l) g)" "mg_config (graph_apply js sz (op, t, l) g) = mg_config g"
proof -
  let ?g = "case op of Add_Edge s lb d i w \<Rightarrow> snd (add_edge_with_weight js sz s lb d i w t l g)
      | Remove_Edge s lb d i \<Rightarrow> graph_remove_edge sz s lb d i t l g"
  have g: "graph_shows js ?g (spec_out directed op out) (spec_in directed op inc)" "mg_config ?g = mg_config g"
    using add_edge_shows(1,3) [OF js _ assms(3-5)] remove_edge_shows [OF assms(3-5)] w
    by (cases op; simp only: graph_op.case op_weight_def)+
  have idx: "gc_use_memory_index (mg_config ?g)"
    using g(2) assms(3) by simp
  show "graph_shows js (graph_apply js sz (op, t, l) g) (spec_out directed op out) (spec_in directed op inc)"
    "graph_settled (graph_apply js sz (op, t, l) g)" "mg_config (graph_apply js sz (op, t, l) g) = mg_config g"
    unfolding graph_apply_def prod.case using commit_shows [OF idx g(1)] g(2) by simp_all
qed

lemma graph_history_shows:
  assumes js: "edge_json_ok W js" and "\<forall>x\<in>set ops. op_weight (fst x) \<in> W" and "gc_use_memory_index (mg_config g)"
    and "graph_shows js g out inc" and "directed = gc_directed (mg_config g)" and "graph_settled g"
  shows "graph_shows js (fold (graph_apply js sz) ops g)
      (fold (spec_out directed) (map fst ops) out) (fold (spec_in directed) (map fst ops) inc) \<and>
    graph_settled (fold (graph_apply js sz) ops g) \<and> mg_config (fold (graph_apply js sz) ops g) = mg_config g"
  using assms(2-)
proof (induction ops arbitrary: g out inc)
  case (Cons x ops)
  obtain op t l where x: "x = (op, t, l)"
    by (cases x)
  have w: "op_weight op \<in> W" "\<forall>x\<in>set ops. op_weight (fst x) \<in> W"
    using Cons.prems(1) by (simp_all add: x)
  note step = graph_apply_shows [OF js w(1) Cons.prems(2-4), of sz t l]
  have "gc_use_memory_index (mg_config (graph_apply js sz x g))" "directed = gc_directed (mg_config (graph_apply js sz x g))"
    using step(3) Cons.prems(2,4) by (simp_all add: x)
  from Cons.IH [OF w(2) this(1) step(1) [folded x] this(2) step(2) [folded x]] show ?case
    using step(3) by (simp add: x)
qed simp

lemma index_edges_shows:
  assumes "index_shows js m f" and "index_committed m" and "mset (ord m) = mset m"
  shows "set (index_edges js ord m v lb) = edges_at f v lb"
proof -
  have m: "set (ord m) = set m"
    using assms(3) mset_eq_setD by blast
  have wf: "bt_wf m" and get: "Option.bind (bt_get m k) (head_edge js) = f k" for k
    using assms(1) unfolding index_shows_def by blast+
  have vis: "visible_edge js c = head_edge js c" if "(k, c) \<in> set m" for k c
    using assms(2) that visible_head unfolding index_committed_def bt_get_Some_iff [OF wf] by blast
  have "(\<exists>c. (k, c) \<in> set m \<and> visible_edge js c = Some e) \<longleftrightarrow> f k = Some e" for k e
  proof -
    have "f k = Some e \<longleftrightarrow> (\<exists>c. (k, c) \<in> set m \<and> head_edge js c = Some e)"
      using get [of k] by (simp add: bind_eq_Some_conv bt_get_Some_iff [OF wf] flip: get)
    then show ?thesis
      using vis by metis
  qed
  then show ?thesis
    unfolding set_index_edges edges_at_def m by blast
qed

text \<open>
  C17. A graph table with its index keeps exactly the edges of the specification: after any sequence
  of added and removed edges, each committed, the outgoing edges of a vertex (of one label, or of
  all) are those of the slots filled and not emptied since, and so are the incoming ones. This is for
  tables configured with the index in memory, since without it every cursor is empty, and for edges
  whose weight (or lack of one) the JSON encoder gives back, which excludes NaN and infinities.
\<close>

theorem graph_table_refines:
  assumes "edge_json_ok W js" and "\<forall>x\<in>set ops. op_weight (fst x) \<in> W" and "gc_use_memory_index cfg"
    and "\<And>m. mset (ord m) = mset m" and "g = fold (graph_apply js sz) ops (graph_new i n cfg)"
  shows "set (ec_edges (graph_outgoing js ord g v lb)) =
      edges_at (fold (spec_out (gc_directed cfg)) (map fst ops) (\<lambda>_. None)) v lb \<and>
    set (ec_edges (graph_incoming js ord g v lb)) =
      edges_at (fold (spec_in (gc_directed cfg)) (map fst ops) (\<lambda>_. None)) v lb"
proof -
  let ?g = "graph_new i n cfg"
  have "graph_shows js ?g (\<lambda>_. None) (\<lambda>_. None)" "graph_settled ?g" "mg_config ?g = cfg"
    by (simp_all add: graph_new_def graph_shows_def index_shows_def graph_settled_def index_committed_def)
  then have "graph_shows js g (fold (spec_out (gc_directed cfg)) (map fst ops) (\<lambda>_. None))
      (fold (spec_in (gc_directed cfg)) (map fst ops) (\<lambda>_. None))" "graph_settled g" "mg_config g = cfg"
    using graph_history_shows [OF assms(1,2), of ?g _ _ "gc_directed cfg" sz] assms(3) unfolding assms(5) by auto
  then show ?thesis
    using index_edges_shows [where ord = ord] assms(3,4)
    by (simp add: graph_outgoing_def graph_incoming_def edge_cursor_new_def graph_shows_def graph_settled_def)
qed

text \<open>
  An encoder for examples: the fields of an edge one after the other. As in JSON, a weight that is NaN
  or infinite, the exponent of which is all ones, is dropped.
\<close>

definition finite_weight :: "u64 option \<Rightarrow> bool" where
  "finite_weight w = (case w of None \<Rightarrow> True | Some b \<Rightarrow> take_bit 11 (drop_bit 52 b) \<noteq> 2047)"

fun pack :: "bytes list \<Rightarrow> bytes" where
  "pack [] = [0]"
| "pack ([] # bss) = 1 # pack bss"
| "pack ((b # bs) # bss) = 2 # b # pack (bs # bss)"

fun unpack :: "bytes \<Rightarrow> bytes list option" where
  "unpack [] = None"
| "unpack (c # r) =
     (if c = 0 then Some []
      else if c = 1 then map_option (Cons []) (unpack r)
      else case r of [] \<Rightarrow> None | b # r \<Rightarrow>
        (case unpack r of Some (bs # bss) \<Rightarrow> Some ((b # bs) # bss) | _ \<Rightarrow> None))"

lemma unpack_pack: "unpack (pack bss) = Some bss"
  by (induction bss rule: pack.induct) auto

definition sample_json :: edge_json where
  "sample_json =
     \<lparr>js_to_vec = \<lambda>e. Some (pack ([e_edge_id e, e_source e, e_label e, e_target e] @
        (case e_weight e of None \<Rightarrow> [] | Some w \<Rightarrow> if finite_weight (Some w) then [u64_le w] else []))),
      js_from_slice = \<lambda>bs. (case unpack bs of
          Some [i, s, l, d] \<Rightarrow> Some (edge_new i s l d None)
        | Some [i, s, l, d, w] \<Rightarrow> Some (edge_new i s l d (Some (u64_of_le w)))
        | _ \<Rightarrow> None)\<rparr>"

lemma sample_json_ok: "edge_json_ok {w. finite_weight w} sample_json"
proof -
  have "pack bss \<noteq> []" for bss
    by (induction bss rule: pack.induct) auto
  moreover have "js_from_slice sample_json (the (js_to_vec sample_json e)) = Some e" if "finite_weight (e_weight e)" for e
    using that by (cases "e_weight e") (simp_all add: sample_json_def unpack_pack edge_new_def del: pack.simps unpack.simps)
  moreover have "finite_weight None"
    by (simp add: finite_weight_def)
  ultimately show ?thesis
    by (auto simp: edge_json_ok_def sample_json_def simp del: pack.simps unpack.simps)
qed

text \<open>Two edges from vertex 1, one of them removed again.\<close>

definition sample_ops :: "(graph_op \<times> txn_id \<times> lsn) list" where
  "sample_ops = [(Add_Edge [1] [7] [2] [10] (Some 5), 1, 1), (Add_Edge [1] [7] [3] [11] None, 2, 2),
    (Remove_Edge [1] [7] [2] [10], 3, 3)]"

definition sample_graph :: memory_graph where
  "sample_graph = fold (graph_apply sample_json 0) sample_ops (graph_new 1 ''g'' graph_config_default)"

theorem graph_table_refines_witness:
  "set (ec_edges (graph_outgoing sample_json rev sample_graph [1] None)) =
      edges_at (fold (spec_out True) (map fst sample_ops) (\<lambda>_. None)) [1] None \<and>
    set (ec_edges (graph_incoming sample_json rev sample_graph [1] None)) =
      edges_at (fold (spec_in True) (map fst sample_ops) (\<lambda>_. None)) [1] None"
  using graph_table_refines [OF sample_json_ok _ _ _ sample_graph_def, of rev "[1]" None]
  by (simp add: graph_config_default_def sample_ops_def op_weight_def finite_weight_def)

theorem graph_searches_exact_witness:
  "\<exists>fuel vs. bfs fuel sample_json rev sample_graph [1] note_vertex [] = Some vs \<and> distinct vs \<and>
     set vs = reachable (graph_neighbors sample_json rev sample_graph) [1]"
  using graph_searches_exact [of rev sample_graph "length (mg_outgoing sample_graph) + 2" sample_json "[1]"]
  by (simp add: mset_rev) blast

end
