(* ===== verification/Transaction.thy ===== *)
theory Transaction
  imports WalLog Conflict MemoryBlob MemoryGraph
begin

text \<open>
  Transactions (\<open>src/src/txn/transaction.rs\<close>): reads through the write set and the tables, writes that
  take a lock, go to the log and wait in the write set, and the commit with its two phases, its undo
  log and its calls on every table. The engines of \<open>src/src/table.rs\<close> appear as the source has them.
  The tables in memory are those of this development; the state of every other engine is a type
  \<open>'x\<close>, and its operations are the fields of a record, so that each call the transaction makes on it
  has its place and may fail. Error texts are left out.

  The log, the lock table, the registry and the current sequence number are shared by all
  transactions and form one state. Orders in which hash maps and sets are walked, clock readings and
  nonces come from an environment. A call on the log that fails leaves the writer as it was.
\<close>

section \<open>Operations in the write sets\<close>

datatype graph_edge_op =
    AddEdge bytes bytes bytes bytes
  | RemoveEdge bytes bytes bytes bytes

text \<open>Timestamps are the 64 bits of an \<open>i64\<close>, coordinates those of an \<open>f64\<close>, components those of an \<open>f32\<close>.\<close>

datatype time_series_op =
    AppendPoint bytes u64 bytes
  | DeletePoint bytes u64 bytes

datatype vector_op =
    InsertVector bytes "u32 list"
  | DeleteVector bytes

datatype serialized_geometry =
    Geo_Point u64 u64
  | Geo_BoundingBox u64 u64 u64 u64
  | Geo_Wkb bytes

datatype geo_spatial_op =
    InsertGeometry bytes serialized_geometry
  | DeleteGeometry bytes

type_synonym text_fields = "(string \<times> string \<times> u32) list"

datatype full_text_op =
    IndexDocument bytes text_fields
  | UpdateDocument bytes text_fields
  | DeleteDocument bytes

datatype undo_operation =
    RestoreValue table_id bytes "bytes option"
  | RestoreKey table_id bytes bytes
  | RemoveBloomEntry table_id bytes
  | RemoveGraphEdge table_id bytes bytes bytes bytes
  | RestoreGraphEdge table_id bytes bytes bytes bytes
  | RemoveTimeSeriesPoint table_id bytes u64 bytes
  | RemoveVector table_id bytes
  | RestoreVector table_id bytes "u32 list"
  | RemoveGeometry table_id bytes
  | RestoreGeometry table_id bytes serialized_geometry
  | RemoveDocument table_id bytes
  | RestoreDocument table_id bytes text_fields

section \<open>Engines\<close>

datatype 'x table_engine =
    Eng_AppendLog 'x
  | Eng_PagedBTree 'x
  | Eng_LsmTree 'x
  | Eng_PagedBloomFilter 'x
  | Eng_PagedHnswVector 'x
  | Eng_PagedRTree 'x
  | Eng_TimeSeriesTable 'x
  | Eng_PagedFullTextIndex 'x
  | Eng_PagedBlob 'x
  | Eng_MemoryBTree memory_btree
  | Eng_MemoryHashTable memory_hash
  | Eng_MemoryGraphTable memory_graph
  | Eng_MemoryBlob memory_blob
  | Eng_MemoryART 'x

text \<open>The calls on special tables.\<close>

datatype special_op =
    Sp_BloomInsert bytes
  | Sp_BloomTombstone bytes
  | Sp_AppendPoint bytes u64 bytes
  | Sp_PointTombstone bytes u64
  | Sp_InsertVector bytes "u32 list"
  | Sp_DeleteVector bytes
  | Sp_InsertGeometry bytes serialized_geometry
  | Sp_DeleteGeometry bytes
  | Sp_IndexDocument bytes text_fields
  | Sp_UpdateDocument bytes text_fields
  | Sp_DeleteDocument bytes

text \<open>
  The other engines: a point read, the keys a scan gives, a writer with one change that is flushed,
  committing a transaction's versions, and the calls of special tables.
\<close>

record 'x engine_ops =
  xo_get :: "'x \<Rightarrow> bytes \<Rightarrow> lsn \<Rightarrow> table_error + bytes option"
  xo_scan :: "'x \<Rightarrow> scan_bounds \<Rightarrow> lsn \<Rightarrow> table_error + bytes list"
  xo_write :: "bytes \<Rightarrow> bytes option \<Rightarrow> txn_id \<Rightarrow> lsn \<Rightarrow> 'x \<Rightarrow> (table_error + unit) \<times> 'x"
  xo_commit_versions :: "txn_id \<Rightarrow> lsn \<Rightarrow> 'x \<Rightarrow> (table_error + unit) \<times> 'x"
  xo_special :: "special_op \<Rightarrow> txn_id \<Rightarrow> lsn \<Rightarrow> 'x \<Rightarrow> (table_error + unit) \<times> 'x"

type_synonym write_set = "(lock_key, bytes option) btmap"

record 'x txn_env =
  te_libs :: libs
  te_now :: "nat \<Rightarrow> u64"
  te_nonce :: "nat \<Rightarrow> bytes"
  te_ops :: "'x engine_ops"
  te_postcard :: blob_codec
  te_json :: edge_json
  te_chain_size :: nat
  te_write_order :: "(lock_key \<times> bytes option) list \<Rightarrow> (lock_key \<times> bytes option) list"
  te_key_order :: "lock_key list \<Rightarrow> lock_key list"
  te_table_order :: "table_id list \<Rightarrow> table_id list"

text \<open>
  An error of a table is handed on inside the transaction's; the text in front of it, which names the
  engine and the call, is left out.
\<close>

definition table_failed :: "table_error \<Rightarrow> txn_error" where
  "table_failed e = OtherError (TableFailed e)"

definition map_err :: "table_error + 'a \<Rightarrow> txn_error + 'a" where
  "map_err r = (case r of Inl e \<Rightarrow> Inl (table_failed e) | Inr a \<Rightarrow> Inr a)"

abbreviation message :: "string \<Rightarrow> txn_error" where
  "message m \<equiv> OtherError (Message m)"

abbreviation wal_failed :: "string \<Rightarrow> wal_error \<Rightarrow> txn_error" where
  "wal_failed m e \<equiv> OtherError (WalFailed m e)"

section \<open>State\<close>

record 'x db =
  db_detector :: conflict_detector
  db_wal :: wal_writer
  db_engines :: "table_id \<rightharpoonup> 'x table_engine"
  db_current_lsn :: lsn
  db_draws :: nat

type_synonym ('x, 'a) txn_action = "('x db, txn_error, 'a) st_action"

datatype isolation_level = ReadUncommitted | ReadCommitted | RepeatableRead | Serializable | SnapshotIsolation

datatype durability = MemoryOnly | WalOnly | FlushOnCommit | SyncOnCommit

datatype txn_state = Txn_Active | Txn_Preparing | Txn_Committed | Txn_Aborted

fun state_as_str :: "txn_state \<Rightarrow> string" where
  "state_as_str Txn_Active = ''Active''"
| "state_as_str Txn_Preparing = ''Preparing''"
| "state_as_str Txn_Committed = ''Committed''"
| "state_as_str Txn_Aborted = ''Aborted''"

record transaction =
  tx_id :: txn_id
  tx_snapshot_lsn :: lsn
  tx_isolation :: isolation_level
  tx_durability :: durability
  tx_state :: txn_state
  tx_read_set :: "lock_key list"
  tx_write_set :: write_set
  tx_bloom_write_set :: "lock_key list"
  tx_graph_write_set :: "(table_id \<times> graph_edge_op) list"
  tx_timeseries_write_set :: "(table_id \<times> time_series_op) list"
  tx_vector_write_set :: "(table_id \<times> vector_op) list"
  tx_geospatial_write_set :: "(table_id \<times> geo_spatial_op) list"
  tx_fulltext_write_set :: "(table_id \<times> full_text_op) list"
  tx_current_table :: "table_id option"

record commit_info =
  ci_tx_id :: txn_id
  ci_commit_lsn :: lsn
  ci_durable_lsn :: "lsn option"

definition txn_build :: "txn_id \<Rightarrow> lsn \<Rightarrow> isolation_level \<Rightarrow> durability \<Rightarrow> transaction" where
  "txn_build t l il dur =
     \<lparr>tx_id = t, tx_snapshot_lsn = l, tx_isolation = il, tx_durability = dur, tx_state = Txn_Active, tx_read_set = [],
      tx_write_set = [], tx_bloom_write_set = [], tx_graph_write_set = [], tx_timeseries_write_set = [],
      tx_vector_write_set = [], tx_geospatial_write_set = [], tx_fulltext_write_set = [], tx_current_table = None\<rparr>"

section \<open>The log\<close>

text \<open>A call of the log with the text that goes in front of its error.\<close>

definition wal_call ::
    "'x txn_env \<Rightarrow> string \<Rightarrow> (u64 \<Rightarrow> bytes \<Rightarrow> wal_writer \<Rightarrow> wal_error + (lsn \<times> wal_writer)) \<Rightarrow> ('x, lsn) txn_action" where
  "wal_call E m f s =
     (let k = db_draws s; s = s\<lparr>db_draws := k + 1\<rparr> in
      case f (te_now E k) (te_nonce E k) (db_wal s) of
        Inl e \<Rightarrow> (Inl (wal_failed m e), s)
      | Inr (l, w) \<Rightarrow> (Inr l, s\<lparr>db_wal := w\<rparr>))"

definition wal_flush :: "('x, unit) txn_action" where
  "wal_flush s =
     (case writer_flush (db_wal s) of Inl e \<Rightarrow> (Inl (wal_failed ''WAL flush failed'' e), s) | Inr w \<Rightarrow> (Inr (), s\<lparr>db_wal := w\<rparr>))"

text \<open>\<open>new\<close> drops the result of writing the BEGIN record.\<close>

definition txn_new ::
    "'x txn_env \<Rightarrow> txn_id \<Rightarrow> lsn \<Rightarrow> isolation_level \<Rightarrow> durability \<Rightarrow> 'x db \<Rightarrow> transaction \<times> 'x db" where
  "txn_new E t l il dur s =
     (txn_build t l il dur, snd (wal_call E '''' (\<lambda>now nonce. write_begin (te_libs E) now nonce t) s))"

definition txn_new_read_only :: "txn_id \<Rightarrow> lsn \<Rightarrow> isolation_level \<Rightarrow> transaction" where
  "txn_new_read_only t l il = txn_build t l il WalOnly"

section \<open>Recording\<close>

definition record_read :: "table_id \<Rightarrow> bytes \<Rightarrow> transaction \<Rightarrow> transaction" where
  "record_read tb k tx =
     (case tx_isolation tx of
        Serializable \<Rightarrow> tx\<lparr>tx_read_set := List.insert (tb, k) (tx_read_set tx)\<rparr>
      | RepeatableRead \<Rightarrow> tx\<lparr>tx_read_set := List.insert (tb, k) (tx_read_set tx)\<rparr>
      | _ \<Rightarrow> tx)"

definition record_write :: "table_id \<Rightarrow> bytes \<Rightarrow> bytes \<Rightarrow> transaction \<Rightarrow> transaction" where
  "record_write tb k v tx = tx\<lparr>tx_write_set := bt_insert (tb, k) (Some v) (tx_write_set tx)\<rparr>"

definition record_delete :: "table_id \<Rightarrow> bytes \<Rightarrow> transaction \<Rightarrow> transaction" where
  "record_delete tb k tx = tx\<lparr>tx_write_set := bt_insert (tb, k) None (tx_write_set tx)\<rparr>"

definition record_bloom_insert :: "table_id \<Rightarrow> bytes \<Rightarrow> transaction \<Rightarrow> transaction" where
  "record_bloom_insert tb k tx = tx\<lparr>tx_bloom_write_set := List.insert (tb, k) (tx_bloom_write_set tx)\<rparr>"

definition record_graph_operation :: "table_id \<Rightarrow> graph_edge_op \<Rightarrow> transaction \<Rightarrow> transaction" where
  "record_graph_operation tb op tx = tx\<lparr>tx_graph_write_set := tx_graph_write_set tx @ [(tb, op)]\<rparr>"

definition record_timeseries_operation :: "table_id \<Rightarrow> time_series_op \<Rightarrow> transaction \<Rightarrow> transaction" where
  "record_timeseries_operation tb op tx = tx\<lparr>tx_timeseries_write_set := tx_timeseries_write_set tx @ [(tb, op)]\<rparr>"

definition record_vector_operation :: "table_id \<Rightarrow> vector_op \<Rightarrow> transaction \<Rightarrow> transaction" where
  "record_vector_operation tb op tx = tx\<lparr>tx_vector_write_set := tx_vector_write_set tx @ [(tb, op)]\<rparr>"

definition record_geospatial_operation :: "table_id \<Rightarrow> geo_spatial_op \<Rightarrow> transaction \<Rightarrow> transaction" where
  "record_geospatial_operation tb op tx = tx\<lparr>tx_geospatial_write_set := tx_geospatial_write_set tx @ [(tb, op)]\<rparr>"

definition record_fulltext_operation :: "table_id \<Rightarrow> full_text_op \<Rightarrow> transaction \<Rightarrow> transaction" where
  "record_fulltext_operation tb op tx = tx\<lparr>tx_fulltext_write_set := tx_fulltext_write_set tx @ [(tb, op)]\<rparr>"

definition invalid_state :: "transaction \<Rightarrow> string \<Rightarrow> txn_error" where
  "invalid_state tx op = InvalidState (tx_id tx) (state_as_str (tx_state tx)) op"

definition txn_prepare :: "transaction \<Rightarrow> txn_error + transaction" where
  "txn_prepare tx =
     (if tx_state tx \<noteq> Txn_Active then Inl (invalid_state tx ''prepare'')
      else Inr (tx\<lparr>tx_state := Txn_Preparing\<rparr>))"

definition is_active :: "transaction \<Rightarrow> bool" where
  "is_active tx \<longleftrightarrow> tx_state tx = Txn_Active"

definition with_table :: "table_id \<Rightarrow> transaction \<Rightarrow> transaction" where
  "with_table tb tx = tx\<lparr>tx_current_table := Some tb\<rparr>"

definition clear_table_context :: "transaction \<Rightarrow> transaction" where
  "clear_table_context tx = tx\<lparr>tx_current_table := None\<rparr>"

section \<open>Reading\<close>

definition engine_get :: "'x txn_env \<Rightarrow> 'x table_engine \<Rightarrow> bytes \<Rightarrow> lsn \<Rightarrow> txn_error + bytes option" where
  "engine_get E e k l =
     (case e of
        Eng_AppendLog x \<Rightarrow> map_err (xo_get (te_ops E) x k l)
      | Eng_PagedBTree x \<Rightarrow> map_err (xo_get (te_ops E) x k l)
      | Eng_LsmTree x \<Rightarrow> map_err (xo_get (te_ops E) x k l)
      | Eng_MemoryBTree b \<Rightarrow> Inr (btree_get b k l)
      | Eng_MemoryHashTable h \<Rightarrow> Inr (hash_get h k l)
      | Eng_MemoryART x \<Rightarrow> map_err (xo_get (te_ops E) x k l)
      | Eng_MemoryBlob b \<Rightarrow> map_err (blob_get (te_postcard E) b k)
      | Eng_PagedBlob x \<Rightarrow> map_err (xo_get (te_ops E) x k l)
      | Eng_PagedBloomFilter x \<Rightarrow> map_err (xo_get (te_ops E) x k l)
      | Eng_PagedHnswVector x \<Rightarrow> Inl (message ''HNSW vector tables don't support get operations'')
      | Eng_PagedRTree x \<Rightarrow> Inl (message ''R-Tree tables don't support key-value get operations'')
      | Eng_MemoryGraphTable g \<Rightarrow> Inl (message ''Graph tables don't support get operations - use outgoing/incoming instead'')
      | Eng_TimeSeriesTable x \<Rightarrow> Inl (message ''TimeSeries tables don't support get operations - use scan_series instead'')
      | Eng_PagedFullTextIndex x \<Rightarrow> Inl (message ''Full-text indexes don't support get operations - use search instead''))"

definition txn_get :: "'x txn_env \<Rightarrow> table_id \<Rightarrow> bytes \<Rightarrow> transaction \<Rightarrow> 'x db \<Rightarrow> txn_error + bytes option" where
  "txn_get E tb k tx s =
     (if \<not> is_active tx then Inl (invalid_state tx ''get'')
      else case bt_get (tx_write_set tx) (tb, k) of
        Some v \<Rightarrow> Inr v
      | None \<Rightarrow>
          (case db_engines s tb of
             Some e \<Rightarrow> engine_get E e k (tx_snapshot_lsn tx)
           | None \<Rightarrow> Inr None))"

section \<open>Writing\<close>

definition take_lock :: "table_id \<Rightarrow> bytes \<Rightarrow> txn_id \<Rightarrow> ('x, unit) txn_action" where
  "take_lock tb k t s =
     (case lock_key tb k t (db_detector s) of
        Inl e \<Rightarrow> (Inl e, s)
      | Inr d \<Rightarrow> (Inr (), s\<lparr>db_detector := d\<rparr>))"

definition txn_put ::
    "'x txn_env \<Rightarrow> table_id \<Rightarrow> bytes \<Rightarrow> bytes \<Rightarrow> transaction \<Rightarrow> ('x, transaction) txn_action" where
  "txn_put E tb k v tx =
     (if \<not> is_active tx then perr (invalid_state tx ''put'')
      else pbind (take_lock tb k (tx_id tx)) (\<lambda>_.
      pbind (wal_call E ''WAL write failed'' (\<lambda>now nonce. write_operation (te_libs E) now nonce (tx_id tx) tb Op_Put k v)) (\<lambda>_.
      pret (record_write tb k v tx))))"

text \<open>The keys of special tables have no read; a hash table, a blob table and so on no scan.\<close>

definition engine_contains :: "'x txn_env \<Rightarrow> 'x table_engine \<Rightarrow> bytes \<Rightarrow> lsn \<Rightarrow> txn_error + bool" where
  "engine_contains E e k l =
     (case e of
        Eng_PagedHnswVector x \<Rightarrow> Inl (message ''HNSW vector tables don't support contains operations'')
      | Eng_PagedRTree x \<Rightarrow> Inl (message ''R-Tree tables don't support contains operations'')
      | Eng_MemoryGraphTable g \<Rightarrow> Inl (message ''Graph tables don't support contains operations'')
      | Eng_TimeSeriesTable x \<Rightarrow> Inl (message ''TimeSeries tables don't support contains operations'')
      | Eng_PagedFullTextIndex x \<Rightarrow> Inl (message ''Full-text indexes don't support contains operations'')
      | _ \<Rightarrow> rbind (engine_get E e k l) (\<lambda>v. Inr (v \<noteq> None)))"

definition txn_delete ::
    "'x txn_env \<Rightarrow> table_id \<Rightarrow> bytes \<Rightarrow> transaction \<Rightarrow> ('x, bool \<times> transaction) txn_action" where
  "txn_delete E tb k tx =
     (if \<not> is_active tx then perr (invalid_state tx ''delete'')
      else pbind (take_lock tb k (tx_id tx)) (\<lambda>_.
      pbind (\<lambda>s. plift
        (if bt_get (tx_write_set tx) (tb, k) \<noteq> None then Inr True
         else case db_engines s tb of
           Some e \<Rightarrow> engine_contains E e k (tx_snapshot_lsn tx)
         | None \<Rightarrow> Inr False) s) (\<lambda>existed.
      pbind (wal_call E ''WAL write failed'' (\<lambda>now nonce. write_operation (te_libs E) now nonce (tx_id tx) tb Op_Delete k [])) (\<lambda>_.
      pret (existed, record_delete tb k tx)))))"

text \<open>The keys a cursor of a B-tree in memory walks over.\<close>

definition btree_scan_keys :: "memory_btree \<Rightarrow> scan_bounds \<Rightarrow> lsn \<Rightarrow> bytes list" where
  "btree_scan_keys b bounds l = map fst (cursor_items (Suc (length (mb_data b))) b (cursor_new b bounds l))"

definition engine_scan :: "'x txn_env \<Rightarrow> 'x table_engine \<Rightarrow> scan_bounds \<Rightarrow> lsn \<Rightarrow> txn_error + bytes list" where
  "engine_scan E e bounds l =
     (case e of
        Eng_AppendLog x \<Rightarrow> Inr []
      | Eng_PagedBTree x \<Rightarrow> map_err (xo_scan (te_ops E) x bounds l)
      | Eng_LsmTree x \<Rightarrow> map_err (xo_scan (te_ops E) x bounds l)
      | Eng_MemoryBTree b \<Rightarrow> Inr (btree_scan_keys b bounds l)
      | Eng_MemoryART x \<Rightarrow> map_err (xo_scan (te_ops E) x bounds l)
      | Eng_MemoryHashTable h \<Rightarrow> Inl (message ''range_delete is not supported for hash tables'')
      | Eng_MemoryBlob b \<Rightarrow> Inl (message ''range_delete is not supported for blob tables'')
      | Eng_PagedBloomFilter x \<Rightarrow> Inl (message ''range_delete is not supported for bloom filter tables'')
      | Eng_PagedHnswVector x \<Rightarrow> Inl (message ''range_delete is not supported for HNSW vector tables'')
      | Eng_PagedRTree x \<Rightarrow> Inl (message ''range_delete is not supported for R-Tree tables'')
      | Eng_PagedBlob x \<Rightarrow> Inl (message ''range_delete is not supported for Blob tables'')
      | Eng_MemoryGraphTable g \<Rightarrow> Inl (message ''range_delete is not supported for graph tables'')
      | Eng_TimeSeriesTable x \<Rightarrow> Inl (message ''range_delete is not supported for TimeSeries tables'')
      | Eng_PagedFullTextIndex x \<Rightarrow> Inl (message ''range_delete is not supported for FullText index tables''))"

fun delete_keys ::
    "'x txn_env \<Rightarrow> table_id \<Rightarrow> bytes list \<Rightarrow> transaction \<Rightarrow> ('x, transaction) txn_action" where
  "delete_keys E tb [] tx = pret tx"
| "delete_keys E tb (k # ks) tx =
     pbind (take_lock tb k (tx_id tx)) (\<lambda>_.
     pbind (wal_call E ''WAL write failed'' (\<lambda>now nonce. write_operation (te_libs E) now nonce (tx_id tx) tb Op_Delete k [])) (\<lambda>_.
     delete_keys E tb ks (record_delete tb k tx)))"

definition txn_range_delete ::
    "'x txn_env \<Rightarrow> table_id \<Rightarrow> scan_bounds \<Rightarrow> transaction \<Rightarrow> ('x, nat \<times> transaction) txn_action" where
  "txn_range_delete E tb bounds tx =
     (if \<not> is_active tx then perr (invalid_state tx ''range_delete'')
      else pbind (\<lambda>s. plift
        (case db_engines s tb of
           None \<Rightarrow> Inr []
         | Some e \<Rightarrow> engine_scan E e bounds (tx_snapshot_lsn tx)) s) (\<lambda>ks.
      pbind (delete_keys E tb ks tx) (\<lambda>tx.
      pret (length ks, tx))))"

section \<open>Calls on tables\<close>

definition lift_x :: "('x \<Rightarrow> 'x table_engine) \<Rightarrow> (table_error + unit) \<times> 'x \<Rightarrow> (txn_error + unit) \<times> 'x table_engine" where
  "lift_x C = (\<lambda>(r, x). (map_err r, C x))"

text \<open>A writer of a table in memory with one change, flushed.\<close>

definition btree_write_one :: "nat \<Rightarrow> bytes \<Rightarrow> bytes option \<Rightarrow> txn_id \<Rightarrow> lsn \<Rightarrow> memory_btree \<Rightarrow> memory_btree" where
  "btree_write_one sz k v t l b =
     (let w = btree_writer_new t l;
          w = (case v of Some d \<Rightarrow> snd (btree_put k d w) | None \<Rightarrow> snd (btree_delete b k w)) in
      snd (btree_flush sz w b))"

definition hash_write_one :: "nat \<Rightarrow> bytes \<Rightarrow> bytes option \<Rightarrow> txn_id \<Rightarrow> lsn \<Rightarrow> memory_hash \<Rightarrow> memory_hash" where
  "hash_write_one sz k v t l h =
     (let w = hash_writer_new t l;
          w = (case v of Some d \<Rightarrow> snd (hash_writer_put k d w) | None \<Rightarrow> snd (hash_writer_delete h k w)) in
      snd (hash_flush sz w h))"

definition blob_write_one :: "blob_codec \<Rightarrow> bytes \<Rightarrow> bytes option \<Rightarrow> memory_blob \<Rightarrow> (txn_error + unit) \<times> memory_blob" where
  "blob_write_one pc k v b =
     (case v of
        Some d \<Rightarrow> (case blob_put pc k d b of Inl e \<Rightarrow> (Inl (table_failed e), b) | Inr (n, b) \<Rightarrow> (Inr (), b))
      | None \<Rightarrow> (case blob_delete pc k b of Inl e \<Rightarrow> (Inl (table_failed e), b) | Inr (n, b) \<Rightarrow> (Inr (), b)))"

text \<open>The arms of \<open>apply_all_changes\<close>.\<close>

definition engine_write ::
    "'x txn_env \<Rightarrow> bytes \<Rightarrow> bytes option \<Rightarrow> txn_id \<Rightarrow> lsn \<Rightarrow> 'x table_engine \<Rightarrow> (txn_error + unit) \<times> 'x table_engine" where
  "engine_write E k v t l e =
     (case e of
        Eng_AppendLog x \<Rightarrow> lift_x Eng_AppendLog (xo_write (te_ops E) k v t l x)
      | Eng_PagedBTree x \<Rightarrow> lift_x Eng_PagedBTree (xo_write (te_ops E) k v t l x)
      | Eng_LsmTree x \<Rightarrow> lift_x Eng_LsmTree (xo_write (te_ops E) k v t l x)
      | Eng_MemoryBTree b \<Rightarrow> (Inr (), Eng_MemoryBTree (btree_write_one (te_chain_size E) k v t l b))
      | Eng_MemoryART x \<Rightarrow> lift_x Eng_MemoryART (xo_write (te_ops E) k v t l x)
      | Eng_MemoryHashTable h \<Rightarrow> (Inr (), Eng_MemoryHashTable (hash_write_one (te_chain_size E) k v t l h))
      | Eng_MemoryBlob b \<Rightarrow> (let (r, b) = blob_write_one (te_postcard E) k v b in (r, Eng_MemoryBlob b))
      | Eng_PagedBlob x \<Rightarrow> lift_x Eng_PagedBlob (xo_write (te_ops E) k v t l x)
      | Eng_PagedBloomFilter x \<Rightarrow> (Inl (message ''transactional put/delete is not supported for bloom filter tables; use ApproximateMembership API''), e)
      | Eng_PagedHnswVector x \<Rightarrow> (Inl (message ''transactional put/delete is not supported for HNSW vector tables; use VectorSearch API''), e)
      | Eng_PagedRTree x \<Rightarrow> (Inl (message ''transactional put/delete is not supported for R-Tree tables; use GeoSpatial API''), e)
      | Eng_MemoryGraphTable g \<Rightarrow> (Inl (message ''transactional put/delete is not supported for graph tables; use GraphAdjacency API''), e)
      | Eng_TimeSeriesTable x \<Rightarrow> (Inl (message ''transactional put/delete is not supported for TimeSeries tables; use TimeSeries API''), e)
      | Eng_PagedFullTextIndex x \<Rightarrow> (Inl (message ''transactional put/delete is not supported for FullText index tables; use FullTextSearch API''), e))"

text \<open>The arms of the loop over the modified tables.\<close>

definition engine_commit ::
    "'x txn_env \<Rightarrow> txn_id \<Rightarrow> lsn \<Rightarrow> lsn \<Rightarrow> 'x table_engine \<Rightarrow> (txn_error + unit) \<times> 'x table_engine" where
  "engine_commit E t snap l e =
     (case e of
        Eng_PagedBTree x \<Rightarrow> lift_x Eng_PagedBTree (xo_commit_versions (te_ops E) t l x)
      | Eng_LsmTree x \<Rightarrow> lift_x Eng_LsmTree (xo_commit_versions (te_ops E) t l x)
      | Eng_MemoryBTree b \<Rightarrow> (Inr (), Eng_MemoryBTree (btree_commit_versions (btree_writer_new t snap) l b))
      | Eng_MemoryART x \<Rightarrow> lift_x Eng_MemoryART (xo_commit_versions (te_ops E) t l x)
      | Eng_MemoryHashTable h \<Rightarrow> (Inr (), Eng_MemoryHashTable (hash_writer_commit_versions (hash_writer_new t snap) l h))
      | Eng_PagedRTree x \<Rightarrow> lift_x Eng_PagedRTree (xo_commit_versions (te_ops E) t l x)
      | Eng_PagedBloomFilter x \<Rightarrow> (Inr (), Eng_PagedBloomFilter (snd (xo_commit_versions (te_ops E) t l x)))
      | Eng_TimeSeriesTable x \<Rightarrow> lift_x Eng_TimeSeriesTable (xo_commit_versions (te_ops E) t l x)
      | Eng_AppendLog x \<Rightarrow> lift_x Eng_AppendLog (xo_commit_versions (te_ops E) t l x)
      | _ \<Rightarrow> (Inr (), e))"

text \<open>A call on a table of the registry; a table that is not there is skipped.\<close>

definition on_table ::
    "table_id \<Rightarrow> ('x table_engine \<Rightarrow> (txn_error + unit) \<times> 'x table_engine) \<Rightarrow> ('x, unit) txn_action" where
  "on_table tb f s =
     (case db_engines s tb of
        None \<Rightarrow> (Inr (), s)
      | Some e \<Rightarrow> (let (r, e) = f e in (r, s\<lparr>db_engines := (db_engines s)(tb \<mapsto> e)\<rparr>)))"

section \<open>Special tables\<close>

definition graph_call ::
    "'x txn_env \<Rightarrow> graph_edge_op \<Rightarrow> txn_id \<Rightarrow> lsn \<Rightarrow> memory_graph \<Rightarrow> (txn_error + unit) \<times> 'x table_engine" where
  "graph_call E op t l g =
     (case op of
        AddEdge s lb d i \<Rightarrow>
          (let (r, g) = graph_add_edge (te_json E) (te_chain_size E) s lb d i t l g in (map_err r, Eng_MemoryGraphTable g))
      | RemoveEdge s lb d i \<Rightarrow> (Inr (), Eng_MemoryGraphTable (graph_remove_edge (te_chain_size E) s lb d i t l g)))"

definition apply_bloom :: "'x txn_env \<Rightarrow> txn_id \<Rightarrow> lsn \<Rightarrow> lock_key \<Rightarrow> ('x, unit) txn_action" where
  "apply_bloom E t l = (\<lambda>(tb, k). on_table tb (\<lambda>e.
     case e of
       Eng_PagedBloomFilter x \<Rightarrow> lift_x Eng_PagedBloomFilter (xo_special (te_ops E) (Sp_BloomInsert k) t l x)
     | _ \<Rightarrow> (Inl (message ''table is not a bloom filter''), e)))"

definition apply_graph :: "'x txn_env \<Rightarrow> txn_id \<Rightarrow> lsn \<Rightarrow> table_id \<times> graph_edge_op \<Rightarrow> ('x, unit) txn_action" where
  "apply_graph E t l = (\<lambda>(tb, op). on_table tb (\<lambda>e.
     case e of Eng_MemoryGraphTable g \<Rightarrow> graph_call E op t l g | _ \<Rightarrow> (Inl (message ''table is not a graph adjacency table''), e)))"

definition apply_timeseries :: "'x txn_env \<Rightarrow> txn_id \<Rightarrow> lsn \<Rightarrow> table_id \<times> time_series_op \<Rightarrow> ('x, unit) txn_action" where
  "apply_timeseries E t l = (\<lambda>(tb, op). on_table tb (\<lambda>e.
     case e of
       Eng_TimeSeriesTable x \<Rightarrow>
         (case op of
            AppendPoint sk ts vk \<Rightarrow> lift_x Eng_TimeSeriesTable (xo_special (te_ops E) (Sp_AppendPoint sk ts vk) t l x)
          | DeletePoint sk ts vk \<Rightarrow> (Inl (message ''TimeSeries tables are append-only; delete operations are not supported''), e))
     | _ \<Rightarrow> (Inl (message ''table is not a time series table''), e)))"

definition apply_vector :: "'x txn_env \<Rightarrow> txn_id \<Rightarrow> lsn \<Rightarrow> table_id \<times> vector_op \<Rightarrow> ('x, unit) txn_action" where
  "apply_vector E t l = (\<lambda>(tb, op). on_table tb (\<lambda>e.
     case e of
       Eng_PagedHnswVector x \<Rightarrow>
         lift_x Eng_PagedHnswVector (xo_special (te_ops E)
           (case op of InsertVector i v \<Rightarrow> Sp_InsertVector i v | DeleteVector i \<Rightarrow> Sp_DeleteVector i) t l x)
     | _ \<Rightarrow> (Inl (message ''table is not a vector search table''), e)))"

definition apply_geospatial :: "'x txn_env \<Rightarrow> txn_id \<Rightarrow> lsn \<Rightarrow> table_id \<times> geo_spatial_op \<Rightarrow> ('x, unit) txn_action" where
  "apply_geospatial E t l = (\<lambda>(tb, op). on_table tb (\<lambda>e.
     case e of
       Eng_PagedRTree x \<Rightarrow>
         lift_x Eng_PagedRTree (xo_special (te_ops E)
           (case op of InsertGeometry i g \<Rightarrow> Sp_InsertGeometry i g | DeleteGeometry i \<Rightarrow> Sp_DeleteGeometry i) t l x)
     | _ \<Rightarrow> (Inl (message ''table is not a geospatial R-Tree table''), e)))"

definition apply_fulltext :: "'x txn_env \<Rightarrow> txn_id \<Rightarrow> lsn \<Rightarrow> table_id \<times> full_text_op \<Rightarrow> ('x, unit) txn_action" where
  "apply_fulltext E t l = (\<lambda>(tb, op). on_table tb (\<lambda>e.
     case e of
       Eng_PagedFullTextIndex x \<Rightarrow>
         lift_x Eng_PagedFullTextIndex (xo_special (te_ops E)
           (case op of IndexDocument d fs \<Rightarrow> Sp_IndexDocument d fs | UpdateDocument d fs \<Rightarrow> Sp_UpdateDocument d fs
            | DeleteDocument d \<Rightarrow> Sp_DeleteDocument d) t l x)
     | _ \<Rightarrow> (Inl (message ''table is not a full-text index''), e)))"

section \<open>The undo log\<close>

text \<open>The value a write replaces; the engines without undo give none.\<close>

definition undo_value :: "'x txn_env \<Rightarrow> 'x table_engine \<Rightarrow> bytes \<Rightarrow> lsn \<Rightarrow> txn_error + bytes option" where
  "undo_value E e k l =
     (case e of
        Eng_PagedBTree x \<Rightarrow> engine_get E e k l
      | Eng_LsmTree x \<Rightarrow> engine_get E e k l
      | Eng_MemoryBTree b \<Rightarrow> engine_get E e k l
      | Eng_MemoryHashTable h \<Rightarrow> engine_get E e k l
      | _ \<Rightarrow> Inr None)"

definition undo_write ::
    "'x txn_env \<Rightarrow> lsn \<Rightarrow> 'x db \<Rightarrow> undo_operation list \<Rightarrow> lock_key \<times> bytes option \<Rightarrow> txn_error + undo_operation list" where
  "undo_write E snap s ops = (\<lambda>((tb, k), v).
     case db_engines s tb of
       None \<Rightarrow> Inr ops
     | Some e \<Rightarrow>
         rbind (undo_value E e k snap) (\<lambda>old.
         Inr (case v of
             Some d \<Rightarrow> ops @ [RestoreValue tb k old]
           | None \<Rightarrow> (case old of Some d \<Rightarrow> ops @ [RestoreKey tb k d] | None \<Rightarrow> ops))))"

definition undo_graph :: "table_id \<times> graph_edge_op \<Rightarrow> undo_operation" where
  "undo_graph = (\<lambda>(tb, op). case op of
     AddEdge s lb d i \<Rightarrow> RemoveGraphEdge tb s lb d i | RemoveEdge s lb d i \<Rightarrow> RestoreGraphEdge tb s lb d i)"

definition undo_vector :: "table_id \<times> vector_op \<Rightarrow> undo_operation" where
  "undo_vector = (\<lambda>(tb, op). case op of InsertVector i v \<Rightarrow> RemoveVector tb i | DeleteVector i \<Rightarrow> RemoveVector tb i)"

definition undo_geospatial :: "table_id \<times> geo_spatial_op \<Rightarrow> undo_operation" where
  "undo_geospatial = (\<lambda>(tb, op). case op of InsertGeometry i g \<Rightarrow> RemoveGeometry tb i | DeleteGeometry i \<Rightarrow> RemoveGeometry tb i)"

definition undo_fulltext :: "table_id \<times> full_text_op \<Rightarrow> undo_operation" where
  "undo_fulltext = (\<lambda>(tb, op). case op of
     IndexDocument d fs \<Rightarrow> RemoveDocument tb d | UpdateDocument d fs \<Rightarrow> RemoveDocument tb d | DeleteDocument d \<Rightarrow> RemoveDocument tb d)"

definition collect_undo :: "'x txn_env \<Rightarrow> transaction \<Rightarrow> 'x db \<Rightarrow> txn_error + undo_operation list" where
  "collect_undo E tx s =
     rbind (fold_result (undo_write E (tx_snapshot_lsn tx) s) (te_write_order E (tx_write_set tx)) []) (\<lambda>ops.
     Inr (ops @ map undo_graph (tx_graph_write_set tx) @ map undo_vector (tx_vector_write_set tx) @
       map undo_geospatial (tx_geospatial_write_set tx) @ map undo_fulltext (tx_fulltext_write_set tx)))"

definition restore_value ::
    "'x txn_env \<Rightarrow> bytes \<Rightarrow> bytes option \<Rightarrow> txn_id \<Rightarrow> lsn \<Rightarrow> 'x table_engine \<Rightarrow> (txn_error + unit) \<times> 'x table_engine" where
  "restore_value E k old t l e =
     (case e of
        Eng_PagedBTree x \<Rightarrow> engine_write E k old t l e
      | Eng_LsmTree x \<Rightarrow> engine_write E k old t l e
      | Eng_MemoryBTree b \<Rightarrow> engine_write E k old t l e
      | Eng_MemoryHashTable h \<Rightarrow> engine_write E k old t l e
      | _ \<Rightarrow> (Inr (), e))"

definition restore_key ::
    "'x txn_env \<Rightarrow> bytes \<Rightarrow> bytes \<Rightarrow> txn_id \<Rightarrow> lsn \<Rightarrow> 'x table_engine \<Rightarrow> (txn_error + unit) \<times> 'x table_engine" where
  "restore_key E k old t l e =
     (case e of
        Eng_PagedBTree x \<Rightarrow> engine_write E k (Some old) t l e
      | Eng_LsmTree x \<Rightarrow> engine_write E k (Some old) t l e
      | _ \<Rightarrow> (Inr (), e))"

text \<open>A call that undoes an operation of a special table; engines of another kind are left alone.\<close>

definition special_undo ::
    "'x txn_env \<Rightarrow> special_op \<Rightarrow> txn_id \<Rightarrow> lsn \<Rightarrow> 'x table_engine \<Rightarrow> (txn_error + unit) \<times> 'x table_engine" where
  "special_undo E op t l e =
     (case (op, e) of
        (Sp_BloomTombstone k, Eng_PagedBloomFilter x) \<Rightarrow> lift_x Eng_PagedBloomFilter (xo_special (te_ops E) op t l x)
      | (Sp_PointTombstone k ts, Eng_TimeSeriesTable x) \<Rightarrow> lift_x Eng_TimeSeriesTable (xo_special (te_ops E) op t l x)
      | (Sp_DeleteVector i, Eng_PagedHnswVector x) \<Rightarrow> lift_x Eng_PagedHnswVector (xo_special (te_ops E) op t l x)
      | (Sp_InsertVector i v, Eng_PagedHnswVector x) \<Rightarrow> lift_x Eng_PagedHnswVector (xo_special (te_ops E) op t l x)
      | (Sp_DeleteGeometry i, Eng_PagedRTree x) \<Rightarrow> lift_x Eng_PagedRTree (xo_special (te_ops E) op t l x)
      | (Sp_InsertGeometry i g, Eng_PagedRTree x) \<Rightarrow> lift_x Eng_PagedRTree (xo_special (te_ops E) op t l x)
      | (Sp_DeleteDocument d, Eng_PagedFullTextIndex x) \<Rightarrow> lift_x Eng_PagedFullTextIndex (xo_special (te_ops E) op t l x)
      | (Sp_IndexDocument d fs, Eng_PagedFullTextIndex x) \<Rightarrow> lift_x Eng_PagedFullTextIndex (xo_special (te_ops E) op t l x)
      | _ \<Rightarrow> (Inr (), e))"

definition graph_undo ::
    "'x txn_env \<Rightarrow> graph_edge_op \<Rightarrow> txn_id \<Rightarrow> lsn \<Rightarrow> 'x table_engine \<Rightarrow> (txn_error + unit) \<times> 'x table_engine" where
  "graph_undo E op t l e = (case e of Eng_MemoryGraphTable g \<Rightarrow> graph_call E op t l g | _ \<Rightarrow> (Inr (), e))"

definition execute_undo :: "'x txn_env \<Rightarrow> transaction \<Rightarrow> undo_operation \<Rightarrow> ('x, unit) txn_action" where
  "execute_undo E tx op =
     (let t = tx_id tx; l = tx_snapshot_lsn tx in
      case op of
        RestoreValue tb k old \<Rightarrow> on_table tb (restore_value E k old t l)
      | RestoreKey tb k old \<Rightarrow> on_table tb (restore_key E k old t l)
      | RemoveBloomEntry tb k \<Rightarrow> on_table tb (special_undo E (Sp_BloomTombstone k) t l)
      | RemoveGraphEdge tb s lb d i \<Rightarrow> on_table tb (graph_undo E (RemoveEdge s lb d i) t l)
      | RestoreGraphEdge tb s lb d i \<Rightarrow> on_table tb (graph_undo E (AddEdge s lb d i) t l)
      | RemoveTimeSeriesPoint tb sk ts vk \<Rightarrow> on_table tb (special_undo E (Sp_PointTombstone sk ts) t l)
      | RemoveVector tb i \<Rightarrow> on_table tb (special_undo E (Sp_DeleteVector i) t l)
      | RestoreVector tb i v \<Rightarrow> on_table tb (special_undo E (Sp_InsertVector i v) t l)
      | RemoveGeometry tb i \<Rightarrow> on_table tb (special_undo E (Sp_DeleteGeometry i) t l)
      | RestoreGeometry tb i g \<Rightarrow> on_table tb (special_undo E (Sp_InsertGeometry i g) t l)
      | RemoveDocument tb d \<Rightarrow> on_table tb (special_undo E (Sp_DeleteDocument d) t l)
      | RestoreDocument tb d fs \<Rightarrow> on_table tb (special_undo E (Sp_IndexDocument d fs) t l))"

text \<open>Undoing goes from the last operation to the first and passes over errors.\<close>

definition undo_all :: "'x txn_env \<Rightarrow> transaction \<Rightarrow> undo_operation list \<Rightarrow> 'x db \<Rightarrow> 'x db" where
  "undo_all E tx ops s = fold (\<lambda>op s. snd (execute_undo E tx op s)) (rev ops) s"

section \<open>Commit\<close>

definition check_isolation :: "'x txn_env \<Rightarrow> transaction \<Rightarrow> ('x, unit) txn_action" where
  "check_isolation E tx s =
     (if tx_isolation tx = RepeatableRead \<or> tx_isolation tx = Serializable
      then (check_read_write_conflicts (db_detector s) (te_key_order E (tx_read_set tx)) (tx_id tx), s)
      else (Inr (), s))"

definition write_commit_record :: "'x txn_env \<Rightarrow> transaction \<Rightarrow> ('x, lsn) txn_action" where
  "write_commit_record E tx =
     pbind (wal_call E ''WAL commit failed'' (\<lambda>now nonce. write_commit (te_libs E) now nonce (tx_id tx))) (\<lambda>l.
     if tx_durability tx = FlushOnCommit then pbind wal_flush (\<lambda>_. pret l) else pret l)"

definition apply_all_changes :: "'x txn_env \<Rightarrow> transaction \<Rightarrow> ('x, unit) txn_action" where
  "apply_all_changes E tx =
     pmapM (\<lambda>((tb, k), v). on_table tb (engine_write E k v (tx_id tx) (tx_snapshot_lsn tx)))
       (te_write_order E (tx_write_set tx))"

definition release_all :: "transaction \<Rightarrow> ('x, unit) txn_action" where
  "release_all tx s = (Inr (), s\<lparr>db_detector := release_locks (tx_id tx) (db_detector s)\<rparr>)"

definition abort_apply :: "'x txn_env \<Rightarrow> transaction \<Rightarrow> undo_operation list \<Rightarrow> txn_error \<Rightarrow> ('x, 'a) txn_action" where
  "abort_apply E tx undo err =
     pbind (\<lambda>s. pret () (undo_all E tx undo s)) (\<lambda>_.
     pbind (wal_call E ''WAL rollback failed'' (\<lambda>now nonce. write_rollback (te_libs E) now nonce (tx_id tx))) (\<lambda>_.
     pbind (release_all tx) (\<lambda>_.
     perr err)))"

definition apply_special :: "'x txn_env \<Rightarrow> transaction \<Rightarrow> lsn \<Rightarrow> ('x, unit) txn_action" where
  "apply_special E tx l =
     pbind (pmapM (apply_bloom E (tx_id tx) l) (te_key_order E (tx_bloom_write_set tx))) (\<lambda>_.
     pbind (pmapM (apply_graph E (tx_id tx) l) (tx_graph_write_set tx)) (\<lambda>_.
     pbind (pmapM (apply_timeseries E (tx_id tx) l) (tx_timeseries_write_set tx)) (\<lambda>_.
     pbind (pmapM (apply_vector E (tx_id tx) l) (tx_vector_write_set tx)) (\<lambda>_.
     pbind (pmapM (apply_geospatial E (tx_id tx) l) (tx_geospatial_write_set tx)) (\<lambda>_.
     pmapM (apply_fulltext E (tx_id tx) l) (tx_fulltext_write_set tx))))))"

definition modified_tables :: "transaction \<Rightarrow> table_id list" where
  "modified_tables tx =
     remdups (map (fst \<circ> fst) (tx_write_set tx) @ map fst (tx_bloom_write_set tx) @ map fst (tx_graph_write_set tx) @
       map fst (tx_timeseries_write_set tx) @ map fst (tx_vector_write_set tx) @ map fst (tx_geospatial_write_set tx) @
       map fst (tx_fulltext_write_set tx))"

definition commit_tables :: "'x txn_env \<Rightarrow> transaction \<Rightarrow> lsn \<Rightarrow> ('x, unit) txn_action" where
  "commit_tables E tx l =
     pmapM (\<lambda>tb. on_table tb (engine_commit E (tx_id tx) (tx_snapshot_lsn tx) l)) (te_table_order E (modified_tables tx))"

definition finish_commit :: "'x txn_env \<Rightarrow> transaction \<Rightarrow> lsn \<Rightarrow> ('x, commit_info) txn_action" where
  "finish_commit E tx l =
     pbind (apply_special E tx l) (\<lambda>_.
     pbind (commit_tables E tx l) (\<lambda>_.
     pbind (\<lambda>s. pret () (s\<lparr>db_current_lsn := l\<rparr>)) (\<lambda>_.
     pbind (release_all tx) (\<lambda>_.
     pret \<lparr>ci_tx_id = tx_id tx, ci_commit_lsn = l, ci_durable_lsn = Some l\<rparr>))))"

definition txn_commit :: "'x txn_env \<Rightarrow> transaction \<Rightarrow> ('x, commit_info) txn_action" where
  "txn_commit E tx =
     (if tx_state tx \<noteq> Txn_Active \<and> tx_state tx \<noteq> Txn_Preparing then perr (invalid_state tx ''commit'')
      else pbind (\<lambda>s. plift (collect_undo E tx s) s) (\<lambda>undo.
      pbind (wal_call E ''WAL prepare failed'' (\<lambda>now nonce. write_prepare (te_libs E) now nonce (tx_id tx))) (\<lambda>_.
      pbind (check_isolation E tx) (\<lambda>_.
      pbind (write_commit_record E tx) (\<lambda>l s.
      case apply_all_changes E tx s of
        (Inl err, s) \<Rightarrow> abort_apply E tx undo err s
      | (Inr _, s) \<Rightarrow> finish_commit E tx l s)))))"

definition txn_rollback :: "'x txn_env \<Rightarrow> transaction \<Rightarrow> ('x, unit) txn_action" where
  "txn_rollback E tx =
     (if tx_state tx \<noteq> Txn_Active \<and> tx_state tx \<noteq> Txn_Preparing then perr (invalid_state tx ''rollback'')
      else pbind (wal_call E ''WAL rollback failed'' (\<lambda>now nonce. write_rollback (te_libs E) now nonce (tx_id tx))) (\<lambda>_.
      release_all tx))"

end
