(* ===== verification/TxnTables.thy ===== *)
theory TxnTables
  imports Transaction
begin

text \<open>
  What a commit does to the tables of the database: actions that change nothing but tables, the
  effect of applying a write set on each table, and of committing versions. The tables in memory
  that keep versions, B-trees and hash tables, are treated together through their data.
\<close>

section \<open>Actions on tables only\<close>

definition only_tables :: "('x, 'a) txn_action \<Rightarrow> bool" where
  "only_tables a \<longleftrightarrow> (\<forall>s. \<exists>m. snd (a s) = s\<lparr>db_engines := m\<rparr>)"

lemma only_tablesD:
  assumes "only_tables a" and "a s = (r, s')"
  shows "db_wal s' = db_wal s" "db_detector s' = db_detector s" "db_current_lsn s' = db_current_lsn s"
    "db_draws s' = db_draws s"
proof -
  obtain m where "s' = s\<lparr>db_engines := m\<rparr>"
    using assms unfolding only_tables_def by (metis snd_conv)
  then show "db_wal s' = db_wal s" "db_detector s' = db_detector s" "db_current_lsn s' = db_current_lsn s"
    "db_draws s' = db_draws s"
    by simp_all
qed

lemma only_tables_pret [intro!]: "only_tables (pret a)"
proof -
  have "snd (pret a s) = s\<lparr>db_engines := db_engines s\<rparr>" for s :: "'x db"
    by (simp add: pret_def)
  then show ?thesis
    unfolding only_tables_def by blast
qed

lemma only_tables_pbind [intro!]:
  assumes "only_tables a" and "\<And>x. only_tables (f x)"
  shows "only_tables (pbind a f)"
  unfolding only_tables_def
proof
  fix s
  obtain r m where a: "a s = (r, s\<lparr>db_engines := m\<rparr>)"
    using assms(1) unfolding only_tables_def by (metis prod.collapse)
  show "\<exists>m. snd (pbind a f s) = s\<lparr>db_engines := m\<rparr>"
  proof (cases r)
    case (Inl e)
    then show ?thesis
      using a by (auto simp: pbind_def)
  next
    case (Inr x)
    obtain m' where "snd (f x (s\<lparr>db_engines := m\<rparr>)) = s\<lparr>db_engines := m, db_engines := m'\<rparr>"
      using assms(2) unfolding only_tables_def by blast
    then show ?thesis
      using a Inr by (auto simp: pbind_def)
  qed
qed

lemma only_tables_pmapM: "(\<And>x. only_tables (f x)) \<Longrightarrow> only_tables (pmapM f xs)"
  by (induction xs) auto

lemma only_tables_on_table [intro!]: "only_tables (on_table tb f)"
  unfolding only_tables_def
proof
  fix s
  show "\<exists>m. snd (on_table tb f s) = s\<lparr>db_engines := m\<rparr>"
  proof (cases "db_engines s tb")
    case None
    then show ?thesis
      by (intro exI [of _ "db_engines s"]) (simp add: on_table_def)
  qed (auto simp: on_table_def split: prod.split)
qed

lemma only_tables_apply_all [intro!]: "only_tables (apply_all_changes E tx)"
  unfolding apply_all_changes_def by (rule only_tables_pmapM) (auto split: prod.split)

lemma only_tables_special [intro!]: "only_tables (apply_special E tx l)"
  unfolding apply_special_def
  by (intro only_tables_pbind only_tables_pmapM)
    (auto simp: apply_bloom_def apply_graph_def apply_timeseries_def apply_vector_def apply_geospatial_def
      apply_fulltext_def split: prod.split)

lemma only_tables_commit [intro!]: "only_tables (commit_tables E tx l)"
  unfolding commit_tables_def by (rule only_tables_pmapM) auto

lemma only_tables_undo: "\<exists>m. undo_all E tx ops s = s\<lparr>db_engines := m\<rparr>"
proof -
  have one: "only_tables (execute_undo E tx op)" for op
    by (cases op) (auto simp: execute_undo_def Let_def)
  have "\<exists>m. fold (\<lambda>op s. snd (execute_undo E tx op s)) ops s = s\<lparr>db_engines := m\<rparr>" for ops
  proof (induction ops arbitrary: s)
    case Nil
    have "s = s\<lparr>db_engines := db_engines s\<rparr>"
      by simp
    then show ?case
      by (metis fold_simps(1))
  next
    case (Cons op ops)
    obtain m where m: "snd (execute_undo E tx op s) = s\<lparr>db_engines := m\<rparr>"
      using one unfolding only_tables_def by blast
    obtain m' where "fold (\<lambda>op s. snd (execute_undo E tx op s)) ops (s\<lparr>db_engines := m\<rparr>) = s\<lparr>db_engines := m, db_engines := m'\<rparr>"
      using Cons by blast
    then show ?case
      using m by auto
  qed
  then show ?thesis
    by (simp add: undo_all_def)
qed

section \<open>The calls of a loop on each table\<close>

definition changes_of :: "table_id \<Rightarrow> (lock_key \<times> bytes option) list \<Rightarrow> change list" where
  "changes_of tb ws = map (\<lambda>((_, k), v). (k, v)) (filter (\<lambda>((tb', _), _). tb' = tb) ws)"

lemma changes_of_simps [simp]:
  "changes_of tb [] = []"
  "changes_of tb (((tb', k), v) # ws) = (if tb' = tb then (k, v) # changes_of tb ws else changes_of tb ws)"
  by (simp_all add: changes_of_def)

lemma changes_nonempty: "changes_of tb ws \<noteq> [] \<Longrightarrow> \<exists>k v. ((tb, k), v) \<in> set ws"
proof (induction ws)
  case (Cons w ws)
  obtain tb' k v where "w = ((tb', k), v)"
    by (metis prod.collapse)
  then show ?case
    using Cons by (cases "tb' = tb") auto
qed simp

text \<open>The versions of a table in memory, B-tree or hash table, and what a reader makes of a version.\<close>

fun engine_data :: "'x table_engine \<Rightarrow> versioned option" where
  "engine_data (Eng_MemoryBTree b) = Some (mb_data b)"
| "engine_data (Eng_MemoryHashTable h) = Some (mh_data h)"
| "engine_data _ = None"

fun engine_view :: "'x table_engine \<Rightarrow> bytes option \<Rightarrow> bytes option" where
  "engine_view (Eng_MemoryHashTable h) v = live v"
| "engine_view _ v = v"

lemma engine_get_data: "engine_data e = Some m \<Longrightarrow> engine_get E e k n = Inr (engine_view e (read_at m k n))"
  by (cases e) (auto simp: engine_get_def btree_get_eq hash_get_eq)

text \<open>A B-tree takes puts only: a deletion takes the versions of the key away.\<close>

fun takes :: "'x table_engine \<Rightarrow> bytes option \<Rightarrow> bool" where
  "takes (Eng_MemoryBTree b) v \<longleftrightarrow> v \<noteq> None"
| "takes (Eng_MemoryHashTable h) v \<longleftrightarrow> True"
| "takes _ v \<longleftrightarrow> False"

definition change_data :: "txn_id \<Rightarrow> change \<Rightarrow> versioned \<Rightarrow> versioned" where
  "change_data t = (\<lambda>(k, v) m. case v of
     Some d \<Rightarrow> push_version k d t m | None \<Rightarrow> if bt_get m k = None then m else push_version k [] t m)"

lemma push_existing: "bt_get m k = Some c \<Longrightarrow> push_version k [] t m = bt_insert k (VersionChain (VInline []) t None (Some c)) m"
  by (simp add: push_version_def prepend_def)

lemma engine_write_data:
  assumes "takes e v" and "engine_data e = Some m"
  shows "\<exists>e'. engine_write E k v t l e = (Inr (), e') \<and> engine_data e' = Some (change_data t (k, v) m) \<and>
    engine_view e' = engine_view e \<and> takes e' = takes e"
proof (cases e)
  case (Eng_MemoryBTree b)
  then obtain d where "v = Some d"
    using assms(1) by auto
  then show ?thesis
    using Eng_MemoryBTree assms(2)
    by (auto simp: engine_write_def btree_write_one_def btree_flush_def btree_put_def btree_writer_new_def
        btree_flush_change_def change_data_def Let_def fun_eq_iff)
next
  case (Eng_MemoryHashTable h)
  then show ?thesis
    using assms(2) push_version_insert [of k _ t m] push_existing [of m k]
    by (auto simp: engine_write_def hash_write_one_def hash_flush_def hash_writer_put_def hash_writer_delete_def
        hash_writer_new_def hash_flush_change_def change_data_def Let_def fun_eq_iff split: option.split)
qed (use assms in auto)

definition writes_fit :: "'x db \<Rightarrow> (lock_key \<times> bytes option) list \<Rightarrow> bool" where
  "writes_fit s ws \<longleftrightarrow> (\<forall>((tb, k), v)\<in>set ws. \<exists>e. db_engines s tb = Some e \<and> takes e v)"

lemma takes_data: "takes e v \<Longrightarrow> \<exists>m. engine_data e = Some m"
  by (cases e) auto

text \<open>Applying changes succeeds on such tables, and each table gets its own changes in order.\<close>

lemma apply_changes:
  assumes "writes_fit s ws"
  shows "\<exists>m. pmapM (\<lambda>((tb, k), v). on_table tb (engine_write E k v t l)) ws s = (Inr (), s\<lparr>db_engines := m\<rparr>) \<and>
    (\<forall>tb e d. db_engines s tb = Some e \<longrightarrow> engine_data e = Some d \<longrightarrow>
      (\<exists>e'. m tb = Some e' \<and> engine_data e' = Some (fold (change_data t) (changes_of tb ws) d) \<and>
        engine_view e' = engine_view e \<and> takes e' = takes e)) \<and>
    (\<forall>tb. changes_of tb ws = [] \<longrightarrow> m tb = db_engines s tb)"
  using assms
proof (induction ws arbitrary: s)
  case Nil
  show ?case
    by (rule exI [of _ "db_engines s"]) (simp add: pret_def)
next
  case (Cons w ws)
  obtain tb0 k v where w: "w = ((tb0, k), v)"
    by (metis prod.collapse)
  obtain e0 where e0: "db_engines s tb0 = Some e0" "takes e0 v"
    using Cons.prems by (auto simp: writes_fit_def w)
  obtain d0 where d0: "engine_data e0 = Some d0"
    using takes_data [OF e0(2)] by blast
  obtain e1 where e1: "engine_write E k v t l e0 = (Inr (), e1)" "engine_data e1 = Some (change_data t (k, v) d0)"
    "engine_view e1 = engine_view e0" "takes e1 = takes e0"
    using engine_write_data [OF e0(2) d0] by blast
  let ?s = "s\<lparr>db_engines := (db_engines s)(tb0 \<mapsto> e1)\<rparr>"
  have step: "on_table tb0 (engine_write E k v t l) s = (Inr (), ?s)"
    using e0 e1 by (simp add: on_table_def)
  have "writes_fit ?s ws"
    using Cons.prems e0(1) e1(4) by (fastforce simp: writes_fit_def)
  from Cons.IH [OF this] obtain m where m:
    "pmapM (\<lambda>((tb, k), v). on_table tb (engine_write E k v t l)) ws ?s = (Inr (), ?s\<lparr>db_engines := m\<rparr>)"
    "\<And>tb e d. db_engines ?s tb = Some e \<Longrightarrow> engine_data e = Some d \<Longrightarrow>
      (\<exists>e'. m tb = Some e' \<and> engine_data e' = Some (fold (change_data t) (changes_of tb ws) d) \<and>
        engine_view e' = engine_view e \<and> takes e' = takes e)"
    "\<And>tb. changes_of tb ws = [] \<Longrightarrow> m tb = db_engines ?s tb"
    by blast
  have "\<exists>e'. m tb = Some e' \<and> engine_data e' = Some (fold (change_data t) (changes_of tb (w # ws)) d) \<and>
      engine_view e' = engine_view e \<and> takes e' = takes e"
    if "db_engines s tb = Some e" "engine_data e = Some d" for tb e d
  proof (cases "tb = tb0")
    case True
    then have "e = e0" "d = d0"
      using that e0 d0 by auto
    then show ?thesis
      using m(2) [of tb e1] e1 True by (simp add: w)
  next
    case False
    then show ?thesis
      using m(2) [of tb e d] that by (simp add: w)
  qed
  moreover have "m tb = db_engines s tb" if "changes_of tb (w # ws) = []" for tb
    using m(3) [of tb] that by (auto simp: w split: if_splits)
  ultimately show ?case
    using m(1) step by (intro exI [of _ m]) (simp add: w pbind_def)
qed

lemma engine_commit_data:
  assumes "engine_data e = Some m"
  shows "\<exists>e'. engine_commit E t snap l e = (Inr (), e') \<and> engine_data e' = Some (commit_heads t l m) \<and>
    engine_view e' = engine_view e"
  using assms
  by (cases e) (auto simp: engine_commit_def btree_commit_versions_def btree_writer_new_def hash_writer_commit_versions_def
      hash_commit_versions_def hash_writer_new_def fun_eq_iff)

lemma commit_loop:
  assumes "distinct tbs" and "\<forall>tb\<in>set tbs. \<exists>e d. db_engines s tb = Some e \<and> engine_data e = Some d"
  shows "\<exists>m. pmapM (\<lambda>tb. on_table tb (engine_commit E t snap l)) tbs s = (Inr (), s\<lparr>db_engines := m\<rparr>) \<and>
    (\<forall>tb. tb \<notin> set tbs \<longrightarrow> m tb = db_engines s tb) \<and>
    (\<forall>tb e d. tb \<in> set tbs \<longrightarrow> db_engines s tb = Some e \<longrightarrow> engine_data e = Some d \<longrightarrow>
      (\<exists>e'. m tb = Some e' \<and> engine_data e' = Some (commit_heads t l d) \<and> engine_view e' = engine_view e))"
  using assms
proof (induction tbs arbitrary: s)
  case Nil
  show ?case
    by (rule exI [of _ "db_engines s"]) (simp add: pret_def)
next
  case (Cons tb0 tbs)
  obtain e0 d0 where e0: "db_engines s tb0 = Some e0" "engine_data e0 = Some d0"
    using Cons.prems(2) by auto
  obtain e1 where e1: "engine_commit E t snap l e0 = (Inr (), e1)" "engine_data e1 = Some (commit_heads t l d0)"
    "engine_view e1 = engine_view e0"
    using engine_commit_data [OF e0(2)] by blast
  let ?s = "s\<lparr>db_engines := (db_engines s)(tb0 \<mapsto> e1)\<rparr>"
  have step: "on_table tb0 (engine_commit E t snap l) s = (Inr (), ?s)"
    using e0 e1 by (simp add: on_table_def)
  have "distinct tbs" "\<forall>tb\<in>set tbs. \<exists>e d. db_engines ?s tb = Some e \<and> engine_data e = Some d"
    using Cons.prems e1(2) by auto
  from Cons.IH [OF this] obtain m where m:
    "pmapM (\<lambda>tb. on_table tb (engine_commit E t snap l)) tbs ?s = (Inr (), ?s\<lparr>db_engines := m\<rparr>)"
    "\<And>tb. tb \<notin> set tbs \<Longrightarrow> m tb = db_engines ?s tb"
    "\<And>tb e d. tb \<in> set tbs \<Longrightarrow> db_engines ?s tb = Some e \<Longrightarrow> engine_data e = Some d \<Longrightarrow>
      (\<exists>e'. m tb = Some e' \<and> engine_data e' = Some (commit_heads t l d) \<and> engine_view e' = engine_view e)"
    by blast
  have "\<exists>e'. m tb = Some e' \<and> engine_data e' = Some (commit_heads t l d) \<and> engine_view e' = engine_view e"
    if "tb \<in> set (tb0 # tbs)" "db_engines s tb = Some e" "engine_data e = Some d" for tb e d
  proof (cases "tb = tb0")
    case True
    then show ?thesis
      using m(2) [of tb] e0 e1 that Cons.prems(1) by auto
  next
    case False
    then show ?thesis
      using m(3) [of tb e d] that by auto
  qed
  moreover have "m tb = db_engines s tb" if "tb \<notin> set (tb0 # tbs)" for tb
    using m(2) [of tb] that by simp
  ultimately show ?case
    using m(1) step by (intro exI [of _ m]) (simp add: pbind_def)
qed

section \<open>Data after a transaction\<close>

lemma fold_change_data:
  assumes "distinct (map fst cs)" and "\<And>k. k \<in> fst ` set cs \<Longrightarrow> bt_get m k = None \<longleftrightarrow> bt_get m0 k = None"
  shows "fold (change_data t) cs m = put_all t (effective m0 cs) m"
  using assms
proof (induction cs arbitrary: m)
  case (Cons c cs)
  obtain k v where c: "c = (k, v)"
    by fastforce
  let ?m = "change_data t c m"
  have other: "bt_get ?m j = bt_get m j" if "j \<noteq> k" for j
    using that by (auto simp: c change_data_def push_version_def split: option.split)
  have "bt_get ?m j = None \<longleftrightarrow> bt_get m0 j = None" if "j \<in> fst ` set cs" for j
  proof -
    have "j \<noteq> k"
      using Cons.prems(1) that by (auto simp: c)
    then show ?thesis
      using other [of j] Cons.prems(2) [of j] that by (simp add: c)
  qed
  then have "fold (change_data t) cs ?m = put_all t (effective m0 cs) ?m"
    using Cons.prems(1) by (intro Cons.IH) (auto simp: c)
  moreover have "put_all t (effective m0 [c]) m = ?m"
    using Cons.prems(2) [of k] by (auto simp: c effective_def change_data_def put_all_def split: option.split)
  moreover have "put_all t (effective m0 (c # cs)) m = put_all t (effective m0 cs) (put_all t (effective m0 [c]) m)"
    using effective_append [of m0 "[c]" cs] by (simp add: put_all_def)
  ultimately show ?case
    by simp
qed (simp add: effective_def put_all_def)

lemma keys_changes: "k \<in> fst ` set (changes_of tb ws) \<longleftrightarrow> (tb, k) \<in> fst ` set ws"
proof (induction ws)
  case (Cons w ws)
  obtain tb' j v where w: "w = ((tb', j), v)"
    by (metis prod.collapse)
  then show ?case
    using Cons by auto
qed simp

lemma map_of_changes:
  assumes "distinct (map fst ws)"
  shows "distinct (map fst (changes_of tb ws))" "map_of (changes_of tb ws) k = map_of ws (tb, k)"
proof -
  show "distinct (map fst (changes_of tb ws))"
    using assms
  proof (induction ws)
    case (Cons w ws)
    obtain tb' j v where w: "w = ((tb', j), v)"
      by (metis prod.collapse)
    then show ?case
      using Cons keys_changes [of j tb ws] by auto
  qed simp
  show "map_of (changes_of tb ws) k = map_of ws (tb, k)"
    by (induction ws) (auto split: prod.split)
qed

lemma deletes_first_distinct: "distinct (map fst cs) \<Longrightarrow> deletes_first cs"
  by (induction cs) (auto simp: deletes_first_def rev_image_eqI)

lemma map_of_rev_distinct: "distinct (map fst xs) \<Longrightarrow> map_of (rev xs) = map_of xs"
  by (metis distinct_rev map_of_eqI map_of_eq_Some_iff rev_map set_rev map_of_inject_set)

text \<open>What readers find in the data of a table after its changes are applied and committed.\<close>

lemma committed_read:
  assumes "settled_before l d" and "distinct (map fst cs)"
  shows "live (read_at (commit_heads t l (fold (change_data t) cs d)) k n) =
      live (if l \<le> n then case map_of cs k of Some v \<Rightarrow> v | None \<Rightarrow> read_at d k n else read_at d k n)"
    and "\<forall>(k, v)\<in>set cs. v \<noteq> None \<Longrightarrow> read_at (commit_heads t l (fold (change_data t) cs d)) k n =
      (if l \<le> n then case map_of cs k of Some v \<Rightarrow> v | None \<Rightarrow> read_at d k n else read_at d k n)"
proof -
  have data: "fold (change_data t) cs d = put_all t (effective d cs) d"
    by (rule fold_change_data [OF assms(2)]) simp
  have eff: "map_of (rev (effective d cs)) k =
    (case map_of cs k of None \<Rightarrow> None | Some (Some v) \<Rightarrow> Some v | Some None \<Rightarrow> if bt_get d k = None then None else Some [])"
    using map_of_effective [OF deletes_first_distinct [OF assms(2)], of d k] map_of_rev_distinct [OF assms(2)] by simp
  note rd = commit_read_at [OF assms(1), of t "effective d cs" k n]
  show "live (read_at (commit_heads t l (fold (change_data t) cs d)) k n) =
      live (if l \<le> n then case map_of cs k of Some v \<Rightarrow> v | None \<Rightarrow> read_at d k n else read_at d k n)"
    unfolding data rd eff by (auto simp: live_def read_at_def split: option.splits)
  show "read_at (commit_heads t l (fold (change_data t) cs d)) k n =
      (if l \<le> n then case map_of cs k of Some v \<Rightarrow> v | None \<Rightarrow> read_at d k n else read_at d k n)"
    if "\<forall>(k, v)\<in>set cs. v \<noteq> None"
  proof -
    have "map_of cs k \<noteq> Some None"
      using that by (auto dest: map_of_SomeD)
    then show ?thesis
      unfolding data rd eff by (auto split: option.splits)
  qed
qed

end
