(* ===== verification/WalRecovery.thy ===== *)
theory WalRecovery
  imports WalLog
begin

text \<open>
  Crash recovery (\<open>src/src/wal/recovery.rs\<close>): a fold of \<open>process_record\<close> over the records of the
  log, and the result built from it. The warnings printed for checkpoints that disagree with the
  tracked transactions change no state. The abstract specification of a log is the writes of its
  committed transactions, in the order of the transaction ids.
\<close>

section \<open>State\<close>

datatype transaction_state = TxActive | TxCommitted | TxRolledBack

record recovered_write =
  rw_table_id :: table_id
  rw_op_type :: write_op_type
  rw_key :: bytes
  rw_value :: bytes

record recovery_result =
  res_last_checkpoint_lsn :: "lsn option"
  res_committed_writes :: "recovered_write list"
  res_active_transactions :: "txn_id set"
  res_records_processed :: nat

record wal_recovery =
  rc_transactions :: "(txn_id, transaction_state) btmap"
  rc_transaction_writes :: "(txn_id, recovered_write list) btmap"
  rc_last_checkpoint_lsn :: "lsn option"
  rc_checkpoint_active_txns :: "txn_id set option"
  rc_records_processed :: nat

definition recovery_new :: wal_recovery where
  "recovery_new =
     \<lparr>rc_transactions = [], rc_transaction_writes = [], rc_last_checkpoint_lsn = None,
      rc_checkpoint_active_txns = None, rc_records_processed = 0\<rparr>"

section \<open>Processing records\<close>

definition process_begin :: "txn_id \<Rightarrow> wal_recovery \<Rightarrow> wal_error + wal_recovery" where
  "process_begin t s =
     Inr (s\<lparr>rc_transactions := bt_insert t TxActive (rc_transactions s),
            rc_transaction_writes := bt_insert t [] (rc_transaction_writes s)\<rparr>)"

definition process_write ::
    "txn_id \<Rightarrow> table_id \<Rightarrow> write_op_type \<Rightarrow> bytes \<Rightarrow> bytes \<Rightarrow> wal_recovery \<Rightarrow> wal_error + wal_recovery"
where
  "process_write t tb op_type key val s =
     (if bt_get (rc_transactions s) t = None then Inl (RecoveryError 0 ''Write'')
      else case bt_get (rc_transaction_writes s) t of
        None \<Rightarrow> Inl WalPanic
      | Some ws \<Rightarrow>
          let rw = \<lparr>rw_table_id = tb, rw_op_type = op_type, rw_key = key, rw_value = val\<rparr> in
          Inr (s\<lparr>rc_transaction_writes := bt_insert t (ws @ [rw]) (rc_transaction_writes s)\<rparr>))"

definition process_commit :: "txn_id \<Rightarrow> wal_recovery \<Rightarrow> wal_error + wal_recovery" where
  "process_commit t s =
     (if bt_get (rc_transactions s) t = None then Inl (RecoveryError 0 ''Commit'')
      else Inr (s\<lparr>rc_transactions := bt_insert t TxCommitted (rc_transactions s)\<rparr>))"

definition process_rollback :: "txn_id \<Rightarrow> wal_recovery \<Rightarrow> wal_error + wal_recovery" where
  "process_rollback t s =
     (if bt_get (rc_transactions s) t = None then Inl (RecoveryError 0 ''Rollback'')
      else Inr (s\<lparr>rc_transactions := bt_insert t TxRolledBack (rc_transactions s),
                  rc_transaction_writes := bt_remove t (rc_transaction_writes s)\<rparr>))"

definition process_checkpoint :: "lsn \<Rightarrow> txn_id list \<Rightarrow> wal_recovery \<Rightarrow> wal_error + wal_recovery" where
  "process_checkpoint l ts s =
     Inr (s\<lparr>rc_last_checkpoint_lsn := Some l, rc_checkpoint_active_txns := Some (set ts)\<rparr>)"

definition process_record :: "wal_recovery \<Rightarrow> wal_record \<Rightarrow> wal_error + wal_recovery" where
  "process_record s r =
     (let s = s\<lparr>rc_records_processed := rc_records_processed s + 1\<rparr> in
      case rec_data r of
        Begin t \<Rightarrow> process_begin t s
      | Write t tb op_type key val \<Rightarrow> process_write t tb op_type key val s
      | Commit t \<Rightarrow> process_commit t s
      | Rollback t \<Rightarrow> process_rollback t s
      | Checkpoint l ts \<Rightarrow> process_checkpoint l ts s
      | Prepare t \<Rightarrow> process_begin t s)"

definition build_result :: "wal_recovery \<Rightarrow> recovery_result" where
  "build_result s =
     \<lparr>res_last_checkpoint_lsn = rc_last_checkpoint_lsn s,
      res_committed_writes =
        concat (map (\<lambda>(t, st). if st = TxCommitted
                       then (case bt_get (rc_transaction_writes s) t of Some ws \<Rightarrow> ws | None \<Rightarrow> [])
                       else []) (rc_transactions s)),
      res_active_transactions = set (map fst (filter (\<lambda>(t, st). st = TxActive) (rc_transactions s))),
      res_records_processed = rc_records_processed s\<rparr>"

function recover_loop :: "libs \<Rightarrow> wal_reader \<Rightarrow> wal_recovery \<Rightarrow> wal_error + wal_recovery" where
  "recover_loop L rd s =
     (case read_next L rd of
        Inl e \<Rightarrow> Inl e
      | Inr (None, rd') \<Rightarrow> Inr s
      | Inr (Some r, rd') \<Rightarrow> rbind (process_record s r) (recover_loop L rd'))"
  by pat_completeness auto
termination
  by (relation "measure (\<lambda>(L, rd, acc). rd_file_size rd - rd_offset rd)")
    (auto dest: read_next_decreases)

declare recover_loop.simps [simp del]

definition recover_with_key ::
    "libs \<Rightarrow> memory_fs \<Rightarrow> string \<Rightarrow> bytes option \<Rightarrow> wal_error + recovery_result" where
  "recover_with_key L fs path key =
     rbind (reader_open fs path key) (\<lambda>rd.
     rbind (recover_loop L rd recovery_new) (\<lambda>s. Inr (build_result s)))"

definition recover :: "libs \<Rightarrow> memory_fs \<Rightarrow> string \<Rightarrow> wal_error + recovery_result" where
  "recover L fs path = recover_with_key L fs path None"

section \<open>The specification of a log\<close>

fun write_of :: "txn_id \<Rightarrow> record_data \<Rightarrow> recovered_write list" where
  "write_of t (Write t' tb op_type key val) =
     (if t = t' then [\<lparr>rw_table_id = tb, rw_op_type = op_type, rw_key = key, rw_value = val\<rparr>] else [])"
| "write_of t _ = []"

definition writes_of :: "txn_id \<Rightarrow> record_data list \<Rightarrow> recovered_write list" where
  "writes_of t ds = concat (map (write_of t) ds)"

definition committed_writes :: "record_data list \<Rightarrow> recovered_write list" where
  "committed_writes ds =
     concat (map (\<lambda>t. writes_of t ds) (sorted_list_of_set {t. Commit t \<in> set ds}))"

text \<open>Transaction ids are not reused, and the log has no \<open>PREPARE\<close> record.\<close>

definition begins :: "record_data list \<Rightarrow> txn_id list" where
  "begins ds = concat (map (\<lambda>d. case d of Begin t \<Rightarrow> [t] | _ \<Rightarrow> []) ds)"

definition simple_log :: "record_data list \<Rightarrow> bool" where
  "simple_log ds \<longleftrightarrow> distinct (begins ds) \<and> (\<forall>t. Prepare t \<notin> set ds)"

lemma set_begins [simp]: "set (begins ds) = {t. Begin t \<in> set ds}"
  by (induction ds) (auto simp: begins_def split: record_data.splits)

lemma spec_snoc [simp]:
  "writes_of t (ds @ [d]) = writes_of t ds @ write_of t d"
  "begins (ds @ [d]) = begins ds @ (case d of Begin t \<Rightarrow> [t] | _ \<Rightarrow> [])"
  by (simp_all add: writes_of_def begins_def)

text \<open>In a legal log only a begun transaction acts, and what is active has begun.\<close>

lemma legal_begun:
  "legal_log ds A \<Longrightarrow> (\<forall>t\<in>A. Begin t \<in> set ds) \<and>
     (\<forall>t. Commit t \<in> set ds \<or> Rollback t \<in> set ds \<or> writes_of t ds \<noteq> [] \<longrightarrow>
       Begin t \<in> set ds)"
proof (induction rule: legal_log.induct)
  case legal_Nil
  then show ?case by (simp add: writes_of_def)
next
  case (legal_snoc ds A d)
  then show ?case by (cases d) (auto split: if_splits)
qed

section \<open>The invariant of the fold\<close>

definition recovered :: "wal_recovery \<Rightarrow> record_data list \<Rightarrow> txn_id set \<Rightarrow> bool" where
  "recovered s ds A \<longleftrightarrow>
     bt_wf (rc_transactions s) \<and> bt_wf (rc_transaction_writes s) \<and>
     (\<forall>t. bt_get (rc_transactions s) t =
        (if t \<in> A then Some TxActive
         else if Commit t \<in> set ds then Some TxCommitted
         else if Rollback t \<in> set ds then Some TxRolledBack else None)) \<and>
     (\<forall>t. bt_get (rc_transaction_writes s) t =
        (if t \<in> A \<or> Commit t \<in> set ds then Some (writes_of t ds) else None)) \<and>
     (\<forall>t\<in>A. Commit t \<notin> set ds \<and> Rollback t \<notin> set ds) \<and>
     (\<forall>t. \<not> (Commit t \<in> set ds \<and> Rollback t \<in> set ds)) \<and>
     rc_records_processed s = length ds"

lemma recovered_new: "recovered recovery_new [] {}"
  by (simp add: recovered_def recovery_new_def)

lemma recovered_step:
  assumes "recovered s ds A" and "legal_log ds A" and "permitted (rec_data r) A"
    and "simple_log (ds @ [rec_data r])"
  shows "\<exists>s'. process_record s r = Inr s' \<and> recovered s' (ds @ [rec_data r]) (track_active (rec_data r) A)"
proof (cases "rec_data r")
  case (Begin t)
  have fresh: "Begin t \<notin> set ds"
    using assms(4) Begin by (auto simp: simple_log_def)
  then have "t \<notin> A" "Commit t \<notin> set ds" "Rollback t \<notin> set ds" "writes_of t ds = []"
    using legal_begun [OF assms(2)] by (auto simp: writes_of_def)
  then show ?thesis
    using assms(1) Begin
    by (auto simp: process_record_def process_begin_def recovered_def)
next
  case (Write t tb op_type key val)
  then show ?thesis
    using assms(1,3)
    by (auto simp: process_record_def process_write_def recovered_def)
next
  case (Commit t)
  then show ?thesis
    using assms(1,3)
    by (auto simp: process_record_def process_commit_def recovered_def)
next
  case (Rollback t)
  then show ?thesis
    using assms(1,3)
    by (auto simp: process_record_def process_rollback_def recovered_def)
next
  case (Checkpoint l ts)
  then show ?thesis
    using assms(1,3)
    by (auto simp: process_record_def process_checkpoint_def recovered_def)
next
  case (Prepare t)
  then show ?thesis
    using assms(4) by (auto simp: simple_log_def)
qed

lemma simple_log_prefix: "simple_log (ds @ [d]) \<Longrightarrow> simple_log ds"
  by (auto simp: simple_log_def)

lemma recovered_fold:
  assumes "legal_log (map rec_data rs) A" and "simple_log (map rec_data rs)"
  shows "\<exists>s. fold_result process_record rs recovery_new = Inr s \<and> recovered s (map rec_data rs) A"
  using assms
proof (induction rs arbitrary: A rule: rev_induct)
  case Nil
  then show ?case
    using recovered_new by (auto elim: legal_log.cases)
next
  case (snoc r rs)
  obtain A0 where A0: "legal_log (map rec_data rs) A0" "permitted (rec_data r) A0"
    "A = track_active (rec_data r) A0"
    using snoc.prems(1) by (auto elim: legal_snocE)
  have "simple_log (map rec_data rs)"
    using snoc.prems(2) simple_log_prefix by simp
  then obtain s where s: "fold_result process_record rs recovery_new = Inr s"
    "recovered s (map rec_data rs) A0"
    using snoc.IH [OF A0(1)] by blast
  show ?case
    using recovered_step [OF s(2) A0(1,2)] snoc.prems(2) s(1) A0(3) by (auto simp: fold_result_append)
qed

lemma concat_map_filter: "concat (map (\<lambda>(t, st). if P st then f t else []) m) =
    concat (map f (map fst (filter (\<lambda>(t, st). P st) m)))"
  by (induction m) auto

lemma build_result_recovered:
  assumes "recovered s ds A"
  shows "res_committed_writes (build_result s) = committed_writes ds"
    "res_active_transactions (build_result s) = A"
    "res_records_processed (build_result s) = length ds"
proof -
  let ?ts = "map fst (filter (\<lambda>(t, st). st = TxCommitted) (rc_transactions s))"
  have wf: "bt_wf (rc_transactions s)"
    using assms by (simp add: recovered_def)
  have mem: "(t, st) \<in> set (rc_transactions s) \<longleftrightarrow>
      (if t \<in> A then st = TxActive else if Commit t \<in> set ds then st = TxCommitted
       else Rollback t \<in> set ds \<and> st = TxRolledBack)" for t st
    using assms by (auto simp: recovered_def bt_get_Some_iff [OF wf, symmetric])
  have "bt_wf (filter (\<lambda>(t, st). st = TxCommitted) (rc_transactions s))"
    using wf by (rule bt_wf_filter)
  then have "sorted_wrt (<) ?ts"
    unfolding bt_wf_def .
  moreover have "set ?ts = {t. Commit t \<in> set ds}"
    using assms by (auto simp: mem recovered_def image_iff split: if_splits)
  ultimately have ts: "sorted_list_of_set {t. Commit t \<in> set ds} = ?ts"
    by (metis strict_sorted_iff sorted_list_of_set.idem_if_sorted_distinct)
  have ws: "(case bt_get (rc_transaction_writes s) t of Some ws \<Rightarrow> ws | None \<Rightarrow> []) = writes_of t ds"
    if "t \<in> set ?ts" for t
    using that assms \<open>set ?ts = _\<close> by (simp add: recovered_def)
  have "map (\<lambda>t. case bt_get (rc_transaction_writes s) t of Some ws \<Rightarrow> ws | None \<Rightarrow> []) ?ts =
      map (\<lambda>t. writes_of t ds) ?ts"
    by (rule map_cong [OF refl]) (rule ws)
  then show "res_committed_writes (build_result s) = committed_writes ds"
    unfolding committed_writes_def ts build_result_def
    by (simp only: recovery_result.simps concat_map_filter)
  show "res_active_transactions (build_result s) = A"
    by (auto simp: build_result_def mem image_iff split: if_splits)
  show "res_records_processed (build_result s) = length ds"
    using assms by (simp add: build_result_def recovered_def)
qed

lemma recover_loop_holds:
  assumes "reader_holds L rd rs"
  shows "recover_loop L rd s = fold_result process_record rs s"
proof -
  have "recover_loop L rd s =
      (case read_next L rd of
         Inl e \<Rightarrow> Inl e
       | Inr (None, rd') \<Rightarrow> Inr (id s)
       | Inr (Some r, rd') \<Rightarrow> (case process_record s r of Inl e \<Rightarrow> Inl e
            | Inr s' \<Rightarrow> recover_loop L rd' s'))" for rd s
    by (subst recover_loop.simps) (auto simp: rbind_def split: sum.split option.split)
  from wal_source.loop_is_fold [OF this assms, of s] show ?thesis
    by (cases "fold_result process_record rs s") auto
qed

lemma recover_run:
  assumes run: "writer_run L path cfg ds w" "ww_buffer w = []" "libs_ok L"
  obtains rs where "map rec_data rs = ds" and "legal_log ds (ww_active w)"
    and "recover_with_key L (fst (ww_file w)) path (wc_encryption_key cfg) =
      rbind (fold_result process_record rs recovery_new) (\<lambda>s. Inr (build_result s))"
proof -
  obtain rd rs where "reader_open (fst (ww_file w)) path (wc_encryption_key cfg) = Inr rd"
    "reader_holds L rd rs" "map rec_data rs = ds"
    using run_read_back [OF assms] by blast
  moreover have "legal_log ds (ww_active w)"
    using run_log(1) [OF run(1)] by blast
  ultimately show ?thesis
    using that [of rs] by (simp add: recover_with_key_def recover_loop_holds)
qed

text \<open>
  C1. Crash recovery. After any run of the writer without \<open>PREPARE\<close> records and without reused
  transaction ids, once the buffer is written out, recovery returns without an error, with exactly
  the writes of the committed transactions (in the order of their ids, each in log order), the
  transactions still active, and the count of the records.
\<close>

theorem recovery_correct:
  assumes "libs_ok L" and "writer_run L path cfg ds w" and "ww_buffer w = []" and "simple_log ds"
  shows "\<exists>res. recover_with_key L (fst (ww_file w)) path (wc_encryption_key cfg) = Inr res \<and>
    res_committed_writes res = committed_writes ds \<and> res_active_transactions res = ww_active w \<and>
    res_records_processed res = length ds"
proof -
  obtain rs where rs: "map rec_data rs = ds" "legal_log ds (ww_active w)"
    "recover_with_key L (fst (ww_file w)) path (wc_encryption_key cfg) =
      rbind (fold_result process_record rs recovery_new) (\<lambda>s. Inr (build_result s))"
    using recover_run [OF assms(2,3,1)] by blast
  obtain s where "fold_result process_record rs recovery_new = Inr s" "recovered s ds (ww_active w)"
    using recovered_fold [of rs "ww_active w"] rs(1,2) assms(4) by blast
  then show ?thesis
    using rs(3) build_result_recovered by auto
qed

theorem recovery_correct_witness:
  "\<exists>(w :: wal_writer) res. recover_with_key plain_libs (fst (ww_file w)) ''wal'' None = Inr res \<and>
    res_committed_writes res =
      [\<lparr>rw_table_id = 5, rw_op_type = Op_Delete, rw_key = [9], rw_value = []\<rparr>] \<and>
    res_active_transactions res = {3} \<and> res_records_processed res = 8"
proof -
  obtain w where w: "writer_run plain_libs ''wal'' wal_writer_config_default sample_log w" "ww_buffer w = []"
    using sample_run by blast
  have "simple_log sample_log" "length sample_log = 8"
    by (auto simp: simple_log_def sample_log_def begins_def)
  moreover have "{t. Commit t \<in> set sample_log} = {2}"
    by (auto simp: sample_log_def)
  then have "committed_writes sample_log =
      [\<lparr>rw_table_id = 5, rw_op_type = Op_Delete, rw_key = [9], rw_value = []\<rparr>]"
    by (simp add: committed_writes_def) (simp add: writes_of_def sample_log_def)
  ultimately show ?thesis
    using recovery_correct [OF plain_libs_ok w] sample_active [OF w(1)]
    unfolding default_key by metis
qed

section \<open>Prepared transactions\<close>

text \<open>The recovery of one transaction: its state after \<open>BEGIN\<close> and its writes.\<close>

definition one_txn :: "txn_id \<Rightarrow> transaction_state \<Rightarrow> recovered_write list \<Rightarrow> nat \<Rightarrow> wal_recovery" where
  "one_txn t st ws n =
     \<lparr>rc_transactions = [(t, st)], rc_transaction_writes = [(t, ws)], rc_last_checkpoint_lsn = None,
      rc_checkpoint_active_txns = None, rc_records_processed = n\<rparr>"

lemma one_txn_steps:
  "rec_data r = Begin t \<Longrightarrow> process_record recovery_new r = Inr (one_txn t TxActive [] 1)"
  "rec_data r = Write t tb op_type key val \<Longrightarrow> process_record (one_txn t st ws n) r =
     Inr (one_txn t st (ws @ [\<lparr>rw_table_id = tb, rw_op_type = op_type, rw_key = key, rw_value = val\<rparr>]) (n + 1))"
  "rec_data r = Prepare t \<Longrightarrow> process_record (one_txn t st ws n) r = Inr (one_txn t TxActive [] (n + 1))"
  "rec_data r = Commit t \<Longrightarrow> process_record (one_txn t st ws n) r = Inr (one_txn t TxCommitted ws (n + 1))"
  by (simp_all add: process_record_def process_begin_def process_write_def process_commit_def
      recovery_new_def one_txn_def)

definition write_record :: "txn_id \<Rightarrow> recovered_write \<Rightarrow> record_data" where
  "write_record t rw = Write t (rw_table_id rw) (rw_op_type rw) (rw_key rw) (rw_value rw)"

lemma one_txn_writes:
  "map rec_data rs = map (write_record t) ws \<Longrightarrow>
   fold_result process_record rs (one_txn t st ws0 n) = Inr (one_txn t st (ws0 @ ws) (n + length ws))"
proof (induction ws arbitrary: rs ws0 n)
  case Nil
  then show ?case by simp
next
  case (Cons rw ws)
  then obtain r rs' where "rs = r # rs'" "rec_data r = write_record t rw"
    "map rec_data rs' = map (write_record t) ws"
    by (cases rs) auto
  then show ?case
    using Cons.IH [of rs' "ws0 @ [rw]" "n + 1"]
    by (cases rw) (simp add: one_txn_steps(2) write_record_def)
qed

text \<open>
  \<open>PREPARE\<close> is processed as a \<open>BEGIN\<close>: a transaction that begins, writes, prepares and commits
  is recovered as committed, but with none of its writes.
\<close>

lemma prepare_loses_writes:
  assumes "libs_ok L" and "ww_buffer w = []"
    and "writer_run L path cfg ([Begin t] @ map (write_record t) ws @ [Prepare t, Commit t]) w"
  shows "\<exists>res. recover_with_key L (fst (ww_file w)) path (wc_encryption_key cfg) = Inr res \<and>
    res_committed_writes res = [] \<and> res_active_transactions res = {}"
proof -
  obtain rs where rs: "map rec_data rs = [Begin t] @ map (write_record t) ws @ [Prepare t, Commit t]"
    "recover_with_key L (fst (ww_file w)) path (wc_encryption_key cfg) =
      rbind (fold_result process_record rs recovery_new) (\<lambda>s. Inr (build_result s))"
    using recover_run [OF assms(3,2,1)] by blast
  from rs(1) obtain b ps p c where split: "rs = b # ps @ [p, c]" "rec_data b = Begin t"
    "map rec_data ps = map (write_record t) ws" "rec_data p = Prepare t" "rec_data c = Commit t"
    by (auto simp: map_eq_append_conv map_eq_Cons_conv append_eq_map_conv Cons_eq_map_conv)
  have "fold_result process_record rs recovery_new = Inr (one_txn t TxCommitted [] (Suc (Suc (Suc (length ws)))))"
    by (simp add: split fold_result_append one_txn_steps one_txn_writes)
  then show ?thesis
    using rs(2) by (simp add: build_result_def one_txn_def)
qed

lemma prepare_loses_writes_witness:
  "\<exists>(w :: wal_writer) res. recover_with_key plain_libs (fst (ww_file w)) ''wal'' None = Inr res \<and>
    res_committed_writes res = [] \<and> res_active_transactions res = {}"
proof -
  let ?ws = "[\<lparr>rw_table_id = 5, rw_op_type = Op_Put, rw_key = [1], rw_value = [2]\<rparr>]"
  let ?ds = "[Begin 1] @ map (write_record 1) ?ws @ [Prepare 1, Commit 1]"
  have "legal_log ?ds (fold track_active ?ds {})"
    by (rule legal_checkI) (simp add: write_record_def)
  moreover have "list_all data_fits ?ds" "\<forall>i < length ?ds. numbered_at i (?ds ! i)"
    "sum_list (map record_cost ?ds) \<le> wc_max_wal_size wal_writer_config_default"
    by (auto simp: write_record_def record_cost_def sample_config_defs less_Suc_eq nth_Cons')
  ultimately obtain w where "writer_run plain_libs ''wal'' wal_writer_config_default ?ds w" "ww_buffer w = []"
    using log_realizable [OF plain_libs_ok sample_log_ok(5,6)] run_flushed by metis
  from prepare_loses_writes [OF plain_libs_ok this(2,1)] show ?thesis
    unfolding default_key by blast
qed

end
