(* ===== verification/TxnProps.thy ===== *)
theory TxnProps
  imports TxnTables WalRecovery
begin

text \<open>
  Properties of transactions: what a commit shows to whom, when it succeeds, what a failed commit and
  a rollback leave, and what recovery makes of committed transactions.
\<close>

section \<open>The steps of a commit\<close>

lemma pbind_InrE:
  assumes "pbind m f s = (Inr b, s')"
  obtains a t where "m s = (Inr a, t)" and "f a t = (Inr b, s')"
  using assms by (auto simp: pbind_def split: prod.splits sum.splits)

lemma wal_call_keeps:
  assumes "wal_call E m f s = (r, s')"
  shows "db_engines s' = db_engines s" "db_detector s' = db_detector s" "db_current_lsn s' = db_current_lsn s"
    "r = Inr l \<Longrightarrow> \<exists>w. f (te_now E (db_draws s)) (te_nonce E (db_draws s)) (db_wal s) = Inr (l, w) \<and> db_wal s' = w"
    "r = Inl e \<Longrightarrow> db_wal s' = db_wal s"
  using assms by (auto simp: wal_call_def Let_def split: sum.splits prod.splits)

lemma check_isolation_keeps: "snd (check_isolation E tx s) = s"
  by (simp add: check_isolation_def)

lemma write_commit_record_keeps:
  assumes "write_commit_record E tx s = (Inr l, s')"
  shows "db_engines s' = db_engines s" "db_detector s' = db_detector s"
proof -
  obtain s1 where s1: "wal_call E ''WAL commit failed'' (\<lambda>now nonce. write_commit (te_libs E) now nonce (tx_id tx)) s = (Inr l, s1)"
    and "s' = s1 \<or> (\<exists>u. wal_flush s1 = (Inr u, s'))"
    using assms by (auto simp: write_commit_record_def pret_def split: if_splits elim!: pbind_InrE)
  then have "db_engines s' = db_engines s1" "db_detector s' = db_detector s1"
    by (auto simp: wal_flush_def split: sum.splits)
  then show "db_engines s' = db_engines s" "db_detector s' = db_detector s"
    using wal_call_keeps [OF s1] by simp_all
qed

text \<open>A commit that succeeds has gone through all its steps.\<close>

lemma txn_commit_steps:
  assumes "txn_commit E tx s = (Inr info, s')"
  obtains p s1 s2 s3 l where
    "wal_call E ''WAL prepare failed'' (\<lambda>now nonce. write_prepare (te_libs E) now nonce (tx_id tx)) s = (Inr p, s1)"
    "write_commit_record E tx s1 = (Inr l, s2)" "apply_all_changes E tx s2 = (Inr (), s3)"
    "finish_commit E tx l s3 = (Inr info, s')"
proof -
  let ?rest = "\<lambda>undo. pbind (wal_call E ''WAL prepare failed'' (\<lambda>now nonce. write_prepare (te_libs E) now nonce (tx_id tx))) (\<lambda>_.
      pbind (check_isolation E tx) (\<lambda>_.
      pbind (write_commit_record E tx) (\<lambda>l s.
      case apply_all_changes E tx s of
        (Inl err, s) \<Rightarrow> abort_apply E tx undo err s
      | (Inr _, s) \<Rightarrow> finish_commit E tx l s)))"
  have "pbind (\<lambda>s. plift (collect_undo E tx s) s) ?rest s = (Inr info, s')"
    using assms by (auto simp: txn_commit_def perr_def split: if_splits)
  then obtain undo s0 where s0: "plift (collect_undo E tx s) s = (Inr undo, s0)" and "?rest undo s0 = (Inr info, s')"
    by (rule pbind_InrE)
  let ?rest2 = "pbind (check_isolation E tx) (\<lambda>_. pbind (write_commit_record E tx) (\<lambda>l s.
      case apply_all_changes E tx s of
        (Inl err, s) \<Rightarrow> abort_apply E tx undo err s
      | (Inr _, s) \<Rightarrow> finish_commit E tx l s))"
  obtain p s1 where s1: "wal_call E ''WAL prepare failed'' (\<lambda>now nonce. write_prepare (te_libs E) now nonce (tx_id tx)) s0 = (Inr p, s1)"
    and "?rest2 s1 = (Inr info, s')"
    using \<open>?rest undo s0 = (Inr info, s')\<close> by (rule pbind_InrE)
  from this(2) obtain u s1' where u: "check_isolation E tx s1 = (Inr u, s1')"
    and "pbind (write_commit_record E tx) (\<lambda>l s. case apply_all_changes E tx s of
        (Inl err, s) \<Rightarrow> abort_apply E tx undo err s | (Inr _, s) \<Rightarrow> finish_commit E tx l s) s1' = (Inr info, s')"
    by (rule pbind_InrE)
  from this(2) obtain l s2 where s2: "write_commit_record E tx s1' = (Inr l, s2)"
    and fin: "(case apply_all_changes E tx s2 of (Inl err, s) \<Rightarrow> abort_apply E tx undo err s
      | (Inr _, s) \<Rightarrow> finish_commit E tx l s) = (Inr info, s')"
    by (rule pbind_InrE)
  have "s0 = s"
    using s0 by (simp add: plift_def)
  have "fst (abort_apply E tx undo err s) \<noteq> Inr (info :: commit_info)" for err s
    by (auto simp: abort_apply_def pbind_def perr_def pret_def release_all_def split: prod.splits sum.splits)
  then obtain s3 where "apply_all_changes E tx s2 = (Inr (), s3)" "finish_commit E tx l s3 = (Inr info, s')"
    using fin by (auto split: prod.splits sum.splits) (metis fst_conv)
  then show ?thesis
    using that s1 s2 check_isolation_keeps [of E tx s1] u \<open>s0 = s\<close> by simp
qed

lemma finish_commit_steps:
  assumes "finish_commit E tx l s = (Inr info, s')"
  obtains s1 s2 where "apply_special E tx l s = (Inr (), s1)" "commit_tables E tx l s1 = (Inr (), s2)"
    "s' = s2\<lparr>db_current_lsn := l, db_detector := release_locks (tx_id tx) (db_detector s2)\<rparr>"
    "info = \<lparr>ci_tx_id = tx_id tx, ci_commit_lsn = l, ci_durable_lsn = Some l\<rparr>"
proof -
  let ?fin = "pbind (\<lambda>s. pret () (s\<lparr>db_current_lsn := l\<rparr>)) (\<lambda>_. pbind (release_all tx) (\<lambda>_.
     pret \<lparr>ci_tx_id = tx_id tx, ci_commit_lsn = l, ci_durable_lsn = Some l\<rparr>))"
  obtain u1 s1 where s1: "apply_special E tx l s = (Inr u1, s1)" and "pbind (commit_tables E tx l) (\<lambda>_. ?fin) s1 = (Inr info, s')"
    using assms unfolding finish_commit_def by (rule pbind_InrE)
  from this(2) obtain u2 s2 where s2: "commit_tables E tx l s1 = (Inr u2, s2)" and "?fin s2 = (Inr info, s')"
    by (rule pbind_InrE)
  then show ?thesis
    using that s1 s2 by (auto simp: pbind_def pret_def release_all_def)
qed

section \<open>Transactions on tables in memory\<close>

text \<open>A transaction whose changes are puts and deletions of keys.\<close>

definition key_value_txn :: "transaction \<Rightarrow> bool" where
  "key_value_txn tx \<longleftrightarrow> bt_wf (tx_write_set tx) \<and> tx_bloom_write_set tx = [] \<and> tx_graph_write_set tx = [] \<and>
     tx_timeseries_write_set tx = [] \<and> tx_vector_write_set tx = [] \<and> tx_geospatial_write_set tx = [] \<and>
     tx_fulltext_write_set tx = []"

text \<open>Walking a hash map gives its entries in some order.\<close>

definition orders_ok :: "'x txn_env \<Rightarrow> bool" where
  "orders_ok E \<longleftrightarrow> (\<forall>ws. mset (te_write_order E ws) = mset ws) \<and> (\<forall>ks. mset (te_key_order E ks) = mset ks) \<and>
     (\<forall>ts. mset (te_table_order E ts) = mset ts)"

definition memory_read :: "'x db \<Rightarrow> table_id \<Rightarrow> bytes \<Rightarrow> lsn \<Rightarrow> bytes option" where
  "memory_read s tb k n =
     (case db_engines s tb of
        Some e \<Rightarrow> (case engine_data e of Some d \<Rightarrow> engine_view e (read_at d k n) | None \<Rightarrow> None)
      | None \<Rightarrow> None)"

definition table_settled :: "lsn \<Rightarrow> 'x db \<Rightarrow> bool" where
  "table_settled l s \<longleftrightarrow> (\<forall>tb e d. db_engines s tb = Some e \<longrightarrow> engine_data e = Some d \<longrightarrow> settled_before l d)"

lemma apply_special_none: "key_value_txn tx \<Longrightarrow> orders_ok E \<Longrightarrow> apply_special E tx l s = (Inr (), s)"
proof -
  assume tx: "key_value_txn tx" and E: "orders_ok E"
  have "te_key_order E [] = []"
    using E unfolding orders_ok_def by (metis mset_zero_iff)
  then show ?thesis
    using tx by (simp add: apply_special_def key_value_txn_def pret_def pbind_def)
qed

lemma write_order:
  assumes "orders_ok E" and "key_value_txn tx"
  shows "distinct (map fst (te_write_order E (tx_write_set tx)))"
    "map_of (te_write_order E (tx_write_set tx)) = bt_get (tx_write_set tx)"
    "set (te_write_order E (tx_write_set tx)) = set (tx_write_set tx)"
proof -
  let ?ws = "tx_write_set tx" and ?o = "te_write_order E (tx_write_set tx)"
  have m: "mset ?o = mset ?ws"
    using assms(1) by (simp add: orders_ok_def)
  have d: "distinct (map fst ?ws)"
    using assms(2) by (simp add: key_value_txn_def bt_wf_distinct)
  then show dist: "distinct (map fst ?o)"
    using m by (metis mset_eq_imp_distinct_iff mset_map)
  show set: "set ?o = set ?ws"
    using m mset_eq_setD by blast
  show "map_of ?o = bt_get ?ws"
    unfolding bt_get_def using dist d set map_of_inject_set by (metis ext)
qed

lemma modified_tables_key_value:
  "key_value_txn tx \<Longrightarrow> set (modified_tables tx) = (\<lambda>x. fst (fst x)) ` set (tx_write_set tx)"
  by (auto simp: modified_tables_def key_value_txn_def)

lemma commit_order:
  assumes "orders_ok E"
  shows "distinct (te_table_order E (modified_tables tx))"
    "set (te_table_order E (modified_tables tx)) = set (modified_tables tx)"
proof -
  have "mset (te_table_order E (modified_tables tx)) = mset (modified_tables tx)"
    using assms by (simp add: orders_ok_def)
  then show "distinct (te_table_order E (modified_tables tx))"
    "set (te_table_order E (modified_tables tx)) = set (modified_tables tx)"
    using mset_eq_imp_distinct_iff mset_eq_setD distinct_remdups unfolding modified_tables_def by blast+
qed

text \<open>The tables after applying and committing.\<close>

lemma tables_after_commit:
  assumes E: "orders_ok E" and tx: "key_value_txn tx" and fit: "writes_fit s (tx_write_set tx)"
  obtains s1 s2 where "apply_all_changes E tx s = (Inr (), s1)" and "commit_tables E tx l s1 = (Inr (), s2)"
    and "\<And>tb e d. db_engines s tb = Some e \<Longrightarrow> engine_data e = Some d \<Longrightarrow>
      \<exists>e' d'. db_engines s2 tb = Some e' \<and> engine_data e' = Some d' \<and> engine_view e' = engine_view e \<and>
        d' = (if changes_of tb (te_write_order E (tx_write_set tx)) = [] then d
          else commit_heads (tx_id tx) l (fold (change_data (tx_id tx)) (changes_of tb (te_write_order E (tx_write_set tx))) d))"
    and "\<And>tb. changes_of tb (te_write_order E (tx_write_set tx)) = [] \<Longrightarrow> db_engines s2 tb = db_engines s tb"
proof -
  let ?ws = "te_write_order E (tx_write_set tx)" and ?t = "tx_id tx" and ?sn = "tx_snapshot_lsn tx"
  have fit: "writes_fit s ?ws"
    using fit write_order(3) [OF E tx] by (simp add: writes_fit_def)
  obtain m where m: "apply_all_changes E tx s = (Inr (), s\<lparr>db_engines := m\<rparr>)"
    "\<And>tb e d. db_engines s tb = Some e \<Longrightarrow> engine_data e = Some d \<Longrightarrow>
      (\<exists>e'. m tb = Some e' \<and> engine_data e' = Some (fold (change_data ?t) (changes_of tb ?ws) d) \<and>
        engine_view e' = engine_view e \<and> takes e' = takes e)"
    "\<And>tb. changes_of tb ?ws = [] \<Longrightarrow> m tb = db_engines s tb"
    using apply_changes [OF fit, of E ?t ?sn] unfolding apply_all_changes_def by blast
  let ?tbs = "te_table_order E (modified_tables tx)"
  have mod: "tb \<in> set ?tbs \<longleftrightarrow> changes_of tb ?ws \<noteq> []" for tb
  proof -
    have "changes_of tb ?ws \<noteq> [] \<longleftrightarrow> (\<exists>k. k \<in> fst ` set (changes_of tb ?ws))"
      by (metis all_not_in_conv image_is_empty set_empty)
    also have "\<dots> \<longleftrightarrow> (\<exists>k. (tb, k) \<in> fst ` set (tx_write_set tx))"
      unfolding keys_changes write_order(3) [OF E tx] ..
    also have "\<dots> \<longleftrightarrow> tb \<in> set ?tbs"
      unfolding commit_order(2) [OF E] modified_tables_key_value [OF tx] by force
    finally show ?thesis
      by simp
  qed
  have "\<exists>e d. m tb = Some e \<and> engine_data e = Some d" if tb: "tb \<in> set ?tbs" for tb
  proof -
    obtain k v where "((tb, k), v) \<in> set ?ws"
      using tb changes_nonempty unfolding mod by blast
    then obtain e where "db_engines s tb = Some e" "takes e v"
      using fit by (auto simp: writes_fit_def)
    then show ?thesis
      using m(2) takes_data by blast
  qed
  then have "\<forall>tb\<in>set ?tbs. \<exists>e d. db_engines (s\<lparr>db_engines := m\<rparr>) tb = Some e \<and> engine_data e = Some d"
    by simp
  from commit_loop [OF commit_order(1) [OF E] this, of E ?t ?sn l] obtain m2 where
    m2: "commit_tables E tx l (s\<lparr>db_engines := m\<rparr>) = (Inr (), s\<lparr>db_engines := m2\<rparr>)"
    "\<And>tb. tb \<notin> set ?tbs \<Longrightarrow> m2 tb = m tb"
    "\<And>tb e d. tb \<in> set ?tbs \<Longrightarrow> m tb = Some e \<Longrightarrow> engine_data e = Some d \<Longrightarrow>
      (\<exists>e'. m2 tb = Some e' \<and> engine_data e' = Some (commit_heads ?t l d) \<and> engine_view e' = engine_view e)"
    unfolding commit_tables_def by auto
  show ?thesis
  proof (rule that [OF m(1) m2(1)])
    fix tb e d
    assume e: "db_engines s tb = Some e" "engine_data e = Some d"
    show "\<exists>e' d'. db_engines (s\<lparr>db_engines := m2\<rparr>) tb = Some e' \<and> engine_data e' = Some d' \<and> engine_view e' = engine_view e \<and>
        d' = (if changes_of tb ?ws = [] then d else commit_heads ?t l (fold (change_data ?t) (changes_of tb ?ws) d))"
    proof (cases "changes_of tb ?ws = []")
      case True
      then show ?thesis
        using m2(2) [of tb] m(3) [of tb] e mod [of tb] by simp
    next
      case False
      obtain e' where e': "m tb = Some e'" "engine_data e' = Some (fold (change_data ?t) (changes_of tb ?ws) d)"
        "engine_view e' = engine_view e"
        using m(2) [OF e] by blast
      obtain e2 where "m2 tb = Some e2" "engine_data e2 = Some (commit_heads ?t l (fold (change_data ?t) (changes_of tb ?ws) d))"
        "engine_view e2 = engine_view e'"
        using m2(3) [of tb, OF _ e'(1,2)] False mod [of tb] by blast
      then show ?thesis
        using False e'(3) by simp
    qed
  next
    fix tb
    assume "changes_of tb ?ws = []"
    then show "db_engines (s\<lparr>db_engines := m2\<rparr>) tb = db_engines s tb"
      using m2(2) [of tb] m(3) [of tb] mod [of tb] by simp
  qed
qed

lemma tables_committed:
  assumes "orders_ok E" and "key_value_txn tx" and "writes_fit s (tx_write_set tx)"
  shows "\<exists>s1 s2. apply_all_changes E tx s = (Inr (), s1) \<and> commit_tables E tx l s1 = (Inr (), s2)"
  by (rule tables_after_commit [OF assms, of l]) blast

lemma read_after_commit:
  assumes E: "orders_ok E" and tx: "key_value_txn tx" and fit: "writes_fit s (tx_write_set tx)"
    and e: "db_engines s tb = Some e" "engine_data e = Some d" and d: "settled_before l d"
    and ws: "ws = te_write_order E (tx_write_set tx)"
  shows "engine_view e (read_at (commit_heads t l (fold (change_data t) (changes_of tb ws) d)) k n) =
    (if l \<le> n then case bt_get (tx_write_set tx) (tb, k) of Some v \<Rightarrow> engine_view e v | None \<Rightarrow> engine_view e (read_at d k n)
     else engine_view e (read_at d k n))"
proof -
  have dist: "distinct (map fst ws)" and get: "map_of ws = bt_get (tx_write_set tx)"
    and set: "set ws = set (tx_write_set tx)"
    using write_order [OF E tx] by (simp_all add: ws)
  note cs = map_of_changes(1) [OF dist, of tb]
  have look: "map_of (changes_of tb ws) k = bt_get (tx_write_set tx) (tb, k)"
    using map_of_changes(2) [OF dist] get by simp
  show ?thesis
  proof (cases e)
    case (Eng_MemoryHashTable h)
    then show ?thesis
      using committed_read(1) [OF d cs, of t k n] look by (auto split: option.split)
  next
    case (Eng_MemoryBTree b)
    have "v \<noteq> None" if "(j, v) \<in> set (changes_of tb ws)" for j v
    proof -
      have "((tb, j), v) \<in> set ws"
        using that by (auto simp: changes_of_def)
      then show ?thesis
        using fit e Eng_MemoryBTree by (auto simp: writes_fit_def set)
    qed
    then have "\<forall>(j, v)\<in>set (changes_of tb ws). v \<noteq> None"
      by blast
    from committed_read(2) [OF d cs this, of t k n] show ?thesis
      using look Eng_MemoryBTree by (auto split: option.split)
  qed (use e in auto)
qed

section \<open>Commits succeed\<close>

lemma undo_value_memory:
  assumes "engine_data e = Some d"
  shows "\<exists>v. undo_value E e k l = Inr v"
  using assms by (cases e) (auto simp: undo_value_def engine_get_def)

lemma undo_collected:
  assumes "writes_fit s ws"
  shows "\<exists>ops'. fold_result (undo_write E snap s) ws ops = Inr ops'"
  using assms
proof (induction ws arbitrary: ops)
  case (Cons w ws)
  obtain tb k v where w: "w = ((tb, k), v)"
    by (metis prod.collapse)
  obtain e where e: "db_engines s tb = Some e" "takes e v"
    using Cons.prems by (auto simp: writes_fit_def w)
  obtain u where "undo_value E e k snap = Inr u"
    using undo_value_memory takes_data [OF e(2)] by blast
  moreover have "writes_fit s ws"
    using Cons.prems by (simp add: writes_fit_def)
  ultimately show ?case
    using Cons.IH e(1) by (simp add: w undo_write_def)
qed simp

lemma prepare_succeeds:
  assumes L: "libs_ok L" and cfg: "plain_config cfg" and run: "writer_run L path cfg ds w"
    and t: "t \<in> ww_active w" and nonce: "length nonce = 12"
    and room: "ww_current_offset w + record_cost (Prepare t) \<le> wc_max_wal_size cfg"
  shows "\<exists>l w'. write_prepare L now nonce t w = Inr (l, w') \<and> writer_run L path cfg (ds @ [Prepare t]) w' \<and>
    ww_active w' = ww_active w \<and> ww_current_offset w' = ww_current_offset w + record_cost (Prepare t)"
proof -
  obtain rs where rs: "writer_log L w rs"
    using run_log(1) [OF run] by blast
  then have log: "log_bytes L w rs"
    by (simp add: writer_log_def)
  obtain w1 where w1: "write_record_internal L nonce (new_record now (Prepare t) w) w = Inr w1"
    "ww_current_offset w1 = ww_current_offset w + record_cost (Prepare t)"
    using record_internal_total [OF L _ log] cfg run_log(3) [OF run] room by metis
  then have p: "write_prepare L now nonce t w = Inr (ww_current_lsn w, w1)"
    using t by (simp add: write_prepare_def Let_def)
  then show ?thesis
    using run_step [OF run step_prepare [OF nonce p]] w1(2) write_record_internal_ok(2) [OF log nonce _ w1(1)] by auto
qed

definition no_conflicts :: "transaction \<Rightarrow> 'x db \<Rightarrow> bool" where
  "no_conflicts tx s \<longleftrightarrow>
     (\<forall>k\<in>set (tx_read_set tx). write_locks (db_detector s) k = None \<or> write_locks (db_detector s) k = Some (tx_id tx))"

lemma check_isolation_passes:
  assumes "orders_ok E" and "no_conflicts tx s"
  shows "check_isolation E tx s = (Inr (), s)"
proof -
  have "mset (te_key_order E (tx_read_set tx)) = mset (tx_read_set tx)"
    using assms(1) by (simp add: orders_ok_def)
  then have "set (te_key_order E (tx_read_set tx)) = set (tx_read_set tx)"
    by (rule mset_eq_setD)
  then show ?thesis
    using assms(2) by (simp add: check_isolation_def read_write_conflicts_iff no_conflicts_def)
qed

lemma commit_record_succeeds:
  assumes L: "libs_ok (te_libs E)" and cfg: "plain_config cfg" and run: "writer_run (te_libs E) path cfg ds (db_wal s)"
    and t: "tx_id tx \<in> ww_active (db_wal s)" and nonce: "\<And>i. length (te_nonce E i) = 12"
    and room: "ww_current_offset (db_wal s) + record_cost (Commit (tx_id tx)) \<le> wc_max_wal_size cfg"
  shows "\<exists>l s'. write_commit_record E tx s = (Inr l, s')"
proof -
  obtain l w where w: "write_commit (te_libs E) (te_now E (db_draws s)) (te_nonce E (db_draws s)) (tx_id tx) (db_wal s) = Inr (l, w)"
    using commit_succeeds [OF L cfg run t nonce room] by blast
  obtain rs where "writer_log (te_libs E) w rs"
    using run_log(1) [OF run_step [OF run step_commit [OF nonce w]]] by blast
  then obtain w' where "writer_flush w = Inr w'"
    using writer_flush_log by blast
  then show ?thesis
    using w by (auto simp: write_commit_record_def pbind_def wal_call_def wal_flush_def pret_def Let_def)
qed

lemma commit_goes_through:
  assumes "libs_ok (te_libs E)" and "orders_ok E" and "\<And>i. length (te_nonce E i) = 12" and "plain_config cfg"
    and "writer_run (te_libs E) path cfg ds (db_wal s)" and "tx_id tx \<in> ww_active (db_wal s)"
    and "ww_current_offset (db_wal s) + record_cost (Prepare (tx_id tx)) + record_cost (Commit (tx_id tx)) \<le> wc_max_wal_size cfg"
    and "no_conflicts tx s" and "is_active tx" and undo: "collect_undo E tx s = Inr undo"
    and tables: "\<And>s2 l. db_engines s2 = db_engines s \<Longrightarrow>
      \<exists>s3 info s'. apply_all_changes E tx s2 = (Inr (), s3) \<and> finish_commit E tx l s3 = (Inr info, s')"
  shows "\<exists>info s'. txn_commit E tx s = (Inr info, s')"
proof -
  let ?t = "tx_id tx"
  have "ww_current_offset (db_wal s) + record_cost (Prepare ?t) \<le> wc_max_wal_size cfg"
    using assms(7) by simp
  from prepare_succeeds [OF assms(1,4-6,3) this] obtain p w where
    w: "write_prepare (te_libs E) (te_now E (db_draws s)) (te_nonce E (db_draws s)) ?t (db_wal s) = Inr (p, w)"
    "writer_run (te_libs E) path cfg (ds @ [Prepare ?t]) w" "ww_active w = ww_active (db_wal s)"
    "ww_current_offset w = ww_current_offset (db_wal s) + record_cost (Prepare ?t)"
    by blast
  define s1 where "s1 = s\<lparr>db_draws := db_draws s + 1, db_wal := w\<rparr>"
  have s1: "wal_call E ''WAL prepare failed'' (\<lambda>now nonce. write_prepare (te_libs E) now nonce ?t) s = (Inr p, s1)"
    using w(1) by (simp add: wal_call_def s1_def Let_def)
  have iso_ok: "check_isolation E tx s1 = (Inr (), s1)"
    using assms(2,8) by (intro check_isolation_passes) (simp_all add: no_conflicts_def s1_def)
  obtain l s2 where s2: "write_commit_record E tx s1 = (Inr l, s2)"
    using commit_record_succeeds [OF assms(1,4), of path "ds @ [Prepare ?t]" s1 tx] assms(3,6,7) w by (auto simp: s1_def)
  have "db_engines s2 = db_engines s"
    using write_commit_record_keeps(1) [OF s2] by (simp add: s1_def)
  from tables [OF this, of l] show ?thesis
    using assms(9) undo s1 iso_ok s2
    by (auto simp: txn_commit_def is_active_def pbind_def plift_def)
qed

lemma commit_runs:
  assumes "libs_ok (te_libs E)" and "orders_ok E" and "\<And>i. length (te_nonce E i) = 12" and "plain_config cfg"
    and "writer_run (te_libs E) path cfg ds (db_wal s)" and "tx_id tx \<in> ww_active (db_wal s)"
    and "ww_current_offset (db_wal s) + record_cost (Prepare (tx_id tx)) + record_cost (Commit (tx_id tx)) \<le> wc_max_wal_size cfg"
    and "key_value_txn tx" and "writes_fit s (tx_write_set tx)" and "no_conflicts tx s" and "is_active tx"
  shows "\<exists>info s'. txn_commit E tx s = (Inr info, s')"
proof -
  have "writes_fit s (te_write_order E (tx_write_set tx))"
    using assms(9) write_order(3) [OF assms(2,8)] by (simp add: writes_fit_def)
  from undo_collected [OF this, of E "tx_snapshot_lsn tx" "[]"] obtain undo where undo: "collect_undo E tx s = Inr undo"
    by (auto simp: collect_undo_def)
  show ?thesis
  proof (rule commit_goes_through [OF assms(1-7,10,11) undo])
    fix s2 :: "'a db" and l
    assume "db_engines s2 = db_engines s"
    then have "writes_fit s2 (tx_write_set tx)"
      using assms(9) by (simp add: writes_fit_def)
    from tables_committed [OF assms(2,8) this, of l] obtain s3 s4 where
      s3: "apply_all_changes E tx s2 = (Inr (), s3)" and s4: "commit_tables E tx l s3 = (Inr (), s4)"
      by blast
    have "\<exists>info s'. finish_commit E tx l s3 = (Inr info, s')"
      using s4 apply_special_none [OF assms(8,2), of l s3] by (simp add: finish_commit_def pbind_def pret_def release_all_def)
    then show "\<exists>s3 info s'. apply_all_changes E tx s2 = (Inr (), s3) \<and> finish_commit E tx l s3 = (Inr info, s')"
      using s3 by blast
  qed
qed

section \<open>A sample database\<close>

text \<open>
  A B-tree, a hash table and a graph table in memory, no other engines, hash maps walked in the
  order of their entries, and a log in which transaction 7 has begun.
\<close>

definition no_ops :: "unit engine_ops" where
  "no_ops = \<lparr>xo_get = \<lambda>_ _ _. Inl TableOther, xo_scan = \<lambda>_ _ _. Inl TableOther,
     xo_write = \<lambda>_ _ _ _ x. (Inl TableOther, x), xo_commit_versions = \<lambda>_ _ x. (Inl TableOther, x),
     xo_special = \<lambda>_ _ _ x. (Inl TableOther, x)\<rparr>"

definition sample_txn_env :: "unit txn_env" where
  "sample_txn_env = \<lparr>te_libs = plain_libs, te_now = \<lambda>i. 0, te_nonce = \<lambda>i. replicate 12 0, te_ops = no_ops,
     te_postcard = plain_blob_codec, te_json = sample_json, te_chain_size = 0, te_write_order = id, te_key_order = id,
     te_table_order = id\<rparr>"

definition sample_db :: "wal_writer \<Rightarrow> unit db" where
  "sample_db w = \<lparr>db_detector = conflict_detector_new, db_wal = w,
     db_engines = [1 \<mapsto> Eng_MemoryBTree (btree_new 1 ''b''), 2 \<mapsto> Eng_MemoryHashTable (hash_new 2 ''h''),
       3 \<mapsto> Eng_MemoryGraphTable (graph_new 3 ''g'' graph_config_default)],
     db_current_lsn = 0, db_draws = 0\<rparr>"

lemma sample_db_wal: "db_wal (sample_db w) = w"
  by (simp add: sample_db_def)

lemma sample_db_detector: "db_detector (sample_db w) = conflict_detector_new"
  by (simp add: sample_db_def)

abbreviation "sample_new \<equiv> txn_build 7 0 Serializable FlushOnCommit"

definition sample_tx :: transaction where
  "sample_tx = record_delete 2 [8] (record_write 1 [5] [6] sample_new)"

lemma sample_txn_env_ok: "libs_ok (te_libs sample_txn_env)" "orders_ok sample_txn_env" "length (te_nonce sample_txn_env i) = 12"
  by (simp_all add: sample_txn_env_def orders_ok_def plain_libs_ok)

lemma sample_tx_ok:
  "key_value_txn sample_tx" "is_active sample_tx" "writes_fit (sample_db w) (tx_write_set sample_tx)"
  "no_conflicts sample_tx (sample_db w)" "table_settled l (sample_db w)" "tx_id sample_tx = 7"
proof -
  note defs = sample_tx_def record_delete_def record_write_def txn_build_def
  have ws: "tx_write_set sample_tx = [((1, [5]), Some [6]), ((2, [8]), None)]"
    by (simp add: defs less_prod_def)
  show "key_value_txn sample_tx"
    by (simp add: key_value_txn_def ws bt_wf_def less_prod_def) (simp add: defs)
  show "writes_fit (sample_db w) (tx_write_set sample_tx)"
    by (simp add: writes_fit_def ws sample_db_def)
  show "table_settled l (sample_db w)"
    by (auto simp: table_settled_def sample_db_def settled_before_def btree_new_def btree_with_budget_def hash_new_def
        hash_with_budget_def hash_with_capacity_and_budget_def split: if_splits)
qed (simp_all add: sample_tx_def record_delete_def record_write_def txn_build_def is_active_def no_conflicts_def)

lemma sample_wal:
  obtains w where "writer_run plain_libs ''wal'' wal_writer_config_default [Begin 7] w" "ww_current_offset w = 71"
    "ww_active w = {7}"
proof -
  have legal: "legal_log [Begin 7] {7}"
    using legal_checkI [of "[Begin 7]"] by simp
  then obtain w where w: "writer_run plain_libs ''wal'' wal_writer_config_default [Begin 7] w" "ww_current_offset w = 71"
    using log_realizable [OF plain_libs_ok sample_log_ok(5,6) legal, of "''wal''"]
    by (auto simp: record_cost_def wal_writer_config_default_def)
  moreover have "ww_active w = {7}"
    using run_log(1) [OF w(1)] legal_log_active by fastforce
  ultimately show ?thesis
    using that by blast
qed

lemma sample_commits:
  assumes w: "writer_run plain_libs ''wal'' wal_writer_config_default [Begin 7] w" "ww_current_offset w = 71" "ww_active w = {7}"
  shows "\<exists>info s'. txn_commit sample_txn_env sample_tx (sample_db w) = (Inr info, s')"
proof (rule commit_runs [OF sample_txn_env_ok sample_log_ok(5)])
  show "writer_run (te_libs sample_txn_env) ''wal'' wal_writer_config_default [Begin 7] (db_wal (sample_db w))"
    using w(1) by (simp add: sample_txn_env_def sample_db_def)
  show "ww_current_offset (db_wal (sample_db w)) + record_cost (Prepare (tx_id sample_tx)) +
      record_cost (Commit (tx_id sample_tx)) \<le> wc_max_wal_size wal_writer_config_default"
    using w(2) by (simp add: sample_db_def record_cost_def wal_writer_config_default_def)
qed (use w in \<open>simp_all add: sample_tx_ok sample_db_wal\<close>)

section \<open>Commits are atomic\<close>

lemma committed_tables_read:
  assumes "orders_ok E" and "key_value_txn tx" and "writes_fit s (tx_write_set tx)" and "table_settled l s"
    and app: "apply_all_changes E tx s = (Inr (), s1)" and commit: "commit_tables E tx l s1 = (Inr (), s2)"
    and e: "db_engines s tb = Some e"
  shows "memory_read s2 tb k n =
      (if l \<le> n
       then case bt_get (tx_write_set tx) (tb, k) of Some v \<Rightarrow> engine_view e v | None \<Rightarrow> memory_read s tb k n
       else memory_read s tb k n)"
proof -
  let ?ws = "te_write_order E (tx_write_set tx)"
  obtain s1' s2' where after: "apply_all_changes E tx s = (Inr (), s1')" "commit_tables E tx l s1' = (Inr (), s2')"
    "\<And>tb e d. db_engines s tb = Some e \<Longrightarrow> engine_data e = Some d \<Longrightarrow>
      \<exists>e' d'. db_engines s2' tb = Some e' \<and> engine_data e' = Some d' \<and> engine_view e' = engine_view e \<and>
        d' = (if changes_of tb ?ws = [] then d
          else commit_heads (tx_id tx) l (fold (change_data (tx_id tx)) (changes_of tb ?ws) d))"
    "\<And>tb. changes_of tb ?ws = [] \<Longrightarrow> db_engines s2' tb = db_engines s tb"
    using tables_after_commit [OF assms(1-3), of l] by blast
  have "s1' = s1" "s2' = s2"
    using after(1,2) app commit by simp_all
  note after = after [unfolded this]
  show ?thesis
  proof (cases "changes_of tb ?ws = []")
    case True
    have "(tb, k) \<notin> fst ` set (tx_write_set tx)"
      using True keys_changes [of k tb ?ws] write_order(3) [OF assms(1,2)] by simp
    then have "bt_get (tx_write_set tx) (tb, k) = None"
      by (simp add: bt_get_None_iff)
    then show ?thesis
      using after(4) [OF True] by (simp add: memory_read_def)
  next
    case False
    then obtain j v where "((tb, j), v) \<in> set (tx_write_set tx)"
      using changes_nonempty write_order(3) [OF assms(1,2)] by blast
    then have "takes e v"
      using assms(3) e by (auto simp: writes_fit_def)
    then obtain d where d: "engine_data e = Some d"
      using takes_data by blast
    obtain e' where e': "db_engines s2 tb = Some e'" "engine_view e' = engine_view e"
      "engine_data e' = Some (commit_heads (tx_id tx) l (fold (change_data (tx_id tx)) (changes_of tb ?ws) d))"
      using after(3) [of tb e d] e d False by auto
    have "settled_before l d"
      using assms(4) e d by (auto simp: table_settled_def)
    from read_after_commit [OF assms(1-3) e d this refl, of "tx_id tx" k n] show ?thesis
      using e' e d by (simp add: memory_read_def split: option.split)
  qed
qed

text \<open>
  C3. A commit is atomic. The transaction has put keys of B-trees in memory and put or deleted keys of
  hash tables in memory, in tables of the registry (\<open>writes_fit\<close>): deletions from a
  B-tree in memory are excluded, since they take the versions of earlier readers away, and so are the
  other kinds of tables. The versions in the tables are committed with earlier sequence numbers. Once
  the transaction has committed with sequence number \<open>l\<close>, a reader at \<open>l\<close> or
  later finds in every B-tree and hash table in memory the value the transaction wrote last (an empty
  value in a hash table reads as none), a reader before \<open>l\<close> what was there, and keys the
  transaction did not write are as before for every reader. The sequence number becomes the current
  one. Every lock the transaction held is free, every other lock is held by the transaction that held
  it, and no lock is new.
\<close>

theorem commit_atomic:
  assumes "orders_ok E" and "key_value_txn tx" and "writes_fit s (tx_write_set tx)"
    and "txn_commit E tx s = (Inr info, s')" and "table_settled (ci_commit_lsn info) s"
  shows "(\<forall>tb k n e. db_engines s tb = Some e \<longrightarrow> memory_read s' tb k n =
      (if ci_commit_lsn info \<le> n
       then case bt_get (tx_write_set tx) (tb, k) of Some v \<Rightarrow> engine_view e v | None \<Rightarrow> memory_read s tb k n
       else memory_read s tb k n)) \<and>
    db_current_lsn s' = ci_commit_lsn info \<and>
    (\<forall>x t. write_locks (db_detector s') x = Some t \<longleftrightarrow> write_locks (db_detector s) x = Some t \<and> t \<noteq> tx_id tx)"
proof -
  obtain p s1 s2 s3 l where steps: "wal_call E ''WAL prepare failed'' (\<lambda>now nonce. write_prepare (te_libs E) now nonce (tx_id tx)) s = (Inr p, s1)"
    "write_commit_record E tx s1 = (Inr l, s2)" "apply_all_changes E tx s2 = (Inr (), s3)"
    "finish_commit E tx l s3 = (Inr info, s')"
    by (rule txn_commit_steps [OF assms(4)])
  have s2: "db_engines s2 = db_engines s" "db_detector s2 = db_detector s"
    using wal_call_keeps [OF steps(1)] write_commit_record_keeps [OF steps(2)] by simp_all
  obtain s4 where s4: "commit_tables E tx l s3 = (Inr (), s4)" and
    s': "s' = s4\<lparr>db_current_lsn := l, db_detector := release_locks (tx_id tx) (db_detector s4)\<rparr>"
    and info: "ci_commit_lsn info = l"
    using finish_commit_steps [OF steps(4)] apply_special_none [OF assms(2,1), of l s3] by force
  have "db_detector s4 = db_detector s"
    using only_tablesD(2) [OF only_tables_apply_all steps(3)] only_tablesD(2) [OF only_tables_commit s4] s2 by simp
  moreover have "writes_fit s2 (tx_write_set tx)" "table_settled l s2"
    using assms(3,5) by (simp_all add: writes_fit_def table_settled_def s2 info)
  note reads = committed_tables_read [OF assms(1,2) this steps(3) s4]
  have "memory_read s2 = memory_read s" "memory_read s' = memory_read s4"
    by (simp_all add: memory_read_def fun_eq_iff s2 s')
  then have "\<forall>tb k n e. db_engines s tb = Some e \<longrightarrow> memory_read s' tb k n =
      (if l \<le> n then case bt_get (tx_write_set tx) (tb, k) of Some v \<Rightarrow> engine_view e v | None \<Rightarrow> memory_read s tb k n
       else memory_read s tb k n)"
    using reads by (auto simp: s2 split: option.split)
  ultimately show ?thesis
    by (simp add: s' info release_locks_iff)
qed

theorem commit_atomic_witness:
  "\<exists>w info s'. txn_commit sample_txn_env sample_tx (sample_db w) = (Inr info, s') \<and>
    memory_read s' 1 [5] (ci_commit_lsn info) = Some [6] \<and> memory_read s' 2 [8] (ci_commit_lsn info) = None \<and>
    db_current_lsn s' = ci_commit_lsn info"
proof -
  obtain w where w: "writer_run plain_libs ''wal'' wal_writer_config_default [Begin 7] w" "ww_current_offset w = 71"
    "ww_active w = {7}"
    by (rule sample_wal)
  obtain info s' where c: "txn_commit sample_txn_env sample_tx (sample_db w) = (Inr info, s')"
    using sample_commits [OF w] by blast
  have "bt_get (tx_write_set sample_tx) (1, [5]) = Some (Some [6])" "bt_get (tx_write_set sample_tx) (2, [8]) = Some None"
    by (simp_all add: sample_tx_def record_delete_def record_write_def txn_build_def)
  moreover have "db_engines (sample_db w) 1 = Some (Eng_MemoryBTree (btree_new 1 ''b''))"
    "db_engines (sample_db w) 2 = Some (Eng_MemoryHashTable (hash_new 2 ''h''))"
    by (simp_all add: sample_db_def)
  moreover note commit_atomic [OF sample_txn_env_ok(2) sample_tx_ok(1,3) c sample_tx_ok(5)]
  ultimately have "memory_read s' 1 [5] (ci_commit_lsn info) = Some [6]" "memory_read s' 2 [8] (ci_commit_lsn info) = None"
    "db_current_lsn s' = ci_commit_lsn info"
    by (auto simp: live_def)
  then show ?thesis
    using c by blast
qed

text \<open>
  C4. A transaction that puts keys of B-trees in memory and puts or deletes keys of hash tables in
  memory (\<open>writes_fit\<close>) commits, as long as the log, which is neither compressed nor
  encrypted (\<open>plain_config\<close>), knows the transaction and has room for its two last
  records, and no other transaction holds a lock on what it has read.
\<close>

theorem commit_live:
  assumes "libs_ok (te_libs E)" and "orders_ok E" and "\<And>i. length (te_nonce E i) = 12" and "plain_config cfg"
    and "writer_run (te_libs E) path cfg ds (db_wal s)" and "tx_id tx \<in> ww_active (db_wal s)"
    and "ww_current_offset (db_wal s) + record_cost (Prepare (tx_id tx)) + record_cost (Commit (tx_id tx)) \<le> wc_max_wal_size cfg"
    and "key_value_txn tx" and "writes_fit s (tx_write_set tx)" and "no_conflicts tx s" and "is_active tx"
  shows "\<exists>info s'. txn_commit E tx s = (Inr info, s')"
  by (rule commit_runs [OF assms])

theorem commit_live_witness:
  "\<exists>w info s'. ww_active w = {7} \<and> txn_commit sample_txn_env sample_tx (sample_db w) = (Inr info, s')"
proof -
  obtain w where w: "writer_run plain_libs ''wal'' wal_writer_config_default [Begin 7] w" "ww_current_offset w = 71"
    "ww_active w = {7}"
    by (rule sample_wal)
  have "\<exists>info s'. txn_commit sample_txn_env sample_tx (sample_db w) = (Inr info, s')"
  proof (rule commit_live [OF sample_txn_env_ok sample_log_ok(5)])
    show "writer_run (te_libs sample_txn_env) ''wal'' wal_writer_config_default [Begin 7] (db_wal (sample_db w))"
      using w(1) by (simp add: sample_txn_env_def sample_db_def)
    show "ww_current_offset (db_wal (sample_db w)) + record_cost (Prepare (tx_id sample_tx)) +
        record_cost (Commit (tx_id sample_tx)) \<le> wc_max_wal_size wal_writer_config_default"
      using w(2) by (simp add: sample_db_def record_cost_def wal_writer_config_default_def)
  qed (use w in \<open>simp_all add: sample_tx_ok sample_db_wal\<close>)
  then show ?thesis
    using w(3) by blast
qed

section \<open>A commit that fails to apply\<close>

lemma rollback_inactive: "t \<notin> ww_active w \<Longrightarrow> write_rollback L now nonce t w = Inl (wal_error.TransactionNotFound t)"
  by (simp add: write_rollback_def)

lemma commit_deactivates:
  assumes "write_commit L now nonce t w = Inr (l, w')"
  shows "t \<notin> ww_active w'"
proof -
  obtain w1 w2 where w2: "w2 = w1\<lparr>ww_active := ww_active w1 - {t}\<rparr>"
    and "write_out (ww_gc_sync w2) w2 = Inr w' \<or> flush_internal w2 = Inr w' \<or> w' = w2"
    using assms by (auto simp: write_commit_def submit_commit_def flush_callback_def writer_flush_def
        rbind_eq_Inr_iff Let_def split: if_splits sum.splits)
  then have "ww_active w' = ww_active w2"
    using write_out_keeps(3) unfolding flush_internal_def by blast
  then show ?thesis
    by (simp add: w2)
qed

lemma commit_record_deactivates:
  assumes "write_commit_record E tx s = (Inr l, s')"
  shows "tx_id tx \<notin> ww_active (db_wal s')"
proof -
  obtain s1 where s1: "wal_call E ''WAL commit failed'' (\<lambda>now nonce. write_commit (te_libs E) now nonce (tx_id tx)) s = (Inr l, s1)"
    and "s' = s1 \<or> (\<exists>u. wal_flush s1 = (Inr u, s'))"
    using assms by (auto simp: write_commit_record_def pret_def split: if_splits elim!: pbind_InrE)
  then have "ww_active (db_wal s') = ww_active (db_wal s1)"
    by (auto simp: wal_flush_def writer_flush_def flush_internal_def dest: write_out_keeps(3) split: sum.splits)
  then show ?thesis
    using wal_call_keeps(4) [OF s1 refl] commit_deactivates by auto
qed

text \<open>The errors of applying come from the tables.\<close>

definition from_tables :: "txn_error \<Rightarrow> bool" where
  "from_tables err \<longleftrightarrow> (\<exists>e. err = table_failed e) \<or> (\<exists>m. err = message m)"

lemma map_err_from_tables: "map_err r = Inl err \<Longrightarrow> from_tables err"
  by (auto simp: map_err_def from_tables_def split: sum.splits)

lemma blob_write_from_tables: "blob_write_one pc k v b = (Inl err, b') \<Longrightarrow> from_tables err"
  by (auto simp: blob_write_one_def from_tables_def split: option.splits sum.splits prod.splits)

lemma engine_write_from_tables: "engine_write E k v t l e = (Inl err, e') \<Longrightarrow> from_tables err"
  by (cases e) (auto simp: engine_write_def lift_x_def from_tables_def [of "message m" for m]
    dest: map_err_from_tables blob_write_from_tables split: prod.splits)

lemma on_table_from_tables:
  assumes "on_table tb (engine_write E k v t l) s = (Inl err, s')"
  shows "from_tables err"
  using assms engine_write_from_tables by (auto simp: on_table_def split: option.splits prod.splits)

lemma apply_from_tables:
  assumes "pmapM (\<lambda>((tb, k), v). on_table tb (engine_write E k v t l)) ws s = (Inl err, s')"
  shows "from_tables err"
  using assms
proof (induction ws arbitrary: s)
  case (Cons w ws)
  then show ?case
    using on_table_from_tables by (auto simp: pbind_def split: prod.splits sum.splits)
qed (simp add: pret_def)

text \<open>
  C20. When a change cannot be applied after the COMMIT record is in the log, the commit cannot be
  taken back: the ROLLBACK record is refused, since the log no longer knows the transaction. The
  caller gets that error, which differs from the one that occurred, the log stays as it was after the
  COMMIT record, and every lock, those of the transaction among them, stays taken.
\<close>

theorem failed_apply_keeps_locks:
  assumes "is_active tx" and "collect_undo E tx s = Inr undo"
    and "wal_call E ''WAL prepare failed'' (\<lambda>now nonce. write_prepare (te_libs E) now nonce (tx_id tx)) s = (Inr p, s1)"
    and "check_isolation E tx s1 = (Inr (), s1)" and "write_commit_record E tx s1 = (Inr l, s2)"
    and "apply_all_changes E tx s2 = (Inl err, s3)"
  shows "\<exists>res s'. txn_commit E tx s = (Inl res, s') \<and>
    res = wal_failed ''WAL rollback failed'' (wal_error.TransactionNotFound (tx_id tx)) \<and> res \<noteq> err \<and>
    write_locks (db_detector s') = write_locks (db_detector s) \<and> db_wal s' = db_wal s2"
proof -
  obtain m where m: "undo_all E tx undo s3 = s3\<lparr>db_engines := m\<rparr>"
    using only_tables_undo by blast
  let ?s = "s3\<lparr>db_engines := m\<rparr>"
  have s3: "db_wal s3 = db_wal s2" "db_detector s3 = db_detector s2"
    using only_tablesD(1,2) [OF only_tables_apply_all assms(6)] by simp_all
  let ?e = "wal_error.TransactionNotFound (tx_id tx)"
  have "write_rollback (te_libs E) (te_now E (db_draws ?s)) (te_nonce E (db_draws ?s)) (tx_id tx) (db_wal ?s) = Inl ?e"
    using rollback_inactive commit_record_deactivates [OF assms(5)] s3 by simp
  then have "abort_apply E tx undo err s3 =
      ((Inl (wal_failed ''WAL rollback failed'' ?e), ?s\<lparr>db_draws := db_draws s3 + 1\<rparr>) :: (txn_error + commit_info) \<times> _)"
    using m by (simp add: abort_apply_def pbind_def pret_def wal_call_def Let_def)
  moreover have "db_detector s2 = db_detector s"
    using write_commit_record_keeps(2) [OF assms(5)] wal_call_keeps(2) [OF assms(3)] by simp
  moreover have "err \<noteq> wal_failed ''WAL rollback failed'' ?e"
    using apply_from_tables [OF assms(6) [unfolded apply_all_changes_def]] by (auto simp: from_tables_def table_failed_def)
  ultimately show ?thesis
    using assms s3 by (simp add: txn_commit_def is_active_def pbind_def plift_def)
qed

text \<open>A put to a table of edges is accepted and cannot be applied.\<close>

theorem failed_apply_keeps_locks_witness:
  "\<exists>w s'. txn_commit sample_txn_env (record_write 3 [5] [6] sample_new)
      (sample_db w\<lparr>db_detector := acquire_write_lock 3 [5] 7 conflict_detector_new\<rparr>) =
        (Inl (wal_failed ''WAL rollback failed'' (wal_error.TransactionNotFound 7)), s') \<and>
    write_locks (db_detector s') (3, [5]) = Some 7"
proof -
  let ?tx = "record_write 3 [5] [6] sample_new"
  obtain w where w: "writer_run plain_libs ''wal'' wal_writer_config_default [Begin 7] w" "ww_current_offset w = 71"
    "ww_active w = {7}"
    by (rule sample_wal)
  let ?s = "sample_db w\<lparr>db_detector := acquire_write_lock 3 [5] 7 conflict_detector_new\<rparr>"
  note tx = record_write_def txn_build_def
  have undo: "collect_undo sample_txn_env ?tx ?s = Inr [RestoreValue 3 [5] None]"
    by (simp add: collect_undo_def tx sample_txn_env_def sample_db_def undo_write_def undo_value_def)
  obtain p w1 where p: "write_prepare plain_libs 0 (replicate 12 0) 7 w = Inr (p, w1)"
    and run: "writer_run plain_libs ''wal'' wal_writer_config_default [Begin 7, Prepare 7] w1" and w1: "ww_active w1 = {7}"
      "ww_current_offset w1 = 142"
    using prepare_succeeds [OF plain_libs_ok sample_log_ok(5) w(1), of 7 "replicate 12 0" 0] w
    by (auto simp: record_cost_def wal_writer_config_default_def)
  define s1 where "s1 = ?s\<lparr>db_draws := 1, db_wal := w1\<rparr>"
  have s1: "wal_call sample_txn_env ''WAL prepare failed'' (\<lambda>now nonce. write_prepare (te_libs sample_txn_env) now nonce (tx_id ?tx)) ?s = (Inr p, s1)"
    using p by (simp add: wal_call_def sample_txn_env_def sample_db_def s1_def tx)
  have iso: "check_isolation sample_txn_env ?tx s1 = (Inr (), s1)"
    by (rule check_isolation_passes [OF sample_txn_env_ok(2)]) (simp add: no_conflicts_def tx)
  have "\<exists>l s2. write_commit_record sample_txn_env ?tx s1 = (Inr l, s2)"
    using commit_record_succeeds [OF sample_txn_env_ok(1) sample_log_ok(5), of "''wal''" "[Begin 7, Prepare 7]" s1 ?tx] run w1
      sample_txn_env_ok(3)
    by (simp add: s1_def tx sample_txn_env_def record_cost_def wal_writer_config_default_def)
  then obtain l s2 where s2: "write_commit_record sample_txn_env ?tx s1 = (Inr l, s2)"
    by blast
  have "db_engines s2 = db_engines ?s"
    using write_commit_record_keeps(1) [OF s2] by (simp add: s1_def)
  then have "\<exists>err s3. apply_all_changes sample_txn_env ?tx s2 = (Inl err, s3)"
    by (simp add: apply_all_changes_def tx sample_txn_env_def pbind_def on_table_def engine_write_def sample_db_def)
  then obtain err s3 where s3: "apply_all_changes sample_txn_env ?tx s2 = (Inl err, s3)"
    by blast
  have "is_active ?tx"
    by (simp add: is_active_def tx)
  from failed_apply_keeps_locks [OF this undo s1 iso s2 s3] obtain s' where
    "txn_commit sample_txn_env ?tx ?s = (Inl (wal_failed ''WAL rollback failed'' (wal_error.TransactionNotFound (tx_id ?tx))), s')"
    "write_locks (db_detector s') = write_locks (db_detector ?s)"
    by blast
  moreover have "tx_id ?tx = 7" "write_locks (db_detector ?s) (3, [5]) = Some 7"
    by (simp_all add: tx acquire_write_lock_def)
  ultimately show ?thesis
    by metis
qed

section \<open>Writing and reading in a transaction\<close>

text \<open>
  C19. What a transaction has put it reads back, and other keys read as before. Until it commits no
  table changes. A key another transaction holds the lock of cannot be put, and the attempt changes
  nothing.
\<close>

theorem put_then_get:
  assumes "txn_put E tb k v tx s = (r, s')"
  shows "(\<forall>tx'. r = Inr tx' \<longrightarrow> txn_get E tb k tx' s' = Inr (Some v) \<and>
      (\<forall>tb' k'. (tb', k') \<noteq> (tb, k) \<longrightarrow> txn_get E tb' k' tx' s' = txn_get E tb' k' tx s) \<and>
      write_locks (db_detector s') (tb, k) = Some (tx_id tx)) \<and>
    db_engines s' = db_engines s \<and>
    (\<forall>h. is_active tx \<longrightarrow> write_locks (db_detector s) (tb, k) = Some h \<longrightarrow> h \<noteq> tx_id tx \<longrightarrow>
      r = Inl (WriteWriteConflict tb k h (tx_id tx)) \<and> s' = s)"
proof (cases "is_active tx")
  case False
  then show ?thesis
    using assms by (auto simp: txn_put_def perr_def)
next
  case True
  show ?thesis
  proof (cases "lock_key tb k (tx_id tx) (db_detector s)")
    case (Inl e)
    then have r: "r = Inl e" "s' = s"
      using assms True by (auto simp: txn_put_def pbind_def take_lock_def)
    then show ?thesis
      using Inl by (auto simp: lock_key_def check_write_conflict_def split: option.splits if_splits)
  next
    case (Inr d)
    then have free: "write_locks (db_detector s) (tb, k) = None \<or> write_locks (db_detector s) (tb, k) = Some (tx_id tx)"
      and d: "d = acquire_write_lock tb k (tx_id tx) (db_detector s)"
      by (auto simp: lock_key_Inr_iff)
    let ?s = "s\<lparr>db_detector := d\<rparr>"
    obtain q s1 where s1: "wal_call E ''WAL write failed'' (\<lambda>now nonce. write_operation (te_libs E) now nonce (tx_id tx) tb Op_Put k v) ?s = (q, s1)"
      by fastforce
    have r: "r = (case q of Inl e \<Rightarrow> Inl e | Inr l \<Rightarrow> Inr (record_write tb k v tx))" "s' = s1"
      using assms True Inr s1 by (auto simp: txn_put_def pbind_def take_lock_def pret_def split: sum.splits)
    have "db_engines s1 = db_engines s" "db_detector s1 = d"
      using wal_call_keeps(1,2) [OF s1] by simp_all
    then show ?thesis
      using r free True
      by (auto simp: txn_get_def record_write_def is_active_def d acquire_write_lock_def split: sum.splits option.split)
  qed
qed

theorem put_then_get_witness:
  "\<exists>w r s'. txn_put sample_txn_env 1 [5] [6] sample_new
      (sample_db w\<lparr>db_detector := acquire_write_lock 1 [5] 9 conflict_detector_new\<rparr>) = (r, s') \<and>
    r = Inl (WriteWriteConflict 1 [5] 9 7) \<and> db_engines s' = db_engines (sample_db w)"
proof -
  fix w :: wal_writer
  let ?s = "sample_db w\<lparr>db_detector := acquire_write_lock 1 [5] 9 conflict_detector_new\<rparr>"
  obtain r s' where r: "txn_put sample_txn_env 1 [5] [6] sample_new ?s = (r, s')"
    by fastforce
  from put_then_get [OF this] have "r = Inl (WriteWriteConflict 1 [5] 9 7)" "db_engines s' = db_engines (sample_db w)"
    by (auto simp: is_active_def txn_build_def acquire_write_lock_def)
  then show ?thesis
    using r by blast
qed

text \<open>
  C22. Rolling a transaction back writes the ROLLBACK record and touches no table. Every lock the
  transaction held is free then, every other lock is held by the transaction that held it, and no lock
  is new. A transaction that is committed or aborted cannot be rolled back, and the attempt changes
  nothing.
\<close>

theorem rollback_discards:
  assumes "txn_rollback E tx s = (r, s')"
  shows "db_engines s' = db_engines s \<and>
    (r = Inr () \<longrightarrow>
      (\<forall>x t. write_locks (db_detector s') x = Some t \<longleftrightarrow> write_locks (db_detector s) x = Some t \<and> t \<noteq> tx_id tx) \<and>
      (\<exists>l now nonce. write_rollback (te_libs E) now nonce (tx_id tx) (db_wal s) = Inr (l, db_wal s'))) \<and>
    (\<not> is_active tx \<and> tx_state tx \<noteq> Txn_Preparing \<longrightarrow> r = Inl (invalid_state tx ''rollback'') \<and> s' = s)"
proof (cases "tx_state tx \<noteq> Txn_Active \<and> tx_state tx \<noteq> Txn_Preparing")
  case True
  then show ?thesis
    using assms by (auto simp: txn_rollback_def perr_def is_active_def)
next
  case False
  obtain q s1 where s1: "wal_call E ''WAL rollback failed'' (\<lambda>now nonce. write_rollback (te_libs E) now nonce (tx_id tx)) s = (q, s1)"
    by fastforce
  have r: "case q of Inl e \<Rightarrow> r = Inl e \<and> s' = s1
      | Inr l \<Rightarrow> r = Inr () \<and> s' = s1\<lparr>db_detector := release_locks (tx_id tx) (db_detector s1)\<rparr>"
    using assms False s1 by (auto simp: txn_rollback_def pbind_def release_all_def split: sum.splits)
  then show ?thesis
  proof (cases q)
    case (Inr l)
    then show ?thesis
      using r False wal_call_keeps [OF s1] by (auto simp: is_active_def release_locks_iff)
  qed (use r False wal_call_keeps [OF s1] in \<open>auto simp: is_active_def\<close>)
qed

lemma rollback_succeeds:
  assumes L: "libs_ok L" and cfg: "plain_config cfg" and run: "writer_run L path cfg ds w" and t: "t \<in> ww_active w"
    and room: "ww_current_offset w + record_cost (Rollback t) \<le> wc_max_wal_size cfg"
  shows "\<exists>l w'. write_rollback L now nonce t w = Inr (l, w')"
proof -
  obtain rs where "writer_log L w rs"
    using run_log(1) [OF run] by blast
  then have log: "log_bytes L w rs"
    by (simp add: writer_log_def)
  obtain w1 where "write_record_internal L nonce (new_record now (Rollback t) w) w = Inr w1"
    using record_internal_total [OF L _ log] cfg run_log(3) [OF run] room by metis
  then show ?thesis
    using t by (simp add: write_rollback_def Let_def)
qed

text \<open>Transaction 7 rolls back; its lock is free then and the lock of transaction 9 is not.\<close>

theorem rollback_discards_witness:
  "\<exists>w s'. txn_rollback sample_txn_env sample_tx (sample_db w\<lparr>db_detector :=
      acquire_write_lock 1 [5] 7 (acquire_write_lock 1 [6] 9 conflict_detector_new)\<rparr>) = (Inr (), s') \<and>
    write_locks (db_detector s') (1, [5]) = None \<and> write_locks (db_detector s') (1, [6]) = Some 9"
proof -
  obtain w where w: "writer_run plain_libs ''wal'' wal_writer_config_default [Begin 7] w" "ww_current_offset w = 71"
    "ww_active w = {7}"
    by (rule sample_wal)
  let ?s = "sample_db w\<lparr>db_detector := acquire_write_lock 1 [5] 7 (acquire_write_lock 1 [6] 9 conflict_detector_new)\<rparr>"
  have "\<exists>l w'. write_rollback plain_libs 0 (replicate 12 0) 7 w = Inr (l, w')"
    using w by (intro rollback_succeeds [OF plain_libs_ok sample_log_ok(5) w(1)])
      (simp_all add: record_cost_def wal_writer_config_default_def)
  then have "fst (txn_rollback sample_txn_env sample_tx ?s) = Inr ()"
    using sample_tx_ok(2,6) by (auto simp: txn_rollback_def is_active_def pbind_def wal_call_def release_all_def
        sample_txn_env_def sample_db_wal)
  then obtain s' where s': "txn_rollback sample_txn_env sample_tx ?s = (Inr (), s')"
    by (metis prod.collapse)
  have "write_locks (db_detector s') x = Some t \<longleftrightarrow> write_locks (db_detector ?s) x = Some t \<and> t \<noteq> 7" for x t
    using rollback_discards [OF s'] unfolding sample_tx_ok(6) by blast
  note locks = this [of "(1, [5])"] this [of "(1, [6])"]
  have "write_locks (db_detector s') (1, [5]) = None" "write_locks (db_detector s') (1, [6]) = Some 9"
    using locks by (simp_all add: acquire_write_lock_def flip: not_None_eq) auto
  then show ?thesis
    using s' by blast
qed

end
