(* ===== verification/TxnRecovery.thy ===== *)
theory TxnRecovery
  imports TxnProps
begin

text \<open>
  Transactions and what is left of them: the records a transaction puts in the log, what recovery
  makes of them, and the tables whose changes stay out of sight after the commit.
\<close>

section \<open>The log of a transaction\<close>

fun txn_puts :: "'x txn_env \<Rightarrow> (table_id \<times> bytes \<times> bytes) list \<Rightarrow> transaction \<Rightarrow> ('x, transaction) txn_action" where
  "txn_puts E [] tx = pret tx"
| "txn_puts E ((tb, k, v) # ws) tx = pbind (txn_put E tb k v tx) (txn_puts E ws)"

definition put_record :: "table_id \<times> bytes \<times> bytes \<Rightarrow> recovered_write" where
  "put_record = (\<lambda>(tb, k, v). \<lparr>rw_table_id = tb, rw_op_type = Op_Put, rw_key = k, rw_value = v\<rparr>)"

lemma txn_put_run:
  assumes run: "writer_run (te_libs E) path cfg ds (db_wal s)" and nonce: "\<And>i. length (te_nonce E i) = 12"
    and size: "length k < 2 ^ 32" "length v < 2 ^ 32" and put: "txn_put E tb k v tx s = (Inr tx', s')"
  shows "writer_run (te_libs E) path cfg (ds @ [write_record (tx_id tx) (put_record (tb, k, v))]) (db_wal s')"
    "tx_id tx' = tx_id tx"
proof -
  obtain d where d: "lock_key tb k (tx_id tx) (db_detector s) = Inr d" and "is_active tx"
    using put by (auto simp: txn_put_def perr_def pbind_def take_lock_def split: if_splits sum.splits)
  let ?s = "s\<lparr>db_detector := d\<rparr>"
  obtain l where l: "wal_call E ''WAL write failed'' (\<lambda>now nonce. write_operation (te_libs E) now nonce (tx_id tx) tb Op_Put k v) ?s = (Inr l, s')"
    and tx': "tx' = record_write tb k v tx"
    using put d \<open>is_active tx\<close> by (auto simp: txn_put_def take_lock_def pbind_def pret_def split: prod.splits sum.splits)
  show "tx_id tx' = tx_id tx"
    by (simp add: tx' record_write_def)
  obtain now non where "length non = 12" "write_operation (te_libs E) now non (tx_id tx) tb Op_Put k v (db_wal s) = Inr (l, db_wal s')"
    using wal_call_keeps(4) [OF l refl] nonce by auto
  then show "writer_run (te_libs E) path cfg (ds @ [write_record (tx_id tx) (put_record (tb, k, v))]) (db_wal s')"
    using run_step [OF run step_write [OF _ size]] by (simp add: write_record_def put_record_def)
qed

lemma txn_puts_run:
  assumes "writer_run (te_libs E) path cfg ds (db_wal s)" and nonce: "\<And>i. length (te_nonce E i) = 12"
    and "\<forall>(tb, k, v)\<in>set ws. length k < 2 ^ 32 \<and> length v < 2 ^ 32" and "txn_puts E ws tx s = (Inr tx', s')"
  shows "writer_run (te_libs E) path cfg (ds @ map (write_record (tx_id tx)) (map put_record ws)) (db_wal s') \<and> tx_id tx' = tx_id tx"
  using assms(1,3,4)
proof (induction ws arbitrary: ds tx s)
  case Nil
  then show ?case
    by (auto simp: pret_def)
next
  case (Cons w ws)
  obtain tb k v where w: "w = (tb, k, v)"
    by (cases w)
  obtain tx1 s1 where put: "txn_put E tb k v tx s = (Inr tx1, s1)" and rest: "txn_puts E ws tx1 s1 = (Inr tx', s')"
    using Cons.prems(3) by (auto simp: w elim: pbind_InrE)
  have size: "length k < 2 ^ 32" "length v < 2 ^ 32"
    using Cons.prems(2) by (auto simp: w)
  note run = txn_put_run [OF Cons.prems(1) nonce size put]
  then show ?case
    using Cons.IH [OF run(1) _ rest] Cons.prems(2) by (simp add: w)
qed

lemma commit_record_run:
  assumes run: "writer_run (te_libs E) path cfg ds (db_wal s)" and nonce: "\<And>i. length (te_nonce E i) = 12"
    and rec: "write_commit_record E tx s = (Inr l, s')"
  shows "writer_run (te_libs E) path cfg (ds @ [Commit (tx_id tx)]) (db_wal s')"
proof -
  obtain s1 where s1: "wal_call E ''WAL commit failed'' (\<lambda>now nonce. write_commit (te_libs E) now nonce (tx_id tx)) s = (Inr l, s1)"
    and s': "s' = s1 \<or> (\<exists>u. wal_flush s1 = (Inr u, s'))"
    using rec by (auto simp: write_commit_record_def pret_def split: if_splits elim!: pbind_InrE)
  obtain now non where "length non = 12" "write_commit (te_libs E) now non (tx_id tx) (db_wal s) = Inr (l, db_wal s1)"
    using wal_call_keeps(4) [OF s1 refl] nonce by auto
  then have run1: "writer_run (te_libs E) path cfg (ds @ [Commit (tx_id tx)]) (db_wal s1)"
    using run_step [OF run step_commit] by blast
  show ?thesis
    using s'
  proof
    assume "\<exists>u. wal_flush s1 = (Inr u, s')"
    then have "writer_flush (db_wal s1) = Inr (db_wal s')"
      by (auto simp: wal_flush_def split: sum.splits)
    then show ?thesis
      using run_step [OF run1 step_flush] by simp
  qed (use run1 in simp)
qed

lemma finish_commit_wal:
  assumes "finish_commit E tx l s = (Inr info, s')"
  shows "db_wal s' = db_wal s"
proof -
  obtain s1 s2 where "apply_special E tx l s = (Inr (), s1)" "commit_tables E tx l s1 = (Inr (), s2)"
    "s' = s2\<lparr>db_current_lsn := l, db_detector := release_locks (tx_id tx) (db_detector s2)\<rparr>"
    by (rule finish_commit_steps [OF assms])
  note steps = this
  then show ?thesis
    using only_tablesD(1) [OF only_tables_special steps(1)] only_tablesD(1) [OF only_tables_commit steps(2)] by simp
qed

lemma txn_commit_run:
  assumes run: "writer_run (te_libs E) path cfg ds (db_wal s)" and nonce: "\<And>i. length (te_nonce E i) = 12"
    and commit: "txn_commit E tx s = (Inr info, s')"
  shows "writer_run (te_libs E) path cfg (ds @ [Prepare (tx_id tx), Commit (tx_id tx)]) (db_wal s')"
    "tx_id tx \<in> ww_active (db_wal s)"
proof -
  obtain p s1 s2 s3 l where steps: "wal_call E ''WAL prepare failed'' (\<lambda>now nonce. write_prepare (te_libs E) now nonce (tx_id tx)) s = (Inr p, s1)"
    "write_commit_record E tx s1 = (Inr l, s2)" "apply_all_changes E tx s2 = (Inr (), s3)"
    "finish_commit E tx l s3 = (Inr info, s')"
    by (rule txn_commit_steps [OF commit])
  obtain now non where p: "length non = 12" "write_prepare (te_libs E) now non (tx_id tx) (db_wal s) = Inr (p, db_wal s1)"
    using wal_call_keeps(4) [OF steps(1) refl] nonce by auto
  then show "tx_id tx \<in> ww_active (db_wal s)"
    by (auto simp: write_prepare_def split: if_splits)
  have "writer_run (te_libs E) path cfg (ds @ [Prepare (tx_id tx)]) (db_wal s1)"
    using run_step [OF run step_prepare [OF p]] .
  from commit_record_run [OF this nonce steps(2)] show
    "writer_run (te_libs E) path cfg (ds @ [Prepare (tx_id tx), Commit (tx_id tx)]) (db_wal s')"
    using only_tablesD(1) [OF only_tables_apply_all steps(3)] finish_commit_wal [OF steps(4)] by simp
qed

lemma txn_new_run:
  assumes run: "writer_run (te_libs E) path cfg ds (db_wal s)" and nonce: "\<And>i. length (te_nonce E i) = 12"
    and new: "txn_new E t l il dur s = (tx, s')"
  shows "writer_run (te_libs E) path cfg (ds @ [Begin t]) (db_wal s') \<or> db_wal s' = db_wal s"
proof -
  obtain r where r: "wal_call E '''' (\<lambda>now nonce. write_begin (te_libs E) now nonce t) s = (r, s')"
    using new unfolding txn_new_def by (metis prod.collapse snd_conv)
  show ?thesis
  proof (cases r)
    case (Inl e)
    then show ?thesis
      using wal_call_keeps(5) [OF r] by simp
  next
    case (Inr b)
    obtain now non where "length non = 12" "write_begin (te_libs E) now non t (db_wal s) = Inr (b, db_wal s')"
      using wal_call_keeps(4) [OF r Inr] nonce by auto
    then show ?thesis
      using run_step [OF run step_begin] by blast
  qed
qed

lemma run_active: "writer_run L path cfg ds w \<Longrightarrow> ww_active w = fold track_active ds {}"
  using run_log(1) legal_log_active by blast

lemma writes_track: "fold track_active (map (write_record t) ws) A = A"
  by (induction ws) (simp_all add: write_record_def)

text \<open>Beginning a transaction and putting a key succeed while the log has room.\<close>

lemma record_written:
  assumes "libs_ok L" and "plain_config cfg" and "writer_run L path cfg ds w"
    and "ww_current_offset w + record_cost d \<le> wc_max_wal_size cfg"
  shows "\<exists>w'. write_record_internal L nonce (new_record now d w) w = Inr w' \<and>
    ww_current_offset w' = ww_current_offset w + record_cost d"
proof -
  obtain rs where "log_bytes L w rs"
    using run_log(1) [OF assms(3)] by (auto simp: writer_log_def)
  then show ?thesis
    using record_internal_total [OF assms(1)] assms(2,4) run_log(3) [OF assms(3)] by metis
qed

lemma begin_succeeds:
  assumes "libs_ok (te_libs E)" and "plain_config cfg" and "writer_run (te_libs E) path cfg ds (db_wal s)"
    and "\<And>i. length (te_nonce E i) = 12" and "t \<notin> ww_active (db_wal s)"
    and "ww_current_offset (db_wal s) + record_cost (Begin t) \<le> wc_max_wal_size cfg"
  shows "\<exists>s'. txn_new E t l il dur s = (txn_build t l il dur, s') \<and>
    writer_run (te_libs E) path cfg (ds @ [Begin t]) (db_wal s') \<and> db_engines s' = db_engines s \<and>
    db_detector s' = db_detector s \<and> ww_current_offset (db_wal s') = ww_current_offset (db_wal s) + record_cost (Begin t)"
proof -
  obtain w where w: "write_record_internal (te_libs E) (te_nonce E (db_draws s)) (new_record (te_now E (db_draws s)) (Begin t) (db_wal s))
      (db_wal s) = Inr w" "ww_current_offset w = ww_current_offset (db_wal s) + record_cost (Begin t)"
    using record_written [OF assms(1-3,6)] by blast
  then have "write_begin (te_libs E) (te_now E (db_draws s)) (te_nonce E (db_draws s)) t (db_wal s) =
      Inr (ww_current_lsn (db_wal s), w\<lparr>ww_active := insert t (ww_active w)\<rparr>)"
    using assms(5) by (simp add: write_begin_def Let_def)
  then show ?thesis
    using run_step [OF assms(3) step_begin [OF assms(4)]] w(2) by (simp add: txn_new_def wal_call_def Let_def)
qed

lemma put_succeeds:
  assumes "libs_ok (te_libs E)" and "plain_config cfg" and "writer_run (te_libs E) path cfg ds (db_wal s)"
    and "\<And>i. length (te_nonce E i) = 12" and "tx_id tx \<in> ww_active (db_wal s)" and "is_active tx"
    and "write_locks (db_detector s) (tb, k) = None"
    and "ww_current_offset (db_wal s) + record_cost (Write (tx_id tx) tb Op_Put k v) \<le> wc_max_wal_size cfg"
  shows "\<exists>s'. txn_put E tb k v tx s = (Inr (record_write tb k v tx), s') \<and> db_engines s' = db_engines s \<and>
    ww_current_offset (db_wal s') = ww_current_offset (db_wal s) + record_cost (Write (tx_id tx) tb Op_Put k v)"
proof -
  obtain w where w: "write_record_internal (te_libs E) (te_nonce E (db_draws s))
      (new_record (te_now E (db_draws s)) (Write (tx_id tx) tb Op_Put k v) (db_wal s)) (db_wal s) = Inr w"
    "ww_current_offset w = ww_current_offset (db_wal s) + record_cost (Write (tx_id tx) tb Op_Put k v)"
    using record_written [OF assms(1-3,8)] by blast
  then have "write_operation (te_libs E) (te_now E (db_draws s)) (te_nonce E (db_draws s)) (tx_id tx) tb Op_Put k v (db_wal s) =
      Inr (ww_current_lsn (db_wal s), w)"
    using assms(5) by (simp add: write_operation_def Let_def)
  then show ?thesis
    using w(2) assms(6,7) by (simp add: txn_put_def take_lock_def lock_key_def check_write_conflict_def pbind_def wal_call_def
        pret_def Let_def)
qed

lemma commit_record_flushed:
  assumes "writer_run (te_libs E) path cfg ds (db_wal s)" and "\<And>i. length (te_nonce E i) = 12"
    and "tx_durability tx = FlushOnCommit" and "write_commit_record E tx s = (Inr l, s')"
  shows "ww_buffer (db_wal s') = []"
proof -
  obtain s1 where s1: "wal_call E ''WAL commit failed'' (\<lambda>now nonce. write_commit (te_libs E) now nonce (tx_id tx)) s = (Inr l, s1)"
    and s': "wal_flush s1 = (Inr (), s')"
    using assms(3,4) by (auto simp: write_commit_record_def pret_def elim!: pbind_InrE)
  have w: "write_commit (te_libs E) (te_now E (db_draws s)) (te_nonce E (db_draws s)) (tx_id tx) (db_wal s) = Inr (l, db_wal s1)"
    using wal_call_keeps(4) [OF s1 refl] by auto
  obtain rs where "writer_log (te_libs E) (db_wal s1) rs"
    using run_log(1) [OF run_step [OF assms(1) step_commit [OF assms(2) w]]] by blast
  then obtain w' where "writer_flush (db_wal s1) = Inr w'" "ww_buffer w' = []"
    using writer_flush_log by blast
  then show ?thesis
    using s' by (auto simp: wal_flush_def)
qed

text \<open>A committed transaction that flushes leaves nothing in the buffer.\<close>

lemma commit_flushed:
  assumes "writer_run (te_libs E) path cfg ds (db_wal s)" and nonce: "\<And>i. length (te_nonce E i) = 12"
    and "tx_durability tx = FlushOnCommit" and "txn_commit E tx s = (Inr info, s')"
  shows "ww_buffer (db_wal s') = []"
proof -
  obtain p s1 s2 s3 l where steps: "wal_call E ''WAL prepare failed'' (\<lambda>now nonce. write_prepare (te_libs E) now nonce (tx_id tx)) s = (Inr p, s1)"
    "write_commit_record E tx s1 = (Inr l, s2)" "apply_all_changes E tx s2 = (Inr (), s3)"
    "finish_commit E tx l s3 = (Inr info, s')"
    by (rule txn_commit_steps [OF assms(4)])
  obtain now non where p: "length non = 12" "write_prepare (te_libs E) now non (tx_id tx) (db_wal s) = Inr (p, db_wal s1)"
    using wal_call_keeps(4) [OF steps(1) refl] nonce by auto
  from commit_record_flushed [OF run_step [OF assms(1) step_prepare [OF p]] nonce assms(3) steps(2)] show ?thesis
    using only_tablesD(1) [OF only_tables_apply_all steps(3)] finish_commit_wal [OF steps(4)] by simp
qed

text \<open>
  C5. A committed transaction does not survive: on a fresh log, a transaction begins, puts any keys
  and commits with success; when the log is then flushed and read by recovery, the transaction is not
  among the active ones and none of its writes is there. Every commit writes a PREPARE record, and
  recovery takes it for a BEGIN.
\<close>

theorem committed_transaction_lost:
  assumes "libs_ok (te_libs E)" and "\<And>i. length (te_nonce E i) = 12"
    and "writer_run (te_libs E) path cfg [] (db_wal s)" and "txn_new E t l il dur s = (tx, s1)"
    and "\<forall>(tb, k, v)\<in>set ws. length k < 2 ^ 32 \<and> length v < 2 ^ 32" and "txn_puts E ws tx s1 = (Inr tx', s2)"
    and "txn_commit E tx' s2 = (Inr info, s3)" and "ww_buffer (db_wal s3) = []"
  shows "\<exists>res. recover_with_key (te_libs E) (fst (ww_file (db_wal s3))) path (wc_encryption_key cfg) = Inr res \<and>
    res_committed_writes res = [] \<and> res_active_transactions res = {}"
proof -
  let ?ws = "map (write_record t) (map put_record ws)"
  have t: "tx_id tx = t"
    using assms(4) by (auto simp: txn_new_def txn_build_def)
  have puts: "writer_run (te_libs E) path cfg (ds @ ?ws) (db_wal s2) \<and> tx_id tx' = t"
    if "writer_run (te_libs E) path cfg ds (db_wal s1)" for ds
    using txn_puts_run [OF that assms(2,5,6)] t by simp
  have "\<not> db_wal s1 = db_wal s"
  proof
    assume "db_wal s1 = db_wal s"
    then have run: "writer_run (te_libs E) path cfg ?ws (db_wal s2)" "tx_id tx' = t"
      using puts [of "[]"] assms(3) by auto
    then have "ww_active (db_wal s2) = {}"
      using run_active [OF run(1)] writes_track [of t "map put_record ws"] by simp
    then show False
      using txn_commit_run(2) [OF run(1) assms(2,7)] by simp
  qed
  then have "writer_run (te_libs E) path cfg [Begin t] (db_wal s1)"
    using txn_new_run [OF assms(3,2,4)] by simp
  then have run: "writer_run (te_libs E) path cfg ([Begin t] @ ?ws) (db_wal s2)" "tx_id tx' = t"
    using puts by blast+
  have "writer_run (te_libs E) path cfg ([Begin t] @ ?ws @ [Prepare t, Commit t]) (db_wal s3)"
    using txn_commit_run(1) [OF run(1) assms(2,7)] run(2) by simp
  then show ?thesis
    by (rule prepare_loses_writes [OF assms(1,8)])
qed

theorem committed_transaction_lost_witness:
  "\<exists>w s1 s2 tx' info s3 res. txn_new sample_txn_env 7 0 Serializable FlushOnCommit (sample_db w) = (sample_new, s1) \<and>
    txn_puts sample_txn_env [(1, [5], [6])] sample_new s1 = (Inr tx', s2) \<and>
    txn_commit sample_txn_env tx' s2 = (Inr info, s3) \<and>
    recover_with_key plain_libs (fst (ww_file (db_wal s3))) ''wal'' None = Inr res \<and> res_committed_writes res = []"
proof -
  let ?cfg = wal_writer_config_default and ?tx = "record_write 1 [5] [6] sample_new" and ?run = "writer_run (te_libs sample_txn_env) ''wal''"
  note max = sample_configs_ok(6)
  obtain w where w: "writer_run plain_libs ''wal'' ?cfg [] w" "ww_current_offset w = 0"
    using log_realizable [OF plain_libs_ok sample_log_ok(5,6) legal_Nil, of "''wal''"] by auto
  have L: "te_libs sample_txn_env = plain_libs"
    by (simp add: sample_txn_env_def)
  have run: "?run ?cfg [] (db_wal (sample_db w))"
    using w(1) by (simp add: sample_db_wal L)
  then have "7 \<notin> ww_active (db_wal (sample_db w))"
    using run_active by fastforce
  then obtain s1 where s1: "txn_new sample_txn_env 7 0 Serializable FlushOnCommit (sample_db w) = (sample_new, s1)"
    "?run ?cfg [Begin 7] (db_wal s1)" "db_engines s1 = db_engines (sample_db w)" "db_detector s1 = conflict_detector_new"
    "ww_current_offset (db_wal s1) = 71"
    using begin_succeeds [OF sample_txn_env_ok(1) sample_log_ok(5) run sample_txn_env_ok(3), of 7 0 Serializable FlushOnCommit] w(2)
    by (auto simp: sample_db_wal sample_db_detector record_cost_def max)
  have act: "ww_active (db_wal s1) = {7}"
    using run_active [OF s1(2)] by simp
  have new: "tx_id sample_new = 7" "is_active sample_new" "tx_durability sample_new = FlushOnCommit"
    by (simp_all add: txn_build_def is_active_def)
  have put: "\<exists>s'. txn_put sample_txn_env 1 [5] [6] sample_new s1 = (Inr ?tx, s') \<and> db_engines s' = db_engines s1 \<and>
      ww_current_offset (db_wal s') = ww_current_offset (db_wal s1) + record_cost (Write 7 1 Op_Put [5] [6])"
    using put_succeeds [OF sample_txn_env_ok(1) sample_log_ok(5) s1(2) sample_txn_env_ok(3), of sample_new 1 "[5]" "[6]"] new act s1(4,5)
    by (simp add: conflict_detector_new_def record_cost_def max)
  then obtain s2 where s2: "txn_put sample_txn_env 1 [5] [6] sample_new s1 = (Inr ?tx, s2)" "db_engines s2 = db_engines s1"
    "ww_current_offset (db_wal s2) \<le> 1000"
    using s1(5) by (auto simp: record_cost_def)
  have run2: "?run ?cfg [Begin 7, write_record 7 (put_record (1, [5], [6]))] (db_wal s2)"
    using txn_put_run(1) [OF s1(2) sample_txn_env_ok(3) _ _ s2(1)] new(1) by simp
  have commits: "\<exists>info s3. txn_commit sample_txn_env ?tx s2 = (Inr info, s3)"
  proof (rule commit_runs [OF sample_txn_env_ok sample_log_ok(5) run2])
    show "tx_id ?tx \<in> ww_active (db_wal s2)"
      using run_active [OF run2] by (simp add: record_write_def new write_record_def)
    show "writes_fit s2 (tx_write_set ?tx)"
      by (simp add: writes_fit_def s2(2) s1(3) sample_db_def record_write_def txn_build_def)
  qed (use s2(3) in \<open>simp_all add: record_write_def txn_build_def key_value_txn_def no_conflicts_def is_active_def record_cost_def max bt_wf_def\<close>)
  then obtain info s3 where s3: "txn_commit sample_txn_env ?tx s2 = (Inr info, s3)"
    by blast
  have puts: "txn_puts sample_txn_env [(1, [5], [6])] sample_new s1 = (Inr ?tx, s2)"
    using s2(1) by (simp add: pbind_def pret_def)
  have "tx_durability ?tx = FlushOnCommit"
    by (simp add: record_write_def new(3))
  then have "ww_buffer (db_wal s3) = []"
    using commit_flushed [OF run2 sample_txn_env_ok(3) _ s3] by simp
  from committed_transaction_lost [OF sample_txn_env_ok(1,3) run s1(1) _ puts s3 this] obtain res where
    "recover_with_key plain_libs (fst (ww_file (db_wal s3))) ''wal'' None = Inr res" "res_committed_writes res = []"
    by (auto simp: default_key L)
  then show ?thesis
    using s1(1) puts s3 by blast
qed

section \<open>Changes that stay hidden\<close>

text \<open>The edge a slot of the index shows.\<close>

definition slot_view :: "edge_json \<Rightarrow> edge_index \<Rightarrow> edge_slot \<Rightarrow> edge option" where
  "slot_view js m k = Option.bind (bt_get m k) (visible_edge js)"

lemma visible_uncommitted:
  "visible_edge js (VersionChain v t None p) = Option.bind p (visible_edge js)"
  by (cases p) (simp_all add: visible_edge_def)

lemma slot_push_view: "slot_view js (slot_push k v t m) = slot_view js m"
  by (auto simp: slot_view_def slot_push_def visible_uncommitted fun_eq_iff)

lemma slot_bury_view: "slot_view js (slot_bury k t m) = slot_view js m"
  by (auto simp: slot_view_def slot_bury_def visible_uncommitted fun_eq_iff split: option.split)

text \<open>
  Two states of a table that show the same: for a graph the edges in the slots of both indexes, for
  blobs what each key returns. The vertices and the statistics of a graph are left out, since adding an
  edge changes them before any commit.
\<close>

definition same_views :: "'x txn_env \<Rightarrow> 'x table_engine \<Rightarrow> 'x table_engine \<Rightarrow> bool" where
  "same_views E e e' \<longleftrightarrow>
     (\<forall>g. e = Eng_MemoryGraphTable g \<longrightarrow> (\<exists>g'. e' = Eng_MemoryGraphTable g' \<and>
        slot_view (te_json E) (mg_outgoing g') = slot_view (te_json E) (mg_outgoing g) \<and>
        slot_view (te_json E) (mg_incoming g') = slot_view (te_json E) (mg_incoming g))) \<and>
     (\<forall>b. e = Eng_MemoryBlob b \<longrightarrow> (\<exists>b'. e' = Eng_MemoryBlob b' \<and>
        (\<forall>k. blob_get (te_postcard E) b' k = blob_get (te_postcard E) b k)))"

lemma same_views_refl: "same_views E e e"
  by (simp add: same_views_def)

lemma same_views_trans: "same_views E e e' \<Longrightarrow> same_views E e' e'' \<Longrightarrow> same_views E e e''"
  by (auto simp: same_views_def)

lemma blob_delete_get:
  assumes "blob_delete pc k b = Inr (r, b')"
  shows "blob_get pc b' j = blob_get pc b j"
proof (cases "bt_get (ml_metadata b) k")
  case (Some c)
  then obtain bs where "ml_metadata b' = bt_insert k (prepend bs 0 c) (ml_metadata b)"
    using assms by (auto simp: blob_delete_def blob_delete_tx_def split: option.splits)
  then show ?thesis
    using Some by (cases "j = k") (simp_all add: blob_get_def prepend_def)
qed (use assms in \<open>simp add: blob_delete_def blob_delete_tx_def\<close>)

lemma write_same_views: "same_views E e (snd (engine_write E k v t l e))"
proof (cases e)
  case (Eng_MemoryBlob b)
  then show ?thesis
    using blob_get_uncommitted blob_delete_get
    by (fastforce simp: engine_write_def blob_write_one_def blob_put_def same_views_def split: option.splits sum.splits prod.splits)
qed (auto simp: engine_write_def same_views_def)

lemma commit_same_views: "same_views E e (snd (engine_commit E t snap l e))"
  by (cases e) (auto simp: engine_commit_def same_views_def)

lemma graph_call_same_views: "same_views E (Eng_MemoryGraphTable g) (snd (graph_call E op t l g))"
  by (cases op)
    (auto simp: graph_call_def graph_add_edge_def add_edge_with_weight_def graph_remove_edge_def same_views_def Let_def
      slot_push_view slot_bury_view split: option.split prod.split)

text \<open>Actions that leave every graph and blob table as it looks.\<close>

definition hiding :: "'x txn_env \<Rightarrow> ('x, 'a) txn_action \<Rightarrow> bool" where
  "hiding E a \<longleftrightarrow> (\<forall>s tb e. db_engines s tb = Some e \<longrightarrow>
     (\<exists>e'. db_engines (snd (a s)) tb = Some e' \<and> same_views E e e'))"

lemma hidingD: "hiding E a \<Longrightarrow> a s = (r, s') \<Longrightarrow> db_engines s tb = Some e \<Longrightarrow> \<exists>e'. db_engines s' tb = Some e' \<and> same_views E e e'"
  unfolding hiding_def by (metis snd_conv)

lemma hiding_pret: "hiding E (pret a)"
  using same_views_refl by (auto simp: hiding_def pret_def)

lemma hiding_pbind:
  fixes E :: "'a txn_env"
  assumes "hiding E a" and "\<And>x. hiding E (f x)"
  shows "hiding E (pbind a f)"
  unfolding hiding_def
proof (intro allI impI)
  fix s :: "'a db" and tb e
  assume e: "db_engines s tb = Some e"
  obtain r s1 where a: "a s = (r, s1)"
    by fastforce
  obtain e1 where e1: "db_engines s1 tb = Some e1" "same_views E e e1"
    using hidingD [OF assms(1) a e] by blast
  show "\<exists>e'. db_engines (snd (pbind a f s)) tb = Some e' \<and> same_views E e e'"
  proof (cases r)
    case (Inl x)
    then show ?thesis
      using a e1 by (simp add: pbind_def)
  next
    case (Inr x)
    obtain e2 where "db_engines (snd (f x s1)) tb = Some e2" "same_views E e1 e2"
      using assms(2) e1(1) unfolding hiding_def by blast
    then show ?thesis
      using a Inr e1(2) same_views_trans by (auto simp: pbind_def)
  qed
qed

lemma hiding_pmapM: "(\<And>x. hiding E (f x)) \<Longrightarrow> hiding E (pmapM f xs)"
  by (induction xs) (auto intro: hiding_pret hiding_pbind)

lemma hiding_on_table:
  assumes "\<And>e. same_views E e (snd (f e))"
  shows "hiding E (on_table tb f)"
  using assms same_views_refl unfolding hiding_def on_table_def
  by (auto split: option.split prod.split) (metis snd_conv)+

lemma hiding_apply: "hiding E (apply_all_changes E tx)"
  unfolding apply_all_changes_def
  by (rule hiding_pmapM) (auto simp: write_same_views split: prod.split intro!: hiding_on_table)

lemma hiding_commit: "hiding E (commit_tables E tx l)"
  unfolding commit_tables_def by (rule hiding_pmapM) (simp add: hiding_on_table commit_same_views)

lemma hiding_special: "hiding E (apply_special E tx l)"
proof -
  have other: "same_views E e (snd (lift_x C x))" if "\<And>g. e \<noteq> Eng_MemoryGraphTable g" "\<And>b. e \<noteq> Eng_MemoryBlob b" for e C x
    using that by (simp add: same_views_def)
  show ?thesis
    unfolding apply_special_def apply_bloom_def apply_graph_def apply_timeseries_def apply_vector_def apply_geospatial_def
      apply_fulltext_def
    by (intro hiding_pbind hiding_pmapM)
      (auto simp: same_views_refl other graph_call_same_views split: prod.split table_engine.split time_series_op.split
        intro!: hiding_on_table)
qed

text \<open>
  C21. No committed transaction changes which edges the slots of a graph table in memory show or what
  a blob table in memory returns for a key: edges a transaction adds or removes and blobs it puts or
  deletes are left as uncommitted versions, which no later commit of a transaction picks up. The
  vertices of an edge that is added do appear at once, in the set of vertices and in the statistics
  that count it; they are not part of what is compared.
\<close>

theorem commit_hides_special:
  assumes "txn_commit E tx s = (Inr info, s')" and "db_engines s tb = Some e"
  shows "\<exists>e'. db_engines s' tb = Some e' \<and> same_views E e e'"
proof -
  obtain p s1 s2 s3 l where steps: "wal_call E ''WAL prepare failed'' (\<lambda>now nonce. write_prepare (te_libs E) now nonce (tx_id tx)) s = (Inr p, s1)"
    "write_commit_record E tx s1 = (Inr l, s2)" "apply_all_changes E tx s2 = (Inr (), s3)"
    "finish_commit E tx l s3 = (Inr info, s')"
    by (rule txn_commit_steps [OF assms(1)])
  obtain s4 s5 where fin: "apply_special E tx l s3 = (Inr (), s4)" "commit_tables E tx l s4 = (Inr (), s5)"
    "s' = s5\<lparr>db_current_lsn := l, db_detector := release_locks (tx_id tx) (db_detector s5)\<rparr>"
    by (rule finish_commit_steps [OF steps(4)])
  have "db_engines s2 tb = Some e"
    using wal_call_keeps(1) [OF steps(1)] write_commit_record_keeps(1) [OF steps(2)] assms(2) by simp
  then obtain e3 where e3: "db_engines s3 tb = Some e3" "same_views E e e3"
    using hidingD [OF hiding_apply steps(3)] by blast
  then obtain e4 where e4: "db_engines s4 tb = Some e4" "same_views E e3 e4"
    using hidingD [OF hiding_special fin(1)] by blast
  then obtain e5 where "db_engines s5 tb = Some e5" "same_views E e4 e5"
    using hidingD [OF hiding_commit fin(2)] by blast
  then show ?thesis
    using same_views_trans [OF same_views_trans [OF e3(2) e4(2)]] by (simp add: fin(3))
qed

text \<open>Transaction 7 adds an edge and commits; the vertex shows no edge.\<close>

theorem commit_hides_special_witness:
  "\<exists>w info s' g. txn_commit sample_txn_env (record_graph_operation 3 (AddEdge [1] [2] [4] [9]) sample_new) (sample_db w) =
      (Inr info, s') \<and>
    db_engines s' 3 = Some (Eng_MemoryGraphTable g) \<and>
    slot_view sample_json (mg_outgoing g) = slot_view sample_json (mg_outgoing (graph_new 3 ''g'' graph_config_default))"
proof -
  let ?tx = "record_graph_operation 3 (AddEdge [1] [2] [4] [9]) sample_new"
  note tx = record_graph_operation_def txn_build_def
  obtain w where w: "writer_run plain_libs ''wal'' wal_writer_config_default [Begin 7] w" "ww_current_offset w = 71"
    "ww_active w = {7}"
    by (rule sample_wal)
  have undo: "collect_undo sample_txn_env ?tx (sample_db w) = Inr [RemoveGraphEdge 3 [1] [2] [4] [9]]"
    by (simp add: collect_undo_def tx sample_txn_env_def undo_graph_def)
  have "\<exists>info s'. txn_commit sample_txn_env ?tx (sample_db w) = (Inr info, s')"
  proof (rule commit_goes_through [OF sample_txn_env_ok sample_log_ok(5) _ _ _ _ _ undo])
    show "writer_run (te_libs sample_txn_env) ''wal'' wal_writer_config_default [Begin 7] (db_wal (sample_db w))"
      using w(1) by (simp add: sample_txn_env_def sample_db_wal)
    fix s2 :: "unit db" and l
    assume "db_engines s2 = db_engines (sample_db w)"
    then show "\<exists>s3 info s'. apply_all_changes sample_txn_env ?tx s2 = (Inr (), s3) \<and> finish_commit sample_txn_env ?tx l s3 = (Inr info, s')"
      by (simp add: apply_all_changes_def finish_commit_def apply_special_def commit_tables_def modified_tables_def tx
          sample_txn_env_def pret_def pbind_def release_all_def apply_graph_def on_table_def sample_db_def graph_call_def
          engine_commit_def graph_add_edge_def add_edge_with_weight_def map_err_def sample_json_def Let_def
          split: prod.split sum.split)
  qed (use w in \<open>simp_all add: tx sample_db_wal no_conflicts_def is_active_def record_cost_def sample_configs_ok(6)\<close>)
  then obtain info s' where c: "txn_commit sample_txn_env ?tx (sample_db w) = (Inr info, s')"
    by blast
  have "db_engines (sample_db w) 3 = Some (Eng_MemoryGraphTable (graph_new 3 ''g'' graph_config_default))"
    by (simp add: sample_db_def)
  from commit_hides_special [OF c this] show ?thesis
    using c by (auto simp: same_views_def sample_txn_env_def)
qed

end
