(* ===== verification/BTreeNode.thy ===== *)
theory BTreeNode
  imports TableTypes PageFormat
begin

text \<open>
  The nodes of the B-tree on pages (\<open>src/src/table/btree/paged.rs\<close>): internal nodes with separators and
  child pages, leaves with a version chain under each key and a link to the next leaf, and their
  encoding as the data of a page.
\<close>

section \<open>Nodes\<close>

record internal_entry =
  ie_key :: bytes
  ie_child :: page_id

record leaf_entry =
  le_key :: bytes
  le_chain :: version_chain

type_synonym page_version = u64

datatype btree_node =
    Internal page_version "internal_entry list" page_id
  | Leaf page_version "leaf_entry list" page_id

definition new_internal :: btree_node where
  "new_internal = Internal 0 [] 0"

definition new_leaf :: btree_node where
  "new_leaf = Leaf 0 [] 0"

fun node_page_type :: "btree_node \<Rightarrow> page_type" where
  "node_page_type (Internal v es r) = PT_BTreeInternal"
| "node_page_type (Leaf v es nx) = PT_BTreeLeaf"

fun key_count :: "btree_node \<Rightarrow> nat" where
  "key_count (Internal v es r) = length es"
| "key_count (Leaf v es nx) = length es"

definition is_full :: "nat \<Rightarrow> btree_node \<Rightarrow> bool" where
  "is_full max_order n \<longleftrightarrow> key_count n \<ge> max_order"

definition has_minimum_keys :: "nat \<Rightarrow> btree_node \<Rightarrow> bool" where
  "has_minimum_keys min_keys n \<longleftrightarrow> key_count n \<ge> min_keys"

fun get_version :: "btree_node \<Rightarrow> page_version" where
  "get_version (Internal v es r) = v"
| "get_version (Leaf v es nx) = v"

fun with_incremented_version :: "btree_node \<Rightarrow> btree_node" where
  "with_incremented_version (Internal v es r) = Internal (v + 1) es r"
| "with_incremented_version (Leaf v es nx) = Leaf (v + 1) es nx"

section \<open>Encoding\<close>

text \<open>The postcard encoding of version chains.\<close>

record chain_codec =
  cc_to_allocvec :: "version_chain \<Rightarrow> bytes"
  cc_from_bytes :: "bytes \<Rightarrow> version_chain option"

definition chain_codec_ok :: "chain_codec \<Rightarrow> bool" where
  "chain_codec_ok cc \<longleftrightarrow> (\<forall>c. cc_from_bytes cc (cc_to_allocvec cc c) = Some c)"

definition internal_entry_bytes :: "internal_entry \<Rightarrow> bytes" where
  "internal_entry_bytes e = len_prefixed (ie_key e) @ u64_le (ie_child e)"

definition leaf_entry_bytes :: "chain_codec \<Rightarrow> leaf_entry \<Rightarrow> bytes" where
  "leaf_entry_bytes cc e = len_prefixed (le_key e) @ len_prefixed (cc_to_allocvec cc (le_chain e))"

fun node_to_bytes :: "chain_codec \<Rightarrow> btree_node \<Rightarrow> bytes" where
  "node_to_bytes cc (Internal v es r) =
     0 # u64_le v @ u32_le (of_nat (length es)) @ u64_le r @ concat (map internal_entry_bytes es)"
| "node_to_bytes cc (Leaf v es nx) =
     1 # u64_le v @ u32_le (of_nat (length es)) @ u64_le nx @ concat (map (leaf_entry_bytes cc) es)"

abbreviation truncated :: table_error where
  "truncated \<equiv> TableCorruption ''truncated_data''"

fun read_internal_entries :: "nat \<Rightarrow> bytes \<Rightarrow> nat \<Rightarrow> table_error + internal_entry list" where
  "read_internal_entries 0 d offset = Inr []"
| "read_internal_entries (Suc n) d offset =
     rbind (read_prefixed_or truncated truncated d offset) (\<lambda>(k, offset).
     if length d < offset + 8 then Inl truncated
     else let c = u64_of_le (bslice offset (offset + 8) d) in
     rbind (read_internal_entries n d (offset + 8)) (\<lambda>es. Inr (\<lparr>ie_key = k, ie_child = c\<rparr> # es)))"

fun read_leaf_entries :: "chain_codec \<Rightarrow> nat \<Rightarrow> bytes \<Rightarrow> nat \<Rightarrow> table_error + leaf_entry list" where
  "read_leaf_entries cc 0 d offset = Inr []"
| "read_leaf_entries cc (Suc n) d offset =
     rbind (read_prefixed_or truncated truncated d offset) (\<lambda>(k, offset).
     rbind (read_prefixed_or truncated truncated d offset) (\<lambda>(bs, offset).
     rbind (ok_or (cc_from_bytes cc bs) (TableCorruption ''deserialization_error'')) (\<lambda>c.
     rbind (read_leaf_entries cc n d offset) (\<lambda>es. Inr (\<lparr>le_key = k, le_chain = c\<rparr> # es)))))"

text \<open>The version, the number of entries and the page behind them, at offsets 1, 9 and 13.\<close>

definition read_node_head :: "bytes \<Rightarrow> table_error + (page_version \<times> nat \<times> page_id)" where
  "read_node_head d =
     (if length d < 9 then Inl truncated
      else if length d < 13 then Inl truncated
      else if length d < 21 then Inl truncated
      else Inr (u64_of_le (bslice 1 9 d), unat (u32_of_le (bslice 9 13 d)), u64_of_le (bslice 13 21 d)))"

definition node_from_bytes :: "chain_codec \<Rightarrow> bytes \<Rightarrow> table_error + btree_node" where
  "node_from_bytes cc d =
     (if d = [] then Inl (TableCorruption ''empty_data'')
      else if d ! 0 = 0 then
        rbind (read_node_head d) (\<lambda>(v, n, r).
        rbind (read_internal_entries n d 21) (\<lambda>es. Inr (Internal v es r)))
      else if d ! 0 = 1 then
        rbind (read_node_head d) (\<lambda>(v, n, nx).
        rbind (read_leaf_entries cc n d 21) (\<lambda>es. Inr (Leaf v es nx)))
      else Inl (TableCorruption ''invalid_node_type''))"

section \<open>Round trip\<close>

text \<open>What the four-byte lengths of the encoding can say.\<close>

fun node_encodable :: "chain_codec \<Rightarrow> btree_node \<Rightarrow> bool" where
  "node_encodable cc (Internal v es r) \<longleftrightarrow> length es < 2 ^ 32 \<and> (\<forall>e\<in>set es. length (ie_key e) < 2 ^ 32)"
| "node_encodable cc (Leaf v es nx) \<longleftrightarrow> length es < 2 ^ 32 \<and>
     (\<forall>e\<in>set es. length (le_key e) < 2 ^ 32 \<and> length (cc_to_allocvec cc (le_chain e)) < 2 ^ 32)"

lemma read_internal_entries_at:
  assumes "\<forall>e\<in>set es. length (ie_key e) < 2 ^ 32" and "offset = length pre"
  shows "read_internal_entries (length es) (pre @ concat (map internal_entry_bytes es)) offset = Inr es"
  using assms
proof (induction es arbitrary: pre offset)
  case (Cons e es)
  define rest where "rest = concat (map internal_entry_bytes es)"
  have k: "read_prefixed_or truncated truncated (pre @ len_prefixed (ie_key e) @ u64_le (ie_child e) @ rest) offset =
      Inr (ie_key e, offset + 4 + length (ie_key e))"
    using Cons.prems by (intro read_prefixed_or_at) simp_all
  have c: "u64_of_le (bslice (offset + 4 + length (ie_key e)) (offset + 4 + length (ie_key e) + 8)
      (pre @ len_prefixed (ie_key e) @ u64_le (ie_child e) @ rest)) = ie_child e"
    using Cons.prems(2) by (simp add: bslice_def len_prefixed_def)
  have "read_internal_entries (length es) ((pre @ internal_entry_bytes e) @ rest) (offset + 4 + length (ie_key e) + 8) = Inr es"
    using Cons.prems unfolding rest_def by (intro Cons.IH) (simp_all add: internal_entry_bytes_def length_len_prefixed)
  moreover have "concat (map internal_entry_bytes (e # es)) = len_prefixed (ie_key e) @ u64_le (ie_child e) @ rest"
    by (simp add: internal_entry_bytes_def [of e] rest_def)
  ultimately show ?case
    using k c Cons.prems(2) by (simp add: internal_entry_bytes_def [of e] add.assoc length_len_prefixed del: concat.simps list.map)
qed simp

lemma read_leaf_entries_at:
  assumes "chain_codec_ok cc"
    and "\<forall>e\<in>set es. length (le_key e) < 2 ^ 32 \<and> length (cc_to_allocvec cc (le_chain e)) < 2 ^ 32"
    and "offset = length pre"
  shows "read_leaf_entries cc (length es) (pre @ concat (map (leaf_entry_bytes cc) es)) offset = Inr es"
  using assms(2,3)
proof (induction es arbitrary: pre offset)
  case (Cons e es)
  define rest where "rest = concat (map (leaf_entry_bytes cc) es)"
  let ?bs = "cc_to_allocvec cc (le_chain e)"
  have k: "read_prefixed_or truncated truncated (pre @ len_prefixed (le_key e) @ len_prefixed ?bs @ rest) offset =
      Inr (le_key e, offset + 4 + length (le_key e))"
    using Cons.prems by (intro read_prefixed_or_at) simp_all
  have c: "read_prefixed_or truncated truncated ((pre @ len_prefixed (le_key e)) @ len_prefixed ?bs @ rest)
      (offset + 4 + length (le_key e)) = Inr (?bs, offset + 4 + length (le_key e) + 4 + length ?bs)"
    using Cons.prems by (intro read_prefixed_or_at) (simp_all add: length_len_prefixed)
  have "read_leaf_entries cc (length es) ((pre @ leaf_entry_bytes cc e) @ rest)
      (offset + 4 + length (le_key e) + 4 + length ?bs) = Inr es"
    using Cons.prems unfolding rest_def by (intro Cons.IH) (simp_all add: leaf_entry_bytes_def length_len_prefixed)
  moreover have "concat (map (leaf_entry_bytes cc) (e # es)) = len_prefixed (le_key e) @ len_prefixed ?bs @ rest"
    by (simp add: leaf_entry_bytes_def [of cc e] rest_def)
  ultimately show ?case
    using k c Cons.prems(2) assms(1) by (simp add: leaf_entry_bytes_def [of cc e] chain_codec_ok_def add.assoc length_len_prefixed del: concat.simps list.map)
qed simp

lemma node_from_to_bytes:
  assumes "chain_codec_ok cc" and "node_encodable cc n"
  shows "node_from_bytes cc (node_to_bytes cc n) = Inr n"
proof (cases n)
  case (Internal v es r)
  let ?pre = "0 # u64_le v @ u32_le (of_nat (length es)) @ u64_le r"
  have "read_internal_entries (length es) (?pre @ concat (map internal_entry_bytes es)) 21 = Inr es"
    using assms(2) Internal by (intro read_internal_entries_at) simp_all
  then show ?thesis
    using Internal assms(2) by (simp add: node_from_bytes_def read_node_head_def codec_simps)
next
  case (Leaf v es nx)
  let ?pre = "1 # u64_le v @ u32_le (of_nat (length es)) @ u64_le nx"
  have "read_leaf_entries cc (length es) (?pre @ concat (map (leaf_entry_bytes cc) es)) 21 = Inr es"
    using assms Leaf by (intro read_leaf_entries_at) simp_all
  then show ?thesis
    using Leaf assms(2) by (simp add: node_from_bytes_def read_node_head_def codec_simps)
qed

end
