(* ===== verification/PagedBTree.thy ===== *)
theory PagedBTree
  imports BTreeNode OverflowChain
begin

text \<open>
  The B-tree on pages (\<open>src/src/table/btree/paged.rs\<close>): searching, reading, inserting with splits up to
  the root, deleting, committing versions along the chain of leaves, and the writer on top. An
  operation is an action on the tree and the pager below it. Loops that follow page links carry fuel.
\<close>

section \<open>State\<close>

record btree_env =
  be_pager :: pager_env
  be_chain :: chain_codec

record paged_btree =
  pb_id :: u64
  pb_name :: string
  pb_pager :: pager
  pb_root :: page_id
  pb_row_count :: u64
  pb_max_order :: nat
  pb_min_keys :: nat
  pb_max_node_size :: nat

type_synonym 'a tree_action = "(paged_btree, table_error, 'a) st_action"
type_synonym 'a tree_walk = "(paged_btree, table_error, 'a) fuel_action"

text \<open>A call of the pager; its errors become errors of the table.\<close>

definition on_pager :: "'a action \<Rightarrow> 'a tree_action" where
  "on_pager m s =
     (let (r, p) = m (pb_pager s) in
      (case r of Inl e \<Rightarrow> Inl (TablePager e) | Inr a \<Rightarrow> Inr a, s\<lparr>pb_pager := p\<rparr>))"

definition calculate_max_order :: "nat \<Rightarrow> nat" where
  "calculate_max_order data_size = max (data_size * 3 div 5 div 30) 4"

definition data_size_of :: "pager \<Rightarrow> nat" where
  "data_size_of p = page_data_size (pc_page_size (pgr_config p))"

definition node_page :: "chain_codec \<Rightarrow> page_id \<Rightarrow> btree_node \<Rightarrow> page" where
  "node_page cc i n = (page_new i (node_page_type n))\<lparr>pg_data := node_to_bytes cc n\<rparr>"

text \<open>\<open>new\<close> writes an empty leaf as the root and enters it in the superblock.\<close>

definition paged_new :: "btree_env \<Rightarrow> u64 \<Rightarrow> string \<Rightarrow> pager \<Rightarrow> (pager_error + paged_btree) \<times> pager" where
  "paged_new E i nm p =
     (let d = data_size_of p; order = calculate_max_order d in
      case pbind (allocate_page (be_pager E) PT_BTreeLeaf) (\<lambda>root.
           pbind (write_page (be_pager E) (node_page (be_chain E) root new_leaf)) (\<lambda>_.
           pbind (set_root_btree_page (be_pager E) root) (\<lambda>_.
           pbind (set_btree_row_count (be_pager E) 0) (\<lambda>_. pret root)))) p of
        (Inl e, p) \<Rightarrow> (Inl e, p)
      | (Inr root, p) \<Rightarrow>
          (Inr \<lparr>pb_id = i, pb_name = nm, pb_pager = p, pb_root = root, pb_row_count = 0, pb_max_order = order,
             pb_min_keys = order div 2, pb_max_node_size = d * 3 div 5\<rparr>, p))"

definition paged_open :: "u64 \<Rightarrow> string \<Rightarrow> pager \<Rightarrow> page_id \<Rightarrow> paged_btree" where
  "paged_open i nm p root =
     (let d = data_size_of p; order = calculate_max_order d in
      \<lparr>pb_id = i, pb_name = nm, pb_pager = p, pb_root = root, pb_row_count = sb_btree_row_count (pgr_superblock p),
       pb_max_order = order, pb_min_keys = order div 2, pb_max_node_size = d * 3 div 5\<rparr>)"

definition node_fits_in_page :: "btree_env \<Rightarrow> paged_btree \<Rightarrow> btree_node \<Rightarrow> bool" where
  "node_fits_in_page E s n \<longleftrightarrow> length (node_to_bytes (be_chain E) n) \<le> pb_max_node_size s"

definition is_node_safe :: "btree_env \<Rightarrow> paged_btree \<Rightarrow> btree_node \<Rightarrow> bool \<Rightarrow> bool" where
  "is_node_safe E s n is_insert \<longleftrightarrow>
     (if is_insert then \<not> is_full (pb_max_order s) n \<and> node_fits_in_page E s n
      else key_count n > pb_min_keys s)"

definition set_root_page_id :: "btree_env \<Rightarrow> page_id \<Rightarrow> unit tree_action" where
  "set_root_page_id E root =
     pbind (on_pager (set_root_btree_page (be_pager E) root)) (\<lambda>_ s. (Inr (), s\<lparr>pb_root := root\<rparr>))"

definition set_row_count :: "btree_env \<Rightarrow> u64 \<Rightarrow> unit tree_action" where
  "set_row_count E n s = on_pager (set_btree_row_count (be_pager E) n) (s\<lparr>pb_row_count := n\<rparr>)"

definition increment_row_count :: "btree_env \<Rightarrow> unit tree_action" where
  "increment_row_count E s = set_row_count E (pb_row_count s + 1) s"

definition decrement_row_count :: "btree_env \<Rightarrow> unit tree_action" where
  "decrement_row_count E s = set_row_count E (if pb_row_count s > 0 then pb_row_count s - 1 else pb_row_count s) s"

definition read_node :: "btree_env \<Rightarrow> page_id \<Rightarrow> btree_node tree_action" where
  "read_node E i =
     pbind (on_pager (read_page (be_pager E) i)) (\<lambda>p. plift (node_from_bytes (be_chain E) (pg_data p)))"

definition write_node :: "btree_env \<Rightarrow> page_id \<Rightarrow> btree_node \<Rightarrow> unit tree_action" where
  "write_node E i n = on_pager (write_page (be_pager E) (node_page (be_chain E) i n))"

section \<open>Searching\<close>

text \<open>
  Binary search in a sorted slice: the position of the key on the right, or on the left the position it
  would have.
\<close>

definition bsearch :: "('a \<Rightarrow> bytes) \<Rightarrow> bytes \<Rightarrow> 'a list \<Rightarrow> nat + nat" where
  "bsearch key k es =
     (let i = length (takeWhile (\<lambda>e. key e < k) es) in
      if i < length es \<and> key (es ! i) = k then Inr i else Inl i)"

definition either_pos :: "nat + nat \<Rightarrow> nat" where
  "either_pos p = (case p of Inl i \<Rightarrow> i | Inr i \<Rightarrow> i)"

definition next_child :: "internal_entry list \<Rightarrow> page_id \<Rightarrow> bytes \<Rightarrow> page_id \<times> nat" where
  "next_child es r k =
     (case bsearch ie_key k es of
        Inr i \<Rightarrow> if i + 1 < length es then (ie_child (es ! (i + 1)), i + 1) else (r, length es)
      | Inl i \<Rightarrow> if i < length es then (ie_child (es ! i), i) else (r, length es))"

fun search_path_loop ::
    "nat \<Rightarrow> btree_env \<Rightarrow> bytes \<Rightarrow> page_id \<Rightarrow> (page_id \<times> page_id) list \<Rightarrow>
     (page_id \<times> nat \<times> (page_id \<times> page_id) list) tree_walk" where
  "search_path_loop 0 E k i path s = None"
| "search_path_loop (Suc fuel) E k i path s =
     fbind (flift (read_node E i)) (\<lambda>n.
       case n of
         Internal v es r \<Rightarrow>
           (let c = fst (next_child es r k) in search_path_loop fuel E k c (path @ [(i, c)]))
       | Leaf v es nx \<Rightarrow> flift (pret (i, either_pos (bsearch le_key k es), path))) s"

definition search_with_path ::
    "nat \<Rightarrow> btree_env \<Rightarrow> bytes \<Rightarrow> (page_id \<times> nat \<times> (page_id \<times> page_id) list) tree_walk" where
  "search_with_path fuel E k s = search_path_loop fuel E k (pb_root s) [] s"

definition paged_search :: "nat \<Rightarrow> btree_env \<Rightarrow> bytes \<Rightarrow> (page_id \<times> nat) tree_walk" where
  "paged_search fuel E k =
     fbind (search_with_path fuel E k) (\<lambda>(i, pos, path). flift (pret (i, pos)))"

record path_entry =
  pe_page_id :: page_id
  pe_version :: page_version
  pe_child_index :: nat

fun search_optimistic_loop ::
    "nat \<Rightarrow> btree_env \<Rightarrow> bytes \<Rightarrow> page_id \<Rightarrow> path_entry list \<Rightarrow> (page_id \<times> nat \<times> path_entry list) tree_walk" where
  "search_optimistic_loop 0 E k i path s = None"
| "search_optimistic_loop (Suc fuel) E k i path s =
     fbind (flift (read_node E i)) (\<lambda>n.
       case n of
         Internal v es r \<Rightarrow>
           (let (c, ci) = next_child es r k in
            search_optimistic_loop fuel E k c
              (path @ [\<lparr>pe_page_id = i, pe_version = get_version n, pe_child_index = ci\<rparr>]))
       | Leaf v es nx \<Rightarrow>
           (let pos = either_pos (bsearch le_key k es) in
            flift (pret (i, pos,
              path @ [\<lparr>pe_page_id = i, pe_version = get_version n, pe_child_index = pos\<rparr>])))) s"

definition search_optimistic :: "nat \<Rightarrow> btree_env \<Rightarrow> bytes \<Rightarrow> (page_id \<times> nat \<times> path_entry list) tree_walk" where
  "search_optimistic fuel E k s = search_optimistic_loop fuel E k (pb_root s) [] s"

text \<open>The nodes above the leaf, from its parent to the root, against the versions seen on the way down.\<close>

fun validate_entries :: "btree_env \<Rightarrow> path_entry list \<Rightarrow> bool tree_action" where
  "validate_entries E [] = pret True"
| "validate_entries E (e # es) =
     pbind (read_node E (pe_page_id e)) (\<lambda>n.
     if get_version n \<noteq> pe_version e then pret False else validate_entries E es)"

definition validate_optimistic_path :: "btree_env \<Rightarrow> path_entry list \<Rightarrow> bool tree_action" where
  "validate_optimistic_path E path = validate_entries E (tl (rev path))"

section \<open>Reading\<close>

text \<open>
  A stored value that starts with byte 1 or 2 and decodes as a reference is taken for one, whoever
  wrote it.
\<close>

definition resolve_value :: "nat \<Rightarrow> btree_env \<Rightarrow> bytes \<Rightarrow> bytes option tree_walk" where
  "resolve_value fuel E d =
     (if hd d = 1 \<or> hd d = 2 then
        case ref_decode d of
          Inl e \<Rightarrow> flift (pret (Some d))
        | Inr RefInline \<Rightarrow> flift (pret (Some d))
        | Inr (SinglePage i offset len) \<Rightarrow>
            flift (pbind (on_pager (read_page (be_pager E) (ucast i))) (\<lambda>p.
              if unat offset + unat len \<le> length (pg_data p)
              then pret (Some (bslice (unat offset) (unat offset + unat len) (pg_data p)))
              else perr TablePanic))
        | Inr (OverflowChain i len pages) \<Rightarrow>
            (\<lambda>s. case read_overflow_chain fuel (be_pager E) (ucast i) [] (pb_pager s) of
               None \<Rightarrow> None
             | Some (Inl e, p) \<Rightarrow> Some (Inl (TablePager e), s\<lparr>pb_pager := p\<rparr>)
             | Some (Inr bs, p) \<Rightarrow>
                 Some (if length bs \<noteq> unat len then Inl (TableCorruption ''overflow_chain_length_mismatch'') else Inr (Some bs),
                   s\<lparr>pb_pager := p\<rparr>))
      else flift (pret (Some d)))"

definition value_in_node :: "nat \<Rightarrow> btree_env \<Rightarrow> bytes \<Rightarrow> lsn \<Rightarrow> nat \<Rightarrow> btree_node \<Rightarrow> bytes option tree_walk" where
  "value_in_node fuel E k l pos n =
     (case n of
        Internal v es r \<Rightarrow> flift (pret None)
      | Leaf v es nx \<Rightarrow>
          if pos < length es \<and> le_key (es ! pos) = k
          then case find_visible_inline (at_lsn l) (le_chain (es ! pos)) of
              None \<Rightarrow> flift (pret None)
            | Some d \<Rightarrow> if d = [] then flift (pret None) else resolve_value fuel E d
          else flift (pret None))"

definition get_internal :: "nat \<Rightarrow> btree_env \<Rightarrow> bytes \<Rightarrow> lsn \<Rightarrow> bytes option tree_walk" where
  "get_internal fuel E k l =
     fbind (paged_search fuel E k) (\<lambda>(i, pos).
     fbind (flift (read_node E i)) (value_in_node fuel E k l pos))"

section \<open>Inserting\<close>

text \<open>The right sibling and the separator between the halves.\<close>

definition split_node :: "btree_env \<Rightarrow> page_id \<Rightarrow> btree_node \<Rightarrow> (page_id \<times> bytes) tree_action" where
  "split_node E i n =
     (let mid = key_count n div 2 in
      case n of
        Internal v es r \<Rightarrow>
          if mid < length es
          then pbind (on_pager (allocate_page (be_pager E) PT_BTreeInternal)) (\<lambda>j.
               pbind (write_node E i (Internal (v + 1) (take mid es) (ie_child (es ! mid)))) (\<lambda>_.
               pbind (write_node E j (Internal 0 (drop (mid + 1) es) r)) (\<lambda>_.
               pret (j, ie_key (es ! mid)))))
          else perr TablePanic
      | Leaf v es nx \<Rightarrow>
          if mid < length es
          then pbind (on_pager (allocate_page (be_pager E) PT_BTreeLeaf)) (\<lambda>j.
               pbind (write_node E i (Leaf (v + 1) (take mid es) j)) (\<lambda>_.
               pbind (write_node E j (Leaf 0 (drop mid es) nx)) (\<lambda>_.
               pret (j, le_key (es ! mid)))))
          else perr TablePanic)"

definition first_index :: "('a \<Rightarrow> bool) \<Rightarrow> 'a list \<Rightarrow> nat option" where
  "first_index P xs = (let i = length (takeWhile (\<lambda>x. \<not> P x) xs) in if i < length xs then Some i else None)"

text \<open>Where a child stands among the entries: as the child of an entry, or as the one behind an entry.\<close>

definition child_position :: "page_id \<Rightarrow> internal_entry list \<Rightarrow> page_id \<Rightarrow> nat option" where
  "child_position left es r =
     (case first_index (\<lambda>e. ie_child e = left) es of
        Some i \<Rightarrow> Some i
      | None \<Rightarrow> map_option Suc (first_index (\<lambda>c. c = left) (tl (map ie_child es @ [r]))))"

text \<open>The entries and the last child of a parent after its child \<open>left\<close> has got the sibling \<open>right\<close>.\<close>

definition place_child ::
    "page_id \<Rightarrow> bytes \<Rightarrow> page_id \<Rightarrow> internal_entry list \<Rightarrow> page_id \<Rightarrow> (internal_entry list \<times> page_id) option" where
  "place_child left key right es r =
     (let new = \<lparr>ie_key = key, ie_child = left\<rparr> in
      if r = left then Some (es @ [new], right)
      else case child_position left es r of
        None \<Rightarrow> None
      | Some pos \<Rightarrow>
          let es' = take pos es @ [new] @ drop pos es in
          if pos + 1 < length es' then Some (es'[pos + 1 := (es' ! (pos + 1))\<lparr>ie_child := right\<rparr>], r)
          else Some (es', right))"

definition needs_split :: "btree_env \<Rightarrow> paged_btree \<Rightarrow> btree_node \<Rightarrow> bool" where
  "needs_split E s n \<longleftrightarrow> is_full (pb_max_order s) n \<or> \<not> node_fits_in_page E s n"

definition new_root :: "btree_env \<Rightarrow> page_id \<Rightarrow> bytes \<Rightarrow> page_id \<Rightarrow> unit tree_action" where
  "new_root E left key right =
     pbind (on_pager (allocate_page (be_pager E) PT_BTreeInternal)) (\<lambda>root.
     pbind (write_node E root (Internal 0 [\<lparr>ie_key = key, ie_child = left\<rparr>] right)) (\<lambda>_.
     set_root_page_id E root))"

text \<open>The path to the node is kept with its innermost step first.\<close>

function (sequential) split_and_propagate :: "btree_env \<Rightarrow> page_id \<Rightarrow> btree_node \<Rightarrow> (page_id \<times> page_id) list \<Rightarrow> unit tree_action"
  and insert_into_parent :: "btree_env \<Rightarrow> page_id \<Rightarrow> bytes \<Rightarrow> page_id \<Rightarrow> (page_id \<times> page_id) list \<Rightarrow> unit tree_action" where
  "split_and_propagate E i n path =
     (\<lambda>s. let root = pb_root s in
      pbind (split_node E i n) (\<lambda>(right, key).
      if i = root then new_root E i key right else insert_into_parent E i key right path) s)"
| "insert_into_parent E left key right [] = perr (TableCorruption ''missing_parent'')"
| "insert_into_parent E left key right ((parent, child) # path) =
     pbind (read_node E parent) (\<lambda>n.
     case n of
       Leaf v es nx \<Rightarrow> pret ()
     | Internal v es r \<Rightarrow>
         (case place_child left key right es r of
            None \<Rightarrow> perr (TableCorruption ''missing_child'')
          | Some (es', r') \<Rightarrow>
              let n = Internal v es' r' in
              pbind (write_node E parent n) (\<lambda>_ s.
              if needs_split E s n then split_and_propagate E parent n path s else pret () s)))"
  by pat_completeness auto
termination
  by (relation "measure (\<lambda>x. case x of Inl (E, i, n, path) \<Rightarrow> 2 * length path + 1 | Inr (E, l, k, r, path) \<Rightarrow> 2 * length path)")
    auto

declare split_and_propagate.simps [simp del] insert_into_parent.simps [simp del]

definition commit_if :: "lsn \<Rightarrow> version_chain \<Rightarrow> version_chain" where
  "commit_if l c = (if l > 0 then chain_commit l c else c)"

text \<open>The entries of a leaf with a new version of a key.\<close>

definition leaf_insert :: "bytes \<Rightarrow> bytes \<Rightarrow> txn_id \<Rightarrow> lsn \<Rightarrow> leaf_entry list \<Rightarrow> leaf_entry list" where
  "leaf_insert k v t l es =
     (let pos = either_pos (bsearch le_key k es) in
      if pos < length es \<and> le_key (es ! pos) = k
      then es[pos := (es ! pos)\<lparr>le_chain := commit_if l (prepend v t (le_chain (es ! pos)))\<rparr>]
      else take pos es @ [\<lparr>le_key = k, le_chain = commit_if l (chain_new v t)\<rparr>] @ drop pos es)"

text \<open>The steps of a path as pairs of parent and child, innermost first.\<close>

definition old_style_path :: "path_entry list \<Rightarrow> (page_id \<times> page_id) list" where
  "old_style_path path =
     rev (map (\<lambda>(p, c). (pe_page_id p, pe_page_id c)) (zip (butlast path) (tl path)))"

text \<open>
  \<open>insert_loop r\<close> has \<open>r\<close> attempts left. Between the search and the write no other call comes in between
  here, so that the checks of the path always pass; they are kept.
\<close>

fun insert_loop :: "nat \<Rightarrow> nat \<Rightarrow> btree_env \<Rightarrow> bytes \<Rightarrow> bytes \<Rightarrow> txn_id \<Rightarrow> lsn \<Rightarrow> unit tree_walk" where
  "insert_loop 0 fuel E k v t l = flift (perr TableOther)"
| "insert_loop (Suc r) fuel E k v t l =
     fbind (search_optimistic fuel E k) (\<lambda>(i, pos, path).
     fbind (flift (validate_optimistic_path E path)) (\<lambda>ok.
     if \<not> ok then (if r = 0 then flift (perr TableOther) else insert_loop r fuel E k v t l)
     else fbind (flift (read_node E i)) (\<lambda>n.
       case n of
         Internal pv es rc \<Rightarrow>
           if r = 0 then flift (perr (TableCorruption ''node_type_changed'')) else insert_loop r fuel E k v t l
       | Leaf pv es nx \<Rightarrow>
           let n' = Leaf (pv + 1) (leaf_insert k v t l es) nx in
           flift (pbind (write_node E i n') (\<lambda>_.
             pbind (\<lambda>s. if needs_split E s n' then split_and_propagate E i n' (old_style_path path) s else pret () s) (\<lambda>_.
             case bsearch le_key k es of Inl _ \<Rightarrow> increment_row_count E | Inr _ \<Rightarrow> pret ()))))))"

definition insert_internal :: "nat \<Rightarrow> btree_env \<Rightarrow> bytes \<Rightarrow> bytes \<Rightarrow> txn_id \<Rightarrow> lsn \<Rightarrow> unit tree_walk" where
  "insert_internal fuel E k v t l = insert_loop 10 fuel E k v t l"

section \<open>Deleting\<close>

definition delete_in_node :: "btree_env \<Rightarrow> bytes \<Rightarrow> txn_id \<Rightarrow> page_id \<Rightarrow> nat \<Rightarrow> btree_node \<Rightarrow> bool tree_action" where
  "delete_in_node E k t i pos n =
     (case n of
        Internal v es r \<Rightarrow> pret False
      | Leaf v es nx \<Rightarrow>
          if pos < length es \<and> le_key (es ! pos) = k
          then pbind (write_node E i (Leaf v (es[pos := (es ! pos)\<lparr>le_chain := prepend [] t (le_chain (es ! pos))\<rparr>]) nx)) (\<lambda>_.
               pbind (decrement_row_count E) (\<lambda>_. pret True))
          else pret False)"

definition delete_internal :: "nat \<Rightarrow> btree_env \<Rightarrow> bytes \<Rightarrow> txn_id \<Rightarrow> bool tree_walk" where
  "delete_internal fuel E k t =
     fbind (search_with_path fuel E k) (\<lambda>(i, pos, path).
     flift (pbind (read_node E i) (delete_in_node E k t i pos)))"

section \<open>Committing\<close>

fun commit_chain_recursive :: "txn_id \<Rightarrow> lsn \<Rightarrow> version_chain \<Rightarrow> version_chain" where
  "commit_chain_recursive t l (VersionChain v u cl p) =
     VersionChain v u (if u = t \<and> cl = None then Some l else cl)
       (case p of None \<Rightarrow> None | Some c \<Rightarrow> Some (commit_chain_recursive t l c))"

fun leftmost_loop :: "nat \<Rightarrow> btree_env \<Rightarrow> page_id \<Rightarrow> page_id tree_walk" where
  "leftmost_loop 0 E i s = None"
| "leftmost_loop (Suc fuel) E i s =
     fbind (flift (read_node E i)) (\<lambda>n.
       case n of
         Internal v es r \<Rightarrow> leftmost_loop fuel E (case es of [] \<Rightarrow> r | e # _ \<Rightarrow> ie_child e)
       | Leaf v es nx \<Rightarrow> flift (pret i)) s"

definition commit_entries :: "txn_id \<Rightarrow> lsn \<Rightarrow> leaf_entry list \<Rightarrow> leaf_entry list" where
  "commit_entries t l es = map (\<lambda>e. e\<lparr>le_chain := commit_chain_recursive t l (le_chain e)\<rparr>) es"

fun commit_leaves_loop :: "nat \<Rightarrow> btree_env \<Rightarrow> txn_id \<Rightarrow> lsn \<Rightarrow> page_id \<Rightarrow> unit tree_walk" where
  "commit_leaves_loop 0 E t l i s = None"
| "commit_leaves_loop (Suc fuel) E t l i s =
     fbind (flift (read_node E i)) (\<lambda>n.
       case n of
         Internal v es r \<Rightarrow> flift (perr TablePanic)
       | Leaf v es nx \<Rightarrow>
           fbind (flift (write_node E i (Leaf (v + 1) (commit_entries t l es) nx))) (\<lambda>_.
           if nx = 0 then flift (pret ()) else commit_leaves_loop fuel E t l nx)) s"

definition commit_versions_for_tx :: "nat \<Rightarrow> btree_env \<Rightarrow> txn_id \<Rightarrow> lsn \<Rightarrow> unit tree_walk" where
  "commit_versions_for_tx fuel E t l s =
     fbind (leftmost_loop fuel E (pb_root s)) (commit_leaves_loop fuel E t l) s"

end
