(* ===== verification/PagedNodes.thy ===== *)
theory PagedNodes
  imports PagedBTree
begin

text \<open>
  The pages below the B-tree seen as nodes: which node a page decodes to, and what reading, writing and
  allocating do to that view. What is proved of the tree above rests on these facts and on the pager's
  invariant only.
\<close>

section \<open>The node view\<close>

definition node_view :: "btree_env \<Rightarrow> page_store \<Rightarrow> page_id \<Rightarrow> btree_node option" where
  "node_view E M i =
     (case M i of
        None \<Rightarrow> None
      | Some p \<Rightarrow> (case node_from_bytes (be_chain E) (pg_data p) of Inl e \<Rightarrow> None | Inr n \<Rightarrow> Some n))"

text \<open>
  \<open>holds E n s N W\<close>: below the tree \<open>s\<close> the pages are the set \<open>W\<close>, those that decode as nodes are \<open>N\<close>, and
  there is room for \<open>n\<close> more.
\<close>

definition holds :: "btree_env \<Rightarrow> nat \<Rightarrow> paged_btree \<Rightarrow> (page_id \<rightharpoonup> btree_node) \<Rightarrow> page_id set \<Rightarrow> bool" where
  "holds E n s N W \<longleftrightarrow>
     (\<exists>w. implements (be_pager E) n (pb_pager s) w \<and> N = node_view E (pw_pages w) \<and> W = dom (pw_pages w))"

definition btree_env_ok :: "btree_env \<Rightarrow> bool" where
  "btree_env_ok E \<longleftrightarrow> env_ok (be_pager E) \<and> chain_codec_ok (be_chain E)"

text \<open>What the calls of the pager leave of a tree: all but the pager, and of that the configuration.\<close>

definition pager_moved :: "paged_btree \<Rightarrow> paged_btree \<Rightarrow> bool" where
  "pager_moved s t \<longleftrightarrow> t\<lparr>pb_pager := pb_pager s\<rparr> = s \<and> pgr_config (pb_pager t) = pgr_config (pb_pager s)"

lemma pager_movedD:
  assumes "pager_moved s t"
  shows "pb_root t = pb_root s" "pb_row_count t = pb_row_count s" "pb_max_order t = pb_max_order s"
    "pb_max_node_size t = pb_max_node_size s" "data_size_of (pb_pager t) = data_size_of (pb_pager s)"
  using assms by (cases s; cases t; simp add: pager_moved_def data_size_of_def)+

lemma pager_moved_trans: "pager_moved s t \<Longrightarrow> pager_moved t u \<Longrightarrow> pager_moved s u"
  by (cases s; cases t; cases u; simp add: pager_moved_def)

lemma pager_moved_refl [simp]: "pager_moved s s"
  by (simp add: pager_moved_def)

definition node_fits :: "btree_env \<Rightarrow> paged_btree \<Rightarrow> btree_node \<Rightarrow> bool" where
  "node_fits E s n \<longleftrightarrow> node_encodable (be_chain E) n \<and> length (node_to_bytes (be_chain E) n) \<le> data_size_of (pb_pager s)"

lemma holds_view: "holds E n s N W \<Longrightarrow> dom N \<subseteq> W"
  by (auto simp: holds_def node_view_def split: option.splits)

lemma implements_less:
  assumes "implements P n p w" and "m \<le> n"
  shows "implements P m p w"
proof -
  have "(a + m) * k < 2 ^ 63" if "(a + n) * k < 2 ^ 63" for a k :: nat
    using assms(2) mult_le_mono1 [of "a + m" "a + n" k] that by linarith
  then show ?thesis
    using assms by (simp add: implements_def)
qed

lemma holds_less: "holds E n s N W \<Longrightarrow> m \<le> n \<Longrightarrow> holds E m s N W"
  unfolding holds_def using implements_less by blast

lemma runs_on_pager:
  "runs (on_pager m) s Q \<longleftrightarrow> (\<exists>a p. m (pb_pager s) = (Inr a, p) \<and> Q a (s\<lparr>pb_pager := p\<rparr>))"
  by (auto simp: runs_def on_pager_def split: prod.splits sum.splits)

section \<open>Reading, writing and allocating\<close>

lemma read_node_runs:
  assumes "holds E n s N W" and "N i = Some nd"
  shows "runs (read_node E i) s (\<lambda>r t. r = nd \<and> holds E n t N W \<and> pager_moved s t)"
proof -
  obtain w where w: "implements (be_pager E) n (pb_pager s) w" "N = node_view E (pw_pages w)" "W = dom (pw_pages w)"
    using assms(1) by (auto simp: holds_def)
  then obtain q where q: "pw_pages w i = Some q" "node_from_bytes (be_chain E) (pg_data q) = Inr nd"
    using assms(2) by (auto simp: node_view_def split: option.splits sum.splits)
  have inv: "pager_inv (be_pager E) (pb_pager s) (pw_pages w)"
    using w(1) by (simp add: implements_def)
  obtain p t where t: "read_page (be_pager E) i (pb_pager s) = (Inr p, t)" "page_core p = q"
    "pager_inv (be_pager E) t (pw_pages w)" "pgr_config t = pgr_config (pb_pager s)"
    "pgr_mapper t = pgr_mapper (pb_pager s)" "pgr_superblock t = pgr_superblock (pb_pager s)"
    using read_page_inv [OF inv q(1)] by blast
  have "implements (be_pager E) n t w"
    using w(1) t(3,5,6) config_cong(1) [OF t(4)] by (simp add: implements_def)
  then have "holds E n (s\<lparr>pb_pager := t\<rparr>) N W"
    using w(2,3) by (auto simp: holds_def)
  moreover have "pg_data p = pg_data q"
    using t(2) page_core_fields(1) [of p] by simp
  ultimately show ?thesis
    using t(1,4) q(2) by (auto simp: read_node_def runs_on_pager pager_moved_def)
qed

lemma size_of_data: "data_size_of p + 64 = size_of p"
  using page_data_size_add by (simp add: data_size_of_def size_of_def)

lemma write_node_runs:
  assumes env: "btree_env_ok E" and "holds E n s N W" and "i \<in> W" and fits: "node_fits E s nd"
  shows "runs (write_node E i nd) s (\<lambda>_ t. holds E n t (N(i \<mapsto> nd)) W \<and> pager_moved s t)"
proof -
  let ?p = "node_page (be_chain E) i nd"
  obtain w where w: "implements (be_pager E) n (pb_pager s) w" "N = node_view E (pw_pages w)" "W = dom (pw_pages w)"
    using assms(2) by (auto simp: holds_def)
  then obtain p0 where p0: "pw_pages w i = Some p0"
    using assms(3) by auto
  have env_ok: "env_ok (be_pager E)"
    using env by (simp add: btree_env_ok_def)
  have inv: "pager_inv (be_pager E) (pb_pager s) (pw_pages w)"
    using w(1) by (simp add: implements_def)
  have i: "ph_page_id (pg_header ?p) = i" "pg_data ?p = node_to_bytes (be_chain E) nd"
    by (simp_all add: node_page_def page_new_def page_header_new_def)
  have "page_ok (be_pager E) (pb_pager s) ?p"
    using fits size_of_data [of "pb_pager s"] unfolding node_fits_def
    by (intro plain_page_ok [OF env_ok])
      (cases nd; simp add: node_page_def page_new_def page_header_new_def readable_type_def)+
  from write_page_inv [OF env_ok inv this, unfolded i, OF p0] obtain t
    where t: "write_page (be_pager E) ?p (pb_pager s) = (Inr (), t)"
      "pager_inv (be_pager E) t ((pw_pages w)(i \<mapsto> page_core ?p))" "pgr_config t = pgr_config (pb_pager s)"
      "pgr_mapper t = pgr_mapper (pb_pager s)" "pgr_superblock t = pgr_superblock (pb_pager s)"
    by blast
  let ?w = "w\<lparr>pw_pages := (pw_pages w)(i \<mapsto> page_core ?p)\<rparr>"
  have "implements (be_pager E) n t ?w"
    using w(1) t(2,4,5) config_cong(1) [OF t(3)] by (simp add: implements_def)
  moreover have "node_view E (pw_pages ?w) = N(i \<mapsto> nd)"
    using w(2) env fits node_from_to_bytes [of "be_chain E" nd]
    by (auto simp: node_view_def fun_eq_iff i btree_env_ok_def node_fits_def)
  moreover have "dom (pw_pages ?w) = W"
    using w(3) p0 by auto
  ultimately have "holds E n (s\<lparr>pb_pager := t\<rparr>) (N(i \<mapsto> nd)) W"
    unfolding holds_def by (metis paged_btree.select_convs(3) paged_btree.surjective paged_btree.update_convs(3))
  then show ?thesis
    using t(1,3) by (auto simp: write_node_def runs_on_pager pager_moved_def)
qed

lemma allocate_runs:
  assumes env: "btree_env_ok E" and "holds E (Suc n) s N W" and t: "readable_type pt"
  shows "runs (on_pager (allocate_page (be_pager E) pt)) s (\<lambda>j t. j \<notin> W \<and> 2 \<le> unat j \<and> holds E n t N (insert j W) \<and> pager_moved s t)"
proof -
  obtain w where w: "implements (be_pager E) (Suc n) (pb_pager s) w" "N = node_view E (pw_pages w)" "W = dom (pw_pages w)"
    using assms(2) by (auto simp: holds_def)
  have env_ok: "env_ok (be_pager E)"
    using env by (simp add: btree_env_ok_def)
  have inv: "pager_inv (be_pager E) (pb_pager s) (pw_pages w)" and nxt: "pm_next_virtual_id (pgr_mapper (pb_pager s)) = pw_next w"
    using w(1) by (simp_all add: implements_def)
  have "call_legal (be_pager E) (pb_pager s) (SAlloc pt) w"
    using t by (simp add: call_legal_def)
  from pager_call_simulates [OF env_ok w(1) this] obtain a p
    where a: "pager_call (be_pager E) (SAlloc pt) (pb_pager s) = (Inr a, p)"
      "answer_core a = New_id (pw_next w)" "pgr_config p = pgr_config (pb_pager s)"
      "implements (be_pager E) n p (snd (store_call (pb_pager s) (SAlloc pt) w))"
    by (auto simp: store_call_def)
  then have p: "allocate_page (be_pager E) pt (pb_pager s) = (Inr (pw_next w), p)"
    by (auto simp: pager_call_def pbind_def pret_def split: prod.splits sum.splits)
  let ?w = "snd (store_call (pb_pager s) (SAlloc pt) w)"
  have fresh: "pw_pages w (pw_next w) = None"
    using inv_fresh_virtual [OF inv] nxt by simp
  have "node_view E (pw_pages ?w) = N" "dom (pw_pages ?w) = insert (pw_next w) W"
    using w(2,3) fresh by (auto simp: node_view_def store_call_def fun_eq_iff config_page_def node_from_bytes_def)
  then have "holds E n (s\<lparr>pb_pager := p\<rparr>) N (insert (pw_next w) W)"
    using a(4) unfolding holds_def by (metis paged_btree.select_convs(3) paged_btree.surjective paged_btree.update_convs(3))
  moreover have "2 \<le> unat (pw_next w)"
    using pager_invD(7) [OF inv] nxt by simp
  ultimately show ?thesis
    using p a(3) w(3) fresh by (auto simp: runs_on_pager pager_moved_def)
qed

lemma superblock_field_runs:
  assumes env: "btree_env_ok E" and "holds E n s N W"
    and "sb_next_page_id sb = sb_next_page_id (pgr_superblock (pb_pager s))"
    and "sb_total_pages sb = sb_total_pages (pgr_superblock (pb_pager s))"
  shows "runs (on_pager (\<lambda>p. write_superblock (be_pager E) sb (p\<lparr>pgr_superblock := sb\<rparr>))) s
    (\<lambda>_ t. holds E n t N W \<and> pager_moved s t)"
proof -
  obtain w where w: "implements (be_pager E) n (pb_pager s) w" "N = node_view E (pw_pages w)" "W = dom (pw_pages w)"
    using assms(2) by (auto simp: holds_def)
  have "env_ok (be_pager E)"
    using env by (simp add: btree_env_ok_def)
  moreover have "pager_inv (be_pager E) ((pb_pager s)\<lparr>pgr_superblock := sb\<rparr>) (pw_pages w)"
    using w(1) assms(3,4) by (intro inv_superblock_field) (simp_all add: implements_def)
  ultimately obtain t where t: "write_superblock (be_pager E) sb ((pb_pager s)\<lparr>pgr_superblock := sb\<rparr>) = (Inr (), t)"
    "pager_inv (be_pager E) t (pw_pages w)" "pgr_config t = pgr_config (pb_pager s)"
    "pgr_mapper t = pgr_mapper (pb_pager s)" "pgr_superblock t = sb"
    using write_superblock_inv by fastforce
  have "implements (be_pager E) n t w"
    using w(1) t(2,4,5) assms(3) config_cong(1) [OF t(3)] by (simp add: implements_def)
  then show ?thesis
    using t(1,3) w(2,3) by (auto simp: runs_on_pager holds_def pager_moved_def)
qed

text \<open>What changing the recorded root or the row count leaves of a tree.\<close>

definition tree_moved :: "paged_btree \<Rightarrow> paged_btree \<Rightarrow> bool" where
  "tree_moved s t \<longleftrightarrow>
     t\<lparr>pb_pager := pb_pager s, pb_root := pb_root s, pb_row_count := pb_row_count s\<rparr> = s \<and>
     pgr_config (pb_pager t) = pgr_config (pb_pager s)"

lemma tree_movedD:
  assumes "tree_moved s t"
  shows "pb_max_order t = pb_max_order s" "pb_max_node_size t = pb_max_node_size s"
    "data_size_of (pb_pager t) = data_size_of (pb_pager s)"
  using assms by (cases s; cases t; simp add: tree_moved_def data_size_of_def)+

lemma tree_moved_trans: "tree_moved s t \<Longrightarrow> tree_moved t u \<Longrightarrow> tree_moved s u"
  by (cases s; cases t; cases u; simp add: tree_moved_def)

lemma pager_moved_tree: "pager_moved s t \<Longrightarrow> tree_moved s t"
  by (cases s; cases t; simp add: pager_moved_def tree_moved_def)

lemma set_root_runs:
  assumes "btree_env_ok E" and "holds E n s N W"
  shows "runs (set_root_page_id E r) s (\<lambda>_ t. holds E n t N W \<and> pb_root t = r \<and> tree_moved s t)"
proof -
  let ?sb = "(pgr_superblock (pb_pager s))\<lparr>sb_root_btree_page := r\<rparr>"
  obtain p where p: "set_root_btree_page (be_pager E) r (pb_pager s) = (Inr (), p)"
    "holds E n (s\<lparr>pb_pager := p\<rparr>) N W" "pager_moved s (s\<lparr>pb_pager := p\<rparr>)"
    using superblock_field_runs [OF assms, of ?sb] by (auto simp: runs_on_pager set_root_btree_page_def)
  have "holds E n (s\<lparr>pb_pager := p, pb_root := r\<rparr>) N W"
    using p(2) by (simp add: holds_def)
  moreover have "tree_moved s (s\<lparr>pb_pager := p, pb_root := r\<rparr>)"
    using p(3) by (cases s) (simp add: tree_moved_def pager_moved_def)
  ultimately show ?thesis
    using p(1) by (simp add: set_root_page_id_def runs_on_pager) (simp add: runs_def)
qed

lemma set_row_count_runs:
  assumes "btree_env_ok E" and "holds E n s N W"
  shows "runs (set_row_count E c) s (\<lambda>_ t. holds E n t N W \<and> pb_root t = pb_root s \<and> tree_moved s t)"
proof -
  let ?s = "s\<lparr>pb_row_count := c\<rparr>"
  let ?sb = "(pgr_superblock (pb_pager s))\<lparr>sb_btree_row_count := c\<rparr>"
  have "holds E n ?s N W"
    using assms(2) by (simp add: holds_def)
  from superblock_field_runs [OF assms(1) this, of ?sb] obtain p
    where p: "set_btree_row_count (be_pager E) c (pb_pager s) = (Inr (), p)"
      "holds E n (?s\<lparr>pb_pager := p\<rparr>) N W" "pager_moved ?s (?s\<lparr>pb_pager := p\<rparr>)"
    by (auto simp: runs_on_pager set_btree_row_count_def)
  have "tree_moved s (?s\<lparr>pb_pager := p\<rparr>)"
    using p(3) by (cases s) (simp add: tree_moved_def pager_moved_def)
  then have "runs (on_pager (set_btree_row_count (be_pager E) c)) ?s (\<lambda>_ t. holds E n t N W \<and> pb_root t = pb_root s \<and> tree_moved s t)"
    using p(1,2) by (simp add: runs_on_pager)
  then show ?thesis
    by (simp add: runs_def set_row_count_def)
qed

end
