(* ===== verification/BTreeShape.thy ===== *)
theory BTreeShape
  imports PagedNodes
begin

text \<open>
  B-trees as trees. The pages of a table are nodes that name each other; here they are the tree they
  form, with what makes it a search tree, and what replacing a child by one or two others does to it.
\<close>

section \<open>Trees\<close>

datatype btree = TLeaf page_id "leaf_entry list" | TNode page_id kids
and kids = Last btree | More btree bytes kids

fun root_of :: "btree \<Rightarrow> page_id" where
  "root_of (TLeaf i es) = i"
| "root_of (TNode i ks) = i"

fun ents :: "kids \<Rightarrow> internal_entry list" where
  "ents (Last t) = []"
| "ents (More t s ks) = \<lparr>ie_key = s, ie_child = root_of t\<rparr> # ents ks"

fun last_id :: "kids \<Rightarrow> page_id" where
  "last_id (Last t) = root_of t"
| "last_id (More t s ks) = last_id ks"

primrec kid_set :: "kids \<Rightarrow> btree set" where
  "kid_set (Last t) = {t}"
| "kid_set (More t s ks) = insert t (kid_set ks)"

primrec first_leaf :: "btree \<Rightarrow> page_id" and first_kid :: "kids \<Rightarrow> page_id" where
  "first_leaf (TLeaf i es) = i"
| "first_leaf (TNode i ks) = first_kid ks"
| "first_kid (Last t) = first_leaf t"
| "first_kid (More t s ks) = first_leaf t"

text \<open>The tree is stored in \<open>N\<close>, and the leaf behind its last leaf is \<open>nx\<close>.\<close>

primrec rep :: "(page_id \<rightharpoonup> btree_node) \<Rightarrow> page_id \<Rightarrow> btree \<Rightarrow> bool"
  and rep_kids :: "(page_id \<rightharpoonup> btree_node) \<Rightarrow> page_id \<Rightarrow> kids \<Rightarrow> bool" where
  "rep N nx (TLeaf i es) \<longleftrightarrow> (\<exists>v. N i = Some (Leaf v es nx))"
| "rep N nx (TNode i ks) \<longleftrightarrow> (\<exists>v. N i = Some (Internal v (ents ks) (last_id ks))) \<and> rep_kids N nx ks"
| "rep_kids N nx (Last t) \<longleftrightarrow> rep N nx t"
| "rep_kids N nx (More t s ks) \<longleftrightarrow> rep N (first_kid ks) t \<and> rep_kids N nx ks"

primrec pages :: "btree \<Rightarrow> page_id list" and kid_pages :: "kids \<Rightarrow> page_id list" where
  "pages (TLeaf i es) = [i]"
| "pages (TNode i ks) = i # kid_pages ks"
| "kid_pages (Last t) = pages t"
| "kid_pages (More t s ks) = pages t @ kid_pages ks"

primrec items :: "btree \<Rightarrow> leaf_entry list" and kid_items :: "kids \<Rightarrow> leaf_entry list" where
  "items (TLeaf i es) = es"
| "items (TNode i ks) = kid_items ks"
| "kid_items (Last t) = items t"
| "kid_items (More t s ks) = items t @ kid_items ks"

primrec height :: "btree \<Rightarrow> nat" and kheight :: "kids \<Rightarrow> nat" where
  "height (TLeaf i es) = 0"
| "height (TNode i ks) = Suc (kheight ks)"
| "kheight (Last t) = height t"
| "kheight (More t s ks) = max (height t) (kheight ks)"

section \<open>Search trees\<close>

fun above :: "bytes option \<Rightarrow> bytes \<Rightarrow> bool" where
  "above None k \<longleftrightarrow> True"
| "above (Some l) k \<longleftrightarrow> l \<le> k"

fun beyond :: "bytes option \<Rightarrow> bytes \<Rightarrow> bool" where
  "beyond None k \<longleftrightarrow> True"
| "beyond (Some l) k \<longleftrightarrow> l < k"

fun below :: "bytes option \<Rightarrow> bytes \<Rightarrow> bool" where
  "below None k \<longleftrightarrow> True"
| "below (Some h) k \<longleftrightarrow> k < h"

text \<open>The keys between the bounds, in order, and every separator between what it separates.\<close>

primrec ok :: "bytes option \<Rightarrow> bytes option \<Rightarrow> btree \<Rightarrow> bool"
  and kids_ok :: "bytes option \<Rightarrow> bytes option \<Rightarrow> kids \<Rightarrow> bool" where
  "ok lo hi (TLeaf i es) \<longleftrightarrow> sorted_wrt (<) (map le_key es) \<and> (\<forall>e\<in>set es. above lo (le_key e) \<and> below hi (le_key e))"
| "ok lo hi (TNode i ks) \<longleftrightarrow> kids_ok lo hi ks"
| "kids_ok lo hi (Last t) \<longleftrightarrow> ok lo hi t"
| "kids_ok lo hi (More t s ks) \<longleftrightarrow> beyond lo s \<and> below hi s \<and> ok lo (Some s) t \<and> kids_ok (Some s) hi ks"

text \<open>Fewer than \<open>m\<close> entries in every node, and at least one in every inner node.\<close>

primrec slim :: "nat \<Rightarrow> btree \<Rightarrow> bool" and kids_slim :: "nat \<Rightarrow> kids \<Rightarrow> bool" where
  "slim m (TLeaf i es) \<longleftrightarrow> length es < m"
| "slim m (TNode i ks) \<longleftrightarrow> ents ks \<noteq> [] \<and> length (ents ks) < m \<and> kids_slim m ks"
| "kids_slim m (Last t) \<longleftrightarrow> slim m t"
| "kids_slim m (More t s ks) \<longleftrightarrow> slim m t \<and> kids_slim m ks"

fun wide :: "nat \<Rightarrow> btree \<Rightarrow> bool" where
  "wide m (TLeaf i es) \<longleftrightarrow> length es \<le> m"
| "wide m (TNode i ks) \<longleftrightarrow> ents ks \<noteq> [] \<and> length (ents ks) \<le> m \<and> kids_slim m ks"

text \<open>Entries that take at most \<open>L\<close> bytes, as a leaf stores them and as a separator.\<close>

definition small_entry :: "chain_codec \<Rightarrow> nat \<Rightarrow> leaf_entry \<Rightarrow> bool" where
  "small_entry cc L e \<longleftrightarrow> 12 + length (le_key e) \<le> L \<and> length (leaf_entry_bytes cc e) \<le> L"

primrec small :: "chain_codec \<Rightarrow> nat \<Rightarrow> btree \<Rightarrow> bool" and kids_small :: "chain_codec \<Rightarrow> nat \<Rightarrow> kids \<Rightarrow> bool" where
  "small cc L (TLeaf i es) \<longleftrightarrow> (\<forall>e\<in>set es. small_entry cc L e)"
| "small cc L (TNode i ks) \<longleftrightarrow> kids_small cc L ks"
| "kids_small cc L (Last t) \<longleftrightarrow> small cc L t"
| "kids_small cc L (More t s ks) \<longleftrightarrow> 12 + length s \<le> L \<and> small cc L t \<and> kids_small cc L ks"

lemma slim_wide: "slim m t \<Longrightarrow> wide m t"
  by (cases t) auto

lemma root_page [simp]: "root_of t \<in> set (pages t)"
  by (cases t) auto

lemma root_in_kid_pages: "set (map ie_child (ents ks)) \<union> {last_id ks} \<subseteq> set (kid_pages ks)"
  by (induction ks rule: ents.induct) auto

lemma rep_cong:
  "rep N nx t \<Longrightarrow> (\<And>i. i \<in> set (pages t) \<Longrightarrow> N' i = N i) \<Longrightarrow> rep N' nx t"
  "rep_kids N nx ks \<Longrightarrow> (\<And>i. i \<in> set (kid_pages ks) \<Longrightarrow> N' i = N i) \<Longrightarrow> rep_kids N' nx ks"
  by (induction t and ks arbitrary: nx and nx) auto

lemma above_trans: "above lo l \<Longrightarrow> l \<le> k \<Longrightarrow> above lo k"
  by (cases lo) auto

lemma beyond_above: "beyond lo l \<Longrightarrow> above lo l"
  by (cases lo) auto

lemma beyond_trans: "beyond lo l \<Longrightarrow> l < k \<Longrightarrow> beyond lo k" "above lo l \<Longrightarrow> l < k \<Longrightarrow> beyond lo k"
  by (cases lo; auto)+

lemma below_trans: "below hi h \<Longrightarrow> k \<le> h \<Longrightarrow> below hi k" "below hi h \<Longrightarrow> k < h \<Longrightarrow> below hi k"
  by (cases hi; auto)+

lemma ok_items:
  "ok lo hi t \<Longrightarrow> e \<in> set (items t) \<Longrightarrow> above lo (le_key e) \<and> below hi (le_key e)"
  "kids_ok lo hi ks \<Longrightarrow> e \<in> set (kid_items ks) \<Longrightarrow> above lo (le_key e) \<and> below hi (le_key e)"
proof (induction t and ks arbitrary: lo hi and lo hi)
  case (More t s ks)
  from More.prems(2) consider "e \<in> set (items t)" | "e \<in> set (kid_items ks)"
    by auto
  then show ?case
  proof cases
    case 1
    then show ?thesis
      using More.IH(1) [of lo "Some s"] More.prems(1) below_trans(2) [of hi s] by auto
  next
    case 2
    then show ?thesis
      using More.IH(2) [of "Some s" hi] More.prems(1) above_trans [of lo s] beyond_above [of lo s] by auto
  qed
qed auto

lemma ok_sorted:
  "ok lo hi t \<Longrightarrow> sorted_wrt (<) (map le_key (items t))"
  "kids_ok lo hi ks \<Longrightarrow> sorted_wrt (<) (map le_key (kid_items ks))"
proof (induction t and ks arbitrary: lo hi and lo hi)
  case (More t s ks)
  then show ?case
    using ok_items(1) [of lo "Some s" t] ok_items(2) [of "Some s" hi ks] by (fastforce simp: sorted_wrt_append)
qed auto

section \<open>Replacing a child\<close>

text \<open>\<open>kappend ks s ks'\<close>: the children \<open>ks\<close>, the separator \<open>s\<close> and the children \<open>ks'\<close>.\<close>

fun kappend :: "kids \<Rightarrow> bytes \<Rightarrow> kids \<Rightarrow> kids" where
  "kappend (Last t) s ks = More t s ks"
| "kappend (More t s' ks') s ks = More t s' (kappend ks' s ks)"

text \<open>The child a key belongs to, what bounds it, and the leaf behind it.\<close>

fun pick :: "bytes \<Rightarrow> kids \<Rightarrow> btree" where
  "pick k (Last t) = t"
| "pick k (More t s ks) = (if k < s then t else pick k ks)"

fun pick_lo :: "bytes \<Rightarrow> bytes option \<Rightarrow> kids \<Rightarrow> bytes option" where
  "pick_lo k lo (Last t) = lo"
| "pick_lo k lo (More t s ks) = (if k < s then lo else pick_lo k (Some s) ks)"

fun pick_hi :: "bytes \<Rightarrow> bytes option \<Rightarrow> kids \<Rightarrow> bytes option" where
  "pick_hi k hi (Last t) = hi"
| "pick_hi k hi (More t s ks) = (if k < s then Some s else pick_hi k hi ks)"

fun pick_next :: "bytes \<Rightarrow> page_id \<Rightarrow> kids \<Rightarrow> page_id" where
  "pick_next k nx (Last t) = nx"
| "pick_next k nx (More t s ks) = (if k < s then first_kid ks else pick_next k nx ks)"

text \<open>The child of a key replaced by the children \<open>F\<close>.\<close>

fun ksplice :: "bytes \<Rightarrow> kids \<Rightarrow> kids \<Rightarrow> kids" where
  "ksplice k F (Last t) = F"
| "ksplice k F (More t s ks) = (if k < s then kappend F s ks else More t s (ksplice k F ks))"

lemma pick_in [simp]: "pick k ks \<in> kid_set ks"
  by (induction ks rule: ents.induct) auto

lemma pick_pages: "set (pages (pick k ks)) \<subseteq> set (kid_pages ks)"
  by (induction ks rule: ents.induct) auto

lemma pick_rep: "rep_kids N nx ks \<Longrightarrow> rep N (pick_next k nx ks) (pick k ks)"
  by (induction ks rule: ents.induct) auto

lemma pick_ok: "kids_ok lo hi ks \<Longrightarrow> ok (pick_lo k lo ks) (pick_hi k hi ks) (pick k ks)"
  by (induction ks arbitrary: lo rule: ents.induct) auto

lemma pick_between: "above lo k \<Longrightarrow> below hi k \<Longrightarrow> above (pick_lo k lo ks) k \<and> below (pick_hi k hi ks) k"
  by (induction ks arbitrary: lo rule: ents.induct) auto

lemma pick_hereditary:
  "kids_slim m ks \<Longrightarrow> slim m (pick k ks)" "kids_small cc L ks \<Longrightarrow> small cc L (pick k ks)"
  "distinct (kid_pages ks) \<Longrightarrow> distinct (pages (pick k ks))" "height (pick k ks) \<le> kheight ks"
  by (induction ks rule: ents.induct) auto

lemma kappend_simps [simp]:
  "ents (kappend F s ks) = ents F @ \<lparr>ie_key = s, ie_child = last_id F\<rparr> # ents ks"
  "last_id (kappend F s ks) = last_id ks"
  "first_kid (kappend F s ks) = first_kid F"
  "kid_pages (kappend F s ks) = kid_pages F @ kid_pages ks"
  "kid_items (kappend F s ks) = kid_items F @ kid_items ks"
  "kheight (kappend F s ks) = max (kheight F) (kheight ks)"
  "kids_slim m (kappend F s ks) \<longleftrightarrow> kids_slim m F \<and> kids_slim m ks"
  "kids_small cc L (kappend F s ks) \<longleftrightarrow> kids_small cc L F \<and> 12 + length s \<le> L \<and> kids_small cc L ks"
  by (induction F rule: ents.induct; auto)+

lemma kappend_rep: "rep_kids N nx (kappend F s ks) \<longleftrightarrow> rep_kids N (first_kid ks) F \<and> rep_kids N nx ks"
  by (induction F rule: ents.induct) auto

lemma kappend_ok:
  "kids_ok lo hi (kappend F s ks) \<longleftrightarrow> kids_ok lo (Some s) F \<and> beyond lo s \<and> below hi s \<and> kids_ok (Some s) hi ks"
proof (induction F arbitrary: lo rule: ents.induct)
  case (2 t s' F)
  have "beyond lo s' \<Longrightarrow> s' < s \<Longrightarrow> beyond lo s" "s' < s \<Longrightarrow> below hi s \<Longrightarrow> below hi s'"
    using below_trans beyond_trans by blast+
  then show ?case
    using 2 by auto
qed auto

lemma ksplice_rep:
  assumes "rep_kids N nx ks" and "distinct (kid_pages ks)"
    and "\<And>i. i \<in> set (kid_pages ks) - set (pages (pick k ks)) \<Longrightarrow> N' i = N i"
    and "rep_kids N' (pick_next k nx ks) F" and "first_kid F = first_leaf (pick k ks)"
  shows "rep_kids N' nx (ksplice k F ks) \<and> first_kid (ksplice k F ks) = first_kid ks"
  using assms
proof (induction ks rule: ents.induct)
  case (2 t s ks)
  show ?case
  proof (cases "k < s")
    case True
    have same: "N' i = N i" if "i \<in> set (kid_pages ks)" for i
      using that True "2.prems"(2,3) by auto
    have "rep_kids N nx ks"
      using "2.prems"(1) by simp
    then have "rep_kids N' nx ks"
      by (rule rep_cong(2)) (rule same)
    then show ?thesis
      using "2.prems"(4,5) True by (simp add: kappend_rep)
  next
    case False
    have same: "N' i = N i" if "i \<in> set (pages t)" for i
      using that False "2.prems"(2,3) pick_pages [of k ks] by auto
    have "rep N (first_kid ks) t"
      using "2.prems"(1) by simp
    then have "rep N' (first_kid ks) t"
      by (rule rep_cong(1)) (rule same)
    moreover have "rep_kids N' nx (ksplice k F ks) \<and> first_kid (ksplice k F ks) = first_kid ks"
      using False "2.prems" by (intro "2.IH") auto
    ultimately show ?thesis
      using False by simp
  qed
qed auto

lemma ksplice_ok:
  assumes "kids_ok lo hi ks" and "kids_ok (pick_lo k lo ks) (pick_hi k hi ks) F"
  shows "kids_ok lo hi (ksplice k F ks)"
  using assms by (induction ks arbitrary: lo rule: ents.induct) (auto simp: kappend_ok)

text \<open>What stands before and behind the child of a key.\<close>

fun kid_before :: "bytes \<Rightarrow> kids \<Rightarrow> leaf_entry list" where
  "kid_before k (Last t) = []"
| "kid_before k (More t s ks) = (if k < s then [] else items t @ kid_before k ks)"

fun kid_behind :: "bytes \<Rightarrow> kids \<Rightarrow> leaf_entry list" where
  "kid_behind k (Last t) = []"
| "kid_behind k (More t s ks) = (if k < s then kid_items ks else kid_behind k ks)"

lemma ksplice_items:
  "kid_items ks = kid_before k ks @ items (pick k ks) @ kid_behind k ks"
  "kid_items (ksplice k F ks) = kid_before k ks @ kid_items F @ kid_behind k ks"
  by (induction ks rule: ents.induct; simp)+

lemma kid_before_less: "kids_ok lo hi ks \<Longrightarrow> e \<in> set (kid_before k ks) \<Longrightarrow> le_key e < k"
proof (induction ks arbitrary: lo rule: ents.induct)
  case (2 t s ks)
  then show ?case
    using ok_items(1) [of lo "Some s" t e] by (auto split: if_splits)
qed simp

lemma kid_behind_less: "kids_ok lo hi ks \<Longrightarrow> e \<in> set (kid_behind k ks) \<Longrightarrow> k < le_key e"
proof (induction ks arbitrary: lo rule: ents.induct)
  case (2 t s ks)
  then show ?case
    using ok_items(2) [of "Some s" hi ks e] by (auto split: if_splits)
qed simp

lemma ksplice_pages:
  "set (kid_pages (ksplice k F ks)) \<subseteq> set (kid_pages ks) \<union> set (kid_pages F)"
  by (induction ks rule: ents.induct) auto

lemma ksplice_distinct:
  assumes "distinct (kid_pages ks)" and "distinct (kid_pages F)"
    and "set (kid_pages F) \<inter> set (kid_pages ks) \<subseteq> set (pages (pick k ks))"
  shows "distinct (kid_pages (ksplice k F ks))"
  using assms
proof (induction ks rule: ents.induct)
  case (2 t s ks)
  show ?case
  proof (cases "k < s")
    case False
    moreover have "set (pages t) \<inter> set (kid_pages (ksplice k F ks)) = {}"
      using 2 False ksplice_pages [of k F ks] pick_pages [of k ks] by fastforce
    ultimately show ?thesis
      using 2 by auto
  qed (use 2 in auto)
qed simp

lemma ksplice_hereditary:
  "kids_slim m ks \<Longrightarrow> kids_slim m F \<Longrightarrow> kids_slim m (ksplice k F ks)"
  "kids_small cc L ks \<Longrightarrow> kids_small cc L F \<Longrightarrow> kids_small cc L (ksplice k F ks)"
  "kheight F = height (pick k ks) \<Longrightarrow> kheight (ksplice k F ks) = kheight ks"
  by (induction ks rule: ents.induct; auto simp: max.assoc)+

lemma ksplice_length: "length (ents (ksplice k F ks)) = length (ents ks) + length (ents F)"
  by (induction ks rule: ents.induct) auto

lemma ksplice_Last:
  "root_of t = root_of (pick k ks) \<Longrightarrow> ents (ksplice k (Last t) ks) = ents ks"
  "root_of t = root_of (pick k ks) \<Longrightarrow> last_id (ksplice k (Last t) ks) = last_id ks"
  by (induction ks rule: ents.induct) auto

end
