(* ===== verification/BTreeInsert.thy ===== *)
theory BTreeInsert
  imports BTreeShape
begin

text \<open>
  Inserting into the B-tree on pages: the leaf a key belongs to gets the new version, and a node that
  has grown too much is split, up to a new root. The tree the pages form stays a search tree, and its
  entries in order are the map with the new version.
\<close>

section \<open>Entries as a map\<close>

definition pairs :: "leaf_entry list \<Rightarrow> versioned" where
  "pairs es = map (\<lambda>e. (le_key e, le_chain e)) es"

lemma pairs_simps [simp]: "pairs [] = []" "pairs (e # es) = (le_key e, le_chain e) # pairs es" "pairs (es @ es') = pairs es @ pairs es'"
  by (simp_all add: pairs_def)

lemma bt_wf_pairs: "bt_wf (pairs es) \<longleftrightarrow> sorted_wrt (<) (map le_key es)"
  by (simp add: bt_wf_def pairs_def comp_def)

lemma set_pairs: "x \<in> set (pairs es) \<longleftrightarrow> (\<exists>e\<in>set es. x = (le_key e, le_chain e))"
  by (auto simp: pairs_def)

text \<open>A new version of a key, committed at once if a log sequence number is given.\<close>

definition add_version :: "bytes \<Rightarrow> bytes \<Rightarrow> txn_id \<Rightarrow> lsn \<Rightarrow> versioned \<Rightarrow> versioned" where
  "add_version k v t l m =
     bt_insert k (commit_if l (case bt_get m k of Some c \<Rightarrow> prepend v t c | None \<Rightarrow> chain_new v t)) m"

lemma add_version_uncommitted: "add_version k v t 0 m = push_version k v t m"
  by (simp add: add_version_def push_version_def commit_if_def)

lemma bt_insert_append_left: "\<forall>x\<in>set xs. fst x < k \<Longrightarrow> bt_insert k c (xs @ ys) = xs @ bt_insert k c ys"
  by (induction xs) auto

lemma bt_insert_append_right: "\<forall>y\<in>set ys. k < fst y \<Longrightarrow> bt_insert k c (xs @ ys) = bt_insert k c xs @ ys"
proof (induction xs)
  case Nil
  then show ?case
    by (cases ys) auto
qed auto

lemma bt_get_append: "bt_get (xs @ ys) k = (case bt_get xs k of Some v \<Rightarrow> Some v | None \<Rightarrow> bt_get ys k)"
  by (auto simp: bt_get_def map_add_def split: option.split)

lemma bt_get_outside: "\<forall>x\<in>set xs. fst x \<noteq> k \<Longrightarrow> bt_get xs k = None"
  by (auto simp: bt_get_None_iff)

lemma get_between:
  assumes "\<And>e. e \<in> set xs \<Longrightarrow> le_key e < k" and "\<And>e. e \<in> set zs \<Longrightarrow> k < le_key e"
  shows "bt_get (pairs (xs @ ys @ zs)) k = bt_get (pairs ys) k"
proof -
  have "bt_get (pairs xs) k = None" "bt_get (pairs zs) k = None"
    using assms by (intro bt_get_outside; fastforce simp: set_pairs)+
  then show ?thesis
    by (simp add: bt_get_append split: option.split)
qed

lemma add_version_between:
  assumes "\<And>e. e \<in> set xs \<Longrightarrow> le_key e < k" and "\<And>e. e \<in> set zs \<Longrightarrow> k < le_key e"
  shows "add_version k v t l (pairs (xs @ ys @ zs)) = pairs xs @ add_version k v t l (pairs ys) @ pairs zs"
proof -
  have "\<forall>x\<in>set (pairs xs). fst x < k" "\<forall>x\<in>set (pairs zs). k < fst x"
    using assms by (auto simp: set_pairs)
  then have "bt_insert k c (pairs (xs @ ys @ zs)) = pairs xs @ bt_insert k c (pairs ys) @ pairs zs" for c
    by (simp add: bt_insert_append_left bt_insert_append_right)
  then show ?thesis
    using get_between [OF assms, of xs zs ys] by (simp add: add_version_def)
qed

section \<open>Searching in a node\<close>

lemma bsearch_Nil [simp]: "bsearch key k [] = Inl 0"
  by (simp add: bsearch_def)

lemma bsearch_Cons:
  "bsearch key k (e # es) =
     (if key e < k then map_sum Suc Suc (bsearch key k es) else if key e = k then Inr 0 else Inl 0)"
  by (auto simp: bsearch_def Let_def)

lemma next_child_pick:
  assumes "kids_ok lo hi ks"
  shows "fst (next_child (ents ks) (last_id ks) k) = root_of (pick k ks)"
  using assms
proof (induction ks arbitrary: lo rule: ents.induct)
  case (2 t s ks)
  show ?case
  proof (cases "s < k")
    case True
    then show ?thesis
      using 2 by (cases "bsearch ie_key k (ents ks)") (auto simp: next_child_def bsearch_Cons)
  next
    case False
    show ?thesis
    proof (cases "s = k")
      case eq: True
      have "pick k ks = (case ks of Last t \<Rightarrow> t | More t s ks \<Rightarrow> t)"
        using "2.prems" eq by (cases ks) auto
      then show ?thesis
        using eq by (cases ks) (auto simp: next_child_def bsearch_Cons)
    next
      case False
      with \<open>\<not> s < k\<close> have "k < s"
        by auto
      then show ?thesis
        using False by (auto simp: next_child_def bsearch_Cons)
    qed
  qed
qed (simp add: next_child_def)

lemma leaf_insert_Cons:
  "leaf_insert k v t l (e # es) =
     (if le_key e < k then e # leaf_insert k v t l es
      else if le_key e = k then e\<lparr>le_chain := commit_if l (prepend v t (le_chain e))\<rparr> # es
      else \<lparr>le_key = k, le_chain = commit_if l (chain_new v t)\<rparr> # e # es)"
  by (auto simp: leaf_insert_def bsearch_Cons either_pos_def Let_def split: sum.splits)

lemma leaf_insert_pairs:
  assumes "sorted_wrt (<) (map le_key es)"
  shows "pairs (leaf_insert k v t l es) = add_version k v t l (pairs es)"
  using assms
proof (induction es)
  case Nil
  then show ?case
    by (simp add: leaf_insert_def either_pos_def add_version_def)
next
  case (Cons e es)
  have "bt_get (pairs es) k = None" if "k < le_key e"
    using that Cons.prems by (intro bt_get_outside) (fastforce simp: set_pairs)
  then show ?case
    using Cons by (auto simp: leaf_insert_Cons add_version_def)
qed

lemma leaf_insert_entries:
  assumes "e \<in> set (leaf_insert k v t l es)" and "sorted_wrt (<) (map le_key es)"
  shows "e \<in> set es \<or> (k, le_chain e) \<in> set (add_version k v t l (pairs es)) \<and> le_key e = k"
proof (cases "le_key e = k")
  case True
  then have "(k, le_chain e) \<in> set (pairs (leaf_insert k v t l es))"
    using assms(1) by (auto simp: set_pairs)
  then show ?thesis
    using True leaf_insert_pairs [OF assms(2)] by simp
next
  case False
  have "e \<in> set es" if "e \<in> set (leaf_insert k v t l es)"
    using that
  proof (induction es)
    case Nil
    then show ?case
      using False by (simp add: leaf_insert_def either_pos_def)
  qed (use False in \<open>auto simp: leaf_insert_Cons split: if_splits\<close>)
  then show ?thesis
    using assms(1) by simp
qed

lemma leaf_insert_sorted:
  assumes "sorted_wrt (<) (map le_key es)"
  shows "sorted_wrt (<) (map le_key (leaf_insert k v t l es))"
  using assms leaf_insert_pairs [OF assms, of k v t l] unfolding bt_wf_pairs [symmetric]
  by (simp add: add_version_def)

lemma leaf_insert_length: "length (leaf_insert k v t l es) \<le> Suc (length es)"
proof (induction es)
  case Nil
  then show ?case
    by (simp add: leaf_insert_def either_pos_def)
qed (simp add: leaf_insert_Cons)

lemma leaf_insert_keys: "e \<in> set (leaf_insert k v t l es) \<Longrightarrow> le_key e = k \<or> e \<in> set es"
proof (induction es)
  case Nil
  then show ?case
    by (simp add: leaf_insert_def either_pos_def)
qed (auto simp: leaf_insert_Cons split: if_splits)

section \<open>Placing a new child\<close>

lemma first_index_simps [simp]:
  "first_index P [] = None" "first_index P (x # xs) = (if P x then Some 0 else map_option Suc (first_index P xs))"
  by (simp_all add: first_index_def Let_def)

lemma first_index_None: "first_index P xs = None \<longleftrightarrow> (\<forall>x\<in>set xs. \<not> P x)"
  by (induction xs) auto

lemma place_child_Cons:
  assumes "ie_child e \<noteq> left"
  shows "place_child left key right (e # es) r = map_option (\<lambda>(es', r'). (e # es', r')) (place_child left key right es r)"
proof (cases "r = left \<or> first_index (\<lambda>e. ie_child e = left) es \<noteq> None")
  case True
  then show ?thesis
    using assms by (auto simp: place_child_def child_position_def Let_def)
next
  case False
  then have "first_index (\<lambda>c. c = left) (map ie_child es @ [r]) = None"
    by (auto simp: first_index_None)
  moreover from this have "first_index (\<lambda>c. c = left) (tl (map ie_child es @ [r])) = None"
    unfolding first_index_None by (cases es) auto
  ultimately show ?thesis
    using assms False by (simp add: place_child_def child_position_def)
qed

lemma place_child_splice:
  assumes "distinct (kid_pages ks)" and "root_of cl = root_of (pick k ks)"
  shows "place_child (root_of cl) sep (root_of cr) (ents ks) (last_id ks) =
    Some (ents (ksplice k (More cl sep (Last cr)) ks), last_id (ksplice k (More cl sep (Last cr)) ks))"
  using assms
proof (induction ks rule: ents.induct)
  case (1 t)
  then show ?case
    by (simp add: place_child_def)
next
  case (2 t s ks)
  show ?case
  proof (cases "k < s")
    case True
    then have "last_id ks \<noteq> root_of t"
      using "2.prems"(1) root_in_kid_pages [of ks] root_page [of t] by (auto simp del: root_page)
    then show ?thesis
      using True "2.prems"(2) by (simp add: place_child_def child_position_def Let_def)
  next
    case False
    then have "root_of (pick k ks) \<in> set (kid_pages ks)"
      using pick_pages [of k ks] by auto
    then have "root_of t \<noteq> root_of cl"
      using "2.prems" False root_page [of t] by (auto simp del: root_page)
    then show ?thesis
      using 2 False by (simp add: place_child_Cons)
  qed
qed

section \<open>Cutting a node in two\<close>

fun kcut :: "nat \<Rightarrow> kids \<Rightarrow> kids \<times> bytes \<times> kids" where
  "kcut n (Last t) = (Last t, [], Last t)"
| "kcut 0 (More t s ks) = (Last t, s, ks)"
| "kcut (Suc n) (More t s ks) = (case kcut n ks of (l, s', r) \<Rightarrow> (More t s l, s', r))"

lemma kcut_ents:
  assumes "n < length (ents ks)" and "kcut n ks = (l, s, r)"
  shows "ks = kappend l s r" "ents l = take n (ents ks)" "last_id l = ie_child (ents ks ! n)"
    "s = ie_key (ents ks ! n)" "ents r = drop (Suc n) (ents ks)" "last_id r = last_id ks"
  using assms by (induction n ks arbitrary: l rule: kcut.induct) (auto split: prod.splits)

section \<open>Sizes\<close>

text \<open>
  The dimensions of a tree: a node has at most \<open>m\<close> entries when it is written, and \<open>m\<close> entries of at most
  \<open>L\<close> bytes fill no more than a page. The order grows with the page, so that \<open>L\<close> is about 50 for every
  page size.
\<close>

definition dims :: "btree_env \<Rightarrow> nat \<Rightarrow> nat \<Rightarrow> paged_btree \<Rightarrow> bool" where
  "dims E m L s \<longleftrightarrow> btree_env_ok E \<and> pb_max_order s = m \<and> 4 \<le> m \<and> m < 2 ^ 32 \<and>
     21 + m * L \<le> data_size_of (pb_pager s) \<and> pb_max_node_size s = data_size_of (pb_pager s) * 3 div 5"

lemma dims_moved: "dims E m L s \<Longrightarrow> tree_moved s t \<Longrightarrow> dims E m L t"
  using tree_movedD [of s t] by (simp add: dims_def)

lemma dims_pager_moved: "dims E m L s \<Longrightarrow> pager_moved s t \<Longrightarrow> dims E m L t"
  using dims_moved pager_moved_tree by blast

lemma dims_limit:
  assumes "dims E m L s"
  shows "4 * L + 21 \<le> data_size_of (pb_pager s)" "4000 \<le> data_size_of (pb_pager s)" "L < 2 ^ 32"
    "\<And>c. c \<le> m \<Longrightarrow> 21 + c * L \<le> data_size_of (pb_pager s)"
proof -
  have "4 * L \<le> m * L"
    using assms by (simp add: dims_def)
  then show "4 * L + 21 \<le> data_size_of (pb_pager s)"
    using assms unfolding dims_def by linarith
  then show "L < 2 ^ 32" "4000 \<le> data_size_of (pb_pager s)"
    using size_of_bounds [of "pb_pager s"] size_of_data [of "pb_pager s"] by simp_all
  show "21 + c * L \<le> data_size_of (pb_pager s)" if "c \<le> m" for c
    using mult_le_mono1 [OF that, of L] assms unfolding dims_def by linarith
qed

lemma length_concat_le: "(\<And>x. x \<in> set xs \<Longrightarrow> length (f x) \<le> L) \<Longrightarrow> length (concat (map f xs)) \<le> length xs * L"
  by (induction xs) (auto intro: add_mono)

fun small_node :: "chain_codec \<Rightarrow> nat \<Rightarrow> btree_node \<Rightarrow> bool" where
  "small_node cc L (Internal v es r) \<longleftrightarrow> (\<forall>e\<in>set es. 12 + length (ie_key e) \<le> L)"
| "small_node cc L (Leaf v es nx) \<longleftrightarrow> (\<forall>e\<in>set es. small_entry cc L e)"

lemma kids_small_ents: "kids_small cc L ks \<Longrightarrow> e \<in> set (ents ks) \<Longrightarrow> 12 + length (ie_key e) \<le> L"
  by (induction ks rule: ents.induct) auto

lemma small_node_length:
  assumes "small_node cc L nd"
  shows "length (node_to_bytes cc nd) \<le> 21 + key_count nd * L"
  using assms
proof (cases nd)
  case (Internal v es r)
  then have "length (concat (map internal_entry_bytes es)) \<le> length es * L"
    using assms by (intro length_concat_le) (auto simp: internal_entry_bytes_def length_len_prefixed)
  then show ?thesis
    using Internal by simp
next
  case (Leaf v es nx)
  then have "length (concat (map (leaf_entry_bytes cc) es)) \<le> length es * L"
    using assms by (intro length_concat_le) (auto simp: small_entry_def)
  then show ?thesis
    using Leaf by simp
qed

lemma small_node_fits:
  assumes "dims E m L s" and "small_node (be_chain E) L nd" and "key_count nd \<le> m"
  shows "node_fits E s nd"
proof -
  have "length (node_to_bytes (be_chain E) nd) \<le> data_size_of (pb_pager s)"
    using small_node_length [OF assms(2)] dims_limit(4) [OF assms(1,3)] by simp
  moreover have "length bs < 2 ^ 32" if "length bs \<le> L" for bs :: bytes
    using that dims_limit(3) [OF assms(1)] by simp
  then have "node_encodable (be_chain E) nd"
    using assms dims_limit(3) [OF assms(1)]
    by (cases nd) (fastforce simp: dims_def small_entry_def leaf_entry_bytes_def length_len_prefixed)+
  ultimately show ?thesis
    by (simp add: node_fits_def)
qed

lemma needs_split_count:
  assumes "dims E m L s" and "small_node (be_chain E) L nd" and "needs_split E s nd"
  shows "3 \<le> key_count nd"
proof (rule ccontr)
  assume few: "\<not> ?thesis"
  then have "key_count nd * L \<le> 2 * L"
    by (intro mult_le_mono1) simp
  then have "length (node_to_bytes (be_chain E) nd) \<le> data_size_of (pb_pager s) * 3 div 5"
    using small_node_length [OF assms(2)] dims_limit(1,2) [OF assms(1)] by linarith
  then show False
    using assms(1,3) few by (auto simp: needs_split_def node_fits_in_page_def is_full_def dims_def)
qed

lemma no_split_count: "dims E m L s \<Longrightarrow> \<not> needs_split E s nd \<Longrightarrow> key_count nd < m"
  by (simp add: needs_split_def is_full_def dims_def)

section \<open>Splitting\<close>

lemma two_nodes_runs:
  assumes d: "dims E m L s" and h: "holds E (Suc n) s N W" and i: "i \<in> W" and t: "readable_type pt"
    and a: "\<And>j. node_fits E s (a j)" and b: "node_fits E s b"
    and Q: "\<And>j t. j \<notin> W \<Longrightarrow> holds E n t (N(i \<mapsto> a j, j \<mapsto> b)) (insert j W) \<Longrightarrow> pager_moved s t \<Longrightarrow> Q (j, sep) t"
  shows "runs (pbind (on_pager (allocate_page (be_pager E) pt)) (\<lambda>j.
    pbind (write_node E i (a j)) (\<lambda>_. pbind (write_node E j b) (\<lambda>_. pret (j, sep))))) s Q"
proof -
  have env: "btree_env_ok E"
    using d by (simp add: dims_def)
  have fits: "node_fits E t nd" if "pager_moved s t" "node_fits E s nd" for t nd
    using that pager_movedD(5) [OF that(1)] by (simp add: node_fits_def)
  have "runs (pbind (write_node E i (a j)) (\<lambda>_. pbind (write_node E j b) (\<lambda>_. pret (j, sep)))) t Q"
    if j: "j \<notin> W" and ht: "holds E n t N (insert j W)" and mt: "pager_moved s t" for j t
  proof -
    have w1: "runs (write_node E i (a j)) t (\<lambda>_ u. holds E n u (N(i \<mapsto> a j)) (insert j W) \<and> pager_moved t u)"
      using i fits [OF mt a] by (intro write_node_runs [OF env ht]) simp_all
    have "runs (write_node E j b) u (\<lambda>_ x. Q (j, sep) x)"
      if "holds E n u (N(i \<mapsto> a j)) (insert j W)" "pager_moved t u" for u
    proof -
      have mu: "pager_moved s u"
        using mt that(2) pager_moved_trans by blast
      have "runs (write_node E j b) u (\<lambda>_ x. holds E n x (N(i \<mapsto> a j, j \<mapsto> b)) (insert j W) \<and> pager_moved u x)"
        using fits [OF mu b] by (intro write_node_runs [OF env that(1)]) simp_all
      then show ?thesis
        by (rule runs_mono) (use Q j mu pager_moved_trans in blast)
    qed
    then have "runs (write_node E i (a j)) t (\<lambda>_ u. runs (write_node E j b) u (\<lambda>_ x. Q (j, sep) x))"
      by (intro runs_mono [OF w1]) blast
    then show ?thesis
      by simp
  qed
  then show ?thesis
    using runs_mono [OF allocate_runs [OF env h t]] by simp
qed

text \<open>What a tree has at a place between two bounds.\<close>

definition fitting :: "chain_codec \<Rightarrow> nat \<Rightarrow> nat \<Rightarrow> bytes option \<Rightarrow> bytes option \<Rightarrow> btree \<Rightarrow> bool" where
  "fitting cc m L lo hi t \<longleftrightarrow> ok lo hi t \<and> small cc L t \<and> wide m t \<and> distinct (pages t)"

text \<open>Children that can stand in the place of a tree: with its first leaf, its height and its entries.\<close>

definition replaces :: "chain_codec \<Rightarrow> nat \<Rightarrow> nat \<Rightarrow> bytes option \<Rightarrow> bytes option \<Rightarrow> btree \<Rightarrow> kids \<Rightarrow> bool" where
  "replaces cc m L lo hi t F \<longleftrightarrow> kids_ok lo hi F \<and> kids_small cc L F \<and> kids_slim m F \<and> distinct (kid_pages F) \<and>
     first_kid F = first_leaf t \<and> kheight F = height t \<and> kid_items F = items t"

lemma replaces_self: "fitting cc m L lo hi t \<Longrightarrow> slim m t \<Longrightarrow> replaces cc m L lo hi t (Last t)"
  by (simp add: fitting_def replaces_def)

lemma sorted_halves:
  fixes key :: "'a \<Rightarrow> bytes"
  assumes "sorted_wrt (<) (map key es)" and "mid < length es"
  shows "e \<in> set (take mid es) \<Longrightarrow> key e < key (es ! mid)" "e \<in> set (drop mid es) \<Longrightarrow> key (es ! mid) \<le> key e"
proof -
  have split: "sorted_wrt (<) (map key (take mid es @ es ! mid # drop (Suc mid) es))"
    using assms by (simp add: id_take_nth_drop [symmetric])
  then show "e \<in> set (take mid es) \<Longrightarrow> key e < key (es ! mid)"
    by (auto simp: sorted_wrt_append)
  show "e \<in> set (drop mid es) \<Longrightarrow> key (es ! mid) \<le> key e"
    using split assms(2) by (auto simp: sorted_wrt_append Cons_nth_drop_Suc [symmetric])
qed

lemma leaf_halves:
  assumes "fitting cc m L lo hi (TLeaf i es)" and "3 \<le> length es" and "4 \<le> m" and "i \<noteq> j"
  defines "mid \<equiv> length es div 2"
  shows "replaces cc m L lo hi (TLeaf i es)
    (More (TLeaf i (take mid es)) (le_key (es ! mid)) (Last (TLeaf j (drop mid es))))"
proof -
  have mid: "0 < mid" "mid < length es"
    using assms(2) by (simp_all add: mid_def)
  have srt: "sorted_wrt (<) (map le_key es)" and bnd: "\<And>e. e \<in> set es \<Longrightarrow> above lo (le_key e) \<and> below hi (le_key e)"
    and sm: "\<And>e. e \<in> set es \<Longrightarrow> small_entry cc L e" and len: "length es \<le> m"
    using assms(1) by (auto simp: fitting_def)
  have "es ! 0 \<in> set (take mid es)"
    using mid by (auto simp: in_set_conv_nth intro: exI [of _ 0])
  then have "beyond lo (le_key (es ! mid))"
    using sorted_halves(1) [OF srt mid(2), of "es ! 0"] bnd [of "es ! 0"] mid(2) beyond_trans(2) by (meson in_set_takeD)
  moreover have "sorted_wrt (<) (map le_key (take mid es))" "sorted_wrt (<) (map le_key (drop mid es))"
    using srt by (simp_all add: take_map [symmetric] drop_map [symmetric] sorted_wrt_take sorted_wrt_drop)
  moreover have "small_entry cc L (es ! mid)" "below hi (le_key (es ! mid))"
    using sm bnd mid(2) by simp_all
  moreover have "length (take mid es) < m" "length (drop mid es) < m"
    using len mid by simp_all
  ultimately show ?thesis
    using sorted_halves [OF srt mid(2)] bnd sm assms(4)
    by (auto simp: replaces_def small_entry_def dest: in_set_takeD in_set_dropD)
qed

lemma node_halves:
  assumes "fitting cc m L lo hi (TNode i ks)" and "3 \<le> length (ents ks)" and "j \<notin> set (pages (TNode i ks))"
    and cut: "kcut (length (ents ks) div 2) ks = (l, sep, r)"
  shows "replaces cc m L lo hi (TNode i ks) (More (TNode i l) sep (Last (TNode j r)))"
proof -
  let ?n = "length (ents ks) div 2"
  have n: "?n < length (ents ks)"
    using assms(2) by simp
  note c = kcut_ents [OF n cut]
  have "length (ents l) = ?n" "length (ents r) = length (ents ks) - Suc ?n"
    using c(2,5) by simp_all
  then have len: "ents l \<noteq> []" "ents r \<noteq> []" "length (ents l) < m" "length (ents r) < m"
    using assms(1,2) by (auto simp: fitting_def)
  have ks: "kids_ok lo hi (kappend l sep r)" "kids_small cc L (kappend l sep r)" "kids_slim m (kappend l sep r)"
    "distinct (kid_pages (kappend l sep r))" "j \<notin> set (kid_pages (kappend l sep r))" "i \<notin> set (kid_pages (kappend l sep r))" "i \<noteq> j"
    using assms(1,3) unfolding c(1) [symmetric] by (auto simp: fitting_def)
  have "kheight ks = max (kheight l) (kheight r)" "kid_items ks = kid_items l @ kid_items r" "first_kid ks = first_kid l"
    by (subst c(1); simp)+
  then show ?thesis
    using len ks by (simp add: replaces_def kappend_ok)
qed

lemma split_node_runs:
  assumes d: "dims E m L s" and h: "holds E (Suc n) s N W" and nd: "N (root_of c) = Some nd" and rep: "rep N nx c"
    and fit: "fitting (be_chain E) m L lo hi c" and W: "set (pages c) \<subseteq> W" and ns: "needs_split E s nd"
    and Q: "\<And>cl sep cr N' t. \<lbrakk>root_of cr \<notin> W; root_of cl = root_of c; holds E n t N' (insert (root_of cr) W); pager_moved s t;
        \<forall>i\<in>W - {root_of c}. N' i = N i; rep_kids N' nx (More cl sep (Last cr));
        replaces (be_chain E) m L lo hi c (More cl sep (Last cr));
        set (pages cl) \<union> set (pages cr) = insert (root_of cr) (set (pages c))\<rbrakk> \<Longrightarrow> Q (root_of cr, sep) t"
  shows "runs (split_node E (root_of c) nd) s Q"
proof (cases c)
  case (TLeaf i es)
  then obtain v where v: "nd = Leaf v es nx"
    using rep nd by auto
  have sm: "small_node (be_chain E) L nd" "length es \<le> m"
    using fit TLeaf v by (simp_all add: fitting_def)
  have three: "3 \<le> length es"
    using needs_split_count [OF d sm(1) ns] v by simp
  let ?mid = "length es div 2"
  let ?a = "\<lambda>j. Leaf (v + 1) (take ?mid es) j" and ?b = "Leaf 0 (drop ?mid es) nx"
  have fits: "node_fits E s (?a j)" "node_fits E s ?b" for j
    using sm v by (intro small_node_fits [OF d]; auto dest: in_set_takeD in_set_dropD)+
  have "Q (j, le_key (es ! ?mid)) t" if j: "j \<notin> W" and t: "holds E n t (N(i \<mapsto> ?a j, j \<mapsto> ?b)) (insert j W)" "pager_moved s t" for j t
  proof -
    let ?F = "More (TLeaf i (take ?mid es)) (le_key (es ! ?mid)) (Last (TLeaf j (drop ?mid es)))"
    have ij: "i \<noteq> j"
      using j W TLeaf by auto
    then have "replaces (be_chain E) m L lo hi c ?F"
      using leaf_halves [of "be_chain E" m L lo hi i es j] fit three d TLeaf by (simp add: dims_def)
    then show ?thesis
      using Q [of "TLeaf j (drop ?mid es)" "TLeaf i (take ?mid es)" t "N(i \<mapsto> ?a j, j \<mapsto> ?b)" "le_key (es ! ?mid)"] j t TLeaf ij
      by auto
  qed
  moreover have "i \<in> W" "?mid < length es"
    using W TLeaf three by auto
  ultimately show ?thesis
    using TLeaf v two_nodes_runs [where a = ?a and b = ?b and pt = PT_BTreeLeaf and Q = Q and sep = "le_key (es ! ?mid)",
        OF d h \<open>i \<in> W\<close> _ fits]
    by (simp add: split_node_def readable_type_def Let_def)
next
  case (TNode i ks)
  then obtain v where v: "nd = Internal v (ents ks) (last_id ks)" and rk: "rep_kids N nx ks"
    using rep nd by auto
  have sm: "small_node (be_chain E) L nd" "length (ents ks) \<le> m"
    using fit TNode v kids_small_ents by (auto simp: fitting_def)
  have three: "3 \<le> length (ents ks)"
    using needs_split_count [OF d sm(1) ns] v by simp
  let ?mid = "length (ents ks) div 2"
  have mid: "?mid < length (ents ks)"
    using three by simp
  obtain l sep r where cut: "kcut ?mid ks = (l, sep, r)"
    by (cases "kcut ?mid ks") auto
  note c = kcut_ents [OF mid cut]
  let ?a = "Internal (v + 1) (ents l) (last_id l)" and ?b = "Internal 0 (ents r) (last_id r)"
  have fits: "node_fits E s ?a" "node_fits E s ?b"
    using sm v c(2,5) by (intro small_node_fits [OF d]; auto dest: in_set_takeD in_set_dropD)+
  have "Q (j, sep) t" if j: "j \<notin> W" and t: "holds E n t (N(i \<mapsto> ?a, j \<mapsto> ?b)) (insert j W)" "pager_moved s t" for j t
  proof -
    let ?N = "N(i \<mapsto> ?a, j \<mapsto> ?b)"
    have ij: "i \<noteq> j" "j \<notin> set (pages (TNode i ks))" "i \<notin> set (kid_pages ks)"
      using j W TNode fit by (auto simp: fitting_def)
    then have "replaces (be_chain E) m L lo hi c (More (TNode i l) sep (Last (TNode j r)))"
      using node_halves [of "be_chain E" m L lo hi i ks j] fit three cut TNode by simp
    moreover have same: "rep_kids ?N nx ks"
      using ij by (intro rep_cong(2) [OF rk]) auto
    then have "rep_kids ?N (first_kid r) l" "rep_kids ?N nx r"
      unfolding c(1) [symmetric] by (subst (asm) c(1); simp add: kappend_rep)+
    moreover have "set (kid_pages ks) = set (kid_pages l) \<union> set (kid_pages r)"
      by (subst c(1)) simp
    ultimately show ?thesis
      using Q [of "TNode j r" "TNode i l" t ?N sep] j t TNode ij by auto
  qed
  moreover have "i \<in> W"
    using W TNode by simp
  ultimately show ?thesis
    using TNode v mid c(2-6) two_nodes_runs [where a = "\<lambda>_. ?a" and b = ?b and pt = PT_BTreeInternal and Q = Q and sep = sep,
        OF d h \<open>i \<in> W\<close> _ fits]
    by (simp add: split_node_def readable_type_def Let_def)
qed

end
