(* ===== verification/BTreePropagate.thy ===== *)
theory BTreePropagate
  imports BTreeInsert
begin

text \<open>
  Splits up to the root. A node that is written and turns out too large is split, its parent gets the
  new child and may be too large in turn; what is below the node under way is a search tree again.
\<close>

section \<open>The way to a leaf\<close>

primrec route :: "bytes \<Rightarrow> btree \<Rightarrow> page_id list" and kid_route :: "bytes \<Rightarrow> kids \<Rightarrow> page_id list" where
  "route k (TLeaf i es) = [i]"
| "route k (TNode i ks) = i # kid_route k ks"
| "kid_route k (Last t) = route k t"
| "kid_route k (More t s ks) = (if k < s then route k t else kid_route k ks)"

primrec leaf_of :: "bytes \<Rightarrow> page_id \<Rightarrow> btree \<Rightarrow> page_id \<times> leaf_entry list \<times> page_id"
  and kid_leaf_of :: "bytes \<Rightarrow> page_id \<Rightarrow> kids \<Rightarrow> page_id \<times> leaf_entry list \<times> page_id" where
  "leaf_of k nx (TLeaf i es) = (i, es, nx)"
| "leaf_of k nx (TNode i ks) = kid_leaf_of k nx ks"
| "kid_leaf_of k nx (Last t) = leaf_of k nx t"
| "kid_leaf_of k nx (More t s ks) = (if k < s then leaf_of k (first_kid ks) t else kid_leaf_of k nx ks)"

fun steps :: "page_id list \<Rightarrow> (page_id \<times> page_id) list" where
  "steps (a # b # xs) = steps (b # xs) @ [(a, b)]"
| "steps xs = []"

lemma kid_route_pick [simp]: "kid_route k ks = route k (pick k ks)"
  by (induction ks rule: ents.induct) auto

lemma kid_leaf_of_pick [simp]: "kid_leaf_of k nx ks = leaf_of k (pick_next k nx ks) (pick k ks)"
  by (induction ks rule: ents.induct) auto

lemma route_root: "\<exists>xs. route k t = root_of t # xs"
  by (cases t) auto

lemma steps_route [simp]: "steps (i # route k t) = steps (route k t) @ [(i, root_of t)]"
  using route_root [of k t] by auto

lemma btree_induct [case_names Leaf Node]:
  assumes "\<And>i es. P (TLeaf i es)" and "\<And>i ks. (\<And>t. t \<in> kid_set ks \<Longrightarrow> P t) \<Longrightarrow> P (TNode i ks)"
  shows "P t"
proof -
  have "P t \<and> True" "\<forall>t\<in>kid_set ks. P t" for ks
    by (induction t and ks) (auto intro: assms)
  then show ?thesis
    by simp
qed

section \<open>A subtree with a new version\<close>

definition updated ::
    "btree_env \<Rightarrow> nat \<Rightarrow> nat \<Rightarrow> bytes option \<Rightarrow> bytes option \<Rightarrow> (versioned \<Rightarrow> versioned) \<Rightarrow>
     page_id set \<Rightarrow> btree \<Rightarrow> page_id set \<Rightarrow> btree \<Rightarrow> bool" where
  "updated E m L lo hi f W t W' t' \<longleftrightarrow> fitting (be_chain E) m L lo hi t' \<and> root_of t' = root_of t \<and>
     first_leaf t' = first_leaf t \<and> height t' = height t \<and> W \<subseteq> W' \<and>
     set (pages t') \<subseteq> set (pages t) \<union> (W' - W) \<and> pairs (items t') = f (pairs (items t))"

lemma ksplice_first: "first_kid F = first_leaf (pick k ks) \<Longrightarrow> first_kid (ksplice k F ks) = first_kid ks"
  by (cases ks) auto

lemma splice_updated:
  assumes fit: "fitting (be_chain E) m L lo hi (TNode i ks)" and slim: "slim m (TNode i ks)"
    and W: "set (pages (TNode i ks)) \<subseteq> W"
    and up: "updated E m L (pick_lo k lo ks) (pick_hi k hi ks) (add_version k v x l) W (pick k ks) W1 c"
    and F: "replaces (be_chain E) m L (pick_lo k lo ks) (pick_hi k hi ks) c F"
    and FW: "set (kid_pages F) \<subseteq> set (pages c) \<union> (W' - W)" "W1 \<subseteq> W'" and one: "length (ents F) \<le> 1"
  shows "updated E m L lo hi (add_version k v x l) W (TNode i ks) W' (TNode i (ksplice k F ks))"
    and "ents F = [] \<Longrightarrow> slim m (TNode i (ksplice k F ks))"
proof -
  have kids: "kids_ok lo hi ks" "kids_small (be_chain E) L ks" "kids_slim m ks" "distinct (kid_pages ks)"
    "i \<notin> set (kid_pages ks)" "ents ks \<noteq> []" "length (ents ks) < m"
    using fit slim by (auto simp: fitting_def)
  have pgs: "set (kid_pages F) \<subseteq> set (pages (pick k ks)) \<union> (W' - W)"
    using up FW by (auto simp: updated_def)
  have "distinct (kid_pages (ksplice k F ks))"
    using F pgs W by (intro ksplice_distinct [OF kids(4)]) (auto simp: replaces_def)
  moreover have "i \<notin> set (kid_pages (ksplice k F ks))"
    using ksplice_pages [of k F ks] pgs W kids(5) pick_pages [of k ks] by fastforce
  moreover have "kids_ok lo hi (ksplice k F ks)" "kids_small (be_chain E) L (ksplice k F ks)" "kids_slim m (ksplice k F ks)"
    using F kids ksplice_ok ksplice_hereditary by (simp_all add: replaces_def)
  moreover have len: "length (ents (ksplice k F ks)) = length (ents ks) + length (ents F)"
    by (rule ksplice_length)
  ultimately have "fitting (be_chain E) m L lo hi (TNode i (ksplice k F ks))"
    using kids(6,7) one by (auto simp: fitting_def)
  moreover have "kheight (ksplice k F ks) = kheight ks"
    using F up by (intro ksplice_hereditary) (simp add: replaces_def updated_def)
  moreover have "first_kid (ksplice k F ks) = first_kid ks"
    using F up by (intro ksplice_first) (simp add: replaces_def updated_def)
  moreover have "pairs (kid_items (ksplice k F ks)) = add_version k v x l (pairs (kid_items ks))"
  proof -
    have "pairs (kid_items F) = add_version k v x l (pairs (items (pick k ks)))"
      using F up by (simp add: replaces_def updated_def)
    then show ?thesis
      unfolding ksplice_items(1) [of ks k] ksplice_items(2) [of k F ks]
      using kid_before_less [OF kids(1)] kid_behind_less [OF kids(1)] by (subst add_version_between) auto
  qed
  moreover have "W \<subseteq> W'" "set (kid_pages (ksplice k F ks)) \<subseteq> set (kid_pages ks) \<union> (W' - W)"
    using ksplice_pages [of k F ks] pgs pick_pages [of k ks] up FW(2) by (auto simp: updated_def)
  ultimately show "updated E m L lo hi (add_version k v x l) W (TNode i ks) W' (TNode i (ksplice k F ks))"
    by (auto simp: updated_def)
  show "slim m (TNode i (ksplice k F ks))" if "ents F = []"
    using that kids F len ksplice_hereditary(1) [of m ks F k] by (auto simp: replaces_def)
qed

lemma root_node_small:
  assumes "fitting cc m L lo hi t" and "rep N nx t" and "N (root_of t) = Some nd"
  shows "small_node cc L nd" "key_count nd \<le> m" "key_count nd < m \<Longrightarrow> slim m t"
  using assms kids_small_ents by (cases t; fastforce simp: fitting_def)+

section \<open>Propagation\<close>

definition store_node :: "btree_env \<Rightarrow> page_id \<Rightarrow> btree_node \<Rightarrow> (page_id \<times> page_id) list \<Rightarrow> unit tree_action" where
  "store_node E i nd path =
     pbind (write_node E i nd) (\<lambda>_ s. if needs_split E s nd then split_and_propagate E i nd path s else pret () s)"

lemma insert_into_parent_store:
  "insert_into_parent E left key right ((parent, child) # path) =
     pbind (read_node E parent) (\<lambda>n.
     case n of
       Leaf v es nx \<Rightarrow> pret ()
     | Internal v es r \<Rightarrow>
         (case place_child left key right es r of
            None \<Rightarrow> perr (TableCorruption ''missing_child'')
          | Some (es', r') \<Rightarrow> store_node E parent (Internal v es' r') path))"
  unfolding insert_into_parent.simps store_node_def Let_def by (rule refl)

lemma split_and_propagate_runs:
  "runs (split_and_propagate E i nd path) s Q \<longleftrightarrow>
     runs (split_node E i nd) s (\<lambda>(right, key) t.
       runs (if i = pb_root s then new_root E i key right else insert_into_parent E i key right path) t Q)"
proof -
  let ?f = "\<lambda>(right, key). if i = pb_root s then new_root E i key right else insert_into_parent E i key right path"
  have "runs (split_and_propagate E i nd path) s Q = runs (pbind (split_node E i nd) ?f) s Q"
    by (simp add: runs_def split_and_propagate.simps Let_def)
  then show ?thesis
    by (simp add: case_prod_beta' split_def)
qed

lemma store_node_runs:
  assumes d: "dims E m L s" and h: "holds E n s N W" and i: "i \<in> W"
    and nd: "small_node (be_chain E) L nd" "key_count nd \<le> m"
    and Q: "\<And>t. holds E n t (N(i \<mapsto> nd)) W \<Longrightarrow> pager_moved s t \<Longrightarrow>
        if needs_split E t nd then runs (split_and_propagate E i nd path) t Q else Q () t"
  shows "runs (store_node E i nd path) s Q"
proof -
  have "runs (write_node E i nd) s (\<lambda>_ t. holds E n t (N(i \<mapsto> nd)) W \<and> pager_moved s t)"
    using d by (intro write_node_runs [OF _ h i small_node_fits [OF d nd]]) (simp add: dims_def)
  then have "runs (write_node E i nd) s (\<lambda>_ t. if needs_split E t nd then runs (split_and_propagate E i nd path) t Q else Q () t)"
    by (rule runs_mono) (use Q in blast)
  moreover have "runs (\<lambda>s. if needs_split E s nd then split_and_propagate E i nd path s else pret () s) t Q =
      (if needs_split E t nd then runs (split_and_propagate E i nd path) t Q else Q () t)" for t
    by (simp add: runs_def pret_def)
  ultimately show ?thesis
    by (simp add: store_node_def)
qed

text \<open>What a change inside the subtree \<open>t\<close> leaves: of the pages that were there all but those of \<open>t\<close>.\<close>

definition outside ::
    "btree_env \<Rightarrow> nat \<Rightarrow> btree \<Rightarrow> paged_btree \<Rightarrow> (page_id \<rightharpoonup> btree_node) \<Rightarrow> page_id set \<Rightarrow>
     paged_btree \<Rightarrow> (page_id \<rightharpoonup> btree_node) \<Rightarrow> page_id set \<Rightarrow> bool" where
  "outside E n t s N W s' N' W' \<longleftrightarrow>
     holds E n s' N' W' \<and> pager_moved s s' \<and> (\<forall>i\<in>W - set (pages t). N' i = N i)"

lemma splice_rep:
  assumes rep: "rep N nx (TNode i ks)" and fit: "fitting cc m L lo hi (TNode i ks)" and W: "set (pages (TNode i ks)) \<subseteq> W"
    and same: "\<forall>j\<in>W - set (pages (pick k ks)). N' j = N j" and F: "rep_kids N' (pick_next k nx ks) F"
    and first: "first_kid F = first_leaf (pick k ks)"
  shows "rep_kids N' nx (ksplice k F ks)" and "\<exists>v. N' i = Some (Internal v (ents ks) (last_id ks))"
    and "\<forall>j\<in>W - set (pages (TNode i ks)). N' j = N j"
proof -
  have "i \<notin> set (pages (pick k ks))"
    using fit pick_pages [of k ks] by (auto simp: fitting_def)
  then show "\<exists>v. N' i = Some (Internal v (ents ks) (last_id ks))"
    using rep same W by simp
  show "rep_kids N' nx (ksplice k F ks)"
    using rep fit W same F first by (intro conjunct1 [OF ksplice_rep [of N]]) (auto simp: fitting_def)
  show "\<forall>j\<in>W - set (pages (TNode i ks)). N' j = N j"
    using same pick_pages [of k ks] by auto
qed

lemma propagate:
  assumes "dims E m L s" and "holds E (n + height t) s N W" and "rep N nx t" and "fitting (be_chain E) m L lo hi t"
    and "slim m t" and "set (pages t) \<subseteq> W" and "above lo k" and "below hi k"
    and "pb_root s \<notin> set (pages t) - {root_of t}"
    and "leaf_of k nx t = (i, es, lx)" and "\<forall>e\<in>set (leaf_insert k v x l es). small_entry (be_chain E) L e"
    and "\<And>s' N' W' t'. outside E n t s N W s' N' W' \<Longrightarrow> rep N' nx t' \<Longrightarrow> slim m t' \<Longrightarrow>
        updated E m L lo hi (add_version k v x l) W t W' t' \<Longrightarrow> Q () s'"
    and "\<And>s' N' W' t' nd. outside E n t s N W s' N' W' \<Longrightarrow> rep (N'(root_of t \<mapsto> nd)) nx t' \<Longrightarrow>
        updated E m L lo hi (add_version k v x l) W t W' t' \<Longrightarrow> runs (store_node E (root_of t) nd rest) s' Q"
  shows "runs (store_node E i (Leaf pv (leaf_insert k v x l es) lx) (steps (route k t) @ rest)) s Q"
  using assms
proof (induction t arbitrary: n nx lo hi rest Q rule: btree_induct)
  case (Leaf j es')
  let ?t = "TLeaf j (leaf_insert k v x l es)" and ?nd = "Leaf pv (leaf_insert k v x l es) lx"
  have j: "es' = es" "j = i" "lx = nx"
    using Leaf.prems(10) by simp_all
  have srt: "sorted_wrt (<) (map le_key es)"
    using Leaf.prems(4) j by (simp add: fitting_def)
  have "outside E n (TLeaf j es') s N W s N W"
    using Leaf.prems(2) by (simp add: outside_def)
  moreover have "rep (N(root_of (TLeaf j es') \<mapsto> ?nd)) nx ?t"
    using j by simp
  moreover have "updated E m L lo hi (add_version k v x l) W (TLeaf j es') W ?t"
    using Leaf.prems(4,5,7,8,11) j leaf_insert_sorted [OF srt] leaf_insert_pairs [OF srt] leaf_insert_length [of k v x l es]
    by (auto simp: updated_def fitting_def dest!: leaf_insert_keys)
  ultimately have "runs (store_node E (root_of (TLeaf j es')) ?nd rest) s Q"
    by (rule Leaf.prems(13))
  then show ?case
    using j by simp
next
  case (Node p ks)
  let ?c = "pick k ks" and ?nx = "pick_next k nx ks" and ?lo = "pick_lo k lo ks" and ?hi = "pick_hi k hi ks"
  let ?f = "add_version k v x l" and ?t = "TNode p ks"
  note d = Node.prems(1) and rep = Node.prems(3) and fit = Node.prems(4) and slim = Node.prems(5) and W = Node.prems(6)
  have kids: "kids_ok lo hi ks" "kids_small (be_chain E) L ks" "kids_slim m ks" "distinct (kid_pages ks)" "p \<notin> set (kid_pages ks)"
    using fit slim by (auto simp: fitting_def)
  have cW: "set (pages ?c) \<subseteq> W" "p \<in> W"
    using W pick_pages [of k ks] by auto
  have fit_c: "fitting (be_chain E) m L ?lo ?hi ?c" "slim m ?c"
    using kids pick_ok pick_hereditary slim_wide by (auto simp: fitting_def)
  have root_c: "root_of ?c \<noteq> pb_root s" "pb_root s \<notin> set (pages ?c) - {root_of ?c}" "root_of ?c \<noteq> p"
    using Node.prems(9) kids(5) pick_pages [of k ks] root_page [of ?c] by (auto simp del: root_page)
  have room: "holds E (Suc n + height ?c) s N W"
    using pick_hereditary(4) [of k ks] by (intro holds_less [OF Node.prems(2)]) simp
  have one: "Q () s'"
    if out: "outside E (Suc n) ?c s N W s' N' W'" and rc: "rep N' ?nx c" and "slim m c" and up: "updated E m L ?lo ?hi ?f W ?c W' c"
    for s' N' W' c
  proof (rule Node.prems(12))
    have F: "replaces (be_chain E) m L ?lo ?hi c (Last c)"
      using up \<open>slim m c\<close> by (intro replaces_self) (simp_all add: updated_def)
    show "updated E m L lo hi ?f W ?t W' (TNode p (ksplice k (Last c) ks))" "slim m (TNode p (ksplice k (Last c) ks))"
      using splice_updated [OF fit slim W up F, of W'] by auto
    have "rep_kids N' ?nx (Last c)" "first_kid (Last c) = first_leaf ?c" "\<forall>j\<in>W - set (pages ?c). N' j = N j"
      using rc up out by (simp_all add: updated_def outside_def)
    note r = splice_rep [OF rep fit W this(3,1,2)]
    have "root_of c = root_of ?c"
      using up by (simp add: updated_def)
    then show "rep N' nx (TNode p (ksplice k (Last c) ks))"
      using r(1,2) ksplice_Last [of c k ks] by simp
    show "outside E n ?t s N W s' N' W'"
      using out r(3) holds_less [of E "Suc n" s' N' W' n] by (simp add: outside_def)
  qed
  have two: "runs (store_node E (root_of ?c) nd ((p, root_of ?c) # rest)) s' Q"
    if out: "outside E (Suc n) ?c s N W s' N' W'" and rc: "rep (N'(root_of ?c \<mapsto> nd)) ?nx c" and up: "updated E m L ?lo ?hi ?f W ?c W' c"
    for s' N' W' c nd
  proof -
    let ?N = "N'(root_of ?c \<mapsto> nd)"
    have h: "holds E (Suc n) s' N' W'" and moved: "pager_moved s s'" and same: "\<forall>j\<in>W - set (pages ?c). N' j = N j"
      using out by (simp_all add: outside_def)
    have fc: "fitting (be_chain E) m L ?lo ?hi c" "root_of c = root_of ?c" "set (pages c) \<subseteq> W'" "W \<subseteq> W'"
      using up cW(1) by (auto simp: updated_def)
    have nd: "?N (root_of c) = Some nd"
      using fc(2) by simp
    note small = root_node_small [OF fc(1) rc nd]
    have rW: "root_of ?c \<in> W'"
      using fc(2,3) root_page [of c] by auto
    show ?thesis
    proof (rule store_node_runs [OF dims_pager_moved [OF d moved] h rW small(1,2)])
      fix u
      assume hu: "holds E (Suc n) u ?N W'" and mu: "pager_moved s' u"
      have du: "dims E m L u" and su: "pager_moved s u"
        using dims_pager_moved [OF d] pager_moved_trans [OF moved mu] by blast+
      show "if needs_split E u nd then runs (split_and_propagate E (root_of ?c) nd ((p, root_of ?c) # rest)) u Q else Q () u"
      proof (cases "needs_split E u nd")
        case False
        have "outside E (Suc n) ?c s N W u ?N W'"
          using hu su same by (auto simp: outside_def)
        then show ?thesis
          using False one [OF _ rc small(3) [OF no_split_count [OF du False]] up] by simp
      next
        case True
        have "runs (split_node E (root_of c) nd) u
          (\<lambda>(right, key) t. runs (insert_into_parent E (root_of ?c) key right ((p, root_of ?c) # rest)) t Q)"
        proof (rule split_node_runs [OF du hu nd rc fc(1,3) True], unfold prod.case)
          fix cl sep cr N2 t2
          let ?F = "More cl sep (Last cr)"
          let ?ks = "ksplice k ?F ks"
          assume cr: "root_of cr \<notin> W'" and cl: "root_of cl = root_of c" and h2: "holds E n t2 N2 (insert (root_of cr) W')"
            and m2: "pager_moved u t2" and s2: "\<forall>i\<in>W' - {root_of c}. N2 i = ?N i" and rF: "rep_kids N2 ?nx ?F"
            and F: "replaces (be_chain E) m L ?lo ?hi c ?F"
            and pF: "set (pages cl) \<union> set (pages cr) = insert (root_of cr) (set (pages c))"
          have same2: "\<forall>j\<in>W - set (pages ?c). N2 j = N j"
          proof
            fix j
            assume j: "j \<in> W - set (pages ?c)"
            then have "j \<noteq> root_of ?c" "j \<in> W'"
              using root_page [of ?c] fc(4) by (auto simp del: root_page)
            then show "N2 j = N j"
              using s2 same j fc(2) by simp
          qed
          have "first_kid ?F = first_leaf ?c"
            using F up by (simp add: replaces_def updated_def)
          note r = splice_rep [OF rep fit W same2 rF this]
          obtain v0 where v0: "N2 p = Some (Internal v0 (ents ks) (last_id ks))"
            using r(2) by blast
          have "set (kid_pages ?F) \<subseteq> set (pages c) \<union> (insert (root_of cr) W' - W)"
            using pF cr fc(4) by auto
          then have up2: "updated E m L lo hi ?f W ?t (insert (root_of cr) W') (TNode p ?ks)"
            using splice_updated(1) [OF fit slim W up F, of "insert (root_of cr) W'"] by auto
          have place: "place_child (root_of ?c) sep (root_of cr) (ents ks) (last_id ks) = Some (ents ?ks, last_id ?ks)"
            using place_child_splice [OF kids(4), of cl k sep cr] cl fc(2) by simp
          have "runs (store_node E p (Internal v0 (ents ?ks) (last_id ?ks)) rest) t3 Q"
            if "holds E n t3 N2 (insert (root_of cr) W')" "pager_moved t2 t3" for t3
          proof -
            have "outside E n ?t s N W t3 N2 (insert (root_of cr) W')"
              using that pager_moved_trans [OF su pager_moved_trans [OF m2 that(2)]] r(3) by (simp add: outside_def)
            moreover have "rep (N2(root_of ?t \<mapsto> Internal v0 (ents ?ks) (last_id ?ks))) nx (TNode p ?ks)"
              using r(1) up2 by (auto intro: rep_cong(2) simp: updated_def fitting_def)
            ultimately show ?thesis
              using Node.prems(13) up2 by (metis root_of.simps(2))
          qed
          then show "runs (insert_into_parent E (root_of ?c) sep (root_of cr) ((p, root_of ?c) # rest)) t2 Q"
            using runs_mono [OF read_node_runs [OF h2 v0]] place by (simp add: insert_into_parent_store)
        qed
        then show ?thesis
          using True root_c(1) pager_movedD(1) [OF su] fc(2) by (simp add: split_and_propagate_runs)
      qed
    qed
  qed
  have "runs (store_node E i (Leaf pv (leaf_insert k v x l es) lx) (steps (route k ?c) @ (p, root_of ?c) # rest)) s Q"
  proof (rule Node.IH [of ?c "Suc n" ?nx ?lo ?hi, OF pick_in d room pick_rep fit_c cW(1) _ _ root_c(2) _ Node.prems(11)])
    show "rep_kids N nx ks" "leaf_of k ?nx ?c = (i, es, lx)"
      using rep Node.prems(10) by simp_all
    show "above ?lo k" "below ?hi k"
      using pick_between [OF Node.prems(7,8), of ks] by simp_all
  qed (erule (3) one, erule (2) two)
  then show ?case
    by simp
qed

end
