(* ===== verification/BTreePaged.thy ===== *)
theory BTreePaged
  imports BTreePropagate
begin

text \<open>
  The B-tree on pages refines a map from keys to version chains: searching, reading, inserting,
  deleting and committing on the pages do to the map what they say, and every one of them succeeds
  while there is room.
\<close>

section \<open>The tree of a table\<close>

definition tree_on :: "btree_env \<Rightarrow> nat \<Rightarrow> nat \<Rightarrow> nat \<Rightarrow> paged_btree \<Rightarrow> btree \<Rightarrow> bool" where
  "tree_on E m L n s t \<longleftrightarrow> dims E m L s \<and>
     (\<exists>N W. holds E n s N W \<and> rep N 0 t \<and> root_of t = pb_root s \<and> fitting (be_chain E) m L None None t \<and> slim m t \<and>
        set (pages t) \<subseteq> W)"

text \<open>The table holds the map \<open>mp\<close>, in a tree of height at most \<open>h\<close>, with room for \<open>n\<close> more pages.\<close>

definition table_map :: "btree_env \<Rightarrow> nat \<Rightarrow> nat \<Rightarrow> nat \<Rightarrow> nat \<Rightarrow> paged_btree \<Rightarrow> versioned \<Rightarrow> bool" where
  "table_map E m L n h s mp \<longleftrightarrow> (\<exists>t. tree_on E m L n s t \<and> height t \<le> h \<and> pairs (items t) = mp)"

lemma holds_ids: "holds E n s N W \<Longrightarrow> i \<in> W \<Longrightarrow> 2 \<le> unat i"
  using pager_inv_page(1) by (fastforce simp: holds_def implements_def)

lemma tree_onE:
  assumes "tree_on E m L n s t"
  obtains N W where "dims E m L s" "holds E n s N W" "rep N 0 t" "root_of t = pb_root s" "fitting (be_chain E) m L None None t"
    "slim m t" "set (pages t) \<subseteq> W"
  using assms unfolding tree_on_def by blast

lemma tree_onI:
  assumes "dims E m L s" "holds E n s N W" "rep N 0 t" "root_of t = pb_root s" "fitting (be_chain E) m L None None t"
    "slim m t" "set (pages t) \<subseteq> W"
  shows "tree_on E m L n s t"
  using assms unfolding tree_on_def by blast

section \<open>Searching\<close>

lemma read_node_then:
  assumes "holds E n s N W" and "N i = Some nd" and "\<And>t. holds E n t N W \<Longrightarrow> pager_moved s t \<Longrightarrow> Q nd t"
  shows "runs (read_node E i) s Q"
  by (rule runs_mono [OF read_node_runs [OF assms(1,2)]]) (use assms(3) in blast)

lemma search_optimistic_loop_Suc:
  "search_optimistic_loop (Suc fuel) E k i path =
     fbind (flift (read_node E i)) (\<lambda>n.
       case n of
         Internal v es r \<Rightarrow>
           (let (c, ci) = next_child es r k in
            search_optimistic_loop fuel E k c
              (path @ [\<lparr>pe_page_id = i, pe_version = get_version n, pe_child_index = ci\<rparr>]))
       | Leaf v es nx \<Rightarrow>
           (let pos = either_pos (bsearch le_key k es) in
            flift (pret (i, pos,
              path @ [\<lparr>pe_page_id = i, pe_version = get_version n, pe_child_index = pos\<rparr>]))))"
  by (rule ext) simp

definition versions_seen :: "(page_id \<rightharpoonup> btree_node) \<Rightarrow> path_entry list \<Rightarrow> bool" where
  "versions_seen N path \<longleftrightarrow> (\<forall>e\<in>set path. \<exists>nd. N (pe_page_id e) = Some nd \<and> get_version nd = pe_version e)"

lemma versions_seen_parents: "versions_seen N path \<Longrightarrow> versions_seen N (tl (rev path))"
proof -
  have "set (tl (rev path)) \<subseteq> set (rev path)"
    by (cases "rev path") auto
  then show "versions_seen N path \<Longrightarrow> versions_seen N (tl (rev path))"
    by (auto simp: versions_seen_def)
qed

lemma search_optimistic_runs:
  assumes "holds E n s N W" and "rep N nx t" and "ok lo hi t" and "height t < fuel" and "leaf_of k nx t = (i, es, lx)"
    and "\<And>s' pes. holds E n s' N W \<Longrightarrow> pager_moved s s' \<Longrightarrow> map pe_page_id pes = route k t \<Longrightarrow> versions_seen N pes \<Longrightarrow>
       Q (i, either_pos (bsearch le_key k es), path @ pes) s'"
  shows "fruns (search_optimistic_loop fuel E k (root_of t) path) s Q"
  using assms
proof (induction t arbitrary: s nx lo hi fuel path rule: btree_induct)
  case (Leaf j es')
  obtain f where f: "fuel = Suc f"
    using Leaf.prems(4) by (cases fuel) auto
  obtain v where v: "N i = Some (Leaf v es lx)" "j = i"
    using Leaf.prems(2,5) by auto
  let ?e = "\<lparr>pe_page_id = i, pe_version = v, pe_child_index = either_pos (bsearch le_key k es)\<rparr>"
  have "Q (i, either_pos (bsearch le_key k es), path @ [?e]) s1" if "holds E n s1 N W" "pager_moved s s1" for s1
    using v that by (intro Leaf.prems(6)) (auto simp: versions_seen_def)
  then show ?case
    unfolding f search_optimistic_loop_Suc using v(2)
    by (simp del: search_optimistic_loop.simps) (rule read_node_then [OF Leaf.prems(1) v(1)], simp add: Let_def)
next
  case (Node p ks)
  obtain f where f: "fuel = Suc f"
    using Node.prems(4) by (cases fuel) auto
  let ?c = "pick k ks"
  obtain v where v: "N p = Some (Internal v (ents ks) (last_id ks))" and rk: "rep_kids N nx ks"
    using Node.prems(2) by auto
  have kok: "kids_ok lo hi ks"
    using Node.prems(3) by simp
  obtain ci where ci: "next_child (ents ks) (last_id ks) k = (root_of ?c, ci)"
    using next_child_pick [OF kok, of k] by (cases "next_child (ents ks) (last_id ks) k") auto
  let ?e = "\<lparr>pe_page_id = p, pe_version = v, pe_child_index = ci\<rparr>"
  have step: "fruns (search_optimistic_loop f E k (root_of ?c) (path @ [?e])) s1 Q"
    if s1: "holds E n s1 N W" "pager_moved s s1" for s1
  proof (rule Node.IH [OF pick_in s1(1) pick_rep [OF rk] pick_ok [OF kok]])
    show "height ?c < f"
      using Node.prems(4) pick_hereditary(4) [of k ks] by (simp add: f)
    show "leaf_of k (pick_next k nx ks) ?c = (i, es, lx)"
      using Node.prems(5) by simp
    fix s' pes
    assume pes: "holds E n s' N W" "pager_moved s1 s'" "map pe_page_id pes = route k ?c" "versions_seen N pes"
    have "Q (i, either_pos (bsearch le_key k es), path @ ?e # pes) s'"
      using pes v by (intro Node.prems(6) pager_moved_trans [OF s1(2)]) (auto simp: versions_seen_def)
    then show "Q (i, either_pos (bsearch le_key k es), (path @ [?e]) @ pes) s'"
      by simp
  qed
  show ?case
    unfolding f search_optimistic_loop_Suc using step ci
    by (simp del: search_optimistic_loop.simps) (rule read_node_then [OF Node.prems(1) v], simp)
qed

lemma validate_runs:
  assumes "holds E n s N W" and "versions_seen N es"
    and "\<And>t. holds E n t N W \<Longrightarrow> pager_moved s t \<Longrightarrow> Q True t"
  shows "runs (validate_entries E es) s Q"
  using assms
proof (induction es arbitrary: s)
  case (Cons e es)
  obtain nd where nd: "N (pe_page_id e) = Some nd" "get_version nd = pe_version e"
    using Cons.prems(2) by (auto simp: versions_seen_def)
  have "runs (validate_entries E es) t Q" if t: "holds E n t N W" "pager_moved s t" for t
    using Cons.prems(2,3) pager_moved_trans [OF t(2)] by (intro Cons.IH [OF t(1)]) (auto simp: versions_seen_def)
  then show ?case
    using nd(2) by (simp, intro read_node_then [OF Cons.prems(1) nd(1)]) simp
qed simp

section \<open>Inserting\<close>

lemma dims_env: "dims E m L s \<Longrightarrow> btree_env_ok E"
  by (simp add: dims_def)

text \<open>A new root over two trees.\<close>

lemma new_root_runs:
  assumes d: "dims E m L s" and h: "holds E (Suc n) s N W" and r: "rep_kids N 0 (More cl sep (Last cr))"
    and F: "replaces (be_chain E) m L None None t (More cl sep (Last cr))" and W: "set (pages cl) \<union> set (pages cr) \<subseteq> W"
    and Q: "\<And>s' t'. tree_on E m L n s' t' \<Longrightarrow> tree_moved s s' \<Longrightarrow> height t' = Suc (height t) \<Longrightarrow> items t' = items t \<Longrightarrow> Q () s'"
  shows "runs (new_root E (root_of cl) sep (root_of cr)) s Q"
proof -
  let ?F = "More cl sep (Last cr)"
  let ?nd = "Internal 0 (ents ?F) (last_id ?F)"
  note env = dims_env [OF d]
  have sm: "small_node (be_chain E) L ?nd" "key_count ?nd \<le> m"
    using F d by (simp_all add: replaces_def dims_def)
  have "Q () s3"
    if j: "j \<notin> W" and h3: "holds E n s3 (N(j \<mapsto> ?nd)) (insert j W)" and root: "pb_root s3 = j" and mv: "tree_moved s s3" for j s3
  proof (rule Q)
    have "rep (N(j \<mapsto> ?nd)) 0 (TNode j ?F)"
      using rep_cong(2) [OF r, of "N(j \<mapsto> ?nd)"] j W by (fastforce simp del: rep_kids.simps)
    moreover have "fitting (be_chain E) m L None None (TNode j ?F)" "slim m (TNode j ?F)"
      using F j W d by (auto simp: fitting_def replaces_def dims_def)
    ultimately show "tree_on E m L n s3 (TNode j ?F)"
      using W root by (intro tree_onI [OF dims_moved [OF d mv] h3]) auto
  qed (use F mv in \<open>auto simp: replaces_def\<close>)
  then have root: "runs (set_root_page_id E j) s2 Q"
    if "j \<notin> W" "holds E n s2 (N(j \<mapsto> ?nd)) (insert j W)" "pager_moved s s2" for j s2
    using that tree_moved_trans [OF pager_moved_tree [OF that(3)]]
    by (intro runs_mono [OF set_root_runs [OF env that(2)]]) (simp del: ents.simps last_id.simps)
  have wr: "runs (write_node E j ?nd) s1 (\<lambda>_ t. runs (set_root_page_id E j) t Q)"
    if "j \<notin> W" "holds E n s1 N (insert j W)" "pager_moved s s1" for j s1
  proof -
    have "node_fits E s1 ?nd"
      by (rule small_node_fits [OF dims_pager_moved [OF d that(3)] sm])
    then show ?thesis
      using root [OF that(1)] pager_moved_trans [OF that(3)]
      by (intro runs_mono [OF write_node_runs [OF env that(2)]]) auto
  qed
  have "runs (on_pager (allocate_page (be_pager E) PT_BTreeInternal)) s
      (\<lambda>j t. j \<notin> W \<and> 2 \<le> unat j \<and> holds E n t N (insert j W) \<and> pager_moved s t)"
    by (rule allocate_runs [OF env h]) (simp add: readable_type_def)
  from runs_mono [OF this] wr show ?thesis
    by (simp add: new_root_def)
qed

lemma store_root_runs:
  assumes d: "dims E m L s" and h: "holds E (n + 2) s N W" and rep: "rep (N(root_of t \<mapsto> nd)) 0 t"
    and fit: "fitting (be_chain E) m L None None t" and root: "root_of t = pb_root s" and W: "set (pages t) \<subseteq> W"
    and Q: "\<And>s' t'. tree_on E m L n s' t' \<Longrightarrow> tree_moved s s' \<Longrightarrow> height t' \<le> Suc (height t) \<Longrightarrow> items t' = items t \<Longrightarrow> Q () s'"
  shows "runs (store_node E (root_of t) nd []) s Q"
proof -
  let ?N = "N(root_of t \<mapsto> nd)"
  have nd: "?N (root_of t) = Some nd"
    by simp
  note small = root_node_small [OF fit rep nd]
  have rW: "root_of t \<in> W"
    using W by auto
  show ?thesis
  proof (rule store_node_runs [OF d h rW small(1,2)])
    fix u
    assume hu: "holds E (n + 2) u ?N W" and mu: "pager_moved s u"
    have du: "dims E m L u" and ru: "pb_root u = root_of t"
      using dims_pager_moved [OF d mu] pager_movedD(1) [OF mu] root by simp_all
    show "if needs_split E u nd then runs (split_and_propagate E (root_of t) nd []) u Q else Q () u"
    proof (cases "needs_split E u nd")
      case False
      have "tree_on E m L n u t"
        using hu holds_less [of E "n + 2" u ?N W n] ru small(3) [OF no_split_count [OF du False]]
        by (intro tree_onI [OF du _ rep _ fit _ W]) simp_all
      then show ?thesis
        using False Q pager_moved_tree [OF mu] by simp
    next
      case True
      have hu': "holds E (Suc (Suc n)) u ?N W"
        using hu by simp
      have "runs (split_node E (root_of t) nd) u (\<lambda>(right, key) x. runs (new_root E (root_of t) key right) x Q)"
      proof (rule split_node_runs [OF du hu' nd rep fit W True], unfold prod.case)
        fix cl sep cr N2 t2
        assume "root_of cl = root_of t" and h2: "holds E (Suc n) t2 N2 (insert (root_of cr) W)" and m2: "pager_moved u t2"
          and rF: "rep_kids N2 0 (More cl sep (Last cr))" and F: "replaces (be_chain E) m L None None t (More cl sep (Last cr))"
          and pF: "set (pages cl) \<union> set (pages cr) = insert (root_of cr) (set (pages t))"
        then show "runs (new_root E (root_of t) sep (root_of cr)) t2 Q"
          using new_root_runs [OF dims_pager_moved [OF du m2] h2 rF F, of Q] W Q
            tree_moved_trans [OF pager_moved_tree [OF pager_moved_trans [OF mu m2]]] by (simp add: subset_insertI2)
      qed
      then show ?thesis
        using True ru by (simp add: split_and_propagate_runs)
    qed
  qed
qed

lemma rep_leaf_of: "rep N nx t \<Longrightarrow> leaf_of k nx t = (i, es, lx) \<Longrightarrow> \<exists>v. N i = Some (Leaf v es lx)"
proof (induction t arbitrary: nx rule: btree_induct)
  case (Node p ks)
  have "rep_kids N nx ks" "leaf_of k (pick_next k nx ks) (pick k ks) = (i, es, lx)"
    using Node.prems by simp_all
  then show ?case
    using Node.IH [OF pick_in pick_rep] by blast
qed auto

lemma leaf_of_get:
  "ok lo hi t \<Longrightarrow> leaf_of k nx t = (i, es, lx) \<Longrightarrow>
     bt_get (pairs (items t)) k = bt_get (pairs es) k \<and> sorted_wrt (<) (map le_key es) \<and> set es \<subseteq> set (items t)"
proof (induction t arbitrary: nx lo hi rule: btree_induct)
  case (Node p ks)
  have kok: "kids_ok lo hi ks"
    using Node.prems(1) by simp
  have "bt_get (pairs (kid_items ks)) k = bt_get (pairs (items (pick k ks))) k"
    unfolding ksplice_items(1) [of ks k] using kid_before_less [OF kok] kid_behind_less [OF kok] by (rule get_between)
  moreover have "set (items (pick k ks)) \<subseteq> set (kid_items ks)"
    unfolding ksplice_items(1) [of ks k] by auto
  moreover have "leaf_of k (pick_next k nx ks) (pick k ks) = (i, es, lx)"
    using Node.prems(2) by simp
  from Node.IH [OF pick_in pick_ok [OF kok] this]
  have "bt_get (pairs (items (pick k ks))) k = bt_get (pairs es) k \<and> sorted_wrt (<) (map le_key es) \<and> set es \<subseteq> set (items (pick k ks))" .
  ultimately show ?case
    by auto
qed auto

lemma small_items: "small cc L t \<Longrightarrow> e \<in> set (items t) \<Longrightarrow> small_entry cc L e"
  "kids_small cc L ks \<Longrightarrow> e \<in> set (kid_items ks) \<Longrightarrow> small_entry cc L e"
  by (induction t and ks) auto

lemma leaf_insert_small:
  assumes "sorted_wrt (<) (map le_key es)" and "\<forall>e\<in>set es. small_entry cc L e"
    and "\<And>c. bt_get (add_version k v x l (pairs es)) k = Some c \<Longrightarrow> small_entry cc L \<lparr>le_key = k, le_chain = c\<rparr>"
  shows "\<forall>e\<in>set (leaf_insert k v x l es). small_entry cc L e"
proof
  fix e
  assume e: "e \<in> set (leaf_insert k v x l es)"
  show "small_entry cc L e"
  proof (cases "e \<in> set es")
    case False
    then have k: "le_key e = k"
      using leaf_insert_keys [OF e] by simp
    have "(le_key e, le_chain e) \<in> set (pairs (leaf_insert k v x l es))"
      using e by (auto simp: set_pairs)
    then have "bt_get (add_version k v x l (pairs es)) k = Some (le_chain e)"
      using leaf_insert_sorted [OF assms(1), of k v x l] leaf_insert_pairs [OF assms(1), of k v x l] k
      by (metis bt_get_Some_iff bt_wf_pairs)
    then show ?thesis
      using assms(3) k by (metis leaf_entry.surjective old.unit.exhaust)
  qed (use assms(2) in simp)
qed

lemma old_style_steps: "old_style_path path = steps (map pe_page_id path)"
proof (induction path)
  case (Cons a path)
  then show ?case
    by (cases path) (simp_all add: old_style_path_def)
qed (simp add: old_style_path_def)

lemma row_count_runs:
  assumes "tree_on E m L n s t" and "\<And>s'. tree_on E m L n s' t \<Longrightarrow> Q () s'"
  shows "runs (set_row_count E c) s Q"
proof -
  obtain N W where s: "dims E m L s" "holds E n s N W" "rep N 0 t" "root_of t = pb_root s" "fitting (be_chain E) m L None None t"
    "slim m t" "set (pages t) \<subseteq> W"
    using assms(1) by (rule tree_onE)
  have "Q () s'" if "holds E n s' N W" "pb_root s' = pb_root s" "tree_moved s s'" for s'
    using s that dims_moved [OF s(1) that(3)] by (intro assms(2) tree_onI) simp_all
  then show ?thesis
    by (intro runs_mono [OF set_row_count_runs [OF dims_env [OF s(1)] s(2)]]) auto
qed

lemma insert_loop_runs:
  assumes on: "tree_on E m L (n + height t + 2) s t" and fuel: "height t < fuel"
    and new: "\<And>c. bt_get (add_version k v x l (pairs (items t))) k = Some c \<Longrightarrow> small_entry (be_chain E) L \<lparr>le_key = k, le_chain = c\<rparr>"
    and Q: "\<And>s' t'. tree_on E m L n s' t' \<Longrightarrow> height t' \<le> Suc (height t) \<Longrightarrow>
      pairs (items t') = add_version k v x l (pairs (items t)) \<Longrightarrow> Q () s'"
  shows "fruns (insert_loop (Suc r) fuel E k v x l) s Q"
proof -
  obtain N W where s: "dims E m L s" "holds E (n + height t + 2) s N W" "rep N 0 t" "root_of t = pb_root s"
    "fitting (be_chain E) m L None None t" "slim m t" "set (pages t) \<subseteq> W"
    using on by (rule tree_onE)
  obtain i es lx where leaf: "leaf_of k 0 t = (i, es, lx)"
    by (cases "leaf_of k 0 t") auto
  obtain pv where pv: "N i = Some (Leaf pv es lx)"
    using rep_leaf_of [OF s(3) leaf] by blast
  have tok: "ok None None t" "small (be_chain E) L t"
    using s(5) by (simp_all add: fitting_def)
  note lg = leaf_of_get [OF tok(1) leaf]
  have sm: "\<forall>e\<in>set (leaf_insert k v x l es). small_entry (be_chain E) L e"
  proof (rule leaf_insert_small)
    show "\<forall>e\<in>set es. small_entry (be_chain E) L e"
      using lg small_items(1) [OF tok(2)] by blast
    show "small_entry (be_chain E) L \<lparr>le_key = k, le_chain = c\<rparr>" if "bt_get (add_version k v x l (pairs es)) k = Some c" for c
      using new that lg by (simp add: add_version_def)
  qed (use lg in simp)
  let ?nd = "Leaf (pv + 1) (leaf_insert k v x l es) lx"
  let ?count = "case bsearch le_key k es of Inl _ \<Rightarrow> increment_row_count E | Inr _ \<Rightarrow> pret ()"
  have counted: "runs ?count s' Q"
    if "tree_on E m L n s' t'" "height t' \<le> Suc (height t)" "pairs (items t') = add_version k v x l (pairs (items t))" for s' t'
  proof -
    have "runs (set_row_count E c) s' Q" for c
      using row_count_runs [OF that(1)] Q that(2,3) by blast
    then have "runs (increment_row_count E) s' Q"
      by (simp add: runs_def increment_row_count_def)
    then show ?thesis
      using Q [OF that] by (auto split: sum.split)
  qed
  have stored: "runs (store_node E i ?nd (steps (route k t))) s1 (\<lambda>_ t. runs ?count t Q)"
    if h1: "holds E (n + height t + 2) s1 N W" and m1: "pager_moved s s1" for s1
  proof -
    have d1: "dims E m L s1" "pb_root s1 = root_of t"
      using dims_pager_moved [OF s(1) m1] pager_movedD(1) [OF m1] s(4) by simp_all
    have h1': "holds E ((n + 2) + height t) s1 N W"
      using h1 by (simp add: add.commute add.left_commute)
    have "runs (store_node E i ?nd (steps (route k t) @ [])) s1 (\<lambda>_ t. runs ?count t Q)"
    proof (rule propagate [OF d1(1) h1' s(3,5,6,7) _ _ _ leaf sm])
      fix s' N' W' t'
      assume out: "outside E (n + 2) t s1 N W s' N' W'" and up: "updated E m L None None (add_version k v x l) W t W' t'"
      have d': "dims E m L s'" and root': "root_of t' = pb_root s'" and W': "set (pages t') \<subseteq> W'"
        using out up d1 dims_pager_moved [OF d1(1)] pager_movedD(1) [of s1 s'] s(7) by (auto simp: outside_def updated_def)
      have t': "fitting (be_chain E) m L None None t'" "height t' = height t" "root_of t' = root_of t"
        "pairs (items t') = add_version k v x l (pairs (items t))"
        using up by (simp_all add: updated_def)
      show "runs ?count s' Q" if "rep N' 0 t'" "slim m t'"
      proof -
        have "holds E n s' N' W'"
          using out holds_less [of E "n + 2" s' N' W' n] by (simp add: outside_def)
        then show ?thesis
          using that d' root' W' t' by (intro counted [of s' t'] tree_onI) simp_all
      qed
      show "runs (store_node E (root_of t) nd []) s' (\<lambda>_ t. runs ?count t Q)" if "rep (N'(root_of t \<mapsto> nd)) 0 t'" for nd
        unfolding t'(3) [symmetric]
      proof (rule store_root_runs [OF d' _ _ t'(1) root' W'])
        show "holds E (n + 2) s' N' W'" "rep (N'(root_of t' \<mapsto> nd)) 0 t'"
          using out that t'(3) by (simp_all add: outside_def)
        show "runs ?count s2 Q"
          if "tree_on E m L n s2 t2" "height t2 \<le> Suc (height t')" "items t2 = items t'" for s2 t2
          using that t' by (intro counted [of s2 t2]) simp_all
      qed
    qed (use d1 in simp_all)
    then show ?thesis
      by simp
  qed
  have tail: "runs (pbind (write_node E i ?nd) (\<lambda>_.
      pbind (\<lambda>s. if needs_split E s ?nd then split_and_propagate E i ?nd (old_style_path path) s else pret () s) (\<lambda>_. ?count))) s1 Q"
    if "holds E (n + height t + 2) s1 N W" "pager_moved s s1" "map pe_page_id path = route k t" for s1 path
    using stored [OF that(1,2)] unfolding old_style_steps that(3) by (simp add: store_node_def)
  have found: "fruns (search_optimistic fuel E k) s Q'"
    if "\<And>s' pes. holds E (n + height t + 2) s' N W \<Longrightarrow> pager_moved s s' \<Longrightarrow> map pe_page_id pes = route k t \<Longrightarrow> versions_seen N pes \<Longrightarrow>
       Q' (i, either_pos (bsearch le_key k es), pes) s'" for Q'
  proof -
    have "fruns (search_optimistic_loop fuel E k (root_of t) []) s Q'"
      using that by (intro search_optimistic_runs [OF s(2,3) tok(1) fuel leaf]) simp
    then show ?thesis
      using s(4) by (simp add: fruns_def search_optimistic_def)
  qed
  show ?thesis
    unfolding insert_loop.simps fruns_fbind fruns_flift
  proof (rule found, unfold prod.case fruns_fbind fruns_flift validate_optimistic_path_def, rule validate_runs)
    fix s1 s2 :: paged_btree and pes :: "path_entry list"
    assume p: "pager_moved s s1" "map pe_page_id pes = route k t" and h2: "holds E (n + height t + 2) s2 N W" "pager_moved s1 s2"
    have m2: "pager_moved s s2"
      using p(1) h2(2) pager_moved_trans by blast
    show "fruns (if \<not> True then if r = 0 then flift (perr TableOther) else insert_loop r fuel E k v x l
        else fbind (flift (read_node E i)) (\<lambda>n.
       case n of
         Internal pv es rc \<Rightarrow>
           if r = 0 then flift (perr (TableCorruption ''node_type_changed'')) else insert_loop r fuel E k v x l
       | Leaf pv es nx \<Rightarrow>
           let n' = Leaf (pv + 1) (leaf_insert k v x l es) nx in
           flift (pbind (write_node E i n') (\<lambda>_.
             pbind (\<lambda>s. if needs_split E s n' then split_and_propagate E i n' (old_style_path pes) s else pret () s) (\<lambda>_.
             case bsearch le_key k es of Inl _ \<Rightarrow> increment_row_count E | Inr _ \<Rightarrow> pret ()))))) s2 Q"
      unfolding not_True_eq_False if_False fruns_fbind fruns_flift
      by (rule read_node_then [OF h2(1) pv])
        (use tail p(2) pager_moved_trans [OF m2] in \<open>simp add: Let_def del: runs_pbind\<close>)
  qed (simp_all add: versions_seen_parents)
qed

end
