(* ===== verification/BTreeOps.thy ===== *)
theory BTreeOps
  imports BTreePaged
begin

text \<open>
  Reading, deleting and committing on the B-tree on pages. Deleting and committing change chains in
  place, in the leaf of a key or in all leaves in turn; neither moves a key.
\<close>

section \<open>Reading\<close>

lemma search_path_loop_Suc:
  "search_path_loop (Suc fuel) E k i path =
     fbind (flift (read_node E i)) (\<lambda>n.
       case n of
         Internal v es r \<Rightarrow>
           (let c = fst (next_child es r k) in search_path_loop fuel E k c (path @ [(i, c)]))
       | Leaf v es nx \<Rightarrow> flift (pret (i, either_pos (bsearch le_key k es), path)))"
  by (rule ext) simp

lemma search_path_runs:
  assumes "holds E n s N W" and "rep N nx t" and "ok lo hi t" and "height t < fuel" and "leaf_of k nx t = (i, es, lx)"
    and "\<And>s' path'. holds E n s' N W \<Longrightarrow> pager_moved s s' \<Longrightarrow> Q (i, either_pos (bsearch le_key k es), path') s'"
  shows "fruns (search_path_loop fuel E k (root_of t) path) s Q"
  using assms
proof (induction t arbitrary: s nx lo hi fuel path rule: btree_induct)
  case (Leaf j es')
  obtain f where f: "fuel = Suc f"
    using Leaf.prems(4) by (cases fuel) auto
  obtain v where v: "N i = Some (Leaf v es lx)" "j = i"
    using Leaf.prems(2,5) by auto
  show ?case
    unfolding f search_path_loop_Suc using v(2) Leaf.prems(6)
    by (simp del: search_path_loop.simps) (rule read_node_then [OF Leaf.prems(1) v(1)], simp)
next
  case (Node p ks)
  obtain f where f: "fuel = Suc f"
    using Node.prems(4) by (cases fuel) auto
  let ?c = "pick k ks"
  obtain v where v: "N p = Some (Internal v (ents ks) (last_id ks))" and rk: "rep_kids N nx ks"
    using Node.prems(2) by auto
  have kok: "kids_ok lo hi ks"
    using Node.prems(3) by simp
  have "fruns (search_path_loop f E k (root_of ?c) path') s1 Q"
    if s1: "holds E n s1 N W" "pager_moved s s1" for s1 path'
    using Node.prems(4-6) pick_hereditary(4) [of k ks] f pager_moved_trans [OF s1(2)]
    by (intro Node.IH [OF pick_in s1(1) pick_rep [OF rk] pick_ok [OF kok]]) auto
  then show ?case
    unfolding f search_path_loop_Suc using next_child_pick [OF kok, of k]
    by (simp del: search_path_loop.simps) (rule read_node_then [OF Node.prems(1) v], simp add: Let_def)
qed

lemma bsearch_get:
  assumes "sorted_wrt (<) (map le_key es)" and "pos = either_pos (bsearch le_key k es)"
  shows "bt_get (pairs es) k = (if pos < length es \<and> le_key (es ! pos) = k then Some (le_chain (es ! pos)) else None)"
  using assms(1) unfolding assms(2)
proof (induction es)
  case (Cons e es)
  have "bt_get (pairs es) k = None" if "k < le_key e"
    using that Cons.prems by (intro bt_get_outside) (fastforce simp: set_pairs)
  then show ?case
    using Cons by (auto simp: bsearch_Cons either_pos_def split: sum.splits if_splits)
qed simp

text \<open>
  What a reader gets: the version it sees, unless that is empty; bytes that look like a reference are
  left aside here.
\<close>

definition plain_value :: "bytes \<Rightarrow> bool" where
  "plain_value d \<longleftrightarrow> (hd d = 1 \<or> hd d = 2 \<longrightarrow> (\<exists>e. ref_decode d = Inl e))"

definition answer :: "versioned \<Rightarrow> bytes \<Rightarrow> lsn \<Rightarrow> bytes option" where
  "answer mp k l = (case read_at mp k l of None \<Rightarrow> None | Some d \<Rightarrow> if d = [] then None else Some d)"

lemma value_in_leaf_runs:
  assumes "sorted_wrt (<) (map le_key es)" and "bt_get mp k = bt_get (pairs es) k"
    and "\<And>d. read_at mp k l = Some d \<Longrightarrow> d \<noteq> [] \<Longrightarrow> plain_value d"
  shows "fruns (value_in_node fuel E k l (either_pos (bsearch le_key k es)) (Leaf v es lx)) s Q = Q (answer mp k l) s"
proof -
  let ?pos = "either_pos (bsearch le_key k es)"
  note got = bsearch_get [OF assms(1) refl, of k]
  show ?thesis
  proof (cases "?pos < length es \<and> le_key (es ! ?pos) = k")
    case True
    then have r: "read_at mp k l = find_visible_inline (at_lsn l) (le_chain (es ! ?pos))"
      using got assms(2) by (simp add: read_at_def)
    show ?thesis
      using True assms(3) unfolding r answer_def value_in_node_def
      by (cases "find_visible_inline (at_lsn l) (le_chain (es ! ?pos))") (auto simp: resolve_value_def plain_value_def)
  next
    case False
    then have "answer mp k l = None"
      using got assms(2) by (auto simp: answer_def read_at_def)
    then show ?thesis
      using False by (auto simp: value_in_node_def)
  qed
qed

lemma search_with_path_root: "root_of t = pb_root s \<Longrightarrow> fruns (search_with_path fuel E k) s Q = fruns (search_path_loop fuel E k (root_of t) []) s Q"
  by (simp add: fruns_def search_with_path_def)

lemma tree_on_read:
  assumes "dims E m L s" "holds E n s N W" "rep N 0 t" "root_of t = pb_root s" "fitting (be_chain E) m L None None t"
    "slim m t" "set (pages t) \<subseteq> W" "holds E n' s' N W" "pager_moved s s'"
  shows "tree_on E m L n' s' t"
  using assms dims_pager_moved [OF assms(1,9)] pager_movedD(1) [OF assms(9)] by (intro tree_onI) simp_all

lemma get_internal_runs:
  assumes "tree_on E m L n s t" and "height t < fuel"
    and plain: "\<And>d. read_at (pairs (items t)) k l = Some d \<Longrightarrow> d \<noteq> [] \<Longrightarrow> plain_value d"
    and Q: "\<And>s'. tree_on E m L n s' t \<Longrightarrow> Q (answer (pairs (items t)) k l) s'"
  shows "fruns (get_internal fuel E k l) s Q"
proof -
  obtain N W where s: "dims E m L s" "holds E n s N W" "rep N 0 t" "root_of t = pb_root s" "fitting (be_chain E) m L None None t"
    "slim m t" "set (pages t) \<subseteq> W"
    using assms(1) by (rule tree_onE)
  obtain i es lx where leaf: "leaf_of k 0 t = (i, es, lx)"
    by (cases "leaf_of k 0 t") auto
  obtain v where v: "N i = Some (Leaf v es lx)"
    using rep_leaf_of [OF s(3) leaf] by blast
  have tok: "ok None None t"
    using s(5) by (simp add: fitting_def)
  note lg = leaf_of_get [OF tok leaf]
  let ?pos = "either_pos (bsearch le_key k es)"
  have "runs (read_node E i) s1 (\<lambda>nd u. fruns (value_in_node fuel E k l ?pos nd) u Q)"
    if s1: "holds E n s1 N W" "pager_moved s s1" for s1
  proof (rule read_node_then [OF s1(1) v])
    show "fruns (value_in_node fuel E k l ?pos (Leaf v es lx)) s2 Q" if "holds E n s2 N W" "pager_moved s1 s2" for s2
      using lg plain Q tree_on_read [OF s that(1) pager_moved_trans [OF s1(2) that(2)]]
      by (subst value_in_leaf_runs [of es "pairs (items t)"]) auto
  qed
  then have "fruns (search_path_loop fuel E k (root_of t) []) s
      (\<lambda>(i, pos, path) u. runs (read_node E i) u (\<lambda>nd u. fruns (value_in_node fuel E k l pos nd) u Q))"
    by (intro search_path_runs [OF s(2,3) tok assms(2) leaf]) simp
  then show ?thesis
    by (simp add: get_internal_def paged_search_def search_with_path_root [OF s(4)] case_prod_beta')
qed

section \<open>Changing chains in place\<close>

definition map_chains :: "(bytes \<Rightarrow> version_chain \<Rightarrow> version_chain) \<Rightarrow> leaf_entry list \<Rightarrow> leaf_entry list" where
  "map_chains f es = map (\<lambda>e. e\<lparr>le_chain := f (le_key e) (le_chain e)\<rparr>) es"

primrec tmap :: "(bytes \<Rightarrow> version_chain \<Rightarrow> version_chain) \<Rightarrow> btree \<Rightarrow> btree"
  and kmap :: "(bytes \<Rightarrow> version_chain \<Rightarrow> version_chain) \<Rightarrow> kids \<Rightarrow> kids" where
  "tmap f (TLeaf i es) = TLeaf i (map_chains f es)"
| "tmap f (TNode i ks) = TNode i (kmap f ks)"
| "kmap f (Last t) = Last (tmap f t)"
| "kmap f (More t s ks) = More (tmap f t) s (kmap f ks)"

lemma map_chains_simps [simp]:
  "map_chains f [] = []" "map_chains f (es @ es') = map_chains f es @ map_chains f es'"
  "length (map_chains f es) = length es" "map le_key (map_chains f es) = map le_key es"
  by (simp_all add: map_chains_def comp_def)

lemma map_chains_keys: "e \<in> set (map_chains f es) \<Longrightarrow> \<exists>e'\<in>set es. le_key e = le_key e'"
  by (auto simp: map_chains_def)

lemma pairs_map_chains [simp]: "pairs (map_chains f es) = bt_map f (pairs es)"
  by (simp add: pairs_def map_chains_def bt_map_def)

lemma tmap_root [simp]: "root_of (tmap f t) = root_of t"
  by (cases t) auto

lemma kmap_ents [simp]: "ents (kmap f ks) = ents ks" "last_id (kmap f ks) = last_id ks"
  by (induction ks rule: ents.induct) auto

lemma tmap_first [simp]: "first_leaf (tmap f t) = first_leaf t" "first_kid (kmap f ks) = first_kid ks"
  by (induction t and ks) auto

lemma tmap_shape [simp]:
  "pages (tmap f t) = pages t" "kid_pages (kmap f ks) = kid_pages ks"
  by (induction t and ks) auto

lemma tmap_height [simp]: "height (tmap f t) = height t" "kheight (kmap f ks) = kheight ks"
  by (induction t and ks) auto

lemma tmap_items [simp]: "items (tmap f t) = map_chains f (items t)" "kid_items (kmap f ks) = map_chains f (kid_items ks)"
  by (induction t and ks) auto

lemma tmap_slim [simp]: "slim m (tmap f t) = slim m t" "kids_slim m (kmap f ks) = kids_slim m ks"
  by (induction t and ks) auto

lemma tmap_ok [simp]: "ok lo hi (tmap f t) = ok lo hi t" "kids_ok lo hi (kmap f ks) = kids_ok lo hi ks"
  by (induction t and ks arbitrary: lo hi and lo hi) (auto simp: map_chains_def comp_def)

lemma tmap_small:
  "small cc L t \<Longrightarrow> \<forall>e\<in>set (map_chains f (items t)). small_entry cc L e \<Longrightarrow> small cc L (tmap f t)"
  "kids_small cc L ks \<Longrightarrow> \<forall>e\<in>set (map_chains f (kid_items ks)). small_entry cc L e \<Longrightarrow> kids_small cc L (kmap f ks)"
  by (induction t and ks) auto

lemma tmap_id: "\<forall>e\<in>set (items t). f (le_key e) (le_chain e) = le_chain e \<Longrightarrow> tmap f t = t"
  "\<forall>e\<in>set (kid_items ks). f (le_key e) (le_chain e) = le_chain e \<Longrightarrow> kmap f ks = ks"
  by (induction t and ks) (auto simp: map_chains_def intro: map_idI)

lemma tmap_fitting:
  assumes "fitting cc m L lo hi t" and "slim m t" and "\<forall>e\<in>set (map_chains f (items t)). small_entry cc L e"
  shows "fitting cc m L lo hi (tmap f t)"
  using assms tmap_small(1) slim_wide [of m "tmap f t"] by (simp add: fitting_def)

text \<open>The leaves in order, each with the leaf behind it.\<close>

primrec leaves :: "page_id \<Rightarrow> btree \<Rightarrow> (page_id \<times> leaf_entry list \<times> page_id) list"
  and kid_leaves :: "page_id \<Rightarrow> kids \<Rightarrow> (page_id \<times> leaf_entry list \<times> page_id) list" where
  "leaves nx (TLeaf i es) = [(i, es, nx)]"
| "leaves nx (TNode i ks) = kid_leaves nx ks"
| "kid_leaves nx (Last t) = leaves nx t"
| "kid_leaves nx (More t s ks) = leaves (first_kid ks) t @ kid_leaves nx ks"

fun linked :: "page_id \<Rightarrow> (page_id \<times> leaf_entry list \<times> page_id) list \<Rightarrow> page_id \<Rightarrow> bool" where
  "linked i [] nx \<longleftrightarrow> i = nx"
| "linked i ((j, es, lx) # ls) nx \<longleftrightarrow> i = j \<and> linked lx ls nx"

lemma linked_append: "linked i ls j \<Longrightarrow> linked j ls' nx \<Longrightarrow> linked i (ls @ ls') nx"
  by (induction i ls j rule: linked.induct) auto

lemma leaves_linked: "linked (first_leaf t) (leaves nx t) nx" "linked (first_kid ks) (kid_leaves nx ks) nx"
  by (induction t and ks arbitrary: nx and nx) (auto intro: linked_append)

lemma leaves_pages: "(i, es, lx) \<in> set (leaves nx t) \<Longrightarrow> i \<in> set (pages t)"
  "(i, es, lx) \<in> set (kid_leaves nx ks) \<Longrightarrow> i \<in> set (kid_pages ks)"
  by (induction t and ks arbitrary: nx and nx) auto

lemma leaves_distinct:
  "distinct (pages t) \<Longrightarrow> distinct (map fst (leaves nx t))" "distinct (kid_pages ks) \<Longrightarrow> distinct (map fst (kid_leaves nx ks))"
proof (induction t and ks arbitrary: nx and nx)
  case (More t s ks)
  have "i \<notin> set (kid_pages ks)" if "(i, es, lx) \<in> set (leaves (first_kid ks) t)" for i es lx
    using leaves_pages(1) [OF that] More.prems by auto
  then have "set (map fst (leaves (first_kid ks) t)) \<inter> set (map fst (kid_leaves nx ks)) = {}"
    using leaves_pages(2) [of _ _ _ nx ks] by fastforce
  then show ?case
    using More by simp
qed auto

lemma leaves_items: "(i, es, lx) \<in> set (leaves nx t) \<Longrightarrow> set es \<subseteq> set (items t)"
  "(i, es, lx) \<in> set (kid_leaves nx ks) \<Longrightarrow> set es \<subseteq> set (kid_items ks)"
  by (induction t and ks arbitrary: nx and nx) fastforce+

lemma rep_leaves: "rep N nx t \<Longrightarrow> (i, es, lx) \<in> set (leaves nx t) \<Longrightarrow> \<exists>v. N i = Some (Leaf v es lx)"
  "rep_kids N nx ks \<Longrightarrow> (i, es, lx) \<in> set (kid_leaves nx ks) \<Longrightarrow> \<exists>v. N i = Some (Leaf v es lx)"
  by (induction t and ks arbitrary: nx and nx) auto

lemma slim_leaves: "slim m t \<Longrightarrow> (i, es, lx) \<in> set (leaves nx t) \<Longrightarrow> length es < m"
  "kids_slim m ks \<Longrightarrow> (i, es, lx) \<in> set (kid_leaves nx ks) \<Longrightarrow> length es < m"
  by (induction t and ks arbitrary: nx and nx) auto

lemma leaf_of_in: "leaf_of k nx t \<in> set (leaves nx t)" "kid_leaf_of k nx ks \<in> set (kid_leaves nx ks)"
  by (induction t and ks arbitrary: nx and nx) (auto simp del: kid_leaf_of_pick)

text \<open>The tree is stored with its chains changed once that is so of its leaves.\<close>

lemma rep_tmap:
  assumes "rep N nx t" and "distinct (pages t)"
    and "\<And>i es lx. (i, es, lx) \<in> set (leaves nx t) \<Longrightarrow> \<exists>v. N' i = Some (Leaf v (map_chains f es) lx)"
    and "\<And>i. i \<in> set (pages t) - fst ` set (leaves nx t) \<Longrightarrow> N' i = N i"
  shows "rep N' nx (tmap f t)"
proof -
  have "rep N nx t \<Longrightarrow> distinct (pages t) \<Longrightarrow> (\<And>i es lx. (i, es, lx) \<in> set (leaves nx t) \<Longrightarrow> \<exists>v. N' i = Some (Leaf v (map_chains f es) lx)) \<Longrightarrow>
      (\<And>i. i \<in> set (pages t) - fst ` set (leaves nx t) \<Longrightarrow> N' i = N i) \<Longrightarrow> rep N' nx (tmap f t)"
    and "rep_kids N nx ks \<Longrightarrow> distinct (kid_pages ks) \<Longrightarrow> (\<And>i es lx. (i, es, lx) \<in> set (kid_leaves nx ks) \<Longrightarrow> \<exists>v. N' i = Some (Leaf v (map_chains f es) lx)) \<Longrightarrow>
      (\<And>i. i \<in> set (kid_pages ks) - fst ` set (kid_leaves nx ks) \<Longrightarrow> N' i = N i) \<Longrightarrow> rep_kids N' nx (kmap f ks)" for ks
  proof (induction t and ks arbitrary: nx and nx)
    case (TNode i ks)
    have "i \<notin> fst ` set (kid_leaves nx ks)"
      using TNode.prems(2) leaves_pages(2) [of i _ _ nx ks] by auto
    then have "N' i = N i"
      using TNode.prems(4) [of i] by simp
    moreover have "rep_kids N' nx (kmap f ks)"
      using TNode.prems by (intro TNode.IH) auto
    ultimately show ?case
      using TNode.prems(1) by simp
  next
    case (More t s ks)
    have disj: "set (pages t) \<inter> set (kid_pages ks) = {}"
      using More.prems(2) by simp
    have "N' i = N i" if "i \<in> set (pages t) - fst ` set (leaves (first_kid ks) t)" for i
    proof (rule More.prems(4))
      have "i \<notin> fst ` set (kid_leaves nx ks)"
        using that disj leaves_pages(2) [of i _ _ nx ks] by fastforce
      then show "i \<in> set (kid_pages (More t s ks)) - fst ` set (kid_leaves nx (More t s ks))"
        using that by auto
    qed
    then have "rep N' (first_kid ks) (tmap f t)"
      using More.prems(1-3) by (intro More.IH(1)) auto
    moreover have "N' i = N i" if "i \<in> set (kid_pages ks) - fst ` set (kid_leaves nx ks)" for i
    proof (rule More.prems(4))
      have "i \<notin> fst ` set (leaves (first_kid ks) t)"
        using that disj leaves_pages(1) [of i _ _ "first_kid ks" t] by fastforce
      then show "i \<in> set (kid_pages (More t s ks)) - fst ` set (kid_leaves nx (More t s ks))"
        using that by auto
    qed
    then have "rep_kids N' nx (kmap f ks)"
      using More.prems(1-3) by (intro More.IH(2)) auto
    ultimately show ?case
      by simp
  qed auto
  then show ?thesis
    using assms by blast
qed

section \<open>Deleting\<close>

text \<open>A tombstone on top of a key that is there.\<close>

definition bury :: "bytes \<Rightarrow> txn_id \<Rightarrow> bytes \<Rightarrow> version_chain \<Rightarrow> version_chain" where
  "bury k x j c = (if j = k then prepend [] x c else c)"

lemma bury_leaf:
  assumes "sorted_wrt (<) (map le_key es)" and "pos < length es" and "le_key (es ! pos) = k"
  shows "es[pos := (es ! pos)\<lparr>le_chain := prepend [] x (le_chain (es ! pos))\<rparr>] = map_chains (bury k x) es"
proof (rule nth_equalityI)
  fix j
  assume "j < length (es[pos := (es ! pos)\<lparr>le_chain := prepend [] x (le_chain (es ! pos))\<rparr>])"
  then have j: "j < length es"
    by simp
  have "le_key (es ! j) \<noteq> k" if "j \<noteq> pos"
  proof (cases j pos rule: linorder_cases)
    case less
    then have "le_key (es ! j) < le_key (es ! pos)"
      using sorted_wrt_nth_less [OF assms(1), of j pos] assms(2) by simp
    then show ?thesis
      using assms(3) by simp
  next
    case greater
    then have "le_key (es ! pos) < le_key (es ! j)"
      using sorted_wrt_nth_less [OF assms(1), of pos j] j by simp
    then show ?thesis
      using assms(3) by simp
  qed (use that in simp)
  then show "es[pos := (es ! pos)\<lparr>le_chain := prepend [] x (le_chain (es ! pos))\<rparr>] ! j = map_chains (bury k x) es ! j"
    using j assms(3) by (cases "j = pos") (auto simp: map_chains_def bury_def)
qed simp

lemma leaf_of_key:
  "ok lo hi t \<Longrightarrow> (j, es, lx) \<in> set (leaves nx t) \<Longrightarrow> e \<in> set es \<Longrightarrow> leaf_of (le_key e) nx t = (j, es, lx)"
  "kids_ok lo hi ks \<Longrightarrow> (j, es, lx) \<in> set (kid_leaves nx ks) \<Longrightarrow> e \<in> set es \<Longrightarrow> kid_leaf_of (le_key e) nx ks = (j, es, lx)"
proof (induction t and ks arbitrary: nx lo hi and nx lo hi)
  case (More t s ks)
  show ?case
  proof (cases "(j, es, lx) \<in> set (leaves (first_kid ks) t)")
    case True
    then have "le_key e < s"
      using ok_items(1) [of lo "Some s" t e] leaves_items(1) [of j es lx _ t] More.prems by auto
    then show ?thesis
      using More.IH(1) [of lo "Some s" "first_kid ks"] More.prems True by simp
  next
    case False
    then have "(j, es, lx) \<in> set (kid_leaves nx ks)"
      using More.prems(2) by simp
    moreover from this have "s \<le> le_key e"
      using ok_items(2) [of "Some s" hi ks e] leaves_items(2) [of j es lx _ ks] More.prems by auto
    ultimately show ?thesis
      using More.IH(2) [of "Some s" hi nx] More.prems by (auto simp del: kid_leaf_of_pick)
  qed
qed (auto simp del: kid_leaf_of_pick)

lemma delete_internal_runs:
  assumes on: "tree_on E m L n s t" and fuel: "height t < fuel"
    and sm: "\<forall>e\<in>set (map_chains (bury k x) (items t)). small_entry (be_chain E) L e"
    and Q: "\<And>s'. tree_on E m L n s' (tmap (bury k x) t) \<Longrightarrow> Q (bt_get (pairs (items t)) k \<noteq> None) s'"
  shows "fruns (delete_internal fuel E k x) s Q"
proof -
  obtain N W where s: "dims E m L s" "holds E n s N W" "rep N 0 t" "root_of t = pb_root s" "fitting (be_chain E) m L None None t"
    "slim m t" "set (pages t) \<subseteq> W"
    using on by (rule tree_onE)
  obtain i es lx where leaf: "leaf_of k 0 t = (i, es, lx)"
    by (cases "leaf_of k 0 t") auto
  obtain v where v: "N i = Some (Leaf v es lx)"
    using rep_leaf_of [OF s(3) leaf] by blast
  have tok: "ok None None t" "distinct (pages t)"
    using s(5) by (simp_all add: fitting_def)
  note lg = leaf_of_get [OF tok(1) leaf]
  let ?pos = "either_pos (bsearch le_key k es)"
  have got: "bt_get (pairs (items t)) k = (if ?pos < length es \<and> le_key (es ! ?pos) = k then Some (le_chain (es ! ?pos)) else None)"
    using lg bsearch_get [of es ?pos k] by simp
  let ?f = "bury k x"
  have absent: "tmap ?f t = t" if "bt_get (pairs (items t)) k = None"
  proof (rule tmap_id(1), rule ballI)
    fix e
    assume "e \<in> set (items t)"
    then have "(le_key e, le_chain e) \<in> set (pairs (items t))"
      by (auto simp: set_pairs)
    then show "?f (le_key e) (le_chain e) = le_chain e"
      using that by (force simp: bury_def bt_get_None_iff)
  qed
  have changed: "tree_on E m L n s' (tmap ?f t)"
    if h': "holds E n s' (N(i \<mapsto> Leaf v (map_chains ?f es) lx)) W" and d': "dims E m L s'" and r': "pb_root s' = pb_root s" for s'
  proof (rule tree_onI [OF d' h'])
    show "rep (N(i \<mapsto> Leaf v (map_chains ?f es) lx)) 0 (tmap ?f t)"
    proof (rule rep_tmap [OF s(3) tok(2)])
      fix j es' lx'
      assume l: "(j, es', lx') \<in> set (leaves 0 t)"
      show "\<exists>v'. (N(i \<mapsto> Leaf v (map_chains ?f es) lx)) j = Some (Leaf v' (map_chains ?f es') lx')"
      proof (cases "j = i")
        case True
        then show ?thesis
          using rep_leaves(1) [OF s(3) l] v by auto
      next
        case False
        have "le_key e \<noteq> k" if "e \<in> set es'" for e
          using leaf_of_key(1) [OF tok(1) l that] leaf False by auto
        then have "map_chains ?f es' = es'"
          by (auto simp: map_chains_def bury_def intro: map_idI)
        then show ?thesis
          using rep_leaves(1) [OF s(3) l] False by auto
      qed
    qed (use leaf_of_in(1) [of k 0 t] leaf in force)
  qed (use s r' tmap_fitting [OF s(5,6) sm] in simp_all)
  have found: "runs (delete_in_node E k x i ?pos (Leaf v es lx)) s2 Q"
    if s2: "holds E n s2 N W" "pager_moved s s2" for s2
  proof (cases "?pos < length es \<and> le_key (es ! ?pos) = k")
    case False
    then show ?thesis
      using got absent Q [of s2] tree_on_read [OF s s2] by (auto simp: delete_in_node_def)
  next
    case True
    have some: "bt_get (pairs (items t)) k \<noteq> None"
      using got True by simp
    have d2: "dims E m L s2"
      using dims_pager_moved [OF s(1) s2(2)] .
    let ?nd = "Leaf v (map_chains ?f es) lx"
    have eq: "es[?pos := (es ! ?pos)\<lparr>le_chain := prepend [] x (le_chain (es ! ?pos))\<rparr>] = map_chains ?f es"
      using bury_leaf [of es ?pos k x] lg True by simp
    have "set (map_chains ?f es) \<subseteq> set (map_chains ?f (items t))"
      using lg by (auto simp: map_chains_def)
    moreover have "length es < m"
      using slim_leaves(1) [OF s(6), of i es lx 0] leaf_of_in(1) [of k 0 t] leaf by simp
    ultimately have fits: "node_fits E s2 ?nd"
      using sm by (intro small_node_fits [OF d2]) auto
    have iW: "i \<in> W"
      using holds_view [OF s(2)] v by auto
    have "runs (decrement_row_count E) s3 (\<lambda>_ u. Q True u)"
      if s3: "holds E n s3 (N(i \<mapsto> ?nd)) W" "pager_moved s2 s3" for s3
    proof -
      have m3: "pager_moved s s3"
        using s2(2) s3(2) pager_moved_trans by blast
      have "tree_on E m L n s3 (tmap ?f t)"
        using changed [OF s3(1) dims_pager_moved [OF s(1) m3]] pager_movedD(1) [OF m3] by simp
      then have "runs (set_row_count E c) s3 (\<lambda>_ u. Q True u)" for c
        by (rule row_count_runs) (use Q some in simp)
      then show ?thesis
        by (simp add: runs_def decrement_row_count_def)
    qed
    then have "runs (write_node E i ?nd) s2 (\<lambda>_ u. runs (decrement_row_count E) u (\<lambda>_ u. Q True u))"
      by (intro runs_mono [OF write_node_runs [OF dims_env [OF d2] s2(1) iW fits]]) auto
    then show ?thesis
      using True eq by (simp add: delete_in_node_def)
  qed
  have "runs (read_node E i) s1 (\<lambda>nd u. runs (delete_in_node E k x i ?pos nd) u Q)"
    if s1: "holds E n s1 N W" "pager_moved s s1" for s1
    by (rule read_node_then [OF s1(1) v]) (use found pager_moved_trans [OF s1(2)] in blast)
  then have "fruns (search_path_loop fuel E k (root_of t) []) s
      (\<lambda>(i, pos, path) u. runs (read_node E i) u (\<lambda>nd u. runs (delete_in_node E k x i pos nd) u Q))"
    by (intro search_path_runs [OF s(2,3) tok(1) fuel leaf]) simp
  then show ?thesis
    by (simp add: delete_internal_def search_with_path_root [OF s(4)] case_prod_beta')
qed

section \<open>Committing\<close>

lemma leftmost_loop_Suc:
  "leftmost_loop (Suc fuel) E i =
     fbind (flift (read_node E i)) (\<lambda>n.
       case n of
         Internal v es r \<Rightarrow> leftmost_loop fuel E (case es of [] \<Rightarrow> r | e # _ \<Rightarrow> ie_child e)
       | Leaf v es nx \<Rightarrow> flift (pret i))"
  by (rule ext) simp

lemma leftmost_runs:
  assumes "holds E n s N W" and "rep N nx t" and "height t < fuel"
    and "\<And>s'. holds E n s' N W \<Longrightarrow> pager_moved s s' \<Longrightarrow> Q (first_leaf t) s'"
  shows "fruns (leftmost_loop fuel E (root_of t)) s Q"
  using assms
proof (induction t arbitrary: s nx fuel rule: btree_induct)
  case (Leaf j es)
  obtain f v where f: "fuel = Suc f" and v: "N j = Some (Leaf v es nx)"
    using Leaf.prems(2,3) by (cases fuel) auto
  show ?case
    unfolding f leftmost_loop_Suc using Leaf.prems(4)
    by (simp del: leftmost_loop.simps) (rule read_node_then [OF Leaf.prems(1) v], simp)
next
  case (Node p ks)
  obtain f v where f: "fuel = Suc f" and v: "N p = Some (Internal v (ents ks) (last_id ks))"
    using Node.prems(2,3) by (cases fuel) auto
  obtain c nx' where c: "c \<in> kid_set ks" "rep N nx' c" "height c \<le> kheight ks" "first_leaf c = first_kid ks"
    "(case ents ks of [] \<Rightarrow> last_id ks | e # _ \<Rightarrow> ie_child e) = root_of c"
  proof (cases ks)
    case (Last t)
    then show ?thesis
      using that [of t nx] Node.prems(2) by simp
  next
    case (More t sep ks')
    then show ?thesis
      using that [of t "first_kid ks'"] Node.prems(2) by simp
  qed
  have "fruns (leftmost_loop f E (root_of c)) s1 Q" if s1: "holds E n s1 N W" "pager_moved s s1" for s1
    using Node.prems(3,4) c f pager_moved_trans [OF s1(2)] by (intro Node.IH [OF c(1) s1(1) c(2)]) auto
  then show ?case
    unfolding f leftmost_loop_Suc using c(5)
    by (simp del: leftmost_loop.simps) (rule read_node_then [OF Node.prems(1) v], simp)
qed

lemma commit_leaves_loop_Suc:
  "commit_leaves_loop (Suc fuel) E t l i =
     fbind (flift (read_node E i)) (\<lambda>n.
       case n of
         Internal v es r \<Rightarrow> flift (perr TablePanic)
       | Leaf v es nx \<Rightarrow>
           fbind (flift (write_node E i (Leaf (v + 1) (commit_entries t l es) nx))) (\<lambda>_.
           if nx = 0 then flift (pret ()) else commit_leaves_loop fuel E t l nx))"
  by (rule ext) simp

text \<open>The leaves of a list are stored with their chains committed, and nothing else is changed.\<close>

definition leaves_committed ::
    "txn_id \<Rightarrow> lsn \<Rightarrow> (page_id \<times> leaf_entry list \<times> page_id) list \<Rightarrow> (page_id \<rightharpoonup> btree_node) \<Rightarrow> (page_id \<rightharpoonup> btree_node) \<Rightarrow> bool" where
  "leaves_committed x l ls N N' \<longleftrightarrow>
     (\<forall>(j, es, lx)\<in>set ls. \<exists>v. N' j = Some (Leaf v (commit_entries x l es) lx)) \<and> (\<forall>j. j \<notin> fst ` set ls \<longrightarrow> N' j = N j)"

lemma commit_leaves_runs:
  assumes "dims E m L s" and "holds E n s N W" and "linked i ls 0" and "ls \<noteq> []" and "length ls \<le> fuel" and "distinct (map fst ls)"
    and "\<forall>(j, es, lx)\<in>set ls. j \<noteq> 0 \<and> length es < m \<and> (\<exists>v. N j = Some (Leaf v es lx)) \<and>
       (\<forall>e\<in>set (commit_entries x l es). small_entry (be_chain E) L e)"
    and "\<And>s' N'. holds E n s' N' W \<Longrightarrow> pager_moved s s' \<Longrightarrow> leaves_committed x l ls N N' \<Longrightarrow> Q () s'"
  shows "fruns (commit_leaves_loop fuel E x l i) s Q"
  using assms
proof (induction ls arbitrary: s N i fuel)
  case (Cons a ls)
  obtain es lx where a: "a = (i, es, lx)"
    using Cons.prems(3) by (cases a) auto
  obtain f where f: "fuel = Suc f"
    using Cons.prems(5) by (cases fuel) auto
  obtain v where v: "N i = Some (Leaf v es lx)"
    using Cons.prems(7) a by auto
  let ?nd = "Leaf (v + 1) (commit_entries x l es) lx"
  have sm: "small_node (be_chain E) L ?nd" "key_count ?nd \<le> m"
    using Cons.prems(7) a by (auto simp: commit_entries_def)
  have iW: "i \<in> W"
    using holds_view [OF Cons.prems(2)] v by auto
  have fresh: "i \<notin> fst ` set ls"
    using Cons.prems(6) a by auto
  have rest: "fruns (if lx = 0 then flift (pret ()) else commit_leaves_loop f E x l lx) s2 Q"
    if h2: "holds E n s2 (N(i \<mapsto> ?nd)) W" and m2: "pager_moved s s2" for s2
  proof (cases ls)
    case Nil
    then have "leaves_committed x l (a # ls) N (N(i \<mapsto> ?nd))"
      using a by (auto simp: leaves_committed_def)
    then have "Q () s2"
      by (rule Cons.prems(8) [OF h2 m2])
    then show ?thesis
      using Nil Cons.prems(3) a by simp
  next
    case (Cons b ls')
    have "fruns (commit_leaves_loop f E x l lx) s2 Q"
    proof (rule Cons.IH [OF dims_pager_moved [OF Cons.prems(1) m2] h2])
      show "linked lx ls 0" "ls \<noteq> []" "length ls \<le> f" "distinct (map fst ls)"
        using Cons.prems Cons a f by simp_all
      show "\<forall>(j, es, lx)\<in>set ls. j \<noteq> 0 \<and> length es < m \<and> (\<exists>v. (N(i \<mapsto> ?nd)) j = Some (Leaf v es lx)) \<and>
         (\<forall>e\<in>set (commit_entries x l es). small_entry (be_chain E) L e)"
      proof (clarify)
        fix j es' lx'
        assume j: "(j, es', lx') \<in> set ls"
        then have "j \<noteq> i"
          using fresh by force
        then show "j \<noteq> 0 \<and> length es' < m \<and> (\<exists>v. (N(i \<mapsto> ?nd)) j = Some (Leaf v es' lx')) \<and>
         (\<forall>e\<in>set (commit_entries x l es'). small_entry (be_chain E) L e)"
          using Cons.prems(7) j by auto
      qed
      fix s' N'
      assume s': "holds E n s' N' W" "pager_moved s2 s'" "leaves_committed x l ls (N(i \<mapsto> ?nd)) N'"
      then have "leaves_committed x l (a # ls) N N'"
        using fresh a by (auto simp: leaves_committed_def)
      then show "Q () s'"
        by (rule Cons.prems(8) [OF s'(1) pager_moved_trans [OF m2 s'(2)]])
    qed
    moreover have "lx \<noteq> 0"
      using Cons.prems(3,7) Cons a by auto
    ultimately show ?thesis
      by simp
  qed
  have wr: "runs (write_node E i ?nd) s1 (\<lambda>_ u. fruns (if lx = 0 then flift (pret ()) else commit_leaves_loop f E x l lx) u Q)"
    if s1: "holds E n s1 N W" "pager_moved s s1" for s1
  proof -
    have d1: "dims E m L s1"
      using dims_pager_moved [OF Cons.prems(1) s1(2)] .
    show ?thesis
      using rest pager_moved_trans [OF s1(2)]
      by (intro runs_mono [OF write_node_runs [OF dims_env [OF d1] s1(1) iW small_node_fits [OF d1 sm]]]) blast
  qed
  show ?case
    unfolding f commit_leaves_loop_Suc fruns_fbind fruns_flift
    by (rule read_node_then [OF Cons.prems(2) v]) (simp only: btree_node.case fruns_fbind fruns_flift wr)
qed simp

lemma commit_tree_runs:
  assumes on: "tree_on E m L n s t" and fuel: "height t < fuel" "length (leaves 0 t) \<le> fuel"
    and sm: "\<forall>e\<in>set (map_chains (\<lambda>_. commit_chain_recursive x l) (items t)). small_entry (be_chain E) L e"
    and Q: "\<And>s'. tree_on E m L n s' (tmap (\<lambda>_. commit_chain_recursive x l) t) \<Longrightarrow> Q () s'"
  shows "fruns (commit_versions_for_tx fuel E x l) s Q"
proof -
  let ?f = "\<lambda>_. commit_chain_recursive x l"
  obtain N W where s: "dims E m L s" "holds E n s N W" "rep N 0 t" "root_of t = pb_root s" "fitting (be_chain E) m L None None t"
    "slim m t" "set (pages t) \<subseteq> W"
    using on by (rule tree_onE)
  have tok: "distinct (pages t)"
    using s(5) by (simp add: fitting_def)
  have ce: "commit_entries x l es = map_chains ?f es" for es
    by (simp add: commit_entries_def map_chains_def)
  have lvs: "\<forall>(j, es, lx)\<in>set (leaves 0 t). j \<noteq> 0 \<and> length es < m \<and> (\<exists>v. N j = Some (Leaf v es lx)) \<and>
       (\<forall>e\<in>set (commit_entries x l es). small_entry (be_chain E) L e)"
  proof (clarify, intro conjI ballI)
    fix j es lx
    assume l: "(j, es, lx) \<in> set (leaves 0 t)"
    show "j \<noteq> 0"
      using leaves_pages(1) [OF l] s(7) holds_ids [OF s(2), of j] by auto
    show "length es < m"
      using slim_leaves(1) [OF s(6) l] .
    show "\<exists>v. N j = Some (Leaf v es lx)"
      using rep_leaves(1) [OF s(3) l] .
    show "small_entry (be_chain E) L e" if "e \<in> set (commit_entries x l es)" for e
      using that leaves_items(1) [OF l] sm by (auto simp: ce map_chains_def)
  qed
  have fin: "Q () s'" if s': "holds E n s' N' W" "pager_moved s s'" "leaves_committed x l (leaves 0 t) N N'" for s' N'
  proof (rule Q, rule tree_onI [OF dims_pager_moved [OF s(1) s'(2)] s'(1)])
    show "rep N' 0 (tmap ?f t)"
      using s'(3) by (intro rep_tmap [OF s(3) tok]) (auto simp: leaves_committed_def ce)
  qed (use s pager_movedD(1) [OF s'(2)] tmap_fitting [OF s(5,6) sm] in simp_all)
  have "fruns (leftmost_loop fuel E (root_of t)) s (\<lambda>i u. fruns (commit_leaves_loop fuel E x l i) u Q)"
  proof (rule leftmost_runs [OF s(2,3) fuel(1)])
    fix s1
    assume s1: "holds E n s1 N W" "pager_moved s s1"
    have "leaves 0 t \<noteq> []"
      using leaf_of_in(1) [of _ 0 t] by auto
    then show "fruns (commit_leaves_loop fuel E x l (first_leaf t)) s1 Q"
      using fin pager_moved_trans [OF s1(2)]
      by (intro commit_leaves_runs [OF dims_pager_moved [OF s(1) s1(2)] s1(1) leaves_linked(1) _ fuel(2) leaves_distinct(1) [OF tok] lvs]) blast+
  qed
  then have "fruns (fbind (leftmost_loop fuel E (pb_root s)) (commit_leaves_loop fuel E x l)) s Q"
    using s(4) by simp
  then show ?thesis
    by (simp only: fruns_def commit_versions_for_tx_def)
qed

end
