(* ===== verification/PagedTable.thy ===== *)
theory PagedTable
  imports PagedBTree MemoryBTree
begin

text \<open>
  The table on top of the B-tree on pages (\<open>src/src/table/btree/paged.rs\<close>): the writer with its pending
  changes and values streamed to overflow pages, the streams a reader gets, the cursor along the leaves,
  the index entries, counting, verification and the vacuum. Loops over pages and streams carry fuel.
\<close>

definition wlift :: "('s \<Rightarrow> 't) \<Rightarrow> ('t \<Rightarrow> 's \<Rightarrow> 's) \<Rightarrow> ('t, 'e, 'a) fuel_action \<Rightarrow> ('s, 'e, 'a) fuel_action" where
  "wlift get put m s = (case m (get s) of None \<Rightarrow> None | Some (r, t) \<Rightarrow> Some (r, put t s))"

text \<open>A call of the pager that may run out of fuel.\<close>

definition on_pager_walk :: "(pager \<Rightarrow> ((pager_error + 'a) \<times> pager) option) \<Rightarrow> 'a tree_walk" where
  "on_pager_walk m s =
     (case m (pb_pager s) of
        None \<Rightarrow> None
      | Some (Inl e, p) \<Rightarrow> Some (Inl (TablePager e), s\<lparr>pb_pager := p\<rparr>)
      | Some (Inr a, p) \<Rightarrow> Some (Inr a, s\<lparr>pb_pager := p\<rparr>))"

section \<open>The writer\<close>

datatype pending_change = PInline bytes bytes | PExternal bytes value_ref | PDelete bytes

record paged_writer =
  pw_tree :: paged_btree
  pw_tx_id :: txn_id
  pw_snapshot_lsn :: lsn
  pw_pending :: "pending_change list"

type_synonym 'a writer_walk = "(paged_writer, table_error, 'a) fuel_action"

definition tree_writer :: "paged_btree \<Rightarrow> txn_id \<Rightarrow> lsn \<Rightarrow> paged_writer" where
  "tree_writer s t l = \<lparr>pw_tree = s, pw_tx_id = t, pw_snapshot_lsn = l, pw_pending = []\<rparr>"

definition on_tree :: "'a tree_walk \<Rightarrow> 'a writer_walk" where
  "on_tree = wlift pw_tree (\<lambda>t w. w\<lparr>pw_tree := t\<rparr>)"

definition push_change :: "pending_change \<Rightarrow> 'a \<Rightarrow> 'a writer_walk" where
  "push_change c a w = Some (Inr a, w\<lparr>pw_pending := pw_pending w @ [c]\<rparr>)"

definition written_size :: "bytes \<Rightarrow> nat \<Rightarrow> u64" where
  "written_size k n = of_nat (length k + n + 16)"

definition paged_put :: "bytes \<Rightarrow> bytes \<Rightarrow> u64 writer_walk" where
  "paged_put k v = push_change (PInline k v) (written_size k (length v))"

definition paged_delete :: "nat \<Rightarrow> btree_env \<Rightarrow> bytes \<Rightarrow> bool writer_walk" where
  "paged_delete fuel E k w =
     fbind (on_tree (get_internal fuel E k (pw_snapshot_lsn w))) (\<lambda>old.
     if old \<noteq> None then push_change (PDelete k) True else flift (pret False)) w"

definition is_external_value :: "bytes \<Rightarrow> bool" where
  "is_external_value v =
     (case v of
        [] \<Rightarrow> False
      | b # _ \<Rightarrow> if b = 1 then length v = 11 else if b = 2 then length v = 17 else False)"

definition writer_free_value_ref :: "nat \<Rightarrow> btree_env \<Rightarrow> value_ref \<Rightarrow> unit tree_walk" where
  "writer_free_value_ref fuel E r =
     (case r of
        RefInline \<Rightarrow> flift (pret ())
      | SinglePage i offset len \<Rightarrow> flift (on_pager (free_page (be_pager E) (ucast i)))
      | OverflowChain i len pages \<Rightarrow> on_pager_walk (free_overflow_chain fuel (be_pager E) (ucast i)))"

text \<open>The pages of the value that a change replaces, as far as it looks like a reference.\<close>

definition release_old :: "nat \<Rightarrow> btree_env \<Rightarrow> bytes \<Rightarrow> lsn \<Rightarrow> unit tree_walk" where
  "release_old fuel E k l =
     fbind (get_internal fuel E k l) (\<lambda>old.
     case old of
       None \<Rightarrow> flift (pret ())
     | Some v \<Rightarrow>
         if is_external_value v
         then case ref_decode v of Inl e \<Rightarrow> flift (perr InvalidValueRef) | Inr r \<Rightarrow> writer_free_value_ref fuel E r
         else flift (pret ()))"

fun paged_flush_change :: "nat \<Rightarrow> btree_env \<Rightarrow> txn_id \<Rightarrow> lsn \<Rightarrow> pending_change \<Rightarrow> unit tree_walk" where
  "paged_flush_change fuel E t l (PInline k v) = fbind (release_old fuel E k l) (\<lambda>_. insert_internal fuel E k v t 0)"
| "paged_flush_change fuel E t l (PExternal k r) = fbind (release_old fuel E k l) (\<lambda>_. insert_internal fuel E k (ref_encode r) t 0)"
| "paged_flush_change fuel E t l (PDelete k) =
     fbind (release_old fuel E k l) (\<lambda>_. fbind (delete_internal fuel E k t) (\<lambda>_. flift (pret ())))"

fun paged_flush_changes :: "nat \<Rightarrow> btree_env \<Rightarrow> txn_id \<Rightarrow> lsn \<Rightarrow> pending_change list \<Rightarrow> unit tree_walk" where
  "paged_flush_changes fuel E t l [] = flift (pret ())"
| "paged_flush_changes fuel E t l (c # cs) = fbind (paged_flush_change fuel E t l c) (\<lambda>_. paged_flush_changes fuel E t l cs)"

text \<open>The changes are taken out of the writer first: those behind one that fails are gone.\<close>

definition paged_flush :: "nat \<Rightarrow> btree_env \<Rightarrow> unit writer_walk" where
  "paged_flush fuel E w =
     (if pw_pending w = [] then Some (Inr (), w)
      else on_tree (paged_flush_changes fuel E (pw_tx_id w) (pw_snapshot_lsn w) (pw_pending w)) (w\<lparr>pw_pending := []\<rparr>))"

definition paged_commit_versions :: "nat \<Rightarrow> btree_env \<Rightarrow> lsn \<Rightarrow> unit writer_walk" where
  "paged_commit_versions fuel E l w = on_tree (commit_versions_for_tx fuel E (pw_tx_id w) l) w"

definition batch_get :: "nat \<Rightarrow> btree_env \<Rightarrow> bytes list \<Rightarrow> bytes option list writer_walk" where
  "batch_get fuel E ks w =
     foldr (\<lambda>k m. fbind (on_tree (get_internal fuel E k (pw_snapshot_lsn w))) (\<lambda>r. fbind m (\<lambda>rs. flift (pret (r # rs)))))
       ks (flift (pret [])) w"

section \<open>Values in overflow pages\<close>

text \<open>The pages a stream has got so far, the bytes in them, and the page to link the next one to.\<close>

record stream_ctx =
  sc_pages :: "page_id list"
  sc_total_written :: u64
  sc_prev :: "page_id option"

definition stream_ctx_new :: stream_ctx where
  "stream_ctx_new = \<lparr>sc_pages = [], sc_total_written = 0, sc_prev = None\<rparr>"

text \<open>
  One page of a stream. A page that could be allocated but not written stays in the context, so that the
  context is part of the state.
\<close>

type_synonym 'a ctx_action = "(paged_btree \<times> stream_ctx, table_error, 'a) st_action"

definition in_ctx :: "'a tree_action \<Rightarrow> 'a ctx_action" where
  "in_ctx m = (\<lambda>(s, c). let (r, s) = m s in (r, (s, c)))"

definition write_overflow_chunk :: "btree_env \<Rightarrow> bytes \<Rightarrow> unit ctx_action" where
  "write_overflow_chunk E d =
     pbind (in_ctx (on_pager (allocate_page (be_pager E) PT_Overflow))) (\<lambda>i (s, c).
       let c = c\<lparr>sc_pages := sc_pages c @ [i], sc_total_written := sc_total_written c + of_nat (length d)\<rparr> in
       pbind (in_ctx (case sc_prev c of
                None \<Rightarrow> pret ()
              | Some j \<Rightarrow> on_pager (link_overflow_pages (be_pager E) j i))) (\<lambda>_.
       pbind (in_ctx (on_pager (write_overflow_page (be_pager E) i d None))) (\<lambda>_ (s, c).
       (Inr (), (s, c\<lparr>sc_prev := Some i\<rparr>)))) (s, c))"

text \<open>The bytes of one read go to the page buf, which is written whenever it is full.\<close>

fun fill_pages :: "nat \<Rightarrow> btree_env \<Rightarrow> nat \<Rightarrow> bytes \<Rightarrow> bytes \<Rightarrow> (paged_btree \<times> stream_ctx, table_error, bytes) fuel_action" where
  "fill_pages 0 E usable buf d = (\<lambda>s. None)"
| "fill_pages (Suc fuel) E usable buf d =
     (if d = [] then flift (pret buf)
      else let to_copy = min (length d) (usable - length buf);
               buf = buf @ take to_copy d; d = drop to_copy d in
           if length buf \<ge> usable
           then fbind (flift (write_overflow_chunk E buf)) (\<lambda>_. fill_pages fuel E usable [] d)
           else fill_pages fuel E usable buf d)"

text \<open>The pages allocated for a stream that fails are freed; errors of that are dropped.\<close>

fun free_all :: "pager_env \<Rightarrow> page_id list \<Rightarrow> paged_btree \<Rightarrow> paged_btree" where
  "free_all E [] s = s"
| "free_all E (i # is) s = free_all E is (s\<lparr>pb_pager := snd (free_page E i (pb_pager s))\<rparr>)"

fun external_loop ::
    "nat \<Rightarrow> btree_env \<Rightarrow> (nat \<Rightarrow> 'st \<Rightarrow> (table_error + bytes) \<times> 'st) \<Rightarrow> nat \<Rightarrow> bytes \<Rightarrow> 'st \<Rightarrow> paged_btree \<times> stream_ctx \<Rightarrow>
     ((table_error + unit) \<times> 'st \<times> paged_btree \<times> stream_ctx) option" where
  "external_loop 0 E rd usable buf st sc = None"
| "external_loop (Suc fuel) E rd usable buf st sc =
     (case rd 8192 st of
        (Inl e, st) \<Rightarrow> Some (Inl e, st, sc)
      | (Inr [], st) \<Rightarrow>
          if buf = [] then Some (Inr (), st, sc)
          else let (r, sc) = write_overflow_chunk E buf sc in Some (r, st, sc)
      | (Inr d, st) \<Rightarrow>
          (case fill_pages fuel E usable buf d sc of
             None \<Rightarrow> None
           | Some (Inl e, sc) \<Rightarrow> Some (Inl e, st, sc)
           | Some (Inr buf, sc) \<Rightarrow> external_loop fuel E rd usable buf st sc))"

definition external_ref :: "stream_ctx \<Rightarrow> value_ref" where
  "external_ref c =
     (if length (sc_pages c) = 1
      then SinglePage (ucast (hd (sc_pages c))) 32 (ucast (sc_total_written c))
      else OverflowChain (ucast (hd (sc_pages c))) (sc_total_written c) (of_nat (length (sc_pages c))))"

definition put_stream_external ::
    "nat \<Rightarrow> btree_env \<Rightarrow> (nat \<Rightarrow> 'st \<Rightarrow> (table_error + bytes) \<times> 'st) \<Rightarrow> bytes \<Rightarrow> 'st \<Rightarrow> paged_writer \<Rightarrow>
     ((table_error + u64) \<times> 'st \<times> paged_writer) option" where
  "put_stream_external fuel E rd k st w =
     (let usable = data_size_of (pb_pager (pw_tree w)) - 32 in
      case external_loop fuel E rd usable [] st (pw_tree w, stream_ctx_new) of
        None \<Rightarrow> None
      | Some (Inl e, st, s, c) \<Rightarrow> Some (Inl e, st, w\<lparr>pw_tree := free_all (be_pager E) (sc_pages c) s\<rparr>)
      | Some (Inr _, st, s, c) \<Rightarrow>
          (if sc_pages c = []
           then Some (Inr (of_nat (length k + 16)), st, w\<lparr>pw_tree := s, pw_pending := pw_pending w @ [PInline k []]\<rparr>)
           else Some (Inr (written_size k (unat (sc_total_written c))), st,
                  w\<lparr>pw_tree := s, pw_pending := pw_pending w @ [PExternal k (external_ref c)]\<rparr>)))"

definition put_stream_inline ::
    "nat \<Rightarrow> (nat \<Rightarrow> 'st \<Rightarrow> (table_error + bytes) \<times> 'st) \<Rightarrow> bytes \<Rightarrow> 'st \<Rightarrow> paged_writer \<Rightarrow>
     ((table_error + u64) \<times> 'st \<times> paged_writer) option" where
  "put_stream_inline fuel rd k st w =
     (case drain_stream fuel rd [] st of
        None \<Rightarrow> None
      | Some (Inl e, st) \<Rightarrow> Some (Inl e, st, w)
      | Some (Inr d, st) \<Rightarrow> Some (Inr (written_size k (length d)), st, w\<lparr>pw_pending := pw_pending w @ [PInline k d]\<rparr>))"

text \<open>Bytes read already, in two parts, in front of a stream.\<close>

record 'st composite_stream =
  cs_buffered :: bytes
  cs_chunk :: bytes
  cs_rest :: 'st

definition composite_read ::
    "(nat \<Rightarrow> 'st \<Rightarrow> (table_error + bytes) \<times> 'st) \<Rightarrow> nat \<Rightarrow> 'st composite_stream \<Rightarrow> (table_error + bytes) \<times> 'st composite_stream" where
  "composite_read rd want cs =
     (let a = take want (cs_buffered cs); want1 = want - length a;
          b = take want1 (cs_chunk cs); want2 = want1 - length b;
          cs = cs\<lparr>cs_buffered := drop want (cs_buffered cs), cs_chunk := drop want1 (cs_chunk cs)\<rparr> in
      if want2 > 0
      then case rd want2 (cs_rest cs) of
          (Inl e, st) \<Rightarrow> (Inl e, cs\<lparr>cs_rest := st\<rparr>)
        | (Inr d, st) \<Rightarrow> (Inr (a @ b @ d), cs\<lparr>cs_rest := st\<rparr>)
      else (Inr (a @ b), cs))"

fun put_stream_adaptive ::
    "nat \<Rightarrow> btree_env \<Rightarrow> (nat \<Rightarrow> 'st \<Rightarrow> (table_error + bytes) \<times> 'st) \<Rightarrow> nat \<Rightarrow> bytes \<Rightarrow> bytes \<Rightarrow> 'st \<Rightarrow> paged_writer \<Rightarrow>
     ((table_error + u64) \<times> 'st \<times> paged_writer) option" where
  "put_stream_adaptive 0 E rd max_inline k buf st w = None"
| "put_stream_adaptive (Suc fuel) E rd max_inline k buf st w =
     (case rd 8192 st of
        (Inl e, st) \<Rightarrow> Some (Inl e, st, w)
      | (Inr [], st) \<Rightarrow>
          Some (Inr (written_size k (length buf)), st, w\<lparr>pw_pending := pw_pending w @ [PInline k buf]\<rparr>)
      | (Inr d, st) \<Rightarrow>
          if length buf + length d > max_inline
          then (case put_stream_external fuel E (composite_read rd) k \<lparr>cs_buffered = buf, cs_chunk = d, cs_rest = st\<rparr> w of
                  None \<Rightarrow> None
                | Some (r, cs, w) \<Rightarrow> Some (r, cs_rest cs, w))
          else put_stream_adaptive fuel E rd max_inline k (buf @ d) st w)"

definition paged_put_stream ::
    "nat \<Rightarrow> btree_env \<Rightarrow> (nat \<Rightarrow> 'st \<Rightarrow> (table_error + bytes) \<times> 'st) \<Rightarrow> u64 option \<Rightarrow> bytes \<Rightarrow> 'st \<Rightarrow> paged_writer \<Rightarrow>
     ((table_error + u64) \<times> 'st \<times> paged_writer) option" where
  "paged_put_stream fuel E rd size_hint k st w =
     (case size_hint of
        Some hint \<Rightarrow>
          if hint \<le> 4096 then put_stream_inline fuel rd k st w else put_stream_external fuel E rd k st w
      | None \<Rightarrow> put_stream_adaptive fuel E rd 4096 k [] st w)"

section \<open>Streams of a reader\<close>

text \<open>
  The value comes back resolved from \<open>get_internal\<close>, and if it starts with byte 1 or 2 it is decoded
  as a reference once more.
\<close>

datatype paged_stream = Stream_slice bytes | Stream_single page_id nat nat | Stream_chain page_id u64

definition paged_get_stream :: "nat \<Rightarrow> btree_env \<Rightarrow> bytes \<Rightarrow> lsn \<Rightarrow> paged_stream option tree_walk" where
  "paged_get_stream fuel E k l =
     fbind (get_internal fuel E k l) (\<lambda>r.
     case r of
       None \<Rightarrow> flift (pret None)
     | Some v \<Rightarrow>
         if length v \<ge> 1 \<and> (v ! 0 = 1 \<or> v ! 0 = 2)
         then case ref_decode v of
             Inl e \<Rightarrow> flift (perr (TableCorruption ''invalid_encoding''))
           | Inr (SinglePage i offset len) \<Rightarrow> flift (pret (Some (Stream_single (ucast i) (unat offset) (unat len))))
           | Inr (OverflowChain i len pages) \<Rightarrow> flift (pret (Some (Stream_chain (ucast i) len)))
           | Inr RefInline \<Rightarrow> flift (pret (Some (Stream_slice v)))
         else flift (pret (Some (Stream_slice v))))"

record single_page_stream =
  sp_page_id :: page_id
  sp_offset :: nat
  sp_length :: nat
  sp_position :: nat
  sp_buffer :: "bytes option"

definition single_page_load :: "btree_env \<Rightarrow> single_page_stream \<Rightarrow> single_page_stream tree_action" where
  "single_page_load E st =
     (case sp_buffer st of
        Some b \<Rightarrow> pret st
      | None \<Rightarrow>
          pbind (on_pager (read_page (be_pager E) (sp_page_id st))) (\<lambda>p.
          if sp_offset st + sp_length st > length (pg_data p) then perr (TableCorruption ''value_overflow'')
          else pret (st\<lparr>sp_buffer := Some (bslice (sp_offset st) (sp_offset st + sp_length st) (pg_data p))\<rparr>)))"

definition single_page_read :: "btree_env \<Rightarrow> nat \<Rightarrow> single_page_stream \<Rightarrow> (bytes \<times> single_page_stream) tree_action" where
  "single_page_read E want st =
     pbind (single_page_load E st) (\<lambda>st.
     let b = the (sp_buffer st); remaining = length b - sp_position st in
     if remaining = 0 then pret ([], st)
     else let to_copy = min remaining want in
          pret (bslice (sp_position st) (sp_position st + to_copy) b, st\<lparr>sp_position := sp_position st + to_copy\<rparr>))"

end
