(* ===== verification/BTreeTable.thy ===== *)
theory BTreeTable
  imports BTreeOps PagedTable "HOL-Library.Monad_Syntax"
begin

text \<open>
  Tables on pages over time: a new table is empty, and a sequence of transactions, each of which puts its
  rows, flushes them into the tree and commits their versions, leaves a table that answers every reader
  with what the latest commit up to its log sequence number wrote.
\<close>

section \<open>Committing all versions of a transaction\<close>

definition commit_all_of :: "txn_id \<Rightarrow> lsn \<Rightarrow> versioned \<Rightarrow> versioned" where
  "commit_all_of x l m = bt_map (\<lambda>_. commit_chain_recursive x l) m"

definition stamp :: "txn_id \<Rightarrow> lsn \<Rightarrow> version \<Rightarrow> version" where
  "stamp x l = (\<lambda>(v, u, cl). (v, u, if u = x \<and> cl = None then Some l else cl))"

lemma versions_commit_chain: "versions (commit_chain_recursive x l c) = map (stamp x l) (versions c)"
  by (induction x l c rule: commit_chain_recursive.induct) (auto simp: stamp_def split: option.split)

lemma find_stamped_before: "n < l \<Longrightarrow> find (sees (at_lsn n)) (map (stamp x l) vs) = find (sees (at_lsn n)) vs"
  by (induction vs) (auto simp: stamp_def sees_def split: option.splits if_splits)

text \<open>A head that a reader sees, before or after the commit, is what it gets.\<close>

lemma commit_chain_head:
  assumes "vc_commit_lsn c = Some y" and "y < l" and "l \<le> n"
  shows "find (sees (at_lsn n)) (versions (commit_chain_recursive x l c)) = find (sees (at_lsn n)) (versions c)"
  using assms by (cases c) (auto simp: sees_def)

lemma commit_all_get: "bt_get (commit_all_of x l m) k = map_option (commit_chain_recursive x l) (bt_get m k)"
  by (simp add: commit_all_of_def)

lemma read_commit_before: "n < l \<Longrightarrow> read_at (commit_all_of x l m) k n = read_at m k n"
  by (simp add: read_at_lookup commit_all_get versions_commit_chain find_stamped_before split: option.split)

lemma put_read_before: "read_at (put_all x ws m) k n = read_at m k n"
proof (cases "values_for k ws = []")
  case True
  then show ?thesis
    using put_all_get [of k ws x m] by (simp add: read_at_def)
next
  case False
  then obtain c where "bt_get (put_all x ws m) k = Some c"
    "versions c = map (\<lambda>v. (VInline v, x, None)) (rev (values_for k ws)) @ old_versions m k"
    using put_all_get [of k ws x m] by auto
  then show ?thesis
    by (simp add: read_at_lookup unseen_uncommitted old_versions_def split: option.split)
qed

lemma commit_all_read:
  assumes "settled_before l m"
  shows "read_at (commit_all_of x l (put_all x ws m)) k n =
    (if l \<le> n then case map_of (rev ws) k of Some v \<Rightarrow> Some v | None \<Rightarrow> read_at m k n else read_at m k n)"
proof (cases "l \<le> n")
  case False
  then show ?thesis
    by (simp add: read_commit_before put_read_before)
next
  case True
  show ?thesis
  proof (cases "values_for k ws = []")
    case none: True
    then have get: "bt_get (put_all x ws m) k = bt_get m k"
      using put_all_get [of k ws x m] by simp
    have "read_at (commit_all_of x l (put_all x ws m)) k n = read_at m k n"
    proof (cases "bt_get m k")
      case (Some c)
      obtain y where y: "vc_commit_lsn c = Some y"
        using assms Some unfolding settled_before_def by fastforce
      then have "y < l"
        using settled_beforeD [OF assms Some] by (cases c) auto
      then show ?thesis
        using commit_chain_head [OF y _ True] get Some by (simp add: read_at_lookup commit_all_get)
    qed (simp add: read_at_lookup commit_all_get get)
    then show ?thesis
      using none True by (simp add: map_of_rev_values)
  next
    case some: False
    then obtain c where c: "bt_get (put_all x ws m) k = Some c"
      "versions c = map (\<lambda>v. (VInline v, x, None)) (rev (values_for k ws)) @ old_versions m k"
      using put_all_get [of k ws x m] by auto
    have r: "rev (values_for k ws) = last (values_for k ws) # rev (butlast (values_for k ws))"
      using some by (metis append_butlast_last_id rev.simps(2) rev_rev_ident rev_append rev_singleton_conv append_Cons append_Nil)
    have "find (sees (at_lsn n)) (versions (commit_chain_recursive x l c)) = Some (VInline (last (values_for k ws)), x, Some l)"
      using True unfolding versions_commit_chain c(2) r by (simp add: stamp_def sees_def)
    then show ?thesis
      using c(1) some True by (simp add: read_at_lookup commit_all_get map_of_rev_values)
  qed
qed

lemma commit_all_settled:
  assumes "settled_before l m" and "l < l'"
  shows "settled_before l' (commit_all_of x l (put_all x ws m))"
proof -
  have "vc_commit_lsn c \<noteq> None \<and> (\<forall>(v, u, cl)\<in>set (versions c). \<forall>y. cl = Some y \<longrightarrow> y < l')"
    if "bt_get (commit_all_of x l (put_all x ws m)) k = Some c" for k c
  proof -
    obtain c0 where c0: "bt_get (put_all x ws m) k = Some c0" "c = commit_chain_recursive x l c0"
      using \<open>bt_get (commit_all_of x l (put_all x ws m)) k = Some c\<close> by (auto simp: commit_all_get)
    have vs: "versions c0 = map (\<lambda>v. (VInline v, x, None)) (rev (values_for k ws)) @ old_versions m k"
      using put_all_get [of k ws x m] c0(1) by (auto simp: old_versions_def split: if_splits)
    have old: "y < l" if "(v, u, Some y) \<in> set (old_versions m k)" for v u y
      using that settled_beforeD [OF assms(1)] by (cases "bt_get m k") (auto simp: old_versions_def)
    have "y < l'" if "(v, u, Some y) \<in> set (versions c)" for v u y
      using that old assms(2) unfolding c0(2) versions_commit_chain vs
      by (fastforce simp: stamp_def split: if_splits)
    moreover have "vc_commit_lsn c \<noteq> None"
    proof (cases "values_for k ws = []")
      case True
      then have "bt_get m k = Some c0"
        using put_all_get [of k ws x m] c0(1) by simp
      then have "vc_commit_lsn c0 \<noteq> None"
        using assms(1) by (auto simp: settled_before_def)
      then show ?thesis
        unfolding c0(2) by (cases c0) auto
    next
      case False
      then obtain w vs' where "versions c0 = (VInline w, x, None) # vs'"
        using vs by (cases "rev (values_for k ws)") auto
      then show ?thesis
        unfolding c0(2) by (cases c0) auto
    qed
    ultimately show ?thesis
      by auto
  qed
  then show ?thesis
    using assms(1) by (auto simp: settled_before_def commit_all_of_def)
qed

interpretation paged_versions: versioned_store read_at "\<lambda>x l ws m. commit_all_of x l (put_all x ws m)" settled_before
  by unfold_locales (simp_all add: commit_all_read commit_all_settled settled_before_mono)

section \<open>Fuel\<close>

text \<open>No tree has as many nodes as there are page ids below 2^63, so that this is fuel enough.\<close>

lemma height_pages: "height t < length (pages t)" "kheight ks < length (kid_pages ks)"
  by (induction t and ks) auto

lemma leaves_pages_length: "length (leaves nx t) \<le> length (pages t)" "length (kid_leaves nx ks) \<le> length (kid_pages ks)"
  by (induction t and ks arbitrary: nx and nx) (auto intro: add_mono le_SucI)

lemma tree_on_fuel:
  assumes "tree_on E m L n s t"
  shows "height t < 2 ^ 63" "length (leaves nx t) \<le> 2 ^ 63"
proof -
  obtain N W where s: "holds E n s N W" "fitting (be_chain E) m L None None t" "set (pages t) \<subseteq> W"
    using assms by (rule tree_onE)
  obtain w where w: "implements (be_pager E) n (pb_pager s) w" "W = dom (pw_pages w)"
    using s(1) by (auto simp: holds_def)
  have "unat i < 2 ^ 63" if i: "i \<in> set (pages t)" for i
  proof -
    obtain p where "pw_pages w i = Some p"
      using i s(3) w(2) by auto
    moreover have "pager_inv (be_pager E) (pb_pager s) (pw_pages w)"
      using w(1) by (simp add: implements_def)
    ultimately have "unat i < unat (pm_next_virtual_id (pgr_mapper (pb_pager s)))"
      by (intro pager_inv_page(2))
    then show ?thesis
      using w(1) by (simp add: implements_def)
  qed
  then have "unat ` set (pages t) \<subseteq> {..<2 ^ 63}"
    by auto
  then have "card (unat ` set (pages t)) \<le> card {..<2 ^ 63 :: nat}"
    by (intro card_mono) simp_all
  moreover have "card (unat ` set (pages t)) = length (pages t)"
    using s(2) by (subst card_image) (auto simp: inj_on_def fitting_def distinct_card intro: unsigned_word_eqI)
  ultimately have "length (pages t) \<le> 2 ^ 63"
    by simp
  then show "height t < 2 ^ 63" "length (leaves nx t) \<le> 2 ^ 63"
    using height_pages(1) [of t] leaves_pages_length(1) [of nx t] by linarith+
qed

section \<open>Calls on a table\<close>

lemma tree_on_less: "tree_on E m L n s t \<Longrightarrow> n' \<le> n \<Longrightarrow> tree_on E m L n' s t"
  unfolding tree_on_def using holds_less by blast

definition small_map :: "btree_env \<Rightarrow> nat \<Rightarrow> versioned \<Rightarrow> bool" where
  "small_map E L mp \<longleftrightarrow> (\<forall>(k, c)\<in>set mp. small_entry (be_chain E) L \<lparr>le_key = k, le_chain = c\<rparr>)"

lemma small_map_pairs: "small_map E L (pairs es) \<longleftrightarrow> (\<forall>e\<in>set es. small_entry (be_chain E) L e)"
  by (induction es) (simp_all add: small_map_def small_entry_def leaf_entry_bytes_def)

lemma small_map_get: "small_map E L mp \<Longrightarrow> bt_get mp k = Some c \<Longrightarrow> small_entry (be_chain E) L \<lparr>le_key = k, le_chain = c\<rparr>"
  by (auto simp: small_map_def bt_get_def dest: map_of_SomeD)

lemma table_insert:
  assumes "table_map E m L (n + h + 2) h s mp" and "2 ^ 63 \<le> fuel" and "small_map E L (add_version k v x l mp)"
  shows "fruns (insert_internal fuel E k v x l) s (\<lambda>_ s'. table_map E m L n (Suc h) s' (add_version k v x l mp))"
proof -
  obtain t where t: "tree_on E m L (n + h + 2) s t" "height t \<le> h" "pairs (items t) = mp"
    using assms(1) by (auto simp: table_map_def)
  have "tree_on E m L (n + height t + 2) s t"
    using t(2) by (intro tree_on_less [OF t(1)]) simp
  then have "fruns (insert_loop (Suc 9) fuel E k v x l) s (\<lambda>_ s'. table_map E m L n (Suc h) s' (add_version k v x l mp))"
  proof (rule insert_loop_runs)
    show "height t < fuel"
      using tree_on_fuel(1) [OF t(1)] assms(2) by linarith
    show "small_entry (be_chain E) L \<lparr>le_key = k, le_chain = c\<rparr>" if "bt_get (add_version k v x l (pairs (items t))) k = Some c" for c
      using small_map_get [OF assms(3)] that t(3) by simp
    show "table_map E m L n (Suc h) s' (add_version k v x l mp)"
      if "tree_on E m L n s' t'" "height t' \<le> Suc (height t)" "pairs (items t') = add_version k v x l (pairs (items t))" for s' t'
      using that t(2,3) by (auto simp: table_map_def)
  qed
  then show ?thesis
    by (simp add: insert_internal_def eval_nat_numeral del: insert_loop.simps)
qed

lemma table_get:
  assumes "table_map E m L n h s mp" and "2 ^ 63 \<le> fuel" and "\<And>d. read_at mp k l = Some d \<Longrightarrow> d \<noteq> [] \<Longrightarrow> plain_value d"
  shows "fruns (get_internal fuel E k l) s (\<lambda>r s'. r = answer mp k l \<and> table_map E m L n h s' mp)"
proof -
  obtain t where t: "tree_on E m L n s t" "height t \<le> h" "pairs (items t) = mp"
    using assms(1) by (auto simp: table_map_def)
  then show ?thesis
    using tree_on_fuel(1) [OF t(1)] assms(2,3) by (intro get_internal_runs [OF t(1)]) (auto simp: table_map_def)
qed

lemma table_delete:
  assumes "table_map E m L n h s mp" and "2 ^ 63 \<le> fuel" and "small_map E L (bt_map (bury k x) mp)"
  shows "fruns (delete_internal fuel E k x) s (\<lambda>r s'. r = (bt_get mp k \<noteq> None) \<and> table_map E m L n h s' (bt_map (bury k x) mp))"
proof -
  obtain t where t: "tree_on E m L n s t" "height t \<le> h" "pairs (items t) = mp"
    using assms(1) by (auto simp: table_map_def)
  have "\<forall>e\<in>set (map_chains (bury k x) (items t)). small_entry (be_chain E) L e"
    using assms(3) t(3) by (simp add: small_map_pairs [symmetric])
  then show ?thesis
    using tree_on_fuel(1) [OF t(1)] assms(2) t by (intro delete_internal_runs [OF t(1)]) (auto simp: table_map_def intro!: exI [of _ "tmap (bury k x) t"])
qed

lemma table_commit:
  assumes "table_map E m L n h s mp" and "2 ^ 63 \<le> fuel" and "small_map E L (commit_all_of x l mp)"
  shows "fruns (commit_versions_for_tx fuel E x l) s (\<lambda>_ s'. table_map E m L n h s' (commit_all_of x l mp))"
proof -
  let ?f = "\<lambda>_. commit_chain_recursive x l"
  obtain t where t: "tree_on E m L n s t" "height t \<le> h" "pairs (items t) = mp"
    using assms(1) by (auto simp: table_map_def)
  have "\<forall>e\<in>set (map_chains ?f (items t)). small_entry (be_chain E) L e"
    using assms(3) t(3) by (simp add: small_map_pairs [symmetric] commit_all_of_def)
  then show ?thesis
    using tree_on_fuel(1) [OF t(1)] order_trans [OF tree_on_fuel(2) [OF t(1)] assms(2)] assms(2) t
    by (intro commit_tree_runs [OF t(1)]) (auto simp: table_map_def commit_all_of_def intro!: exI [of _ "tmap ?f t"])
qed

section \<open>Flushing\<close>

text \<open>No version of the map looks like a reference to overflow pages.\<close>

definition plain_map :: "versioned \<Rightarrow> bool" where
  "plain_map mp \<longleftrightarrow> (\<forall>(k, c)\<in>set mp. \<forall>(v, u, cl)\<in>set (versions c). \<forall>d. v = VInline d \<longrightarrow> d \<noteq> [] \<longrightarrow> plain_value d)"

lemma plain_read:
  assumes "plain_map mp" and "read_at mp k l = Some d" and "d \<noteq> []"
  shows "plain_value d"
proof -
  obtain c where c: "bt_get mp k = Some c" "Option.bind (find (sees (at_lsn l)) (versions c)) (\<lambda>x. as_inline (fst x)) = Some d"
    using assms(2) by (auto simp: read_at_lookup split: option.splits)
  then obtain y where y: "find (sees (at_lsn l)) (versions c) = Some y" "as_inline (fst y) = Some d"
    by (auto simp: bind_eq_Some_conv)
  then have "y \<in> set (versions c)"
    by (metis find_Some_iff nth_mem)
  moreover obtain v u cl where "y = (v, u, cl)"
    by (rule prod_cases3)
  ultimately have "(v, u, cl) \<in> set (versions c)" "as_inline v = Some d"
    using y(2) by simp_all
  moreover have "(k, c) \<in> set mp"
    using c(1) by (auto simp: bt_get_def dest: map_of_SomeD)
  moreover have "v = VInline d" if "as_inline v = Some d" for v
    using that by (cases v) auto
  ultimately show ?thesis
    using assms(1,3) unfolding plain_map_def by fast
qed

lemma plain_push:
  assumes "plain_map mp" and "bt_wf mp" and "v \<noteq> [] \<longrightarrow> plain_value v"
  shows "plain_map (push_version k v x mp)"
proof -
  have "\<forall>(w, u, cl)\<in>set (versions c'). \<forall>d. w = VInline d \<longrightarrow> d \<noteq> [] \<longrightarrow> plain_value d"
    if "(k', c') \<in> set (push_version k v x mp)" for k' c'
  proof -
    have "bt_get (push_version k v x mp) k' = Some c'"
      using that assms(2) by (subst bt_get_Some_iff) (simp_all add: push_version_def)
    then have "k' = k \<and> c' = (case bt_get mp k of Some c \<Rightarrow> prepend v x c | None \<Rightarrow> chain_new v x) \<or> (k', c') \<in> set mp"
      using assms(2) by (auto simp: push_version_def bt_get_Some_iff split: if_splits)
    moreover have "(k, c) \<in> set mp" if "bt_get mp k = Some c" for c
      using that assms(2) by (simp add: bt_get_Some_iff)
    ultimately show ?thesis
      using assms(1,3) unfolding plain_map_def by (fastforce split: option.splits)
  qed
  then show ?thesis
    unfolding plain_map_def by blast
qed

lemma plain_commit: "plain_map mp \<Longrightarrow> plain_map (commit_all_of x l mp)"
  unfolding plain_map_def commit_all_of_def bt_map_def
  by (fastforce simp: versions_commit_chain stamp_def split: prod.splits)

lemma plain_not_external: "v \<noteq> [] \<Longrightarrow> plain_value v \<Longrightarrow> \<not> is_external_value v"
  by (cases v) (auto simp: is_external_value_def plain_value_def ref_decode_def split: if_splits)

lemma table_put:
  assumes "table_map E m L (n + h + 2) h s mp" and "2 ^ 63 \<le> fuel" and "plain_map mp" and "small_map E L (push_version k v x mp)"
  shows "fruns (paged_flush_change fuel E x l (PInline k v)) s (\<lambda>_ s'. table_map E m L n (Suc h) s' (push_version k v x mp))"
proof -
  have ins: "fruns (insert_internal fuel E k v x 0) u (\<lambda>_ s'. table_map E m L n (Suc h) s' (push_version k v x mp))"
    if "table_map E m L (n + h + 2) h u mp" for u
    using table_insert [OF that assms(2), of k v x 0] assms(4) by (simp add: add_version_uncommitted)
  have "\<not> is_external_value d" if "answer mp k l = Some d" for d
    using that plain_read [OF assms(3)] plain_not_external by (auto simp: answer_def split: option.splits if_splits)
  then have "fruns (case answer mp k l of
       None \<Rightarrow> flift (pret ())
     | Some v \<Rightarrow>
         if is_external_value v
         then case ref_decode v of Inl e \<Rightarrow> flift (perr InvalidValueRef) | Inr r \<Rightarrow> writer_free_value_ref fuel E r
         else flift (pret ())) u Q = Q () u" for u Q
    by (auto split: option.split)
  then have "fruns (release_old fuel E k l) s (\<lambda>_ u. table_map E m L (n + h + 2) h u mp)"
    using fruns_mono [OF table_get [OF assms(1,2) plain_read [OF assms(3)], where k = k and l = l]]
    by (simp add: release_old_def)
  from fruns_mono [OF this ins] show ?thesis
    by simp
qed

text \<open>The pages that \<open>p\<close> insertions may take, each up to one for every level and a new root.\<close>

fun need :: "nat \<Rightarrow> nat \<Rightarrow> nat" where
  "need h 0 = 0"
| "need h (Suc p) = need (Suc h) p + h + 2"

fun puts_small :: "btree_env \<Rightarrow> nat \<Rightarrow> txn_id \<Rightarrow> (bytes \<times> bytes) list \<Rightarrow> versioned \<Rightarrow> bool" where
  "puts_small E L x [] mp \<longleftrightarrow> True"
| "puts_small E L x ((k, v) # ws) mp \<longleftrightarrow>
     small_map E L (push_version k v x mp) \<and> puts_small E L x ws (push_version k v x mp)"

definition plain_rows :: "(bytes \<times> bytes) list \<Rightarrow> bool" where
  "plain_rows ws \<longleftrightarrow> (\<forall>(k, v)\<in>set ws. v \<noteq> [] \<longrightarrow> plain_value v)"

lemma put_all_Cons: "put_all x ((k, v) # ws) mp = put_all x ws (push_version k v x mp)"
  by (simp add: put_all_def)

lemma push_wf: "bt_wf mp \<Longrightarrow> bt_wf (push_version k v x mp)"
  by (simp add: push_version_def)

lemma plain_put_all: "plain_map mp \<Longrightarrow> bt_wf mp \<Longrightarrow> plain_rows ws \<Longrightarrow> plain_map (put_all x ws mp)"
proof (induction ws arbitrary: mp)
  case (Cons w ws)
  then show ?case
    using plain_push [of mp "snd w" "fst w" x] push_wf [of mp "fst w" "snd w" x]
    by (cases w) (simp add: put_all_Cons plain_rows_def)
qed (simp add: put_all_def)

lemma table_puts:
  assumes "table_map E m L (n + need h (length ws)) h s mp" and "2 ^ 63 \<le> fuel" and "plain_map mp" and "bt_wf mp"
    and "plain_rows ws" and "puts_small E L x ws mp"
  shows "fruns (paged_flush_changes fuel E x l (map (\<lambda>(k, v). PInline k v) ws)) s
    (\<lambda>_ s'. table_map E m L n (h + length ws) s' (put_all x ws mp))"
  using assms
proof (induction ws arbitrary: h s mp)
  case (Cons w ws)
  obtain k v where w: "w = (k, v)"
    by fastforce
  let ?mp = "push_version k v x mp"
  have "table_map E m L ((n + need (Suc h) (length ws)) + h + 2) h s mp"
    using Cons.prems(1) by (simp add: add.assoc)
  then have "fruns (paged_flush_change fuel E x l (PInline k v)) s (\<lambda>_ s'. table_map E m L (n + need (Suc h) (length ws)) (Suc h) s' ?mp)"
    using Cons.prems by (intro table_put) (auto simp: w)
  moreover have "fruns (paged_flush_changes fuel E x l (map (\<lambda>(k, v). PInline k v) ws)) u
      (\<lambda>_ s'. table_map E m L n (Suc h + length ws) s' (put_all x ws ?mp))"
    if "table_map E m L (n + need (Suc h) (length ws)) (Suc h) u ?mp" for u
    using Cons.prems plain_push [of mp v k x] push_wf [of mp k v x] by (intro Cons.IH [OF that]) (auto simp: w plain_rows_def)
  ultimately have "fruns (paged_flush_change fuel E x l (PInline k v)) s (\<lambda>_ u.
      fruns (paged_flush_changes fuel E x l (map (\<lambda>(k, v). PInline k v) ws)) u
        (\<lambda>_ s'. table_map E m L n (Suc h + length ws) s' (put_all x ws ?mp)))"
    by (rule fruns_mono)
  then show ?case
    by (simp add: w put_all_Cons del: paged_flush_change.simps)
qed (simp add: put_all_def)

section \<open>Transactions\<close>

fun put_rows :: "(bytes \<times> bytes) list \<Rightarrow> unit writer_walk" where
  "put_rows [] = flift (pret ())"
| "put_rows ((k, v) # ws) = fbind (paged_put k v) (\<lambda>_. put_rows ws)"

text \<open>A transaction on a table: the writer puts the rows, flushes them and commits their versions.\<close>

definition write_txn :: "nat \<Rightarrow> btree_env \<Rightarrow> lsn \<Rightarrow> commit \<Rightarrow> unit tree_walk" where
  "write_txn fuel E snap = (\<lambda>(x, l, ws) s.
     case fbind (put_rows ws) (\<lambda>_. fbind (paged_flush fuel E) (\<lambda>_. paged_commit_versions fuel E l)) (tree_writer s x snap) of
       None \<Rightarrow> None
     | Some (r, w) \<Rightarrow> Some (r, pw_tree w))"

lemma put_rows_pending:
  "put_rows ws w = Some (Inr (), w\<lparr>pw_pending := pw_pending w @ map (\<lambda>(k, v). PInline k v) ws\<rparr>)"
proof (induction ws arbitrary: w)
  case (Cons r ws)
  then show ?case
    by (cases r) (simp add: fbind_def paged_put_def push_change_def)
qed (simp add: flift_def pret_def)

lemma fruns_on_tree: "fruns (on_tree m) w Q \<longleftrightarrow> fruns m (pw_tree w) (\<lambda>a t. Q a (w\<lparr>pw_tree := t\<rparr>))"
  by (auto simp: fruns_def on_tree_def wlift_def split: option.splits)

lemma write_txn_runs:
  assumes "fruns (paged_flush_changes fuel E x snap (map (\<lambda>(k, v). PInline k v) ws)) s
    (\<lambda>_ u. fruns (commit_versions_for_tx fuel E x l) u Q)"
  shows "fruns (write_txn fuel E snap (x, l, ws)) s Q"
proof -
  let ?w = "tree_writer s x snap"
  let ?cs = "map (\<lambda>(k, v). PInline k v) ws"
  have commit: "fruns (paged_commit_versions fuel E l) w (\<lambda>a u. Q a (pw_tree u))"
    if "fruns (commit_versions_for_tx fuel E x l) (pw_tree w) Q" "pw_tx_id w = x" for w
  proof -
    have "fruns (on_tree (commit_versions_for_tx fuel E x l)) w (\<lambda>a u. Q a (pw_tree u))"
      unfolding fruns_on_tree using that by simp
    then show ?thesis
      using that(2) by (simp add: fruns_def paged_commit_versions_def)
  qed
  have "fruns (paged_flush fuel E) (?w\<lparr>pw_pending := ?cs\<rparr>) (\<lambda>_ w. fruns (paged_commit_versions fuel E l) w (\<lambda>a u. Q a (pw_tree u)))"
  proof (cases ws)
    case Nil
    then show ?thesis
      using assms commit [of "?w\<lparr>pw_pending := ?cs\<rparr>"] by (simp add: fruns_def [of "paged_flush fuel E"] paged_flush_def tree_writer_def)
  next
    case (Cons r rs)
    have "fruns (on_tree (paged_flush_changes fuel E x snap ?cs)) ?w (\<lambda>_ w. fruns (paged_commit_versions fuel E l) w (\<lambda>a u. Q a (pw_tree u)))"
      unfolding fruns_on_tree using fruns_mono [OF assms] commit by (auto simp: tree_writer_def)
    then show ?thesis
      using Cons by (simp add: fruns_def [of "paged_flush fuel E"] fruns_def [of "on_tree m" for m] paged_flush_def tree_writer_def)
  qed
  then have "fruns (fbind (put_rows ws) (\<lambda>_. fbind (paged_flush fuel E) (\<lambda>_. paged_commit_versions fuel E l))) ?w (\<lambda>a u. Q a (pw_tree u))"
    by (simp add: fruns_def [of "put_rows ws"] put_rows_pending tree_writer_def)
  then show ?thesis
    by (auto simp: fruns_def [of _ ?w] fruns_def [of _ s] write_txn_def)
qed

text \<open>Transactions one after the other, each with the snapshot its writer was opened at.\<close>

fun write_txns :: "nat \<Rightarrow> btree_env \<Rightarrow> (lsn \<times> commit) list \<Rightarrow> unit tree_walk" where
  "write_txns fuel E [] = flift (pret ())"
| "write_txns fuel E ((snap, c) # hs) = fbind (write_txn fuel E snap c) (\<lambda>_. write_txns fuel E hs)"

text \<open>What the limits ask of a history: entries small enough at every moment, and values that are not references.\<close>

fun hist_small :: "btree_env \<Rightarrow> nat \<Rightarrow> commit list \<Rightarrow> versioned \<Rightarrow> bool" where
  "hist_small E L [] mp \<longleftrightarrow> True"
| "hist_small E L ((x, l, ws) # hs) mp \<longleftrightarrow>
     (let mp' = commit_all_of x l (put_all x ws mp) in
      puts_small E L x ws mp \<and> plain_rows ws \<and> small_map E L mp' \<and> hist_small E L hs mp')"

definition rows_written :: "commit list \<Rightarrow> nat" where
  "rows_written hs = sum_list (map (\<lambda>(x, l, ws). length ws) hs)"

lemma need_add: "need h (p + q) = need h p + need (h + p) q"
  by (induction p arbitrary: h) simp_all

lemma table_map_less: "table_map E m L n h s mp \<Longrightarrow> n' \<le> n \<Longrightarrow> table_map E m L n' h s mp"
  unfolding table_map_def using tree_on_less by blast

lemma table_txn:
  assumes "table_map E m L (n + need h (length ws)) h s mp" and "2 ^ 63 \<le> fuel" and "plain_map mp" and "bt_wf mp"
    and "plain_rows ws" and "puts_small E L x ws mp" and "small_map E L (commit_all_of x l (put_all x ws mp))"
  shows "fruns (write_txn fuel E snap (x, l, ws)) s
    (\<lambda>_ u. table_map E m L n (h + length ws) u (commit_all_of x l (put_all x ws mp)))"
proof (rule write_txn_runs)
  show "fruns (paged_flush_changes fuel E x snap (map (\<lambda>(k, v). PInline k v) ws)) s
    (\<lambda>_ u. fruns (commit_versions_for_tx fuel E x l) u
      (\<lambda>_ u. table_map E m L n (h + length ws) u (commit_all_of x l (put_all x ws mp))))"
    using table_commit [OF _ assms(2,7)] by (rule fruns_mono [OF table_puts [OF assms(1-6)]])
qed

lemma commit_all_wf: "bt_wf m \<Longrightarrow> bt_wf (commit_all_of x l m)"
  by (simp add: commit_all_of_def)

lemma write_txns_runs:
  assumes "table_map E m L (n + need h (rows_written (map snd hs))) h s mp" and "2 ^ 63 \<le> fuel" and "plain_map mp" and "bt_wf mp"
    and "hist_small E L (map snd hs) mp"
  shows "fruns (write_txns fuel E hs) s (\<lambda>_ u. \<exists>h'. table_map E m L n h' u
    (fold (\<lambda>(x, l, ws) mp. commit_all_of x l (put_all x ws mp)) (map snd hs) mp) \<and>
    plain_map (fold (\<lambda>(x, l, ws) mp. commit_all_of x l (put_all x ws mp)) (map snd hs) mp))"
  using assms
proof (induction hs arbitrary: h s mp)
  case (Cons c hs)
  obtain snap x l ws where c: "c = (snap, x, l, ws)"
    by (cases c)
  let ?mp = "commit_all_of x l (put_all x ws mp)" and ?n = "n + need (h + length ws) (rows_written (map snd hs))"
  have "table_map E m L (?n + need h (length ws)) h s mp"
    using Cons.prems(1) by (simp add: c rows_written_def need_add add_ac)
  then have "fruns (write_txn fuel E snap (x, l, ws)) s (\<lambda>_ u. table_map E m L ?n (h + length ws) u ?mp)"
    using Cons.prems by (intro table_txn) (simp_all add: c Let_def)
  moreover have "plain_map ?mp" "bt_wf ?mp"
    using Cons.prems by (simp_all add: c Let_def plain_commit plain_put_all commit_all_wf put_all_wf)
  ultimately have "fruns (write_txn fuel E snap (x, l, ws)) s (\<lambda>_ u. fruns (write_txns fuel E hs) u
      (\<lambda>_ u. \<exists>h'. table_map E m L n h' u (fold (\<lambda>(x, l, ws) mp. commit_all_of x l (put_all x ws mp)) (map snd hs) ?mp) \<and>
        plain_map (fold (\<lambda>(x, l, ws) mp. commit_all_of x l (put_all x ws mp)) (map snd hs) ?mp)))"
    using Cons.IH [of "h + length ws" _ ?mp] Cons.prems(2,5) by (auto simp: c Let_def intro: fruns_mono)
  then show ?case
    by (simp add: c)
next
  case Nil
  then show ?case
    by (auto simp: rows_written_def)
qed

section \<open>New tables\<close>

lemma on_pager_pbind: "on_pager (pbind m f) = pbind (on_pager m) (\<lambda>a. on_pager (f a))"
  by (auto simp: fun_eq_iff on_pager_def pbind_def split: prod.split sum.split)

lemma on_pager_pret: "on_pager (pret a) = pret a"
  by (simp add: fun_eq_iff on_pager_def pret_def)

lemma superblock_calls_run:
  assumes "btree_env_ok E" and "holds E n s N W"
  shows "runs (on_pager (set_root_btree_page (be_pager E) r)) s (\<lambda>_ t. holds E n t N W \<and> pager_moved s t)"
    and "runs (on_pager (set_btree_row_count (be_pager E) c)) s (\<lambda>_ t. holds E n t N W \<and> pager_moved s t)"
  using superblock_field_runs [OF assms, of "(pgr_superblock (pb_pager s))\<lparr>sb_root_btree_page := r\<rparr>"]
    superblock_field_runs [OF assms, of "(pgr_superblock (pb_pager s))\<lparr>sb_btree_row_count := c\<rparr>"]
  by (simp_all add: runs_on_pager set_root_btree_page_def set_btree_row_count_def Let_def)

lemma paged_new_runs:
  assumes env: "btree_env_ok E" and imp: "implements (be_pager E) (Suc n) p w"
    and limit: "21 + calculate_max_order (data_size_of p) * L \<le> data_size_of p"
  shows "\<exists>s p'. paged_new E i nm p = (Inr s, p') \<and> table_map E (calculate_max_order (data_size_of p)) L n 0 s []"
proof -
  let ?d = "data_size_of p" let ?m = "calculate_max_order ?d"
  define s0 where "s0 = \<lparr>pb_id = i, pb_name = nm, pb_pager = p, pb_root = 0, pb_row_count = 0, pb_max_order = ?m,
      pb_min_keys = ?m div 2, pb_max_node_size = ?d * 3 div 5\<rparr>"
  have d0: "?d < 2 ^ 32"
    using size_of_bounds [of p] size_of_data [of p] by simp
  then have dims: "dims E ?m L s0"
    using env limit by (simp add: dims_def s0_def calculate_max_order_def)
  have h: "holds E (Suc n) s0 (node_view E (pw_pages w)) (dom (pw_pages w))"
    using imp by (auto simp: holds_def s0_def)
  let ?N = "node_view E (pw_pages w)" and ?W = "dom (pw_pages w)"
  let ?Q = "\<lambda>r t. holds E n t (?N(r \<mapsto> new_leaf)) (insert r ?W) \<and> pager_moved s0 t"
  have fits: "node_fits E s new_leaf" if "pager_moved s0 s" for s
    using that small_node_fits [OF dims_pager_moved [OF dims that], of new_leaf] by (simp add: new_leaf_def)
  have sb: "runs (on_pager (set_root_btree_page (be_pager E) r)) t (\<lambda>_ t. runs (on_pager (set_btree_row_count (be_pager E) 0)) t (\<lambda>_. ?Q r))"
    if "?Q r t" for r t
    using that by (auto intro!: runs_mono [OF superblock_calls_run(1) [OF env]] runs_mono [OF superblock_calls_run(2) [OF env]]
        intro: pager_moved_trans)
  have wr: "runs (write_node E r new_leaf) t (\<lambda>_ t. runs (on_pager (set_root_btree_page (be_pager E) r)) t
      (\<lambda>_ t. runs (on_pager (set_btree_row_count (be_pager E) 0)) t (\<lambda>_. ?Q r)))"
    if "holds E n t ?N (insert r ?W)" "pager_moved s0 t" for r t
    using that fits [OF that(2)] by (auto intro!: runs_mono [OF write_node_runs [OF env that(1)]] sb intro: pager_moved_trans)
  have "runs (on_pager (pbind (allocate_page (be_pager E) PT_BTreeLeaf) (\<lambda>root.
           pbind (write_page (be_pager E) (node_page (be_chain E) root new_leaf)) (\<lambda>_.
           pbind (set_root_btree_page (be_pager E) root) (\<lambda>_.
           pbind (set_btree_row_count (be_pager E) 0) (\<lambda>_. pret root)))))) s0 ?Q"
    unfolding on_pager_pbind on_pager_pret write_node_def [symmetric] runs_pbind runs_pret
    by (rule runs_mono [OF allocate_runs [OF env h]]) (auto intro: wr simp: readable_type_def)
  then obtain r p' where new: "paged_new E i nm p = (Inr (s0\<lparr>pb_pager := p', pb_root := r\<rparr>), p')" and Q: "?Q r (s0\<lparr>pb_pager := p'\<rparr>)"
    by (auto simp: runs_on_pager paged_new_def s0_def Let_def)
  have mv: "tree_moved s0 (s0\<lparr>pb_pager := p', pb_root := r\<rparr>)"
    using Q by (cases s0) (simp add: tree_moved_def pager_moved_def)
  have "holds E n (s0\<lparr>pb_pager := p', pb_root := r\<rparr>) (?N(r \<mapsto> new_leaf)) (insert r ?W)"
    using Q by (simp add: holds_def)
  from tree_onI [OF dims_moved [OF dims mv] this] have "tree_on E ?m L n (s0\<lparr>pb_pager := p', pb_root := r\<rparr>) (TLeaf r [])"
    using dims by (simp add: new_leaf_def fitting_def dims_def)
  then show ?thesis
    using new by (auto simp: table_map_def intro!: exI [of _ "TLeaf r []"])
qed

section \<open>An encoding of version chains\<close>

text \<open>
  One encoding that decodes to what was encoded, so that the hypothesis on the encoding can be met: byte
  strings escaped byte by byte, integers without their leading zeros.
\<close>

fun escape :: "bytes \<Rightarrow> bytes" where
  "escape [] = [0]"
| "escape (b # bs) = 1 # b # escape bs"

fun unescape :: "bytes \<Rightarrow> (bytes \<times> bytes) option" where
  "unescape [] = None"
| "unescape (t # bs) =
     (if t = 0 then Some ([], bs)
      else case bs of [] \<Rightarrow> None | b # bs \<Rightarrow> (case unescape bs of None \<Rightarrow> None | Some (d, r) \<Rightarrow> Some (b # d, r)))"

lemma unescape_escape [simp]: "unescape (escape d @ r) = Some (d, r)"
  by (induction d) simp_all

definition trim :: "bytes \<Rightarrow> bytes" where
  "trim bs = rev (dropWhile (\<lambda>b. b = 0) (rev bs))"

lemma untrim: "length bs = n \<Longrightarrow> take n (trim bs @ replicate n 0) = bs"
proof -
  assume n: "length bs = n"
  let ?z = "takeWhile (\<lambda>b. b = 0) (rev bs)"
  have z: "rev ?z = replicate (length ?z) 0"
    by (metis (mono_tags, lifting) replicate_length_same rev_replicate set_takeWhileD)
  have bs: "bs = trim bs @ replicate (length ?z) 0"
    using z by (metis rev_append rev_rev_ident takeWhile_dropWhile_id trim_def)
  then have l: "length (trim bs) + length ?z = n"
    using n by (metis length_append length_replicate)
  then have "take (n - length (trim bs)) (replicate n (0 :: 8 word)) = replicate (length ?z) 0"
    by (simp add: take_replicate flip: l)
  then show ?thesis
    using l bs by simp
qed

definition word_bytes :: "u64 \<Rightarrow> bytes" where
  "word_bytes w = escape (trim (u64_le w))"

definition read_word :: "bytes \<Rightarrow> (u64 \<times> bytes) option" where
  "read_word bs = map_option (\<lambda>(d, r). (u64_of_le (take 8 (d @ replicate 8 0)), r)) (unescape bs)"

lemma read_word_bytes [simp]: "read_word (word_bytes w @ r) = Some (w, r)"
  using untrim [of "u64_le w" 8] by (simp add: read_word_def word_bytes_def del: take_append)

fun value_bytes :: "version_value \<Rightarrow> bytes" where
  "value_bytes (VInline d) = 0 # escape d"
| "value_bytes (VExternal r) = 1 # escape (ref_encode r)"

fun read_value :: "bytes \<Rightarrow> (version_value \<times> bytes) option" where
  "read_value [] = None"
| "read_value (t # bs) =
     (case unescape bs of
        None \<Rightarrow> None
      | Some (d, r) \<Rightarrow>
          if t = 0 then Some (VInline d, r)
          else case ref_decode d of Inl e \<Rightarrow> None | Inr v \<Rightarrow> Some (VExternal v, r))"

lemma read_value_bytes [simp]: "read_value (value_bytes v @ r) = Some (v, r)"
  by (cases v) (simp_all add: ref_decode_encode)

fun lsn_bytes :: "lsn option \<Rightarrow> bytes" where
  "lsn_bytes None = [0]"
| "lsn_bytes (Some l) = 1 # word_bytes l"

fun read_lsn :: "bytes \<Rightarrow> (lsn option \<times> bytes) option" where
  "read_lsn [] = None"
| "read_lsn (t # bs) = (if t = 0 then Some (None, bs) else map_option (map_prod Some id) (read_word bs))"

lemma read_lsn_bytes [simp]: "read_lsn (lsn_bytes l @ r) = Some (l, r)"
  by (cases l) simp_all

fun chain_bytes :: "version_chain \<Rightarrow> bytes" where
  "chain_bytes (VersionChain v x l p) =
     value_bytes v @ word_bytes x @ lsn_bytes l @ (case p of None \<Rightarrow> [0] | Some c \<Rightarrow> 1 # chain_bytes c)"

fun read_chain :: "nat \<Rightarrow> bytes \<Rightarrow> version_chain option" where
  "read_chain 0 bs = None"
| "read_chain (Suc fuel) bs =
     do {
       (v, bs) \<leftarrow> read_value bs;
       (x, bs) \<leftarrow> read_word bs;
       (l, bs) \<leftarrow> read_lsn bs;
       if hd bs = 0 then Some (VersionChain v x l None)
       else map_option (\<lambda>c. VersionChain v x l (Some c)) (read_chain fuel (tl bs))
     }"

definition sample_codec :: chain_codec where
  "sample_codec = \<lparr>cc_to_allocvec = chain_bytes, cc_from_bytes = (\<lambda>bs. read_chain (length bs) bs)\<rparr>"

lemma read_chain_bytes: "length (chain_bytes c) \<le> fuel \<Longrightarrow> read_chain fuel (chain_bytes c) = Some c"
proof (induction c arbitrary: fuel rule: chain_bytes.induct)
  case (1 v x l p)
  then obtain g where g: "fuel = Suc g"
    by (cases fuel; cases v) auto
  then show ?case
    using 1 by (cases p) (simp_all split: option.split)
qed

lemma sample_codec_ok: "chain_codec_ok sample_codec"
  by (simp add: chain_codec_ok_def sample_codec_def read_chain_bytes)

definition sample_tree_env :: btree_env where
  "sample_tree_env = \<lparr>be_pager = sample_env, be_chain = sample_codec\<rparr>"

lemma sample_tree_env_ok: "btree_env_ok sample_tree_env"
  by (simp add: btree_env_ok_def sample_tree_env_def sample_env_ok sample_codec_ok)

section \<open>The table over time\<close>

text \<open>
  C34. A new table, followed by any number of transactions, each of which puts its rows through a
  writer, flushes them and commits their versions: every call succeeds, whatever splits the insertions
  cause, and afterwards a reader at any log sequence number gets what the latest commit up to it wrote
  under the key, an empty value reading as no value. The rows are small: a key together with the whole
  chain of its versions takes no more than \<open>L\<close> bytes, where as many entries as a node may
  have fit a page, which is about 50 bytes for every page size, since the order grows with the page;
  larger entries can overrun a page. There is room for the pages of the splits, and no value is the
  encoding of a reference to overflow pages. Deletions are not among the calls.
\<close>

theorem paged_history:
  assumes "btree_env_ok E" and "implements (be_pager E) (Suc (need 0 (rows_written (map snd hs)))) p w"
    and "21 + calculate_max_order (data_size_of p) * L \<le> data_size_of p"
    and "history_from 0 (map snd hs)" and "hist_small E L (map snd hs) []" and "2 ^ 63 \<le> fuel"
  shows "\<exists>s p'. paged_new E i nm p = (Inr s, p') \<and>
    fruns (write_txns fuel E hs) s (\<lambda>_ u.
      \<forall>k l. fruns (get_internal fuel E k l) u (\<lambda>r _. r = Option.bind (value_at (map snd hs) k l None) (\<lambda>d. if d = [] then None else Some d)))"
proof -
  let ?mp = "fold (\<lambda>(x, l, ws) mp. commit_all_of x l (put_all x ws mp)) (map snd hs) []"
  obtain s p' where s: "paged_new E i nm p = (Inr s, p')"
    "table_map E (calculate_max_order (data_size_of p)) L (0 + need 0 (rows_written (map snd hs))) 0 s []"
    using paged_new_runs [OF assms(1-3)] by fastforce
  have "settled_before 0 []"
    by (simp add: settled_before_def)
  then have val: "read_at ?mp k l = value_at (map snd hs) k l None" for k l
    using paged_versions.history [OF _ assms(4), of "[]" k l] by (simp add: read_at_def)
  have "fruns (write_txns fuel E hs) s (\<lambda>_ u. \<exists>h'. table_map E (calculate_max_order (data_size_of p)) L 0 h' u ?mp \<and> plain_map ?mp)"
    using assms(5) by (intro write_txns_runs [OF s(2) assms(6)]) (simp_all add: plain_map_def)
  moreover have "fruns (get_internal fuel E k l) u (\<lambda>r _. r = Option.bind (value_at (map snd hs) k l None) (\<lambda>d. if d = [] then None else Some d))"
    if "table_map E (calculate_max_order (data_size_of p)) L 0 h' u ?mp" "plain_map ?mp" for h' u k l
    by (rule fruns_mono [OF table_get [OF that(1) assms(6) plain_read [OF that(2)]]])
      (auto simp: answer_def val split: option.split)
  ultimately show ?thesis
    using s(1) by (blast intro: fruns_mono)
qed

lemma sample_words: "word_bytes 5 = [1, 5, 0]" "word_bytes 6 = [1, 6, 0]" "word_bytes 10 = [1, 10, 0]" "word_bytes 20 = [1, 20, 0]"
  by code_simp+

lemmas sample_small = sample_tree_env_def sample_codec_def put_all_def push_version_def commit_all_of_def small_map_def
  small_entry_def leaf_entry_bytes_def len_prefixed_def chain_new_def prepend_def sample_words bt_get_def bt_map_def
  plain_rows_def plain_value_def

theorem paged_history_witness:
  "\<exists>p s p'. pager_create sample_env 7 memory_fs_new ''db'' pager_config_default = Inr p \<and>
     paged_new sample_tree_env 1 ''t'' p = (Inr s, p') \<and>
     fruns (write_txns (2 ^ 63) sample_tree_env [(0, 5, 10, [([1], [7])]), (10, 6, 20, [([1], [8])])]) s (\<lambda>_ u.
       fruns (get_internal (2 ^ 63) sample_tree_env [1] 15) u (\<lambda>r _. r = Some [7]) \<and>
       fruns (get_internal (2 ^ 63) sample_tree_env [1] 25) u (\<lambda>r _. r = Some [8]))"
proof -
  let ?hs = "[(0, 5, 10, [([1], [7])]), (10, 6, 20, [([1], [8])])] :: (lsn \<times> commit) list"
  obtain p where p: "pager_create sample_env 7 memory_fs_new ''db'' pager_config_default = Inr p"
    "pgr_config p = pager_config_default" "implements sample_env 9 p store_new"
    by (rule sample_created)
  have d: "data_size_of p = 4032"
    using p(2) by (simp add: data_size_of_def pager_config_default_def page_data_size_def page_header_size_def page_checksum_size_def)
  have imp: "implements (be_pager sample_tree_env) (Suc (need 0 (rows_written (map snd ?hs)))) p store_new"
    by (rule implements_less [where n = 9]) (use p(3) in \<open>simp_all add: sample_tree_env_def rows_written_def numeral_2_eq_2\<close>)
  have "hist_small sample_tree_env 50 (map snd ?hs) []"
    by (simp add: sample_small)
  moreover have "history_from 0 (map snd ?hs)"
    by simp
  ultimately obtain s p' where "paged_new sample_tree_env 1 ''t'' p = (Inr s, p')" and
    "fruns (write_txns (2 ^ 63) sample_tree_env ?hs) s (\<lambda>_ u. \<forall>k l. fruns (get_internal (2 ^ 63) sample_tree_env k l) u
      (\<lambda>r _. r = Option.bind (value_at (map snd ?hs) k l None) (\<lambda>d. if d = [] then None else Some d)))"
    using paged_history [OF sample_tree_env_ok imp, of 50 "2 ^ 63" 1 "''t''"] d by (auto simp: calculate_max_order_def)
  then show ?thesis
    using p(1) by (fastforce elim: fruns_mono)
qed

section \<open>Deletions\<close>

lemma bt_eqI:
  assumes "bt_wf m" and "bt_wf m'" and "\<And>k. bt_get m k = bt_get m' k"
  shows "m = m'"
proof (rule map_sorted_distinct_set_unique)
  show eq: "set m = set m'"
    using assms by (auto simp: set_eq_iff simp flip: bt_get_Some_iff)
  show "sorted (map fst m)" "sorted (map fst m')"
    using assms(1,2) by (simp_all add: bt_wf_def strict_sorted_imp_sorted)
  show d: "distinct (map fst m)" "distinct (map fst m')"
    using assms(1,2) by (simp_all add: bt_wf_distinct)
  show "inj_on fst (set m \<union> set m')"
    using d(1) eq by (simp add: distinct_map)
qed

lemma bury_absent: "bt_wf mp \<Longrightarrow> bt_get mp k = None \<Longrightarrow> bt_map (bury k x) mp = mp"
  by (intro bt_eqI) (auto simp: bury_def map_option_case split: option.split)

lemma bury_present: "bt_wf mp \<Longrightarrow> bt_get mp k = Some c \<Longrightarrow> bt_map (bury k x) mp = push_version k [] x mp"
  by (intro bt_eqI) (auto simp: bury_def push_version_def option.map_ident_strong)

lemma delete_read:
  assumes "settled_before l mp" and "plain_map mp"
  shows "answer (commit_all_of x l (bt_map (bury k x) mp)) j n = (if j = k \<and> l \<le> n then None else answer mp j n)"
    and "plain_map (commit_all_of x l (bt_map (bury k x) mp))"
proof -
  have wf: "bt_wf mp"
    using assms(1) by (simp add: settled_before_def)
  show "answer (commit_all_of x l (bt_map (bury k x) mp)) j n = (if j = k \<and> l \<le> n then None else answer mp j n)"
  proof (cases "bt_get mp k")
    case None
    then show ?thesis
      using commit_all_read [OF assms(1), of x "[]" j n] wf by (auto simp: answer_def bury_absent put_all_def read_at_def)
  next
    case (Some c)
    then show ?thesis
      using commit_all_read [OF assms(1), of x "[(k, [])]" j n] wf by (auto simp: answer_def bury_present put_all_def)
  qed
  show "plain_map (commit_all_of x l (bt_map (bury k x) mp))"
    using wf assms(2) by (cases "bt_get mp k") (simp_all add: bury_absent bury_present plain_push plain_commit)
qed

text \<open>
  C37. Deleting a key from a table and committing: the call says whether the key was there, readers at
  the commit and later no longer see it, and every other key and every earlier reader sees what it
  saw. The rows stay small with the tombstone, no value is the encoding of a reference, and the
  versions of the table are committed before.
\<close>

theorem paged_delete_hides:
  assumes "table_map E m L n h s mp" and "2 ^ 63 \<le> fuel" and "plain_map mp" and "settled_before l mp"
    and "small_map E L (bt_map (bury k x) mp)" and "small_map E L (commit_all_of x l (bt_map (bury k x) mp))"
  shows "fruns (delete_internal fuel E k x) s (\<lambda>r u. r = (bt_get mp k \<noteq> None) \<and>
    fruns (commit_versions_for_tx fuel E x l) u (\<lambda>_ t.
      \<forall>j i. fruns (get_internal fuel E j i) t (\<lambda>a _. a = (if j = k \<and> l \<le> i then None else answer mp j i))))"
proof -
  let ?mp = "commit_all_of x l (bt_map (bury k x) mp)"
  note plain = plain_read [OF delete_read(2) [OF assms(4,3), of x k]]
  have get: "fruns (get_internal fuel E j i) t (\<lambda>a _. a = (if j = k \<and> l \<le> i then None else answer mp j i))"
    if "table_map E m L n h t ?mp" for t j i
    unfolding delete_read(1) [OF assms(4,3), of x k j i, symmetric]
    using plain by (rule fruns_mono [OF table_get [OF that assms(2)]]) (assumption | erule conjunct1)+
  have "fruns (commit_versions_for_tx fuel E x l) u (\<lambda>_ t.
      \<forall>j i. fruns (get_internal fuel E j i) t (\<lambda>a _. a = (if j = k \<and> l \<le> i then None else answer mp j i)))"
    if "table_map E m L n h u (bt_map (bury k x) mp)" for u
    by (rule fruns_mono [OF table_commit [OF that assms(2,6)]]) (use get in blast)
  then show ?thesis
    by (intro fruns_mono [OF table_delete [OF assms(1,2,5)]]) blast
qed

text \<open>A table with two rows, on a new file.\<close>

definition sample_map :: versioned where
  "sample_map = [([1], VersionChain (VInline [7]) 5 (Some 10) None), ([2], VersionChain (VInline [8]) 5 (Some 10) None)]"

lemma sample_table:
  obtains s where "table_map sample_tree_env 80 50 0 2 s sample_map"
proof -
  let ?ws = "[([1], [7]), ([2], [8])] :: (bytes \<times> bytes) list"
  obtain p where p: "pgr_config p = pager_config_default" "implements sample_env 9 p store_new"
    by (rule sample_created)
  have d: "data_size_of p = 4032"
    using p(1) by (simp add: data_size_of_def pager_config_default_def page_data_size_def page_header_size_def page_checksum_size_def)
  have imp: "implements (be_pager sample_tree_env) (Suc 5) p store_new"
    by (rule implements_less [where n = 9]) (use p(2) in \<open>simp_all add: sample_tree_env_def\<close>)
  have "need 0 (length ?ws) = 5"
    by simp
  then obtain s0 where "table_map sample_tree_env 80 50 (0 + need 0 (length ?ws)) 0 s0 []"
    using paged_new_runs [OF sample_tree_env_ok imp, of 50 1 "''t''"] d by (auto simp: calculate_max_order_def simp del: need.simps)
  then have "fruns (write_txn (2 ^ 63) sample_tree_env 0 (5, 10, ?ws)) s0
    (\<lambda>_ u. table_map sample_tree_env 80 50 0 (0 + length ?ws) u (commit_all_of 5 10 (put_all 5 ?ws [])))"
    by (rule table_txn) (simp_all add: plain_map_def sample_small)
  then show ?thesis
    using that by (auto simp: fruns_def sample_map_def sample_small numeral_2_eq_2)
qed

theorem paged_delete_hides_witness:
  "\<exists>s. fruns (delete_internal (2 ^ 63) sample_tree_env [1] 6) s (\<lambda>r u. r \<and>
       fruns (commit_versions_for_tx (2 ^ 63) sample_tree_env 6 20) u (\<lambda>_ t.
         fruns (get_internal (2 ^ 63) sample_tree_env [1] 15) t (\<lambda>a _. a = Some [7]) \<and>
         fruns (get_internal (2 ^ 63) sample_tree_env [1] 25) t (\<lambda>a _. a = None)))"
proof -
  obtain s where s: "table_map sample_tree_env 80 50 0 2 s sample_map"
    by (rule sample_table)
  have "settled_before 20 sample_map" "plain_map sample_map" "small_map sample_tree_env 50 (bt_map (bury [1] 6) sample_map)"
    "small_map sample_tree_env 50 (commit_all_of 6 20 (bt_map (bury [1] 6) sample_map))"
    by (simp_all add: sample_map_def settled_before_def plain_map_def bury_def sample_small)
  from paged_delete_hides [OF s order_refl this(2,1,3,4)]
  have "fruns (delete_internal (2 ^ 63) sample_tree_env [1] 6) s (\<lambda>r u. r \<and>
       fruns (commit_versions_for_tx (2 ^ 63) sample_tree_env 6 20) u (\<lambda>_ t.
         fruns (get_internal (2 ^ 63) sample_tree_env [1] 15) t (\<lambda>a _. a = Some [7]) \<and>
         fruns (get_internal (2 ^ 63) sample_tree_env [1] 25) t (\<lambda>a _. a = None)))"
    by (fastforce simp: sample_map_def answer_def read_at_lookup sees_def elim!: fruns_mono)
  then show ?thesis
    by blast
qed

section \<open>Insertions\<close>

text \<open>
  C35. An insertion into a table on pages, whatever splits it causes up to a new root, succeeds and
  leaves a well-formed tree: its pages decode to nodes with their keys between the separators above
  them, fewer than the order in every node and the leaves linked, and the map it stores is the old one
  with the new version in front of the chain of the key. This is for small rows: each key of the new
  map with the whole chain of its versions takes no more than \<open>L\<close> bytes
  (\<open>small_map\<close>), about 50 for every page size, and there is room for the pages of the
  splits.
\<close>

theorem paged_insert_well_formed:
  assumes "table_map E m L (n + h + 2) h s mp" and "2 ^ 63 \<le> fuel" and "small_map E L (add_version k v x l mp)"
  shows "fruns (insert_internal fuel E k v x l) s (\<lambda>_ s'. table_map E m L n (Suc h) s' (add_version k v x l mp))"
  using assms by (rule table_insert)

theorem paged_insert_well_formed_witness:
  "\<exists>s. fruns (insert_internal (2 ^ 63) sample_tree_env [3] [9] 5 10) s
     (\<lambda>_ s'. table_map sample_tree_env 80 50 3 1 s' [([3], VersionChain (VInline [9]) 5 (Some 10) None)])"
proof -
  obtain p where p: "pgr_config p = pager_config_default" "implements sample_env 9 p store_new"
    by (rule sample_created)
  have "implements (be_pager sample_tree_env) (Suc 5) p store_new"
    by (rule implements_less [where n = 9]) (use p(2) in \<open>simp_all add: sample_tree_env_def\<close>)
  from paged_new_runs [OF sample_tree_env_ok this, of 50 1 "''t''"]
  obtain s where "table_map sample_tree_env 80 50 (3 + 0 + 2) 0 s []"
    using p(1) by (auto simp: data_size_of_def pager_config_default_def page_data_size_def page_header_size_def
        page_checksum_size_def calculate_max_order_def)
  from paged_insert_well_formed [OF this order_refl, of "[3]" "[9]" 5 10]
  have "fruns (insert_internal (2 ^ 63) sample_tree_env [3] [9] 5 10) s
     (\<lambda>_ s'. table_map sample_tree_env 80 50 3 1 s' [([3], VersionChain (VInline [9]) 5 (Some 10) None)])"
    by (simp add: add_version_def commit_if_def sample_small)
  then show ?thesis
    by blast
qed

section \<open>What a reader of pages or values meets\<close>

text \<open>The pages of a tree are headed as neither compressed nor encrypted, whatever the pager is configured for.\<close>

lemma node_pages_in_clear:
  "ph_compression (pg_header (node_page cc i n)) = Comp_None \<and> ph_encryption (pg_header (node_page cc i n)) = Enc_None"
  by (simp add: node_page_def page_new_def page_header_new_def)

text \<open>A value that a caller put and that is the encoding of a reference to a page is not what a reader gets.\<close>

lemma value_taken_for_reference:
  assumes "read_page (be_pager E) (ucast i) (pb_pager s) = (Inl e, p)"
  shows "resolve_value fuel E (ref_encode (SinglePage i off len)) s = Some (Inl (TablePager e), s\<lparr>pb_pager := p\<rparr>)"
  using assms ref_decode_encode [of "SinglePage i off len"]
  by (simp add: resolve_value_def flift_def pbind_def on_pager_def)

text \<open>The stream of a value that starts with byte 1 or 2 fails although the value itself can be read.\<close>

lemma stream_decodes_again:
  assumes "get_internal fuel E k l s = Some (Inr (Some (b # bs)), t)" and "b = 1 \<or> b = 2" and "ref_decode (b # bs) = Inl e"
  shows "paged_get_stream fuel E k l s = Some (Inl (TableCorruption ''invalid_encoding''), t)"
  using assms by (auto simp: paged_get_stream_def fbind_def flift_def perr_def)

end
