(* ===== verification/PagedCursor.thy ===== *)
theory PagedCursor
  imports PagedTable
begin

text \<open>
  The rest of the table on pages (\<open>src/src/table/btree/paged.rs\<close>): the cursor along the leaves, deletion of
  a range and batches, index entries, and the walks over all nodes for counting, verification,
  statistics and the vacuum.
\<close>

section \<open>The cursor\<close>

record paged_cursor =
  cur_snapshot_lsn :: lsn
  cur_bounds :: scan_bounds
  cur_page_id :: page_id
  cur_position :: nat
  cur_key :: "bytes option"
  cur_value :: "bytes option"
  cur_exhausted :: bool
  cur_initialized :: bool

type_synonym 'a cursor_walk = "(paged_btree \<times> paged_cursor, table_error, 'a) fuel_action"

definition in_tree :: "'a tree_walk \<Rightarrow> 'a cursor_walk" where
  "in_tree = wlift fst (\<lambda>t (_, c). (t, c))"

definition move_cursor :: "(paged_cursor \<Rightarrow> paged_cursor) \<Rightarrow> unit cursor_walk" where
  "move_cursor f = (\<lambda>(t, c). Some (Inr (), (t, f c)))"

definition with_cursor :: "(paged_cursor \<Rightarrow> 'a cursor_walk) \<Rightarrow> 'a cursor_walk" where
  "with_cursor f = (\<lambda>(t, c). f c (t, c))"

definition no_entry :: "paged_cursor \<Rightarrow> paged_cursor" where
  "no_entry c = c\<lparr>cur_key := None, cur_value := None\<rparr>"

fun leftmost_leaf_loop :: "nat \<Rightarrow> btree_env \<Rightarrow> page_id \<Rightarrow> page_id tree_walk" where
  "leftmost_leaf_loop 0 E i s = None"
| "leftmost_leaf_loop (Suc fuel) E i s =
     fbind (flift (read_node E i)) (\<lambda>n.
       case n of
         Internal v es r \<Rightarrow>
           (case es of [] \<Rightarrow> flift (perr (TableCorruption ''empty_node'')) | e # _ \<Rightarrow> leftmost_leaf_loop fuel E (ie_child e))
       | Leaf v es nx \<Rightarrow> flift (pret i)) s"

definition find_leftmost_leaf :: "nat \<Rightarrow> btree_env \<Rightarrow> page_id tree_walk" where
  "find_leftmost_leaf fuel E s = leftmost_leaf_loop fuel E (pb_root s) s"

fun rightmost_leaf_loop :: "nat \<Rightarrow> btree_env \<Rightarrow> page_id \<Rightarrow> page_id tree_walk" where
  "rightmost_leaf_loop 0 E i s = None"
| "rightmost_leaf_loop (Suc fuel) E i s =
     fbind (flift (read_node E i)) (\<lambda>n.
       case n of Internal v es r \<Rightarrow> rightmost_leaf_loop fuel E r | Leaf v es nx \<Rightarrow> flift (pret i)) s"

definition find_rightmost_leaf :: "nat \<Rightarrow> btree_env \<Rightarrow> page_id tree_walk" where
  "find_rightmost_leaf fuel E s = rightmost_leaf_loop fuel E (pb_root s) s"

text \<open>The entry at the position of the cursor, as its snapshot sees it; the bytes of the value are not resolved.\<close>

definition entry_seen :: "leaf_entry list \<Rightarrow> paged_cursor \<Rightarrow> paged_cursor" where
  "entry_seen es c =
     (if cur_position c < length es
      then let e = es ! cur_position c in
        if \<not> is_in_bounds (cur_bounds c) (le_key e) then no_entry (c\<lparr>cur_exhausted := True\<rparr>)
        else case find_visible_inline (at_lsn (cur_snapshot_lsn c)) (le_chain e) of
            None \<Rightarrow> no_entry c
          | Some d \<Rightarrow> if d = [] then no_entry c else c\<lparr>cur_key := Some (le_key e), cur_value := Some d\<rparr>
      else no_entry c)"

definition load_current_entry :: "btree_env \<Rightarrow> unit cursor_walk" where
  "load_current_entry E =
     with_cursor (\<lambda>c. fbind (in_tree (flift (read_node E (cur_page_id c)))) (\<lambda>n.
       case n of Internal v es r \<Rightarrow> flift (pret ()) | Leaf v es nx \<Rightarrow> move_cursor (entry_seen es)))"

text \<open>Along one leaf with \<open>len\<close> entries: whether the cursor has come to stand, on an entry or out of bounds.
  The position grows with every turn, so that one more turn than there are entries is enough.\<close>

fun advance_in_leaf :: "nat \<Rightarrow> btree_env \<Rightarrow> nat \<Rightarrow> bool cursor_walk" where
  "advance_in_leaf 0 E len s = None"
| "advance_in_leaf (Suc fuel) E len s =
     with_cursor (\<lambda>c.
       if cur_position c < len
       then fbind (load_current_entry E) (\<lambda>_. with_cursor (\<lambda>c.
              if cur_key c \<noteq> None \<or> cur_exhausted c then flift (pret True)
              else fbind (move_cursor (\<lambda>c. c\<lparr>cur_position := cur_position c + 1\<rparr>)) (\<lambda>_. advance_in_leaf fuel E len)))
       else flift (pret False)) s"

fun advance_to_next_visible :: "nat \<Rightarrow> btree_env \<Rightarrow> unit cursor_walk" where
  "advance_to_next_visible 0 E s = None"
| "advance_to_next_visible (Suc fuel) E s =
     with_cursor (\<lambda>c. fbind (in_tree (flift (read_node E (cur_page_id c)))) (\<lambda>n.
       case n of
         Internal v es r \<Rightarrow> flift (perr (TableCorruption ''wrong_node_type''))
       | Leaf v es nx \<Rightarrow>
           fbind (advance_in_leaf (Suc (length es)) E (length es)) (\<lambda>stop.
           if stop then flift (pret ())
           else if nx \<noteq> 0
           then fbind (move_cursor (\<lambda>c. c\<lparr>cur_page_id := nx, cur_position := 0\<rparr>)) (\<lambda>_. advance_to_next_visible fuel E)
           else move_cursor (\<lambda>c. c\<lparr>cur_exhausted := True\<rparr>)))) s"

text \<open>Backwards, only within the leaf; an entry out of bounds does not stop it.\<close>

fun retreat_loop :: "nat \<Rightarrow> btree_env \<Rightarrow> unit cursor_walk" where
  "retreat_loop 0 E s = None"
| "retreat_loop (Suc fuel) E s =
     with_cursor (\<lambda>c.
       if cur_position c > 0
       then fbind (move_cursor (\<lambda>c. c\<lparr>cur_position := cur_position c - 1\<rparr>)) (\<lambda>_.
            fbind (load_current_entry E) (\<lambda>_. with_cursor (\<lambda>c.
            if cur_key c \<noteq> None then flift (pret ()) else retreat_loop fuel E)))
       else move_cursor (\<lambda>c. no_entry (c\<lparr>cur_exhausted := True\<rparr>))) s"

definition retreat_to_prev_visible :: "btree_env \<Rightarrow> unit cursor_walk" where
  "retreat_to_prev_visible E = with_cursor (\<lambda>c. retreat_loop (Suc (cur_position c)) E)"

definition cursor_is_valid :: "paged_cursor \<Rightarrow> bool" where
  "cursor_is_valid c \<longleftrightarrow> \<not> cur_exhausted c \<and> cur_key c \<noteq> None"

definition place_at :: "page_id \<Rightarrow> nat \<Rightarrow> unit cursor_walk" where
  "place_at i pos = move_cursor (\<lambda>c. c\<lparr>cur_page_id := i, cur_position := pos\<rparr>)"

definition to_leftmost :: "nat \<Rightarrow> btree_env \<Rightarrow> unit cursor_walk" where
  "to_leftmost fuel E =
     fbind (in_tree (find_leftmost_leaf fuel E)) (\<lambda>i. fbind (place_at i 0) (\<lambda>_. advance_to_next_visible fuel E))"

definition fresh_position :: "unit cursor_walk" where
  "fresh_position = move_cursor (\<lambda>c. c\<lparr>cur_initialized := True, cur_exhausted := False\<rparr>)"

text \<open>A key in front of an included start leads to a call with the start itself, which is the only one nested.\<close>

fun seek_in :: "nat \<Rightarrow> nat \<Rightarrow> btree_env \<Rightarrow> bytes \<Rightarrow> unit cursor_walk" where
  "seek_in calls fuel E k =
     fbind fresh_position (\<lambda>_. with_cursor (\<lambda>c.
       if \<not> is_in_bounds (cur_bounds c) k then
         case cur_bounds c of
           Scan_Range (Included a) b \<Rightarrow>
             if k < a
             then (case calls of 0 \<Rightarrow> (\<lambda>s. None) | Suc calls \<Rightarrow> seek_in calls fuel E a)
             else move_cursor (\<lambda>c. no_entry (c\<lparr>cur_exhausted := True\<rparr>))
         | Scan_Range (Excluded a) b \<Rightarrow>
             if k \<le> a
             then fbind (in_tree (paged_search fuel E a)) (\<lambda>(i, pos).
                  fbind (place_at i (pos + 1)) (\<lambda>_. advance_to_next_visible fuel E))
             else move_cursor (\<lambda>c. no_entry (c\<lparr>cur_exhausted := True\<rparr>))
         | _ \<Rightarrow> move_cursor (\<lambda>c. no_entry (c\<lparr>cur_exhausted := True\<rparr>))
       else
         fbind (in_tree (paged_search fuel E k)) (\<lambda>(i, pos).
         fbind (place_at i pos) (\<lambda>_. advance_to_next_visible fuel E))))"

definition paged_cursor_seek :: "nat \<Rightarrow> btree_env \<Rightarrow> bytes \<Rightarrow> unit cursor_walk" where
  "paged_cursor_seek = seek_in 1"

definition cursor_step :: "nat \<Rightarrow> btree_env \<Rightarrow> unit cursor_walk" where
  "cursor_step fuel E =
     with_cursor (\<lambda>c.
       if cur_exhausted c then flift (pret ())
       else fbind (move_cursor (\<lambda>c. c\<lparr>cur_position := cur_position c + 1\<rparr>)) (\<lambda>_. advance_to_next_visible fuel E))"

definition paged_cursor_first :: "nat \<Rightarrow> btree_env \<Rightarrow> unit cursor_walk" where
  "paged_cursor_first fuel E =
     fbind fresh_position (\<lambda>_. with_cursor (\<lambda>c.
       case cur_bounds c of
         Scan_All \<Rightarrow> to_leftmost fuel E
       | Scan_Prefix p \<Rightarrow> paged_cursor_seek fuel E p
       | Scan_Range (Included a) b \<Rightarrow> paged_cursor_seek fuel E a
       | Scan_Range (Excluded a) b \<Rightarrow>
           fbind (paged_cursor_seek fuel E a) (\<lambda>_. with_cursor (\<lambda>c.
           if cursor_is_valid c \<and> cur_key c = Some a then cursor_step fuel E else flift (pret ())))
       | Scan_Range Unbounded b \<Rightarrow> to_leftmost fuel E))"

text \<open>\<open>next\<close> on a cursor that stands nowhere yet is \<open>first\<close>.\<close>

definition paged_cursor_next :: "nat \<Rightarrow> btree_env \<Rightarrow> unit cursor_walk" where
  "paged_cursor_next fuel E = with_cursor (\<lambda>c. if \<not> cur_initialized c then paged_cursor_first fuel E else cursor_step fuel E)"

definition last_in_leaf :: "btree_env \<Rightarrow> btree_node \<Rightarrow> unit cursor_walk" where
  "last_in_leaf E n =
     (case n of
        Internal v es r \<Rightarrow> flift (pret ())
      | Leaf v es nx \<Rightarrow>
          if es = [] then move_cursor (\<lambda>c. no_entry (c\<lparr>cur_exhausted := True\<rparr>))
          else
            fbind (move_cursor (\<lambda>c. c\<lparr>cur_position := length es - 1\<rparr>)) (\<lambda>_.
            fbind (load_current_entry E) (\<lambda>_. with_cursor (\<lambda>c.
            if cur_key c = None then retreat_to_prev_visible E else flift (pret ())))))"

definition paged_cursor_last :: "nat \<Rightarrow> btree_env \<Rightarrow> unit cursor_walk" where
  "paged_cursor_last fuel E =
     fbind fresh_position (\<lambda>_.
     fbind (in_tree (find_rightmost_leaf fuel E)) (\<lambda>i.
     fbind (move_cursor (\<lambda>c. c\<lparr>cur_page_id := i\<rparr>)) (\<lambda>_.
     fbind (in_tree (flift (read_node E i))) (last_in_leaf E))))"

definition paged_cursor_prev :: "nat \<Rightarrow> btree_env \<Rightarrow> unit cursor_walk" where
  "paged_cursor_prev fuel E =
     with_cursor (\<lambda>c.
       if \<not> cur_initialized c then paged_cursor_last fuel E
       else if cur_exhausted c then flift (pret ()) else retreat_to_prev_visible E)"

definition seek_for_prev :: "nat \<Rightarrow> btree_env \<Rightarrow> bytes \<Rightarrow> unit cursor_walk" where
  "seek_for_prev fuel E k =
     fbind fresh_position (\<lambda>_. with_cursor (\<lambda>c.
       if \<not> is_in_bounds (cur_bounds c) k then
         if (case cur_bounds c of
               Scan_Range a (Included b) \<Rightarrow> k > b
             | Scan_Range a (Excluded b) \<Rightarrow> k \<ge> b
             | _ \<Rightarrow> False)
         then paged_cursor_last fuel E
         else move_cursor (\<lambda>c. no_entry (c\<lparr>cur_exhausted := True\<rparr>))
       else
         fbind (in_tree (paged_search fuel E k)) (\<lambda>(i, pos).
         fbind (place_at i pos) (\<lambda>_.
         fbind (in_tree (flift (read_node E i))) (\<lambda>n.
           case n of
             Internal v es r \<Rightarrow> flift (pret ())
           | Leaf v es nx \<Rightarrow>
               if pos < length es \<and> le_key (es ! pos) = k then load_current_entry E
               else retreat_to_prev_visible E)))))"

text \<open>A new cursor goes to its first entry; an error of that is dropped.\<close>

definition paged_cursor_new :: "nat \<Rightarrow> btree_env \<Rightarrow> scan_bounds \<Rightarrow> lsn \<Rightarrow> paged_cursor tree_walk" where
  "paged_cursor_new fuel E bounds l s =
     (case paged_cursor_first fuel E (s, \<lparr>cur_snapshot_lsn = l, cur_bounds = bounds, cur_page_id = 0, cur_position = 0,
        cur_key = None, cur_value = None, cur_exhausted = False, cur_initialized = False\<rparr>) of
        None \<Rightarrow> None
      | Some (r, s, c) \<Rightarrow> Some (Inr c, s))"

section \<open>Deleting a range, and batches\<close>

fun range_delete_loop :: "nat \<Rightarrow> btree_env \<Rightarrow> u64 \<Rightarrow> paged_cursor \<Rightarrow> u64 writer_walk" where
  "range_delete_loop 0 E n c w = None"
| "range_delete_loop (Suc fuel) E n c w =
     (if \<not> cursor_is_valid c then Some (Inr n, w)
      else let (n, w) = (case cur_key c of None \<Rightarrow> (n, w) | Some k \<Rightarrow> (n + 1, w\<lparr>pw_pending := pw_pending w @ [PDelete k]\<rparr>)) in
        case paged_cursor_next fuel E (pw_tree w, c) of
          None \<Rightarrow> None
        | Some (Inl e, s, c) \<Rightarrow> Some (Inl e, w\<lparr>pw_tree := s\<rparr>)
        | Some (Inr _, s, c) \<Rightarrow> range_delete_loop fuel E n c (w\<lparr>pw_tree := s\<rparr>))"

definition paged_range_delete :: "nat \<Rightarrow> btree_env \<Rightarrow> scan_bounds \<Rightarrow> u64 writer_walk" where
  "paged_range_delete fuel E bounds w =
     fbind (on_tree (paged_cursor_new fuel E bounds (pw_snapshot_lsn w))) (range_delete_loop fuel E 0) w"

definition paged_apply_mutation :: "nat \<Rightarrow> btree_env \<Rightarrow> mutation \<Rightarrow> batch_report \<Rightarrow> batch_report writer_walk" where
  "paged_apply_mutation fuel E mu r =
     (case mu of
        Put k v \<Rightarrow>
          fbind (paged_put k v) (\<lambda>_. flift (pret (r\<lparr>br_applied := br_applied r + 1,
            br_bytes_written := br_bytes_written r + length k + length v\<rparr>)))
      | Delete k \<Rightarrow>
          fbind (paged_delete fuel E k) (\<lambda>b. flift (pret (r\<lparr>br_deleted := br_deleted r + (if b then 1 else 0),
            br_applied := br_applied r + 1\<rparr>)))
      | RangeDelete bounds \<Rightarrow>
          fbind (paged_range_delete fuel E bounds) (\<lambda>n. flift (pret (r\<lparr>br_deleted := br_deleted r + unat n,
            br_applied := br_applied r + 1\<rparr>)))
      | Merge k v \<Rightarrow> flift (pret r))"

fun paged_apply_all :: "nat \<Rightarrow> btree_env \<Rightarrow> mutation list \<Rightarrow> batch_report \<Rightarrow> batch_report writer_walk" where
  "paged_apply_all fuel E [] r = flift (pret r)"
| "paged_apply_all fuel E (mu # mus) r = fbind (paged_apply_mutation fuel E mu r) (paged_apply_all fuel E mus)"

definition paged_apply_batch :: "nat \<Rightarrow> btree_env \<Rightarrow> mutation list \<Rightarrow> batch_report writer_walk" where
  "paged_apply_batch fuel E mus = paged_apply_all fuel E mus (batch_report_default\<lparr>br_attempted := length mus\<rparr>)"

section \<open>Index entries\<close>

definition paged_insert_entry :: "nat \<Rightarrow> btree_env \<Rightarrow> bytes \<Rightarrow> bytes \<Rightarrow> txn_id \<Rightarrow> lsn \<Rightarrow> unit tree_walk" where
  "paged_insert_entry fuel E index_key primary_key t l = insert_internal fuel E index_key primary_key t l"

definition paged_delete_entry :: "nat \<Rightarrow> btree_env \<Rightarrow> bytes \<Rightarrow> bytes \<Rightarrow> unit tree_walk" where
  "paged_delete_entry fuel E index_key primary_key =
     fbind (paged_search fuel E index_key) (\<lambda>(i, pos).
     flift (pbind (read_node E i) (\<lambda>n.
       case n of
         Internal v es r \<Rightarrow> pret ()
       | Leaf v es nx \<Rightarrow>
           if pos < length es \<and> le_key (es ! pos) = index_key \<and>
             find_visible_inline (at_lsn (- 1)) (le_chain (es ! pos)) = Some primary_key
           then write_node E i (Leaf v (take pos es @ drop (pos + 1) es) nx)
           else pret ())))"

definition paged_index_scan :: "nat \<Rightarrow> btree_env \<Rightarrow> scan_bounds \<Rightarrow> paged_cursor tree_walk" where
  "paged_index_scan fuel E bounds = paged_cursor_new fuel E bounds (- 1)"

section \<open>Walks over all nodes\<close>

fun count_entries :: "nat \<Rightarrow> btree_env \<Rightarrow> page_id \<Rightarrow> u64 tree_walk" where
  "count_entries 0 E i = (\<lambda>s. None)"
| "count_entries (Suc fuel) E i =
     fbind (flift (read_node E i)) (\<lambda>n.
       case n of
         Internal v es r \<Rightarrow>
           fbind (foldl (\<lambda>m e. fbind m (\<lambda>a. fbind (count_entries fuel E (ie_child e)) (\<lambda>b. flift (pret (a + b)))))
             (flift (pret 0)) es) (\<lambda>a.
           fbind (count_entries fuel E r) (\<lambda>b. flift (pret (a + b))))
       | Leaf v es nx \<Rightarrow> flift (pret (of_nat (length es))))"

definition index_stats :: "nat \<Rightarrow> btree_env \<Rightarrow> u64 tree_walk" where
  "index_stats fuel E s = count_entries fuel E (pb_root s) s"

fun verify_node :: "nat \<Rightarrow> btree_env \<Rightarrow> page_id \<Rightarrow> u64 \<Rightarrow> u64 tree_walk" where
  "verify_node 0 E i checked = (\<lambda>s. None)"
| "verify_node (Suc fuel) E i checked =
     fbind (flift (read_node E i)) (\<lambda>n.
       case n of
         Internal v es r \<Rightarrow>
           fbind (foldl (\<lambda>m e. fbind m (verify_node fuel E (ie_child e))) (flift (pret (checked + 1))) es)
             (verify_node fuel E r)
       | Leaf v es nx \<Rightarrow> flift (pret (checked + 1)))"

definition paged_verify :: "nat \<Rightarrow> btree_env \<Rightarrow> u64 tree_walk" where
  "paged_verify fuel E s = verify_node fuel E (pb_root s) 0 s"

subsection \<open>Statistics\<close>

record tree_statistics =
  ts_row_count :: nat
  ts_total_size_bytes :: nat
  ts_tree_depth :: nat
  ts_internal_node_count :: nat
  ts_leaf_node_count :: nat
  ts_key_min_size :: nat
  ts_key_max_size :: nat
  ts_key_total_size :: nat
  ts_value_min_size :: nat
  ts_value_max_size :: nat
  ts_value_total_size :: nat

definition tree_statistics_new :: tree_statistics where
  "tree_statistics_new =
     \<lparr>ts_row_count = 0, ts_total_size_bytes = 0, ts_tree_depth = 0, ts_internal_node_count = 0, ts_leaf_node_count = 0,
      ts_key_min_size = 2 ^ 64 - 1, ts_key_max_size = 0, ts_key_total_size = 0,
      ts_value_min_size = 2 ^ 64 - 1, ts_value_max_size = 0, ts_value_total_size = 0\<rparr>"

text \<open>An entry counts unless its newest version is empty, committed or not.\<close>

definition entry_statistics :: "leaf_entry \<Rightarrow> tree_statistics \<Rightarrow> tree_statistics" where
  "entry_statistics e st =
     (let v = vc_value (le_chain e); ks = length (le_key e); vs = value_len v in
      if value_is_empty v then st
      else st\<lparr>ts_row_count := ts_row_count st + 1,
        ts_key_min_size := min (ts_key_min_size st) ks, ts_key_max_size := max (ts_key_max_size st) ks,
        ts_key_total_size := ts_key_total_size st + ks,
        ts_value_min_size := min (ts_value_min_size st) vs, ts_value_max_size := max (ts_value_max_size st) vs,
        ts_value_total_size := ts_value_total_size st + vs\<rparr>)"

fun collect_node_statistics :: "nat \<Rightarrow> btree_env \<Rightarrow> nat \<Rightarrow> page_id \<Rightarrow> nat \<Rightarrow> tree_statistics \<Rightarrow> tree_statistics tree_walk" where
  "collect_node_statistics 0 E page_size i depth st = (\<lambda>s. None)"
| "collect_node_statistics (Suc fuel) E page_size i depth st =
     fbind (flift (read_node E i)) (\<lambda>n.
       let st = st\<lparr>ts_tree_depth := max depth (ts_tree_depth st), ts_total_size_bytes := ts_total_size_bytes st + page_size\<rparr> in
       case n of
         Internal v es r \<Rightarrow>
           fbind (foldl (\<lambda>m e. fbind m (collect_node_statistics fuel E page_size (ie_child e) (depth + 1)))
             (flift (pret (st\<lparr>ts_internal_node_count := ts_internal_node_count st + 1\<rparr>))) es)
             (collect_node_statistics fuel E page_size r (depth + 1))
       | Leaf v es nx \<Rightarrow>
           flift (pret (fold entry_statistics es (st\<lparr>ts_leaf_node_count := ts_leaf_node_count st + 1\<rparr>))))"

definition collect_tree_statistics :: "nat \<Rightarrow> btree_env \<Rightarrow> tree_statistics tree_walk" where
  "collect_tree_statistics fuel E s =
     fbind (collect_node_statistics fuel E (size_of (pb_pager s)) (pb_root s) 0 tree_statistics_new) (\<lambda>st.
     flift (pret (if ts_row_count st = 0 then st\<lparr>ts_key_min_size := 0, ts_value_min_size := 0\<rparr> else st))) s"

subsection \<open>Vacuum\<close>

text \<open>
  Every chain of a leaf is vacuumed, the pages of the references this yields are freed, and an entry
  whose newest version is empty is dropped.
\<close>

fun vacuum_entries :: "nat \<Rightarrow> btree_env \<Rightarrow> lsn \<Rightarrow> leaf_entry list \<Rightarrow> (nat \<times> leaf_entry list) tree_walk" where
  "vacuum_entries fuel E m [] = flift (pret (0, []))"
| "vacuum_entries fuel E m (e # es) =
     (let (c, removed, refs) = vacuum m (le_chain e) in
      fbind (if refs = [] then flift (pret ())
             else fbind (on_pager_walk (free_value_refs fuel (be_pager E) refs)) (\<lambda>_. flift (pret ()))) (\<lambda>_.
      fbind (vacuum_entries fuel E m es) (\<lambda>(n, es).
      flift (pret (removed + n, if vc_value c = VInline [] then es else e\<lparr>le_chain := c\<rparr> # es)))))"

fun vacuum_node :: "nat \<Rightarrow> btree_env \<Rightarrow> lsn \<Rightarrow> page_id \<Rightarrow> bool \<Rightarrow> (nat \<times> page_id list) tree_walk" where
  "vacuum_node 0 E m i is_root = (\<lambda>s. None)"
| "vacuum_node (Suc fuel) E m i is_root =
     fbind (flift (read_node E i)) (\<lambda>n.
       case n of
         Internal v es r \<Rightarrow>
           fbind (foldl (\<lambda>a e. fbind a (\<lambda>(removed, kept, freed).
                    fbind (vacuum_node fuel E m (ie_child e) False) (\<lambda>(k, gone).
                    flift (pret (removed + k, if ie_child e \<in> set gone then kept else kept @ [e], freed @ gone)))))
             (flift (pret (0, [], []))) es) (\<lambda>(removed, es, freed).
           fbind (vacuum_node fuel E m r False) (\<lambda>(k, gone).
           let removed = removed + k; freed = freed @ gone;
             (es, r) = (if r \<in> set gone then if es \<noteq> [] then (butlast es, ie_child (last es)) else (es, 0) else (es, r)) in
           if es = [] \<and> r = 0 \<and> \<not> is_root
           then fbind (flift (on_pager (free_page (be_pager E) i))) (\<lambda>_. flift (pret (removed, freed @ [i])))
           else fbind (flift (write_node E i (Internal (v + 1) es r))) (\<lambda>_. flift (pret (removed, freed)))))
       | Leaf v es nx \<Rightarrow>
           fbind (vacuum_entries fuel E m es) (\<lambda>(removed, es).
           if es = [] \<and> \<not> is_root
           then fbind (flift (on_pager (free_page (be_pager E) i))) (\<lambda>_. flift (pret (removed, [i])))
           else fbind (flift (write_node E i (Leaf (v + 1) es nx))) (\<lambda>_. flift (pret (removed, [])))))"

definition paged_vacuum :: "nat \<Rightarrow> btree_env \<Rightarrow> lsn \<Rightarrow> nat tree_walk" where
  "paged_vacuum fuel E m s =
     (if pb_root s = 0 then Some (Inr 0, s)
      else fbind (vacuum_node fuel E m (pb_root s) True) (\<lambda>(n, _). flift (pret n)) s)"

end
