(* ===== verification/CursorScan.thy ===== *)
theory CursorScan
  imports BTreeTable PagedCursor
begin

text \<open>
  Scanning a table on pages: the cursor goes along the leaves from its start and shows every entry in
  bounds that its snapshot sees, in key order, and nothing else.
\<close>

section \<open>Rows of a list of entries\<close>

definition row_of :: "lsn \<Rightarrow> leaf_entry \<Rightarrow> (bytes \<times> bytes) option" where
  "row_of l e =
     (case find_visible_inline (at_lsn l) (le_chain e) of
        None \<Rightarrow> None | Some d \<Rightarrow> if d = [] then None else Some (le_key e, d))"

text \<open>Where a cursor comes to stand that goes along entries: at a row in bounds, or nowhere.\<close>

fun halt :: "scan_bounds \<Rightarrow> lsn \<Rightarrow> leaf_entry list \<Rightarrow> leaf_entry list" where
  "halt b l [] = []"
| "halt b l (e # es) =
     (if \<not> is_in_bounds b (le_key e) then [] else if row_of l e \<noteq> None then e # es else halt b l es)"

fun rows_ahead :: "scan_bounds \<Rightarrow> lsn \<Rightarrow> leaf_entry list \<Rightarrow> (bytes \<times> bytes) list" where
  "rows_ahead b l [] = []"
| "rows_ahead b l (e # es) =
     (if \<not> is_in_bounds b (le_key e) then []
      else case row_of l e of None \<Rightarrow> rows_ahead b l es | Some r \<Rightarrow> r # rows_ahead b l es)"

lemma rows_ahead_halt:
  "rows_ahead b l es = (case halt b l es of [] \<Rightarrow> [] | e # es' \<Rightarrow> the (row_of l e) # rows_ahead b l es')"
  by (induction es) (auto split: option.splits)

lemma halt_length: "halt b l es = e # es' \<Longrightarrow> length es' < length es"
  by (induction es) (auto split: if_splits)

lemma halt_in: "halt b l es = e # es' \<Longrightarrow> e \<in> set es"
  by (induction es) (auto split: if_splits)

lemma halt_row: "halt b l es = e # es' \<Longrightarrow> row_of l e \<noteq> None"
  by (induction es) (auto split: if_splits)

text \<open>The rows of a map within bounds.\<close>

definition visible_rows :: "scan_bounds \<Rightarrow> lsn \<Rightarrow> versioned \<Rightarrow> (bytes \<times> bytes) list" where
  "visible_rows b l mp = concat (map (\<lambda>(k, c).
     if is_in_bounds b k
     then case find_visible_inline (at_lsn l) c of None \<Rightarrow> [] | Some d \<Rightarrow> if d = [] then [] else [(k, d)]
     else []) mp)"

lemma length_pairs [simp]: "length (pairs es) = length es"
  by (induction es) simp_all

lemma visible_rows_Nil [simp]: "visible_rows b l [] = []"
  by (simp add: visible_rows_def)

lemma visible_rows_Cons:
  "visible_rows b l ((le_key e, le_chain e) # ps) =
     (if is_in_bounds b (le_key e) then case row_of l e of None \<Rightarrow> [] | Some r \<Rightarrow> [r] else []) @ visible_rows b l ps"
  by (simp add: visible_rows_def row_of_def split: option.split)

lemma visible_rows_append: "visible_rows b l (xs @ ys) = visible_rows b l xs @ visible_rows b l ys"
  by (simp add: visible_rows_def)

lemma visible_rows_none: "(\<And>e. e \<in> set es \<Longrightarrow> \<not> is_in_bounds b (le_key e)) \<Longrightarrow> visible_rows b l (pairs es) = []"
  by (induction es) (simp_all add: visible_rows_Cons)

lemma rows_ahead_visible:
  assumes "sorted_wrt (<) (map le_key es)"
    and "\<And>e k. e \<in> set es \<Longrightarrow> le_key e < k \<Longrightarrow> is_in_bounds b k \<Longrightarrow> is_in_bounds b (le_key e)"
  shows "rows_ahead b l es = visible_rows b l (pairs es)"
  using assms
proof (induction es)
  case (Cons e es)
  then have IH: "rows_ahead b l es = visible_rows b l (pairs es)"
    by simp
  have "visible_rows b l (pairs es) = []" if "\<not> is_in_bounds b (le_key e)"
    using Cons.prems that by (intro visible_rows_none) auto
  then show ?case
    using IH by (auto simp: visible_rows_Cons split: option.split)
qed (simp add: visible_rows_def)

section \<open>Moving along the leaves\<close>

lemma fruns_in_tree: "fruns (in_tree m) (s, c) Q \<longleftrightarrow> fruns m s (\<lambda>a u. Q a (u, c))"
  by (auto simp: fruns_def in_tree_def wlift_def split: option.splits)

lemma fruns_move_cursor [simp]: "fruns (move_cursor f) (s, c) Q \<longleftrightarrow> Q () (s, f c)"
  by (simp add: fruns_def move_cursor_def)

lemma fruns_with_cursor [simp]: "fruns (with_cursor f) (s, c) Q \<longleftrightarrow> fruns (f c) (s, c) Q"
  by (simp add: fruns_def with_cursor_def)

lemma fruns_with_cursor_snd: "fruns (with_cursor f) x Q \<longleftrightarrow> fruns (f (snd x)) x Q"
  by (cases x) simp

lemma cursor_loops_Suc:
  "advance_in_leaf (Suc fuel) E len =
     with_cursor (\<lambda>c.
       if cur_position c < len
       then fbind (load_current_entry E) (\<lambda>_. with_cursor (\<lambda>c.
              if cur_key c \<noteq> None \<or> cur_exhausted c then flift (pret True)
              else fbind (move_cursor (\<lambda>c. c\<lparr>cur_position := cur_position c + 1\<rparr>)) (\<lambda>_. advance_in_leaf fuel E len)))
       else flift (pret False))"
  "advance_to_next_visible (Suc fuel) E =
     with_cursor (\<lambda>c. fbind (in_tree (flift (read_node E (cur_page_id c)))) (\<lambda>n.
       case n of
         Internal v es r \<Rightarrow> flift (perr (TableCorruption ''wrong_node_type''))
       | Leaf v es nx \<Rightarrow>
           fbind (advance_in_leaf (Suc (length es)) E (length es)) (\<lambda>stop.
           if stop then flift (pret ())
           else if nx \<noteq> 0
           then fbind (move_cursor (\<lambda>c. c\<lparr>cur_page_id := nx, cur_position := 0\<rparr>)) (\<lambda>_. advance_to_next_visible fuel E)
           else move_cursor (\<lambda>c. c\<lparr>cur_exhausted := True\<rparr>))))"
  by (rule ext, simp)+

lemma load_runs:
  assumes "holds E n s N W" and "N (cur_page_id c) = Some (Leaf v es nx)"
    and "\<And>s'. holds E n s' N W \<Longrightarrow> pager_moved s s' \<Longrightarrow> Q () (s', entry_seen es c)"
  shows "fruns (load_current_entry E) (s, c) Q"
  using assms(3) by (simp add: load_current_entry_def fruns_in_tree) (rule read_node_then [OF assms(1,2)], simp)

text \<open>What moving a cursor leaves of it.\<close>

definition same_scan :: "paged_cursor \<Rightarrow> paged_cursor \<Rightarrow> bool" where
  "same_scan c c' \<longleftrightarrow> cur_bounds c' = cur_bounds c \<and> cur_snapshot_lsn c' = cur_snapshot_lsn c \<and> cur_initialized c' = cur_initialized c"

definition shows_row :: "paged_cursor \<Rightarrow> leaf_entry \<Rightarrow> bool" where
  "shows_row c e \<longleftrightarrow> \<not> cur_exhausted c \<and> cur_key c \<noteq> None \<and> row_of (cur_snapshot_lsn c) e = Some (the (cur_key c), the (cur_value c))"

lemma entry_seen_cases:
  assumes "cur_position c < length es" and "e = es ! cur_position c" and "\<not> cur_exhausted c"
  shows "\<not> is_in_bounds (cur_bounds c) (le_key e) \<Longrightarrow> cur_exhausted (entry_seen es c)"
    and "is_in_bounds (cur_bounds c) (le_key e) \<Longrightarrow> row_of (cur_snapshot_lsn c) e = None \<Longrightarrow>
      \<not> cur_exhausted (entry_seen es c) \<and> cur_key (entry_seen es c) = None"
    and "is_in_bounds (cur_bounds c) (le_key e) \<Longrightarrow> row_of (cur_snapshot_lsn c) e \<noteq> None \<Longrightarrow> shows_row (entry_seen es c) e"
  using assms by (auto simp: entry_seen_def no_entry_def Let_def row_of_def shows_row_def split: option.splits if_splits)

lemma entry_seen_keeps:
  "same_scan c (entry_seen es c)" "cur_position (entry_seen es c) = cur_position c" "cur_page_id (entry_seen es c) = cur_page_id c"
  by (auto simp: entry_seen_def no_entry_def Let_def same_scan_def split: option.splits)

lemma advance_in_leaf_runs:
  assumes "holds E n s N W" and "N (cur_page_id c) = Some (Leaf v es nx)" and "length es - cur_position c < fuel"
    and "\<not> cur_exhausted c"
    and "\<And>s' c' pos. holds E n s' N W \<Longrightarrow> pager_moved s s' \<Longrightarrow> same_scan c c' \<Longrightarrow> cur_page_id c' = cur_page_id c \<Longrightarrow>
      pos < length es \<Longrightarrow> cur_position c' = pos \<Longrightarrow> shows_row c' (es ! pos) \<Longrightarrow>
      (\<And>X. halt (cur_bounds c) (cur_snapshot_lsn c) (drop (cur_position c) es @ X) = drop pos es @ X) \<Longrightarrow> Q True (s', c')"
    and "\<And>s' c'. holds E n s' N W \<Longrightarrow> pager_moved s s' \<Longrightarrow> same_scan c c' \<Longrightarrow> cur_exhausted c' \<Longrightarrow>
      (\<And>X. halt (cur_bounds c) (cur_snapshot_lsn c) (drop (cur_position c) es @ X) = []) \<Longrightarrow> Q True (s', c')"
    and "\<And>s' c'. holds E n s' N W \<Longrightarrow> pager_moved s s' \<Longrightarrow> same_scan c c' \<Longrightarrow> \<not> cur_exhausted c' \<Longrightarrow>
      (\<And>X. halt (cur_bounds c) (cur_snapshot_lsn c) (drop (cur_position c) es @ X) = halt (cur_bounds c) (cur_snapshot_lsn c) X) \<Longrightarrow>
      Q False (s', c')"
  shows "fruns (advance_in_leaf fuel E (length es)) (s, c) Q"
  using assms
proof (induction fuel arbitrary: s c)
  case (Suc fuel)
  let ?b = "cur_bounds c" and ?l = "cur_snapshot_lsn c" and ?p = "cur_position c"
  show ?case
  proof (cases "?p < length es")
    case False
    then show ?thesis
      using Suc.prems(1,4) Suc.prems(7) [of s c] by (simp add: cursor_loops_Suc same_scan_def del: advance_in_leaf.simps)
  next
    case True
    let ?e = "es ! ?p" and ?c = "entry_seen es c"
    have d: "drop ?p es = ?e # drop (Suc ?p) es"
      using True by (simp add: Cons_nth_drop_Suc)
    note cs = entry_seen_cases [OF True refl Suc.prems(4)] and keep = entry_seen_keeps [where c = c]
    have "fruns (if cur_key ?c \<noteq> None \<or> cur_exhausted ?c then flift (pret True)
        else fbind (move_cursor (\<lambda>c. c\<lparr>cur_position := cur_position c + 1\<rparr>)) (\<lambda>_. advance_in_leaf fuel E (length es))) (s1, ?c) Q"
      if s1: "holds E n s1 N W" "pager_moved s s1" for s1
    proof (cases "is_in_bounds ?b (le_key ?e)")
      case False
      then have "Q True (s1, ?c)"
        using cs(1) keep d by (intro Suc.prems(6) [OF s1]) simp_all
      then show ?thesis
        using cs(1) [OF False] by simp
    next
      case inb: True
      show ?thesis
      proof (cases "row_of ?l ?e")
        case (Some r)
        have "shows_row ?c ?e"
          using cs(3) [OF inb] Some by simp
        moreover from this have "Q True (s1, ?c)"
          using keep d inb Some True by (intro Suc.prems(5) [OF s1, where pos = ?p]) simp_all
        ultimately show ?thesis
          by (simp add: shows_row_def)
      next
        case None
        let ?c' = "?c\<lparr>cur_position := cur_position ?c + 1\<rparr>"
        have c': "same_scan c ?c'" "cur_page_id ?c' = cur_page_id c" "cur_position ?c' = Suc ?p" "\<not> cur_exhausted ?c'"
          "cur_bounds ?c' = ?b" "cur_snapshot_lsn ?c' = ?l"
          using keep cs(2) [OF inb None] by (simp_all add: same_scan_def)
        have h: "halt ?b ?l (drop ?p es @ X) = halt ?b ?l (drop (Suc ?p) es @ X)" for X
          using d inb None by simp
        have tr: "same_scan c c''" if "same_scan ?c' c''" for c''
          using that c'(1) by (simp add: same_scan_def)
        have "fruns (advance_in_leaf fuel E (length es)) (s1, ?c') Q"
        proof (rule Suc.IH [OF s1(1)])
          show "N (cur_page_id ?c') = Some (Leaf v es nx)" "length es - cur_position ?c' < fuel" "\<not> cur_exhausted ?c'"
            using c' Suc.prems(2,3) True by simp_all
        qed (use c' h tr pager_moved_trans [OF s1(2)] Suc.prems(5-7) in \<open>simp_all del: drop_append\<close>)
        then show ?thesis
          using cs(2) [OF inb None] by simp
      qed
    qed
    then show ?thesis
      using True by (simp add: cursor_loops_Suc del: advance_in_leaf.simps) (rule load_runs [OF Suc.prems(1,2)], simp)
  qed
qed simp

text \<open>The cursor at the head of \<open>es\<close>: the entries from its position on, and those of the leaves behind.\<close>

definition behind :: "(page_id \<times> leaf_entry list \<times> page_id) list \<Rightarrow> leaf_entry list" where
  "behind ls = concat (map (\<lambda>(i, es, lx). es) ls)"

definition stored :: "(page_id \<rightharpoonup> btree_node) \<Rightarrow> nat \<Rightarrow> (page_id \<times> leaf_entry list \<times> page_id) list \<Rightarrow> bool" where
  "stored N fuel ls \<longleftrightarrow> length ls \<le> fuel \<and>
     (\<forall>(i, es, lx)\<in>set ls. i \<noteq> 0 \<and> (\<exists>v. N i = Some (Leaf v es lx)))"

definition cursor_at :: "(page_id \<rightharpoonup> btree_node) \<Rightarrow> nat \<Rightarrow> paged_cursor \<Rightarrow> leaf_entry list \<Rightarrow> bool" where
  "cursor_at N fuel c es \<longleftrightarrow> (\<exists>es0 lx ls. stored N fuel ((cur_page_id c, es0, lx) # ls) \<and> linked lx ls 0 \<and>
     cur_position c < length es0 \<and> es = drop (cur_position c) es0 @ behind ls)"

text \<open>The cursor has come to stand where the entries ahead say.\<close>

definition halted :: "(page_id \<rightharpoonup> btree_node) \<Rightarrow> nat \<Rightarrow> paged_cursor \<Rightarrow> leaf_entry list \<Rightarrow> bool" where
  "halted N fuel c es \<longleftrightarrow>
     (case es of [] \<Rightarrow> cur_exhausted c | e # es' \<Rightarrow> shows_row c e \<and> cursor_at N fuel c (e # es'))"

lemma behind_simps [simp]:
  "behind [] = []" "behind ((i, es, lx) # ls) = es @ behind ls" "behind (ls @ ls') = behind ls @ behind ls'"
  by (simp_all add: behind_def)

lemma advance_runs:
  assumes "holds E n s N W" and "stored N big ((cur_page_id c, es0, lx) # ls)" and "linked lx ls 0" and "length ls < fuel"
    and "\<not> cur_exhausted c"
    and "\<And>s' c'. holds E n s' N W \<Longrightarrow> pager_moved s s' \<Longrightarrow> same_scan c c' \<Longrightarrow>
      halted N big c' (halt (cur_bounds c) (cur_snapshot_lsn c) (drop (cur_position c) es0 @ behind ls)) \<Longrightarrow> Q () (s', c')"
  shows "fruns (advance_to_next_visible fuel E) (s, c) Q"
  using assms
proof (induction fuel arbitrary: s c es0 lx ls)
  case (Suc fuel)
  let ?b = "cur_bounds c" and ?l = "cur_snapshot_lsn c"
  obtain v where v: "N (cur_page_id c) = Some (Leaf v es0 lx)"
    using Suc.prems(2) by (auto simp: stored_def)
  let ?go = "\<lambda>stop. if stop then flift (pret ())
           else if lx \<noteq> 0
           then fbind (move_cursor (\<lambda>c. c\<lparr>cur_page_id := lx, cur_position := 0\<rparr>)) (\<lambda>_. advance_to_next_visible fuel E)
           else move_cursor (\<lambda>c. c\<lparr>cur_exhausted := True\<rparr>)"
  have "fruns (advance_in_leaf (Suc (length es0)) E (length es0)) (s1, c) (\<lambda>stop u. fruns (?go stop) u Q)"
    if s1: "holds E n s1 N W" "pager_moved s s1" for s1
  proof (rule advance_in_leaf_runs [OF s1(1) v _ Suc.prems(5)])
    fix s' c' pos
    assume u: "holds E n s' N W" "pager_moved s1 s'" "same_scan c c'" "cur_page_id c' = cur_page_id c" "pos < length es0"
      "cur_position c' = pos" "shows_row c' (es0 ! pos)"
      and h: "\<And>X. halt ?b ?l (drop (cur_position c) es0 @ X) = drop pos es0 @ X"
    have "cursor_at N big c' (es0 ! pos # drop (Suc pos) es0 @ behind ls)"
      unfolding cursor_at_def using Suc.prems(2,3) u(4-6) by (metis Cons_nth_drop_Suc append_Cons)
    moreover have "drop pos es0 = es0 ! pos # drop (Suc pos) es0"
      using u(5) by (simp add: Cons_nth_drop_Suc)
    ultimately have "halted N big c' (halt ?b ?l (drop (cur_position c) es0 @ behind ls))"
      using u(7) by (simp add: h halted_def)
    then show "fruns (?go True) (s', c') Q"
      using Suc.prems(6) [OF u(1) pager_moved_trans [OF s1(2) u(2)] u(3)] by simp
  next
    fix s' c'
    assume u: "holds E n s' N W" "pager_moved s1 s'" "same_scan c c'" "cur_exhausted c'"
      and h: "\<And>X. halt ?b ?l (drop (cur_position c) es0 @ X) = []"
    have "halted N big c' (halt ?b ?l (drop (cur_position c) es0 @ behind ls))"
      using u(4) by (simp add: h halted_def)
    then show "fruns (?go True) (s', c') Q"
      using Suc.prems(6) [OF u(1) pager_moved_trans [OF s1(2) u(2)] u(3)] by simp
  next
    fix s' c'
    assume u: "holds E n s' N W" "pager_moved s1 s'" "same_scan c c'" "\<not> cur_exhausted c'"
      and h: "\<And>X. halt ?b ?l (drop (cur_position c) es0 @ X) = halt ?b ?l X"
    note mv = pager_moved_trans [OF s1(2) u(2)]
    show "fruns (?go False) (s', c') Q"
    proof (cases ls)
      case Nil
      then have "halted N big (c'\<lparr>cur_exhausted := True\<rparr>) (halt ?b ?l (drop (cur_position c) es0 @ behind ls))"
        unfolding h by (simp add: halted_def)
      then have "Q () (s', c'\<lparr>cur_exhausted := True\<rparr>)"
        using u(3) by (intro Suc.prems(6) [OF u(1) mv]) (simp_all add: same_scan_def)
      then show ?thesis
        using Nil Suc.prems(3) by simp
    next
      case (Cons a ls')
      obtain es1 lx1 where a: "a = (lx, es1, lx1)"
        using Suc.prems(3) Cons by (cases a) auto
      let ?c = "c'\<lparr>cur_page_id := lx, cur_position := 0\<rparr>"
      have eq: "cur_bounds ?c = ?b" "cur_snapshot_lsn ?c = ?l" "drop (cur_position ?c) es1 @ behind ls' = behind ls"
        using u(3) by (simp_all add: same_scan_def Cons a)
      have tr: "same_scan c c''" if "same_scan ?c c''" for c''
        using that u(3) by (simp add: same_scan_def)
      have "fruns (advance_to_next_visible fuel E) (s', ?c) Q"
      proof (rule Suc.IH [OF u(1)])
        show "stored N big ((cur_page_id ?c, es1, lx1) # ls')" "linked lx1 ls' 0" "length ls' < fuel" "\<not> cur_exhausted ?c"
          using Suc.prems(2-4) u(4) by (simp_all add: Cons a stored_def)
        fix s2 c2
        assume w: "holds E n s2 N W" "pager_moved s' s2" "same_scan ?c c2"
          "halted N big c2 (halt (cur_bounds ?c) (cur_snapshot_lsn ?c) (drop (cur_position ?c) es1 @ behind ls'))"
        show "Q () (s2, c2)"
          using w(4) unfolding eq by (intro Suc.prems(6) [OF w(1) pager_moved_trans [OF mv w(2)] tr [OF w(3)]]) (simp add: h)
      qed
      moreover have "lx \<noteq> 0"
        using Suc.prems(2) by (simp add: Cons a stored_def)
      ultimately show ?thesis
        by simp
    qed
  qed simp
  then show ?case
    by (simp add: cursor_loops_Suc(2) fruns_in_tree del: advance_to_next_visible.simps advance_in_leaf.simps)
      (rule read_node_then [OF Suc.prems(1) v], simp del: advance_in_leaf.simps)
qed simp

section \<open>Reading a cursor to its end\<close>

fun scan_rows :: "nat \<Rightarrow> nat \<Rightarrow> btree_env \<Rightarrow> (bytes \<times> bytes) list cursor_walk" where
  "scan_rows 0 fuel E = (\<lambda>s. None)"
| "scan_rows (Suc turns) fuel E =
     with_cursor (\<lambda>c.
       if cursor_is_valid c
       then fbind (paged_cursor_next fuel E) (\<lambda>_. fbind (scan_rows turns fuel E) (\<lambda>rs.
            flift (pret ((the (cur_key c), the (cur_value c)) # rs))))
       else flift (pret []))"

lemma step_runs:
  assumes "holds E n s N W" and "shows_row c e" and "cursor_at N fuel c (e # es)" and "cur_initialized c"
    and "\<And>s' c'. holds E n s' N W \<Longrightarrow> pager_moved s s' \<Longrightarrow> same_scan c c' \<Longrightarrow>
      halted N fuel c' (halt (cur_bounds c) (cur_snapshot_lsn c) es) \<Longrightarrow> Q () (s', c')"
  shows "fruns (paged_cursor_next fuel E) (s, c) Q"
proof -
  let ?c = "c\<lparr>cur_position := cur_position c + 1\<rparr>"
  obtain es0 lx ls where at: "stored N fuel ((cur_page_id ?c, es0, lx) # ls)" "linked lx ls 0"
    "cur_position c < length es0" "e # es = drop (cur_position c) es0 @ behind ls"
    using assms(3) by (auto simp: cursor_at_def)
  then have "es = drop (cur_position ?c) es0 @ behind ls"
    by (simp add: Cons_nth_drop_Suc [symmetric])
  then have "fruns (advance_to_next_visible fuel E) (s, ?c) Q"
    using assms(2,5) at(1) by (intro advance_runs [OF assms(1) at(1,2)]) (simp_all add: stored_def shows_row_def same_scan_def)
  then show ?thesis
    using assms(2,4) by (simp add: paged_cursor_next_def cursor_step_def shows_row_def)
qed

lemma scan_runs:
  assumes "holds E n s N W" and "halted N fuel c (halt (cur_bounds c) (cur_snapshot_lsn c) es)" and "cur_initialized c"
    and "length es < turns"
    and "\<And>s' c'. holds E n s' N W \<Longrightarrow> pager_moved s s' \<Longrightarrow> Q (rows_ahead (cur_bounds c) (cur_snapshot_lsn c) es) (s', c')"
  shows "fruns (scan_rows turns fuel E) (s, c) Q"
  using assms
proof (induction turns arbitrary: s c es Q)
  case (Suc turns)
  let ?b = "cur_bounds c" and ?l = "cur_snapshot_lsn c"
  show ?case
  proof (cases "halt ?b ?l es")
    case Nil
    then show ?thesis
      using Suc.prems(1,2) Suc.prems(5) [of s c] by (simp add: halted_def cursor_is_valid_def rows_ahead_halt [of ?b ?l es])
  next
    case (Cons e es')
    have row: "shows_row c e" and at: "cursor_at N fuel c (e # es')"
      using Suc.prems(2) Cons by (simp_all add: halted_def)
    have r: "rows_ahead ?b ?l es = (the (cur_key c), the (cur_value c)) # rows_ahead ?b ?l es'"
      using row Cons by (simp add: rows_ahead_halt [of ?b ?l es] shows_row_def)
    have "fruns (scan_rows turns fuel E) (s1, c1) (\<lambda>rs u. Q ((the (cur_key c), the (cur_value c)) # rs) u)"
      if u: "holds E n s1 N W" "pager_moved s s1" "same_scan c c1" "halted N fuel c1 (halt ?b ?l es')" for s1 c1
      using u Suc.prems(3,4) halt_length [OF Cons] Suc.prems(5) pager_moved_trans [OF u(2)]
      by (intro Suc.IH [OF u(1), of c1 es']) (simp_all add: same_scan_def r)
    then have "fruns (paged_cursor_next fuel E) (s, c) (\<lambda>_ u. fruns (scan_rows turns fuel E) u (\<lambda>rs u. Q ((the (cur_key c), the (cur_value c)) # rs) u))"
      by (intro step_runs [OF Suc.prems(1) row at Suc.prems(3)]) simp
    then show ?thesis
      using row by (simp add: shows_row_def cursor_is_valid_def)
  qed
qed simp

section \<open>Where a scan begins\<close>

lemma behind_leaves: "behind (leaves nx t) = items t" "behind (kid_leaves nx ks) = kid_items ks"
  by (induction t and ks arbitrary: nx and nx) (simp_all add: behind_def)

lemma leaf_of_split:
  "ok lo hi t \<Longrightarrow> leaf_of k nx t = (i, es, lx) \<Longrightarrow>
     \<exists>ls ls'. leaves nx t = ls @ (i, es, lx) # ls' \<and> (\<forall>e\<in>set (behind ls). le_key e < k) \<and> (\<forall>e\<in>set (behind ls'). k < le_key e)"
  "kids_ok lo hi ks \<Longrightarrow> kid_leaf_of k nx ks = (i, es, lx) \<Longrightarrow>
     \<exists>ls ls'. kid_leaves nx ks = ls @ (i, es, lx) # ls' \<and> (\<forall>e\<in>set (behind ls). le_key e < k) \<and> (\<forall>e\<in>set (behind ls'). k < le_key e)"
proof (induction t and ks arbitrary: lo hi nx and lo hi nx)
  case (More t s ks)
  show ?case
  proof (cases "k < s")
    case True
    then obtain ls ls' where l: "leaves (first_kid ks) t = ls @ (i, es, lx) # ls'" "\<forall>e\<in>set (behind ls). le_key e < k" "\<forall>e\<in>set (behind ls'). k < le_key e"
      using More.prems More.IH(1) [of lo "Some s" "first_kid ks"] by (auto simp del: kid_leaf_of_pick)
    have "k < le_key e" if "e \<in> set (behind (kid_leaves nx ks))" for e
      using that ok_items(2) [of "Some s" hi ks e] More.prems(1) True by (auto simp: behind_leaves)
    then show ?thesis
      using l by - (rule exI [of _ ls], rule exI [of _ "ls' @ kid_leaves nx ks"], auto)
  next
    case False
    then obtain ls ls' where l: "kid_leaves nx ks = ls @ (i, es, lx) # ls'" "\<forall>e\<in>set (behind ls). le_key e < k" "\<forall>e\<in>set (behind ls'). k < le_key e"
      using More.prems More.IH(2) [of "Some s" hi nx] by (auto simp del: kid_leaf_of_pick)
    have "le_key e < k" if "e \<in> set (behind (leaves (first_kid ks) t))" for e
      using that ok_items(1) [of lo "Some s" t e] More.prems(1) False by (auto simp: behind_leaves)
    then show ?thesis
      using l by - (rule exI [of _ "leaves (first_kid ks) t @ ls"], rule exI [of _ ls'], auto)
  qed
next
  case (TLeaf j es')
  then show ?case
    by - (rule exI [of _ "[]"], rule exI [of _ "[]"], simp)
qed (auto simp del: kid_leaf_of_pick)

lemma bsearch_drop:
  assumes "sorted_wrt (<) (map key es)" and "pos = either_pos (bsearch key k es)"
  shows "(\<forall>e\<in>set (take pos es). key e < k) \<and> (\<forall>e\<in>set (drop pos es). k \<le> key e)"
  using assms(1) unfolding assms(2)
  by (induction es) (auto simp: bsearch_Cons either_pos_def split: sum.splits if_splits)

lemma linked_split: "linked i (ls @ (j, es, lx) # ls') nx \<Longrightarrow> linked lx ls' nx"
  by (induction i ls nx rule: linked.induct) auto

text \<open>Placed in a leaf of the tree, the cursor finds what lies ahead in it and in the leaves behind it.\<close>

lemma place_runs:
  assumes "holds E n s N W" and "rep N 0 t" and "set (pages t) \<subseteq> W" and "length (leaves 0 t) \<le> fuel"
    and split: "leaves 0 t = ls @ (i, es, lx) # ls'" and "\<not> cur_exhausted c"
    and Q: "\<And>s' c'. holds E n s' N W \<Longrightarrow> same_scan c c' \<Longrightarrow>
      halted N fuel c' (halt (cur_bounds c) (cur_snapshot_lsn c) (drop pos es @ behind ls')) \<Longrightarrow> Q () (s', c')"
  shows "fruns (fbind (place_at i pos) (\<lambda>_. advance_to_next_visible fuel E)) (s, c) Q"
proof -
  let ?c = "c\<lparr>cur_page_id := i, cur_position := pos\<rparr>"
  have st: "j \<noteq> 0 \<and> (\<exists>v. N j = Some (Leaf v es' lx'))" if "(j, es', lx') \<in> set (leaves 0 t)" for j es' lx'
    using that rep_leaves(1) [OF assms(2) that] leaves_pages(1) [OF that] assms(3) holds_ids [OF assms(1), of j] by auto
  have "stored N fuel ((cur_page_id ?c, es, lx) # ls')"
    using assms(4) st unfolding stored_def split by auto
  moreover have "linked lx ls' 0"
    using leaves_linked(1) [of t 0] unfolding split by (rule linked_split)
  moreover have "length ls' < fuel"
    using assms(4) unfolding split by simp
  ultimately have "fruns (advance_to_next_visible fuel E) (s, ?c) Q"
    using assms(6) Q by (intro advance_runs [OF assms(1)]) (simp_all add: same_scan_def)
  then show ?thesis
    by (simp add: place_at_def)
qed

lemma leftmost_leaf_loop_Suc:
  "leftmost_leaf_loop (Suc fuel) E i =
     fbind (flift (read_node E i)) (\<lambda>n.
       case n of
         Internal v es r \<Rightarrow>
           (case es of [] \<Rightarrow> flift (perr (TableCorruption ''empty_node'')) | e # _ \<Rightarrow> leftmost_leaf_loop fuel E (ie_child e))
       | Leaf v es nx \<Rightarrow> flift (pret i))"
  by (rule ext) simp

lemma leftmost_leaf_runs:
  assumes "holds E n s N W" and "rep N nx t" and "slim m t" and "height t < fuel"
    and "\<And>s'. holds E n s' N W \<Longrightarrow> pager_moved s s' \<Longrightarrow> Q (first_leaf t) s'"
  shows "fruns (leftmost_leaf_loop fuel E (root_of t)) s Q"
  using assms
proof (induction t arbitrary: s nx fuel rule: btree_induct)
  case (Leaf j es)
  obtain f v where f: "fuel = Suc f" and v: "N j = Some (Leaf v es nx)"
    using Leaf.prems(2,4) by (cases fuel) auto
  show ?case
    unfolding f leftmost_leaf_loop_Suc using Leaf.prems(5)
    by (simp del: leftmost_leaf_loop.simps) (rule read_node_then [OF Leaf.prems(1) v], simp)
next
  case (Node p ks)
  obtain f v where f: "fuel = Suc f" and v: "N p = Some (Internal v (ents ks) (last_id ks))"
    using Node.prems(2,4) by (cases fuel) auto
  obtain c sep ks' where ks: "ks = More c sep ks'"
    using Node.prems(3) by (cases ks) auto
  have "fruns (leftmost_leaf_loop f E (root_of c)) s1 Q" if s1: "holds E n s1 N W" "pager_moved s s1" for s1
    using Node.prems(2-5) ks f pager_moved_trans [OF s1(2)] by (intro Node.IH [OF _ s1(1), of c "first_kid ks'"]) auto
  then show ?case
    unfolding f leftmost_leaf_loop_Suc using ks
    by (simp del: leftmost_leaf_loop.simps) (rule read_node_then [OF Node.prems(1) v], simp)
qed

lemma leaves_first: "\<exists>es lx ls. leaves nx t = (first_leaf t, es, lx) # ls"
  using leaves_linked(1) [of t nx] leaf_of_in(1) [of "[]" nx t] by (cases "leaves nx t") auto

lemma to_leftmost_runs:
  assumes "tree_on E m L n s t" and "2 ^ 63 \<le> fuel" and "\<not> cur_exhausted c"
    and "\<And>s' N W c'. holds E n s' N W \<Longrightarrow> same_scan c c' \<Longrightarrow>
      halted N fuel c' (halt (cur_bounds c) (cur_snapshot_lsn c) (items t)) \<Longrightarrow> Q () (s', c')"
  shows "fruns (to_leftmost fuel E) (s, c) Q"
proof -
  obtain N W where s: "holds E n s N W" "rep N 0 t" "root_of t = pb_root s" "slim m t" "set (pages t) \<subseteq> W"
    using assms(1) by (rule tree_onE)
  have fuel: "height t < fuel" "length (leaves 0 t) \<le> fuel"
    using tree_on_fuel(1) [OF assms(1)] tree_on_fuel(2) [OF assms(1), of 0] assms(2) by linarith+
  obtain es lx ls where l: "leaves 0 t = [] @ (first_leaf t, es, lx) # ls"
    using leaves_first [of 0 t] by auto
  have it: "items t = drop 0 es @ behind ls"
    using behind_leaves(1) [of 0 t] l by simp
  have "fruns (leftmost_leaf_loop fuel E (root_of t)) s
    (\<lambda>i u. fruns (fbind (place_at i 0) (\<lambda>_. advance_to_next_visible fuel E)) (u, c) Q)"
    using assms(3,4) unfolding it
    by (intro leftmost_leaf_runs [OF s(1,2,4) fuel(1)] place_runs [OF _ s(2,5) fuel(2) l]) auto
  then show ?thesis
    using s(3) by (simp add: to_leftmost_def fruns_in_tree) (simp add: fruns_def find_leftmost_leaf_def)
qed

lemma search_place_runs:
  assumes "tree_on E m L n s t" and "2 ^ 63 \<le> fuel" and "\<not> cur_exhausted c"
    and "\<And>s' N W c' xs ys. holds E n s' N W \<Longrightarrow> same_scan c c' \<Longrightarrow> items t = xs @ ys \<Longrightarrow>
      \<forall>e\<in>set xs. le_key e < k \<Longrightarrow> \<forall>e\<in>set ys. k \<le> le_key e \<Longrightarrow>
      halted N fuel c' (halt (cur_bounds c) (cur_snapshot_lsn c) ys) \<Longrightarrow> Q () (s', c')"
  shows "fruns (fbind (in_tree (paged_search fuel E k)) (\<lambda>(i, pos).
    fbind (place_at i pos) (\<lambda>_. advance_to_next_visible fuel E))) (s, c) Q"
proof -
  obtain N W where s: "holds E n s N W" "rep N 0 t" "root_of t = pb_root s" "fitting (be_chain E) m L None None t" "set (pages t) \<subseteq> W"
    using assms(1) by (rule tree_onE)
  have fuel: "height t < fuel" "length (leaves 0 t) \<le> fuel"
    using tree_on_fuel(1) [OF assms(1)] tree_on_fuel(2) [OF assms(1), of 0] assms(2) by linarith+
  have ok: "ok None None t"
    using s(4) by (simp add: fitting_def)
  obtain i es lx where leaf: "leaf_of k 0 t = (i, es, lx)"
    by (rule prod_cases3)
  obtain ls ls' where l: "leaves 0 t = ls @ (i, es, lx) # ls'" "\<forall>e\<in>set (behind ls). le_key e < k" "\<forall>e\<in>set (behind ls'). k < le_key e"
    using leaf_of_split(1) [OF ok leaf] by blast
  let ?pos = "either_pos (bsearch le_key k es)"
  have it: "items t = (behind ls @ take ?pos es) @ drop ?pos es @ behind ls'"
    using behind_leaves(1) [of 0 t] l(1) by (metis append.assoc append_take_drop_id behind_simps(2,3))
  have "sorted_wrt (<) (map le_key es)"
    using ok_sorted(1) [OF ok] behind_leaves(1) [of 0 t, symmetric] l(1) by (simp add: sorted_wrt_append)
  from bsearch_drop [OF this refl, of k]
  have d: "\<forall>e\<in>set (behind ls @ take ?pos es). le_key e < k" "\<forall>e\<in>set (drop ?pos es @ behind ls'). k \<le> le_key e"
    using l(2,3) by auto
  have "fruns (fbind (place_at i ?pos) (\<lambda>_. advance_to_next_visible fuel E)) (s', c) Q" if "holds E n s' N W" for s'
    using assms(4) [OF _ _ it d] by (rule place_runs [OF that s(2,5) fuel(2) l(1) assms(3)])
  then have "fruns (search_path_loop fuel E k (root_of t) []) s
    (\<lambda>(i, pos, path) u. fruns (fbind (place_at i pos) (\<lambda>_. advance_to_next_visible fuel E)) (u, c) Q)"
    by (intro search_path_runs [OF s(1,2) ok fuel(1) leaf]) simp
  then show ?thesis
    by (simp add: fruns_in_tree paged_search_def search_with_path_root [OF s(3)] case_prod_beta')
qed

section \<open>Scans\<close>

lemma paged_cursor_new_runs:
  "fruns (paged_cursor_first fuel E) (s, \<lparr>cur_snapshot_lsn = l, cur_bounds = b, cur_page_id = 0, cur_position = 0,
      cur_key = None, cur_value = None, cur_exhausted = False, cur_initialized = False\<rparr>) (\<lambda>_ (u, c). Q c u) \<Longrightarrow>
    fruns (paged_cursor_new fuel E b l) s Q"
  by (auto simp: fruns_def paged_cursor_new_def)

text \<open>A cursor that stands at the first row of \<open>ys\<close>, which are the entries from the start of the bounds on.\<close>

lemma scan_from:
  assumes "table_map E m L n h s mp" and "tree_on E m L n s t" "pairs (items t) = mp" and "length mp < turns"
    and "holds E n s' N W" and "halted N fuel c (halt b l ys)" and "cur_bounds c = b" "cur_snapshot_lsn c = l" "cur_initialized c"
    and "items t = xs @ ys" and "\<forall>e\<in>set xs. \<not> is_in_bounds b (le_key e)"
    and "\<And>e k. e \<in> set ys \<Longrightarrow> le_key e < k \<Longrightarrow> is_in_bounds b k \<Longrightarrow> is_in_bounds b (le_key e)"
  shows "fruns (scan_rows turns fuel E) (s', c) (\<lambda>rs _. rs = visible_rows b l mp)"
proof -
  have "ok None None t"
    using assms(2) by (auto simp: tree_on_def fitting_def)
  then have "sorted_wrt (<) (map le_key ys)"
    using ok_sorted(1) assms(10) by (fastforce simp: sorted_wrt_append)
  then have "rows_ahead b l ys = visible_rows b l (pairs ys)"
    using assms(12) by (rule rows_ahead_visible)
  moreover have "visible_rows b l mp = visible_rows b l (pairs ys)"
    using assms(3,10,11) visible_rows_none [of xs b l] by (auto simp: visible_rows_append)
  moreover have "length ys < turns"
    using assms(3,4,10) by auto
  ultimately show ?thesis
    using assms(6-9) by (intro scan_runs [OF assms(5), where es = ys]) simp_all
qed

text \<open>
  C36. A scan of a table on pages whose start is not an excluded key: reading the cursor to its end
  gives exactly the rows within the bounds that the snapshot sees, in key order, whatever the shape of
  the tree. The rows are those of a well-formed table, in which a key with its chain of versions takes
  no more than \<open>L\<close> bytes.
\<close>

theorem paged_scan_complete:
  assumes "table_map E m L n h s mp" and "2 ^ 63 \<le> fuel" and "length mp < turns"
    and "\<not> (\<exists>a e. b = Scan_Range (Excluded a) e)"
  shows "fruns (paged_cursor_new fuel E b l) s (\<lambda>c u. fruns (scan_rows turns fuel E) (u, c) (\<lambda>rs _. rs = visible_rows b l mp))"
proof (rule paged_cursor_new_runs)
  obtain t where t: "tree_on E m L n s t" "pairs (items t) = mp"
    using assms(1) by (auto simp: table_map_def)
  define c0 where "c0 = \<lparr>cur_snapshot_lsn = l, cur_bounds = b, cur_page_id = 0, cur_position = 0,
      cur_key = None, cur_value = None, cur_exhausted = False, cur_initialized = True\<rparr>"
  let ?Q = "\<lambda>_ (u, c). fruns (scan_rows turns fuel E) (u, c) (\<lambda>rs _. rs = visible_rows b l mp)"
  note begun = scan_from [OF assms(1) t assms(3)]
  have all: "fruns (to_leftmost fuel E) (s, c0) ?Q" if "\<And>k j. k < j \<Longrightarrow> is_in_bounds b j \<Longrightarrow> is_in_bounds b k"
    using that by (intro to_leftmost_runs [OF t(1) assms(2)]) (auto simp: c0_def same_scan_def intro!: begun [where xs = "[]"])
  have seek: "fruns (paged_cursor_seek fuel E k) (s, c0) ?Q"
    if "is_in_bounds b k" "\<And>j. is_in_bounds b j \<Longrightarrow> k \<le> j" "\<And>i j. k \<le> i \<Longrightarrow> i < j \<Longrightarrow> is_in_bounds b j \<Longrightarrow> is_in_bounds b i" for k
  proof -
    have "fruns (fbind (in_tree (paged_search fuel E k)) (\<lambda>(i, pos). fbind (place_at i pos) (\<lambda>_. advance_to_next_visible fuel E))) (s, c0) ?Q"
    proof (rule search_place_runs [OF t(1) assms(2)])
      fix s' N W c' xs ys
      assume "holds E n s' N W" "same_scan c0 c'" "items t = xs @ ys" "\<forall>e\<in>set xs. le_key e < k" "\<forall>e\<in>set ys. k \<le> le_key e"
        "halted N fuel c' (halt (cur_bounds c0) (cur_snapshot_lsn c0) ys)"
      then show "?Q () (s', c')"
        using that(2,3) by (auto simp: c0_def same_scan_def intro!: begun [where xs = xs] dest: leD)
    qed (simp add: c0_def)
    then show ?thesis
      using that(1) by (simp add: paged_cursor_seek_def fresh_position_def c0_def)
  qed
  have none: "fruns (paged_cursor_seek fuel E a) (s, c0) ?Q" if b: "b = Scan_Range (Included a) e" and "\<not> is_in_bounds b a" for a e
  proof -
    have "\<not> is_in_bounds b k" for k
      using that by (cases e) (auto simp: is_in_bounds_def)
    then have "visible_rows b l mp = []"
      using visible_rows_none [of "items t" b l] t(2) by simp
    moreover obtain g where "turns = Suc g"
      using assms(3) by (cases turns) auto
    ultimately show ?thesis
      using that by (simp add: paged_cursor_seek_def fresh_position_def c0_def no_entry_def cursor_is_valid_def)
  qed
  show "fruns (paged_cursor_first fuel E) (s, \<lparr>cur_snapshot_lsn = l, cur_bounds = b, cur_page_id = 0, cur_position = 0,
      cur_key = None, cur_value = None, cur_exhausted = False, cur_initialized = False\<rparr>) ?Q"
  proof (cases b)
    case Scan_All
    then show ?thesis
      using all by (simp add: paged_cursor_first_def fresh_position_def c0_def is_in_bounds_def)
  next
    case (Scan_Prefix p)
    have "fruns (paged_cursor_seek fuel E p) (s, c0) ?Q"
      using Scan_Prefix starts_with_le starts_with_interval
      by (intro seek) (auto simp: is_in_bounds_def starts_with_def dest: less_imp_le)
    then show ?thesis
      using Scan_Prefix by (simp add: paged_cursor_first_def fresh_position_def c0_def)
  next
    case (Scan_Range a e)
    show ?thesis
    proof (cases a)
      case (Included k)
      have "fruns (paged_cursor_seek fuel E k) (s, c0) ?Q"
      proof (cases "is_in_bounds b k")
        case True
        then show ?thesis
          using Scan_Range Included by (intro seek) (auto simp: is_in_bounds_def split: bound.splits)
      qed (use none Scan_Range Included in blast)
      then show ?thesis
        using Scan_Range Included by (simp add: paged_cursor_first_def fresh_position_def c0_def)
    next
      case (Excluded k)
      then show ?thesis
        using Scan_Range assms(4) by simp
    next
      case Unbounded
      then show ?thesis
        using Scan_Range all by (auto simp: paged_cursor_first_def fresh_position_def c0_def is_in_bounds_def split: bound.splits)
    qed
  qed
qed

theorem paged_scan_complete_witness:
  "\<exists>s. fruns (paged_cursor_new (2 ^ 63) sample_tree_env (Scan_Range (Included [2]) Unbounded) 15) s (\<lambda>c u.
     fruns (scan_rows 3 (2 ^ 63) sample_tree_env) (u, c) (\<lambda>rs _. rs = [([2], [8])]))"
proof -
  obtain s where "table_map sample_tree_env 80 50 0 2 s sample_map"
    by (rule sample_table)
  from paged_scan_complete [OF this order_refl, of 3 "Scan_Range (Included [2]) Unbounded" 15]
  have "fruns (paged_cursor_new (2 ^ 63) sample_tree_env (Scan_Range (Included [2]) Unbounded) 15) s (\<lambda>c u.
     fruns (scan_rows 3 (2 ^ 63) sample_tree_env) (u, c) (\<lambda>rs _. rs = [([2], [8])]))"
    by (simp add: sample_map_def visible_rows_def is_in_bounds_def find_visible_inline_def at_lsn_def is_visible_def snapshot_new_def)
  then show ?thesis
    by blast
qed

section \<open>Where scans go wrong\<close>

text \<open>
  An excluded start that is no key of the table: the first row behind it is passed over as well. This is
  shown for a tree of one leaf.
\<close>

lemma excluded_start_skips:
  assumes "tree_on E m L n s (TLeaf i es)" and "2 ^ 63 \<le> fuel" and "length es < turns"
    and "b = Scan_Range (Excluded a) Unbounded"
  shows "fruns (paged_cursor_new fuel E b l) s (\<lambda>c u. fruns (scan_rows turns fuel E) (u, c)
    (\<lambda>rs _. rs = visible_rows b l (pairs (drop (either_pos (bsearch le_key a es) + 1) es))))"
proof (rule paged_cursor_new_runs)
  let ?pos = "either_pos (bsearch le_key a es)"
  define c0 where "c0 = \<lparr>cur_snapshot_lsn = l, cur_bounds = b, cur_page_id = 0, cur_position = 0,
      cur_key = None, cur_value = None, cur_exhausted = False, cur_initialized = True\<rparr>"
  let ?Q = "\<lambda>_ (u, c). fruns (scan_rows turns fuel E) (u, c) (\<lambda>rs _. rs = visible_rows b l (pairs (drop (?pos + 1) es)))"
  let ?after = "\<lambda>(u, c). fruns (if cursor_is_valid c \<and> cur_key c = Some a then cursor_step fuel E else flift (pret ())) (u, c) ?Q"
  obtain N W where s: "holds E n s N W" "rep N 0 (TLeaf i es)" "root_of (TLeaf i es) = pb_root s"
    "fitting (be_chain E) m L None None (TLeaf i es)" "set (pages (TLeaf i es)) \<subseteq> W"
    using assms(1) by (rule tree_onE)
  have srt: "sorted_wrt (<) (map le_key es)" and ok: "ok None None (TLeaf i es)"
    using s(4) by (simp_all add: fitting_def)
  have after_seek: "?after (s', c')"
    if h: "holds E n s' N W" "same_scan c0 c'" "halted N fuel c' (halt b l (drop (?pos + 1) es))" for s' c'
  proof -
    have c': "cur_bounds c' = b" "cur_snapshot_lsn c' = l" "cur_initialized c'"
      using h(2) by (simp_all add: same_scan_def c0_def)
    have keys: "a < le_key e" if "e \<in> set (drop (?pos + 1) es)" for e
      using that bsearch_drop [OF srt refl, of a] sorted_wrt_drop [OF srt, of ?pos]
      by (cases "drop ?pos es") (auto simp: drop_map drop_Suc tl_drop [symmetric])
    have "\<not> (cursor_is_valid c' \<and> cur_key c' = Some a)"
    proof (cases "halt b l (drop (?pos + 1) es)")
      case Nil
      then show ?thesis
        using h(3) by (simp add: halted_def cursor_is_valid_def)
    next
      case (Cons e es')
      then show ?thesis
        using h(3) keys [of e] halt_in [OF Cons] by (auto simp: halted_def shows_row_def row_of_def split: option.splits if_splits)
    qed
    moreover have "rows_ahead b l (drop (?pos + 1) es) = visible_rows b l (pairs (drop (?pos + 1) es))"
      using keys assms(4) sorted_wrt_drop [OF srt, of "?pos + 1"] by (intro rows_ahead_visible) (auto simp: drop_map is_in_bounds_def)
    moreover from this have "fruns (scan_rows turns fuel E) (s', c') (\<lambda>rs _. rs = visible_rows b l (pairs (drop (?pos + 1) es)))"
      using h c' assms(3) by (intro scan_runs [OF h(1), where es = "drop (?pos + 1) es"]) simp_all
    ultimately show ?thesis
      by auto
  qed
  have fuel: "height (TLeaf i es) < fuel" "length (leaves 0 (TLeaf i es)) \<le> fuel"
    using tree_on_fuel(1) [OF assms(1)] tree_on_fuel(2) [OF assms(1), of 0] assms(2) by linarith+
  have "fruns (fbind (place_at i (?pos + 1)) (\<lambda>_. advance_to_next_visible fuel E)) (u, c0) (\<lambda>_. ?after)" if "holds E n u N W" for u
    by (rule place_runs [OF that s(2,5) fuel(2), where ls = "[]" and ls' = "[]"])
      (use after_seek in \<open>simp_all only: leaves.simps append.simps behind_simps append_Nil2 c0_def paged_cursor.simps simp_thms\<close>)
  then have "fruns (search_path_loop fuel E a (root_of (TLeaf i es)) []) s
    (\<lambda>(i, pos, path) u. fruns (fbind (place_at i (pos + 1)) (\<lambda>_. advance_to_next_visible fuel E)) (u, c0) (\<lambda>_. ?after))"
    by (intro search_path_runs [OF s(1,2) ok fuel(1), where i = i and es = es and lx = 0]) simp_all
  then have "fruns (fbind (in_tree (paged_search fuel E a)) (\<lambda>(i, pos).
    fbind (place_at i (pos + 1)) (\<lambda>_. advance_to_next_visible fuel E))) (s, c0) (\<lambda>_. ?after)"
    by (simp add: fruns_in_tree paged_search_def search_with_path_root [OF s(3)] case_prod_beta')
  then show "fruns (paged_cursor_first fuel E) (s, \<lparr>cur_snapshot_lsn = l, cur_bounds = b, cur_page_id = 0, cur_position = 0,
      cur_key = None, cur_value = None, cur_exhausted = False, cur_initialized = False\<rparr>) ?Q"
    using assms(4) by (simp add: paged_cursor_first_def paged_cursor_seek_def fresh_position_def c0_def is_in_bounds_def case_prod_beta' fruns_with_cursor_snd)
qed

text \<open>
  With an end bound in front of the last entry of the table, going to the last entry leaves no valid
  cursor: the entry out of bounds marks the cursor as exhausted, and nothing on the way back resets that.
\<close>

lemma retreat_exhausted:
  assumes "holds E n s N W" and "N (cur_page_id c) = Some (Leaf v es nx)" and "cur_exhausted c" and "cur_position c < fuel"
  shows "fruns (retreat_loop fuel E) (s, c) (\<lambda>_ (u, c'). cur_exhausted c')"
  using assms
proof (induction fuel arbitrary: s c)
  case (Suc fuel)
  let ?c = "entry_seen es (c\<lparr>cur_position := cur_position c - 1\<rparr>)"
  have keep: "cur_exhausted ?c" "cur_page_id ?c = cur_page_id c" "cur_position ?c = cur_position c - 1"
    using Suc.prems(3) entry_seen_keeps(2,3) [of es "c\<lparr>cur_position := cur_position c - 1\<rparr>"]
    by (auto simp: entry_seen_def no_entry_def Let_def split: option.splits)
  have step: "fruns (if cur_key ?c \<noteq> None then flift (pret ()) else retreat_loop fuel E) (u, ?c) (\<lambda>_ (u, c'). cur_exhausted c')"
    if "holds E n u N W" and "0 < cur_position c" for u
    using keep Suc.prems(2,4) that by (auto intro!: Suc.IH [OF that(1)])
  have eq: "retreat_loop (Suc fuel) E = with_cursor (\<lambda>c.
       if cur_position c > 0
       then fbind (move_cursor (\<lambda>c. c\<lparr>cur_position := cur_position c - 1\<rparr>)) (\<lambda>_.
            fbind (load_current_entry E) (\<lambda>_. with_cursor (\<lambda>c.
            if cur_key c \<noteq> None then flift (pret ()) else retreat_loop fuel E)))
       else move_cursor (\<lambda>c. no_entry (c\<lparr>cur_exhausted := True\<rparr>)))"
    by (rule ext) simp
  show ?case
  proof (cases "cur_position c > 0")
    case True
    have "fruns (load_current_entry E) (s, c\<lparr>cur_position := cur_position c - 1\<rparr>)
      (\<lambda>_ u. fruns (with_cursor (\<lambda>c. if cur_key c \<noteq> None then flift (pret ()) else retreat_loop fuel E)) u (\<lambda>_ (u, c'). cur_exhausted c'))"
    proof (rule load_runs [OF Suc.prems(1)])
      fix u
      assume "holds E n u N W"
      then show "fruns (with_cursor (\<lambda>c. if cur_key c \<noteq> None then flift (pret ()) else retreat_loop fuel E)) (u, ?c) (\<lambda>_ (u, c'). cur_exhausted c')"
        using step [OF _ True] unfolding fruns_with_cursor by blast
    qed (use Suc.prems(2) in simp)
    then show ?thesis
      using True unfolding eq by simp
  qed (simp add: eq no_entry_def del: retreat_loop.simps)
qed simp

lemma last_beyond_end:
  assumes "tree_on E m L n s (TLeaf i es)" and "0 < fuel" and "es \<noteq> []" and "\<not> is_in_bounds (cur_bounds c) (le_key (last es))"
  shows "fruns (paged_cursor_last fuel E) (s, c) (\<lambda>_ (u, c'). \<not> cursor_is_valid c')"
proof -
  obtain N W where s: "holds E n s N W" "rep N 0 (TLeaf i es)" "root_of (TLeaf i es) = pb_root s"
    using assms(1) by (rule tree_onE)
  obtain v where v: "N i = Some (Leaf v es 0)"
    using s(2) by auto
  have root: "pb_root s = i"
    using s(3) by simp
  obtain f where f: "fuel = Suc f"
    using assms(2) by (cases fuel) auto
  let ?start = "c\<lparr>cur_initialized := True, cur_exhausted := False, cur_page_id := i\<rparr>"
  let ?c = "c\<lparr>cur_initialized := True, cur_exhausted := False, cur_page_id := i, cur_position := length es - 1\<rparr>"
  define c1 where "c1 = entry_seen es ?c"
  let ?Q = "\<lambda>_ (u, c'). \<not> cursor_is_valid c'"
  have ex: "cur_exhausted c1" "cur_key c1 = None" "N (cur_page_id c1) = Some (Leaf v es 0)"
    using assms(3,4) v entry_seen_keeps(2,3) [of es ?c] unfolding last_conv_nth [OF assms(3)]
    by (simp_all add: c1_def entry_seen_def no_entry_def Let_def)
  have "fruns (retreat_to_prev_visible E) (u, c1) ?Q" if "holds E n u N W" for u
    using fruns_mono [OF retreat_exhausted [OF that ex(3,1) lessI], of ?Q]
    by (auto simp: retreat_to_prev_visible_def cursor_is_valid_def simp del: retreat_loop.simps)
  then have again: "fruns (with_cursor (\<lambda>c. if cur_key c = None then retreat_to_prev_visible E else flift (pret ()))) (u, entry_seen es ?c) ?Q"
    if "holds E n u N W" for u
    using that ex(2) unfolding c1_def [symmetric] by simp
  have load: "fruns (load_current_entry E) (u, ?c) (\<lambda>_ u. fruns (with_cursor (\<lambda>c.
      if cur_key c = None then retreat_to_prev_visible E else flift (pret ()))) u ?Q)" if "holds E n u N W" for u
    by (rule load_runs [OF that]) (simp add: v, rule again)
  have "runs (read_node E i) u (\<lambda>nd u. fruns (last_in_leaf E nd) (u, ?start) ?Q)" if "holds E n u N W" for u
    by (rule read_node_then [OF that v]) (use load assms(3) in \<open>simp add: last_in_leaf_def\<close>)
  then have rest: "fruns (fbind (move_cursor (\<lambda>c. c\<lparr>cur_page_id := i\<rparr>)) (\<lambda>_. fbind (in_tree (flift (read_node E i))) (last_in_leaf E)))
      (u, c\<lparr>cur_initialized := True, cur_exhausted := False\<rparr>) ?Q" if "holds E n u N W" for u
    using that by (simp add: fruns_in_tree)
  have "rightmost_leaf_loop (Suc f) E i = fbind (flift (read_node E i)) (\<lambda>n.
       case n of Internal v es r \<Rightarrow> rightmost_leaf_loop f E r | Leaf v es nx \<Rightarrow> flift (pret i))"
    by (rule ext) simp
  then have "fruns (rightmost_leaf_loop fuel E i) s (\<lambda>j u. fruns (fbind (move_cursor (\<lambda>c. c\<lparr>cur_page_id := j\<rparr>)) (\<lambda>_.
      fbind (in_tree (flift (read_node E j))) (last_in_leaf E))) (u, c\<lparr>cur_initialized := True, cur_exhausted := False\<rparr>) ?Q)"
    unfolding f using rest by (simp del: fruns_fbind rightmost_leaf_loop.simps) (simp, rule read_node_then [OF s(1) v], simp)
  then show ?thesis
    using root by (simp add: paged_cursor_last_def fresh_position_def fruns_in_tree) (simp add: fruns_def find_rightmost_leaf_def)
qed

end
