(* ===== verification/PagedRebalance.thy ===== *)
theory PagedRebalance
  imports PagedBTree
begin

text \<open>
  Merging and evening out neighbouring nodes of the B-tree on pages, and the rebalancing of a leaf built
  on them (\<open>src/src/table/btree/paged.rs\<close>). No operation of the table calls the rebalancing: deletions
  leave tombstones. What the two routines do to the entries is shown here, and where they break the tree.
\<close>

section \<open>Two neighbours\<close>

text \<open>The left node after a merge, if one node can hold both.\<close>

fun merged :: "nat \<Rightarrow> bytes \<Rightarrow> btree_node \<Rightarrow> btree_node \<Rightarrow> btree_node option" where
  "merged order sep (Internal v es r) (Internal v' es' r') =
     (if length es + length es' + 1 > order then None
      else Some (Internal (v + 1) (es @ [\<lparr>ie_key = sep, ie_child = r\<rparr>] @ es') r'))"
| "merged order sep (Leaf v es nx) (Leaf v' es' nx') =
     (if length es + length es' > order then None else Some (Leaf (v + 1) (es @ es') nx'))"
| "merged order sep _ _ = None"

definition merge_nodes :: "btree_env \<Rightarrow> page_id \<Rightarrow> page_id \<Rightarrow> bytes \<Rightarrow> bool tree_action" where
  "merge_nodes E left right sep =
     pbind (read_node E left) (\<lambda>a.
     pbind (read_node E right) (\<lambda>b s.
     (case merged (pb_max_order s) sep a b of
        None \<Rightarrow> pret False
      | Some n \<Rightarrow>
          pbind (write_node E left n) (\<lambda>_.
          pbind (on_pager (free_page (be_pager E) right)) (\<lambda>_. pret True))) s))"

text \<open>
  Both nodes after evening out, with the separator between them; \<open>None\<close> where nothing is written.
  Entries move one by one from the front of the right node, or from the end of the left one.
\<close>

fun redistributed :: "bytes \<Rightarrow> btree_node \<Rightarrow> btree_node \<Rightarrow> (btree_node \<times> btree_node \<times> bytes option) option" where
  "redistributed sep (Internal v es r) (Internal v' es' r') =
     (let target = (length es + length es') div 2 in
      if length es < target
      then let moves = target - length es - 1; es'' = drop moves es' in
           (case es'' of
              [] \<Rightarrow> None
            | e # rest \<Rightarrow>
                Some (Internal (v + 1) (es @ [\<lparr>ie_key = sep, ie_child = r\<rparr>] @ take moves es') (ie_child e),
                  Internal (v' + 1) rest r', Some (ie_key e)))
      else let moved = drop target es in
           if moved = [] then None
           else Some (Internal (v + 1) (take target es) (ie_child (last moved)),
             Internal (v' + 1) (butlast moved @ [\<lparr>ie_key = sep, ie_child = r\<rparr>] @ es') r', Some (ie_key (last moved))))"
| "redistributed sep (Leaf v es nx) (Leaf v' es' nx') =
     (let target = (length es + length es') div 2 in
      if length es < target
      then let moves = target - length es; rest = drop moves es' in
           Some (Leaf (v + 1) (es @ take moves es') nx, Leaf (v' + 1) rest nx',
             case rest of [] \<Rightarrow> None | e # _ \<Rightarrow> Some (le_key e))
      else let moved = drop target es in
           if moved = [] then None
           else Some (Leaf (v + 1) (take target es) nx, Leaf (v' + 1) (moved @ es') nx', Some (le_key (hd moved))))"
| "redistributed sep _ _ = None"

definition redistribute_keys :: "btree_env \<Rightarrow> page_id \<Rightarrow> page_id \<Rightarrow> bytes \<Rightarrow> bytes option tree_action" where
  "redistribute_keys E left right sep =
     pbind (read_node E left) (\<lambda>a.
     pbind (read_node E right) (\<lambda>b.
     case redistributed sep a b of
       None \<Rightarrow> pret None
     | Some (a, b, k) \<Rightarrow>
         pbind (write_node E left a) (\<lambda>_. pbind (write_node E right b) (\<lambda>_. pret k))))"

section \<open>The parent\<close>

text \<open>The separator to the left of a child gets a new key.\<close>

definition right_child_of :: "internal_entry list \<Rightarrow> page_id \<Rightarrow> nat \<Rightarrow> page_id" where
  "right_child_of es r i = (if i + 1 < length es then ie_child (es ! (i + 1)) else r)"

definition update_separator_after_child_change :: "btree_env \<Rightarrow> page_id \<Rightarrow> page_id \<Rightarrow> bytes \<Rightarrow> unit tree_action" where
  "update_separator_after_child_change E parent child k =
     pbind (read_node E parent) (\<lambda>n.
     case n of
       Internal v es r \<Rightarrow>
         (case find (\<lambda>i. right_child_of es r i = child) [0..<length es] of
            None \<Rightarrow> perr (TableCorruption ''missing_child_reference'')
          | Some i \<Rightarrow> write_node E parent (Internal v (es[i := (es ! i)\<lparr>ie_key := k\<rparr>]) r))
     | Leaf v es nx \<Rightarrow> perr (TableCorruption ''missing_child_reference''))"

definition remove_at :: "nat \<Rightarrow> 'a list \<Rightarrow> 'a list" where
  "remove_at i xs = take i xs @ drop (i + 1) xs"

text \<open>What the parent becomes after the child at \<open>i\<close> was merged into its left neighbour, or its right one into it.\<close>

definition after_left_merge :: "nat \<Rightarrow> page_id \<Rightarrow> internal_entry list \<Rightarrow> page_id \<Rightarrow> internal_entry list \<times> page_id" where
  "after_left_merge i left es r = (remove_at (i - 1) es, if i = length es then left else r)"

definition after_right_merge :: "nat \<Rightarrow> page_id \<Rightarrow> internal_entry list \<Rightarrow> page_id \<Rightarrow> internal_entry list \<times> page_id" where
  "after_right_merge i leaf es r =
     (let es' = remove_at i es in (es', if i \<ge> length es' then leaf else r))"

definition merge_in_parent ::
    "btree_env \<Rightarrow> page_id \<Rightarrow> page_id \<Rightarrow> page_id \<Rightarrow> bytes \<Rightarrow> (internal_entry list \<Rightarrow> page_id \<Rightarrow> internal_entry list \<times> page_id) \<Rightarrow> bool tree_action" where
  "merge_in_parent E parent left right sep f =
     pbind (merge_nodes E left right sep) (\<lambda>merged.
     if \<not> merged then pret False
     else pbind (read_node E parent) (\<lambda>n.
       case n of
         Internal v es r \<Rightarrow> let (es, r) = f es r in pbind (write_node E parent (Internal v es r)) (\<lambda>_. pret True)
       | Leaf v es nx \<Rightarrow> pret False))"

text \<open>Whether the leaf was evened out or merged with one neighbour.\<close>

definition settle_with ::
    "btree_env \<Rightarrow> page_id \<Rightarrow> page_id \<Rightarrow> page_id \<Rightarrow> bytes \<Rightarrow> (internal_entry list \<Rightarrow> page_id \<Rightarrow> internal_entry list \<times> page_id) \<Rightarrow> bool tree_action" where
  "settle_with E parent left right sep f =
     pbind (redistribute_keys E left right sep) (\<lambda>k.
     case k of
       Some k \<Rightarrow> pbind (update_separator_after_child_change E parent right k) (\<lambda>_. pret True)
     | None \<Rightarrow> merge_in_parent E parent left right sep f)"

definition rebalance_leaf_after_delete :: "btree_env \<Rightarrow> page_id \<Rightarrow> (page_id \<times> page_id) list \<Rightarrow> unit tree_action" where
  "rebalance_leaf_after_delete E leaf path =
     (if path = [] then pret ()
      else let parent = fst (last path) in
        pbind (read_node E parent) (\<lambda>n.
        case n of
          Leaf v es nx \<Rightarrow> perr (TableCorruption ''parent_not_internal'')
        | Internal v es r \<Rightarrow>
            let children = map ie_child es @ [r] in
            (case first_index (\<lambda>c. c = leaf) children of
               None \<Rightarrow> perr (TableCorruption ''missing_child'')
             | Some i \<Rightarrow>
                 pbind (if i > 0
                        then settle_with E parent (children ! (i - 1)) leaf (ie_key (es ! (i - 1)))
                               (after_left_merge i (children ! (i - 1)))
                        else pret False) (\<lambda>settled.
                 if settled \<or> i + 1 \<ge> length children then pret ()
                 else pbind (settle_with E parent leaf (children ! (i + 1)) (ie_key (es ! i)) (after_right_merge i leaf))
                        (\<lambda>_. pret ())))))"

section \<open>What is kept\<close>

fun leaf_entries :: "btree_node \<Rightarrow> leaf_entry list" where
  "leaf_entries (Leaf v es nx) = es"
| "leaf_entries (Internal v es r) = []"

text \<open>Evening out two leaves keeps their entries in order, halves them and separates them.\<close>

lemma redistribute_leaves:
  assumes "redistributed sep (Leaf v es nx) (Leaf v' es' nx') = Some (a, b, k)" and "sorted_wrt (<) (map le_key (es @ es'))"
  shows "leaf_entries a @ leaf_entries b = es @ es'"
    and "length (leaf_entries a) = (length es + length es') div 2"
    and "k = Some y \<Longrightarrow> (\<forall>e\<in>set (leaf_entries a). le_key e < y) \<and> (\<forall>e\<in>set (leaf_entries b). y \<le> le_key e)"
proof -
  let ?m = "(length es + length es') div 2"
  have split: "leaf_entries a = take ?m (es @ es') \<and> leaf_entries b = drop ?m (es @ es') \<and>
    (k = (case drop ?m (es @ es') of [] \<Rightarrow> None | e # _ \<Rightarrow> Some (le_key e)))"
  proof (cases "length es < ?m")
    case True
    then show ?thesis
      using assms(1) by (auto simp: Let_def)
  next
    case False
    then show ?thesis
      using assms(1) by (cases "drop ?m es") (auto simp: Let_def)
  qed
  show "leaf_entries a @ leaf_entries b = es @ es'" "length (leaf_entries a) = ?m"
    using split append_take_drop_id [of ?m "es @ es'"] by (simp_all del: take_append drop_append)
  show "(\<forall>e\<in>set (leaf_entries a). le_key e < y) \<and> (\<forall>e\<in>set (leaf_entries b). y \<le> le_key e)" if y: "k = Some y"
  proof -
    obtain e rest where d: "drop ?m (es @ es') = e # rest" "y = le_key e"
      using split y by (auto split: list.splits simp del: take_append drop_append)
    have "sorted_wrt (<) (map le_key (take ?m (es @ es') @ e # rest))"
      using assms(2) append_take_drop_id [of ?m "es @ es'"] d(1) by simp
    then show ?thesis
      using split d by (auto simp: sorted_wrt_append)
  qed
qed

text \<open>The separators and children of two internal nodes and the separator between them, in order.\<close>

fun spine :: "btree_node \<Rightarrow> bytes \<Rightarrow> btree_node \<Rightarrow> internal_entry list \<times> page_id" where
  "spine (Internal v es r) sep (Internal v' es' r') = (es @ [\<lparr>ie_key = sep, ie_child = r\<rparr>] @ es', r')"
| "spine _ sep _ = ([], 0)"

lemma merge_keeps_spine:
  "merged order sep (Internal v es r) (Internal v' es' r') = Some n \<Longrightarrow>
    \<exists>w. n = Internal w (fst (spine (Internal v es r) sep (Internal v' es' r'))) (snd (spine (Internal v es r) sep (Internal v' es' r')))"
  by (auto split: if_splits)

lemma redistribute_right_to_left:
  assumes "redistributed sep (Internal v es r) (Internal v' es' r') = Some (a, b, Some k)"
    and "length es < (length es + length es') div 2"
  shows "spine a k b = spine (Internal v es r) sep (Internal v' es' r')"
proof -
  let ?n = "(length es + length es') div 2 - length es - 1"
  obtain e rest where d: "drop ?n es' = e # rest" "a = Internal (v + 1) (es @ [\<lparr>ie_key = sep, ie_child = r\<rparr>] @ take ?n es') (ie_child e)"
    "b = Internal (v' + 1) rest r'" "k = ie_key e"
    using assms by (auto simp: Let_def split: list.splits)
  obtain y c where "e = \<lparr>ie_key = y, ie_child = c\<rparr>"
    by (cases e)
  then show ?thesis
    using d append_take_drop_id [of ?n es'] by simp
qed

text \<open>
  From left to right the last moved key becomes the separator instead of the first: with two moved, the
  right node begins with a key in front of the separator.
\<close>

lemma redistribute_breaks_order:
  assumes "es = xs @ [\<lparr>ie_key = p, ie_child = i\<rparr>, \<lparr>ie_key = q, ie_child = j\<rparr>]" and "p < q" and "length xs = (length es + length es') div 2"
  shows "\<exists>a es'' r'' w. redistributed sep (Internal v es r) (Internal v' es' r') =
    Some (a, Internal w (\<lparr>ie_key = p, ie_child = i\<rparr> # es'') r'', Some q)"
  using assms by (auto simp: Let_def)

text \<open>
  Merging a child into its left neighbour takes the neighbour out of the parent and leaves the child in,
  whose page was freed, unless it is the last child.
\<close>

lemma merge_keeps_freed_child:
  assumes "Suc i < length es"
  shows "after_left_merge (Suc i) (ie_child (es ! i)) es r = (take i es @ (es ! Suc i) # drop (Suc (Suc i)) es, r)"
  using assms by (simp add: after_left_merge_def remove_at_def Cons_nth_drop_Suc)

end
