(* ===== verification/BloomFilter.thy ===== *)
theory BloomFilter
  imports TableTypes
begin

text \<open>
  Bloom filters (\<open>src/src/table/bloom/memory.rs\<close>): a bit array, positions by double hashing, and that a key
  once inserted is never denied, also after more insertions and through the stored form.
\<close>

unbundle bit_operations_syntax

section \<open>The filter\<close>

record bloom_filter =
  bf_bits :: bytes
  bf_num_bits :: nat
  bf_num_hash_functions :: nat
  bf_num_items :: nat

text \<open>
  The number of hash functions for \<open>b\<close> bits per key is \<open>0.693 * b\<close> rounded up. The source computes it in
  floating point; below 1000 bits per key no product is within a thousandth of an integer, so that the
  exact quotient rounds to the same number.
\<close>

definition auto_hash_functions :: "nat \<Rightarrow> nat" where
  "auto_hash_functions b = (693 * b + 999) div 1000"

definition bloom_new :: "nat \<Rightarrow> nat \<Rightarrow> nat option \<Rightarrow> bloom_filter" where
  "bloom_new num_items bits_per_key hashes =
     (let num_bits = num_items * bits_per_key in
      \<lparr>bf_bits = replicate ((num_bits + 7) div 8) 0, bf_num_bits = num_bits,
       bf_num_hash_functions = (case hashes of Some h \<Rightarrow> h | None \<Rightarrow> auto_hash_functions bits_per_key),
       bf_num_items = 0\<rparr>)"

definition bloom_from_bytes :: "bytes \<Rightarrow> nat \<Rightarrow> bloom_filter" where
  "bloom_from_bytes bits hashes =
     \<lparr>bf_bits = bits, bf_num_bits = length bits * 8, bf_num_hash_functions = hashes, bf_num_items = 0\<rparr>"

definition bloom_from_bytes_with_size :: "bytes \<Rightarrow> nat \<Rightarrow> nat \<Rightarrow> bloom_filter" where
  "bloom_from_bytes_with_size bits num_bits hashes =
     \<lparr>bf_bits = bits, bf_num_bits = num_bits, bf_num_hash_functions = hashes, bf_num_items = 0\<rparr>"

definition hash_key :: "bytes \<Rightarrow> u64 \<times> u64" where
  "hash_key k =
     (foldl (\<lambda>h b. (h XOR ucast b) * 0x100000001b3) 0xcbf29ce484222325 k,
      foldl (\<lambda>h b. h * 31 + ucast b) 0 k)"

text \<open>Taking the remainder by a size of zero panics.\<close>

definition get_bit_position :: "bloom_filter \<Rightarrow> u64 \<Rightarrow> u64 \<Rightarrow> nat \<Rightarrow> table_error + nat" where
  "get_bit_position f h1 h2 i =
     (if (of_nat (bf_num_bits f) :: u64) = 0 then Inl TablePanic
      else Inr (unat ((h1 + of_nat i * h2) mod of_nat (bf_num_bits f))))"

definition set_bit_at :: "nat \<Rightarrow> bytes \<Rightarrow> table_error + bytes" where
  "set_bit_at pos bits =
     (if pos div 8 < length bits then Inr (bits[pos div 8 := (bits ! (pos div 8)) OR push_bit (pos mod 8) 1])
      else Inl TablePanic)"

definition get_bit_at :: "nat \<Rightarrow> bytes \<Rightarrow> table_error + bool" where
  "get_bit_at pos bits =
     (if pos div 8 < length bits then Inr ((bits ! (pos div 8)) AND push_bit (pos mod 8) 1 \<noteq> 0)
      else Inl TablePanic)"

definition bloom_insert :: "bloom_filter \<Rightarrow> bytes \<Rightarrow> table_error + bloom_filter" where
  "bloom_insert f k =
     (let (h1, h2) = hash_key k in
      rbind (fold_result (\<lambda>bits i. rbind (get_bit_position f h1 h2 i) (\<lambda>pos. set_bit_at pos bits))
        [0..<bf_num_hash_functions f] (bf_bits f)) (\<lambda>bits.
      Inr (f\<lparr>bf_bits := bits, bf_num_items := bf_num_items f + 1\<rparr>)))"

text \<open>The loop stops at the first position whose bit is not set.\<close>

definition bloom_contains :: "bloom_filter \<Rightarrow> bytes \<Rightarrow> table_error + bool" where
  "bloom_contains f k =
     (let (h1, h2) = hash_key k in
      fold_result (\<lambda>yes i. if \<not> yes then Inr False
          else rbind (get_bit_position f h1 h2 i) (\<lambda>pos. get_bit_at pos (bf_bits f)))
        [0..<bf_num_hash_functions f] True)"

definition bloom_clear :: "bloom_filter \<Rightarrow> bloom_filter" where
  "bloom_clear f = f\<lparr>bf_bits := replicate (length (bf_bits f)) 0, bf_num_items := 0\<rparr>"

record bloom_builder =
  bb_num_items :: nat
  bb_bits_per_key :: nat
  bb_num_hash_functions :: "nat option"

definition builder_new :: "nat \<Rightarrow> bloom_builder" where
  "builder_new n = \<lparr>bb_num_items = n, bb_bits_per_key = 10, bb_num_hash_functions = None\<rparr>"

definition builder_bits_per_key :: "nat \<Rightarrow> bloom_builder \<Rightarrow> bloom_builder" where
  "builder_bits_per_key b = bb_bits_per_key_update (\<lambda>_. b)"

definition builder_num_hash_functions :: "nat \<Rightarrow> bloom_builder \<Rightarrow> bloom_builder" where
  "builder_num_hash_functions h = bb_num_hash_functions_update (\<lambda>_. Some h)"

definition bloom_build :: "bloom_builder \<Rightarrow> bloom_filter" where
  "bloom_build b = bloom_new (bb_num_items b) (bb_bits_per_key b) (bb_num_hash_functions b)"

text \<open>The error that verification finds is a bit array whose size does not match.\<close>

definition bloom_verify_errors :: "bloom_filter \<Rightarrow> nat" where
  "bloom_verify_errors f = (if length (bf_bits f) \<noteq> (bf_num_bits f + 7) div 8 then 1 else 0)"

section \<open>Well-formed filters\<close>

definition bloom_ok :: "bloom_filter \<Rightarrow> bool" where
  "bloom_ok f \<longleftrightarrow> 0 < bf_num_bits f \<and> bf_num_bits f < 2 ^ 64 \<and> length (bf_bits f) = (bf_num_bits f + 7) div 8"

lemma bloom_new_ok: "0 < n \<Longrightarrow> 0 < b \<Longrightarrow> n * b < 2 ^ 64 \<Longrightarrow> bloom_ok (bloom_new n b h)"
  by (simp add: bloom_ok_def bloom_new_def Let_def)

definition position :: "bloom_filter \<Rightarrow> bytes \<Rightarrow> nat \<Rightarrow> nat" where
  "position f k i = (let (h1, h2) = hash_key k in unat ((h1 + of_nat i * h2) mod of_nat (bf_num_bits f)))"

lemma get_bit_position_ok:
  assumes "bloom_ok f"
  shows "get_bit_position f (fst (hash_key k)) (snd (hash_key k)) i = Inr (position f k i)"
    and "position f k i div 8 < length (bf_bits f)"
proof -
  let ?n = "of_nat (bf_num_bits f) :: u64"
  have n: "unat ?n = bf_num_bits f" "?n \<noteq> 0"
    using assms by (auto simp: bloom_ok_def simp flip: unat_eq_0)
  show "get_bit_position f (fst (hash_key k)) (snd (hash_key k)) i = Inr (position f k i)"
    using n by (simp add: get_bit_position_def position_def case_prod_beta)
  have "position f k i < bf_num_bits f"
    using n assms by (simp add: position_def case_prod_beta unat_mod bloom_ok_def)
  then show "position f k i div 8 < length (bf_bits f)"
    using assms by (simp add: bloom_ok_def div_less_iff_less_mult)
qed

definition bit_set :: "bytes \<Rightarrow> nat \<Rightarrow> bool" where
  "bit_set bits pos \<longleftrightarrow> bit (bits ! (pos div 8)) (pos mod 8)"

lemma get_bit_at_ok: "pos div 8 < length bits \<Longrightarrow> get_bit_at pos bits = Inr (bit_set bits pos)"
  by (simp add: get_bit_at_def bit_set_def and_exp_eq_0_iff_not_bit)

lemma set_bit_at_ok:
  assumes "pos div 8 < length bits"
  obtains bits' where "set_bit_at pos bits = Inr bits'" "length bits' = length bits" "bit_set bits' pos"
    "\<forall>p. bit_set bits p \<longrightarrow> bit_set bits' p"
proof
  let ?b = "bits[pos div 8 := (bits ! (pos div 8)) OR push_bit (pos mod 8) 1]"
  show "set_bit_at pos bits = Inr ?b" "length ?b = length bits" "bit_set ?b pos"
    using assms by (simp_all add: set_bit_at_def bit_set_def bit_simps)
  have "bit_set ?b p" if "bit_set bits p" for p
    using that assms by (cases "p div 8 = pos div 8") (simp_all add: bit_set_def bit_simps)
  then show "\<forall>p. bit_set bits p \<longrightarrow> bit_set ?b p"
    by blast
qed

lemma set_bits:
  assumes "\<forall>i\<in>set is. pos i div 8 < length bits"
  shows "\<exists>bits'. fold_result (\<lambda>bits i. set_bit_at (pos i) bits) is bits = Inr bits' \<and> length bits' = length bits \<and>
    (\<forall>i\<in>set is. bit_set bits' (pos i)) \<and> (\<forall>p. bit_set bits p \<longrightarrow> bit_set bits' p)"
  using assms
proof (induction "is" arbitrary: bits)
  case (Cons i "is")
  have "pos i div 8 < length bits"
    using Cons.prems by simp
  then obtain b where b: "set_bit_at (pos i) bits = Inr b" "length b = length bits" "bit_set b (pos i)"
    "\<forall>p. bit_set bits p \<longrightarrow> bit_set b p"
    by (rule set_bit_at_ok)
  then show ?case
    using Cons.IH [of b] Cons.prems by fastforce
qed simp

section \<open>No false negatives\<close>

lemma bloom_insert_ok:
  assumes "bloom_ok f"
  obtains f' where "bloom_insert f k = Inr f'" "bloom_ok f'" "bf_num_bits f' = bf_num_bits f"
    "bf_num_hash_functions f' = bf_num_hash_functions f" "bf_num_items f' = bf_num_items f + 1"
    "\<forall>i<bf_num_hash_functions f. bit_set (bf_bits f') (position f k i)" "\<forall>p. bit_set (bf_bits f) p \<longrightarrow> bit_set (bf_bits f') p"
proof -
  have "\<forall>i\<in>set [0..<bf_num_hash_functions f]. position f k i div 8 < length (bf_bits f)"
    using get_bit_position_ok(2) [OF assms] by simp
  from set_bits [OF this] obtain bits
    where b: "fold_result (\<lambda>bits i. set_bit_at (position f k i) bits) [0..<bf_num_hash_functions f] (bf_bits f) = Inr bits"
      "length bits = length (bf_bits f)" "\<forall>i<bf_num_hash_functions f. bit_set bits (position f k i)"
      "\<forall>p. bit_set (bf_bits f) p \<longrightarrow> bit_set bits p"
    by auto
  then have "bloom_insert f k = Inr (f\<lparr>bf_bits := bits, bf_num_items := bf_num_items f + 1\<rparr>)"
    using get_bit_position_ok(1) [OF assms, of k] by (simp add: bloom_insert_def case_prod_beta)
  then show ?thesis
    using that [of "f\<lparr>bf_bits := bits, bf_num_items := bf_num_items f + 1\<rparr>"] b assms by (simp add: bloom_ok_def position_def)
qed

lemma fold_yes:
  "fold_result (\<lambda>yes i. if \<not> yes then Inr False else Inr (p i)) is b = (Inr (b \<and> (\<forall>i\<in>set is. p i)) :: table_error + bool)"
  by (induction "is" arbitrary: b) auto

lemma bloom_contains_ok:
  assumes "bloom_ok f"
  shows "bloom_contains f k = Inr (\<forall>i<bf_num_hash_functions f. bit_set (bf_bits f) (position f k i))"
  using get_bit_position_ok [OF assms, of k] fold_yes [of "\<lambda>i. bit_set (bf_bits f) (position f k i)" "[0..<bf_num_hash_functions f]" True]
  by (simp add: bloom_contains_def case_prod_beta get_bit_at_ok Ball_def cong: if_cong)

lemma position_cong: "bf_num_bits f' = bf_num_bits f \<Longrightarrow> position f' k i = position f k i"
  by (simp add: position_def)

lemma bloom_insert_all:
  assumes "bloom_ok f"
  obtains f' where "fold_result bloom_insert ks f = Inr f'" "bloom_ok f'" "bf_num_bits f' = bf_num_bits f"
    "bf_num_hash_functions f' = bf_num_hash_functions f" "bf_num_items f' = bf_num_items f + length ks"
    "\<forall>k\<in>set ks. \<forall>i<bf_num_hash_functions f. bit_set (bf_bits f') (position f k i)"
    "\<forall>p. bit_set (bf_bits f) p \<longrightarrow> bit_set (bf_bits f') p"
  using assms
proof (induction ks arbitrary: f thesis)
  case (Cons k ks)
  obtain g where g: "bloom_insert f k = Inr g" "bloom_ok g" "bf_num_bits g = bf_num_bits f"
    "bf_num_hash_functions g = bf_num_hash_functions f" "bf_num_items g = bf_num_items f + 1"
    "\<forall>i<bf_num_hash_functions f. bit_set (bf_bits g) (position f k i)" "\<forall>p. bit_set (bf_bits f) p \<longrightarrow> bit_set (bf_bits g) p"
    using Cons.prems(2) by (rule bloom_insert_ok)
  obtain h where "fold_result bloom_insert ks g = Inr h" "bloom_ok h" "bf_num_bits h = bf_num_bits g"
    "bf_num_hash_functions h = bf_num_hash_functions g" "bf_num_items h = bf_num_items g + length ks"
    "\<forall>k\<in>set ks. \<forall>i<bf_num_hash_functions g. bit_set (bf_bits h) (position g k i)"
    "\<forall>p. bit_set (bf_bits g) p \<longrightarrow> bit_set (bf_bits h) p"
    using Cons.IH [OF _ g(2)] by metis
  then show ?case
    using g position_cong [OF g(3)] by (intro Cons.prems(1) [of h]) auto
qed simp

text \<open>
  C38. A filter built for some items never denies a key that was inserted, whatever was inserted
  before and after and however many keys there are, also when it is written out and read back with its
  size.
\<close>

theorem bloom_no_false_negatives:
  assumes "0 < n" and "0 < b" and "n * b < 2 ^ 64" and "k \<in> set ks"
  shows "\<exists>f. fold_result bloom_insert ks (bloom_new n b h) = Inr f \<and> bf_num_items f = length ks \<and>
    bloom_contains f k = Inr True \<and>
    bloom_contains (bloom_from_bytes_with_size (bf_bits f) (bf_num_bits f) (bf_num_hash_functions f)) k = Inr True"
proof -
  let ?f = "bloom_new n b h"
  obtain f where f: "fold_result bloom_insert ks ?f = Inr f" "bloom_ok f" "bf_num_bits f = bf_num_bits ?f"
    "bf_num_hash_functions f = bf_num_hash_functions ?f" "bf_num_items f = bf_num_items ?f + length ks"
    "\<forall>k\<in>set ks. \<forall>i<bf_num_hash_functions ?f. bit_set (bf_bits f) (position ?f k i)"
    using bloom_new_ok [OF assms(1-3)] by (rule bloom_insert_all)
  have yes: "bloom_contains g k = Inr True"
    if "bloom_ok g" "bf_num_bits g = bf_num_bits ?f" "bf_num_hash_functions g = bf_num_hash_functions ?f" "bf_bits g = bf_bits f" for g
    using that f(6) assms(4) position_cong [OF that(2)] by (simp add: bloom_contains_ok)
  show ?thesis
    using f by (intro exI [of _ f]) (auto simp: bloom_from_bytes_with_size_def bloom_ok_def bloom_new_def Let_def intro!: yes)
qed

theorem bloom_no_false_negatives_witness:
  "\<exists>f. fold_result bloom_insert [[1, 2], [3]] (bloom_new 2 10 None) = Inr f \<and> bf_num_items f = 2 \<and>
    bloom_contains f [3] = Inr True \<and>
    bloom_contains (bloom_from_bytes_with_size (bf_bits f) (bf_num_bits f) (bf_num_hash_functions f)) [3] = Inr True"
  using bloom_no_false_negatives [of 2 10 "[3]" "[[1, 2], [3]]" None] by (simp flip: numeral_2_eq_2 del: fold_result.simps)

text \<open>
  Reading the bits back without their number takes the bytes for full: ten bits become sixteen, the
  positions of a key move, and a key that was inserted is denied.
\<close>

lemma bloom_from_bytes_denies:
  "(case bloom_insert (bloom_new 1 10 (Some 2)) [1] of
      Inl e \<Rightarrow> Inl e
    | Inr f \<Rightarrow> bloom_contains (bloom_from_bytes (bf_bits f) (bf_num_hash_functions f)) [1]) = Inr False"
  by code_simp

text \<open>A filter for no items panics at the first insertion and at every question.\<close>

lemma bloom_empty_panics: "bloom_insert (bloom_new 0 b (Some (Suc h))) k = Inl TablePanic"
  "bloom_contains (bloom_new 0 b (Some (Suc h))) k = Inl TablePanic"
  by (simp_all add: bloom_insert_def bloom_contains_def bloom_new_def get_bit_position_def case_prod_beta upt_rec)

end
