(* ===== verification/BloomPaged.thy ===== *)
theory BloomPaged
  imports BloomFilter PagerRefine
begin

text \<open>
  Tombstones of rolled-back insertions (\<open>src/src/table/bloom/tombstone.rs\<close>) and the filter on pages
  (\<open>src/src/table/bloom/paged.rs\<close>), whose bits are spread over pages listed in a root page. What is shown: which
  tombstones a snapshot sees and that vacuuming removes only those that every later snapshot sees; and that the
  pages of a filter cannot be read back once they have left the cache.
\<close>

unbundle bit_operations_syntax

section \<open>Tombstones\<close>

record bloom_tombstone =
  bt_key :: bytes
  bt_tx_id :: txn_id
  bt_lsn :: "lsn option"

definition tombstone_new :: "bytes \<Rightarrow> txn_id \<Rightarrow> bloom_tombstone" where
  "tombstone_new k t = \<lparr>bt_key = k, bt_tx_id = t, bt_lsn = None\<rparr>"

definition tombstone_visible :: "bloom_tombstone \<Rightarrow> snapshot \<Rightarrow> bool" where
  "tombstone_visible b snap = (case bt_lsn b of Some l \<Rightarrow> l \<le> snap_lsn snap | None \<Rightarrow> False)"

type_synonym tombstone_set = "bloom_tombstone set"

definition tombstones_add :: "bytes \<Rightarrow> txn_id \<Rightarrow> tombstone_set \<Rightarrow> tombstone_set" where
  "tombstones_add k t ts = insert (tombstone_new k t) ts"

definition is_tombstoned :: "tombstone_set \<Rightarrow> bytes \<Rightarrow> snapshot \<Rightarrow> bool" where
  "is_tombstoned ts k snap \<longleftrightarrow> (\<exists>t\<in>ts. bt_key t = k \<and> tombstone_visible t snap)"

definition commit_tombstones :: "txn_id \<Rightarrow> lsn \<Rightarrow> tombstone_set \<Rightarrow> tombstone_set" where
  "commit_tombstones tx l ts =
     (\<lambda>t. if bt_tx_id t = tx \<and> bt_lsn t = None then t\<lparr>bt_lsn := Some l\<rparr> else t) ` ts"

definition tombstones_vacuum :: "lsn \<Rightarrow> tombstone_set \<Rightarrow> nat \<times> tombstone_set" where
  "tombstones_vacuum min_visible ts =
     (let kept = {t \<in> ts. case bt_lsn t of Some l \<Rightarrow> l > min_visible | None \<Rightarrow> True} in
      (card ts - card kept, kept))"

text \<open>A key is hidden from the snapshots at or after the commit of its tombstone, and from no others.\<close>

lemma tombstone_hides_from_commit:
  assumes "\<And>t. t \<in> ts \<Longrightarrow> bt_key t \<noteq> k"
  shows "is_tombstoned (commit_tombstones tx l (tombstones_add k tx ts)) k snap \<longleftrightarrow> l \<le> snap_lsn snap"
    and "\<not> is_tombstoned (tombstones_add k tx ts) k snap"
  using assms
  by (auto simp: is_tombstoned_def commit_tombstones_def tombstones_add_def tombstone_visible_def tombstone_new_def
    split: if_splits option.splits)

text \<open>
  Vacuuming keeps what a snapshot before \<open>min_visible\<close> could tell apart from the others, and forgets a
  tombstone that every snapshot from \<open>min_visible\<close> on sees: its key shows again.
\<close>

lemma vacuum_below:
  "is_tombstoned (snd (tombstones_vacuum m ts)) k snap \<longleftrightarrow>
     (\<exists>t\<in>ts. bt_key t = k \<and> tombstone_visible t snap \<and> (\<exists>l. bt_lsn t = Some l \<and> m < l))"
  by (auto simp: is_tombstoned_def tombstones_vacuum_def Let_def tombstone_visible_def split: option.splits)

lemma vacuum_shows_rolled_back_key:
  "is_tombstoned {\<lparr>bt_key = k, bt_tx_id = t, bt_lsn = Some 5\<rparr>} k (snap\<lparr>snap_lsn := 9\<rparr>)"
  "\<not> is_tombstoned (snd (tombstones_vacuum 5 {\<lparr>bt_key = k, bt_tx_id = t, bt_lsn = Some 5\<rparr>})) k (snap\<lparr>snap_lsn := 9\<rparr>)"
  by (simp_all add: is_tombstoned_def tombstones_vacuum_def Let_def tombstone_visible_def)

section \<open>The filter on pages\<close>

record paged_bloom =
  pl_table_id :: u64
  pl_name :: string
  pl_pager :: pager
  pl_root_page_id :: page_id
  pl_num_bits :: nat
  pl_num_hash_functions :: nat
  pl_num_items :: nat
  pl_bitmap_pages :: "page_id list"
  pl_bits_per_page :: nat
  pl_tombstones :: tombstone_set

type_synonym 'a bloom_action = "(paged_bloom, table_error, 'a) st_action"

definition bloom_call :: "'a action \<Rightarrow> 'a bloom_action" where
  "bloom_call m f =
     (let (r, p) = m (pl_pager f) in
      (case r of Inl e \<Rightarrow> Inl (TablePager e) | Inr a \<Rightarrow> Inr a, f\<lparr>pl_pager := p\<rparr>))"

definition bloom_magic :: u32 where "bloom_magic = 0x424C4F4D"
definition bloom_version :: u32 where "bloom_version = 1"

text \<open>
  \<open>BloomFilterMetadata\<close> is copied byte by byte from memory: 72 bytes with the layout of C, where the four
  bytes after the hash count and the four at the end are padding. Their values are not specified; they are
  an argument here.
\<close>

record bloom_metadata =
  bm_magic :: u32
  bm_version :: u32
  bm_num_bits :: u64
  bm_num_hash_functions :: u32
  bm_num_items :: u64
  bm_num_bitmap_pages :: u32

definition metadata_bytes :: "bytes \<Rightarrow> bloom_metadata \<Rightarrow> bytes" where
  "metadata_bytes pad m =
     u32_le (bm_magic m) @ u32_le (bm_version m) @ u64_le (bm_num_bits m) @ u32_le (bm_num_hash_functions m) @
     resize 4 0 (take 4 pad) @ u64_le (bm_num_items m) @ u32_le (bm_num_bitmap_pages m) @ replicate 32 0 @
     resize 4 0 (drop 4 pad)"

definition metadata_of :: "bytes \<Rightarrow> bloom_metadata" where
  "metadata_of bs =
     \<lparr>bm_magic = u32_of_le (bslice 0 4 bs), bm_version = u32_of_le (bslice 4 8 bs),
      bm_num_bits = u64_of_le (bslice 8 16 bs), bm_num_hash_functions = u32_of_le (bslice 16 20 bs),
      bm_num_items = u64_of_le (bslice 24 32 bs), bm_num_bitmap_pages = u32_of_le (bslice 32 36 bs)\<rparr>"

definition page_full_of :: "pager \<Rightarrow> page_id \<Rightarrow> page_type \<Rightarrow> bytes \<Rightarrow> page" where
  "page_full_of p i t d = (page_new i t)\<lparr>pg_data := resize (page_data_size (pc_page_size (pgr_config p))) 0 d\<rparr>"

text \<open>Writing past the end of the root page panics.\<close>

definition bloom_write_metadata :: "pager_env \<Rightarrow> bytes \<Rightarrow> unit bloom_action" where
  "bloom_write_metadata E pad f =
     (let m = \<lparr>bm_magic = bloom_magic, bm_version = bloom_version, bm_num_bits = of_nat (pl_num_bits f),
               bm_num_hash_functions = of_nat (pl_num_hash_functions f), bm_num_items = of_nat (pl_num_items f),
               bm_num_bitmap_pages = of_nat (length (pl_bitmap_pages f))\<rparr>;
          d = metadata_bytes pad m @ concat (map u64_le (pl_bitmap_pages f)) in
      if length d > page_data_size (pc_page_size (pgr_config (pl_pager f))) then (Inl TablePanic, f)
      else bloom_call (write_page E (page_full_of (pl_pager f) (pl_root_page_id f) PT_BloomMeta d)) f)"

fun allocate_bitmap :: "pager_env \<Rightarrow> nat \<Rightarrow> page_id list action" where
  "allocate_bitmap E 0 = pret []"
| "allocate_bitmap E (Suc n) =
     pbind (allocate_page E PT_BloomData) (\<lambda>i.
     pbind (\<lambda>p. write_page E (page_full_of p i PT_BloomData []) p) (\<lambda>_.
     pbind (allocate_bitmap E n) (\<lambda>is. pret (i # is))))"

definition paged_bloom_new ::
    "pager_env \<Rightarrow> bytes \<Rightarrow> u64 \<Rightarrow> string \<Rightarrow> pager \<Rightarrow> nat \<Rightarrow> nat \<Rightarrow> nat option \<Rightarrow> (table_error + paged_bloom) \<times> pager" where
  "paged_bloom_new E pad i nm p num_items bits_per_key hashes =
     (let num_bits = num_items * bits_per_key;
          bits_per_page = page_data_size (pc_page_size (pgr_config p)) * 8;
          num_pages = (num_bits + bits_per_page - 1) div bits_per_page in
      case pbind (allocate_page E PT_BloomMeta) (\<lambda>root.
           pbind (allocate_bitmap E num_pages) (\<lambda>is. pret (root, is))) p of
        (Inl e, p) \<Rightarrow> (Inl (TablePager e), p)
      | (Inr (root, is), p) \<Rightarrow>
          let f = \<lparr>pl_table_id = i, pl_name = nm, pl_pager = p, pl_root_page_id = root, pl_num_bits = num_bits,
                   pl_num_hash_functions = (case hashes of Some h \<Rightarrow> h | None \<Rightarrow> auto_hash_functions bits_per_key),
                   pl_num_items = 0, pl_bitmap_pages = is, pl_bits_per_page = bits_per_page, pl_tombstones = {}\<rparr> in
          (case bloom_write_metadata E pad f of
             (Inl e, f) \<Rightarrow> (Inl e, pl_pager f)
           | (Inr u, f) \<Rightarrow> (Inr f, pl_pager f)))"

text \<open>
  The cast of the page's data to the metadata reads 72 bytes whatever their number; a shorter page is
  an error here.
\<close>

definition paged_bloom_open :: "pager_env \<Rightarrow> u64 \<Rightarrow> string \<Rightarrow> pager \<Rightarrow> page_id \<Rightarrow> (table_error + paged_bloom) \<times> pager" where
  "paged_bloom_open E i nm p root =
     (case read_page E root p of
        (Inl e, p) \<Rightarrow> (Inl (TablePager e), p)
      | (Inr page, p) \<Rightarrow>
          let d = pg_data page; m = metadata_of d; ids = drop 72 d; n = unat (bm_num_bitmap_pages m) in
          if length d < 72 then (Inl TablePanic, p)
          else if bm_magic m \<noteq> bloom_magic then (Inl (TableCorruption ''invalid_magic''), p)
          else if bm_version m \<noteq> bloom_version then (Inl (InvalidFormatVersion (bm_version m)), p)
          else if n * 8 > length ids then (Inl TablePanic, p)
          else (Inr \<lparr>pl_table_id = i, pl_name = nm, pl_pager = p, pl_root_page_id = root,
                     pl_num_bits = unat (bm_num_bits m), pl_num_hash_functions = unat (bm_num_hash_functions m),
                     pl_num_items = unat (bm_num_items m),
                     pl_bitmap_pages = map (\<lambda>j. u64_of_le (bslice (j * 8) (j * 8 + 8) ids)) [0..<n],
                     pl_bits_per_page = page_data_size (pc_page_size (pgr_config p)) * 8, pl_tombstones = {}\<rparr>, p))"

definition paged_bit_position :: "paged_bloom \<Rightarrow> u64 \<Rightarrow> u64 \<Rightarrow> nat \<Rightarrow> table_error + nat" where
  "paged_bit_position f h1 h2 i =
     (if (of_nat (pl_num_bits f) :: u64) = 0 then Inl TablePanic
      else Inr (unat ((h1 + of_nat i * h2) mod of_nat (pl_num_bits f))))"

definition bitmap_page :: "paged_bloom \<Rightarrow> nat \<Rightarrow> table_error + page_id" where
  "bitmap_page f pos =
     (let j = pos div pl_bits_per_page f in
      if j < length (pl_bitmap_pages f) then Inr (pl_bitmap_pages f ! j) else Inl TablePanic)"

definition paged_set_bit :: "pager_env \<Rightarrow> nat \<Rightarrow> unit bloom_action" where
  "paged_set_bit E pos f =
     (let at = pos mod pl_bits_per_page f; byte = at div 8 in
      pbind (plift (bitmap_page f pos)) (\<lambda>i.
      pbind (bloom_call (read_page E i)) (\<lambda>page f.
      let d = (if length (pg_data page) \<le> byte
               then resize (page_data_size (pc_page_size (pgr_config (pl_pager f)))) 0 (pg_data page) else pg_data page) in
      if byte < length d
      then bloom_call (write_page E (page\<lparr>pg_data := d[byte := (d ! byte) OR push_bit (at mod 8) 1]\<rparr>)) f
      else (Inl TablePanic, f))) f)"

definition paged_get_bit :: "pager_env \<Rightarrow> nat \<Rightarrow> bool bloom_action" where
  "paged_get_bit E pos f =
     (let at = pos mod pl_bits_per_page f; byte = at div 8 in
      pbind (plift (bitmap_page f pos)) (\<lambda>i.
      pbind (bloom_call (read_page E i)) (\<lambda>page.
      if byte < length (pg_data page) then pret ((pg_data page ! byte) AND push_bit (at mod 8) 1 \<noteq> 0)
      else perr TablePanic)) f)"

definition paged_bloom_insert :: "pager_env \<Rightarrow> bytes \<Rightarrow> bytes \<Rightarrow> unit bloom_action" where
  "paged_bloom_insert E pad k =
     (let (h1, h2) = hash_key k in
      pbind (\<lambda>f. pmapM (\<lambda>i f. pbind (plift (paged_bit_position f h1 h2 i)) (paged_set_bit E) f)
        [0..<pl_num_hash_functions f] f) (\<lambda>_.
      pbind (\<lambda>f. (Inr (), f\<lparr>pl_num_items := pl_num_items f + 1\<rparr>)) (\<lambda>_.
      bloom_write_metadata E pad)))"

fun all_bits :: "pager_env \<Rightarrow> u64 \<Rightarrow> u64 \<Rightarrow> nat list \<Rightarrow> bool bloom_action" where
  "all_bits E h1 h2 [] = pret True"
| "all_bits E h1 h2 (i # is) =
     pbind (\<lambda>f. pbind (plift (paged_bit_position f h1 h2 i)) (paged_get_bit E) f) (\<lambda>b.
     if b then all_bits E h1 h2 is else pret False)"

text \<open>The tombstones are not consulted.\<close>

definition paged_bloom_contains :: "pager_env \<Rightarrow> bytes \<Rightarrow> bool bloom_action" where
  "paged_bloom_contains E k f =
     (let (h1, h2) = hash_key k in all_bits E h1 h2 [0..<pl_num_hash_functions f] f)"

definition paged_bloom_clear :: "pager_env \<Rightarrow> bytes \<Rightarrow> unit bloom_action" where
  "paged_bloom_clear E pad =
     pbind (\<lambda>f. pmapM (\<lambda>i f. bloom_call (write_page E (page_full_of (pl_pager f) i PT_BloomData [])) f) (pl_bitmap_pages f) f) (\<lambda>_.
     pbind (\<lambda>f. (Inr (), f\<lparr>pl_num_items := 0\<rparr>)) (\<lambda>_.
     bloom_write_metadata E pad))"

definition paged_add_tombstone :: "bytes \<Rightarrow> txn_id \<Rightarrow> unit bloom_action" where
  "paged_add_tombstone k t f = (Inr (), f\<lparr>pl_tombstones := tombstones_add k t (pl_tombstones f)\<rparr>)"

definition paged_commit_tombstones :: "txn_id \<Rightarrow> lsn \<Rightarrow> paged_bloom \<Rightarrow> paged_bloom" where
  "paged_commit_tombstones t l f = f\<lparr>pl_tombstones := commit_tombstones t l (pl_tombstones f)\<rparr>"

definition paged_vacuum_tombstones :: "lsn \<Rightarrow> paged_bloom \<Rightarrow> nat \<times> paged_bloom" where
  "paged_vacuum_tombstones l f =
     (let (n, ts) = tombstones_vacuum l (pl_tombstones f) in (n, f\<lparr>pl_tombstones := ts\<rparr>))"

definition paged_bloom_verify_errors :: "paged_bloom \<Rightarrow> nat" where
  "paged_bloom_verify_errors f =
     (if length (pl_bitmap_pages f) \<noteq> (pl_num_bits f + pl_bits_per_page f - 1) div pl_bits_per_page f then 1 else 0)"

section \<open>What the pages keep\<close>

text \<open>The metadata survives the copy to bytes and back, whatever the padding holds.\<close>

lemma metadata_round_trip: "metadata_of (metadata_bytes pad m @ rest) = m"
  by (simp add: metadata_of_def metadata_bytes_def bslice_def)

text \<open>A tombstone changes no answer.\<close>

lemma tombstones_not_consulted:
  "fst (paged_bloom_contains E k (f\<lparr>pl_tombstones := ts\<rparr>)) = fst (paged_bloom_contains E k f)"
proof -
  have one: "\<exists>r g. pbind (plift (paged_bit_position f h1 h2 i)) (paged_get_bit E) f = (r, g) \<and>
    pbind (plift (paged_bit_position (f\<lparr>pl_tombstones := ts\<rparr>) h1 h2 i)) (paged_get_bit E) (f\<lparr>pl_tombstones := ts\<rparr>) =
      (r, g\<lparr>pl_tombstones := ts\<rparr>)" for h1 h2 i f
    by (cases "read_page E (pl_bitmap_pages f ! (unat ((h1 + of_nat i * h2) mod of_nat (pl_num_bits f)) div pl_bits_per_page f)) (pl_pager f)")
      (simp add: paged_bit_position_def paged_get_bit_def bitmap_page_def bloom_call_def pbind_def plift_def pret_def perr_def
        Let_def split: sum.splits)
  have "fst (all_bits E h1 h2 is (f\<lparr>pl_tombstones := ts\<rparr>)) = fst (all_bits E h1 h2 is f)" for h1 h2 "is"
  proof (induction "is" arbitrary: f)
    case (Cons i "is")
    then show ?case
      using one [of f h1 h2 i] by (auto simp: pbind_def pret_def split: sum.splits)
  qed (simp add: pret_def)
  then show ?thesis
    by (simp add: paged_bloom_contains_def case_prod_beta)
qed

section \<open>Reading the pages back\<close>

lemma bloom_page_lost:
  assumes "env_ok E" and "pgr_cache p = None" and "length (file_bytes p) < 2 ^ 64"
    and "in_file p (translate (pgr_mapper p) i)" and "translate (pgr_mapper p) i < sb_total_pages (pgr_superblock p)"
    and t: "t \<in> {PT_BloomMeta, PT_BloomData}"
  obtains q where "write_page E (page_full_of p i t d) p = (Inr (), q)" "pgr_config q = pgr_config p"
    "fst (read_page E i q) = Inl (InvalidPageType (page_type_to_u8 t))"
proof -
  let ?g = "page_full_of p i t d" and ?key = "pc_encryption_key (pgr_config p)" and ?nonce = "env_nonce E (pgr_draws p)"
  let ?i = "translate (pgr_mapper p) i" and ?p = "p\<lparr>pgr_draws := pgr_draws p + 1\<rparr>"
  have g: "ph_page_id (pg_header ?g) = i" "ph_page_type (pg_header ?g) = t" "length (pg_data ?g) + 64 = size_of p"
    "ph_compression (pg_header ?g) = Comp_None" "ph_encryption (pg_header ?g) = Enc_None"
    using page_data_size_add by (simp_all add: page_full_of_def page_new_def page_header_new_def size_of_def)
  obtain bs where bs: "page_to_bytes (env_libs E) ?nonce ?g (size_of p) ?key = Inr bs" "length bs = size_of p"
    using g(3-5) assms(1) libs_okD(6) size_of_bounds [of p]
    by (auto simp: page_to_bytes_def compress_page_def encrypt_page_def page_digest_def Let_def env_ok_def)
  have enc: "encode_page E ?g p = (Inr bs, ?p)"
    using bs(1) by (simp add: encode_page_def size_of_def)
  obtain f where f: "write_at (page_offset ?p ?i) bs ?p = (Inr (), ?p\<lparr>pgr_file := f\<rparr>)"
    "slot (?p\<lparr>pgr_file := f\<rparr>) ?i = bs"
  proof (rule write_slot [of bs ?p ?i])
    show "length bs = size_of ?p" "in_file ?p ?i" "length (file_bytes ?p) < 2 ^ 64"
      using bs(2) assms(3,4) by (simp_all add: size_of_def in_file_def)
  qed blast
  let ?q = "?p\<lparr>pgr_file := f\<rparr>"
  have "decode_block E ?q bs = Inl (InvalidPageType (page_type_to_u8 t))"
    using bloom_page_unreadable [OF _ _ _ bs(1)] bs(2) size_of_bounds [of p] g assms(1) t
    by (auto simp: decode_block_def env_ok_def)
  then have "fst (read_page E i ?q) = Inl (InvalidPageType (page_type_to_u8 t))"
    using assms(2,5) f(2)
    by (simp add: read_page_def cached_def pbind_def read_uncached_def plift_def Let_def slot_def page_offset_def size_of_def
      decode_block_def)
  moreover have "write_page E ?g p = (Inr (), ?q)"
    using assms(2) enc f(1) g(1) by (simp add: write_page_def write_page_to_disk_def pbind_def)
  ultimately show ?thesis
    using that by simp
qed

text \<open>
  C39. On a pager without a cache the metadata of a filter is written without complaint, but the filter
  cannot be opened again: the root page reads as a page of an invalid type.\<close>

theorem paged_bloom_unreadable:
  assumes "env_ok E" and "pgr_cache (pl_pager f) = None" and "length (file_bytes (pl_pager f)) < 2 ^ 64"
    and "in_file (pl_pager f) (translate (pgr_mapper (pl_pager f)) (pl_root_page_id f))"
    and "translate (pgr_mapper (pl_pager f)) (pl_root_page_id f) < sb_total_pages (pgr_superblock (pl_pager f))"
    and "72 + 8 * length (pl_bitmap_pages f) \<le> page_data_size (pc_page_size (pgr_config (pl_pager f)))"
  shows "\<exists>g. bloom_write_metadata E pad f = (Inr (), g) \<and>
    fst (paged_bloom_open E i nm (pl_pager g) (pl_root_page_id f)) = Inl (TablePager (InvalidPageType 14))"
proof -
  have len: "length (metadata_bytes pad m @ concat (map u64_le ids)) = 72 + 8 * length ids" for m ids
    by (induction ids) (simp_all add: metadata_bytes_def)
  have t: "PT_BloomMeta \<in> {PT_BloomMeta, PT_BloomData}"
    by simp
  let ?d = "metadata_bytes pad \<lparr>bm_magic = bloom_magic, bm_version = bloom_version, bm_num_bits = of_nat (pl_num_bits f),
    bm_num_hash_functions = of_nat (pl_num_hash_functions f), bm_num_items = of_nat (pl_num_items f),
    bm_num_bitmap_pages = of_nat (length (pl_bitmap_pages f))\<rparr> @ concat (map u64_le (pl_bitmap_pages f))"
  obtain q where q: "write_page E (page_full_of (pl_pager f) (pl_root_page_id f) PT_BloomMeta ?d) (pl_pager f) = (Inr (), q)"
    "fst (read_page E (pl_root_page_id f) q) = Inl (InvalidPageType (page_type_to_u8 PT_BloomMeta))"
    using bloom_page_lost [OF assms(1-5) t] by blast
  have "bloom_write_metadata E pad f = (Inr (), f\<lparr>pl_pager := q\<rparr>)"
    using q(1) assms(6) unfolding bloom_write_metadata_def Let_def len by (simp add: bloom_call_def)
  moreover have "fst (paged_bloom_open E i nm q (pl_root_page_id f)) = Inl (TablePager (InvalidPageType 14))"
    using q(2) by (auto simp: paged_bloom_open_def split: prod.splits sum.splits)
  ultimately show ?thesis
    by auto
qed

definition sample_filter :: "pager \<Rightarrow> paged_bloom" where
  "sample_filter p = \<lparr>pl_table_id = 1, pl_name = ''bloom'', pl_pager = p\<lparr>pgr_cache := None\<rparr>, pl_root_page_id = 1, pl_num_bits = 20,
     pl_num_hash_functions = 7, pl_num_items = 0, pl_bitmap_pages = [3], pl_bits_per_page = 32256, pl_tombstones = {}\<rparr>"

theorem paged_bloom_unreadable_witness:
  "\<exists>p g. pager_create sample_env 7 memory_fs_new ''db'' pager_config_default = Inr p \<and>
    bloom_write_metadata sample_env [] (sample_filter p) = (Inr (), g) \<and>
    fst (paged_bloom_open sample_env 1 ''bloom'' (pl_pager g) 1) = Inl (TablePager (InvalidPageType 14))"
proof -
  obtain p where p: "pager_create sample_env 7 memory_fs_new ''db'' pager_config_default = Inr p"
    "pgr_config p = pager_config_default" "size_of p = 4096" "implements sample_env 9 p store_new"
    "sb_next_page_id (pgr_superblock p) = 2"
    by (rule sample_created)
  have inv: "pager_inv sample_env p Map.empty"
    using p(4) by (simp add: implements_def store_new_def)
  let ?f = "sample_filter p"
  have f: "pgr_cache (pl_pager ?f) = None" "length (file_bytes (pl_pager ?f)) < 2 ^ 64"
    "in_file (pl_pager ?f) (translate (pgr_mapper (pl_pager ?f)) (pl_root_page_id ?f))"
    "translate (pgr_mapper (pl_pager ?f)) (pl_root_page_id ?f) < sb_total_pages (pgr_superblock (pl_pager ?f))"
    "72 + 8 * length (pl_bitmap_pages ?f) \<le> page_data_size (pc_page_size (pgr_config (pl_pager ?f)))"
    using pager_invD(3,4,14) [OF inv] p(2,3,5) in_file_low(2) [of "pl_pager ?f"]
    by (simp_all add: sample_filter_def pager_config_default_def page_data_size_def page_header_size_def page_checksum_size_def)
  show ?thesis
    using paged_bloom_unreadable [OF sample_env_ok f, of "[]" 1 "''bloom''"] p(1) by (auto simp: sample_filter_def)
qed

end
