(* ===== verification/SsTable.thy ===== *)
theory SsTable
  imports BTreeNode
begin

text \<open>
  The parts of a sorted string table (\<open>src/src/table/lsm/sstable.rs\<close>): the footer, the data blocks and
  the sparse index, each with its byte format. Encoding and decoding are inverse, the footer up to keys
  cut at 64 bytes, and the search in the index finds the last block that does not start above the key.
\<close>

section \<open>The footer\<close>

record sstable_metadata =
  sm_id :: u64
  sm_level :: u32
  sm_min_key :: bytes
  sm_max_key :: bytes
  sm_num_entries :: u64
  sm_total_size :: u64
  sm_created_lsn :: lsn
  sm_first_page_id :: page_id
  sm_num_pages :: u32
  sm_index_offset :: u64
  sm_bloom_filter_offset :: u64
  sm_footer_offset :: u64

record sstable_footer =
  sf_magic :: u64
  sf_version :: u32
  sf_metadata :: sstable_metadata
  sf_checksum :: bytes

definition sst_magic :: u64 where "sst_magic = 0x5353544142"
definition sst_version :: u32 where "sst_version = 1"

definition footer_new :: "sstable_metadata \<Rightarrow> bytes \<Rightarrow> sstable_footer" where
  "footer_new m c = \<lparr>sf_magic = sst_magic, sf_version = sst_version, sf_metadata = m, sf_checksum = c\<rparr>"

text \<open>A key takes 68 bytes: its length, at most 64 of its bytes, and zeros.\<close>

definition footer_key :: "bytes \<Rightarrow> bytes" where
  "footer_key k = (let n = min (length k) 64 in u32_le (of_nat n) @ take n k @ replicate (64 - n) 0)"

definition footer_to_bytes :: "sstable_footer \<Rightarrow> bytes" where
  "footer_to_bytes f =
     (let m = sf_metadata f in
      resize 256 0
       (u64_le (sf_magic f) @ u32_le (sf_version f) @ u64_le (sm_id m) @ u32_le (sm_level m) @
        footer_key (sm_min_key m) @ footer_key (sm_max_key m) @
        u64_le (sm_num_entries m) @ u64_le (sm_total_size m) @ u64_le (sm_created_lsn m) @
        u64_le (sm_first_page_id m) @ u32_le (sm_num_pages m) @ u64_le (sm_index_offset m) @
        u64_le (sm_bloom_filter_offset m) @ u64_le (sm_footer_offset m) @ sf_checksum f))"

text \<open>A stored key length that leads past the end of the bytes panics.\<close>

definition footer_from_bytes :: "bytes \<Rightarrow> table_error + sstable_footer" where
  "footer_from_bytes bs =
     (if length bs < 256 then Inl (TableCorruption ''truncated_footer'')
      else let magic = u64_of_le (bslice 0 8 bs) in
      if magic \<noteq> sst_magic then Inl (TableCorruption ''invalid_magic'')
      else let min_len = unat (u32_of_le (bslice 24 28 bs)); max_len = unat (u32_of_le (bslice 92 96 bs)) in
      if length bs < 28 + min_len \<or> length bs < 96 + max_len then Inl TablePanic
      else Inr \<lparr>sf_magic = magic, sf_version = u32_of_le (bslice 8 12 bs),
        sf_metadata = \<lparr>sm_id = u64_of_le (bslice 12 20 bs), sm_level = u32_of_le (bslice 20 24 bs),
          sm_min_key = bslice 28 (28 + min_len) bs, sm_max_key = bslice 96 (96 + max_len) bs,
          sm_num_entries = u64_of_le (bslice 160 168 bs), sm_total_size = u64_of_le (bslice 168 176 bs),
          sm_created_lsn = u64_of_le (bslice 176 184 bs), sm_first_page_id = u64_of_le (bslice 184 192 bs),
          sm_num_pages = u32_of_le (bslice 192 196 bs), sm_index_offset = u64_of_le (bslice 196 204 bs),
          sm_bloom_filter_offset = u64_of_le (bslice 204 212 bs), sm_footer_offset = u64_of_le (bslice 212 220 bs)\<rparr>,
        sf_checksum = bslice 220 252 bs\<rparr>)"

definition footer_keys_cut :: "sstable_metadata \<Rightarrow> sstable_metadata" where
  "footer_keys_cut m = m\<lparr>sm_min_key := take 64 (sm_min_key m), sm_max_key := take 64 (sm_max_key m)\<rparr>"

section \<open>Data blocks\<close>

type_synonym sst_entry = "bytes \<times> version_chain"

text \<open>\<open>assert!\<close> panics on entries that are not in order.\<close>

definition in_key_order :: "('a \<Rightarrow> bytes) \<Rightarrow> 'a list \<Rightarrow> bool" where
  "in_key_order key es = successively (<) (map key es)"

definition block_from_entries :: "sst_entry list \<Rightarrow> table_error + sst_entry list" where
  "block_from_entries es = (if in_key_order fst es then Inr es else Inl TablePanic)"

definition block_add :: "bytes \<Rightarrow> version_chain \<Rightarrow> sst_entry list \<Rightarrow> table_error + sst_entry list" where
  "block_add k c es =
     (if es \<noteq> [] \<and> k \<le> fst (last es) then Inl InvalidOperationState else Inr (es @ [(k, c)]))"

text \<open>Binary search in a sorted list gives the position of the key.\<close>

definition block_search :: "sst_entry list \<Rightarrow> bytes \<Rightarrow> nat option" where
  "block_search es k =
     (let i = length (takeWhile (\<lambda>e. fst e < k) es) in
      if i < length es \<and> fst (es ! i) = k then Some i else None)"

definition block_get :: "sst_entry list \<Rightarrow> bytes \<Rightarrow> version_chain option" where
  "block_get es k = map_option (\<lambda>i. snd (es ! i)) (block_search es k)"

definition sst_entry_bytes :: "chain_codec \<Rightarrow> sst_entry \<Rightarrow> bytes" where
  "sst_entry_bytes cc e = len_prefixed (fst e) @ len_prefixed (cc_to_allocvec cc (snd e))"

definition block_payload :: "libs \<Rightarrow> bool \<Rightarrow> bytes \<Rightarrow> bytes \<times> u8" where
  "block_payload L compress d =
     (if compress \<and> length d > 128 \<and> length (lz4_compress L d) < length d then (lz4_compress L d, 1) else (d, 0))"

definition block_to_bytes :: "libs \<Rightarrow> chain_codec \<Rightarrow> bool \<Rightarrow> sst_entry list \<Rightarrow> bytes" where
  "block_to_bytes L cc compress es =
     (let (d, flag) = block_payload L compress (concat (map (sst_entry_bytes cc) es)) in
      u32_le (of_nat (length es)) @ [flag] @ sha256 L d @ d)"

fun read_block_entries :: "chain_codec \<Rightarrow> nat \<Rightarrow> bytes \<Rightarrow> nat \<Rightarrow> table_error + sst_entry list" where
  "read_block_entries cc 0 d offset = Inr []"
| "read_block_entries cc (Suc n) d offset =
     rbind (read_prefixed_or (TableCorruption ''truncated_entry'') (TableCorruption ''truncated_key'') d offset) (\<lambda>(k, offset).
     rbind (read_prefixed_or (TableCorruption ''truncated_chain_length'') (TableCorruption ''truncated_chain_data'') d offset) (\<lambda>(bs, offset).
     rbind (ok_or (cc_from_bytes cc bs) (TableCorruption ''deserialization_error'')) (\<lambda>c.
     rbind (read_block_entries cc n d offset) (\<lambda>es. Inr ((k, c) # es)))))"

definition block_from_bytes :: "libs \<Rightarrow> chain_codec \<Rightarrow> bytes \<Rightarrow> table_error + sst_entry list" where
  "block_from_bytes L cc bs =
     (if length bs < 37 then Inl (TableCorruption ''truncated_block'')
      else let n = unat (u32_of_le (bslice 0 4 bs)); stored = drop 37 bs in
      if bslice 5 37 bs \<noteq> sha256 L stored then Inl (TableCorruption ''checksum_mismatch'')
      else rbind (if bs ! 4 = 1 then ok_or (lz4_decompress L stored) (TableCorruption ''decompression_error'') else Inr stored) (\<lambda>d.
      rbind (read_block_entries cc n d 0) (\<lambda>es.
      if in_key_order fst es then Inr es else Inl (TableCorruption ''unsorted_entries''))))"

definition block_estimate_size :: "chain_codec \<Rightarrow> sst_entry list \<Rightarrow> nat" where
  "block_estimate_size cc es = 37 + sum_list (map (\<lambda>(k, c). 4 + length k + 4 + length (cc_to_allocvec cc c)) es)"

section \<open>The index\<close>

record sst_index_entry =
  xi_first_key :: bytes
  xi_page_id :: page_id
  xi_offset :: u64

definition index_from_entries :: "sst_index_entry list \<Rightarrow> table_error + sst_index_entry list" where
  "index_from_entries es = (if in_key_order xi_first_key es then Inr es else Inl TablePanic)"

definition index_add :: "bytes \<Rightarrow> page_id \<Rightarrow> u64 \<Rightarrow> sst_index_entry list \<Rightarrow> table_error + sst_index_entry list" where
  "index_add k i off es =
     (if es \<noteq> [] \<and> k \<le> xi_first_key (last es) then Inl InvalidOperationState
      else Inr (es @ [\<lparr>xi_first_key = k, xi_page_id = i, xi_offset = off\<rparr>]))"

function index_search_loop :: "sst_index_entry list \<Rightarrow> bytes \<Rightarrow> nat \<Rightarrow> nat \<Rightarrow> nat option \<Rightarrow> nat option" where
  "index_search_loop es k left right result =
     (if left < right
      then let mid = left + (right - left) div 2 in
        if xi_first_key (es ! mid) \<le> k then index_search_loop es k (mid + 1) right (Some mid)
        else index_search_loop es k left mid result
      else result)"
  by pat_completeness auto
termination
  by (relation "measure (\<lambda>(es, k, left, right, result). right - left)") auto

declare index_search_loop.simps [simp del]

definition index_search :: "sst_index_entry list \<Rightarrow> bytes \<Rightarrow> nat option" where
  "index_search es k = (if es = [] then None else index_search_loop es k 0 (length es) None)"

definition index_entry_bytes :: "sst_index_entry \<Rightarrow> bytes" where
  "index_entry_bytes e = len_prefixed (xi_first_key e) @ u64_le (xi_page_id e) @ u64_le (xi_offset e)"

definition index_to_bytes :: "libs \<Rightarrow> sst_index_entry list \<Rightarrow> bytes" where
  "index_to_bytes L es =
     (let d = concat (map index_entry_bytes es) in u32_le (of_nat (length es)) @ sha256 L d @ d)"

fun read_index_entries :: "nat \<Rightarrow> bytes \<Rightarrow> nat \<Rightarrow> table_error + sst_index_entry list" where
  "read_index_entries 0 d offset = Inr []"
| "read_index_entries (Suc n) d offset =
     rbind (read_prefixed_or (TableCorruption ''truncated_entry_key_len'') (TableCorruption ''truncated_entry_key'') d offset)
       (\<lambda>(k, offset).
     if length d < offset + 16 then Inl (TableCorruption ''truncated_entry_pointer'')
     else rbind (read_index_entries n d (offset + 16)) (\<lambda>es.
       Inr (\<lparr>xi_first_key = k, xi_page_id = u64_of_le (bslice offset (offset + 8) d),
             xi_offset = u64_of_le (bslice (offset + 8) (offset + 16) d)\<rparr> # es)))"

definition index_from_bytes :: "libs \<Rightarrow> bytes \<Rightarrow> table_error + sst_index_entry list" where
  "index_from_bytes L bs =
     (if length bs < 36 then Inl (TableCorruption ''truncated_header'')
      else if bslice 4 36 bs \<noteq> sha256 L (drop 36 bs) then Inl (TableCorruption ''checksum_mismatch'')
      else rbind (read_index_entries (unat (u32_of_le (bslice 0 4 bs))) bs 36) (\<lambda>es.
      if in_key_order xi_first_key es then Inr es else Inl (TableCorruption ''unsorted_entries'')))"

definition index_estimate_size :: "sst_index_entry list \<Rightarrow> nat" where
  "index_estimate_size es = 36 + sum_list (map (\<lambda>e. 4 + length (xi_first_key e) + 8 + 8) es)"

section \<open>Footers survive\<close>

lemma length_footer_key [simp]: "length (footer_key k) = 68"
  by (simp add: footer_key_def Let_def)

lemma length_footer_to_bytes [simp]: "length (footer_to_bytes f) = 256"
  by (simp add: footer_to_bytes_def Let_def)

lemma footer_key_parts:
  "u32_of_le (take 4 (footer_key k)) = of_nat (min (length k) 64)" "take (min (length k) 64) (drop 4 (footer_key k)) = take 64 k"
  by (simp_all add: footer_key_def Let_def min_def)

lemma footer_round_trip:
  assumes "sf_magic f = sst_magic" and "length (sf_checksum f) = 32"
  shows "footer_from_bytes (footer_to_bytes f) = Inr (f\<lparr>sf_metadata := footer_keys_cut (sf_metadata f)\<rparr>)"
proof -
  obtain ma ve id lv k1 k2 ne ts cl fp np ix bl fo ck
    where f: "f = \<lparr>sf_magic = ma, sf_version = ve, sf_metadata = \<lparr>sm_id = id, sm_level = lv, sm_min_key = k1, sm_max_key = k2,
      sm_num_entries = ne, sm_total_size = ts, sm_created_lsn = cl, sm_first_page_id = fp, sm_num_pages = np,
      sm_index_offset = ix, sm_bloom_filter_offset = bl, sm_footer_offset = fo\<rparr>, sf_checksum = ck\<rparr>"
    by (metis sstable_footer.surjective sstable_metadata.surjective unit.exhaust)
  let ?a = "u64_le ma @ u32_le ve @ u64_le id @ u32_le lv"
  let ?b = "u64_le ne @ u64_le ts @ u64_le cl @ u64_le fp @ u32_le np @ u64_le ix @ u64_le bl @ u64_le fo @ ck @ [0, 0, 0, 0]"
  have ck: "length ck = 32" "ma = sst_magic"
    using assms by (simp_all add: f)
  have bs: "footer_to_bytes f = ?a @ footer_key k1 @ footer_key k2 @ ?b"
    using ck by (simp add: f footer_to_bytes_def resize_def numeral_eq_Suc)
  have n: "min (length k) 64 < 2 ^ 32" for k :: bytes
    by (simp add: min_def)
  have len: "bslice 24 28 (footer_to_bytes f) = take 4 (footer_key k1)" "bslice 92 96 (footer_to_bytes f) = take 4 (footer_key k2)"
    by (simp_all add: bs bslice_def)
  have lens: "unat (u32_of_le (bslice 24 28 (footer_to_bytes f))) = min (length k1) 64"
    "unat (u32_of_le (bslice 92 96 (footer_to_bytes f))) = min (length k2) 64"
    unfolding len footer_key_parts using n by (simp_all add: unat_of_nat del: min_less_iff_conj)
  have k: "bslice 28 (28 + min (length k1) 64) (footer_to_bytes f) = take 64 k1"
    "bslice 96 (96 + min (length k2) 64) (footer_to_bytes f) = take 64 k2"
    using footer_key_parts(2) [of k1] footer_key_parts(2) [of k2] by (simp_all add: bs bslice_def min_def)
  have parts: "bslice 0 8 (footer_to_bytes f) = u64_le ma" "bslice 8 12 (footer_to_bytes f) = u32_le ve"
    "bslice 12 20 (footer_to_bytes f) = u64_le id" "bslice 20 24 (footer_to_bytes f) = u32_le lv"
    "bslice 160 168 (footer_to_bytes f) = u64_le ne" "bslice 168 176 (footer_to_bytes f) = u64_le ts"
    "bslice 176 184 (footer_to_bytes f) = u64_le cl" "bslice 184 192 (footer_to_bytes f) = u64_le fp"
    "bslice 192 196 (footer_to_bytes f) = u32_le np" "bslice 196 204 (footer_to_bytes f) = u64_le ix"
    "bslice 204 212 (footer_to_bytes f) = u64_le bl" "bslice 212 220 (footer_to_bytes f) = u64_le fo"
    "bslice 220 252 (footer_to_bytes f) = ck"
    using ck by (simp_all add: bs bslice_def)
  have fits: "\<not> 256 < 28 + min (length k1) 64" "\<not> 256 < 96 + min (length k2) 64"
    by (simp_all add: min_def)
  show ?thesis
    unfolding footer_from_bytes_def Let_def lens k parts
    using ck(2) fits by (simp add: f footer_keys_cut_def)
qed

section \<open>Blocks survive\<close>

lemma in_key_order_sorted: "in_key_order key es \<longleftrightarrow> sorted_wrt (<) (map key es)"
  by (simp add: in_key_order_def successively_conv_sorted_wrt)

lemma read_block_entries_at:
  assumes "chain_codec_ok cc"
    and "\<forall>e\<in>set es. length (fst e) < 2 ^ 32 \<and> length (cc_to_allocvec cc (snd e)) < 2 ^ 32" and "offset = length pre"
  shows "read_block_entries cc (length es) (pre @ concat (map (sst_entry_bytes cc) es)) offset = Inr es"
  using assms(2,3)
proof (induction es arbitrary: pre offset)
  case (Cons e es)
  let ?bs = "cc_to_allocvec cc (snd e)" and ?rest = "concat (map (sst_entry_bytes cc) es)"
  have k: "read_prefixed_or e1 e2 (pre @ len_prefixed (fst e) @ len_prefixed ?bs @ ?rest) offset =
      Inr (fst e, offset + 4 + length (fst e))" for e1 e2 :: table_error
    using Cons.prems by (intro read_prefixed_or_at) simp_all
  have c: "read_prefixed_or e1 e2 ((pre @ len_prefixed (fst e)) @ len_prefixed ?bs @ ?rest) (offset + 4 + length (fst e)) =
      Inr (?bs, offset + 4 + length (fst e) + 4 + length ?bs)" for e1 e2 :: table_error
    using Cons.prems by (intro read_prefixed_or_at) (simp_all add: length_len_prefixed)
  have "read_block_entries cc (length es) ((pre @ sst_entry_bytes cc e) @ ?rest) (offset + 4 + length (fst e) + 4 + length ?bs) = Inr es"
    using Cons.prems by (intro Cons.IH) (simp_all add: sst_entry_bytes_def length_len_prefixed)
  moreover have "concat (map (sst_entry_bytes cc) (e # es)) = len_prefixed (fst e) @ len_prefixed ?bs @ ?rest"
    by (simp add: sst_entry_bytes_def)
  ultimately show ?case
    using k c Cons.prems(2) assms(1)
    by (simp add: sst_entry_bytes_def [of cc e] chain_codec_ok_def add.assoc length_len_prefixed del: concat.simps list.map)
qed simp

definition block_encodable :: "chain_codec \<Rightarrow> sst_entry list \<Rightarrow> bool" where
  "block_encodable cc es \<longleftrightarrow> length es < 2 ^ 32 \<and> sorted_wrt (<) (map fst es) \<and>
     (\<forall>e\<in>set es. length (fst e) < 2 ^ 32 \<and> length (cc_to_allocvec cc (snd e)) < 2 ^ 32)"

lemma block_round_trip:
  assumes L: "libs_ok L" and "chain_codec_ok cc" and "block_encodable cc es"
  shows "block_from_bytes L cc (block_to_bytes L cc compress es) = Inr es"
proof -
  let ?d = "concat (map (sst_entry_bytes cc) es)"
  obtain d flag where p: "block_payload L compress ?d = (d, flag)"
    by fastforce
  have "read_block_entries cc (length es) ?d 0 = Inr es"
    using read_block_entries_at [OF assms(2), of es 0 "[]"] assms(3) by (simp add: block_encodable_def)
  moreover have "(if flag = 1 then ok_or (lz4_decompress L d) e else Inr d) = Inr ?d" for e :: table_error
    using p libs_okD(1) [OF L] by (auto simp: block_payload_def split: if_splits)
  moreover have "length es < 2 ^ 32" "in_key_order fst es"
    using assms(3) by (auto simp: block_encodable_def in_key_order_sorted)
  moreover have "block_to_bytes L cc compress es = u32_le (of_nat (length es)) @ [flag] @ sha256 L d @ d"
    using p by (simp add: block_to_bytes_def)
  ultimately show ?thesis
    using libs_okD(6) [OF L, of d] by (simp add: block_from_bytes_def bslice_def nth_append unat_of_nat)
qed

lemma length_index_entry_bytes [simp]: "length (index_entry_bytes e) = 20 + length (xi_first_key e)"
  by (simp add: index_entry_bytes_def length_len_prefixed)

lemma read_index_entries_at:
  assumes "\<forall>e\<in>set es. length (xi_first_key e) < 2 ^ 32" and "offset = length pre"
  shows "read_index_entries (length es) (pre @ concat (map index_entry_bytes es)) offset = Inr es"
  using assms
proof (induction es arbitrary: pre offset)
  case (Cons e es)
  let ?rest = "concat (map index_entry_bytes es)" and ?p = "u64_le (xi_page_id e) @ u64_le (xi_offset e)"
  have k: "read_prefixed_or e1 e2 (pre @ len_prefixed (xi_first_key e) @ ?p @ ?rest) offset =
      Inr (xi_first_key e, offset + 4 + length (xi_first_key e))" for e1 e2 :: table_error
    using Cons.prems by (intro read_prefixed_or_at) simp_all
  have "read_index_entries (length es) ((pre @ index_entry_bytes e) @ ?rest) (offset + 4 + length (xi_first_key e) + 16) = Inr es"
    using Cons.prems by (intro Cons.IH) simp_all
  moreover have "bslice (offset + 4 + length (xi_first_key e)) (offset + 4 + length (xi_first_key e) + 8)
      (pre @ len_prefixed (xi_first_key e) @ ?p @ ?rest) = u64_le (xi_page_id e)"
    "bslice (offset + 4 + length (xi_first_key e) + 8) (offset + 4 + length (xi_first_key e) + 16)
      (pre @ len_prefixed (xi_first_key e) @ ?p @ ?rest) = u64_le (xi_offset e)"
    using Cons.prems by (simp_all add: bslice_def length_len_prefixed)
  moreover have "concat (map index_entry_bytes (e # es)) = len_prefixed (xi_first_key e) @ ?p @ ?rest"
    by (simp add: index_entry_bytes_def)
  ultimately show ?case
    using k Cons.prems(2) by (simp add: index_entry_bytes_def [of e] add.assoc length_len_prefixed del: concat.simps list.map)
qed simp

lemma length_index_to_bytes:
  "libs_ok L \<Longrightarrow> length (index_to_bytes L es) = 36 + sum_list (map (\<lambda>e. 20 + length (xi_first_key e)) es)"
  using libs_okD(6) by (simp add: index_to_bytes_def Let_def length_concat comp_def)

lemma index_round_trip:
  assumes L: "libs_ok L" and "sorted_wrt (<) (map xi_first_key es)" and "length es < 2 ^ 32"
    and "\<forall>e\<in>set es. length (xi_first_key e) < 2 ^ 32"
  shows "index_from_bytes L (index_to_bytes L es) = Inr es"
proof -
  let ?d = "concat (map index_entry_bytes es)"
  have "read_index_entries (length es) ((u32_le (of_nat (length es)) @ sha256 L ?d) @ ?d) 36 = Inr es"
    using libs_okD(6) [OF L] by (intro read_index_entries_at [OF assms(4)]) simp
  then show ?thesis
    using libs_okD(6) [OF L, of ?d] assms(2,3)
    by (simp add: index_from_bytes_def index_to_bytes_def Let_def bslice_def unat_of_nat in_key_order_sorted)
qed

section \<open>Searching\<close>

lemma block_get_map_of:
  assumes "sorted_wrt (<) (map fst es)"
  shows "block_get es k = map_of es k"
  using assms
proof (induction es)
  case (Cons e es)
  consider "fst e < k" | "fst e = k" | "k < fst e"
    by fastforce
  then show ?case
  proof cases
    case 1
    then have "block_search (e # es) k = map_option Suc (block_search es k)"
      by (simp add: block_search_def Let_def)
    then show ?thesis
      using Cons 1 by (auto simp: block_get_def option.map_comp comp_def intro!: arg_cong2 [where f = map_option])
  next
    case 2
    then show ?thesis
      by (auto simp: block_get_def block_search_def)
  next
    case 3
    then have "map_of es k = None"
      using Cons.prems by (force simp: map_of_eq_None_iff)
    then show ?thesis
      using 3 by (auto simp: block_get_def block_search_def)
  qed
qed (simp add: block_get_def block_search_def)

text \<open>The search returns the last entry that does not start above the key.\<close>

lemma index_search_loop_last:
  assumes "sorted_wrt (<) (map xi_first_key es)" and "r \<le> length es"
    and "\<And>i. i < l \<Longrightarrow> xi_first_key (es ! i) \<le> k" and "\<And>i. r \<le> i \<Longrightarrow> i < length es \<Longrightarrow> k < xi_first_key (es ! i)"
    and "l \<le> r" and "res = (if l = 0 then None else Some (l - 1))"
  shows "index_search_loop es k l r res =
    (let n = length (takeWhile (\<lambda>e. xi_first_key e \<le> k) es) in if n = 0 then None else Some (n - 1))"
  using assms
proof (induction es k l r res rule: index_search_loop.induct)
  case (1 es k l r res)
  let ?m = "l + (r - l) div 2"
  have less: "xi_first_key (es ! i) < xi_first_key (es ! j)" if "i < j" "j < length es" for i j
    using 1(3) that by (auto simp: sorted_wrt_iff_nth_less)
  show ?case
  proof (cases "l < r")
    case True
    show ?thesis
    proof (cases "xi_first_key (es ! ?m) \<le> k")
      case le: True
      have "xi_first_key (es ! i) \<le> k" if "i < ?m + 1" for i
      proof (cases "i = ?m")
        case False
        then have "xi_first_key (es ! i) < xi_first_key (es ! ?m)"
          using that True 1(4) by (intro less) auto
        then show ?thesis
          using le by simp
      qed (use le in simp)
      then have "index_search_loop es k (?m + 1) r (Some ?m) =
          (let n = length (takeWhile (\<lambda>e. xi_first_key e \<le> k) es) in if n = 0 then None else Some (n - 1))"
        using 1(3,4,6) True by (intro 1(1) [OF True refl le]) auto
      then show ?thesis
        using True le index_search_loop.simps [of es k l r res] by (simp add: Let_def)
    next
      case gt: False
      have "k < xi_first_key (es ! i)" if "?m \<le> i" "i < length es" for i
        using less [of ?m i] that gt by (cases "i = ?m") (auto simp: not_le intro: less_trans)
      then have "index_search_loop es k l ?m res =
          (let n = length (takeWhile (\<lambda>e. xi_first_key e \<le> k) es) in if n = 0 then None else Some (n - 1))"
        using 1(3-5,8) True by (intro 1(2) [OF True refl gt]) auto
      then show ?thesis
        using True gt index_search_loop.simps [of es k l r res] by (simp add: Let_def)
    qed
  next
    case False
    then have "l = r"
      using 1(7) by simp
    have "takeWhile (\<lambda>e. xi_first_key e \<le> k) es = take l es"
    proof (rule takeWhile_eq_take_P_nth)
      show "\<And>i. i < l \<Longrightarrow> i < length es \<Longrightarrow> xi_first_key (es ! i) \<le> k"
        using 1(5) .
      show "l < length es \<Longrightarrow> \<not> xi_first_key (es ! l) \<le> k"
        using 1(6) [of l] \<open>l = r\<close> by (simp add: not_le)
    qed
    then show ?thesis
      using False 1(4,8) \<open>l = r\<close> index_search_loop.simps [of es k l r res] by (auto simp: Let_def min_def)
  qed
qed

lemma index_search_last:
  assumes "sorted_wrt (<) (map xi_first_key es)"
  shows "index_search es k =
    (let n = length (takeWhile (\<lambda>e. xi_first_key e \<le> k) es) in if n = 0 then None else Some (n - 1))"
  using index_search_loop_last [OF assms, of "length es" 0 k None] by (auto simp: index_search_def Let_def)

end
