(* ===== verification/PageClient.thy ===== *)
theory PageClient
  imports PagedNodes
begin

text \<open>
  What a client of the pager that only cares for the data of its pages may rely on: reading gives what was
  written last, writing changes one page, and allocating hands out the next id.
\<close>

type_synonym 'a page_action = "(pager, table_error, 'a) st_action"

definition tcall :: "'a action \<Rightarrow> 'a page_action" where
  "tcall m p = (case m p of (Inl e, q) \<Rightarrow> (Inl (TablePager e), q) | (Inr a, q) \<Rightarrow> (Inr a, q))"

lemma runs_tcall: "runs (tcall m) p Q \<longleftrightarrow> (\<exists>a q. m p = (Inr a, q) \<and> Q a q)"
  by (auto simp: runs_def tcall_def split: prod.splits sum.splits)

text \<open>
  \<open>stores E n p D nx\<close>: the pages of the pager \<open>p\<close> hold the data \<open>D\<close>, the next page gets the id \<open>nx\<close>, and there is
  room for \<open>n\<close> more.
\<close>

definition stores :: "pager_env \<Rightarrow> nat \<Rightarrow> pager \<Rightarrow> (page_id \<rightharpoonup> bytes) \<Rightarrow> page_id \<Rightarrow> bool" where
  "stores E n p D nx \<longleftrightarrow>
     (\<exists>w. implements E n p w \<and> D = (\<lambda>i. map_option pg_data (pw_pages w i)) \<and> pw_next w = nx)"

lemma implements_stores:
  "implements E n p w \<Longrightarrow> stores E n p (\<lambda>i. map_option pg_data (pw_pages w i)) (pw_next w)"
  by (auto simp: stores_def)

lemma stores_less: "stores E n p D nx \<Longrightarrow> m \<le> n \<Longrightarrow> stores E m p D nx"
  unfolding stores_def using implements_less by blast

text \<open>The ids and the file stay small.\<close>

lemma stores_bounds:
  assumes "stores E n p D nx"
  shows "unat nx + n < 2 ^ 63" "i \<in> dom D \<Longrightarrow> unat i < unat nx" "D nx = None"
proof -
  obtain w where w: "implements E n p w" "D = (\<lambda>i. map_option pg_data (pw_pages w i))" "pw_next w = nx"
    using assms by (auto simp: stores_def)
  then show "unat nx + n < 2 ^ 63"
    by (simp add: implements_def)
  have inv: "pager_inv E p (pw_pages w)" "pm_next_virtual_id (pgr_mapper p) = nx"
    using w by (simp_all add: implements_def)
  have less: "unat i < unat nx" if "i \<in> dom D" for i
    using pager_inv_page(2) [OF inv(1), of i] inv(2) that w(2) by (auto simp: dom_def)
  then show "i \<in> dom D \<Longrightarrow> unat i < unat nx" .
  show "D nx = None"
    using less [of nx] by blast
qed

lemma read_stores:
  assumes "stores E n p D nx" and "D i = Some b"
  shows "\<exists>g q. read_page E i p = (Inr g, q) \<and> pg_data g = b \<and> stores E n q D nx \<and> pgr_config q = pgr_config p"
proof -
  obtain w where w: "implements E n p w" "D = (\<lambda>i. map_option pg_data (pw_pages w i))" "pw_next w = nx"
    using assms(1) by (auto simp: stores_def)
  then obtain g0 where g0: "pw_pages w i = Some g0" "pg_data g0 = b"
    using assms(2) by auto
  have inv: "pager_inv E p (pw_pages w)"
    using w(1) by (simp add: implements_def)
  obtain g q where q: "read_page E i p = (Inr g, q)" "page_core g = g0" "pager_inv E q (pw_pages w)"
    "pgr_config q = pgr_config p" "pgr_mapper q = pgr_mapper p" "pgr_superblock q = pgr_superblock p"
    using read_page_inv [OF inv g0(1)] by blast
  have "implements E n q w"
    using w(1) q(3,5,6) config_cong(1) [OF q(4)] by (simp add: implements_def)
  then show ?thesis
    using q g0 w(2,3) by (auto simp: stores_def)
qed

lemma write_stores:
  assumes env: "env_ok E" and "stores E n p D nx" and "i \<in> dom D" and "readable_type t" and "length b \<le> data_size_of p"
  shows "\<exists>q. write_page E ((page_new i t)\<lparr>pg_data := b\<rparr>) p = (Inr (), q) \<and> stores E n q (D(i \<mapsto> b)) nx \<and> pgr_config q = pgr_config p"
proof -
  let ?g = "(page_new i t)\<lparr>pg_data := b\<rparr>"
  obtain w where w: "implements E n p w" "D = (\<lambda>i. map_option pg_data (pw_pages w i))" "pw_next w = nx"
    using assms(2) by (auto simp: stores_def)
  then obtain g0 where g0: "pw_pages w i = Some g0"
    using assms(3) by auto
  have inv: "pager_inv E p (pw_pages w)"
    using w(1) by (simp add: implements_def)
  have i: "ph_page_id (pg_header ?g) = i"
    by (simp add: page_new_def page_header_new_def)
  have "page_ok E p ?g"
    using assms(4,5) size_of_data [of p] by (intro plain_page_ok [OF env]) (simp_all add: page_new_def page_header_new_def)
  from write_page_inv [OF env inv this, unfolded i, OF g0] obtain q
    where q: "write_page E ?g p = (Inr (), q)" "pager_inv E q ((pw_pages w)(i \<mapsto> page_core ?g))"
      "pgr_config q = pgr_config p" "pgr_mapper q = pgr_mapper p" "pgr_superblock q = pgr_superblock p"
    by blast
  let ?w = "w\<lparr>pw_pages := (pw_pages w)(i \<mapsto> page_core ?g)\<rparr>"
  have "implements E n q ?w"
    using w(1) q(2,4,5) config_cong(1) [OF q(3)] by (simp add: implements_def)
  moreover have "(\<lambda>i. map_option pg_data (pw_pages ?w i)) = D(i \<mapsto> b)" "pw_next ?w = nx"
    using w(2,3) by (auto simp: fun_eq_iff)
  ultimately show ?thesis
    using q(1,3) unfolding stores_def by metis
qed

lemma allocate_stores:
  assumes env: "env_ok E" and "stores E (Suc n) p D nx" and t: "readable_type t"
  shows "\<exists>q. allocate_page E t p = (Inr nx, q) \<and> stores E n q (D(nx \<mapsto> [])) (nx + 1) \<and> pgr_config q = pgr_config p"
proof -
  obtain w where w: "implements E (Suc n) p w" "D = (\<lambda>i. map_option pg_data (pw_pages w i))" "pw_next w = nx"
    using assms(2) by (auto simp: stores_def)
  have "call_legal E p (SAlloc t) w"
    using t by (simp add: call_legal_def)
  from pager_call_simulates [OF env w(1) this] obtain a q
    where a: "pager_call E (SAlloc t) p = (Inr a, q)" "answer_core a = New_id nx" "pgr_config q = pgr_config p"
      "implements E n q (snd (store_call p (SAlloc t) w))"
    using w(3) by (auto simp: store_call_def)
  then have "allocate_page E t p = (Inr nx, q)"
    by (auto simp: pager_call_def pbind_def pret_def split: prod.splits sum.splits)
  moreover let ?w = "snd (store_call p (SAlloc t) w)"
  have "(\<lambda>i. map_option pg_data (pw_pages ?w i)) = D(nx \<mapsto> [])" "pw_next ?w = nx + 1"
    using w(2,3) by (auto simp: fun_eq_iff store_call_def config_page_def)
  ultimately show ?thesis
    using a(3,4) unfolding stores_def by metis
qed

end
