(* ===== verification/SsTableFile.thy ===== *)
theory SsTableFile
  imports SsTable BloomFilter PageClient
begin

text \<open>
  Sorted string tables on pages (\<open>src/src/table/lsm/sstable.rs\<close>): the writer groups its entries into blocks and
  puts blocks, index, filter and footer one after the other on pages that follow each other; the reader finds
  the footer, reads index and filter, and looks keys up. The chain codec and the digest are parameters.
\<close>

datatype compression_kind = CompressNone | CompressLz4 | CompressZstd | CompressSnappy | CompressCustom u32
datatype encryption_kind = EncryptNone | EncryptAesGcm | EncryptChaCha20Poly1305 | EncryptCustom u32

record sstable_config =
  sc_target_size :: nat
  sc_block_size :: nat
  sc_compression :: "compression_kind option"
  sc_encryption :: "encryption_kind option"
  sc_enable_checksums :: bool
  sc_index_interval :: nat

definition sstable_config_default :: sstable_config where
  "sstable_config_default =
     \<lparr>sc_target_size = 2 * 1024 * 1024, sc_block_size = 4 * 1024, sc_compression = None, sc_encryption = None,
      sc_enable_checksums = True, sc_index_interval = 16\<rparr>"

record sstable_writer =
  sw_pager :: pager
  sw_id :: u64
  sw_level :: u32
  sw_config :: sstable_config
  sw_bloom_builder :: "bloom_builder option"
  sw_entries :: "sst_entry list"
  sw_first_page_id :: "page_id option"
  sw_pages :: "page_id list"

definition sst_writer_new :: "pager \<Rightarrow> u64 \<Rightarrow> u32 \<Rightarrow> sstable_config \<Rightarrow> nat \<Rightarrow> sstable_writer" where
  "sst_writer_new p i level cfg estimated =
     \<lparr>sw_pager = p, sw_id = i, sw_level = level, sw_config = cfg,
      sw_bloom_builder = (if estimated > 0 then Some (builder_bits_per_key 10 (builder_new estimated)) else None),
      sw_entries = [], sw_first_page_id = None, sw_pages = []\<rparr>"

definition sst_add :: "bytes \<Rightarrow> version_chain \<Rightarrow> sstable_writer \<Rightarrow> table_error + sstable_writer" where
  "sst_add k c w =
     (if sw_entries w \<noteq> [] \<and> k \<le> fst (last (sw_entries w)) then Inl InvalidOperationState
      else Inr (w\<lparr>sw_entries := sw_entries w @ [(k, c)]\<rparr>))"

section \<open>Writing\<close>

text \<open>
  The local variables of \<open>finish\<close>: the pages, the current page with the number of bytes on it, the bytes on
  the pages before, and the index so far.
\<close>

record sst_state =
  st_pager :: pager
  st_pages :: "page_id list"
  st_page :: page
  st_page_offset :: nat
  st_offset :: u64
  st_index :: "sst_index_entry list"

type_synonym 'a sst_action = "(sst_state, table_error, 'a) st_action"

definition st_call :: "'a action \<Rightarrow> 'a sst_action" where
  "st_call m s =
     (case m (st_pager s) of
        (Inl e, q) \<Rightarrow> (Inl (TablePager e), s\<lparr>st_pager := q\<rparr>)
      | (Inr a, q) \<Rightarrow> (Inr a, s\<lparr>st_pager := q\<rparr>))"

text \<open>Where the next part does not fit on the current page, that is written and a new one is allocated.\<close>

definition make_room :: "pager_env \<Rightarrow> nat \<Rightarrow> unit sst_action" where
  "make_room E n s =
     (if st_page_offset s + n > data_size_of (st_pager s)
      then pbind (\<lambda>s. (Inr (), s\<lparr>st_offset := st_offset s + of_nat (st_page_offset s)\<rparr>)) (\<lambda>_.
           pbind (\<lambda>s. st_call (write_page E (st_page s)) s) (\<lambda>_.
           pbind (st_call (allocate_page E PT_LsmData)) (\<lambda>i s.
           (Inr (), s\<lparr>st_pages := st_pages s @ [i], st_page := page_new i PT_LsmData, st_page_offset := 0\<rparr>)))) s
      else (Inr (), s))"

definition put_bytes :: "bytes \<Rightarrow> unit sst_action" where
  "put_bytes bs s =
     (Inr (), s\<lparr>st_page := (st_page s)\<lparr>pg_data := pg_data (st_page s) @ bs\<rparr>, st_page_offset := st_page_offset s + length bs\<rparr>)"

definition write_block :: "pager_env \<Rightarrow> chain_codec \<Rightarrow> bool \<Rightarrow> sst_entry list \<Rightarrow> unit sst_action" where
  "write_block E cc compress es =
     pbind (plift (block_from_entries es)) (\<lambda>block.
     let bs = block_to_bytes (env_libs E) cc compress block in
     pbind (make_room E (length bs)) (\<lambda>_.
     pbind (\<lambda>s. (Inr (), s\<lparr>st_index := st_index s @ [\<lparr>xi_first_key = fst (hd block),
        xi_page_id = ph_page_id (pg_header (st_page s)), xi_offset = of_nat (st_page_offset s)\<rparr>]\<rparr>)) (\<lambda>_.
     put_bytes bs)))"

definition sst_entry_size :: "chain_codec \<Rightarrow> sst_entry \<Rightarrow> nat" where
  "sst_entry_size cc e = 4 + length (fst e) + 4 + length (cc_to_allocvec cc (snd e))"

fun write_blocks :: "pager_env \<Rightarrow> chain_codec \<Rightarrow> sstable_config \<Rightarrow> sst_entry list \<Rightarrow> sst_entry list \<Rightarrow> nat \<Rightarrow> unit sst_action" where
  "write_blocks E cc cfg [] block est =
     (if block \<noteq> [] then write_block E cc (sc_compression cfg \<noteq> None) block else pret ())"
| "write_blocks E cc cfg (e # es) block est =
     (if block \<noteq> [] \<and> est + sst_entry_size cc e > sc_block_size cfg
      then pbind (write_block E cc (sc_compression cfg \<noteq> None) block) (\<lambda>_. write_blocks E cc cfg es [e] (sst_entry_size cc e))
      else write_blocks E cc cfg es (block @ [e]) (est + sst_entry_size cc e))"

definition write_index :: "pager_env \<Rightarrow> unit sst_action" where
  "write_index E s =
     pbind (plift (index_from_entries (st_index s))) (\<lambda>es.
     let bs = index_to_bytes (env_libs E) es in
     pbind (make_room E (length bs)) (\<lambda>_. put_bytes bs)) s"

definition position_of :: "u64 sst_action" where
  "position_of s = (Inr (st_offset s + of_nat (st_page_offset s)), s)"

definition bloom_bytes :: "bloom_filter \<Rightarrow> bytes" where
  "bloom_bytes f = u32_le (of_nat (bf_num_hash_functions f)) @ u32_le (of_nat (bf_num_bits f)) @ bf_bits f"

definition write_bloom :: "pager_env \<Rightarrow> bloom_filter option \<Rightarrow> u64 sst_action" where
  "write_bloom E bloom =
     (case bloom of
        None \<Rightarrow> pret 0
      | Some f \<Rightarrow>
          pbind position_of (\<lambda>offset.
          pbind (make_room E (length (bloom_bytes f))) (\<lambda>_.
          pbind (put_bytes (bloom_bytes f)) (\<lambda>_. pret offset))))"

definition sst_checksum :: "libs \<Rightarrow> sstable_metadata \<Rightarrow> bytes" where
  "sst_checksum L m =
     sha256 L (u64_le (sm_id m) @ u32_le (sm_level m) @ sm_min_key m @ sm_max_key m @ u64_le (sm_num_entries m))"

definition build_bloom :: "sst_entry list \<Rightarrow> bloom_builder option \<Rightarrow> table_error + bloom_filter option" where
  "build_bloom es b =
     (case b of
        None \<Rightarrow> Inr None
      | Some b \<Rightarrow> rbind (fold_result bloom_insert (map fst es) (bloom_build b)) (\<lambda>f. Inr (Some f)))"

definition write_footer :: "pager_env \<Rightarrow> sstable_metadata \<Rightarrow> unit sst_action" where
  "write_footer E m =
     (let bs = footer_to_bytes (footer_new m (sst_checksum (env_libs E) m)) in
      pbind (make_room E (length bs)) (\<lambda>_.
      pbind (put_bytes bs) (\<lambda>_ s. st_call (write_page E (st_page s)) s)))"

text \<open>The metadata counts the pages before room is made for the footer.\<close>

definition finish_table :: "pager_env \<Rightarrow> chain_codec \<Rightarrow> sstable_writer \<Rightarrow> bloom_filter option \<Rightarrow> lsn \<Rightarrow> page_id \<Rightarrow> sstable_metadata sst_action" where
  "finish_table E cc w bloom created first_id =
     pbind (write_blocks E cc (sw_config w) (sw_entries w) [] 0) (\<lambda>_.
     pbind position_of (\<lambda>index_offset.
     pbind (write_index E) (\<lambda>_.
     pbind (write_bloom E bloom) (\<lambda>bloom_offset.
     pbind position_of (\<lambda>footer_offset s.
     let m = \<lparr>sm_id = sw_id w, sm_level = sw_level w, sm_min_key = fst (hd (sw_entries w)),
              sm_max_key = fst (last (sw_entries w)), sm_num_entries = of_nat (length (sw_entries w)),
              sm_total_size = footer_offset + 256, sm_created_lsn = created, sm_first_page_id = first_id,
              sm_num_pages = of_nat (length (st_pages s)), sm_index_offset = index_offset,
              sm_bloom_filter_offset = bloom_offset, sm_footer_offset = footer_offset\<rparr> in
     pbind (write_footer E m) (\<lambda>_. pret m) s)))))"

definition sst_finish :: "pager_env \<Rightarrow> chain_codec \<Rightarrow> lsn \<Rightarrow> sstable_writer \<Rightarrow> (table_error + sstable_metadata) \<times> pager" where
  "sst_finish E cc created w =
     (if sw_entries w = [] then (Inl InvalidOperationState, sw_pager w)
      else case build_bloom (sw_entries w) (sw_bloom_builder w) of
        Inl e \<Rightarrow> (Inl e, sw_pager w)
      | Inr bloom \<Rightarrow>
          (case allocate_page E PT_LsmData (sw_pager w) of
             (Inl e, p) \<Rightarrow> (Inl (TablePager e), p)
           | (Inr i, p) \<Rightarrow>
               let (r, s) = finish_table E cc w bloom created i
                     \<lparr>st_pager = p, st_pages = [i], st_page = page_new i PT_LsmData, st_page_offset = 0, st_offset = 0,
                      st_index = []\<rparr> in
               (r, st_pager s)))"

section \<open>Reading\<close>

record sstable_reader =
  sr_metadata :: sstable_metadata
  sr_index :: "sst_index_entry list"
  sr_bloom :: "bloom_filter option"
  sr_config :: sstable_config

text \<open>What \<open>open\<close> accepts as the footer of the table at \<open>first_id\<close> on its page number \<open>cnt\<close>. A panic is not caught.\<close>

definition footer_on_page :: "page_id \<Rightarrow> u32 \<Rightarrow> bytes \<Rightarrow> table_error + sstable_footer option" where
  "footer_on_page first_id cnt d =
     (if length d < 256 then Inr None
      else case footer_from_bytes (drop (length d - 256) d) of
        Inl e \<Rightarrow> if e = TablePanic then Inl TablePanic else Inr None
      | Inr f \<Rightarrow>
          let m = sf_metadata f in
          if sm_first_page_id m = first_id \<and> sm_num_pages m = cnt \<and> sm_num_entries m > 0 \<and>
             sm_index_offset m < sm_footer_offset m \<and>
             (sm_bloom_filter_offset m = 0 \<or> sm_bloom_filter_offset m < sm_footer_offset m)
          then Inr (Some f) else Inr None)"

abbreviation footer_not_found :: table_error where
  "footer_not_found \<equiv> TableCorruption ''footer_not_found''"

text \<open>One round of the loop in \<open>open\<close>. After 10001 rounds it gives up; \<open>left\<close> counts the rounds still to come.\<close>

definition scan_page :: "pager_env \<Rightarrow> page_id \<Rightarrow> page_id \<Rightarrow> u32 \<Rightarrow> sstable_footer option page_action" where
  "scan_page E first_id i cnt p =
     (case read_page E i p of
        (Inl e, q) \<Rightarrow> (Inl footer_not_found, q)
      | (Inr g, q) \<Rightarrow> (footer_on_page first_id cnt (pg_data g), q))"

fun find_footer :: "nat \<Rightarrow> pager_env \<Rightarrow> page_id \<Rightarrow> page_id \<Rightarrow> u32 \<Rightarrow> sstable_footer page_action" where
  "find_footer left E first_id i cnt =
     pbind (scan_page E first_id i (cnt + 1)) (\<lambda>r.
     case r of
       Some f \<Rightarrow> pret f
     | None \<Rightarrow> (case left of 0 \<Rightarrow> perr footer_not_found | Suc left \<Rightarrow> find_footer left E first_id (i + 1) (cnt + 1)))"

declare find_footer.simps [simp del]

text \<open>The first loop of \<open>read_data_with_size\<close> looks for the page that holds the offset.\<close>

fun find_start :: "pager_env \<Rightarrow> page_id \<Rightarrow> nat \<Rightarrow> nat \<Rightarrow> nat list \<Rightarrow> (page_id \<times> nat) page_action" where
  "find_start E first_id target cumulative [] = pret (first_id, 0)"
| "find_start E first_id target cumulative (i # is) =
     pbind (tcall (read_page E (first_id + of_nat i))) (\<lambda>g.
     let n = length (pg_data g) in
     if cumulative + n > target then pret (first_id + of_nat i, target - cumulative)
     else if is = [] then perr (TableCorruption ''offset_out_of_range'')
     else find_start E first_id target (cumulative + n) is)"

text \<open>
  The second loop reads until nothing remains. Every round takes at least one byte, so that as many rounds as
  there are bytes are enough.
\<close>

fun read_on :: "nat \<Rightarrow> pager_env \<Rightarrow> page_id \<Rightarrow> nat \<Rightarrow> nat \<Rightarrow> bytes \<Rightarrow> bytes page_action" where
  "read_on 0 E i off remaining acc = pret acc"
| "read_on (Suc fuel) E i off remaining acc =
     (if remaining = 0 then pret acc
      else pbind (tcall (read_page E i)) (\<lambda>g.
        let d = pg_data g in
        if off \<ge> length d then perr (TableCorruption ''invalid_offset'')
        else let to_read = min remaining (length d - off);
                 acc = acc @ bslice off (off + to_read) d; remaining = remaining - to_read; off = off + to_read in
          if off \<ge> length d \<and> remaining > 0 then read_on fuel E (i + 1) 0 remaining acc
          else read_on fuel E i off remaining acc))"

definition read_data_with_size :: "pager_env \<Rightarrow> page_id \<Rightarrow> u64 \<Rightarrow> nat \<Rightarrow> u32 \<Rightarrow> bytes page_action" where
  "read_data_with_size E first_id offset n num_pages =
     pbind (find_start E first_id (unat offset) 0 [0..<unat num_pages]) (\<lambda>(i, off). read_on n E i off n [])"

definition bloom_of_bytes :: "bytes \<Rightarrow> table_error + bloom_filter" where
  "bloom_of_bytes d =
     (if length d < 8 then Inl (TableCorruption ''truncated_bloom_filter'')
      else Inr (bloom_from_bytes_with_size (drop 8 d) (unat (u32_of_le (bslice 4 8 d))) (unat (u32_of_le (bslice 0 4 d)))))"

definition sst_open :: "pager_env \<Rightarrow> page_id \<Rightarrow> sstable_config \<Rightarrow> sstable_reader page_action" where
  "sst_open E first_id cfg =
     pbind (find_footer 10000 E first_id first_id 0) (\<lambda>f.
     let m = sf_metadata f;
         index_size = (if sm_bloom_filter_offset m > 0 then sm_bloom_filter_offset m - sm_index_offset m
                       else sm_footer_offset m - sm_index_offset m) in
     pbind (read_data_with_size E first_id (sm_index_offset m) (unat index_size) (sm_num_pages m)) (\<lambda>bs.
     pbind (plift (index_from_bytes (env_libs E) bs)) (\<lambda>index.
     pbind (if sm_bloom_filter_offset m > 0
            then pbind (read_data_with_size E first_id (sm_bloom_filter_offset m)
                   (unat (sm_footer_offset m - sm_bloom_filter_offset m)) (sm_num_pages m)) (\<lambda>d.
                 pbind (plift (bloom_of_bytes d)) (\<lambda>b. pret (Some b)))
            else pret None) (\<lambda>bloom.
     pret \<lparr>sr_metadata = m, sr_index = index, sr_bloom = bloom, sr_config = cfg\<rparr>))))"

definition may_contain :: "sstable_reader \<Rightarrow> bytes \<Rightarrow> table_error + bool" where
  "may_contain r k = (case sr_bloom r of Some b \<Rightarrow> bloom_contains b k | None \<Rightarrow> Inr True)"

fun sum_lengths :: "pager_env \<Rightarrow> page_id \<Rightarrow> nat list \<Rightarrow> nat \<Rightarrow> nat page_action" where
  "sum_lengths E first_id [] acc = pret acc"
| "sum_lengths E first_id (i # is) acc =
     pbind (tcall (read_page E (first_id + of_nat i))) (\<lambda>g. sum_lengths E first_id is (acc + length (pg_data g)))"

text \<open>Where the block of an index entry ends on its page of \<open>len\<close> bytes.\<close>

definition find_block_end :: "pager_env \<Rightarrow> sstable_reader \<Rightarrow> nat \<Rightarrow> nat \<Rightarrow> nat page_action" where
  "find_block_end E r j len =
     (let e = sr_index r ! j; first_id = sm_first_page_id (sr_metadata r) in
      if j + 1 < length (sr_index r)
      then let e' = sr_index r ! (j + 1) in
           pret (if xi_page_id e' = xi_page_id e then unat (xi_offset e') else len)
      else pbind (sum_lengths E first_id [0..<unat (xi_page_id e - first_id)] 0) (\<lambda>cumulative.
           let index_start = unat (sm_index_offset (sr_metadata r)) in
           pret (if index_start \<ge> cumulative \<and> index_start < cumulative + len then index_start - cumulative else len)))"

fun sst_walk :: "lsn \<Rightarrow> version_chain \<Rightarrow> table_error + bytes option" where
  "sst_walk l (VersionChain v t cl prev) =
     (if (case cl of Some c \<Rightarrow> c \<le> l | None \<Rightarrow> False)
      then (case v of VInline d \<Rightarrow> Inr (Some d) | VExternal _ \<Rightarrow> Inl InvalidOperationState)
      else (case prev of Some c \<Rightarrow> sst_walk l c | None \<Rightarrow> Inr None))"

definition sst_get :: "pager_env \<Rightarrow> chain_codec \<Rightarrow> sstable_reader \<Rightarrow> bytes \<Rightarrow> lsn \<Rightarrow> bytes option page_action" where
  "sst_get E cc r k l =
     pbind (plift (may_contain r k)) (\<lambda>maybe.
     if \<not> maybe then pret None
     else case index_search (sr_index r) k of
       None \<Rightarrow> pret None
     | Some j \<Rightarrow>
         if j \<ge> length (sr_index r) then perr (TableCorruption ''index_entry_not_found'')
         else let e = sr_index r ! j in
         pbind (tcall (read_page E (xi_page_id e))) (\<lambda>g.
         let d = pg_data g; block_start = unat (xi_offset e) in
         pbind (find_block_end E r j (length d)) (\<lambda>block_end.
         if block_start \<ge> length d \<or> block_end > length d \<or> block_start \<ge> block_end
         then perr (TableCorruption ''invalid_block_bounds'')
         else pbind (plift (block_from_bytes (env_libs E) cc (bslice block_start block_end d))) (\<lambda>block.
              case block_get block k of
                None \<Rightarrow> pret None
              | Some c \<Rightarrow> plift (sst_walk l c)))))"

end
