(* ===== verification/SsTableProps.thy ===== *)
theory SsTableProps
  imports SsTableFile
begin

text \<open>
  What a finished table holds and that its reader finds it: the pages of a table are the parts the writer
  put down one after the other, the reader gathers index and filter from them, and a lookup gives what the
  version chain of the key shows at the snapshot.
\<close>

section \<open>Parts on pages\<close>

text \<open>Placing a part at the end of a list of pages of \<open>d\<close> bytes, the last of which is still open.\<close>

definition place :: "nat \<Rightarrow> bytes \<Rightarrow> bytes list \<Rightarrow> bytes list" where
  "place d bs pgs =
     (if length (last pgs) + length bs > d then pgs @ [bs] else butlast pgs @ [last pgs @ bs])"

text \<open>The number of pages and the bytes on the last of them, after one more part.\<close>

definition pack :: "nat \<Rightarrow> nat \<times> nat \<Rightarrow> nat \<Rightarrow> nat \<times> nat" where
  "pack d s n = (case s of (k, cur) \<Rightarrow> if cur + n > d then (Suc k, n) else (k, cur + n))"

lemma concat_split: "pgs \<noteq> [] \<Longrightarrow> concat pgs = concat (butlast pgs) @ last pgs"
  by (induction pgs rule: rev_induct) simp_all

lemma place_simps:
  assumes "pgs \<noteq> []"
  shows "concat (place d bs pgs) = concat pgs @ bs" "place d bs pgs \<noteq> []"
    "(length (place d bs pgs), length (last (place d bs pgs))) = pack d (length pgs, length (last pgs)) (length bs)"
    "length pgs \<le> length (place d bs pgs)" "length (place d bs pgs) \<le> Suc (length pgs)"
proof -
  show "concat (place d bs pgs) = concat pgs @ bs"
    by (simp add: place_def concat_split [OF assms])
qed (use assms in \<open>simp_all add: place_def pack_def\<close>)

definition extends :: "bytes list \<Rightarrow> bytes list \<Rightarrow> bool" where
  "extends pgs pgs' \<longleftrightarrow> pgs \<noteq> [] \<and> length pgs \<le> length pgs' \<and> (\<forall>i<length pgs - 1. pgs' ! i = pgs ! i) \<and>
     (\<exists>x. pgs' ! (length pgs - 1) = last pgs @ x)"

lemma extends_refl: "pgs \<noteq> [] \<Longrightarrow> extends pgs pgs"
  by (simp add: extends_def last_conv_nth)

lemma extends_trans:
  assumes "extends a b" and "extends b c"
  shows "extends a c"
proof (cases "length a = length b")
  case True
  then show ?thesis
    using assms by (auto simp: extends_def last_conv_nth)
next
  case False
  then have "i < length b - 1" if "i \<le> length a - 1" for i
    using assms(1) that by (cases a) (auto simp: extends_def)
  then show ?thesis
    using assms by (auto simp: extends_def)
qed

lemma extends_place: "pgs \<noteq> [] \<Longrightarrow> extends pgs (place d bs pgs)"
  by (auto simp: extends_def place_def nth_append nth_butlast last_conv_nth)

lemma extends_take: "extends pgs pgs' \<Longrightarrow> take (length pgs - 1) pgs' = butlast pgs"
  by (rule nth_equalityI) (auto simp: extends_def nth_butlast)

section \<open>The writer\<close>

definition laid :: "pager_env \<Rightarrow> nat \<Rightarrow> page_id \<Rightarrow> sst_state \<Rightarrow> bytes list \<Rightarrow> bool" where
  "laid E n first_id s pgs \<longleftrightarrow>
     pgs \<noteq> [] \<and> length pgs < 2 ^ 32 \<and>
     (\<exists>D. stores E n (st_pager s) D (first_id + of_nat (length pgs)) \<and>
       (\<forall>i<length pgs. first_id + of_nat i \<in> dom D) \<and> (\<forall>i<length pgs - 1. D (first_id + of_nat i) = Some (pgs ! i))) \<and>
     st_page s = (page_new (first_id + of_nat (length pgs - 1)) PT_LsmData)\<lparr>pg_data := last pgs\<rparr> \<and>
     st_page_offset s = length (last pgs) \<and>
     length (st_pages s) = length pgs \<and>
     st_offset s = of_nat (length (concat (butlast pgs))) \<and>
     (\<forall>b\<in>set pgs. length b \<le> data_size_of (st_pager s)) \<and> (\<forall>b\<in>set (butlast pgs). b \<noteq> [])"

lemma runs_st_call: "runs (st_call m) s Q \<longleftrightarrow> (\<exists>a q. m (st_pager s) = (Inr a, q) \<and> Q a (s\<lparr>st_pager := q\<rparr>))"
  by (auto simp: runs_def st_call_def split: prod.splits sum.splits)

lemma id_inj:
  assumes "i < 2 ^ 32" and "j < 2 ^ 32"
  shows "first_id + of_nat i = first_id + (of_nat j :: page_id) \<longleftrightarrow> i = j"
proof -
  have "unat (of_nat i :: page_id) = i" "unat (of_nat j :: page_id) = j"
    using assms by (simp_all add: unat_of_nat)
  then show ?thesis
    by (metis add_left_cancel)
qed

lemma lsm_readable [simp]: "readable_type PT_LsmData"
  by (simp add: readable_type_def)

text \<open>Writing the open page.\<close>

lemma write_open_page:
  assumes "env_ok E" and laid: "laid E n first_id s pgs"
  obtains q D where "write_page E (st_page s) (st_pager s) = (Inr (), q)" "pgr_config q = pgr_config (st_pager s)"
    "stores E n q D (first_id + of_nat (length pgs))" "\<forall>i<length pgs. D (first_id + of_nat i) = Some (pgs ! i)"
proof -
  let ?i = "first_id + of_nat (length pgs - 1)"
  have pgs: "pgs \<noteq> []" "length pgs < 2 ^ 32" "length (last pgs) \<le> data_size_of (st_pager s)"
    "st_page s = (page_new ?i PT_LsmData)\<lparr>pg_data := last pgs\<rparr>"
    using laid by (auto simp: laid_def)
  obtain D where D: "stores E n (st_pager s) D (first_id + of_nat (length pgs))"
    "\<forall>i<length pgs. first_id + of_nat i \<in> dom D" "\<forall>i<length pgs - 1. D (first_id + of_nat i) = Some (pgs ! i)"
    using laid by (auto simp: laid_def)
  have "?i \<in> dom D"
    using D(2) pgs(1) by simp
  from write_stores [OF assms(1) D(1) this lsm_readable pgs(3)] obtain q
    where q: "write_page E (st_page s) (st_pager s) = (Inr (), q)" "stores E n q (D(?i \<mapsto> last pgs)) (first_id + of_nat (length pgs))"
      "pgr_config q = pgr_config (st_pager s)"
    unfolding pgs(4) by blast
  have "(D(?i \<mapsto> last pgs)) (first_id + of_nat i) = Some (pgs ! i)" if "i < length pgs" for i
    using that D(3) pgs(1,2) id_inj [of i "length pgs - 1" first_id] by (auto simp: last_conv_nth)
  then show ?thesis
    using that q by blast
qed

lemma make_room_laid:
  assumes "env_ok E" and laid: "laid E (Suc n) first_id s pgs" and "length bs \<le> data_size_of (st_pager s)"
    and "Suc (length pgs) < 2 ^ 32"
  shows "runs (make_room E (length bs)) s (\<lambda>_ t. runs (put_bytes bs) t (\<lambda>_ u.
    laid E n first_id u (place (data_size_of (st_pager s)) bs pgs) \<and> st_index u = st_index s \<and> st_index t = st_index s \<and>
    pgr_config (st_pager u) = pgr_config (st_pager s) \<and>
    ph_page_id (pg_header (st_page t)) = first_id + of_nat (length (place (data_size_of (st_pager s)) bs pgs) - 1) \<and>
    st_page_offset t = length (last (place (data_size_of (st_pager s)) bs pgs)) - length bs))"
proof (cases "length (last pgs) + length bs > data_size_of (st_pager s)")
  case True
  have pgs: "pgs \<noteq> []" "st_page_offset s = length (last pgs)" "st_offset s = of_nat (length (concat (butlast pgs)))"
    "length (st_pages s) = length pgs" "\<forall>b\<in>set pgs. length b \<le> data_size_of (st_pager s)" "\<forall>b\<in>set (butlast pgs). b \<noteq> []"
    using laid by (auto simp: laid_def)
  obtain q D where q: "write_page E (st_page s) (st_pager s) = (Inr (), q)" "pgr_config q = pgr_config (st_pager s)"
    "stores E (Suc n) q D (first_id + of_nat (length pgs))" "\<forall>i<length pgs. D (first_id + of_nat i) = Some (pgs ! i)"
    using write_open_page [OF assms(1) laid] .
  let ?nx = "first_id + of_nat (length pgs)"
  obtain r where r: "allocate_page E PT_LsmData q = (Inr ?nx, r)" "stores E n r (D(?nx \<mapsto> [])) (?nx + 1)" "pgr_config r = pgr_config q"
    using allocate_stores [OF assms(1) q(3) lsm_readable] by blast
  have last_ne: "last pgs \<noteq> []"
    using True assms(3) by auto
  have split: "butlast pgs @ [last pgs] = pgs"
    using pgs(1) by simp
  have off: "st_offset s + of_nat (length (last pgs)) = of_nat (length (concat pgs))"
    by (subst split [symmetric], subst concat_append) (simp add: pgs(3))
  have D: "(D(?nx \<mapsto> [])) (first_id + of_nat i) = Some (pgs ! i)" if "i < length pgs" for i
    using that q(4) id_inj [of i "length pgs" first_id] assms(4) by simp
  then have dom: "first_id + of_nat i \<in> dom (D(?nx \<mapsto> []))" if "i < Suc (length pgs)" for i
    using that by (cases "i = length pgs") (simp, metis domI less_SucE)
  have ne: "b \<noteq> []" if "b \<in> set pgs" for b
    using that pgs(6) last_ne by (metis split Un_iff set_append empty_iff list.set(1) set_ConsD)
  have sz: "data_size_of r = data_size_of (st_pager s)"
    using r(3) q(2) by (simp add: data_size_of_def)
  have place: "place (data_size_of (st_pager s)) bs pgs = pgs @ [bs]"
    using True by (simp add: place_def)
  let ?t = "s\<lparr>st_offset := of_nat (length (concat pgs)), st_pager := r, st_pages := st_pages s @ [?nx],
    st_page := page_new ?nx PT_LsmData, st_page_offset := 0\<rparr>"
  have "make_room E (length bs) s = (Inr (), ?t)"
    using True pgs(2) q(1) r(1) off by (simp add: make_room_def pbind_def st_call_def)
  moreover have "put_bytes bs ?t = (Inr (), ?t\<lparr>st_page := (page_new ?nx PT_LsmData)\<lparr>pg_data := bs\<rparr>, st_page_offset := length bs\<rparr>)"
    by (simp add: put_bytes_def page_new_def)
  moreover have nx1: "?nx + 1 = first_id + of_nat (length (pgs @ [bs]))"
    by (simp add: ac_simps)
  have "\<exists>D. stores E n r D (first_id + of_nat (length (pgs @ [bs]))) \<and> (\<forall>i<length (pgs @ [bs]). first_id + of_nat i \<in> dom D) \<and>
      (\<forall>i<length (pgs @ [bs]) - 1. D (first_id + of_nat i) = Some ((pgs @ [bs]) ! i))"
    using r(2) [unfolded nx1] D dom by (intro exI [of _ "D(?nx \<mapsto> [])"]) (simp add: nth_append del: of_nat_Suc)
  then have "laid E n first_id (?t\<lparr>st_page := (page_new ?nx PT_LsmData)\<lparr>pg_data := bs\<rparr>, st_page_offset := length bs\<rparr>) (pgs @ [bs])"
    using pgs(4,5) ne sz assms(3,4) unfolding laid_def by (intro conjI) (simp_all del: of_nat_Suc)
  ultimately show ?thesis
    unfolding place using r(3) q(2) by (simp add: runs_def page_new_def page_header_new_def)
next
  case False
  let ?pgs = "butlast pgs @ [last pgs @ bs]" and ?s = "s\<lparr>st_page := (st_page s)\<lparr>pg_data := pg_data (st_page s) @ bs\<rparr>,
    st_page_offset := st_page_offset s + length bs\<rparr>"
  have place: "place (data_size_of (st_pager s)) bs pgs = ?pgs"
    using False by (simp add: place_def)
  have ne: "pgs \<noteq> []"
    using laid by (simp add: laid_def)
  then have len: "length ?pgs = length pgs" "last ?pgs = last pgs @ bs" "butlast ?pgs = butlast pgs"
    by simp_all
  obtain D where D: "stores E (Suc n) (st_pager s) D (first_id + of_nat (length pgs))"
    "\<forall>i<length pgs. first_id + of_nat i \<in> dom D" "\<forall>i<length pgs - 1. D (first_id + of_nat i) = Some (pgs ! i)"
    using laid by (auto simp: laid_def)
  have at: "st_page s = (page_new (first_id + of_nat (length pgs - 1)) PT_LsmData)\<lparr>pg_data := last pgs\<rparr>"
    "st_page_offset s = length (last pgs)"
    using laid by (simp_all add: laid_def)
  have "\<exists>D. stores E n (st_pager s) D (first_id + of_nat (length pgs)) \<and> (\<forall>i<length pgs. first_id + of_nat i \<in> dom D) \<and>
     (\<forall>i<length pgs - 1. D (first_id + of_nat i) = Some (?pgs ! i))"
    using D stores_less [OF D(1), of n] by (auto simp: nth_append nth_butlast)
  moreover have "\<forall>b\<in>set ?pgs. length b \<le> data_size_of (st_pager s)"
    using laid False by (auto simp: laid_def dest: in_set_butlastD)
  ultimately have "laid E n first_id ?s ?pgs"
    using laid unfolding laid_def len by (intro conjI) simp_all
  then show ?thesis
    unfolding place len using False at
    by (simp add: make_room_def put_bytes_def runs_def page_new_def page_header_new_def)
qed

section \<open>Blocks and their index\<close>

fun group_entries :: "chain_codec \<Rightarrow> nat \<Rightarrow> sst_entry list \<Rightarrow> sst_entry list \<Rightarrow> nat \<Rightarrow> sst_entry list list" where
  "group_entries cc bsz [] block est = (if block \<noteq> [] then [block] else [])"
| "group_entries cc bsz (e # es) block est =
     (if block \<noteq> [] \<and> est + sst_entry_size cc e > bsz
      then block # group_entries cc bsz es [e] (sst_entry_size cc e)
      else group_entries cc bsz es (block @ [e]) (est + sst_entry_size cc e))"

lemma concat_group: "concat (group_entries cc bsz es block est) = block @ es"
  by (induction cc bsz es block est rule: group_entries.induct) simp_all

lemma group_ne: "[] \<notin> set (group_entries cc bsz es block est)"
  by (induction cc bsz es block est rule: group_entries.induct) auto

text \<open>The part of a block, and where the parts of blocks are: page and offset.\<close>

definition spots_ok :: "bytes list \<Rightarrow> bytes list \<Rightarrow> (nat \<times> nat) list \<Rightarrow> bool" where
  "spots_ok pgs parts spots \<longleftrightarrow>
     length spots = length parts \<and>
     (\<forall>j<length parts. fst (spots ! j) < length pgs \<and>
        snd (spots ! j) + length (parts ! j) \<le> length (pgs ! fst (spots ! j)) \<and>
        bslice (snd (spots ! j)) (snd (spots ! j) + length (parts ! j)) (pgs ! fst (spots ! j)) = parts ! j) \<and>
     (\<forall>j. Suc j < length parts \<longrightarrow>
        (if fst (spots ! Suc j) = fst (spots ! j) then snd (spots ! Suc j) = snd (spots ! j) + length (parts ! j)
         else fst (spots ! j) < length pgs - 1 \<and> snd (spots ! j) + length (parts ! j) = length (pgs ! fst (spots ! j))))"

definition at_end :: "bytes list \<Rightarrow> bytes list \<Rightarrow> (nat \<times> nat) list \<Rightarrow> bool" where
  "at_end pgs parts spots \<longleftrightarrow>
     (parts \<noteq> [] \<longrightarrow> fst (last spots) = length pgs - 1 \<and> snd (last spots) + length (last parts) = length (last pgs))"

lemma bslice_append: "b \<le> length xs \<Longrightarrow> bslice a b (xs @ ys) = bslice a b xs"
  by (simp add: bslice_def)

lemma spots_extend:
  assumes "spots_ok pgs parts spots" and ext: "extends pgs pgs'"
  shows "spots_ok pgs' parts spots"
proof -
  have len: "length pgs \<le> length pgs'" "pgs \<noteq> []"
    using ext by (auto simp: extends_def)
  have page: "\<exists>x. pgs' ! i = pgs ! i @ x" if "i < length pgs" for i
    using ext that by (cases "i = length pgs - 1") (auto simp: extends_def last_conv_nth)
  have same: "pgs' ! i = pgs ! i" if "i < length pgs - 1" for i
    using ext that by (auto simp: extends_def)
  show ?thesis
    unfolding spots_ok_def
  proof (intro conjI allI impI)
    show "length spots = length parts"
      using assms(1) by (simp add: spots_ok_def)
    fix j assume j: "j < length parts"
    let ?i = "fst (spots ! j)" and ?o = "snd (spots ! j)"
    have o: "?i < length pgs" "?o + length (parts ! j) \<le> length (pgs ! ?i)" "bslice ?o (?o + length (parts ! j)) (pgs ! ?i) = parts ! j"
      using assms(1) j by (auto simp: spots_ok_def)
    obtain x where "pgs' ! ?i = pgs ! ?i @ x"
      using page [OF o(1)] by blast
    then show "?i < length pgs'" "?o + length (parts ! j) \<le> length (pgs' ! ?i)" "bslice ?o (?o + length (parts ! j)) (pgs' ! ?i) = parts ! j"
      using o len(1) by (simp_all add: bslice_append)
  next
    fix j assume "Suc j < length parts"
    then have "if fst (spots ! Suc j) = fst (spots ! j) then snd (spots ! Suc j) = snd (spots ! j) + length (parts ! j)
       else fst (spots ! j) < length pgs - 1 \<and> snd (spots ! j) + length (parts ! j) = length (pgs ! fst (spots ! j))"
      using assms(1) unfolding spots_ok_def by blast
    then show "if fst (spots ! Suc j) = fst (spots ! j) then snd (spots ! Suc j) = snd (spots ! j) + length (parts ! j)
       else fst (spots ! j) < length pgs' - 1 \<and> snd (spots ! j) + length (parts ! j) = length (pgs' ! fst (spots ! j))"
      using len(1) same [of "fst (spots ! j)"] by (cases "fst (spots ! Suc j) = fst (spots ! j)") auto
  qed
qed

lemma spots_place:
  fixes d :: nat and bs :: bytes
  assumes "spots_ok pgs parts spots" and "at_end pgs parts spots" and "pgs \<noteq> []"
  defines "pgs' \<equiv> place d bs pgs"
  defines "spot \<equiv> (length pgs' - 1, length (last pgs') - length bs)"
  shows "spots_ok pgs' (parts @ [bs]) (spots @ [spot])" "at_end pgs' (parts @ [bs]) (spots @ [spot])"
proof -
  have old: "spots_ok pgs' parts spots"
    unfolding pgs'_def by (intro spots_extend [OF assms(1)] extends_place assms(3))
  have len: "length spots = length parts"
    using assms(1) by (simp add: spots_ok_def)
  obtain x where x: "last pgs' = x @ bs" "pgs' \<noteq> []" "length pgs' = length pgs \<Longrightarrow> x = last pgs" "length pgs \<le> length pgs'"
    "length pgs < length pgs' \<Longrightarrow> pgs' ! (length pgs - 1) = last pgs"
    using assms(3) unfolding pgs'_def place_def
    by (cases "d < length (last pgs) + length bs") (auto simp: nth_append last_conv_nth)
  have new: "pgs' ! fst spot = x @ bs" "snd spot = length x" "fst spot < length pgs'"
    using x(1,2) by (simp_all add: spot_def last_conv_nth)
  have j: "if fst spot = fst (spots ! j) then snd spot = snd (spots ! j) + length (parts ! j)
     else fst (spots ! j) < length pgs' - 1 \<and> snd (spots ! j) + length (parts ! j) = length (pgs' ! fst (spots ! j))"
    if "Suc j = length parts" for j
  proof -
    have "last spots = spots ! j" "last parts = parts ! j" "parts \<noteq> []"
      using that len by (metis Suc_neq_Zero diff_Suc_1 last_conv_nth list.size(3))+
    then have e: "fst (spots ! j) = length pgs - 1" "snd (spots ! j) + length (parts ! j) = length (last pgs)"
      using assms(2) by (auto simp: at_end_def)
    show ?thesis
    proof (cases "length pgs' = length pgs")
      case True
      then show ?thesis
        using e x(3) new(2) by (simp add: spot_def)
    next
      case False
      then have "length pgs < length pgs'"
        using x(4) by simp
      moreover from this have "length pgs - 1 < length pgs' - 1"
        using assms(3) by (cases pgs) auto
      ultimately show ?thesis
        using e x(5) by (auto simp: spot_def)
    qed
  qed
  show "spots_ok pgs' (parts @ [bs]) (spots @ [spot])"
    unfolding spots_ok_def
  proof (intro conjI allI impI)
    fix i assume i: "i < length (parts @ [bs])"
    let ?p = "parts @ [bs]" and ?s = "spots @ [spot]"
    have "fst (?s ! i) < length pgs' \<and> snd (?s ! i) + length (?p ! i) \<le> length (pgs' ! fst (?s ! i)) \<and>
       bslice (snd (?s ! i)) (snd (?s ! i) + length (?p ! i)) (pgs' ! fst (?s ! i)) = ?p ! i"
    proof (cases "i < length parts")
      case True
      then show ?thesis
        using old len by (auto simp: spots_ok_def nth_append)
    next
      case False
      then show ?thesis
        using i new len by (simp add: nth_append bslice_def)
    qed
    then show "fst (?s ! i) < length pgs'" "snd (?s ! i) + length (?p ! i) \<le> length (pgs' ! fst (?s ! i))"
      "bslice (snd (?s ! i)) (snd (?s ! i) + length (?p ! i)) (pgs' ! fst (?s ! i)) = ?p ! i"
      by blast+
  next
    fix i assume i: "Suc i < length (parts @ [bs])"
    show "if fst ((spots @ [spot]) ! Suc i) = fst ((spots @ [spot]) ! i)
      then snd ((spots @ [spot]) ! Suc i) = snd ((spots @ [spot]) ! i) + length ((parts @ [bs]) ! i)
      else fst ((spots @ [spot]) ! i) < length pgs' - 1 \<and>
        snd ((spots @ [spot]) ! i) + length ((parts @ [bs]) ! i) = length (pgs' ! fst ((spots @ [spot]) ! i))"
    proof (cases "Suc i < length parts")
      case True
      then have "if fst (spots ! Suc i) = fst (spots ! i) then snd (spots ! Suc i) = snd (spots ! i) + length (parts ! i)
        else fst (spots ! i) < length pgs' - 1 \<and> snd (spots ! i) + length (parts ! i) = length (pgs' ! fst (spots ! i))"
        using old unfolding spots_ok_def by blast
      then show ?thesis
        using True len by (auto simp: nth_append split: if_splits)
    next
      case False
      then have "Suc i = length parts"
        using i by simp
      moreover from this have "(spots @ [spot]) ! Suc i = spot" "(spots @ [spot]) ! i = spots ! i" "(parts @ [bs]) ! i = parts ! i"
        using len by (simp_all add: nth_append)
      ultimately show ?thesis
        using j [of i] by (auto split: if_splits)
    qed
  qed (use len in simp)
  show "at_end pgs' (parts @ [bs]) (spots @ [spot])"
    using x(1) by (simp add: at_end_def spot_def)
qed

section \<open>Writing the blocks\<close>

definition index_of :: "page_id \<Rightarrow> sst_entry list list \<Rightarrow> (nat \<times> nat) list \<Rightarrow> sst_index_entry list" where
  "index_of first_id blks spots =
     map (\<lambda>(b, i, off). \<lparr>xi_first_key = fst (hd b), xi_page_id = first_id + of_nat i, xi_offset = of_nat off\<rparr>) (zip blks spots)"

definition written :: "pager_env \<Rightarrow> chain_codec \<Rightarrow> bool \<Rightarrow> nat \<Rightarrow> page_id \<Rightarrow> sst_state \<Rightarrow> bytes list \<Rightarrow> sst_entry list list \<Rightarrow> bool" where
  "written E cc cmp n first_id s pgs blks \<longleftrightarrow>
     (let parts = map (block_to_bytes (env_libs E) cc cmp) blks in
      laid E n first_id s pgs \<and> concat pgs = concat parts \<and> length pgs \<le> Suc (length blks) \<and>
      (length pgs, length (last pgs)) = foldl (pack (data_size_of (st_pager s))) (1, 0) (map length parts) \<and>
      (\<exists>spots. spots_ok pgs parts spots \<and> at_end pgs parts spots \<and> st_index s = index_of first_id blks spots))"

lemma laid_less:
  assumes "laid E n first_id s pgs" and "m \<le> n"
  shows "laid E m first_id s pgs"
proof -
  obtain D where "stores E n (st_pager s) D (first_id + of_nat (length pgs))"
    "\<forall>i<length pgs. first_id + of_nat i \<in> dom D" "\<forall>i<length pgs - 1. D (first_id + of_nat i) = Some (pgs ! i)"
    using assms(1) by (auto simp: laid_def)
  then have "\<exists>D. stores E m (st_pager s) D (first_id + of_nat (length pgs)) \<and>
    (\<forall>i<length pgs. first_id + of_nat i \<in> dom D) \<and> (\<forall>i<length pgs - 1. D (first_id + of_nat i) = Some (pgs ! i))"
    using stores_less assms(2) by blast
  then show ?thesis
    using assms(1) unfolding laid_def by blast
qed

lemma data_size_config: "pgr_config p = pgr_config q \<Longrightarrow> data_size_of p = data_size_of q"
  by (simp add: data_size_of_def)

lemma write_block_written:
  assumes env: "env_ok E" and w: "written E cc cmp (Suc n) first_id s pgs blks" and "sorted_wrt (<) (map fst b)"
    and fits: "length (block_to_bytes (env_libs E) cc cmp b) \<le> data_size_of (st_pager s)" and "length blks + 2 < 2 ^ 32"
  shows "runs (write_block E cc cmp b) s (\<lambda>_ t. (\<exists>pgs'. written E cc cmp n first_id t pgs' (blks @ [b])) \<and>
    pgr_config (st_pager t) = pgr_config (st_pager s))"
proof -
  let ?bs = "block_to_bytes (env_libs E) cc cmp b" and ?d = "data_size_of (st_pager s)"
  let ?parts = "map (block_to_bytes (env_libs E) cc cmp) blks"
  let ?pgs = "place ?d ?bs pgs"
  obtain spots where sp: "laid E (Suc n) first_id s pgs" "concat pgs = concat ?parts" "length pgs \<le> Suc (length blks)"
    "(length pgs, length (last pgs)) = foldl (pack ?d) (1, 0) (map length ?parts)" "spots_ok pgs ?parts spots" "at_end pgs ?parts spots"
    "st_index s = index_of first_id blks spots"
    using w by (auto simp: written_def Let_def)
  have ne: "pgs \<noteq> []"
    using sp(1) by (simp add: laid_def)
  let ?spot = "(length ?pgs - 1, length (last ?pgs) - length ?bs)"
  have spots: "spots_ok ?pgs (?parts @ [?bs]) (spots @ [?spot])" "at_end ?pgs (?parts @ [?bs]) (spots @ [?spot])"
    using spots_place [OF sp(5,6) ne] by blast+
  have idx: "index_of first_id (blks @ [b]) (spots @ [?spot]) =
      index_of first_id blks spots @ [\<lparr>xi_first_key = fst (hd b), xi_page_id = first_id + of_nat (length ?pgs - 1),
        xi_offset = of_nat (length (last ?pgs) - length ?bs)\<rparr>]"
    using sp(5) by (simp add: index_of_def spots_ok_def)
  have "runs (make_room E (length ?bs)) s (\<lambda>_ t. runs (put_bytes ?bs) t (\<lambda>_ u.
    laid E n first_id u ?pgs \<and> st_index u = st_index s \<and> st_index t = st_index s \<and>
    pgr_config (st_pager u) = pgr_config (st_pager s) \<and> ph_page_id (pg_header (st_page t)) = first_id + of_nat (length ?pgs - 1) \<and>
    st_page_offset t = length (last ?pgs) - length ?bs))"
    using sp(3) assms(5) by (intro make_room_laid [OF env sp(1) fits]) simp
  then obtain t u where t: "make_room E (length ?bs) s = (Inr (), t)" "put_bytes ?bs t = (Inr (), u)"
    "laid E n first_id u ?pgs" "st_index t = st_index s" "pgr_config (st_pager u) = pgr_config (st_pager s)"
    "ph_page_id (pg_header (st_page t)) = first_id + of_nat (length ?pgs - 1)" "st_page_offset t = length (last ?pgs) - length ?bs"
    unfolding runs_def by auto
  define ix where "ix = index_of first_id (blks @ [b]) (spots @ [?spot])"
  have entry: "st_index t @ [\<lparr>xi_first_key = fst (hd b), xi_page_id = ph_page_id (pg_header (st_page t)),
      xi_offset = of_nat (st_page_offset t)\<rparr>] = ix"
    unfolding ix_def idx t(4,6,7) sp(7) ..
  have "put_bytes ?bs (t\<lparr>st_index := ix\<rparr>) = (Inr (), u\<lparr>st_index := ix\<rparr>)"
    using t(2) by (auto simp: put_bytes_def)
  then have "write_block E cc cmp b s = (Inr (), u\<lparr>st_index := ix\<rparr>)"
    using assms(3) t(1) entry
    by (simp add: write_block_def block_from_entries_def in_key_order_sorted pbind_def plift_def Let_def)
  moreover have "written E cc cmp n first_id (u\<lparr>st_index := ix\<rparr>) ?pgs (blks @ [b])"
  proof -
    have "laid E n first_id (u\<lparr>st_index := ix\<rparr>) ?pgs"
      using t(3) by (simp add: laid_def)
    then show ?thesis
      using spots place_simps [OF ne, of ?d ?bs] sp(2-4) data_size_config [OF t(5)] unfolding written_def Let_def ix_def by auto
  qed
  ultimately show ?thesis
    using t(5) by (auto simp: runs_def)
qed

lemma write_blocks_written:
  assumes env: "env_ok E" and "written E cc (sc_compression cfg \<noteq> None) (n + length (group_entries cc (sc_block_size cfg) es block est)) first_id s pgs blks"
    and "sorted_wrt (<) (map fst (block @ es))"
    and "\<forall>b\<in>set (group_entries cc (sc_block_size cfg) es block est). length (block_to_bytes (env_libs E) cc (sc_compression cfg \<noteq> None) b) \<le> data_size_of (st_pager s)"
    and "length blks + length (group_entries cc (sc_block_size cfg) es block est) + 2 < 2 ^ 32"
  shows "runs (write_blocks E cc cfg es block est) s (\<lambda>_ t.
    (\<exists>pgs'. written E cc (sc_compression cfg \<noteq> None) n first_id t pgs' (blks @ group_entries cc (sc_block_size cfg) es block est)) \<and>
    pgr_config (st_pager t) = pgr_config (st_pager s))"
  using assms(2-5)
proof (induction cc "sc_block_size cfg" es block est arbitrary: s pgs blks rule: group_entries.induct)
  case (1 cc block est)
  then show ?case
    using write_block_written [OF env, of cc "sc_compression cfg \<noteq> None" n first_id s pgs blks block] by (cases "block = []") auto
next
  case (2 cc e es block est)
  let ?cmp = "sc_compression cfg \<noteq> None" and ?g = "\<lambda>block est. group_entries cc (sc_block_size cfg) es block est"
  show ?case
  proof (cases "block \<noteq> [] \<and> est + sst_entry_size cc e > sc_block_size cfg")
    case True
    let ?rest = "?g [e] (sst_entry_size cc e)"
    have g: "group_entries cc (sc_block_size cfg) (e # es) block est = block # ?rest"
      using True by simp
    have first: "runs (write_block E cc ?cmp block) s (\<lambda>_ t. (\<exists>pgs'. written E cc ?cmp (n + length ?rest) first_id t pgs' (blks @ [block])) \<and>
      pgr_config (st_pager t) = pgr_config (st_pager s))"
      using 2(3-6) unfolding g by (intro write_block_written [OF env]) (auto simp: sorted_wrt_append)
    have next_blocks: "runs (write_blocks E cc cfg es [e] (sst_entry_size cc e)) t (\<lambda>_ u.
      (\<exists>pgs'. written E cc ?cmp n first_id u pgs' ((blks @ [block]) @ ?rest)) \<and> pgr_config (st_pager u) = pgr_config (st_pager t))"
      if "written E cc ?cmp (n + length ?rest) first_id t pgs' (blks @ [block])" "pgr_config (st_pager t) = pgr_config (st_pager s)" for t pgs'
      using 2(4-6) that(1) data_size_config [OF that(2)] unfolding g
      by (intro 2(1) [OF True that(1)]) (auto simp: sorted_wrt_append)
    have eq: "write_blocks E cc cfg (e # es) block est =
        pbind (write_block E cc ?cmp block) (\<lambda>_. write_blocks E cc cfg es [e] (sst_entry_size cc e))"
      using True by (simp del: not_None_eq)
    have "runs (write_blocks E cc cfg es [e] (sst_entry_size cc e)) t (\<lambda>_ u.
        (\<exists>pgs'. written E cc ?cmp n first_id u pgs' (blks @ block # ?rest)) \<and> pgr_config (st_pager u) = pgr_config (st_pager s))"
      if t: "(\<exists>pgs'. written E cc ?cmp (n + length ?rest) first_id t pgs' (blks @ [block])) \<and> pgr_config (st_pager t) = pgr_config (st_pager s)" for t
    proof -
      obtain pgs' where w: "written E cc ?cmp (n + length ?rest) first_id t pgs' (blks @ [block])"
        using t by blast
      show ?thesis
        by (rule runs_mono [OF next_blocks [OF w]]) (use t in auto)
    qed
    then show ?thesis
      unfolding g eq runs_pbind by (rule runs_mono [OF first])
  next
    case False
    then have g: "group_entries cc (sc_block_size cfg) (e # es) block est = ?g (block @ [e]) (est + sst_entry_size cc e)"
      by auto
    have "runs (write_blocks E cc cfg es (block @ [e]) (est + sst_entry_size cc e)) s (\<lambda>_ t.
      (\<exists>pgs'. written E cc ?cmp n first_id t pgs' (blks @ ?g (block @ [e]) (est + sst_entry_size cc e))) \<and>
      pgr_config (st_pager t) = pgr_config (st_pager s))"
      using 2(3-6) unfolding g by (intro 2(2) [OF False]) simp_all
    moreover have "write_blocks E cc cfg (e # es) block est = write_blocks E cc cfg es (block @ [e]) (est + sst_entry_size cc e)"
      using False by auto
    ultimately show ?thesis
      unfolding g by simp
  qed
qed

section \<open>The finished table\<close>

definition bloom_part :: "bloom_filter option \<Rightarrow> bytes" where
  "bloom_part bloom = (case bloom of None \<Rightarrow> [] | Some f \<Rightarrow> bloom_bytes f)"

definition block_parts :: "pager_env \<Rightarrow> chain_codec \<Rightarrow> sstable_writer \<Rightarrow> bytes list" where
  "block_parts E cc w = map (block_to_bytes (env_libs E) cc (sc_compression (sw_config w) \<noteq> None))
     (group_entries cc (sc_block_size (sw_config w)) (sw_entries w) [] 0)"

abbreviation blocks_of :: "chain_codec \<Rightarrow> sstable_writer \<Rightarrow> sst_entry list list" where
  "blocks_of cc w \<equiv> group_entries cc (sc_block_size (sw_config w)) (sw_entries w) [] 0"

text \<open>Parts that fit on pages of \<open>d\<close> bytes with the footer behind the last of them.\<close>

definition part_sizes :: "pager_env \<Rightarrow> chain_codec \<Rightarrow> sstable_writer \<Rightarrow> nat list" where
  "part_sizes E cc w =
     map length (block_parts E cc w) @ [36 + sum_list (map (\<lambda>b. 20 + length (fst (hd b))) (blocks_of cc w))] @
     (case sw_bloom_builder w of None \<Rightarrow> [] | Some b \<Rightarrow> [8 + (bb_num_items b * bb_bits_per_key b + 7) div 8])"

definition parts_fit :: "pager_env \<Rightarrow> chain_codec \<Rightarrow> nat \<Rightarrow> sstable_writer \<Rightarrow> bool" where
  "parts_fit E cc d w \<longleftrightarrow> (\<forall>n\<in>set (part_sizes E cc w). n \<le> d) \<and> snd (foldl (pack d) (1, 0) (part_sizes E cc w)) + 256 \<le> d"

text \<open>What the pages of a finished table hold.\<close>

definition table_pages :: "pager_env \<Rightarrow> chain_codec \<Rightarrow> sstable_writer \<Rightarrow> bloom_filter option \<Rightarrow> sstable_metadata \<Rightarrow> bytes list \<Rightarrow>
    (nat \<times> nat) list \<Rightarrow> bytes list \<Rightarrow> bool" where
  "table_pages E cc w bloom m pgs0 spots pgs \<longleftrightarrow>
     (let parts = block_parts E cc w; blks = blocks_of cc w;
          ix = index_to_bytes (env_libs E) (index_of (sm_first_page_id m) blks spots) in
      spots_ok pgs0 parts spots \<and> at_end pgs0 parts spots \<and> extends pgs0 pgs \<and> concat pgs0 = concat parts \<and>
      concat pgs = concat parts @ ix @ bloom_part bloom @ footer_to_bytes (footer_new m (sst_checksum (env_libs E) m)) \<and>
      (\<exists>x. last pgs = x @ footer_to_bytes (footer_new m (sst_checksum (env_libs E) m))) \<and>
      pgs \<noteq> [] \<and> (\<forall>b\<in>set pgs. b \<noteq> []) \<and> length pgs \<le> length blks + 3 \<and> sm_num_pages m = of_nat (length pgs) \<and>
      sm_index_offset m = of_nat (length (concat parts)) \<and>
      sm_bloom_filter_offset m = (if bloom = None then 0 else of_nat (length (concat parts @ ix))) \<and>
      sm_footer_offset m = of_nat (length (concat parts @ ix @ bloom_part bloom)) \<and>
      sm_num_entries m = of_nat (length (sw_entries w)))"

lemma position_laid:
  assumes "laid E n first_id s pgs"
  shows "position_of s = (Inr (of_nat (length (concat pgs))), s)"
proof -
  have "concat pgs = concat (butlast pgs) @ last pgs"
    using assms by (intro concat_split) (simp add: laid_def)
  then have "of_nat (length (concat pgs)) = (of_nat (length (concat (butlast pgs))) + of_nat (length (last pgs)) :: u64)"
    by (simp only: length_append of_nat_add)
  then show ?thesis
    using assms by (simp add: position_of_def laid_def)
qed

lemma place_part:
  assumes "env_ok E" and "laid E (Suc n) first_id s pgs" and "length bs \<le> data_size_of (st_pager s)" and "Suc (length pgs) < 2 ^ 32"
  obtains t u where "make_room E (length bs) s = (Inr (), t)" "put_bytes bs t = (Inr (), u)"
    "laid E n first_id u (place (data_size_of (st_pager s)) bs pgs)" "st_index u = st_index s"
    "pgr_config (st_pager u) = pgr_config (st_pager s)"
  using make_room_laid [OF assms] unfolding runs_def by auto

lemma write_index_laid:
  assumes env: "env_ok E" and laid: "laid E (Suc n) first_id s pgs" and "sorted_wrt (<) (map xi_first_key (st_index s))"
    and "length (index_to_bytes (env_libs E) (st_index s)) \<le> data_size_of (st_pager s)" and "Suc (length pgs) < 2 ^ 32"
  obtains u where "write_index E s = (Inr (), u)"
    "laid E n first_id u (place (data_size_of (st_pager s)) (index_to_bytes (env_libs E) (st_index s)) pgs)"
    "pgr_config (st_pager u) = pgr_config (st_pager s)"
proof -
  obtain t u where "make_room E (length (index_to_bytes (env_libs E) (st_index s))) s = (Inr (), t)"
    "put_bytes (index_to_bytes (env_libs E) (st_index s)) t = (Inr (), u)"
    "laid E n first_id u (place (data_size_of (st_pager s)) (index_to_bytes (env_libs E) (st_index s)) pgs)"
    "pgr_config (st_pager u) = pgr_config (st_pager s)"
    using place_part [OF env laid assms(4,5)] .
  then show ?thesis
    using that assms(3)
    by (simp add: write_index_def index_from_entries_def in_key_order_sorted pbind_def plift_def Let_def)
qed

lemma write_bloom_laid:
  assumes env: "env_ok E" and laid: "laid E (Suc n) first_id s pgs"
    and "length (bloom_part bloom) \<le> data_size_of (st_pager s)" and "Suc (length pgs) < 2 ^ 32"
  obtains u pgs' where "write_bloom E bloom s = (Inr (if bloom = None then 0 else of_nat (length (concat pgs))), u)"
    "laid E n first_id u pgs'" "concat pgs' = concat pgs @ bloom_part bloom" "extends pgs pgs'"
    "length pgs' \<le> Suc (length pgs)" "pgr_config (st_pager u) = pgr_config (st_pager s)"
    "(length pgs', length (last pgs')) = (if bloom = None then (length pgs, length (last pgs))
       else pack (data_size_of (st_pager s)) (length pgs, length (last pgs)) (length (bloom_part bloom)))"
proof (cases bloom)
  case None
  have "pgs \<noteq> []"
    using laid by (simp add: laid_def)
  then show ?thesis
    using that [of s pgs] None laid_less [OF laid, of n] by (simp add: write_bloom_def pret_def bloom_part_def extends_refl)
next
  case (Some f)
  have ne: "pgs \<noteq> []"
    using laid by (simp add: laid_def)
  obtain t u where u: "make_room E (length (bloom_bytes f)) s = (Inr (), t)" "put_bytes (bloom_bytes f) t = (Inr (), u)"
    "laid E n first_id u (place (data_size_of (st_pager s)) (bloom_bytes f) pgs)" "pgr_config (st_pager u) = pgr_config (st_pager s)"
  proof (rule place_part [OF env laid _ assms(4)])
    show "length (bloom_bytes f) \<le> data_size_of (st_pager s)"
      using assms(3) Some by (simp add: bloom_part_def)
  qed blast
  have "write_bloom E bloom s = (Inr (of_nat (length (concat pgs))), u)"
    using Some u(1,2) position_laid [OF laid] by (simp add: write_bloom_def pbind_def pret_def)
  then show ?thesis
    using that [OF _ u(3)] u(4) Some place_simps [OF ne] extends_place [OF ne] by (simp add: bloom_part_def)
qed

lemma write_footer_laid:
  fixes m :: sstable_metadata
  assumes env: "env_ok E" and laid: "laid E (Suc n) first_id s pgs" and "Suc (length pgs) < 2 ^ 32"
    and room: "length (last pgs) + 256 \<le> data_size_of (st_pager s)"
  defines "bs \<equiv> footer_to_bytes (footer_new m (sst_checksum (env_libs E) m))"
  obtains u D where "write_footer E m s = (Inr (), u)" "stores E n (st_pager u) D (first_id + of_nat (length pgs))"
    "\<forall>i<length pgs. D (first_id + of_nat i) = Some ((butlast pgs @ [last pgs @ bs]) ! i)"
proof -
  let ?pgs = "butlast pgs @ [last pgs @ bs]"
  have len: "length bs = 256"
    by (simp add: bs_def)
  have ne: "pgs \<noteq> []"
    using laid by (simp add: laid_def)
  have fit: "length bs \<le> data_size_of (st_pager s)"
    using len room by simp
  obtain t v where v: "make_room E (length bs) s = (Inr (), t)" "put_bytes bs t = (Inr (), v)"
    "laid E n first_id v (place (data_size_of (st_pager s)) bs pgs)"
    using place_part [OF env laid fit assms(3)] .
  have pl: "place (data_size_of (st_pager s)) bs pgs = ?pgs" "length ?pgs = length pgs"
    using room len ne by (simp_all add: place_def)
  obtain q D where "write_page E (st_page v) (st_pager v) = (Inr (), q)"
    "stores E n q D (first_id + of_nat (length ?pgs))" "\<forall>i<length ?pgs. D (first_id + of_nat i) = Some (?pgs ! i)"
    using write_open_page [OF env v(3)] unfolding pl by metis
  then show ?thesis
    using that [of "v\<lparr>st_pager := q\<rparr>" D] v(1,2) pl(2)
    by (simp add: write_footer_def Let_def pbind_def st_call_def flip: bs_def)
qed

lemma index_of_keys: "length spots = length blks \<Longrightarrow> map xi_first_key (index_of first_id blks spots) = map (\<lambda>b. fst (hd b)) blks"
  by (induction blks spots rule: list_induct2') (auto simp: index_of_def)

lemma first_keys_sorted:
  assumes "sorted_wrt (<) (map fst (concat blks))" and "[] \<notin> set blks"
  shows "sorted_wrt (<) (map (\<lambda>b. fst (hd b)) blks)"
  using assms
proof (induction blks)
  case (Cons b blks)
  have "fst (hd b) < fst (hd b')" if "b' \<in> set blks" for b'
    using Cons.prems that by (cases b; cases b') (force simp: sorted_wrt_append)+
  then show ?case
    using Cons by (auto simp: sorted_wrt_append)
qed simp

lemma finish_table_pages:
  assumes env: "env_ok E" and laid: "laid E (length (blocks_of cc w) + 3) first_id s [[]]" and "st_index s = []"
    and ne: "sw_entries w \<noteq> []" and sorted: "sorted_wrt (<) (map fst (sw_entries w))"
    and fit: "parts_fit E cc (data_size_of (st_pager s)) w" and small: "length (blocks_of cc w) + 6 < 2 ^ 32"
    and bloom: "bloom = None \<longleftrightarrow> sw_bloom_builder w = None"
      "\<And>b. sw_bloom_builder w = Some b \<Longrightarrow> length (bloom_part bloom) = 8 + (bb_num_items b * bb_bits_per_key b + 7) div 8"
  shows "runs (finish_table E cc w bloom created first_id) s (\<lambda>m t. sm_first_page_id m = first_id \<and>
    (\<exists>pgs0 spots pgs D nx. table_pages E cc w bloom m pgs0 spots pgs \<and> stores E 0 (st_pager t) D nx \<and>
      length pgs = fst (foldl (pack (data_size_of (st_pager s))) (1, 0) (part_sizes E cc w)) \<and>
      (\<forall>i<length pgs. D (first_id + of_nat i) = Some (pgs ! i))))"
proof -
  let ?d = "data_size_of (st_pager s)" and ?blks = "blocks_of cc w" and ?cmp = "sc_compression (sw_config w) \<noteq> None"
  let ?parts = "block_parts E cc w"
  have parts: "?parts = map (block_to_bytes (env_libs E) cc ?cmp) ?blks"
    by (simp add: block_parts_def)
  have "written E cc ?cmp (3 + length ?blks) first_id s [[]] []"
    using laid assms(3) by (simp add: written_def spots_ok_def at_end_def index_of_def add.commute)
  moreover have "\<forall>b\<in>set ?blks. length (block_to_bytes (env_libs E) cc ?cmp b) \<le> ?d"
    using fit by (auto simp: parts_fit_def part_sizes_def parts)
  ultimately have "runs (write_blocks E cc (sw_config w) (sw_entries w) [] 0) s (\<lambda>_ t.
    (\<exists>pgs'. written E cc ?cmp 3 first_id t pgs' ([] @ ?blks)) \<and> pgr_config (st_pager t) = pgr_config (st_pager s))"
    using sorted small by (intro write_blocks_written [OF env]) simp_all
  then obtain t1 pgs0 spots where t1: "write_blocks E cc (sw_config w) (sw_entries w) [] 0 s = (Inr (), t1)"
    "laid E 3 first_id t1 pgs0" "concat pgs0 = concat ?parts" "length pgs0 \<le> Suc (length ?blks)"
    "(length pgs0, length (last pgs0)) = foldl (pack (data_size_of (st_pager t1))) (1, 0) (map length ?parts)"
    "spots_ok pgs0 ?parts spots" "at_end pgs0 ?parts spots" "st_index t1 = index_of first_id ?blks spots"
    "pgr_config (st_pager t1) = pgr_config (st_pager s)"
    by (auto simp: runs_def written_def Let_def parts)
  have d1: "data_size_of (st_pager t1) = ?d"
    using t1(9) by (rule data_size_config)
  have spots: "length spots = length ?blks"
    using t1(6) by (simp add: spots_ok_def parts)
  let ?ix = "index_to_bytes (env_libs E) (st_index t1)"
  have ix: "length ?ix = 36 + sum_list (map (\<lambda>b. 20 + length (fst (hd b))) ?blks)"
    using arg_cong [OF index_of_keys [OF spots, of first_id], of "\<lambda>ks. sum_list (map (\<lambda>k. 20 + length k) ks)"] env
    by (simp add: length_index_to_bytes env_ok_def t1(8) comp_def)
  have ix_sorted: "sorted_wrt (<) (map xi_first_key (st_index t1))"
    unfolding t1(8) index_of_keys [OF spots]
    using sorted group_ne by (intro first_keys_sorted) (simp_all add: concat_group)
  have ix_fit: "length ?ix \<le> data_size_of (st_pager t1)"
    using fit unfolding d1 ix by (simp add: parts_fit_def part_sizes_def)
  have ne0: "pgs0 \<noteq> []"
    using t1(2) by (simp add: laid_def)
  have lens: "Suc (length pgs0) < 2 ^ 32"
    using t1(4) small by simp
  let ?pgs1 = "place ?d ?ix pgs0"
  obtain t2 where t2: "write_index E t1 = (Inr (), t2)" "laid E 2 first_id t2 ?pgs1" "pgr_config (st_pager t2) = pgr_config (st_pager t1)"
    using write_index_laid [OF env _ ix_sorted ix_fit lens, of 2 first_id] t1(2) unfolding d1 by (auto simp: numeral_3_eq_3 numeral_2_eq_2)
  have d2: "data_size_of (st_pager t2) = ?d"
    using data_size_config [OF t2(3)] d1 by simp
  note p1 = place_simps [OF ne0, of ?d ?ix]
  have len1: "Suc (length ?pgs1) < 2 ^ 32"
    using p1(5) t1(4) small by simp
  have bloom_fit: "length (bloom_part bloom) \<le> data_size_of (st_pager t2)"
    using fit bloom unfolding d2 by (cases bloom; cases "sw_bloom_builder w") (auto simp: parts_fit_def part_sizes_def bloom_part_def)
  obtain t3 pgs2 where t3: "write_bloom E bloom t2 = (Inr (if bloom = None then 0 else of_nat (length (concat ?pgs1))), t3)"
    "laid E 1 first_id t3 pgs2" "concat pgs2 = concat ?pgs1 @ bloom_part bloom" "extends ?pgs1 pgs2" "length pgs2 \<le> Suc (length ?pgs1)"
    "pgr_config (st_pager t3) = pgr_config (st_pager t2)"
    "(length pgs2, length (last pgs2)) = (if bloom = None then (length ?pgs1, length (last ?pgs1))
       else pack ?d (length ?pgs1, length (last ?pgs1)) (length (bloom_part bloom)))"
    using write_bloom_laid [OF env _ bloom_fit len1, of 1 first_id] t2(2) unfolding d2 by (auto simp: numeral_2_eq_2)
  have "(length pgs2, length (last pgs2)) = foldl (pack ?d) (1, 0) (part_sizes E cc w)"
    using t3(7) p1(3) t1(5) bloom unfolding d1 ix part_sizes_def by (cases "sw_bloom_builder w") auto
  then have sizes: "length pgs2 = fst (foldl (pack ?d) (1, 0) (part_sizes E cc w))" "length (last pgs2) = snd (foldl (pack ?d) (1, 0) (part_sizes E cc w))"
    by (metis fst_conv snd_conv)+
  then have room: "length (last pgs2) + 256 \<le> data_size_of (st_pager t3)"
    using fit data_size_config [OF t3(6)] d2 by (simp add: parts_fit_def)
  have len2: "Suc (length pgs2) < 2 ^ 32" "length pgs2 \<le> length ?blks + 3"
    using t3(5) p1(5) t1(4) small by simp_all
  define m where "m = \<lparr>sm_id = sw_id w, sm_level = sw_level w, sm_min_key = fst (hd (sw_entries w)),
     sm_max_key = fst (last (sw_entries w)), sm_num_entries = of_nat (length (sw_entries w)),
     sm_total_size = of_nat (length (concat pgs2)) + 256, sm_created_lsn = created, sm_first_page_id = first_id,
     sm_num_pages = of_nat (length (st_pages t3)), sm_index_offset = of_nat (length (concat pgs0)),
     sm_bloom_filter_offset = (if bloom = None then 0 else of_nat (length (concat ?pgs1))),
     sm_footer_offset = of_nat (length (concat pgs2))\<rparr>"
  let ?bs = "footer_to_bytes (footer_new m (sst_checksum (env_libs E) m))" and ?pgs = "\<lambda>bs. butlast pgs2 @ [last pgs2 @ bs]"
  have laid3: "laid E (Suc 0) first_id t3 pgs2"
    using t3(2) by simp
  obtain t4 D where t4: "write_footer E m t3 = (Inr (), t4)" "stores E 0 (st_pager t4) D (first_id + of_nat (length pgs2))"
    "\<forall>i<length pgs2. D (first_id + of_nat i) = Some (?pgs ?bs ! i)"
    using write_footer_laid [OF env laid3 len2(1) room] .
  have pgs2: "pgs2 \<noteq> []" "length (st_pages t3) = length pgs2" "\<forall>b\<in>set (butlast pgs2). b \<noteq> []"
    using t3(2) by (auto simp: laid_def)
  have ext: "extends pgs2 (?pgs ?bs)"
    using pgs2(1) by (auto simp: extends_def nth_append nth_butlast)
  have cat: "concat (?pgs ?bs) = concat pgs2 @ ?bs"
    using concat_split [OF pgs2(1)] by simp
  have "table_pages E cc w bloom m pgs0 spots (?pgs ?bs)"
    unfolding table_pages_def Let_def
  proof (intro conjI)
    show "extends pgs0 (?pgs ?bs)"
      using extends_trans [OF extends_trans [OF extends_place [OF ne0] t3(4)] ext] .
    show "concat (?pgs ?bs) = concat ?parts @ index_to_bytes (env_libs E) (index_of (sm_first_page_id m) ?blks spots) @ bloom_part bloom @ ?bs"
      unfolding cat t3(3) p1(1) using t1(3,8) by (simp add: m_def)
    show "sm_num_entries m = of_nat (length (sw_entries w))" "sm_num_pages m = of_nat (length (?pgs ?bs))"
      "length (?pgs ?bs) \<le> length ?blks + 3"
      using pgs2 len2(2) by (simp_all add: m_def)
    show "sm_index_offset m = of_nat (length (concat ?parts))"
      "sm_bloom_filter_offset m = (if bloom = None then 0 else of_nat (length (concat ?parts @ index_to_bytes (env_libs E) (index_of (sm_first_page_id m) ?blks spots))))"
      "sm_footer_offset m = of_nat (length (concat ?parts @ index_to_bytes (env_libs E) (index_of (sm_first_page_id m) ?blks spots) @ bloom_part bloom))"
      using t3(3) p1(1) t1(3,8) by (simp_all add: m_def)
    have "?bs \<noteq> []"
      using length_footer_to_bytes [of "footer_new m (sst_checksum (env_libs E) m)"] by (metis list.size(3) zero_neq_numeral)
    then show "\<forall>b\<in>set (?pgs ?bs). b \<noteq> []"
      using pgs2(3) by auto
    show "\<exists>x. last (?pgs ?bs) = x @ ?bs"
      by simp
  qed (use t1 in simp_all)
  moreover have "finish_table E cc w bloom created first_id s = (Inr m, t4)"
    using t1(1) t2(1) t3(1) t4(1) position_laid [OF t1(2)] position_laid [OF laid3]
    by (simp add: finish_table_def pbind_def pret_def m_def Let_def)
  moreover have "length (?pgs ?bs) = length pgs2" "sm_first_page_id m = first_id"
    using pgs2(1) by (simp_all add: m_def)
  ultimately show ?thesis
    using t4(2,3) sizes(1) unfolding runs_def by metis
qed

end
