(* ===== verification/SsTableRead.thy ===== *)
theory SsTableRead
  imports SsTableProps
begin

text \<open>
  The reader of sorted string tables on the pages of a finished table: finding the footer, gathering bytes
  across pages, and looking keys up.
\<close>

section \<open>Reading pages that follow each other\<close>

definition paged :: "pager_env \<Rightarrow> pager \<Rightarrow> page_id \<Rightarrow> bytes list \<Rightarrow> bool" where
  "paged E p first_id pgs \<longleftrightarrow>
     (\<exists>D nx. stores E 0 p D nx \<and> (\<forall>i<length pgs. D (first_id + of_nat i) = Some (pgs ! i)))"

lemma read_paged:
  assumes "paged E p first_id pgs" and "i < length pgs"
  obtains g q where "read_page E (first_id + of_nat i) p = (Inr g, q)" "pg_data g = pgs ! i" "paged E q first_id pgs"
proof -
  obtain D nx where D: "stores E 0 p D nx" "\<forall>i<length pgs. D (first_id + of_nat i) = Some (pgs ! i)"
    using assms(1) by (auto simp: paged_def)
  then obtain g q where "read_page E (first_id + of_nat i) p = (Inr g, q)" "pg_data g = pgs ! i" "stores E 0 q D nx"
    using read_stores [OF D(1), of "first_id + of_nat i" "pgs ! i"] assms(2) by blast
  then show ?thesis
    using that D(2) unfolding paged_def by blast
qed

lemma tcall_paged:
  assumes "paged E p first_id pgs" and "i < length pgs"
  obtains g q where "tcall (read_page E (first_id + of_nat i)) p = (Inr g, q)" "pg_data g = pgs ! i" "paged E q first_id pgs"
proof (rule read_paged [OF assms])
  fix g q assume "read_page E (first_id + of_nat i) p = (Inr g, q)" "pg_data g = pgs ! i" "paged E q first_id pgs"
  then show thesis
    using that [of g q] by (simp add: tcall_def)
qed

lemma find_start_paged:
  assumes "paged E p first_id pgs" and "target < length (concat pgs)" and "i < length pgs" and "length (concat (take i pgs)) \<le> target"
  shows "\<exists>j q. find_start E first_id target (length (concat (take i pgs))) [i..<length pgs] p =
      (Inr (first_id + of_nat j, target - length (concat (take j pgs))), q) \<and> j < length pgs \<and>
      length (concat (take j pgs)) \<le> target \<and> target < length (concat (take (Suc j) pgs)) \<and> paged E q first_id pgs"
  using assms
proof (induction "length pgs - i" arbitrary: i p)
  case (Suc n)
  obtain g q where q: "tcall (read_page E (first_id + of_nat i)) p = (Inr g, q)" "pg_data g = pgs ! i" "paged E q first_id pgs"
    using tcall_paged [OF Suc.prems(1,3)] .
  have ids: "[i..<length pgs] = i # [Suc i..<length pgs]"
    using Suc.prems(3) by (simp add: upt_rec)
  have step: "length (concat (take (Suc i) pgs)) = length (concat (take i pgs)) + length (pgs ! i)"
    using Suc.prems(3) by (simp add: take_Suc_conv_app_nth)
  show ?case
  proof (cases "length (concat (take i pgs)) + length (pgs ! i) > target")
    case True
    then show ?thesis
      unfolding ids using q Suc.prems(3,4) step by (intro exI [of _ i] exI [of _ q]) (simp add: pbind_def pret_def)
  next
    case False
    have "Suc i < length pgs"
    proof (rule ccontr)
      assume "\<not> Suc i < length pgs"
      then have "take (Suc i) pgs = pgs"
        by simp
      then show False
        using False step Suc.prems(2) by simp
    qed
    moreover have "n = length pgs - Suc i"
      using Suc.hyps(2) by simp
    ultimately have "\<exists>j r. find_start E first_id target (length (concat (take (Suc i) pgs))) [Suc i..<length pgs] q =
      (Inr (first_id + of_nat j, target - length (concat (take j pgs))), r) \<and> j < length pgs \<and>
      length (concat (take j pgs)) \<le> target \<and> target < length (concat (take (Suc j) pgs)) \<and> paged E r first_id pgs"
      using q(3) Suc.prems(2) False step by (intro Suc.hyps(1)) simp_all
    moreover have "[Suc i..<length pgs] \<noteq> []"
      using \<open>Suc i < length pgs\<close> by (cases pgs) auto
    ultimately show ?thesis
      unfolding ids using q(1,2) False step by (simp add: pbind_def)
  qed
qed simp

lemma read_on_paged:
  assumes "paged E p first_id pgs" and "\<forall>b\<in>set pgs. b \<noteq> []" and "n \<le> fuel" and "n > 0 \<Longrightarrow> j < length pgs \<and> off < length (pgs ! j)"
    and "off + n \<le> length (concat (drop j pgs))"
  shows "\<exists>q. read_on fuel E (first_id + of_nat j) off n acc p = (Inr (acc @ take n (drop off (concat (drop j pgs)))), q) \<and> paged E q first_id pgs"
  using assms
proof (induction fuel arbitrary: j off n acc p)
  case (Suc fuel)
  show ?case
  proof (cases "n = 0")
    case False
    then have j: "j < length pgs" "off < length (pgs ! j)"
      using Suc.prems(4) by auto
    obtain g q where q: "tcall (read_page E (first_id + of_nat j)) p = (Inr g, q)" "pg_data g = pgs ! j" "paged E q first_id pgs"
      using tcall_paged [OF Suc.prems(1) j(1)] .
    let ?d = "pgs ! j" and ?r = "min n (length (pgs ! j) - off)"
    have cat: "concat (drop j pgs) = ?d @ concat (drop (Suc j) pgs)"
      using j(1) by (simp flip: Cons_nth_drop_Suc)
    show ?thesis
    proof (cases "n \<le> length ?d - off")
      case True
      then have r: "?r = n"
        by simp
      have "\<exists>t. read_on fuel E (first_id + of_nat j) (off + n) 0 (acc @ bslice off (off + n) ?d) q =
          (Inr (acc @ bslice off (off + n) ?d), t) \<and> paged E t first_id pgs"
        using q(3) by (cases fuel) (auto simp: pret_def)
      then show ?thesis
        using q(1,2) False j(2) r True by (simp add: pbind_def Let_def cat bslice_def)
    next
      case more: False
      let ?n = "n - (length ?d - off)" and ?acc = "acc @ bslice off (length ?d) ?d"
      have sum: "?n \<le> length (concat (drop (Suc j) pgs))"
        using Suc.prems(5) j(2) unfolding cat by simp
      have nxt: "Suc j < length pgs"
      proof (rule ccontr)
        assume "\<not> Suc j < length pgs"
        then show False
          using sum more j(2) by simp
      qed
      then have "0 < length (pgs ! Suc j)"
        using Suc.prems(2) by simp
      then have "\<exists>t. read_on fuel E (first_id + of_nat (Suc j)) 0 ?n ?acc q = (Inr (?acc @ take ?n (drop 0 (concat (drop (Suc j) pgs)))), t) \<and>
          paged E t first_id pgs"
        using q(3) Suc.prems(2,3) sum j(2) more nxt by (intro Suc.IH) simp_all
      moreover have "?acc @ take ?n (concat (drop (Suc j) pgs)) = acc @ take n (drop off (concat (drop j pgs)))"
        using more j(2) by (simp add: cat bslice_def)
      moreover have "?r = length ?d - off" "off + (length ?d - off) = length ?d"
        using more j(2) by simp_all
      ultimately show ?thesis
        using q(1,2) False j(2) more by (simp add: pbind_def Let_def ac_simps)
    qed
  qed (use Suc.prems in \<open>simp add: pret_def\<close>)
qed (auto simp: pret_def)

lemma read_data_paged:
  assumes "paged E p first_id pgs" and "\<forall>b\<in>set pgs. b \<noteq> []" and "unat offset + n \<le> length (concat pgs)" and "0 < n"
    and "unat np = length pgs"
  obtains q where "read_data_with_size E first_id offset n np p = (Inr (take n (drop (unat offset) (concat pgs))), q)" "paged E q first_id pgs"
proof -
  let ?o = "unat offset"
  have "?o < length (concat pgs)" "0 < length pgs"
    using assms(3,4) by (simp, cases pgs) auto
  then obtain j q where j: "find_start E first_id ?o 0 [0..<length pgs] p = (Inr (first_id + of_nat j, ?o - length (concat (take j pgs))), q)"
    "j < length pgs" "length (concat (take j pgs)) \<le> ?o" "?o < length (concat (take (Suc j) pgs))" "paged E q first_id pgs"
    using find_start_paged [OF assms(1), of ?o 0] by auto
  have cat: "concat pgs = concat (take j pgs) @ concat (drop j pgs)"
    by (metis append_take_drop_id concat_append)
  let ?off = "?o - length (concat (take j pgs))"
  have "?off < length (pgs ! j)"
    using j(2-4) by (simp add: take_Suc_conv_app_nth)
  moreover have "?off + n \<le> length (concat (drop j pgs))"
    using assms(3) j(3) arg_cong [OF cat, of length] by simp
  ultimately obtain t where "read_on n E (first_id + of_nat j) ?off n [] q = (Inr (take n (drop ?off (concat (drop j pgs)))), t)" "paged E t first_id pgs"
    using read_on_paged [OF j(5) assms(2), of n n j ?off "[]"] j(2) by auto
  moreover have "drop ?o (concat pgs) = drop ?off (concat (drop j pgs))"
    by (subst cat) (simp add: j(3))
  ultimately show ?thesis
    using that j(1) assms(5) by (simp add: read_data_with_size_def pbind_def)
qed

section \<open>Finding the footer\<close>

lemma scan_paged:
  assumes "paged E p first_id pgs" and "i < length pgs"
  obtains q where "scan_page E first_id (first_id + of_nat i) cnt p = (footer_on_page first_id cnt (pgs ! i), q)" "paged E q first_id pgs"
proof (rule read_paged [OF assms])
  fix g q assume "read_page E (first_id + of_nat i) p = (Inr g, q)" "pg_data g = pgs ! i" "paged E q first_id pgs"
  then show thesis
    using that [of q] by (simp add: scan_page_def)
qed

lemma find_footer_step:
  assumes "scan_page E first_id (first_id + of_nat i) (of_nat (Suc i)) p = (r, q)"
  shows "find_footer left E first_id (first_id + of_nat i) (of_nat i) p =
    (case r of
       Inl e \<Rightarrow> (Inl e, q)
     | Inr (Some f) \<Rightarrow> (Inr f, q)
     | Inr None \<Rightarrow> (case left of
         0 \<Rightarrow> (Inl footer_not_found, q)
       | Suc left \<Rightarrow> find_footer left E first_id (first_id + of_nat (Suc i)) (of_nat (Suc i)) q))"
proof -
  have n: "of_nat i + 1 = (of_nat (Suc i) :: u32)" "first_id + of_nat i + 1 = first_id + (of_nat (Suc i) :: page_id)"
    by simp_all
  show ?thesis
    using assms unfolding find_footer.simps [of left E first_id "first_id + of_nat i" "of_nat i"] n pbind_def
    by (simp add: pret_def perr_def del: of_nat_Suc split: sum.split option.split nat.split)
qed

lemma find_footer_paged:
  assumes "paged E p first_id pgs" and "i < length pgs" and "length pgs - i \<le> Suc left"
    and "\<And>j. i \<le> j \<Longrightarrow> Suc j < length pgs \<Longrightarrow> footer_on_page first_id (of_nat (Suc j)) (pgs ! j) = Inr None"
    and "footer_on_page first_id (of_nat (length pgs)) (last pgs) = Inr (Some f)"
  shows "\<exists>q. find_footer left E first_id (first_id + of_nat i) (of_nat i) p = (Inr f, q) \<and> paged E q first_id pgs"
  using assms
proof (induction left arbitrary: i p)
  case (0 i p)
  then have "i = length pgs - 1" "pgs \<noteq> []" "Suc i = length pgs"
    by auto
  moreover obtain q where "scan_page E first_id (first_id + of_nat i) (of_nat (Suc i)) p = (footer_on_page first_id (of_nat (Suc i)) (pgs ! i), q)"
    "paged E q first_id pgs"
    using scan_paged [OF 0(1,2)] by blast
  ultimately show ?case
    using 0(5) find_footer_step [of E first_id i p _ q 0] by (simp add: last_conv_nth)
next
  case (Suc left i p)
  obtain q where q: "scan_page E first_id (first_id + of_nat i) (of_nat (Suc i)) p = (footer_on_page first_id (of_nat (Suc i)) (pgs ! i), q)"
    "paged E q first_id pgs"
    using scan_paged [OF Suc.prems(1,2)] by blast
  show ?case
  proof (cases "Suc i = length pgs")
    case True
    then have "pgs ! i = last pgs"
      by (metis Suc.prems(2) diff_Suc_1 last_conv_nth list.size(3) not_less_zero)
    then show ?thesis
      using q Suc.prems(5) True find_footer_step [OF q(1), of "Suc left"] by (simp del: of_nat_Suc)
  next
    case False
    then have "Suc i < length pgs"
      using Suc.prems(2) by simp
    moreover from this have "footer_on_page first_id (of_nat (Suc i)) (pgs ! i) = Inr None"
      using Suc.prems(4) by blast
    moreover have "\<exists>r. find_footer left E first_id (first_id + of_nat (Suc i)) (of_nat (Suc i)) q = (Inr f, r) \<and> paged E r first_id pgs"
      if "Suc i < length pgs"
      using that q(2) Suc.prems(3-5) by (intro Suc.IH) auto
    ultimately show ?thesis
      using find_footer_step [OF q(1), of "Suc left"] by (simp del: of_nat_Suc)
  qed
qed

section \<open>Opening\<close>

definition stored_bloom :: "bloom_filter \<Rightarrow> bloom_filter" where
  "stored_bloom f = bloom_from_bytes_with_size (bf_bits f) (bf_num_bits f) (bf_num_hash_functions f)"

definition reader_of :: "pager_env \<Rightarrow> chain_codec \<Rightarrow> sstable_writer \<Rightarrow> bloom_filter option \<Rightarrow> sstable_metadata \<Rightarrow> (nat \<times> nat) list \<Rightarrow>
    sstable_config \<Rightarrow> sstable_reader" where
  "reader_of E cc w bloom m spots cfg =
     \<lparr>sr_metadata = footer_keys_cut m, sr_index = index_of (sm_first_page_id m) (blocks_of cc w) spots,
      sr_bloom = map_option stored_bloom bloom, sr_config = cfg\<rparr>"

lemma bloom_of_bytes_part:
  assumes "bf_num_bits f < 2 ^ 32" and "bf_num_hash_functions f < 2 ^ 32"
  shows "bloom_of_bytes (bloom_bytes f) = Inr (stored_bloom f)"
  using assms by (simp add: bloom_of_bytes_def bloom_bytes_def bslice_def stored_bloom_def unat_of_nat)

text \<open>The parts behind the blocks, with the offsets the metadata gives.\<close>

lemma table_pages_offsets:
  assumes "env_ok E" and t: "table_pages E cc w bloom m pgs0 spots pgs" and small: "length (concat pgs) < 2 ^ 63"
    and "sw_entries w \<noteq> []" and "length (sw_entries w) < 2 ^ 63"
  defines "ix \<equiv> index_to_bytes (env_libs E) (index_of (sm_first_page_id m) (blocks_of cc w) spots)"
  defines "pre \<equiv> concat (block_parts E cc w)"
  shows "unat (sm_index_offset m) = length pre"
    "bloom \<noteq> None \<Longrightarrow> unat (sm_bloom_filter_offset m) = length pre + length ix" "bloom = None \<Longrightarrow> sm_bloom_filter_offset m = 0"
    "unat (sm_footer_offset m) = length pre + length ix + length (bloom_part bloom)"
    "0 < length ix" "bloom \<noteq> None \<Longrightarrow> 8 \<le> length (bloom_part bloom)" "sm_num_entries m > 0"
    "concat pgs = pre @ ix @ bloom_part bloom @ footer_to_bytes (footer_new m (sst_checksum (env_libs E) m))"
proof -
  show cat: "concat pgs = pre @ ix @ bloom_part bloom @ footer_to_bytes (footer_new m (sst_checksum (env_libs E) m))"
    using t by (simp add: table_pages_def Let_def ix_def pre_def)
  then have len: "length pre + length ix + length (bloom_part bloom) + 256 < 2 ^ 63"
    using small by simp
  have n: "unat (of_nat k :: u64) = k" if "k < 2 ^ 63" for k
    using that by (simp add: unat_of_nat)
  have offs: "sm_index_offset m = of_nat (length pre)"
    "sm_bloom_filter_offset m = (if bloom = None then 0 else of_nat (length pre + length ix))"
    "sm_footer_offset m = of_nat (length pre + length ix + length (bloom_part bloom))"
    using t by (simp_all add: table_pages_def Let_def ix_def pre_def add.assoc)
  show "unat (sm_index_offset m) = length pre" "unat (sm_footer_offset m) = length pre + length ix + length (bloom_part bloom)"
    unfolding offs using len by (intro n, simp)+
  show "unat (sm_bloom_filter_offset m) = length pre + length ix" if "bloom \<noteq> None"
    unfolding offs(2) if_not_P [OF that] using len by (intro n) simp
  show "sm_bloom_filter_offset m = 0" if "bloom = None"
    unfolding offs(2) if_P [OF that] ..
  show "0 < length ix"
    using assms(1) by (simp add: ix_def length_index_to_bytes env_ok_def)
  show "bloom \<noteq> None \<Longrightarrow> 8 \<le> length (bloom_part bloom)"
    by (auto simp: bloom_part_def bloom_bytes_def)
  have "unat (sm_num_entries m) = length (sw_entries w)"
    using t n [OF assms(5)] by (simp add: table_pages_def Let_def)
  then show "sm_num_entries m > 0"
    using assms(4) by (metis length_greater_0_conv unat_gt_0 word_coorder.not_eq_extremum)
qed

lemma footer_on_last_page:
  assumes env: "env_ok E" and t: "table_pages E cc w bloom m pgs0 spots pgs" and small: "length (concat pgs) < 2 ^ 63"
    and "sw_entries w \<noteq> []" and "length (sw_entries w) < 2 ^ 63"
  shows "footer_on_page (sm_first_page_id m) (of_nat (length pgs)) (last pgs) =
    Inr (Some ((footer_new m (sst_checksum (env_libs E) m))\<lparr>sf_metadata := footer_keys_cut m\<rparr>))"
proof -
  let ?f = "footer_new m (sst_checksum (env_libs E) m)"
  note o = table_pages_offsets [OF env t small assms(4,5)]
  obtain x where x: "last pgs = x @ footer_to_bytes ?f"
    using t by (auto simp: table_pages_def Let_def)
  have "footer_from_bytes (footer_to_bytes ?f) = Inr (?f\<lparr>sf_metadata := footer_keys_cut (sf_metadata ?f)\<rparr>)"
    using env by (intro footer_round_trip) (simp_all add: footer_new_def sst_checksum_def env_ok_def libs_okD(6))
  then have "footer_from_bytes (drop (length (last pgs) - 256) (last pgs)) = Inr (?f\<lparr>sf_metadata := footer_keys_cut m\<rparr>)"
    by (simp add: x footer_new_def)
  moreover have "unat (sm_index_offset m) < unat (sm_footer_offset m)"
    using o(1,4,5) by linarith
  moreover have "sm_bloom_filter_offset m = 0 \<or> unat (sm_bloom_filter_offset m) < unat (sm_footer_offset m)"
    using o(2,3,4,6) by (cases "bloom = None") (blast, linarith)
  moreover have "sm_num_pages m = of_nat (length pgs)" "256 \<le> length (last pgs)"
    using t by (simp_all add: table_pages_def Let_def x)
  ultimately show ?thesis
    using o(7) by (simp add: footer_on_page_def footer_keys_cut_def word_less_nat_alt)
qed

text \<open>
  A footer that needs a page of its own is not accepted there: its metadata counts the pages before it.
\<close>

lemma spilled_footer_rejected:
  assumes "length c = 32" and "sm_num_pages m = of_nat n" and "Suc n < 2 ^ 32"
  shows "footer_on_page (sm_first_page_id m) (of_nat (Suc n)) (x @ footer_to_bytes (footer_new m c)) = Inr None"
proof -
  have "unat (of_nat n :: u32) = n" "unat (of_nat (Suc n) :: u32) = Suc n"
    using assms(3) by (simp_all add: unat_of_nat del: of_nat_Suc)
  then have "(of_nat n :: u32) \<noteq> of_nat (Suc n)"
    by (metis n_not_Suc_n)
  then show ?thesis
    using footer_round_trip [of "footer_new m c"] assms(1,2)
    by (simp add: footer_on_page_def footer_new_def footer_keys_cut_def del: of_nat_Suc)
qed

lemma sst_open_table:
  assumes env: "env_ok E" and t: "table_pages E cc w bloom m pgs0 spots pgs" and small: "length (concat pgs) < 2 ^ 63"
    and es: "sw_entries w \<noteq> []" "length (sw_entries w) < 2 ^ 32" "sorted_wrt (<) (map fst (sw_entries w))" "\<forall>e\<in>set (sw_entries w). length (fst e) < 2 ^ 32"
    and p: "paged E p (sm_first_page_id m) pgs" and "length pgs \<le> 10001" and "length (blocks_of cc w) < 2 ^ 32"
    and none: "\<And>j. Suc j < length pgs \<Longrightarrow> footer_on_page (sm_first_page_id m) (of_nat (Suc j)) (pgs ! j) = Inr None"
    and bloom: "\<And>f. bloom = Some f \<Longrightarrow> bf_num_bits f < 2 ^ 32 \<and> bf_num_hash_functions f < 2 ^ 32"
  shows "\<exists>q. sst_open E (sm_first_page_id m) cfg p = (Inr (reader_of E cc w bloom m spots cfg), q) \<and> paged E q (sm_first_page_id m) pgs"
proof -
  let ?first = "sm_first_page_id m" and ?blks = "blocks_of cc w"
  let ?index = "index_of ?first ?blks spots" and ?pre = "concat (block_parts E cc w)"
  let ?ix = "index_to_bytes (env_libs E) ?index" and ?f = "(footer_new m (sst_checksum (env_libs E) m))\<lparr>sf_metadata := footer_keys_cut m\<rparr>"
  have n63: "length (sw_entries w) < 2 ^ 63"
    using es(2) by simp
  note o = table_pages_offsets [OF env t small es(1) n63]
  have pgs: "pgs \<noteq> []" "\<forall>b\<in>set pgs. b \<noteq> []" "length spots = length ?blks" "sm_num_pages m = of_nat (length pgs)"
    using t by (auto simp: table_pages_def Let_def spots_ok_def block_parts_def)
  have np: "unat (sm_num_pages m) = length pgs"
    using assms(9) unfolding pgs(4) by (simp add: unat_of_nat)
  have "\<exists>q. find_footer 10000 E ?first (?first + of_nat 0) (of_nat 0) p = (Inr ?f, q) \<and> paged E q ?first pgs"
    using pgs(1) assms(9) none footer_on_last_page [OF env t small es(1) n63] by (intro find_footer_paged [OF p]) simp_all
  then obtain p1 where p1: "find_footer 10000 E ?first ?first 0 p = (Inr ?f, p1)" "paged E p1 ?first pgs"
    by auto
  let ?sz = "if sm_bloom_filter_offset m > 0 then sm_bloom_filter_offset m - sm_index_offset m else sm_footer_offset m - sm_index_offset m"
  have sz: "unat ?sz = length ?ix"
    using o(1-5) by (cases "bloom = None") (simp_all add: unat_sub word_le_nat_alt word_less_nat_alt bloom_part_def)
  have cat: "unat (sm_index_offset m) + length ?ix \<le> length (concat pgs)"
    unfolding o(1,8) by simp
  obtain p2 where "read_data_with_size E ?first (sm_index_offset m) (length ?ix) (sm_num_pages m) p1 =
      (Inr (take (length ?ix) (drop (unat (sm_index_offset m)) (concat pgs))), p2)" "paged E p2 ?first pgs"
    using read_data_paged [OF p1(2) pgs(2) cat o(5) np] by blast
  then have p2: "read_data_with_size E ?first (sm_index_offset m) (length ?ix) (sm_num_pages m) p1 = (Inr ?ix, p2)" "paged E p2 ?first pgs"
    unfolding o(1,8) by simp_all
  have keys: "map xi_first_key ?index = map (\<lambda>b. fst (hd b)) ?blks"
    by (rule index_of_keys [OF pgs(3)])
  have "sorted_wrt (<) (map xi_first_key ?index)"
    unfolding keys using es(3) group_ne by (intro first_keys_sorted) (simp_all add: concat_group)
  moreover have "\<forall>e\<in>set ?index. length (xi_first_key e) < 2 ^ 32"
  proof -
    have "set (map xi_first_key ?index) \<subseteq> fst ` set (sw_entries w)"
    proof
      fix k assume "k \<in> set (map xi_first_key ?index)"
      then obtain b where "b \<in> set ?blks" "k = fst (hd b)" "b \<noteq> []"
        unfolding keys using group_ne by fastforce
      moreover have "set (concat ?blks) = set (sw_entries w)"
        by (simp add: concat_group)
      ultimately show "k \<in> fst ` set (sw_entries w)"
        by (metis (no_types, lifting) UN_I hd_in_set image_eqI set_concat)
    qed
    then show ?thesis
      using es(4) by fastforce
  qed
  moreover have "length ?index = length ?blks"
    using pgs(3) by (simp add: index_of_def)
  ultimately have ix: "index_from_bytes (env_libs E) ?ix = Inr ?index"
    using env assms(10) by (intro index_round_trip) (simp_all add: env_ok_def)
  show ?thesis
  proof (cases bloom)
    case None
    then show ?thesis
      using p1(1) p2 sz ix o(3) by (simp add: sst_open_def pbind_def pret_def plift_def reader_of_def footer_keys_cut_def Let_def)
  next
    case (Some f)
    then have "8 \<le> length (bloom_part bloom)"
      using o(6) by simp
    then have b: "unat (sm_bloom_filter_offset m) + length (bloom_part bloom) \<le> length (concat pgs)" "0 < length (bloom_part bloom)"
      "unat (sm_footer_offset m - sm_bloom_filter_offset m) = length (bloom_part bloom)" "sm_bloom_filter_offset m > 0"
      using Some o(2,4,5,8) by (auto simp: unat_sub word_le_nat_alt word_less_nat_alt)
    obtain p3 where "read_data_with_size E ?first (sm_bloom_filter_offset m) (length (bloom_part bloom)) (sm_num_pages m) p2 =
      (Inr (take (length (bloom_part bloom)) (drop (unat (sm_bloom_filter_offset m)) (concat pgs))), p3)" "paged E p3 ?first pgs"
      using read_data_paged [OF p2(2) pgs(2) b(1,2) np] by blast
    then have p3: "read_data_with_size E ?first (sm_bloom_filter_offset m) (length (bloom_part bloom)) (sm_num_pages m) p2 = (Inr (bloom_bytes f), p3)"
      "paged E p3 ?first pgs"
      using Some o(2) unfolding o(8) by (simp_all add: bloom_part_def)
    then show ?thesis
      using p1(1) p2(1) sz ix b(3,4) Some bloom_of_bytes_part [of f] bloom
      by (simp add: sst_open_def pbind_def pret_def plift_def reader_of_def footer_keys_cut_def Let_def)
  qed
qed

end
