(* ===== verification/SsTableLookup.thy ===== *)
theory SsTableLookup
  imports SsTableRead BTreeTable
begin

text \<open>
  Lookups in sorted string tables: a table that was written and whose parts fit on pages answers every key
  with what its version chain shows.
\<close>

section \<open>The block of a key\<close>




section \<open>The bytes of a block\<close>



section \<open>Lookups\<close>
















end
