(* ===== verification/Spec2Isabelle.thy ===== *)
theory Spec2Isabelle
  imports WalProps GroupCommit OverflowChain Memtable Composite TxnRecovery CursorScan PagedRebalance BloomPaged
    SsTableLookup
begin

text \<open>
  A verification of the storage core of nanostore, an embedded multi-model store written in Rust.

  \<^bold>\<open>The program.\<close> Everything is stored through a virtual file system (\<open>src/src/vfs\<close>), whose in-memory
  implementation the tests and the WAL run on. Above it stand two persistent structures. The
  write-ahead log (\<open>src/src/wal\<close>) appends records of transactions, makes commits durable, alone or
  in groups, and is read back by recovery. The pager (\<open>src/src/pager\<close>) stores fixed-size pages:
  it encodes each page with optional compression, encryption and a digest, keeps a file header and
  a superblock, translates virtual to physical page ids and reuses freed pages through a free list.
  Transactions (\<open>src/src/txn\<close>, \<open>src/src/snap.rs\<close>) read versions through snapshots and exclude each
  other with write locks and a deadlock detector. Tables of many kinds (\<open>src/src/table\<close>) and the
  engine use these parts.

  \<^bold>\<open>The theories.\<close> Definitions keep the names of the functions they translate; a method whose name
  several types share carries the name of its type first.

  \<^item> \<open>Prelude\<close>: little-endian integers, slices of byte strings, results (a sum with the error on the
    left), association lists kept sorted as a \<open>BTreeMap\<close> is, and the third-party codecs (compressors,
    cipher, hash) as the fields of a record \<open>libs\<close>, with their documented behaviour as the predicate
    \<open>libs_ok\<close>.
  \<^item> \<open>VfsMemory\<close>: \<open>vfs/memory.rs\<close>. A file system is a map from paths to entries and a store of file
    data by address, since handles of one file share it. Reads and writes at an offset are shown to
    behave as an array of bytes that grows with zeros.
  \<^item> \<open>PagerConfig\<close>: \<open>pager/config.rs\<close> and the errors of \<open>pager/error.rs\<close>.
  \<^item> \<open>WalRecord\<close>, \<open>WalReader\<close>, \<open>WalWriter\<close>: \<open>wal/record.rs\<close>, \<open>reader.rs\<close>, \<open>writer.rs\<close>. The record codec
    is a round trip for every compression and encryption; the reader's loops terminate because each
    record advances the offset; the writer's state holds the file, the buffer and the bytes that the
    last sync made durable.
  \<^item> \<open>WalLog\<close>, \<open>WalProps\<close>: the abstract specification of the log, a list of records that follow the
    transaction protocol (\<open>legal_log\<close>), runs of the writer as sequences of calls (\<open>writer_run\<close>), and
    what holds of every run: it refines the abstract log, is read back exactly, every legal log can
    be written, and when a commit is durable. Reopening and truncating are stated as the code does
    them, with the loss of records they cause.
  \<^item> \<open>WalRecovery\<close>: \<open>wal/recovery.rs\<close>. Recovery of every run of the writer returns the writes of the
    committed transactions; a PREPARE record makes it lose them.
  \<^item> \<open>GroupCommit\<close>: \<open>wal/commit.rs\<close>. Clients, worker thread, clock and shutdown are steps of one
    relation \<open>gc_step\<close>; an invariant of all reachable states gives that commits are answered exactly
    once and successes follow a flush.
  \<^item> \<open>Mvcc\<close>: \<open>types.rs\<close> (value references), \<open>snap.rs\<close>, \<open>txn/version.rs\<close>. Visibility against its
    specification; vacuum keeps what snapshots at or above the watermark read.
  \<^item> \<open>Conflict\<close>: \<open>txn/conflict.rs\<close>. The lock table and the depth-first search for cycles, whose fuel,
    the number of occurrences of transactions in the graph, is proved sufficient.
  \<^item> \<open>PageFormat\<close>, \<open>FileHeader\<close>, \<open>PageMapper\<close>, \<open>FreeList\<close>, \<open>Superblock\<close>: the files of \<open>pager\<close> of these
    names. Codecs as round trips; the mapper as a function with point updates, also when rebuilt
    from page headers; the free list as a page pool (locale \<open>page_pool\<close>, interpreted by the queue),
    and its counter under interleaving; allocation of page ids.
  \<^item> \<open>PageCache\<close>: \<open>pager/cache.rs\<close>. The shards with their doubly linked lists refine lists in order of
    use; the locale \<open>write_back_cache\<close> is what the pager relies on.
  \<^item> \<open>PagerFile\<close>: \<open>pager/pagefile.rs\<close> and \<open>pager/pin_table.rs\<close>. An operation is an action on the state
    of the pager, which it leaves also when it fails. \<open>PagerStore\<close> holds the invariant \<open>pager_inv\<close>, from
    bytes of the file over its slots to the store of pages the pager implements, and that allocating,
    writing, reading and freeing keep it; \<open>PagerRefine\<close> the specification, a map from ids to pages,
    and the simulation of runs of calls.
  \<^item> \<open>OverflowChain\<close>: chains of overflow pages and the stream of \<open>pager/overflow_stream.rs\<close>, over the
    store of pages.

  \<^item> \<open>TableTypes\<close>: bounds, mutations, streams and version chains as the tables share them, with what a
    reader finds after a transaction has put and committed its changes. \<open>MemoryBTree\<close> and \<open>MemoryHash\<close>:
    \<open>table/btree/memory.rs\<close> and \<open>table/hash/memory.rs\<close>, tables, writers, batches and cursors; histories of
    transactions refine maps from sequence numbers to values, and a scan gives the visible entries
    in order. \<open>Memtable\<close>: \<open>table/lsm/memtable.rs\<close>, its reads and the accounting of its memory.
  \<^item> \<open>BTreeNode\<close>, \<open>PagedBTree\<close>, \<open>PagedTable\<close>, \<open>PagedCursor\<close>, \<open>PagedRebalance\<close>: \<open>table/btree/paged.rs\<close>, the
    B-tree on pages. Nodes and their encoding; searching, inserting with the splits up to a new root,
    deleting and committing; writers and streams; cursors, index entries, statistics and the vacuum;
    merging and rebalancing, which no operation calls. A call of the tree is an action on its state,
    the pager among it.
  \<^item> \<open>PagedNodes\<close>, \<open>BTreeShape\<close>, \<open>BTreeInsert\<close>, \<open>BTreePropagate\<close>, \<open>BTreePaged\<close>, \<open>BTreeOps\<close>, \<open>BTreeTable\<close>,
    \<open>CursorScan\<close>: its correctness, in layers. The pages of the pager seen as nodes; trees as a
    datatype, with what being stored and being a search tree mean for them; the lists of entries that
    insertion and splitting make; a split handed from a leaf up its path; the operations on the root;
    reading, deleting and committing; the table over time, which refines the store of versions the
    tables in memory refine too; and scans, which show the visible rows in order.
  \<^item> \<open>BloomFilter\<close>, \<open>BloomPaged\<close>: \<open>table/bloom\<close>. The filter in memory, which never denies an inserted key;
    tombstones; and the filter on pages, whose pages cannot be read back once they have left the cache.
  \<^item> \<open>PageClient\<close>: what a user of the pager that only looks at the data of pages may rely on.
  \<^item> \<open>SsTable\<close>, \<open>SsTableFile\<close>: \<open>table/lsm/sstable.rs\<close>, sorted string tables. Footer, blocks and index with
    their formats; the writer that places them on pages that follow each other; the reader. \<open>SsTableProps\<close>
    shows what the pages of a finished table hold, \<open>SsTableRead\<close> that the reader gathers index and filter
    from them, \<open>SsTableLookup\<close> that lookups answer with the version chains that were added.
  \<^item> \<open>MemoryBlob\<close>: \<open>table/blob/memory.rs\<close>, over the encoding of blobs as a parameter.
  \<^item> \<open>GraphEdge\<close>, \<open>MemoryGraph\<close>: \<open>table/graph\<close>. Keys and records of edges as codecs, adjacency lists with
    their index, and the graph table over the model of the hash table: the edges of a vertex are those
    of a map from slots to edges, and both searches visit what is reachable.
  \<^item> \<open>Composite\<close>: \<open>table/composite.rs\<close>. The four strategies of a lookup against the primary table.
  \<^item> \<open>Transaction\<close>: \<open>txn/transaction.rs\<close>. A database is the log, the lock table, the registry of
    tables and the current sequence number; an operation of a transaction is an action on it.
    \<open>TxnTables\<close> holds what the loops of a commit do to each table, \<open>TxnProps\<close> that commits are
    atomic, succeed, and what failed commits and rollbacks leave, \<open>TxnRecovery\<close> what recovery makes
    of committed transactions and which changes a commit never shows.

  \<^bold>\<open>Interfaces.\<close> Locales state the contracts between parts and are interpreted on the definitions
  of the model in the theories that provide them: the round-trip law of the codecs, the file laws a
  log writer and reader rely on, the page pool, the cache the pager writes through, the store of
  versions the tables share, and the finite graph the searches run on.

  \<^bold>\<open>Machine integers and time.\<close> Identifiers, log sequence numbers, counters and lengths in stored
  formats are words of the source's width. Lengths of buffers and file offsets in memory are natural
  numbers. Clock readings, random nonces and the iteration orders of hash maps and sets are arguments;
  the pager and the transactions take them from an environment by a running number.

  \<^bold>\<open>Loops.\<close> Recursion is structural or has a termination proof, except where the source follows links
  stored in pages: the loops over overflow chains and over free-list pages carry fuel, and for chains
  the pager has written the number of their pages is shown to be enough. Reading a stream to its
  end carries fuel too, one step per buffer and one more, and so do the searches of a graph, two more
  than its index has entries; both are shown to suffice. The searches of the B-tree on pages and its
  walks along the leaves follow page ids as well: \<open>2 ^ 63\<close> steps are enough for every tree, since it has
  no more nodes than the pager has ids to give. The reader of a sorted string table takes at least one
  byte per round and is given as many rounds as it wants bytes; its search for the footer ends after
  10001 pages by itself.

  \<^bold>\<open>Sizes.\<close> The theorems on the B-tree on pages bound an entry, key and chain of versions together, by a
  number \<open>L\<close> such that \<open>21 + max_order * L\<close> bytes fit a page, about 50 bytes whatever the size of the page:
  entries grow in place when versions are committed or deleted, which no split follows. Those on overflow
  chains take pages that fit their slots whatever they hold, as pages with neither compression nor
  encryption do, and ids below \<open>2 ^ 32\<close>.

  \<^bold>\<open>Parameters.\<close> The encodings of postcard and of JSON are records of functions with the round-trip
  law as hypothesis; for JSON the law is restricted to a set of weights of edges, since NaN and
  infinities do not survive it. A database keeps the engines without a model in a type parameter, with their calls
  as the fields of a record; theorems on transactions are about the tables in memory.

  \<^bold>\<open>Errors.\<close> An error of a transaction carries the error of the table or of the log that caused it, the
  text of the call of the log that failed, or the text the transaction gives by itself; the texts in front
  of the errors of tables are left out. A call of the log that fails leaves the writer unchanged in
  \<open>Transaction\<close>.

  \<^bold>\<open>Threads.\<close> Calls of the writer of the log run one after the other; the interleavings of clients, worker
  and shutdown are the subject of \<open>GroupCommit\<close> alone, and the writer runs the flush of a group commit
  at once.

  \<^bold>\<open>Not modelled.\<close> Metrics and tracing, the other message texts of errors, the operating-system file
  system, the locks of the page table and the order they are taken in, the traits of special tables
  that a transaction implements, the levels, the manifest and the compaction of the LSM tree, radix,
  spatial, vector, time-series and full-text tables, the tables on plain files, and the engine; and of
  Bloom filters the estimate of false positives, which is floating-point arithmetic. The latches of the B-tree on pages have no state in the model,
  where each call runs without others in between.
\<close>

end
